(* ===== verification/Prelude.thy ===== *)
theory Prelude
  imports Main "HOL-Library.Word" "HOL-Library.Monad_Syntax"
begin

unbundle bit_operations_syntax

section \<open>Shared types, collections of rewrite rules and generic lemmas\<close>

text \<open>
  The machine types of the engine, the collections that the component theories fill and use, and
  the facts on lists, options and words that several components share.

  The engine is built for 64-bit targets, so \<open>usize\<close> is a 64-bit word. Arithmetic on
  words wraps, as release builds of the source do. A run-time panic (an out-of-range slice index,
  \<open>unwrap\<close> of \<open>None\<close>, an explicit \<open>panic!\<close>) and a memory access outside a live
  allocation are the value \<open>None\<close> of an option type.
\<close>

type_synonym u8 = "8 word"
type_synonym u16 = "16 word"
type_synonym u32 = "32 word"
type_synonym u64 = "64 word"
type_synonym usize = "64 word"

named_theorems gc_simps \<open>unfolding rules of the collector's operations\<close>
named_theorems box_simps \<open>bit patterns of boxed values\<close>
named_theorems codec_simps \<open>unfolding rules of the byte codecs\<close>
named_theorems width_simps \<open>bounds of the operand widths\<close>

subsection \<open>Lists\<close>

lemma hd_opt_cases:
  obtains "xs = []" | x ys where "xs = x # ys"
  by (cases xs) auto

lemma sum_list_map_remove1_eq:
  fixes f :: "'a \<Rightarrow> 'b::comm_monoid_add"
  shows "sum_list (map f (xs @ x # ys)) = f x + sum_list (map f (xs @ ys))"
  by (simp add: ac_simps)

lemma list_update_Cons_numeral [simp]:
  "(x # xs)[numeral k := y] = x # xs[pred_numeral k := y]"
  by (simp add: numeral_eq_Suc)

subsection \<open>Options as computations that may panic\<close>

lemma bind_Some_conv [simp]: "(Some x \<bind> f) = f x"
  by simp

lemma bind_eq_Some_iff: "(m \<bind> f) = Some y \<longleftrightarrow> (\<exists>x. m = Some x \<and> f x = Some y)"
  by (cases m) simp_all

subsection \<open>Words\<close>

lemma word_eq_bitI:
  fixes a b :: "'a::len word"
  assumes "\<And>n. n < LENGTH('a) \<Longrightarrow> bit a n = bit b n"
  shows "a = b"
  by (rule bit_word_eqI) (rule assms)

lemma unat_and_mask_mod:
  fixes a :: "'a::len word"
  shows "unat (a AND mask n) = unat a mod 2 ^ n"
  by (simp only: take_bit_eq_mask [symmetric] unsigned_take_bit_eq)
    (simp add: take_bit_eq_mod)

lemma unat_drop_bit: "unat (drop_bit n (a :: 'a::len word)) = unat a div 2 ^ n"
  by (simp only: unat_drop_bit_eq) (simp add: drop_bit_eq_div)

lemma unat_drop_bit_lt:
  fixes a :: u64
  assumes "0x80 \<le> a"
  shows "unat (drop_bit 7 a) < unat a"
proof -
  have "0 < unat a"
    using assms by (simp add: word_le_nat_alt)
  then show ?thesis
    by (simp add: unat_drop_bit)
qed

lemma bit_below_power:
  fixes x :: "'a::len word"
  assumes "unat x < 2 ^ k" and "bit x n"
  shows "n < k"
proof -
  have "take_bit k (unat x) = unat x" using assms(1) by (simp add: take_bit_nat_eq_self)
  then have "bit (take_bit k (unat x)) n" using assms(2) by (simp add: bit_unsigned_iff bit_imp_le_length)
  then show ?thesis by (simp add: bit_take_bit_iff)
qed

text \<open>
  The masks of the byte encodings as blocks of ones. The simplifier reads the bits of a word numeral
  as bits of the integer numeral, so the rules are about integers.
\<close>

lemma bit_ones: "bit (push_bit j (mask k) :: int) n \<longleftrightarrow> j \<le> n \<and> n < j + k"
  by (auto simp: bit_simps)

lemma byte_mask_bits:
  "bit (0x80 :: int) n \<longleftrightarrow> n = 7" "bit (0x7F :: int) n \<longleftrightarrow> n < 7"
  "bit (0xC0 :: int) n \<longleftrightarrow> n = 6 \<or> n = 7" "bit (0xE0 :: int) n \<longleftrightarrow> 5 \<le> n \<and> n < 8"
  "bit (0xF0 :: int) n \<longleftrightarrow> 4 \<le> n \<and> n < 8" "bit (0xF8 :: int) n \<longleftrightarrow> 3 \<le> n \<and> n < 8"
  "bit (0x3F :: int) n \<longleftrightarrow> n < 6" "bit (0x1F :: int) n \<longleftrightarrow> n < 5"
  "bit (0x0F :: int) n \<longleftrightarrow> n < 4" "bit (0x07 :: int) n \<longleftrightarrow> n < 3"
  "bit (0x3FF :: int) n \<longleftrightarrow> n < 10"
proof -
  have eqs: "(0x80 :: int) = push_bit 7 (mask 1)" "(0x7F :: int) = push_bit 0 (mask 7)"
    "(0xC0 :: int) = push_bit 6 (mask 2)" "(0xE0 :: int) = push_bit 5 (mask 3)"
    "(0xF0 :: int) = push_bit 4 (mask 4)" "(0xF8 :: int) = push_bit 3 (mask 5)"
    "(0x3F :: int) = push_bit 0 (mask 6)" "(0x1F :: int) = push_bit 0 (mask 5)"
    "(0x0F :: int) = push_bit 0 (mask 4)" "(0x07 :: int) = push_bit 0 (mask 3)"
    "(0x3FF :: int) = push_bit 0 (mask 10)"
    by (simp_all add: mask_eq_exp_minus_1 push_bit_eq_mult)
  show "bit (0x80 :: int) n \<longleftrightarrow> n = 7" by (simp only: eqs(1) bit_ones) auto
  show "bit (0x7F :: int) n \<longleftrightarrow> n < 7" by (simp only: eqs(2) bit_ones) auto
  show "bit (0xC0 :: int) n \<longleftrightarrow> n = 6 \<or> n = 7" by (simp only: eqs(3) bit_ones) auto
  show "bit (0xE0 :: int) n \<longleftrightarrow> 5 \<le> n \<and> n < 8" by (simp only: eqs(4) bit_ones) auto
  show "bit (0xF0 :: int) n \<longleftrightarrow> 4 \<le> n \<and> n < 8" by (simp only: eqs(5) bit_ones) auto
  show "bit (0xF8 :: int) n \<longleftrightarrow> 3 \<le> n \<and> n < 8" by (simp only: eqs(6) bit_ones) auto
  show "bit (0x3F :: int) n \<longleftrightarrow> n < 6" by (simp only: eqs(7) bit_ones) auto
  show "bit (0x1F :: int) n \<longleftrightarrow> n < 5" by (simp only: eqs(8) bit_ones) auto
  show "bit (0x0F :: int) n \<longleftrightarrow> n < 4" by (simp only: eqs(9) bit_ones) auto
  show "bit (0x07 :: int) n \<longleftrightarrow> n < 3" by (simp only: eqs(10) bit_ones) auto
  show "bit (0x3FF :: int) n \<longleftrightarrow> n < 10" by (simp only: eqs(11) bit_ones) auto
qed

end
