(* ===== verification/Gc_Heap.thy ===== *)
theory Gc_Heap
  imports Prelude
begin

unbundle bit_operations_syntax

section \<open>The heap of the tri-color mark-sweep collector\<close>

text \<open>
  The crate \<open>so2js_gc\<close>: object headers (\<open>gc_header.rs\<close>), the gray queue
  (\<open>gray_queue.rs\<close>), the visitor traits (\<open>visitor.rs\<close>) and the heap with its
  incremental collection cycle (\<open>heap.rs\<close>). Memory is a map from header addresses to headers:
  an address outside the domain is not a live allocation, and reading or writing a header there is
  \<open>None\<close>. The runtime enters through the trait \<open>GcContext\<close>, the record
  \<open>gc_context\<close> of its three methods over a runtime state \<open>'c\<close>.
\<close>

subsection \<open>Headers\<close>

datatype gc_color = White | Gray | Black

datatype gc_phase = Idle | RootScanning | Marking | WeakRefProcessing | Sweeping

type_synonym addr = usize

record gc_header =
  color :: gc_color
  alloc_size :: usize
  next_object :: "addr option"

definition HEADER_SIZE :: usize where
  "HEADER_SIZE = 24"

definition HEADER_ALIGN :: usize where
  "HEADER_ALIGN = 8"

definition header_new :: "usize \<Rightarrow> gc_header" where
  "header_new sz = \<lparr>color = White, alloc_size = sz, next_object = None\<rparr>"

definition total_size :: "gc_header \<Rightarrow> usize" where
  "total_size hr = HEADER_SIZE + alloc_size hr"

definition object_ptr :: "addr \<Rightarrow> addr" where
  "object_ptr a = a + HEADER_SIZE"

definition from_object_ptr :: "addr \<Rightarrow> addr" where
  "from_object_ptr p = p - HEADER_SIZE"

definition is_marked :: "gc_header \<Rightarrow> bool" where
  "is_marked hr \<longleftrightarrow> color hr \<noteq> White"

definition needs_scanning :: "gc_header \<Rightarrow> bool" where
  "needs_scanning hr \<longleftrightarrow> color hr = Gray"

definition align_up :: "usize \<Rightarrow> usize \<Rightarrow> usize" where
  "align_up value align = (value + align - 1) AND NOT (align - 1)"

text \<open>
  \<open>Layout::from_size_align(total, 8).unwrap()\<close> panics when the size exceeds
  \<open>isize::MAX\<close> less seven.
\<close>

definition layout_for_size :: "usize \<Rightarrow> usize option" where
  "layout_for_size sz =
     (let total = align_up (HEADER_SIZE + sz) HEADER_ALIGN
      in if total \<le> 0x7FFFFFFFFFFFFFF8 then Some total else None)"

subsection \<open>Pointers and the gray queue\<close>

text \<open>A \<open>GcPtr\<close> is the dangling sentinel of its type or the address of an object's data.\<close>

datatype gc_ptr = Dangling | Ptr addr

primrec is_dangling :: "gc_ptr \<Rightarrow> bool" where
  "is_dangling Dangling = True"
| "is_dangling (Ptr p) = False"

type_synonym gray_queue = "addr list"

definition gray_new :: gray_queue where
  "gray_new = []"

definition gray_is_empty :: "gray_queue \<Rightarrow> bool" where
  "gray_is_empty q \<longleftrightarrow> q = []"

definition gray_len :: "gray_queue \<Rightarrow> nat" where
  "gray_len q = length q"

definition gray_push :: "gray_queue \<Rightarrow> addr \<Rightarrow> gray_queue" where
  "gray_push q a = q @ [a]"

definition gray_pop :: "gray_queue \<Rightarrow> (addr \<times> gray_queue) option" where
  "gray_pop q = (if q = [] then None else Some (last q, butlast q))"

definition gray_clear :: "gray_queue \<Rightarrow> gray_queue" where
  "gray_clear q = []"

subsection \<open>The heap\<close>

record heap =
  memory :: "addr \<rightharpoonup> gc_header"
  all_objects :: "addr option"
  bytes_allocated :: usize
  num_objects :: usize
  gc_threshold :: usize
  gray_queue :: gray_queue
  phase :: gc_phase
  sweep_prev :: "addr option"
  sweep_current :: "addr option"
  bytes_freed_this_cycle :: usize
  objects_freed_this_cycle :: usize

record 'c gc_context =
  visit_roots :: "'c \<Rightarrow> gc_ptr list"
  trace_object :: "'c \<Rightarrow> addr \<Rightarrow> gc_ptr list"
  process_weak_refs :: "heap \<Rightarrow> 'c \<Rightarrow> 'c"

definition DEFAULT_MARK_STEP_SIZE :: nat where
  "DEFAULT_MARK_STEP_SIZE = 100"

definition DEFAULT_SWEEP_STEP_SIZE :: nat where
  "DEFAULT_SWEEP_STEP_SIZE = 100"

definition DEFAULT_GC_THRESHOLD :: usize where
  "DEFAULT_GC_THRESHOLD = 1024 * 1024"

definition heap_new :: heap where
  "heap_new = \<lparr>memory = Map.empty, all_objects = None, bytes_allocated = 0, num_objects = 0,
     gc_threshold = DEFAULT_GC_THRESHOLD, gray_queue = gray_new, phase = Idle,
     sweep_prev = None, sweep_current = None,
     bytes_freed_this_cycle = 0, objects_freed_this_cycle = 0\<rparr>"

definition gc_in_progress :: "heap \<Rightarrow> bool" where
  "gc_in_progress h \<longleftrightarrow> phase h \<noteq> Idle"

definition is_marking :: "heap \<Rightarrow> bool" where
  "is_marking h \<longleftrightarrow> phase h = RootScanning \<or> phase h = Marking"

definition should_gc :: "heap \<Rightarrow> bool" where
  "should_gc h \<longleftrightarrow> bytes_allocated h > gc_threshold h \<and> phase h = Idle"

text \<open>Writes through a header pointer.\<close>

definition set_color :: "heap \<Rightarrow> addr \<Rightarrow> gc_color \<Rightarrow> heap option" where
  "set_color h a c = (case memory h a of None \<Rightarrow> None
     | Some hr \<Rightarrow> Some (h\<lparr>memory := (memory h)(a \<mapsto> hr\<lparr>color := c\<rparr>)\<rparr>))"

definition set_next_object :: "heap \<Rightarrow> addr \<Rightarrow> addr option \<Rightarrow> heap option" where
  "set_next_object h a n = (case memory h a of None \<Rightarrow> None
     | Some hr \<Rightarrow> Some (h\<lparr>memory := (memory h)(a \<mapsto> hr\<lparr>next_object := n\<rparr>)\<rparr>))"

definition dealloc :: "heap \<Rightarrow> addr \<Rightarrow> heap" where
  "dealloc h a = h\<lparr>memory := (memory h)(a := None)\<rparr>"

subsection \<open>Marking helpers, the write barrier and weak references\<close>

definition mark_gray_raw :: "heap \<Rightarrow> addr \<Rightarrow> heap option" where
  "mark_gray_raw h p =
     (if p = 0 then Some h
      else let a = from_object_ptr p in
        (case memory h a of None \<Rightarrow> None
         | Some hr \<Rightarrow>
             if color hr = White
             then map_option (\<lambda>h'. h'\<lparr>gray_queue := gray_push (gray_queue h') a\<rparr>)
                    (set_color h a Gray)
             else Some h))"

definition mark_gray_ptr :: "heap \<Rightarrow> gc_ptr \<Rightarrow> heap option" where
  "mark_gray_ptr h ptr = (case ptr of Dangling \<Rightarrow> Some h | Ptr p \<Rightarrow> mark_gray_raw h p)"

definition write_barrier :: "heap \<Rightarrow> gc_ptr \<Rightarrow> heap option" where
  "write_barrier h target =
     (if is_marking h \<and> \<not> is_dangling target then mark_gray_ptr h target else Some h)"

definition write_barrier_raw :: "heap \<Rightarrow> addr \<Rightarrow> heap option" where
  "write_barrier_raw h target =
     (if is_marking h \<and> target \<noteq> 0 then mark_gray_raw h target else Some h)"

definition is_alive_raw :: "heap \<Rightarrow> addr \<Rightarrow> bool option" where
  "is_alive_raw h p =
     (if p = 0 then Some False
      else map_option (\<lambda>hr. color hr \<noteq> White) (memory h (from_object_ptr p)))"

definition is_alive :: "heap \<Rightarrow> gc_ptr \<Rightarrow> bool option" where
  "is_alive h ptr = (case ptr of Dangling \<Rightarrow> Some False
     | Ptr p \<Rightarrow> map_option (\<lambda>hr. color hr \<noteq> White) (memory h (from_object_ptr p)))"

text \<open>\<open>Marker\<close>, the \<open>GcVisitor\<close> that the collector hands to the runtime.\<close>

definition visit :: "heap \<Rightarrow> gc_ptr \<Rightarrow> heap option" where
  "visit h ptr =
     (case ptr of Dangling \<Rightarrow> Some h
      | Ptr p \<Rightarrow>
          if p = 0 then Some h
          else let a = from_object_ptr p in
            (case memory h a of None \<Rightarrow> None
             | Some hr \<Rightarrow>
                 if color hr = White
                 then map_option (\<lambda>h'. h'\<lparr>gray_queue := gray_push (gray_queue h') a\<rparr>)
                        (set_color h a Gray)
                 else Some h))"

definition visit_opt :: "heap \<Rightarrow> gc_ptr option \<Rightarrow> heap option" where
  "visit_opt h ptr = (case ptr of None \<Rightarrow> Some h | Some p \<Rightarrow> visit h p)"

definition visit_weak :: "heap \<Rightarrow> gc_ptr \<Rightarrow> heap option" where
  "visit_weak h ptr = Some h"

text \<open>The calls of \<open>visit\<close> that \<open>visit_roots\<close> and \<open>trace_object\<close> make, in order.\<close>

primrec visit_all :: "heap \<Rightarrow> gc_ptr list \<Rightarrow> heap option" where
  "visit_all h [] = Some h"
| "visit_all h (p # ps) = (case visit h p of None \<Rightarrow> None | Some h' \<Rightarrow> visit_all h' ps)"

subsection \<open>The collection cycle\<close>

definition start_gc :: "'c gc_context \<Rightarrow> 'c \<Rightarrow> heap \<Rightarrow> heap option" where
  "start_gc ctx c h =
     (if gc_in_progress h then Some h
      else map_option (\<lambda>h'. h'\<lparr>phase := Marking\<rparr>)
        (visit_all
           (h\<lparr>phase := RootScanning, bytes_freed_this_cycle := 0, objects_freed_this_cycle := 0\<rparr>)
           (visit_roots ctx c)))"

fun mark_step :: "'c gc_context \<Rightarrow> 'c \<Rightarrow> nat \<Rightarrow> heap \<Rightarrow> heap option" where
  "mark_step ctx c 0 h = Some h"
| "mark_step ctx c (Suc work) h =
     (case gray_pop (gray_queue h) of
        Some (a, q) \<Rightarrow>
          (case set_color (h\<lparr>gray_queue := q\<rparr>) a Black of None \<Rightarrow> None
           | Some h1 \<Rightarrow>
               (case visit_all h1 (trace_object ctx c (object_ptr a)) of None \<Rightarrow> None
                | Some h2 \<Rightarrow> mark_step ctx c work h2))
      | None \<Rightarrow> Some (h\<lparr>phase := WeakRefProcessing\<rparr>))"

definition finish_sweep :: "heap \<Rightarrow> heap" where
  "finish_sweep h =
     (let bytes = bytes_allocated h - bytes_freed_this_cycle h
      in h\<lparr>bytes_allocated := bytes,
           num_objects := num_objects h - objects_freed_this_cycle h,
           gc_threshold := max (bytes * 2) DEFAULT_GC_THRESHOLD,
           phase := Idle,
           sweep_prev := None,
           sweep_current := None,
           bytes_freed_this_cycle := 0,
           objects_freed_this_cycle := 0\<rparr>)"

text \<open>The body of the sweep loop at one object, up to the update of \<open>sweep_current\<close>.\<close>

definition sweep_object :: "heap \<Rightarrow> addr \<Rightarrow> gc_header \<Rightarrow> heap option" where
  "sweep_object h a hr =
     (if color hr = White
      then
        (case (case sweep_prev h of Some p \<Rightarrow> set_next_object h p (next_object hr)
               | None \<Rightarrow> Some (h\<lparr>all_objects := next_object hr\<rparr>)) of None \<Rightarrow> None
         | Some h1 \<Rightarrow>
             (case layout_for_size (alloc_size hr) of None \<Rightarrow> None
              | Some layout \<Rightarrow>
                  Some (dealloc
                    (h1\<lparr>bytes_freed_this_cycle := bytes_freed_this_cycle h1 + total_size hr,
                        objects_freed_this_cycle := objects_freed_this_cycle h1 + 1\<rparr>) a)))
      else map_option (\<lambda>h1. h1\<lparr>sweep_prev := Some a\<rparr>) (set_color h a White))"

fun sweep_step :: "nat \<Rightarrow> heap \<Rightarrow> heap option" where
  "sweep_step 0 h = Some h"
| "sweep_step (Suc work) h =
     (case sweep_current h of
        Some a \<Rightarrow>
          (case memory h a of None \<Rightarrow> None
           | Some hr \<Rightarrow>
               (case sweep_object h a hr of None \<Rightarrow> None
                | Some h1 \<Rightarrow> sweep_step work (h1\<lparr>sweep_current := next_object hr\<rparr>)))
      | None \<Rightarrow> Some (finish_sweep h))"

definition gc_step :: "'c gc_context \<Rightarrow> 'c \<Rightarrow> heap \<Rightarrow> (heap \<times> 'c \<times> bool) option" where
  "gc_step ctx c h =
     (case phase h of
        Idle \<Rightarrow> Some (h, c, False)
      | RootScanning \<Rightarrow> Some (h\<lparr>phase := Marking\<rparr>, c, True)
      | Marking \<Rightarrow>
          map_option (\<lambda>h'. (h', c, phase h' \<noteq> Idle)) (mark_step ctx c DEFAULT_MARK_STEP_SIZE h)
      | WeakRefProcessing \<Rightarrow>
          Some (h\<lparr>phase := Sweeping, sweep_prev := None, sweep_current := all_objects h\<rparr>,
                process_weak_refs ctx h c, True)
      | Sweeping \<Rightarrow>
          map_option (\<lambda>h'. (h', c, phase h' \<noteq> Idle)) (sweep_step DEFAULT_SWEEP_STEP_SIZE h))"

partial_function (option) finish_gc ::
  "'c gc_context \<Rightarrow> 'c \<Rightarrow> heap \<Rightarrow> nat \<Rightarrow> (heap \<times> 'c \<times> nat) option" where
  "finish_gc ctx c h steps =
     Option.bind (gc_step ctx c h)
       (\<lambda>(h', c', in_progress).
          if in_progress then finish_gc ctx c' h' (steps + 1) else Some (h', c', steps + 1))"

text \<open>\<open>Context::run_gc\<close> of the runtime: one full cycle.\<close>

definition run_gc :: "'c gc_context \<Rightarrow> 'c \<Rightarrow> heap \<Rightarrow> (heap \<times> 'c) option" where
  "run_gc ctx c h =
     (case start_gc ctx c h of None \<Rightarrow> None
      | Some h1 \<Rightarrow> map_option (\<lambda>(h2, c', steps). (h2, c')) (finish_gc ctx c h1 0))"

subsection \<open>Allocation\<close>

datatype alloc_error = AllocError

text \<open>
  \<open>malloc\<close> stands for the global allocator: given the live allocations and a layout size it
  returns the address of a fresh block, or \<open>None\<close> for a null pointer.
\<close>

definition alloc_with_size ::
  "((addr \<rightharpoonup> gc_header) \<Rightarrow> usize \<Rightarrow> addr option) \<Rightarrow> 'c gc_context \<Rightarrow> 'c \<Rightarrow> usize \<Rightarrow> usize \<Rightarrow> heap
     \<Rightarrow> (heap \<times> 'c \<times> (alloc_error + addr)) option" where
  "alloc_with_size malloc ctx c sz align h =
     (case (if gc_in_progress h then gc_step ctx c h else Some (h, c, False)) of None \<Rightarrow> None
      | Some (h1, c1, _) \<Rightarrow>
          if align > HEADER_ALIGN then Some (h1, c1, Inl AllocError)
          else
            (case layout_for_size sz of None \<Rightarrow> None
             | Some layout \<Rightarrow>
                 (case malloc (memory h1) layout of
                    None \<Rightarrow> Some (h1, c1, Inl AllocError)
                  | Some a \<Rightarrow>
                      let hr = (header_new sz)
                                 \<lparr>color := (if gc_in_progress h1 then Black else White),
                                  next_object := all_objects h1\<rparr>
                      in Some (h1\<lparr>memory := (memory h1)(a \<mapsto> hr),
                                  all_objects := Some a,
                                  bytes_allocated := bytes_allocated h1 + total_size hr,
                                  num_objects := num_objects h1 + 1\<rparr>,
                               c1, Inr (object_ptr a)))))"

lemma from_object_ptr_object_ptr [simp]: "from_object_ptr (object_ptr a) = a"
  by (simp add: from_object_ptr_def object_ptr_def)

lemma visit_eq_mark_gray_ptr: "visit h p = mark_gray_ptr h p"
  by (simp add: visit_def mark_gray_ptr_def mark_gray_raw_def split: gc_ptr.splits)

end
