(* ===== verification/Gc_Mark.thy ===== *)
theory Gc_Mark
  imports Gc_Heap
begin

section \<open>Marking: the tri-color invariant\<close>

text \<open>
  Reachability through the runtime's \<open>visit_roots\<close> and \<open>trace_object\<close>, the invariant
  that \<open>Marker::visit\<close>, \<open>start_gc\<close> and \<open>mark_step\<close> keep, and what holds
  when the gray queue runs empty: the black objects are exactly the reachable ones.
\<close>

primrec target :: "gc_ptr \<Rightarrow> addr option" where
  "target Dangling = None"
| "target (Ptr p) = (if p = 0 then None else Some (from_object_ptr p))"

definition targets :: "gc_ptr list \<Rightarrow> addr set" where
  "targets ps = {a. \<exists>p \<in> set ps. target p = Some a}"

lemma targets_Nil [simp]: "targets [] = {}"
  by (simp add: targets_def)

lemma targets_Cons [simp]: "targets (p # ps) = set_option (target p) \<union> targets ps"
  by (auto simp: targets_def)

abbreviation children :: "'c gc_context \<Rightarrow> 'c \<Rightarrow> addr \<Rightarrow> addr set" where
  "children ctx c a \<equiv> targets (trace_object ctx c (object_ptr a))"

inductive reach :: "'c gc_context \<Rightarrow> 'c \<Rightarrow> addr \<Rightarrow> bool" for ctx c where
  root: "a \<in> targets (visit_roots ctx c) \<Longrightarrow> reach ctx c a"
| step: "reach ctx c a \<Longrightarrow> b \<in> children ctx c a \<Longrightarrow> reach ctx c b"

text \<open>The colors of a heap and the part of memory that marking never writes.\<close>

definition colored :: "heap \<Rightarrow> gc_color \<Rightarrow> addr set" where
  "colored h c = {a. \<exists>hr. memory h a = Some hr \<and> color hr = c}"

abbreviation nonwhite :: "heap \<Rightarrow> addr set" where
  "nonwhite h \<equiv> colored h Gray \<union> colored h Black"

definition skel :: "(addr \<rightharpoonup> gc_header) \<Rightarrow> addr \<Rightarrow> (usize \<times> addr option) option" where
  "skel m a = map_option (\<lambda>hr. (alloc_size hr, next_object hr)) (m a)"

definition queue_ok :: "heap \<Rightarrow> bool" where
  "queue_ok h \<longleftrightarrow> distinct (gray_queue h) \<and> set (gray_queue h) = colored h Gray"

lemma dom_skel_conv: "dom m = dom (skel m)"
  by (auto simp: skel_def)

lemma dom_skel: "skel m = skel m' \<Longrightarrow> dom m = dom m'"
  by (simp add: dom_skel_conv)

lemma skel_SomeE:
  assumes "skel m = skel m'" and "m a = Some hr"
  obtains hr' where "m' a = Some hr'" "alloc_size hr' = alloc_size hr" "next_object hr' = next_object hr"
proof -
  have "skel m a = skel m' a" using assms(1) by simp
  then show ?thesis using assms(2) that by (cases "m' a") (auto simp: skel_def)
qed

lemma skel_color_upd [simp]:
  "m a = Some hr \<Longrightarrow> skel (m(a \<mapsto> hr\<lparr>color := k\<rparr>)) = skel m"
  by (auto simp: skel_def fun_eq_iff)

lemma colored_subset_dom: "colored h k \<subseteq> dom (memory h)"
  by (auto simp: colored_def)

lemma dom_eq_colored: "dom (memory h) = colored h White \<union> nonwhite h"
  by (auto simp: colored_def) (metis gc_color.exhaust)

lemma colored_upd:
  assumes "memory h a = Some hr"
  shows "colored (h\<lparr>memory := (memory h)(a \<mapsto> hr\<lparr>color := k\<rparr>), gray_queue := q\<rparr>) k' =
           (if k' = k then insert a (colored h k') else colored h k' - {a})"
  using assms by (auto simp: colored_def)

lemma colored_disjoint: "k \<noteq> k' \<Longrightarrow> colored h k \<inter> colored h k' = {}"
  by (auto simp: colored_def)

subsection \<open>One visit\<close>

lemma visit_cases:
  assumes "\<And>a. target p = Some a \<Longrightarrow> a \<in> dom (memory h)"
  obtains "visit h p = Some h"
      and "\<And>a. target p = Some a \<Longrightarrow> a \<in> nonwhite h"
  | a hr where "target p = Some a" "memory h a = Some hr" "color hr = White"
      "visit h p = Some (h\<lparr>memory := (memory h)(a \<mapsto> hr\<lparr>color := Gray\<rparr>),
                            gray_queue := gray_queue h @ [a]\<rparr>)"
proof (cases "target p")
  case None
  then have "visit h p = Some h"
    by (cases p) (auto simp: visit_def split: if_splits)
  with None show ?thesis by (intro that(1)) auto
next
  case (Some a)
  then obtain hr where hr: "memory h a = Some hr"
    using assms by blast
  from Some obtain q where q: "p = Ptr q" "q \<noteq> 0" "a = from_object_ptr q"
    by (cases p) (auto split: if_splits)
  show ?thesis
  proof (cases "color hr = White")
    case True
    with q hr have "visit h p = Some (h\<lparr>memory := (memory h)(a \<mapsto> hr\<lparr>color := Gray\<rparr>),
                            gray_queue := gray_queue h @ [a]\<rparr>)"
      by (simp add: visit_def set_color_def gray_push_def Let_def)
    with Some hr True show ?thesis by (rule that(2))
  next
    case False
    with q hr have "visit h p = Some h" by (simp add: visit_def)
    moreover from False hr have "a \<in> nonwhite h"
      by (cases "color hr") (auto simp: colored_def)
    ultimately show ?thesis using Some by (intro that(1)) auto
  qed
qed

text \<open>What the marking phase leaves unchanged.\<close>

definition mark_frame :: "heap \<Rightarrow> heap \<Rightarrow> bool" where
  "mark_frame h h' \<longleftrightarrow>
     skel (memory h') = skel (memory h) \<and> all_objects h' = all_objects h \<and>
     bytes_allocated h' = bytes_allocated h \<and> num_objects h' = num_objects h \<and>
     gc_threshold h' = gc_threshold h \<and>
     bytes_freed_this_cycle h' = bytes_freed_this_cycle h \<and>
     objects_freed_this_cycle h' = objects_freed_this_cycle h"

lemma mark_frame_refl: "mark_frame h h"
  by (simp add: mark_frame_def)

lemma mark_frame_trans: "mark_frame h h' \<Longrightarrow> mark_frame h' h'' \<Longrightarrow> mark_frame h h''"
  by (simp add: mark_frame_def)

lemma mark_frame_dom: "mark_frame h h' \<Longrightarrow> dom (memory h') = dom (memory h)"
  unfolding mark_frame_def by (blast dest: dom_skel)

definition marks_to :: "heap \<Rightarrow> addr set \<Rightarrow> heap \<Rightarrow> bool" where
  "marks_to h A h' \<longleftrightarrow>
     mark_frame h h' \<and> phase h' = phase h \<and>
     queue_ok h' \<and> colored h' Black = colored h Black \<and> nonwhite h' = nonwhite h \<union> A"

lemma marks_to_refl: "queue_ok h \<Longrightarrow> A \<subseteq> nonwhite h \<Longrightarrow> marks_to h A h"
  by (auto simp: marks_to_def mark_frame_refl)

lemma marks_to_trans:
  assumes "marks_to h A h'" and "marks_to h' B h''"
  shows "marks_to h (A \<union> B) h''"
  using assms unfolding marks_to_def by (auto intro: mark_frame_trans)

lemma visit_marks:
  assumes q: "queue_ok h" and "\<And>a. target p = Some a \<Longrightarrow> a \<in> dom (memory h)"
  shows "\<exists>h'. visit h p = Some h' \<and> marks_to h (set_option (target p)) h'"
proof (rule visit_cases [of p h])
  show "\<And>a. target p = Some a \<Longrightarrow> a \<in> dom (memory h)" by (rule assms(2))
next
  assume "visit h p = Some h" and "\<And>a. target p = Some a \<Longrightarrow> a \<in> nonwhite h"
  then show ?thesis using q by (auto intro!: marks_to_refl)
next
  fix a hr
  let ?h = "h\<lparr>memory := (memory h)(a \<mapsto> hr\<lparr>color := Gray\<rparr>), gray_queue := gray_queue h @ [a]\<rparr>"
  assume hr: "target p = Some a" "memory h a = Some hr" "color hr = White" "visit h p = Some ?h"
  then have a: "a \<in> colored h White" by (auto simp: colored_def)
  then have "a \<notin> colored h Gray" "a \<notin> colored h Black"
    using colored_disjoint [of White Gray h] colored_disjoint [of White Black h] by auto
  then have "marks_to h {a} ?h"
    using q hr unfolding marks_to_def queue_ok_def mark_frame_def
    by (simp add: colored_upd)
  with hr show ?thesis by simp
qed

lemma visit_all_marks:
  assumes "queue_ok h" and "targets ps \<subseteq> dom (memory h)"
  shows "\<exists>h'. visit_all h ps = Some h' \<and> marks_to h (targets ps) h'"
  using assms
proof (induction ps arbitrary: h)
  case Nil
  then show ?case by (auto intro: marks_to_refl)
next
  case (Cons p ps)
  obtain h1 where h1: "visit h p = Some h1" "marks_to h (set_option (target p)) h1"
    using visit_marks [OF Cons.prems(1), of p] Cons.prems(2) by auto
  then have "queue_ok h1" and d: "dom (memory h1) = dom (memory h)"
    by (simp_all add: marks_to_def mark_frame_dom)
  moreover have "targets ps \<subseteq> dom (memory h1)"
    using Cons.prems(2) d by simp
  ultimately obtain h2 where h2: "visit_all h1 ps = Some h2" "marks_to h1 (targets ps) h2"
    using Cons.IH by blast
  from marks_to_trans [OF h1(2) h2(2)] h1(1) h2(1) show ?case by simp
qed

subsection \<open>The tri-color invariant\<close>

definition mark_inv :: "'c gc_context \<Rightarrow> 'c \<Rightarrow> heap \<Rightarrow> bool" where
  "mark_inv ctx c h \<longleftrightarrow>
     queue_ok h \<and>
     (\<forall>a \<in> colored h Black. children ctx c a \<subseteq> nonwhite h) \<and>
     targets (visit_roots ctx c) \<subseteq> nonwhite h \<and>
     (\<forall>a \<in> nonwhite h. reach ctx c a)"

definition heap_safe :: "'c gc_context \<Rightarrow> 'c \<Rightarrow> heap \<Rightarrow> bool" where
  "heap_safe ctx c h \<longleftrightarrow> (\<forall>a. reach ctx c a \<longrightarrow> a \<in> dom (memory h))"

lemma heap_safe_frame: "heap_safe ctx c h \<Longrightarrow> mark_frame h h' \<Longrightarrow> heap_safe ctx c h'"
  by (simp add: heap_safe_def mark_frame_dom)

text \<open>When no gray object is left, black means reachable.\<close>

lemma mark_inv_done:
  assumes "mark_inv ctx c h" and "gray_queue h = []"
  shows "colored h Gray = {}" and "colored h Black = {a. reach ctx c a}"
proof -
  show g: "colored h Gray = {}"
    using assms by (simp add: mark_inv_def queue_ok_def)
  have "a \<in> colored h Black" if "reach ctx c a" for a
    using that
  proof induction
    case (root a)
    then show ?case using assms(1) g by (auto simp: mark_inv_def)
  next
    case (step a b)
    then show ?case using assms(1) g by (auto simp: mark_inv_def)
  qed
  then show "colored h Black = {a. reach ctx c a}"
    using assms(1) by (auto simp: mark_inv_def)
qed

subsection \<open>Root scanning\<close>

definition all_white :: "heap \<Rightarrow> bool" where
  "all_white h \<longleftrightarrow> nonwhite h = {} \<and> gray_queue h = []"

lemma start_gc_marks:
  assumes "phase h = Idle" and "all_white h" and "heap_safe ctx c h"
  shows "\<exists>h'. start_gc ctx c h = Some h' \<and> mark_inv ctx c h' \<and> phase h' = Marking \<and>
           mark_frame (h\<lparr>bytes_freed_this_cycle := 0, objects_freed_this_cycle := 0\<rparr>) h'"
proof -
  let ?h = "h\<lparr>phase := RootScanning, bytes_freed_this_cycle := 0, objects_freed_this_cycle := 0\<rparr>"
  have c0: "colored ?h k = colored h k" for k by (simp add: colored_def)
  have "queue_ok ?h"
    using assms(2) by (simp add: queue_ok_def c0 all_white_def)
  moreover have "targets (visit_roots ctx c) \<subseteq> dom (memory ?h)"
    using assms(3) by (auto simp: heap_safe_def intro: reach.root)
  ultimately obtain h1 where h1: "visit_all ?h (visit_roots ctx c) = Some h1"
    and m: "marks_to ?h (targets (visit_roots ctx c)) h1"
    using visit_all_marks by blast
  let ?h1 = "h1\<lparr>phase := Marking\<rparr>"
  have c1: "colored ?h1 k = colored h1 k" for k by (simp add: colored_def)
  have "mark_inv ctx c ?h1"
    using m assms(2) unfolding mark_inv_def marks_to_def queue_ok_def c1 all_white_def c0
    by (auto intro: reach.root)
  moreover have "mark_frame (h\<lparr>bytes_freed_this_cycle := 0, objects_freed_this_cycle := 0\<rparr>) ?h1"
    using m unfolding marks_to_def mark_frame_def by simp
  ultimately show ?thesis
    using h1 assms(1) by (auto simp: start_gc_def gc_in_progress_def)
qed

subsection \<open>Marking steps\<close>

lemma gray_pop_Some:
  assumes "gray_pop q = Some (a, q')"
  shows "q = q' @ [a]"
  using assms by (auto simp: gray_pop_def split: if_splits)

lemma mark_one:
  assumes inv: "mark_inv ctx c h" and safe: "heap_safe ctx c h"
    and pop: "gray_pop (gray_queue h) = Some (a, q)"
  shows "\<exists>h1 h2. set_color (h\<lparr>gray_queue := q\<rparr>) a Black = Some h1 \<and>
           visit_all h1 (trace_object ctx c (object_ptr a)) = Some h2 \<and>
           mark_inv ctx c h2 \<and> mark_frame h h2 \<and> phase h2 = phase h \<and>
           colored h2 Black = insert a (colored h Black) \<and> a \<notin> colored h Black"
proof -
  have q: "gray_queue h = q @ [a]" by (rule gray_pop_Some [OF pop])
  then have a: "a \<in> colored h Gray"
    using inv by (auto simp: mark_inv_def queue_ok_def)
  then obtain hr where hr: "memory h a = Some hr" "color hr = Gray"
    by (auto simp: colored_def)
  let ?h1 = "h\<lparr>memory := (memory h)(a \<mapsto> hr\<lparr>color := Black\<rparr>), gray_queue := q\<rparr>"
  have s: "set_color (h\<lparr>gray_queue := q\<rparr>) a Black = Some ?h1"
    using hr by (simp add: set_color_def)
  have col: "colored ?h1 k = (if k = Black then insert a (colored h k) else colored h k - {a})" for k
    using hr by (simp only: colored_upd)
  have "reach ctx c a" using inv a by (auto simp: mark_inv_def)
  then have kids: "b \<in> children ctx c a \<Longrightarrow> reach ctx c b" for b by (rule reach.step)
  have "queue_ok ?h1"
    using inv q unfolding mark_inv_def queue_ok_def col by auto
  moreover have "children ctx c a \<subseteq> dom (memory ?h1)"
    using kids safe hr by (auto simp: heap_safe_def)
  ultimately obtain h2 where h2: "visit_all ?h1 (trace_object ctx c (object_ptr a)) = Some h2"
    and m: "marks_to ?h1 (children ctx c a) h2"
    using visit_all_marks by blast
  have nw: "nonwhite h2 = nonwhite h \<union> children ctx c a"
    and bl: "colored h2 Black = insert a (colored h Black)"
    using m a unfolding marks_to_def col by auto
  have "mark_inv ctx c h2"
    unfolding mark_inv_def
  proof (intro conjI ballI)
    show "queue_ok h2" using m by (simp add: marks_to_def)
    show "children ctx c b \<subseteq> nonwhite h2" if "b \<in> colored h2 Black" for b
      using that inv unfolding nw unfolding bl mark_inv_def by blast
    show "targets (visit_roots ctx c) \<subseteq> nonwhite h2"
      using inv unfolding nw mark_inv_def by blast
    show "reach ctx c b" if "b \<in> nonwhite h2" for b
      using that inv kids unfolding nw mark_inv_def by blast
  qed
  moreover have "mark_frame h h2" "phase h2 = phase h"
    using m hr unfolding mark_frame_def marks_to_def by simp_all
  moreover have "a \<notin> colored h Black"
    using a colored_disjoint [of Gray Black h] by auto
  ultimately show ?thesis using s h2 bl by auto
qed

definition nonblack :: "heap \<Rightarrow> nat" where
  "nonblack h = card (dom (memory h) - colored h Black)"

lemma nonblack_decreases:
  assumes "finite (dom (memory h))" and "mark_frame h h'"
    and "colored h' Black = insert a (colored h Black)" and "a \<notin> colored h Black"
  shows "nonblack h' < nonblack h"
proof -
  have d: "dom (memory h') = dom (memory h)" by (rule mark_frame_dom [OF assms(2)])
  have "a \<in> dom (memory h)"
    using assms(3) colored_subset_dom [of h' Black] d by auto
  then have "dom (memory h') - colored h' Black \<subset> dom (memory h) - colored h Black"
    using assms(3,4) d by auto
  then show ?thesis
    unfolding nonblack_def by (rule psubset_card_mono [rotated]) (simp add: assms(1))
qed

lemma mark_step_marks:
  assumes "mark_inv ctx c h" "heap_safe ctx c h" "phase h = Marking" "finite (dom (memory h))"
  shows "\<exists>h'. mark_step ctx c work h = Some h' \<and> mark_inv ctx c h' \<and> mark_frame h h' \<and>
           (phase h' = WeakRefProcessing \<and> gray_queue h' = [] \<or>
            phase h' = Marking \<and> nonblack h' + work \<le> nonblack h)"
  using assms
proof (induction work arbitrary: h)
  case 0
  then show ?case by (auto intro: mark_frame_refl)
next
  case (Suc work)
  show ?case
  proof (cases "gray_pop (gray_queue h)")
    case None
    let ?h = "h\<lparr>phase := WeakRefProcessing\<rparr>"
    have "gray_queue h = []" using None by (simp add: gray_pop_def split: if_splits)
    moreover have "mark_inv ctx c ?h" using Suc.prems(1)
      by (simp add: mark_inv_def queue_ok_def colored_def)
    moreover have "mark_frame h ?h" by (simp add: mark_frame_def)
    ultimately show ?thesis using None by auto
  next
    case (Some p)
    obtain a q where p: "p = (a, q)" by fastforce
    obtain h1 h2 where one: "set_color (h\<lparr>gray_queue := q\<rparr>) a Black = Some h1"
        "visit_all h1 (trace_object ctx c (object_ptr a)) = Some h2"
      and inv: "mark_inv ctx c h2" and fr: "mark_frame h h2" and ph: "phase h2 = phase h"
      and bl: "colored h2 Black = insert a (colored h Black)" "a \<notin> colored h Black"
      using mark_one [OF Suc.prems(1,2)] Some p by blast
    have dec: "nonblack h2 < nonblack h"
      by (rule nonblack_decreases [OF Suc.prems(4) fr bl])
    obtain h' where h': "mark_step ctx c work h2 = Some h'" "mark_inv ctx c h'" "mark_frame h2 h'"
      "phase h' = WeakRefProcessing \<and> gray_queue h' = [] \<or>
       phase h' = Marking \<and> nonblack h' + work \<le> nonblack h2"
      using Suc.IH [OF inv heap_safe_frame [OF Suc.prems(2) fr]] ph Suc.prems(3,4)
        mark_frame_dom [OF fr] by auto
    show ?thesis
      using one h' dec mark_frame_trans [OF fr h'(3)] Some p by auto
  qed
qed

end
