(* ===== verification/Gc_Sweep.thy ===== *)
theory Gc_Sweep
  imports Gc_Mark
begin

section \<open>Sweeping: the list of all objects\<close>

text \<open>
  The intrusive list that starts at \<open>all_objects\<close>, the invariant that the sweep loop keeps over
  it (survivors already whitened, then \<open>sweep_prev\<close>, then the objects still to sweep from
  \<open>sweep_current\<close>), and the effect of a whole sweep: exactly the white objects are freed and
  the counters agree with the list.
\<close>

primrec lseg :: "(addr \<rightharpoonup> gc_header) \<Rightarrow> addr option \<Rightarrow> addr list \<Rightarrow> addr option \<Rightarrow> bool" where
  "lseg m p [] q = (p = q)"
| "lseg m p (x # xs) q =
     (p = Some x \<and> (case m x of None \<Rightarrow> False | Some hr \<Rightarrow> lseg m (next_object hr) xs q))"

lemma lseg_append: "lseg m p (xs @ ys) q \<longleftrightarrow> (\<exists>r. lseg m p xs r \<and> lseg m r ys q)"
  by (induction xs arbitrary: p) (auto split: option.splits)

lemma lseg_upd [simp]: "a \<notin> set xs \<Longrightarrow> lseg (m(a := v)) p xs q = lseg m p xs q"
  by (induction xs arbitrary: p) (auto split: option.splits)

lemma lseg_skel_imp: "lseg m p xs q \<Longrightarrow> skel m = skel m' \<Longrightarrow> lseg m' p xs q"
proof (induction xs arbitrary: p)
  case (Cons x xs)
  from Cons.prems(1) obtain hr where hr: "m x = Some hr" "p = Some x" "lseg m (next_object hr) xs q"
    by (auto split: option.splits)
  obtain hr' where "m' x = Some hr'" "next_object hr' = next_object hr"
    by (rule skel_SomeE [OF Cons.prems(2) hr(1)])
  with hr Cons.IH [OF hr(3) Cons.prems(2)] show ?case by simp
qed simp

lemma lseg_skel: "skel m = skel m' \<Longrightarrow> lseg m p xs q = lseg m' p xs q"
  using lseg_skel_imp [of m p xs q m'] lseg_skel_imp [of m' p xs q m] by auto

lemma lseg_relink:
  assumes "lseg m p (xs @ [b]) r" and "b \<notin> set xs" and "m b = Some hr"
  shows "lseg (m(b \<mapsto> hr\<lparr>next_object := n\<rparr>)) p (xs @ [b]) n"
  using assms by (auto simp: lseg_append)

subsection \<open>Well-formed heaps\<close>

definition size_at :: "(addr \<rightharpoonup> gc_header) \<Rightarrow> addr \<Rightarrow> usize" where
  "size_at m a = (case m a of None \<Rightarrow> 0 | Some hr \<Rightarrow> total_size hr)"

definition info :: "(addr \<rightharpoonup> gc_header) \<Rightarrow> addr \<Rightarrow> (gc_color \<times> usize) option" where
  "info m a = map_option (\<lambda>hr. (color hr, alloc_size hr)) (m a)"

definition heap_list :: "heap \<Rightarrow> addr list \<Rightarrow> bool" where
  "heap_list h xs \<longleftrightarrow>
     lseg (memory h) (all_objects h) xs None \<and> distinct xs \<and> set xs = dom (memory h) \<and>
     (\<forall>a hr. memory h a = Some hr \<longrightarrow> layout_for_size (alloc_size hr) \<noteq> None) \<and>
     bytes_allocated h = sum_list (map (size_at (memory h)) xs) + bytes_freed_this_cycle h \<and>
     num_objects h = of_nat (length xs) + objects_freed_this_cycle h"

lemma size_at_skel: "skel m = skel m' \<Longrightarrow> size_at m = size_at m'"
proof
  fix a assume "skel m = skel m'"
  then have "skel m a = skel m' a" by simp
  then show "size_at m a = size_at m' a"
    by (cases "m a"; cases "m' a") (auto simp: skel_def size_at_def total_size_def)
qed

lemma heap_list_finite: "heap_list h xs \<Longrightarrow> finite (dom (memory h))"
  unfolding heap_list_def by (metis List.finite_set)

lemma layout_skel:
  assumes "\<forall>a hr. m a = Some hr \<longrightarrow> P (alloc_size hr)" and "skel m' = skel m"
  shows "\<forall>a hr. m' a = Some hr \<longrightarrow> P (alloc_size hr)"
proof (intro allI impI)
  fix a hr assume "m' a = Some hr"
  then obtain hr' where "m a = Some hr'" "alloc_size hr' = alloc_size hr"
    by (rule skel_SomeE [OF assms(2)])
  with assms(1) show "P (alloc_size hr)" by force
qed

lemma heap_list_frame: "heap_list h xs \<Longrightarrow> mark_frame h h' \<Longrightarrow> heap_list h' xs"
  unfolding heap_list_def mark_frame_def
  using lseg_skel [of "memory h'" "memory h"] size_at_skel [of "memory h'" "memory h"]
    dom_skel [of "memory h'" "memory h"]
    layout_skel [where m = "memory h" and m' = "memory h'" and P = "\<lambda>s. layout_for_size s \<noteq> None"]
  by simp

text \<open>Between two cycles: every object white, nothing gray, no sweep position, no freed bytes.\<close>

definition quiescent :: "heap \<Rightarrow> bool" where
  "quiescent h \<longleftrightarrow> phase h = Idle \<and> all_white h \<and> (\<exists>xs. heap_list h xs) \<and>
     bytes_freed_this_cycle h = 0 \<and> objects_freed_this_cycle h = 0"

lemma quiescent_heap_new: "quiescent heap_new"
  by (auto simp: quiescent_def heap_new_def all_white_def heap_list_def colored_def gray_new_def
      intro!: exI [of _ "[]"])

subsection \<open>The sweep invariant\<close>

definition sweep_inv :: "heap \<Rightarrow> addr list \<Rightarrow> addr list \<Rightarrow> bool" where
  "sweep_inv h ps rest \<longleftrightarrow>
     heap_list h (ps @ rest) \<and> phase h = Sweeping \<and> gray_queue h = [] \<and>
     sweep_prev h = (if ps = [] then None else Some (last ps)) \<and>
     lseg (memory h) (sweep_current h) rest None \<and>
     set ps \<subseteq> colored h White \<and> colored h Gray = {}"

text \<open>The memory that a sweep of the remaining objects ends with.\<close>

definition swept :: "(addr \<Rightarrow> (gc_color \<times> usize) option) \<Rightarrow> addr list \<Rightarrow>
    addr \<Rightarrow> (gc_color \<times> usize) option" where
  "swept i rest a =
     (if a \<in> set rest
      then (case i a of None \<Rightarrow> None
            | Some (k, s) \<Rightarrow> if k = White then None else Some (White, s))
      else i a)"

lemma swept_Nil [simp]: "swept i [] = i"
  by (simp add: swept_def fun_eq_iff)

lemma swept_white:
  assumes "i x = Some (White, s)" and "x \<notin> set rest"
  shows "swept (i(x := None)) rest = swept i (x # rest)"
  using assms by (auto simp: swept_def fun_eq_iff)

lemma swept_black:
  assumes "i x = Some (k, s)" and "k \<noteq> White" and "x \<notin> set rest"
  shows "swept (i(x \<mapsto> (White, s))) rest = swept i (x # rest)"
  using assms by (auto simp: swept_def fun_eq_iff)

lemma info_next_upd: "m b = Some hb \<Longrightarrow> info (m(b \<mapsto> hb\<lparr>next_object := n\<rparr>)) = info m"
  by (auto simp: info_def fun_eq_iff)

lemma info_remove: "info (m(x := None)) = (info m)(x := None)"
  by (auto simp: info_def fun_eq_iff)

lemma colored_info: "a \<in> colored h k \<longleftrightarrow> (\<exists>s. info (memory h) a = Some (k, s))"
  by (auto simp: colored_def info_def)

lemma size_at_info:
  "size_at m a = (case info m a of None \<Rightarrow> 0 | Some (k, s) \<Rightarrow> HEADER_SIZE + s)"
  by (auto simp: size_at_def info_def total_size_def split: option.splits)

lemma dom_info: "dom (info m) = dom m"
  by (auto simp: info_def)

lemma layouts_info:
  "(\<forall>a hr. m a = Some hr \<longrightarrow> P (alloc_size hr)) \<longleftrightarrow> (\<forall>a k s. info m a = Some (k, s) \<longrightarrow> P s)"
  by (auto simp: info_def)

lemma map_size_at_cong:
  "(\<And>a. a \<in> set xs \<Longrightarrow> info m a = info m' a) \<Longrightarrow> map (size_at m) xs = map (size_at m') xs"
  by (simp add: size_at_info)

subsection \<open>Sweeping one object\<close>

lemma sweep_unlink:
  assumes inv: "sweep_inv h ps (x # rest)" and hr: "memory h x = Some hr"
  obtains m p where
    "(case sweep_prev h of Some b \<Rightarrow> set_next_object h b (next_object hr)
      | None \<Rightarrow> Some (h\<lparr>all_objects := next_object hr\<rparr>)) = Some (h\<lparr>memory := m, all_objects := p\<rparr>)"
    "lseg m p ps (next_object hr)" "info m = info (memory h)"
    "lseg m (next_object hr) rest None"
proof -
  have seg: "lseg (memory h) (all_objects h) ps (Some x)"
      "lseg (memory h) (next_object hr) rest None"
    and dist: "distinct (ps @ x # rest)"
    using inv hr by (auto simp: sweep_inv_def heap_list_def lseg_append)
  show thesis
  proof (cases ps rule: rev_cases)
    case Nil
    then show thesis
      using inv seg by (intro that [of "next_object hr" "memory h"]) (cases h, auto simp: sweep_inv_def)
  next
    case (snoc ps' b)
    then obtain hb where hb: "memory h b = Some hb"
      using seg(1) by (auto simp: lseg_append split: option.splits)
    let ?m = "(memory h)(b \<mapsto> hb\<lparr>next_object := next_object hr\<rparr>)"
    have "lseg ?m (all_objects h) ps (next_object hr)"
      using lseg_relink [of "memory h" "all_objects h" ps' b "Some x" hb] hb seg(1) dist snoc by simp
    moreover have "lseg ?m (next_object hr) rest None"
      using seg(2) dist snoc by simp
    moreover have "(case sweep_prev h of Some b \<Rightarrow> set_next_object h b (next_object hr)
        | None \<Rightarrow> Some (h\<lparr>all_objects := next_object hr\<rparr>)) =
        Some (h\<lparr>memory := ?m, all_objects := all_objects h\<rparr>)"
      using inv hb snoc by (cases h) (simp add: sweep_inv_def set_next_object_def)
    ultimately show thesis
      using hb by (intro that [of "all_objects h" ?m]) (auto simp: info_next_upd)
  qed
qed

lemma sweep_white:
  assumes inv: "sweep_inv h ps (x # rest)" and hr: "memory h x = Some hr" "color hr = White"
  shows "\<exists>h1. sweep_object h x hr = Some h1 \<and>
           sweep_inv (h1\<lparr>sweep_current := next_object hr\<rparr>) ps rest \<and>
           info (memory h1) = (info (memory h))(x := None)"
proof -
  obtain m p where unl: "(case sweep_prev h of Some b \<Rightarrow> set_next_object h b (next_object hr)
      | None \<Rightarrow> Some (h\<lparr>all_objects := next_object hr\<rparr>)) = Some (h\<lparr>memory := m, all_objects := p\<rparr>)"
    and seg: "lseg m p ps (next_object hr)" "lseg m (next_object hr) rest None"
    and im: "info m = info (memory h)"
    by (rule sweep_unlink [OF inv hr(1)])
  obtain layout where lay: "layout_for_size (alloc_size hr) = Some layout"
    using inv hr(1) unfolding sweep_inv_def heap_list_def by blast
  let ?m = "m(x := None)"
  let ?h1 = "h\<lparr>memory := ?m, all_objects := p,
                bytes_freed_this_cycle := bytes_freed_this_cycle h + total_size hr,
                objects_freed_this_cycle := objects_freed_this_cycle h + 1\<rparr>"
  have x: "x \<notin> set ps" "x \<notin> set rest" and dist: "distinct (ps @ rest)"
    using inv by (auto simp: sweep_inv_def heap_list_def)
  have ix: "info (memory h) x = Some (White, alloc_size hr)"
    using hr by (simp add: info_def)
  have ino: "info ?m = (info (memory h))(x := None)"
    by (simp add: info_remove im)
  have sz: "map (size_at ?m) (ps @ rest) = map (size_at (memory h)) (ps @ rest)"
    by (rule map_size_at_cong) (use x ino in auto)
  have hl: "heap_list h (ps @ x # rest)"
    using inv by (simp add: sweep_inv_def)
  have "heap_list (?h1\<lparr>sweep_current := next_object hr\<rparr>) (ps @ rest)"
    unfolding heap_list_def
  proof (intro conjI)
    show "lseg (memory (?h1\<lparr>sweep_current := next_object hr\<rparr>))
        (all_objects (?h1\<lparr>sweep_current := next_object hr\<rparr>)) (ps @ rest) None"
      using seg x by (auto simp: lseg_append)
    have "dom ?m = dom (memory h) - {x}"
      using arg_cong [OF ino, of dom] by (auto simp: dom_info)
    then show "set (ps @ rest) = dom (memory (?h1\<lparr>sweep_current := next_object hr\<rparr>))"
      using hl x by (auto simp: heap_list_def)
    have "\<forall>a k s. info (memory h) a = Some (k, s) \<longrightarrow> layout_for_size s \<noteq> None"
      using hl by (simp only: heap_list_def layouts_info [where P = "\<lambda>s. layout_for_size s \<noteq> None"])
        blast
    then have "\<forall>a k s. info ?m a = Some (k, s) \<longrightarrow> layout_for_size s \<noteq> None"
      unfolding ino by simp
    then show "\<forall>a hr'. memory (?h1\<lparr>sweep_current := next_object hr\<rparr>) a = Some hr' \<longrightarrow>
        layout_for_size (alloc_size hr') \<noteq> None"
      by (simp only: layouts_info [where m = ?m and P = "\<lambda>s. layout_for_size s \<noteq> None", symmetric])
        simp
    show "bytes_allocated (?h1\<lparr>sweep_current := next_object hr\<rparr>) =
        sum_list (map (size_at (memory (?h1\<lparr>sweep_current := next_object hr\<rparr>))) (ps @ rest)) +
        bytes_freed_this_cycle (?h1\<lparr>sweep_current := next_object hr\<rparr>)"
    proof -
      have "bytes_allocated h = sum_list (map (size_at (memory h)) (ps @ x # rest)) +
          bytes_freed_this_cycle h"
        using hl by (simp add: heap_list_def)
      also have "\<dots> = (total_size hr + sum_list (map (size_at ?m) (ps @ rest))) +
          bytes_freed_this_cycle h"
        unfolding sum_list_map_remove1_eq sz using hr by (simp add: size_at_def)
      finally show ?thesis by simp
    qed
    show "num_objects (?h1\<lparr>sweep_current := next_object hr\<rparr>) = of_nat (length (ps @ rest)) +
        objects_freed_this_cycle (?h1\<lparr>sweep_current := next_object hr\<rparr>)"
      using hl by (simp add: heap_list_def)
  qed (rule dist)
  moreover have "set ps \<subseteq> colored ?h1 White" "colored ?h1 Gray = {}"
  proof -
    have c: "colored ?h1 k = colored h k - {x}" for k
      by (auto simp: colored_info ino split: if_splits)
    show "set ps \<subseteq> colored ?h1 White" "colored ?h1 Gray = {}"
      using inv x by (auto simp: sweep_inv_def c)
  qed
  ultimately have "sweep_inv (?h1\<lparr>sweep_current := next_object hr\<rparr>) ps rest"
    using inv seg x by (simp add: sweep_inv_def colored_def)
  moreover have "sweep_object h x hr = Some ?h1"
    using hr lay unl by (simp add: sweep_object_def dealloc_def)
  ultimately show ?thesis using ino by auto
qed

lemma sweep_black:
  assumes inv: "sweep_inv h ps (x # rest)" and hr: "memory h x = Some hr" "color hr \<noteq> White"
  shows "\<exists>h1. sweep_object h x hr = Some h1 \<and>
           sweep_inv (h1\<lparr>sweep_current := next_object hr\<rparr>) (ps @ [x]) rest \<and>
           info (memory h1) = (info (memory h))(x \<mapsto> (White, alloc_size hr))"
proof -
  let ?m = "(memory h)(x \<mapsto> hr\<lparr>color := White\<rparr>)"
  let ?h1 = "h\<lparr>memory := ?m, sweep_prev := Some x\<rparr>"
  have ino: "info ?m = (info (memory h))(x \<mapsto> (White, alloc_size hr))"
    by (auto simp: info_def fun_eq_iff)
  have sk: "skel ?m = skel (memory h)" using hr by simp
  have fr: "mark_frame h (?h1\<lparr>sweep_current := next_object hr\<rparr>)"
    using sk by (simp add: mark_frame_def)
  have "heap_list (?h1\<lparr>sweep_current := next_object hr\<rparr>) ((ps @ [x]) @ rest)"
    using heap_list_frame [OF _ fr] inv by (simp add: sweep_inv_def)
  moreover have "set (ps @ [x]) \<subseteq> colored ?h1 White" "colored ?h1 Gray = {}"
    using inv by (auto simp: sweep_inv_def colored_info [symmetric] colored_def)
  moreover have "lseg ?m (next_object hr) rest None"
    using inv hr lseg_skel [OF sk] by (simp add: sweep_inv_def)
  ultimately have "sweep_inv (?h1\<lparr>sweep_current := next_object hr\<rparr>) (ps @ [x]) rest"
    using inv by (simp add: sweep_inv_def colored_def)
  moreover have "sweep_object h x hr = Some ?h1"
    using hr by (simp add: sweep_object_def set_color_def)
  ultimately show ?thesis using ino by auto
qed

lemma sweep_one:
  assumes inv: "sweep_inv h ps (x # rest)" and hr: "memory h x = Some hr"
  shows "\<exists>h1 ps'. sweep_object h x hr = Some h1 \<and>
           sweep_inv (h1\<lparr>sweep_current := next_object hr\<rparr>) ps' rest \<and>
           swept (info (memory h1)) rest = swept (info (memory h)) (x # rest)"
proof -
  have x: "x \<notin> set rest" using inv by (simp add: sweep_inv_def heap_list_def)
  have i: "info (memory h) x = Some (color hr, alloc_size hr)" using hr by (simp add: info_def)
  show ?thesis
  proof (cases "color hr = White")
    case True
    with sweep_white [OF inv hr True] x i show ?thesis by (auto simp: swept_white)
  next
    case False
    with sweep_black [OF inv hr False] x i show ?thesis by (auto simp: swept_black)
  qed
qed

subsection \<open>Sweep steps and the end of the sweep\<close>

lemma finish_sweep_quiescent:
  assumes "sweep_inv h ps []"
  shows "quiescent (finish_sweep h)" and "memory (finish_sweep h) = memory h"
proof -
  have hl: "heap_list h ps" and w: "set ps \<subseteq> colored h White" "colored h Gray = {}"
    using assms by (auto simp: sweep_inv_def)
  have "colored h Black = {}"
    using hl w colored_disjoint [of White Black h] colored_subset_dom [of h Black]
    unfolding heap_list_def by blast
  then have "all_white (finish_sweep h)"
    using assms w by (simp add: all_white_def finish_sweep_def sweep_inv_def colored_def Let_def)
  moreover have "heap_list (finish_sweep h) ps"
    using hl by (simp add: heap_list_def finish_sweep_def Let_def)
  ultimately show "quiescent (finish_sweep h)"
    by (auto simp: quiescent_def finish_sweep_def Let_def)
  show "memory (finish_sweep h) = memory h"
    by (simp add: finish_sweep_def Let_def)
qed

lemma sweep_step_sweeps:
  assumes "sweep_inv h ps rest"
  shows "\<exists>h'. sweep_step work h = Some h' \<and>
           (quiescent h' \<and> info (memory h') = swept (info (memory h)) rest \<or>
            (\<exists>ps' rest'. sweep_inv h' ps' rest' \<and> length rest' + work \<le> length rest \<and>
               swept (info (memory h')) rest' = swept (info (memory h)) rest))"
  using assms
proof (induction work arbitrary: h ps rest)
  case 0
  then show ?case by auto
next
  case (Suc work)
  show ?case
  proof (cases rest)
    case Nil
    then have "sweep_current h = None" using Suc.prems by (simp add: sweep_inv_def)
    then show ?thesis using finish_sweep_quiescent Suc.prems Nil by auto
  next
    case (Cons x rest')
    have cur: "sweep_current h = Some x" and "x \<in> dom (memory h)"
      using Suc.prems Cons by (auto simp: sweep_inv_def split: option.splits)
    then obtain hr where hr: "memory h x = Some hr" by auto
    obtain h1 ps' where h1: "sweep_object h x hr = Some h1"
        "sweep_inv (h1\<lparr>sweep_current := next_object hr\<rparr>) ps' rest'"
        "swept (info (memory h1)) rest' = swept (info (memory h)) rest"
      using sweep_one [OF _ hr] Suc.prems Cons by blast
    from Suc.IH [OF h1(2)] show ?thesis
      using cur hr h1 Cons by auto
  qed
qed

end
