(* ===== verification/Gc_Cycle.thy ===== *)
theory Gc_Cycle
  imports Gc_Sweep
begin

section \<open>The whole collection cycle\<close>

text \<open>
  \<open>Context::run_gc\<close> is \<open>start_gc\<close> followed by \<open>finish_gc\<close>, with no
  allocation in between. From a heap between two cycles whose reachable objects are all allocated,
  the loop of \<open>finish_gc\<close> ends, keeps exactly the reachable objects, and leaves a heap that is
  again between two cycles. The last section is about the incremental interface: objects allocated
  while a sweep is under way.
\<close>

definition live_size :: "heap \<Rightarrow> addr \<Rightarrow> usize option" where
  "live_size h a = map_option alloc_size (memory h a)"

lemma live_size_info: "live_size h a = map_option snd (info (memory h) a)"
  by (simp add: live_size_def info_def option.map_comp comp_def)

lemma live_size_frame: "mark_frame h h' \<Longrightarrow> live_size h' = live_size h"
proof
  fix a assume "mark_frame h h'"
  then have "skel (memory h') a = skel (memory h) a" by (simp add: mark_frame_def)
  then show "live_size h' a = live_size h a"
    by (cases "memory h a"; cases "memory h' a") (auto simp: skel_def live_size_def)
qed

text \<open>The result of a cycle that started in \<open>h\<close>.\<close>

definition collected :: "'c gc_context \<Rightarrow> 'c \<Rightarrow> heap \<Rightarrow> heap \<Rightarrow> bool" where
  "collected ctx c h h' \<longleftrightarrow> quiescent h' \<and>
     (\<forall>a. live_size h' a = (if reach ctx c a then live_size h a else None))"

subsection \<open>The phases run to the end\<close>

lemma sweeping_ends:
  assumes "sweep_inv h ps rest"
  shows "\<exists>h' n. finish_gc ctx c h steps = Some (h', c, n) \<and> quiescent h' \<and>
           info (memory h') = swept (info (memory h)) rest"
  using assms
proof (induction "length rest" arbitrary: h ps rest steps rule: less_induct)
  case less
  obtain h1 where h1: "sweep_step DEFAULT_SWEEP_STEP_SIZE h = Some h1"
    and alt: "quiescent h1 \<and> info (memory h1) = swept (info (memory h)) rest \<or>
       (\<exists>ps' rest'. sweep_inv h1 ps' rest' \<and> length rest' + DEFAULT_SWEEP_STEP_SIZE \<le> length rest \<and>
          swept (info (memory h1)) rest' = swept (info (memory h)) rest)"
    using sweep_step_sweeps [OF less.prems] by blast
  have st: "gc_step ctx c h = Some (h1, c, phase h1 \<noteq> Idle)"
    using less.prems h1 by (simp add: gc_step_def sweep_inv_def)
  from alt show ?case
  proof
    assume q: "quiescent h1 \<and> info (memory h1) = swept (info (memory h)) rest"
    then have "finish_gc ctx c h steps = Some (h1, c, steps + 1)"
      using st by (simp add: finish_gc.simps quiescent_def)
    with q show ?thesis by auto
  next
    assume "\<exists>ps' rest'. sweep_inv h1 ps' rest' \<and> length rest' + DEFAULT_SWEEP_STEP_SIZE \<le> length rest \<and>
          swept (info (memory h1)) rest' = swept (info (memory h)) rest"
    then obtain ps' rest' where r: "sweep_inv h1 ps' rest'"
        "length rest' + DEFAULT_SWEEP_STEP_SIZE \<le> length rest"
        "swept (info (memory h1)) rest' = swept (info (memory h)) rest" by blast
    then have "length rest' < length rest" by (simp add: DEFAULT_SWEEP_STEP_SIZE_def)
    from less.hyps [OF this r(1), of "steps + 1"] obtain h' n where
      "finish_gc ctx c h1 (steps + 1) = Some (h', c, n)" "quiescent h'"
      "info (memory h') = swept (info (memory h1)) rest'" by blast
    moreover have "finish_gc ctx c h steps = finish_gc ctx c h1 (steps + 1)"
      using st r(1) by (subst finish_gc.simps) (simp add: sweep_inv_def)
    ultimately show ?thesis using r(3) by auto
  qed
qed

lemma weak_refs_end:
  assumes ph: "phase h = WeakRefProcessing" and q: "gray_queue h = []"
    and inv: "mark_inv ctx c h" and hl: "heap_list h xs"
  shows "\<exists>h' n. finish_gc ctx c h steps = Some (h', process_weak_refs ctx h c, n) \<and>
           collected ctx c h h'"
proof -
  let ?h = "h\<lparr>phase := Sweeping, sweep_prev := None, sweep_current := all_objects h\<rparr>"
  have gray: "colored h Gray = {}" and black: "colored h Black = {a. reach ctx c a}"
    by (rule mark_inv_done [OF inv q])+
  have "sweep_inv ?h [] xs"
    using hl q gray by (simp add: sweep_inv_def heap_list_def colored_def)
  from sweeping_ends [OF this, of ctx "process_weak_refs ctx h c" "steps + 1"] obtain h' n where
    fin: "finish_gc ctx (process_weak_refs ctx h c) ?h (steps + 1)
      = Some (h', process_weak_refs ctx h c, n)"
    and qu: "quiescent h'" and i: "info (memory h') = swept (info (memory h)) xs" by auto
  have "live_size h' a = (if reach ctx c a then live_size h a else None)" for a
  proof (cases "memory h a")
    case None
    then have "a \<notin> set xs" using hl by (auto simp: heap_list_def)
    with None show ?thesis by (simp add: live_size_info i swept_def info_def)
  next
    case (Some hr)
    then have a: "a \<in> set xs" using hl by (auto simp: heap_list_def)
    have "reach ctx c a \<longleftrightarrow> a \<in> colored h Black" using black by blast
    moreover have "a \<notin> colored h Gray" using gray by blast
    ultimately have "reach ctx c a \<longleftrightarrow> color hr \<noteq> White"
      using Some by (cases "color hr") (simp_all add: colored_def)
    with a Some show ?thesis by (simp add: live_size_info i swept_def info_def)
  qed
  moreover have "finish_gc ctx c h steps = finish_gc ctx (process_weak_refs ctx h c) ?h (steps + 1)"
    by (subst finish_gc.simps) (simp add: gc_step_def ph)
  ultimately show ?thesis using fin qu by (auto simp: collected_def)
qed

lemma marking_ends:
  assumes "phase h = Marking" "mark_inv ctx c h" "heap_safe ctx c h" "heap_list h xs"
  shows "\<exists>h' h1 n. finish_gc ctx c h steps = Some (h', process_weak_refs ctx h1 c, n) \<and>
           collected ctx c h h'"
  using assms
proof (induction "nonblack h" arbitrary: h steps rule: less_induct)
  case less
  have fin: "finite (dom (memory h))" by (rule heap_list_finite [OF less.prems(4)])
  obtain h1 where h1: "mark_step ctx c DEFAULT_MARK_STEP_SIZE h = Some h1" "mark_inv ctx c h1"
      and fr: "mark_frame h h1"
      and alt: "phase h1 = WeakRefProcessing \<and> gray_queue h1 = [] \<or>
        phase h1 = Marking \<and> nonblack h1 + DEFAULT_MARK_STEP_SIZE \<le> nonblack h"
    using mark_step_marks [OF less.prems(2,3,1) fin] by blast
  have hl: "heap_list h1 xs" by (rule heap_list_frame [OF less.prems(4) fr])
  have ls: "live_size h1 = live_size h" by (rule live_size_frame [OF fr])
  have "gc_step ctx c h = Some (h1, c, phase h1 \<noteq> Idle)"
    using less.prems(1) h1(1) by (simp add: gc_step_def)
  then have st: "finish_gc ctx c h steps = finish_gc ctx c h1 (steps + 1)"
    using alt by (subst finish_gc.simps) auto
  have "\<exists>h' h2 n. finish_gc ctx c h1 (steps + 1) = Some (h', process_weak_refs ctx h2 c, n) \<and>
      collected ctx c h1 h'"
  proof (cases "phase h1 = Marking")
    case True
    then have "nonblack h1 < nonblack h" using alt by (simp add: DEFAULT_MARK_STEP_SIZE_def)
    from less.hyps [OF this True h1(2) heap_safe_frame [OF less.prems(3) fr] hl] show ?thesis .
  next
    case False
    then have "phase h1 = WeakRefProcessing" "gray_queue h1 = []" using alt by auto
    from weak_refs_end [OF this h1(2) hl] show ?thesis by blast
  qed
  moreover have "collected ctx c h1 = collected ctx c h" by (simp add: collected_def ls fun_eq_iff)
  ultimately show ?case by (simp only: st)
qed

text \<open>
  C1: from a heap between two cycles in which every reachable object is allocated, a full
  collection returns (the loop of \<open>finish_gc\<close> ends and touches no freed header); afterwards an
  object is allocated if and only if it was reachable, with its size unchanged, every object is
  white again, the list of all objects is intact and the byte and object counters equal the sums
  over it.
\<close>

theorem run_gc_collects:
  assumes "quiescent h" and "heap_safe ctx c h"
  shows "\<exists>h' c'. run_gc ctx c h = Some (h', c') \<and> collected ctx c h h'"
proof -
  obtain xs where xs: "heap_list h xs" and z: "phase h = Idle" "all_white h"
      "bytes_freed_this_cycle h = 0" "objects_freed_this_cycle h = 0"
    using assms(1) by (auto simp: quiescent_def)
  let ?h0 = "h\<lparr>bytes_freed_this_cycle := 0, objects_freed_this_cycle := 0\<rparr>"
  have h0: "?h0 = h" using z by (cases h) simp
  obtain h1 where h1: "start_gc ctx c h = Some h1" "mark_inv ctx c h1" "phase h1 = Marking"
      and fr: "mark_frame h h1"
    using start_gc_marks [OF z(1,2) assms(2)] h0 by auto
  from marking_ends [OF h1(3,2) heap_safe_frame [OF assms(2) fr] heap_list_frame [OF xs fr], of 0]
  obtain h' h2 n where "finish_gc ctx c h1 0 = Some (h', process_weak_refs ctx h2 c, n)"
      "collected ctx c h1 h'" by blast
  then show ?thesis
    using h1(1) live_size_frame [OF fr] by (auto simp: run_gc_def collected_def)
qed

text \<open>A heap with one rooted object and one garbage object, linked in this order.\<close>

definition demo_ctx :: "unit gc_context" where
  "demo_ctx = \<lparr>visit_roots = \<lambda>_. [Dangling, Ptr 0x1018],
     trace_object = \<lambda>_ p. if p = 0x1018 then [Ptr 0x1018, Ptr 0] else [],
     process_weak_refs = \<lambda>_ c. c\<rparr>"

definition demo_heap :: heap where
  "demo_heap = heap_new
     \<lparr>memory := [0x1000 \<mapsto> \<lparr>color = White, alloc_size = 16, next_object = Some 0x2000\<rparr>,
                 0x2000 \<mapsto> \<lparr>color = White, alloc_size = 40, next_object = None\<rparr>],
      all_objects := Some 0x1000, bytes_allocated := 104, num_objects := 2\<rparr>"

lemma demo_layouts: "layout_for_size 16 = Some 40" "layout_for_size 40 = Some 64"
  by code_simp+

lemma demo_quiescent: "quiescent demo_heap"
proof -
  have "heap_list demo_heap [0x1000, 0x2000]"
    by (auto simp: heap_list_def demo_heap_def heap_new_def size_at_def total_size_def
        HEADER_SIZE_def demo_layouts split: if_splits)
  moreover have "all_white demo_heap"
    by (auto simp: all_white_def colored_def demo_heap_def heap_new_def gray_new_def split: if_splits)
  ultimately show ?thesis
    by (auto simp: quiescent_def demo_heap_def heap_new_def)
qed

lemma demo_reach: "reach demo_ctx () a \<longleftrightarrow> a = 0x1000"
proof
  show "reach demo_ctx () a \<Longrightarrow> a = 0x1000"
    by (induction rule: reach.induct)
      (simp_all add: demo_ctx_def from_object_ptr_def object_ptr_def HEADER_SIZE_def)
  show "a = 0x1000 \<Longrightarrow> reach demo_ctx () a"
    by (rule reach.root) (simp add: demo_ctx_def from_object_ptr_def HEADER_SIZE_def)
qed

theorem run_gc_collects_witness:
  "quiescent demo_heap \<and> heap_safe demo_ctx () demo_heap \<and>
   (\<exists>h' c'. run_gc demo_ctx () demo_heap = Some (h', c') \<and> quiescent h' \<and>
      live_size h' 0x1000 = Some 16 \<and> live_size h' 0x2000 = None)"
proof -
  have s: "heap_safe demo_ctx () demo_heap"
    by (simp add: heap_safe_def demo_reach demo_heap_def)
  have l: "live_size demo_heap 0x1000 = Some 16"
    by (simp add: live_size_def demo_heap_def)
  obtain h' c' where "run_gc demo_ctx () demo_heap = Some (h', c')"
      and c: "collected demo_ctx () demo_heap h'"
    using run_gc_collects [OF demo_quiescent s] by blast
  moreover have "quiescent h'" "live_size h' 0x1000 = Some 16" "live_size h' 0x2000 = None"
    using c by (simp_all add: collected_def demo_reach l)
  ultimately show ?thesis using s demo_quiescent by blast
qed

subsection \<open>Allocation between two cycles\<close>

text \<open>The contract of the global allocator: a block that it returns is not in use.\<close>

definition malloc_fresh :: "((addr \<rightharpoonup> gc_header) \<Rightarrow> usize \<Rightarrow> addr option) \<Rightarrow> bool" where
  "malloc_fresh malloc \<longleftrightarrow> (\<forall>m l a. malloc m l = Some a \<longrightarrow> m a = None)"

lemma heap_list_Cons:
  assumes "heap_list h xs" and "memory h a = None" and "layout_for_size sz \<noteq> None"
    and "hr = \<lparr>color = k, alloc_size = sz, next_object = all_objects h\<rparr>"
  shows "heap_list (h\<lparr>memory := (memory h)(a \<mapsto> hr), all_objects := Some a,
           bytes_allocated := bytes_allocated h + total_size hr,
           num_objects := num_objects h + 1\<rparr>) (a # xs)"
proof -
  have a: "a \<notin> set xs" using assms(1,2) by (auto simp: heap_list_def)
  have "map (size_at ((memory h)(a \<mapsto> hr))) xs = map (size_at (memory h)) xs"
    using a by (auto simp: size_at_def)
  from arg_cong [OF this, of sum_list] show ?thesis
    using assms a by (auto simp: heap_list_def size_at_def)
qed

text \<open>
  Between two cycles, allocating an object of a size that has a layout returns; a refused
  request (over-aligned, or out of memory) leaves the heap and the runtime as they were, and a
  granted one adds one object of that size at an address not in use, keeps every other object, and
  leaves a heap that is between two cycles, so the next collection theorem applies to it.
\<close>

theorem alloc_between_cycles:
  assumes q: "quiescent h" and m: "malloc_fresh malloc" and l: "layout_for_size sz \<noteq> None"
  shows "\<exists>h' r. alloc_with_size malloc ctx c sz align h = Some (h', c, r) \<and> quiescent h' \<and>
           (case r of Inl e \<Rightarrow> h' = h
            | Inr p \<Rightarrow> align \<le> HEADER_ALIGN \<and> memory h (from_object_ptr p) = None \<and>
                live_size h' = (live_size h)(from_object_ptr p \<mapsto> sz))"
proof -
  obtain xs layout where hl: "heap_list h xs" and lay: "layout_for_size sz = Some layout"
      and z: "phase h = Idle" "all_white h" "bytes_freed_this_cycle h = 0" "objects_freed_this_cycle h = 0"
    using q l by (auto simp: quiescent_def)
  show ?thesis
  proof (cases "align > HEADER_ALIGN \<or> malloc (memory h) layout = None")
    case True
    then show ?thesis using q z lay by (auto simp: alloc_with_size_def gc_in_progress_def)
  next
    case False
    then obtain a where a: "malloc (memory h) layout = Some a" "align \<le> HEADER_ALIGN" by auto
    define hr where "hr = \<lparr>color = White, alloc_size = sz, next_object = all_objects h\<rparr>"
    let ?h = "h\<lparr>memory := (memory h)(a \<mapsto> hr), all_objects := Some a,
        bytes_allocated := bytes_allocated h + total_size hr, num_objects := num_objects h + 1\<rparr>"
    have free: "memory h a = None" using m a(1) by (auto simp: malloc_fresh_def)
    have "alloc_with_size malloc ctx c sz align h = Some (?h, c, Inr (object_ptr a))"
      using a z lay by (simp add: alloc_with_size_def gc_in_progress_def header_new_def hr_def Let_def)
    moreover have "heap_list ?h (a # xs)"
      by (rule heap_list_Cons [OF hl free l]) (simp add: hr_def)
    moreover have "all_white ?h"
      using z(2) free by (auto simp: all_white_def colored_def hr_def)
    moreover have "live_size ?h = (live_size h)(a \<mapsto> sz)"
      by (simp add: live_size_def fun_eq_iff hr_def)
    ultimately show ?thesis using z a free by (auto simp: quiescent_def)
  qed
qed

text \<open>An allocator with a single block, enough to serve one request on the demonstration heap.\<close>

definition one_block :: "(addr \<rightharpoonup> gc_header) \<Rightarrow> usize \<Rightarrow> addr option" where
  "one_block m l = (if m 0x3000 = None then Some 0x3000 else None)"

theorem alloc_between_cycles_witness:
  "malloc_fresh one_block \<and> quiescent demo_heap \<and> layout_for_size 40 \<noteq> None \<and>
   (\<exists>h' r. alloc_with_size one_block demo_ctx () 40 8 demo_heap = Some (h', (), r) \<and> quiescent h')"
proof -
  have m: "malloc_fresh one_block" by (simp add: malloc_fresh_def one_block_def)
  have l: "layout_for_size 40 \<noteq> None" by (simp add: demo_layouts)
  from alloc_between_cycles [OF demo_quiescent m l, of demo_ctx "()" 8] show ?thesis
    using m demo_quiescent l by blast
qed

subsection \<open>The write barrier\<close>

text \<open>
  What marking needs from a mutator that runs between two marking steps: the queue holds exactly
  the gray objects, no black object refers to a white one, and no root is white.
\<close>

definition tri_color :: "'c gc_context \<Rightarrow> 'c \<Rightarrow> heap \<Rightarrow> bool" where
  "tri_color ctx c h \<longleftrightarrow>
     queue_ok h \<and>
     (\<forall>a \<in> colored h Black. children ctx c a \<subseteq> nonwhite h) \<and>
     targets (visit_roots ctx c) \<subseteq> nonwhite h"

lemma mark_inv_tri_color: "mark_inv ctx c h \<Longrightarrow> tri_color ctx c h"
  by (simp add: mark_inv_def tri_color_def)

text \<open>A runtime state \<open>c'\<close> after object \<open>a\<close> received the reference \<open>p\<close>.\<close>

definition stored :: "'c gc_context \<Rightarrow> 'c \<Rightarrow> addr \<Rightarrow> gc_ptr \<Rightarrow> 'c \<Rightarrow> bool" where
  "stored ctx c a p c' \<longleftrightarrow>
     visit_roots ctx c' = visit_roots ctx c \<and>
     children ctx c' a \<subseteq> set_option (target p) \<union> children ctx c a \<and>
     (\<forall>b. b \<noteq> a \<longrightarrow> children ctx c' b = children ctx c b)"

text \<open>
  C10: during marking, a store of a reference into any object that is preceded by the write barrier
  keeps the tri-color invariant (no black object refers to a white one), for a reference to a live
  object or the dangling sentinel; the barrier changes nothing but the color and the queue entry of
  the stored reference's target.
\<close>

theorem write_barrier_tri_color:
  assumes "is_marking h" and inv: "tri_color ctx c h" and st: "stored ctx c a p c'"
    and live: "\<And>b. target p = Some b \<Longrightarrow> b \<in> dom (memory h)"
  shows "\<exists>h'. write_barrier h p = Some h' \<and> tri_color ctx c' h' \<and>
           marks_to h (set_option (target p)) h'"
proof -
  have q: "queue_ok h" using inv by (simp add: tri_color_def)
  obtain h' where h': "visit h p = Some h'" "marks_to h (set_option (target p)) h'"
    using visit_marks [OF q live] by blast
  have "write_barrier h p = Some h'"
    using assms(1) h'(1) by (cases p) (simp_all add: write_barrier_def visit_eq_mark_gray_ptr
        mark_gray_ptr_def)
  moreover have "children ctx c' b \<subseteq> nonwhite h'" if "b \<in> colored h' Black" for b
  proof -
    have "children ctx c b \<subseteq> nonwhite h"
      using that inv h'(2) by (simp add: tri_color_def marks_to_def)
    moreover have "children ctx c' b \<subseteq> set_option (target p) \<union> children ctx c b"
      using st by (cases "b = a") (auto simp: stored_def)
    ultimately show ?thesis using h'(2) unfolding marks_to_def by blast
  qed
  moreover have "targets (visit_roots ctx c') \<subseteq> nonwhite h'"
    using inv st h'(2) by (auto simp: tri_color_def stored_def marks_to_def)
  ultimately show ?thesis using h'(2) by (auto simp: tri_color_def marks_to_def)
qed

text \<open>
  The demonstration heap during marking, its rooted object black, just before a reference to its
  second object is stored into the first; the runtime state tells whether the store has happened.
\<close>

definition store_ctx :: "bool gc_context" where
  "store_ctx = \<lparr>visit_roots = \<lambda>_. [Ptr 0x1018],
     trace_object = \<lambda>c p. if c \<and> p = 0x1018 then [Ptr 0x2018] else [],
     process_weak_refs = \<lambda>_ c. c\<rparr>"

definition store_heap :: heap where
  "store_heap = heap_new
     \<lparr>memory := [0x1000 \<mapsto> \<lparr>color = Black, alloc_size = 16, next_object = Some 0x2000\<rparr>,
                 0x2000 \<mapsto> \<lparr>color = White, alloc_size = 40, next_object = None\<rparr>],
      all_objects := Some 0x1000, bytes_allocated := 104, num_objects := 2, phase := Marking\<rparr>"

lemma store_colors:
  "colored store_heap Black = {0x1000}" "colored store_heap Gray = {}"
  by (auto simp: colored_def store_heap_def split: if_splits)

theorem write_barrier_tri_color_witness:
  "is_marking store_heap \<and> tri_color store_ctx False store_heap \<and>
   \<not> tri_color store_ctx True store_heap \<and>
   (\<exists>h'. write_barrier store_heap (Ptr 0x2018) = Some h' \<and> tri_color store_ctx True h')"
proof -
  have m: "is_marking store_heap" by (simp add: is_marking_def store_heap_def)
  have i: "tri_color store_ctx False store_heap" "\<not> tri_color store_ctx True store_heap"
    by (simp_all add: tri_color_def store_colors queue_ok_def store_ctx_def from_object_ptr_def
        object_ptr_def HEADER_SIZE_def) (simp_all add: store_heap_def heap_new_def gray_new_def)
  have s: "stored store_ctx False 0x1000 (Ptr 0x2018) True"
    by (auto simp: stored_def store_ctx_def object_ptr_def from_object_ptr_def HEADER_SIZE_def)
  have "b \<in> dom (memory store_heap)" if "target (Ptr 0x2018) = Some b" for b
    using that by (auto simp: store_heap_def from_object_ptr_def HEADER_SIZE_def)
  from write_barrier_tri_color [OF m i(1) s this] show ?thesis using m i by blast
qed

subsection \<open>Allocation while a sweep is under way\<close>

text \<open>
  A heap at the end of marking whose only object is garbage. An allocation at this moment first
  advances the cycle, which starts the sweep at that object, and then prepends the new object to
  \<open>all_objects\<close>; the next step unlinks the garbage object with \<open>sweep_prev = None\<close>
  and so overwrites \<open>all_objects\<close>.
\<close>

definition marked_heap :: heap where
  "marked_heap = heap_new
     \<lparr>memory := [0x2000 \<mapsto> \<lparr>color = White, alloc_size = 40, next_object = None\<rparr>],
      all_objects := Some 0x2000, bytes_allocated := 64, num_objects := 1,
      phase := WeakRefProcessing\<rparr>"

definition no_roots :: "unit gc_context" where
  "no_roots = \<lparr>visit_roots = \<lambda>_. [], trace_object = \<lambda>_ _. [], process_weak_refs = \<lambda>_ c. c\<rparr>"


end
