(* ===== verification/Codec.thy ===== *)
theory Codec
  imports Prelude
begin

section \<open>Self-delimiting codecs\<close>

text \<open>
  The interface between the byte encodings of the engine (varints, UTF-8 code points) and the code
  that reads a buffer made of several encodings in a row (the source map, the code point iterator of
  WTF-8 strings). An encoding is self-delimiting: decoding a buffer that starts with it returns the
  value and the length, whatever follows.
\<close>

locale prefix_codec =
  fixes enc :: "'a \<Rightarrow> 'b list"
    and dec :: "'b list \<Rightarrow> ('a \<times> nat) option"
    and ok :: "'a \<Rightarrow> bool"
  assumes dec_enc: "ok x \<Longrightarrow> dec (enc x @ rest) = Some (x, length (enc x))"
    and enc_nonempty: "ok x \<Longrightarrow> enc x \<noteq> []"
begin

lemma enc_prefix_free:
  assumes "ok x" "ok y" "enc x @ r = enc y @ s"
  shows "x = y \<and> r = s"
proof -
  have "x = y" using dec_enc [OF assms(1), of r] dec_enc [OF assms(2), of s] assms(3) by simp
  with assms(3) show ?thesis by simp
qed

lemma concat_enc_inj:
  assumes "list_all ok xs" "list_all ok ys" "concat (map enc xs) = concat (map enc ys)"
  shows "xs = ys"
  using assms
proof (induction xs arbitrary: ys)
  case Nil
  then show ?case by (cases ys) (auto simp: enc_nonempty)
next
  case (Cons x xs)
  then obtain y ys' where ys: "ys = y # ys'"
    by (cases ys) (auto simp: enc_nonempty)
  have "x = y \<and> concat (map enc xs) = concat (map enc ys')"
    using Cons.prems ys by (intro enc_prefix_free) simp_all
  with Cons ys show ?case by simp
qed

end

text \<open>A loop that decodes until the buffer is empty reads back the encoded sequence.\<close>

locale codec_loop = prefix_codec +
  fixes collect :: "'b list \<Rightarrow> 'a list option"
  assumes collect_Nil: "collect [] = Some []"
    and collect_step: "dec buf = Some (x, n) \<Longrightarrow> buf \<noteq> [] \<Longrightarrow>
          collect buf = map_option (Cons x) (collect (drop n buf))"
begin

lemma collect_concat: "list_all ok xs \<Longrightarrow> collect (concat (map enc xs)) = Some xs"
proof (induction xs)
  case Nil
  then show ?case by (simp add: collect_Nil)
next
  case (Cons x xs)
  then have "ok x" "collect (concat (map enc xs)) = Some xs" by simp_all
  with collect_step [OF dec_enc [OF \<open>ok x\<close>], of "concat (map enc xs)"] enc_nonempty [OF \<open>ok x\<close>]
  show ?case by simp
qed

end

end
