(* ===== verification/Unicode.thy ===== *)
theory Unicode
  imports Prelude
begin

unbundle bit_operations_syntax

section \<open>Code points, surrogates and the UTF-8 and UTF-16 encodings\<close>

text \<open>
  \<open>common/unicode.rs\<close>: classification of code points, surrogate pairs, the identifier lookup
  tables, and the encoders and the decoder that lexer, strings and regular expressions share.
  Encoders write into a buffer and return the number of units written; a write outside the buffer or
  a code point out of range is a panic, \<open>None\<close>. The decoder accepts surrogate code points, so
  it decodes WTF-8; it returns the length of the rejected bytes as an error.
\<close>

type_synonym code_unit = u16
type_synonym code_point = u32

definition MAX_CODE_POINT :: code_point where "MAX_CODE_POINT = 0x10FFFF"
definition BMP_END :: code_point where "BMP_END = 0xFFFF"
definition HIGH_SURROGATE_START :: code_unit where "HIGH_SURROGATE_START = 0xD800"
definition HIGH_SURROGATE_END :: code_unit where "HIGH_SURROGATE_END = 0xDBFF"
definition LOW_SURROGATE_START :: code_unit where "LOW_SURROGATE_START = 0xDC00"
definition LOW_SURROGATE_END :: code_unit where "LOW_SURROGATE_END = 0xDFFF"

definition is_in_unicode_range :: "code_point \<Rightarrow> bool" where
  "is_in_unicode_range cp \<longleftrightarrow> cp \<le> MAX_CODE_POINT"

definition is_in_bmp_range :: "code_point \<Rightarrow> bool" where
  "is_in_bmp_range cp \<longleftrightarrow> cp \<le> BMP_END"

definition is_surrogate_code_point :: "code_point \<Rightarrow> bool" where
  "is_surrogate_code_point cp \<longleftrightarrow> cp \<ge> ucast HIGH_SURROGATE_START \<and> cp \<le> ucast LOW_SURROGATE_END"

definition is_high_surrogate_code_point :: "code_point \<Rightarrow> bool" where
  "is_high_surrogate_code_point cp \<longleftrightarrow>
     cp \<ge> ucast HIGH_SURROGATE_START \<and> cp \<le> ucast HIGH_SURROGATE_END"

definition is_low_surrogate_code_point :: "code_point \<Rightarrow> bool" where
  "is_low_surrogate_code_point cp \<longleftrightarrow>
     cp \<ge> ucast LOW_SURROGATE_START \<and> cp \<le> ucast LOW_SURROGATE_END"

definition is_high_surrogate_code_unit :: "code_unit \<Rightarrow> bool" where
  "is_high_surrogate_code_unit u \<longleftrightarrow> HIGH_SURROGATE_START \<le> u \<and> u \<le> HIGH_SURROGATE_END"

definition is_low_surrogate_code_unit :: "code_unit \<Rightarrow> bool" where
  "is_low_surrogate_code_unit u \<longleftrightarrow> LOW_SURROGATE_START \<le> u \<and> u \<le> LOW_SURROGATE_END"

definition needs_surrogate_pair :: "code_point \<Rightarrow> bool" where
  "needs_surrogate_pair cp \<longleftrightarrow> cp \<ge> 0x10000"

definition try_encode_surrogate_pair :: "code_point \<Rightarrow> (code_unit \<times> code_unit) option" where
  "try_encode_surrogate_pair cp =
     (if \<not> needs_surrogate_pair cp then None
      else let offset = cp - 0x10000;
               high_bits = ucast (drop_bit 10 offset);
               low_bits = ucast (offset AND 0x3FF)
           in Some (high_bits + HIGH_SURROGATE_START, low_bits + LOW_SURROGATE_START))"

definition code_point_from_surrogate_pair :: "code_unit \<Rightarrow> code_unit \<Rightarrow> code_point" where
  "code_point_from_surrogate_pair high low =
     (let high_bits = ucast (high - HIGH_SURROGATE_START);
          low_bits = ucast (low - LOW_SURROGATE_START)
      in (push_bit 10 high_bits OR low_bits) + 0x10000)"

definition is_continuation_byte :: "u8 \<Rightarrow> bool" where
  "is_continuation_byte b \<longleftrightarrow> b AND 0xC0 = 0x80"

definition is_ascii :: "code_point \<Rightarrow> bool" where
  "is_ascii cp \<longleftrightarrow> cp < 0x80"

definition is_latin1 :: "code_point \<Rightarrow> bool" where
  "is_latin1 cp \<longleftrightarrow> cp \<le> 0xFF"

subsection \<open>Character classes\<close>

definition is_decimal_digit :: "code_point \<Rightarrow> bool" where
  "is_decimal_digit cp \<longleftrightarrow> 0x30 \<le> cp \<and> cp \<le> 0x39"

definition is_ascii_whitespace :: "code_point \<Rightarrow> bool" where
  "is_ascii_whitespace cp \<longleftrightarrow> cp = 0x20 \<or> cp = 0x09 \<or> cp = 0x0B \<or> cp = 0x0C"

definition is_unicode_whitespace :: "code_point \<Rightarrow> bool" where
  "is_unicode_whitespace cp \<longleftrightarrow>
     cp = 0x00A0 \<or> cp = 0x1680 \<or> 0x2000 \<le> cp \<and> cp \<le> 0x200A \<or> cp = 0x202F \<or> cp = 0x205F \<or>
     cp = 0x3000 \<or> cp = 0xFEFF"

definition is_whitespace :: "code_point \<Rightarrow> bool" where
  "is_whitespace cp \<longleftrightarrow> is_ascii_whitespace cp \<or> is_unicode_whitespace cp"

definition is_unicode_newline :: "code_point \<Rightarrow> bool" where
  "is_unicode_newline cp \<longleftrightarrow> cp = 0x2028 \<or> cp = 0x2029"

definition is_ascii_newline :: "code_point \<Rightarrow> bool" where
  "is_ascii_newline cp \<longleftrightarrow> cp = 0x0A \<or> cp = 0x0D"

definition is_newline :: "code_point \<Rightarrow> bool" where
  "is_newline cp \<longleftrightarrow> is_ascii_newline cp \<or> is_unicode_newline cp"

definition is_ascii_alphabetic :: "code_point \<Rightarrow> bool" where
  "is_ascii_alphabetic cp \<longleftrightarrow> 0x61 \<le> cp \<and> cp \<le> 0x7A \<or> 0x41 \<le> cp \<and> cp \<le> 0x5A"

definition get_binary_value :: "code_point \<Rightarrow> u32 option" where
  "get_binary_value cp = (if cp = 0x30 then Some 0 else if cp = 0x31 then Some 1 else None)"

definition get_octal_value :: "code_point \<Rightarrow> u32 option" where
  "get_octal_value cp = (if 0x30 \<le> cp \<and> cp \<le> 0x37 then Some (cp - 0x30) else None)"

definition get_hex_value :: "code_point \<Rightarrow> u32 option" where
  "get_hex_value cp =
     (if 0x30 \<le> cp \<and> cp \<le> 0x39 then Some (cp - 0x30)
      else if 0x61 \<le> cp \<and> cp \<le> 0x66 then Some (cp - 0x61 + 10)
      else if 0x41 \<le> cp \<and> cp \<le> 0x46 then Some (cp - 0x41 + 10)
      else None)"

text \<open>The two tables of 128 entries, as their runs of equal values.\<close>

definition ASCII_ID_START :: "bool list" where
  "ASCII_ID_START =
     replicate 36 False @
     replicate 1 True @
     replicate 28 False @
     replicate 26 True @
     replicate 4 False @
     replicate 1 True @
     replicate 1 False @
     replicate 26 True @
     replicate 5 False"

definition ASCII_ID_PART :: "bool list" where
  "ASCII_ID_PART =
     replicate 36 False @
     replicate 1 True @
     replicate 11 False @
     replicate 10 True @
     replicate 7 False @
     replicate 26 True @
     replicate 4 False @
     replicate 1 True @
     replicate 1 False @
     replicate 26 True @
     replicate 5 False"

definition is_id_start_ascii :: "code_point \<Rightarrow> bool" where
  "is_id_start_ascii cp \<longleftrightarrow>
     (if unat cp < length ASCII_ID_START then ASCII_ID_START ! unat cp else False)"

definition is_id_part_ascii :: "code_point \<Rightarrow> bool" where
  "is_id_part_ascii cp \<longleftrightarrow>
     (if unat cp < length ASCII_ID_PART then ASCII_ID_PART ! unat cp else False)"

subsection \<open>UTF-8 and UTF-16\<close>

definition encode_utf8_codepoint :: "u8 list \<Rightarrow> code_point \<Rightarrow> (u8 list \<times> nat) option" where
  "encode_utf8_codepoint buf cp =
     (if cp < 0x80 \<and> buf \<noteq> [] then Some (buf[0 := ucast cp], 1)
      else if cp \<le> 0x7FF \<and> length buf \<ge> 2 then
        Some (buf[0 := 0xC0 OR ucast (drop_bit 6 cp),
                  1 := 0x80 OR ucast (cp AND 0x3F)], 2)
      else if cp \<le> 0xFFFF \<and> length buf \<ge> 3 then
        Some (buf[0 := 0xE0 OR ucast (drop_bit 12 cp),
                  1 := 0x80 OR ucast (drop_bit 6 cp AND 0x3F),
                  2 := 0x80 OR ucast (cp AND 0x3F)], 3)
      else if cp \<le> 0x10FFFF \<and> length buf \<ge> 4 then
        Some (buf[0 := 0xF0 OR ucast (drop_bit 18 cp),
                  1 := 0x80 OR ucast (drop_bit 12 cp AND 0x3F),
                  2 := 0x80 OR ucast (drop_bit 6 cp AND 0x3F),
                  3 := 0x80 OR ucast (cp AND 0x3F)], 4)
      else None)"

definition utf8_byte_count :: "code_point \<Rightarrow> nat option" where
  "utf8_byte_count cp =
     (if cp < 0x80 then Some 1 else if cp \<le> 0x7FF then Some 2 else if cp \<le> 0xFFFF then Some 3
      else if cp \<le> 0x10FFFF then Some 4 else None)"

text \<open>The outer option is the panic on an empty slice.\<close>

definition decode_wtf8_codepoint :: "u8 list \<Rightarrow> (nat + code_point \<times> nat) option" where
  "decode_wtf8_codepoint buf =
     (if buf = [] then None
      else let b1 = buf ! 0 in
        Some
        (if b1 AND 0xE0 = 0xC0 \<and> length buf \<ge> 2 then
           (let b2 = buf ! 1 in
              if \<not> is_continuation_byte b2 then Inl 2
              else Inr (push_bit 6 (ucast b1 AND 0x1F) OR (ucast b2 AND 0x3F), 2))
         else if b1 AND 0xF0 = 0xE0 \<and> length buf \<ge> 3 then
           (let b2 = buf ! 1; b3 = buf ! 2 in
              if \<not> is_continuation_byte b2 \<or> \<not> is_continuation_byte b3 then Inl 3
              else Inr (push_bit 12 (ucast b1 AND 0x0F) OR push_bit 6 (ucast b2 AND 0x3F) OR
                        (ucast b3 AND 0x3F), 3))
         else if b1 AND 0xF8 = 0xF0 \<and> length buf \<ge> 4 then
           (let b2 = buf ! 1; b3 = buf ! 2; b4 = buf ! 3 in
              if \<not> is_continuation_byte b2 \<or> \<not> is_continuation_byte b3 \<or> \<not> is_continuation_byte b4
              then Inl 4
              else Inr (push_bit 18 (ucast b1 AND 0x07) OR push_bit 12 (ucast b2 AND 0x3F) OR
                        push_bit 6 (ucast b3 AND 0x3F) OR (ucast b4 AND 0x3F), 4))
         else Inl 1))"

definition encode_utf16_codepoint :: "code_unit list \<Rightarrow> code_point \<Rightarrow> (code_unit list \<times> nat) option" where
  "encode_utf16_codepoint buf cp =
     (if is_in_bmp_range cp then
        (if buf = [] then None else Some (buf[0 := ucast cp], 1))
      else let offset = cp - 0x10000;
               high_bits = ucast (drop_bit 10 offset);
               low_bits = ucast (offset AND 0x3FF)
           in if length buf < 2 then None
              else Some (buf[0 := high_bits + HIGH_SURROGATE_START, 1 := low_bits + LOW_SURROGATE_START], 2))"

definition utf16_code_unit_count :: "code_point \<Rightarrow> nat" where
  "utf16_code_unit_count cp = (if is_in_bmp_range cp then 1 else 2)"

subsection \<open>UTF-8 decoding undoes encoding\<close>

text \<open>The bytes that the encoder writes for a code point.\<close>

definition utf8_bytes :: "code_point \<Rightarrow> u8 list" where
  "utf8_bytes cp =
     (case encode_utf8_codepoint [0, 0, 0, 0] cp of None \<Rightarrow> [] | Some (buf, n) \<Rightarrow> take n buf)"

lemma utf8_bytes_cases:
  "cp < 0x80 \<Longrightarrow> utf8_bytes cp = [ucast cp]"
  "0x80 \<le> cp \<Longrightarrow> cp \<le> 0x7FF \<Longrightarrow>
     utf8_bytes cp = [0xC0 OR ucast (drop_bit 6 cp), 0x80 OR ucast (cp AND 0x3F)]"
  "0x7FF < cp \<Longrightarrow> cp \<le> 0xFFFF \<Longrightarrow>
     utf8_bytes cp = [0xE0 OR ucast (drop_bit 12 cp), 0x80 OR ucast (drop_bit 6 cp AND 0x3F),
       0x80 OR ucast (cp AND 0x3F)]"
  "0xFFFF < cp \<Longrightarrow> cp \<le> 0x10FFFF \<Longrightarrow>
     utf8_bytes cp = [0xF0 OR ucast (drop_bit 18 cp), 0x80 OR ucast (drop_bit 12 cp AND 0x3F),
       0x80 OR ucast (drop_bit 6 cp AND 0x3F), 0x80 OR ucast (cp AND 0x3F)]"
  by (auto simp: utf8_bytes_def encode_utf8_codepoint_def word_le_nat_alt word_less_nat_alt)

lemma continuation_byte: "is_continuation_byte (0x80 OR ucast (x AND (0x3F :: u32)))"
  unfolding is_continuation_byte_def
  by (rule bit_word_eqI) (auto simp: bit_simps byte_mask_bits)

lemma continuation_payload: "ucast (0x80 OR ucast (x AND (0x3F :: u32)) :: u8) AND 0x3F = x AND (0x3F :: u32)"
  by (rule bit_word_eqI) (auto simp: bit_simps byte_mask_bits)

lemma lead_bytes:
  fixes x :: u32
  shows "unat x < 2 ^ 5 \<Longrightarrow> (0xC0 OR ucast x :: u8) AND 0xE0 = 0xC0"
    "unat x < 2 ^ 4 \<Longrightarrow> (0xE0 OR ucast x :: u8) AND 0xF0 = 0xE0"
    "unat x < 2 ^ 3 \<Longrightarrow> (0xF0 OR ucast x :: u8) AND 0xF8 = 0xF0"
proof -
  assume "unat x < 2 ^ 5"
  note b = bit_below_power [OF this]
  show "(0xC0 OR ucast x :: u8) AND 0xE0 = 0xC0"
    by (rule bit_word_eqI) (auto simp: bit_simps byte_mask_bits dest: b)
next
  assume "unat x < 2 ^ 4"
  note b = bit_below_power [OF this]
  show "(0xE0 OR ucast x :: u8) AND 0xF0 = 0xE0"
    by (rule bit_word_eqI) (auto simp: bit_simps byte_mask_bits dest: b)
next
  assume "unat x < 2 ^ 3"
  note b = bit_below_power [OF this]
  show "(0xF0 OR ucast x :: u8) AND 0xF8 = 0xF0"
    by (rule bit_word_eqI) (auto simp: bit_simps byte_mask_bits dest: b)
qed

lemma lead_bytes_differ:
  "(0xE0 OR y :: u8) AND 0xE0 \<noteq> 0xC0" "(0xF0 OR y :: u8) AND 0xE0 \<noteq> 0xC0"
  "(0xF0 OR y :: u8) AND 0xF0 \<noteq> 0xE0"
proof -
  have differ: "a \<noteq> b" if "bit a n \<noteq> bit b n" for a b :: u8 and n using that by auto
  show "(0xE0 OR y :: u8) AND 0xE0 \<noteq> 0xC0" "(0xF0 OR y :: u8) AND 0xE0 \<noteq> 0xC0"
    by (rule differ [of _ 5]; simp only: bit_simps byte_mask_bits; simp)+
  show "(0xF0 OR y :: u8) AND 0xF0 \<noteq> 0xE0"
    by (rule differ [of _ 4]) (simp only: bit_simps byte_mask_bits; simp)
qed

text \<open>Reassembling the six-bit groups of a code point.\<close>

lemma utf8_groups:
  fixes x :: u32
  shows "unat x < 2 ^ 11 \<Longrightarrow>
      push_bit 6 (ucast (0xC0 OR ucast (drop_bit 6 x) :: u8) AND 0x1F) OR (x AND 0x3F) = x"
    and "unat x < 2 ^ 16 \<Longrightarrow>
      push_bit 12 (ucast (0xE0 OR ucast (drop_bit 12 x) :: u8) AND 0x0F) OR
      push_bit 6 (drop_bit 6 x AND 0x3F) OR (x AND 0x3F) = x"
    and "unat x < 2 ^ 21 \<Longrightarrow>
      push_bit 18 (ucast (0xF0 OR ucast (drop_bit 18 x) :: u8) AND 0x07) OR
      push_bit 12 (drop_bit 12 x AND 0x3F) OR push_bit 6 (drop_bit 6 x AND 0x3F) OR (x AND 0x3F) = x"
proof -
  assume "unat x < 2 ^ 11"
  note b = bit_below_power [OF this]
  show "push_bit 6 (ucast (0xC0 OR ucast (drop_bit 6 x) :: u8) AND 0x1F) OR (x AND 0x3F) = x"
    by (rule bit_word_eqI) (auto simp: bit_simps byte_mask_bits not_less simp del: push_bit_and dest: b)
next
  assume "unat x < 2 ^ 16"
  note b = bit_below_power [OF this]
  show "push_bit 12 (ucast (0xE0 OR ucast (drop_bit 12 x) :: u8) AND 0x0F) OR
      push_bit 6 (drop_bit 6 x AND 0x3F) OR (x AND 0x3F) = x"
    by (rule bit_word_eqI) (auto simp: bit_simps byte_mask_bits not_less simp del: push_bit_and dest: b)
next
  assume "unat x < 2 ^ 21"
  note b = bit_below_power [OF this]
  show "push_bit 18 (ucast (0xF0 OR ucast (drop_bit 18 x) :: u8) AND 0x07) OR
      push_bit 12 (drop_bit 12 x AND 0x3F) OR push_bit 6 (drop_bit 6 x AND 0x3F) OR (x AND 0x3F) = x"
  proof (rule bit_word_eqI)
    fix n assume "n < LENGTH(32)"
    then show "bit (push_bit 18 (ucast (0xF0 OR ucast (drop_bit 18 x) :: u8) AND 0x07) OR
      push_bit 12 (drop_bit 12 x AND 0x3F) OR push_bit 6 (drop_bit 6 x AND 0x3F) OR (x AND 0x3F)) n =
      bit x n"
      by (cases "12 \<le> n")
        (auto simp: bit_simps byte_mask_bits not_less not_le simp del: push_bit_and dest: b)
  qed
qed

lemma word_le_power: "(x :: u32) \<le> y \<Longrightarrow> unat y < 2 ^ k \<Longrightarrow> unat x < 2 ^ k"
  by (simp add: word_le_nat_alt)

lemma unat_drop_less: "unat (x :: u32) < 2 ^ (n + k) \<Longrightarrow> unat (drop_bit n x) < 2 ^ k"
  by (simp only: unat_drop_bit power_add mult.commute less_mult_imp_div_less)

lemma decode_utf8_bytes:
  assumes "0x80 \<le> cp" and "cp \<le> 0x10FFFF"
  shows "decode_wtf8_codepoint (utf8_bytes cp @ rest) = Some (Inr (cp, length (utf8_bytes cp)))"
proof -
  consider (two) "0x80 \<le> cp" "cp \<le> 0x7FF" | (three) "0x7FF < cp" "cp \<le> 0xFFFF"
    | (four) "0xFFFF < cp" "cp \<le> 0x10FFFF"
    using assms by fastforce
  then show ?thesis
  proof cases
    case two
    have b: "unat cp < 2 ^ (6 + 5)" by (rule word_le_power [OF two(2)]) simp
    then have g: "unat cp < 2 ^ 11" by simp
    show ?thesis
      using lead_bytes(1) [OF unat_drop_less [OF b]] utf8_groups(1) [OF g]
      by (simp add: utf8_bytes_cases(2) [OF two] decode_wtf8_codepoint_def continuation_byte
          continuation_payload)
  next
    case three
    have b: "unat cp < 2 ^ (12 + 4)" by (rule word_le_power [OF three(2)]) simp
    then have g: "unat cp < 2 ^ 16" by simp
    show ?thesis
      using lead_bytes(2) [OF unat_drop_less [OF b]] utf8_groups(2) [OF g]
      by (simp add: utf8_bytes_cases(3) [OF three] decode_wtf8_codepoint_def continuation_byte
          continuation_payload lead_bytes_differ del: push_bit_and)
  next
    case four
    have g: "unat cp < 2 ^ 21" by (rule word_le_power [OF four(2)]) simp
    then have "unat cp < 2 ^ (18 + 3)" by simp
    from lead_bytes(3) [OF unat_drop_less [OF this]] utf8_groups(3) [OF g] show ?thesis
      by (simp add: utf8_bytes_cases(4) [OF four] decode_wtf8_codepoint_def continuation_byte
          continuation_payload lead_bytes_differ del: push_bit_and)
  qed
qed

subsection \<open>Surrogate pairs\<close>

text \<open>Surrogate arithmetic on natural numbers.\<close>

lemma unat_surrogates:
  fixes x :: u32
  assumes "unat x < 2 ^ 20"
  shows "unat (ucast (drop_bit 10 x) + HIGH_SURROGATE_START :: u16) = unat x div 1024 + 0xD800"
    and "unat (ucast (x AND 0x3FF) + LOW_SURROGATE_START :: u16) = unat x mod 1024 + 0xDC00"
proof -
  have m: "(0x3FF :: u32) = mask 10" by (simp add: mask_eq_exp_minus_1)
  have "unat x div 1024 < 1024" using assms by (simp add: less_mult_imp_div_less)
  then have h: "unat (ucast (drop_bit 10 x) :: u16) = unat x div 1024"
    by (simp add: unat_drop_bit unsigned_ucast_eq take_bit_nat_eq_self del: drop_bit_numeral_bit0)
  have "unat (x AND 0x3FF) = unat x mod 1024" using unat_and_mask_mod [of x 10] by (simp add: m)
  then have l: "unat (ucast (x AND 0x3FF) :: u16) = unat x mod 1024"
    by (simp add: unsigned_ucast_eq take_bit_nat_eq_self)
  show "unat (ucast (drop_bit 10 x) + HIGH_SURROGATE_START :: u16) = unat x div 1024 + 0xD800"
    using \<open>unat x div 1024 < 1024\<close> by (simp add: unat_word_ariths h HIGH_SURROGATE_START_def)
  show "unat (ucast (x AND 0x3FF) + LOW_SURROGATE_START :: u16) = unat x mod 1024 + 0xDC00"
    by (simp add: unat_word_ariths l LOW_SURROGATE_START_def)
qed

lemma code_point_from_surrogate_pair_arith:
  assumes "is_high_surrogate_code_unit h" "is_low_surrogate_code_unit l"
  shows "unat (code_point_from_surrogate_pair h l) = (unat h - 0xD800) * 1024 + (unat l - 0xDC00) + 0x10000"
proof -
  have h: "0xD800 \<le> unat h" "unat h \<le> 0xDBFF" and l: "0xDC00 \<le> unat l" "unat l \<le> 0xDFFF"
    using assms by (simp_all add: is_high_surrogate_code_unit_def is_low_surrogate_code_unit_def
        HIGH_SURROGATE_START_def HIGH_SURROGATE_END_def LOW_SURROGATE_START_def LOW_SURROGATE_END_def
        word_le_nat_alt)
  define hb lb :: u32 where "hb = ucast (h - HIGH_SURROGATE_START)" and "lb = ucast (l - LOW_SURROGATE_START)"
  have uh: "unat hb = unat h - 0xD800"
    using h by (simp add: hb_def unat_sub word_le_nat_alt HIGH_SURROGATE_START_def unsigned_ucast_eq
        take_bit_nat_eq_self)
  have ul: "unat lb = unat l - 0xDC00"
    using l by (simp add: lb_def unat_sub word_le_nat_alt LOW_SURROGATE_START_def unsigned_ucast_eq
        take_bit_nat_eq_self)
  have "unat lb < 2 ^ 10" using ul l by simp
  note bl = bit_below_power [OF this]
  have "push_bit 10 hb AND lb = 0"
    by (rule bit_word_eqI) (auto simp: bit_simps simp del: push_bit_and dest: bl)
  then have "push_bit 10 hb OR lb = push_bit 10 hb + lb" by (rule disjunctive_add_eq_or [symmetric])
  then have "code_point_from_surrogate_pair h l = push_bit 10 hb + lb + 0x10000"
    by (simp add: code_point_from_surrogate_pair_def Let_def hb_def lb_def)
  moreover have "unat (push_bit 10 hb) = (unat h - 0xD800) * 1024"
    using h by (simp add: push_bit_eq_mult unat_word_ariths uh)
  ultimately show ?thesis using ul h l by (simp add: unat_word_ariths)
qed

lemma surrogate_ranges:
  assumes "0xD800 \<le> unat h" "unat h < 0xDC00" "0xDC00 \<le> unat l" "unat l < 0xE000"
  shows "is_high_surrogate_code_unit h" "is_low_surrogate_code_unit l"
  using assms by (simp_all add: is_high_surrogate_code_unit_def is_low_surrogate_code_unit_def
      HIGH_SURROGATE_START_def HIGH_SURROGATE_END_def LOW_SURROGATE_START_def LOW_SURROGATE_END_def
      word_le_nat_alt)

text \<open>
  Every code point above the basic plane splits into a high and a low surrogate from which it is
  recovered, and these are the two units that the UTF-16 encoder writes.
\<close>

theorem surrogate_pair_roundtrip:
  assumes "0x10000 \<le> cp" "cp \<le> MAX_CODE_POINT"
  shows "\<exists>h l. try_encode_surrogate_pair cp = Some (h, l) \<and>
           is_high_surrogate_code_unit h \<and> is_low_surrogate_code_unit l \<and>
           code_point_from_surrogate_pair h l = cp \<and>
           encode_utf16_codepoint [u, v] cp = Some ([h, l], 2)"
proof -
  let ?o = "cp - 0x10000"
  have o: "unat ?o = unat cp - 0x10000" "0x10000 \<le> unat cp" "unat ?o < 2 ^ 20"
    using assms by (simp_all add: unat_sub word_le_nat_alt MAX_CODE_POINT_def)
  define h l :: u16 where "h = ucast (drop_bit 10 ?o) + HIGH_SURROGATE_START"
    and "l = ucast (?o AND 0x3FF) + LOW_SURROGATE_START"
  have uh: "unat h = unat ?o div 1024 + 0xD800" and ul: "unat l = unat ?o mod 1024 + 0xDC00"
    using unat_surrogates [OF o(3)] by (simp_all only: h_def l_def)
  have "unat ?o div 1024 < 1024" using o(3) by (simp add: less_mult_imp_div_less)
  then have r: "is_high_surrogate_code_unit h" "is_low_surrogate_code_unit l"
    using surrogate_ranges [of h l] uh ul by simp_all
  have "unat (code_point_from_surrogate_pair h l) = unat ?o div 1024 * 1024 + unat ?o mod 1024 + 0x10000"
    by (simp add: code_point_from_surrogate_pair_arith [OF r] uh ul)
  also have "\<dots> = unat cp" using o by simp
  finally have "code_point_from_surrogate_pair h l = cp" by (rule unsigned_word_eqI)
  moreover have "try_encode_surrogate_pair cp = Some (h, l)"
    using assms(1) by (simp add: try_encode_surrogate_pair_def needs_surrogate_pair_def h_def l_def Let_def)
  moreover have "encode_utf16_codepoint [u, v] cp = Some ([h, l], 2)"
    using o(2) by (simp add: encode_utf16_codepoint_def is_in_bmp_range_def BMP_END_def
        word_le_nat_alt h_def l_def Let_def)
  ultimately show ?thesis using r by blast
qed

theorem surrogate_pair_roundtrip_witness:
  "\<exists>h l. try_encode_surrogate_pair 0x1F600 = Some (h, l) \<and> code_point_from_surrogate_pair h l = 0x1F600"
  using surrogate_pair_roundtrip [of "0x1F600" 0 0] by (auto simp: MAX_CODE_POINT_def)

subsection \<open>The identifier tables\<close>

lemma id_tables_ascii:
  "list_all (\<lambda>i. ASCII_ID_START ! i =
       (is_ascii_alphabetic (of_nat i) \<or> of_nat i = (0x5F :: u32) \<or> of_nat i = (0x24 :: u32)))
     [0..<128]"
  "list_all (\<lambda>i. ASCII_ID_PART ! i =
       (is_ascii_alphabetic (of_nat i) \<or> is_decimal_digit (of_nat i) \<or>
        of_nat i = (0x5F :: u32) \<or> of_nat i = (0x24 :: u32)))
     [0..<128]"
  by code_simp+

lemma id_table_lengths: "length ASCII_ID_START = 128" "length ASCII_ID_PART = 128"
  by code_simp+

text \<open>
  The two lookup tables for identifiers hold what the predicates of their comments generate, for
  all 32-bit code points: letters, underscore and dollar sign start an identifier, and digits may
  follow; no code point outside ASCII passes.
\<close>

theorem id_tables_correct:
  "(is_id_start_ascii cp \<longleftrightarrow> is_ascii_alphabetic cp \<or> cp = 0x5F \<or> cp = 0x24) \<and>
   (is_id_part_ascii cp \<longleftrightarrow>
      is_ascii_alphabetic cp \<or> is_decimal_digit cp \<or> cp = 0x5F \<or> cp = 0x24)"
proof (cases "unat cp < 128")
  case True
  then have "unat cp \<in> set [0..<128]" by simp
  then show ?thesis
    using id_tables_ascii True unfolding list_all_iff is_id_start_ascii_def is_id_part_ascii_def
      id_table_lengths by fastforce
next
  case False
  then show ?thesis
    by (auto simp: is_id_start_ascii_def is_id_part_ascii_def id_table_lengths is_ascii_alphabetic_def
        is_decimal_digit_def word_le_nat_alt)
qed

text \<open>The decoder does not check the unicode range, nor that an encoding is the shortest one.\<close>

lemma decode_wtf8_out_of_range:
  "decode_wtf8_codepoint [0xF7, 0xBF, 0xBF, 0xBF] = Some (Inr (0x1FFFFF, 4))"
  "decode_wtf8_codepoint [0xC0, 0x80] = Some (Inr (0, 2))"
  by (simp_all add: decode_wtf8_codepoint_def is_continuation_byte_def)

end
