(* ===== verification/Wtf8.thy ===== *)
theory Wtf8
  imports Codec Unicode
begin

unbundle bit_operations_syntax

section \<open>WTF-8 strings\<close>

text \<open>
  \<open>common/wtf_8.rs\<close>: strings of code points, unpaired surrogates allowed, as their UTF-8 bytes.
  The iterator of code points panics (outer \<open>None\<close>) on bytes that the decoder rejects. A
  string that was built by \<open>push\<close> never panics and iterates over exactly the code points pushed;
  \<open>is_well_formed\<close> says that every surrogate belongs to a pair.
\<close>

type_synonym wtf8_string = "u8 list"

definition wtf8_new :: wtf8_string where
  "wtf8_new = []"

definition wtf8_push :: "wtf8_string \<Rightarrow> code_point \<Rightarrow> wtf8_string option" where
  "wtf8_push s cp =
     (case encode_utf8_codepoint [0, 0, 0, 0] cp of None \<Rightarrow> None
      | Some (buf, byte_length) \<Rightarrow> Some (s @ take byte_length buf))"

definition from_code_point_in :: "code_point \<Rightarrow> wtf8_string option" where
  "from_code_point_in cp = wtf8_push wtf8_new cp"

definition push_bytes_unchecked :: "wtf8_string \<Rightarrow> u8 list \<Rightarrow> wtf8_string" where
  "push_bytes_unchecked s bytes = s @ bytes"

definition push_wtf8_str :: "wtf8_string \<Rightarrow> wtf8_string \<Rightarrow> wtf8_string" where
  "push_wtf8_str s t = push_bytes_unchecked s t"

definition wtf8_truncate :: "wtf8_string \<Rightarrow> nat \<Rightarrow> wtf8_string" where
  "wtf8_truncate s new_length = take new_length s"

text \<open>\<open>Wtf8CodePointsIterator::next\<close>: a panic, the end, or a code point and the rest.\<close>

definition wtf8_next :: "u8 list \<Rightarrow> (code_point \<times> u8 list) option option" where
  "wtf8_next buf =
     (if buf = [] then Some None
      else let first_byte = buf ! 0 in
        if is_ascii (ucast first_byte) then Some (Some (ucast first_byte, drop 1 buf))
        else (case decode_wtf8_codepoint buf of
                Some (Inr (cp, byte_length)) \<Rightarrow> Some (Some (cp, drop byte_length buf))
              | _ \<Rightarrow> None))"

lemma decode_wtf8_length:
  "decode_wtf8_codepoint buf = Some (Inr (cp, n)) \<Longrightarrow> 0 < n \<and> n \<le> length buf"
  by (auto simp: decode_wtf8_codepoint_def Let_def split: if_splits)

lemma wtf8_next_decreases: "wtf8_next buf = Some (Some (cp, rest)) \<Longrightarrow> length rest < length buf"
  by (auto simp: wtf8_next_def Let_def split: if_splits option.splits sum.splits
      dest!: decode_wtf8_length)

text \<open>Iterating to the end.\<close>

function iter_code_points :: "u8 list \<Rightarrow> code_point list option" where
  "iter_code_points buf =
     (case wtf8_next buf of
        None \<Rightarrow> None
      | Some None \<Rightarrow> Some []
      | Some (Some (cp, rest)) \<Rightarrow> map_option (Cons cp) (iter_code_points rest))"
  by pat_completeness auto
termination
  by (relation "measure length") (auto dest: wtf8_next_decreases)

declare iter_code_points.simps [simp del]

text \<open>The loop of \<open>is_well_formed\<close> from the iterator's current position.\<close>

function is_well_formed :: "u8 list \<Rightarrow> bool option" where
  "is_well_formed buf =
     (case wtf8_next buf of
        None \<Rightarrow> None
      | Some None \<Rightarrow> Some True
      | Some (Some (cp, rest)) \<Rightarrow>
          if is_surrogate_code_point cp then
            (if is_high_surrogate_code_point cp then
               (case wtf8_next rest of
                  None \<Rightarrow> None
                | Some None \<Rightarrow> Some False
                | Some (Some (next_cp, rest')) \<Rightarrow>
                    if is_low_surrogate_code_point next_cp then is_well_formed rest' else Some False)
             else Some False)
          else is_well_formed rest)"
  by pat_completeness auto
termination
  by (relation "measure length") (auto dest!: wtf8_next_decreases)

declare is_well_formed.simps [simp del]

subsection \<open>The codec of code points\<close>

definition wtf8_decode_one :: "u8 list \<Rightarrow> (code_point \<times> nat) option" where
  "wtf8_decode_one buf =
     (case wtf8_next buf of Some (Some (cp, rest)) \<Rightarrow> Some (cp, length buf - length rest) | _ \<Rightarrow> None)"

lemma utf8_bytes_nonempty:
  assumes "cp \<le> MAX_CODE_POINT"
  shows "utf8_bytes cp \<noteq> []"
proof -
  consider "cp < 0x80" | "0x80 \<le> cp" "cp \<le> 0x7FF" | "0x7FF < cp" "cp \<le> 0xFFFF"
    | "0xFFFF < cp" "cp \<le> 0x10FFFF"
    using assms by (fastforce simp: MAX_CODE_POINT_def)
  then show ?thesis by cases (simp_all add: utf8_bytes_cases)
qed

lemma ascii_byte:
  assumes "(cp :: code_point) < 0x80"
  shows "ucast (ucast cp :: u8) = cp"
proof -
  have "unat cp < 2 ^ 7" using assms by (simp add: word_less_nat_alt)
  note b = bit_below_power [OF this]
  show ?thesis by (rule bit_word_eqI) (auto simp: bit_simps dest: b)
qed

lemma utf8_lead_not_ascii:
  assumes "0x80 \<le> cp" "cp \<le> MAX_CODE_POINT"
  shows "\<not> is_ascii (ucast (hd (utf8_bytes cp)))"
proof -
  have big: "\<not> is_ascii (ucast b)" if "bit b 7" for b :: u8
  proof
    assume "is_ascii (ucast b)"
    then have "unat (ucast b :: u32) < 2 ^ 7" by (simp add: is_ascii_def word_less_nat_alt)
    from bit_below_power [OF this, of 7] show False using that by (simp add: bit_simps)
  qed
  consider "0x80 \<le> cp" "cp \<le> 0x7FF" | "0x7FF < cp" "cp \<le> 0xFFFF" | "0xFFFF < cp" "cp \<le> 0x10FFFF"
    using assms by (fastforce simp: MAX_CODE_POINT_def)
  then show ?thesis
    by cases (simp_all add: utf8_bytes_cases, (rule big, simp add: bit_simps byte_mask_bits)+)
qed

lemma wtf8_next_utf8:
  assumes "cp \<le> MAX_CODE_POINT"
  shows "wtf8_next (utf8_bytes cp @ rest) = Some (Some (cp, rest))"
proof (cases "cp < 0x80")
  case True
  then show ?thesis
    by (simp add: wtf8_next_def utf8_bytes_cases ascii_byte is_ascii_def)
next
  case False
  then have cp: "0x80 \<le> cp" "cp \<le> 0x10FFFF" using assms by (simp_all add: MAX_CODE_POINT_def not_less)
  have ne: "utf8_bytes cp \<noteq> []" by (rule utf8_bytes_nonempty [OF assms])
  then have "\<not> is_ascii (ucast ((utf8_bytes cp @ rest) ! 0))"
    using utf8_lead_not_ascii [OF cp(1) assms] by (simp add: hd_conv_nth nth_append)
  then show ?thesis
    using ne decode_utf8_bytes [OF cp, of rest] by (simp add: wtf8_next_def Let_def)
qed

interpretation utf8: codec_loop utf8_bytes wtf8_decode_one "\<lambda>cp. cp \<le> MAX_CODE_POINT" iter_code_points
proof
  fix cp :: code_point and rest assume ok: "cp \<le> MAX_CODE_POINT"
  show "wtf8_decode_one (utf8_bytes cp @ rest) = Some (cp, length (utf8_bytes cp))"
    by (simp add: wtf8_decode_one_def wtf8_next_utf8 [OF ok])
  show "utf8_bytes cp \<noteq> []" by (rule utf8_bytes_nonempty [OF ok])
next
  show "iter_code_points [] = Some []" by (simp add: iter_code_points.simps wtf8_next_def)
next
  fix buf cp n assume d: "wtf8_decode_one buf = Some (cp, n)"
  then obtain rest where r: "wtf8_next buf = Some (Some (cp, rest))" "n = length buf - length rest"
    by (auto simp: wtf8_decode_one_def split: option.splits)
  then have "\<exists>k. rest = drop k buf \<and> k \<le> length buf"
    by (auto simp: wtf8_next_def Let_def split: if_splits option.splits sum.splits
        dest!: decode_wtf8_length intro: exI [of _ 1]) (metis Suc_leI length_greater_0_conv)
  then have "rest = drop n buf" using r(2) by auto
  then show "iter_code_points buf = map_option (Cons cp) (iter_code_points (drop n buf))"
    by (subst iter_code_points.simps) (simp add: r(1))
qed

subsection \<open>Building and iterating\<close>

text \<open>A string built by pushing code points one after another.\<close>

primrec push_all :: "wtf8_string \<Rightarrow> code_point list \<Rightarrow> wtf8_string option" where
  "push_all s [] = Some s"
| "push_all s (cp # cps) = (case wtf8_push s cp of None \<Rightarrow> None | Some s' \<Rightarrow> push_all s' cps)"

lemma wtf8_push_bytes:
  assumes "cp \<le> MAX_CODE_POINT"
  shows "wtf8_push s cp = Some (s @ utf8_bytes cp)"
proof -
  have "encode_utf8_codepoint [0, 0, 0, 0] cp \<noteq> None"
    using assms by (auto simp: encode_utf8_codepoint_def MAX_CODE_POINT_def)
  then show ?thesis by (auto simp: wtf8_push_def utf8_bytes_def)
qed

lemma push_all_concat:
  "list_all (\<lambda>cp. cp \<le> MAX_CODE_POINT) cps \<Longrightarrow> push_all s cps = Some (s @ concat (map utf8_bytes cps))"
  by (induction cps arbitrary: s) (simp_all add: wtf8_push_bytes)

text \<open>
  Pushing code points onto an empty string never panics, and iterating over the result returns
  exactly the code points pushed, for every sequence of code points in the unicode range, unpaired
  surrogates included; the byte length is the sum of \<open>utf8_byte_count\<close>.
\<close>

theorem push_iter_roundtrip:
  assumes "list_all (\<lambda>cp. cp \<le> MAX_CODE_POINT) cps"
  shows "\<exists>s. push_all wtf8_new cps = Some s \<and> iter_code_points s = Some cps \<and>
           length s = sum_list (map (\<lambda>cp. case utf8_byte_count cp of Some n \<Rightarrow> n | None \<Rightarrow> 0) cps)"
proof -
  have n: "length (utf8_bytes cp) = (case utf8_byte_count cp of Some n \<Rightarrow> n | None \<Rightarrow> 0)"
    if "cp \<le> MAX_CODE_POINT" for cp
    using that by (auto simp: utf8_bytes_def encode_utf8_codepoint_def utf8_byte_count_def MAX_CODE_POINT_def)
  have "length (concat (map utf8_bytes cps)) =
      sum_list (map (\<lambda>cp. case utf8_byte_count cp of Some n \<Rightarrow> n | None \<Rightarrow> 0) cps)"
    using assms by (induction cps) (simp_all add: n)
  then show ?thesis
    using push_all_concat [OF assms, of wtf8_new] utf8.collect_concat [OF assms] by (simp add: wtf8_new_def)
qed

theorem push_iter_roundtrip_witness:
  "\<exists>s. push_all wtf8_new [0x61, 0xE9, 0xD800, 0x1F600] = Some s \<and>
       iter_code_points s = Some [0x61, 0xE9, 0xD800, 0x1F600] \<and> length s = 10"
  using push_iter_roundtrip [of "[0x61, 0xE9, 0xD800, 0x1F600]"]
  by (simp add: MAX_CODE_POINT_def utf8_byte_count_def)

subsection \<open>Well-formed strings\<close>

text \<open>Every high surrogate is followed by a low one, and every low surrogate follows a high one.\<close>

definition surrogates_paired :: "code_point list \<Rightarrow> bool" where
  "surrogates_paired cps \<longleftrightarrow>
     (\<forall>i < length cps.
        (is_high_surrogate_code_point (cps ! i) \<longrightarrow>
           i + 1 < length cps \<and> is_low_surrogate_code_point (cps ! (i + 1))) \<and>
        (is_low_surrogate_code_point (cps ! i) \<longrightarrow>
           0 < i \<and> is_high_surrogate_code_point (cps ! (i - 1))))"

lemma surrogate_kinds:
  "is_surrogate_code_point cp \<longleftrightarrow> is_high_surrogate_code_point cp \<or> is_low_surrogate_code_point cp"
  "is_high_surrogate_code_point cp \<Longrightarrow> \<not> is_low_surrogate_code_point cp"
  by (auto simp: is_surrogate_code_point_def is_high_surrogate_code_point_def
      is_low_surrogate_code_point_def HIGH_SURROGATE_START_def HIGH_SURROGATE_END_def
      LOW_SURROGATE_START_def LOW_SURROGATE_END_def word_le_nat_alt)

text \<open>The same by recursion, with a flag that says whether the previous code point was high.\<close>

primrec paired_after :: "bool \<Rightarrow> code_point list \<Rightarrow> bool" where
  "paired_after p [] = (\<not> p)"
| "paired_after p (c # cs) =
     (p = is_low_surrogate_code_point c \<and> paired_after (is_high_surrogate_code_point c) cs)"

lemma paired_after_nth:
  "paired_after p cps \<longleftrightarrow>
     (p \<longrightarrow> cps \<noteq> [] \<and> is_low_surrogate_code_point (cps ! 0)) \<and>
     (\<forall>i < length cps.
        (is_high_surrogate_code_point (cps ! i) \<longrightarrow>
           i + 1 < length cps \<and> is_low_surrogate_code_point (cps ! (i + 1))) \<and>
        (is_low_surrogate_code_point (cps ! i) \<longrightarrow>
           (if i = 0 then p else is_high_surrogate_code_point (cps ! (i - 1)))))"
proof (induction cps arbitrary: p)
  case (Cons c cs)
  have n: "is_high_surrogate_code_point ((c # cs) ! i) =
      (if i = 0 then is_high_surrogate_code_point c else is_high_surrogate_code_point (cs ! (i - 1)))" for i
    by (simp add: nth_Cons')
  show ?case
    unfolding paired_after.simps Cons.IH by (simp add: All_less_Suc2 n) blast
qed simp

lemma paired_after_iff: "paired_after False cps = surrogates_paired cps"
proof -
  have i: "(if i = 0 then False else b) \<longleftrightarrow> 0 < i \<and> b" for i :: nat and b by simp
  show ?thesis unfolding paired_after_nth surrogates_paired_def i by simp
qed

lemma is_well_formed_Nil: "is_well_formed [] = Some True"
  by (simp add: is_well_formed.simps wtf8_next_def)

lemma is_well_formed_paired:
  "list_all (\<lambda>cp. cp \<le> MAX_CODE_POINT) cps \<Longrightarrow>
     is_well_formed (concat (map utf8_bytes cps)) = Some (paired_after False cps)"
proof (induction cps rule: length_induct)
  case (1 cps)
  show ?case
  proof (cases cps)
    case Nil
    then show ?thesis by (simp add: is_well_formed_Nil)
  next
    case (Cons c cs)
    then have c: "wtf8_next (utf8_bytes c @ concat (map utf8_bytes cs)) =
        Some (Some (c, concat (map utf8_bytes cs)))" and cs: "list_all (\<lambda>cp. cp \<le> MAX_CODE_POINT) cs"
      using 1 by (simp_all add: wtf8_next_utf8)
    show ?thesis
    proof (cases "is_high_surrogate_code_point c")
      case False
      have "is_well_formed (concat (map utf8_bytes cs)) = Some (paired_after False cs)"
        using 1 Cons cs by simp
      then show ?thesis
        using False c Cons by (simp add: is_well_formed.simps [of "utf8_bytes c @ _"] surrogate_kinds(1))
    next
      case high: True
      show ?thesis
      proof (cases cs)
        case Nil
        then show ?thesis
          using high c Cons surrogate_kinds(2) [OF high]
          by (simp add: is_well_formed.simps [of "utf8_bytes c"] surrogate_kinds(1) wtf8_next_def)
      next
        case (Cons d ds)
        have "is_well_formed (concat (map utf8_bytes ds)) = Some (paired_after False ds)"
          using 1 \<open>cps = c # cs\<close> Cons cs by simp
        moreover have "wtf8_next (concat (map utf8_bytes cs)) = Some (Some (d, concat (map utf8_bytes ds)))"
          using Cons cs by (simp add: wtf8_next_utf8)
        moreover have "is_low_surrogate_code_point d \<Longrightarrow> is_high_surrogate_code_point d = False"
          using surrogate_kinds(2) by blast
        ultimately show ?thesis
          using high c Cons \<open>cps = c # cs\<close> surrogate_kinds(2) [OF high]
          by (subst is_well_formed.simps) (auto simp: surrogate_kinds(1))
      qed
    qed
  qed
qed

text \<open>
  On the bytes of any sequence of code points in the unicode range, \<open>is_well_formed\<close>
  returns, without a panic, whether every surrogate of the sequence belongs to a pair of a high
  surrogate followed by a low one.
\<close>

theorem is_well_formed_correct:
  assumes "list_all (\<lambda>cp. cp \<le> MAX_CODE_POINT) cps"
  shows "is_well_formed (concat (map utf8_bytes cps)) = Some (surrogates_paired cps)"
  using is_well_formed_paired [OF assms] by (simp add: paired_after_iff)

theorem is_well_formed_correct_witness:
  "is_well_formed (concat (map utf8_bytes [0xD83D, 0xDE00, 0x61])) = Some True \<and>
   is_well_formed (concat (map utf8_bytes [0x61, 0xDE00, 0xD83D])) = Some False"
proof -
  have "paired_after False [0xD83D, 0xDE00, 0x61]" "\<not> paired_after False [0x61, 0xDE00, 0xD83D]"
    by (simp_all add: is_high_surrogate_code_point_def is_low_surrogate_code_point_def
        HIGH_SURROGATE_START_def HIGH_SURROGATE_END_def LOW_SURROGATE_START_def LOW_SURROGATE_END_def)
  then show ?thesis
    using is_well_formed_correct [of "[0xD83D, 0xDE00, 0x61]"]
      is_well_formed_correct [of "[0x61, 0xDE00, 0xD83D]"]
    by (simp add: MAX_CODE_POINT_def flip: paired_after_iff)
qed

end
