(* ===== verification/Bytecode_Operand.thy ===== *)
theory Bytecode_Operand
  imports Prelude
begin

unbundle bit_operations_syntax

section \<open>Operand widths, registers and the temporary register allocator\<close>

text \<open>
  \<open>runtime/bytecode/width.rs\<close>, \<open>operand.rs\<close> and \<open>register_allocator.rs\<close>.
  An operand of the width \<open>W\<close> is an unsigned integer of that width, so it is a word whose
  length is the number of bits of \<open>W\<close> (8, 16 or 32); \<open>sint\<close> is the signed reading.
  \<open>isize\<close> values are 64-bit words read by \<open>sint\<close>.
\<close>

subsection \<open>Widths\<close>

datatype width_enum = Narrow | Wide | ExtraWide

primrec num_bytes :: "width_enum \<Rightarrow> nat" where
  "num_bytes Narrow = 1"
| "num_bytes Wide = 2"
| "num_bytes ExtraWide = 4"

text \<open>The derived order of the enum.\<close>

instantiation width_enum :: linorder
begin

definition less_eq_width_enum :: "width_enum \<Rightarrow> width_enum \<Rightarrow> bool" where
  "less_eq_width_enum a b \<longleftrightarrow> num_bytes a \<le> num_bytes b"

definition less_width_enum :: "width_enum \<Rightarrow> width_enum \<Rightarrow> bool" where
  "less_width_enum a b \<longleftrightarrow> num_bytes a < num_bytes b"

instance
proof
  fix a b c :: width_enum
  show "a < b \<longleftrightarrow> a \<le> b \<and> \<not> b \<le> a" "a \<le> a" "a \<le> b \<Longrightarrow> b \<le> c \<Longrightarrow> a \<le> c" "a \<le> b \<or> b \<le> a"
    by (auto simp: less_eq_width_enum_def less_width_enum_def)
  show "a \<le> b \<Longrightarrow> b \<le> a \<Longrightarrow> a = b"
    by (cases a; cases b) (simp_all add: less_eq_width_enum_def)
qed

end

definition UNSIGNED_MAX :: "width_enum \<Rightarrow> nat" where
  "UNSIGNED_MAX w = 2 ^ (8 * num_bytes w) - 1"

definition SIGNED_MAX :: "width_enum \<Rightarrow> int" where
  "SIGNED_MAX w = 2 ^ (8 * num_bytes w - 1) - 1"

definition SIGNED_MIN :: "width_enum \<Rightarrow> int" where
  "SIGNED_MIN w = - (2 ^ (8 * num_bytes w - 1))"

definition min_width_for_signed :: "int \<Rightarrow> width_enum" where
  "min_width_for_signed v =
     (if SIGNED_MIN Narrow \<le> v \<and> v \<le> SIGNED_MAX Narrow then Narrow
      else if SIGNED_MIN Wide \<le> v \<and> v \<le> SIGNED_MAX Wide then Wide
      else ExtraWide)"

definition min_width_for_unsigned :: "nat \<Rightarrow> width_enum" where
  "min_width_for_unsigned v =
     (if v \<le> UNSIGNED_MAX Narrow then Narrow else if v \<le> UNSIGNED_MAX Wide then Wide else ExtraWide)"

lemma width_values [width_simps]:
  "UNSIGNED_MAX Narrow = 255" "UNSIGNED_MAX Wide = 65535" "UNSIGNED_MAX ExtraWide = 4294967295"
  "SIGNED_MAX Narrow = 127" "SIGNED_MAX Wide = 32767" "SIGNED_MAX ExtraWide = 2147483647"
  "SIGNED_MIN Narrow = -128" "SIGNED_MIN Wide = -32768" "SIGNED_MIN ExtraWide = -2147483648"
  by (simp_all add: UNSIGNED_MAX_def SIGNED_MAX_def SIGNED_MIN_def)

lemma min_width_for_signed_le:
  assumes "SIGNED_MIN ExtraWide \<le> v" "v \<le> SIGNED_MAX ExtraWide"
  shows "min_width_for_signed v \<le> w \<longleftrightarrow> SIGNED_MIN w \<le> v \<and> v \<le> SIGNED_MAX w"
  using assms
  by (cases w) (auto simp: min_width_for_signed_def width_simps less_eq_width_enum_def)

lemma min_width_for_unsigned_le:
  assumes "u \<le> UNSIGNED_MAX ExtraWide"
  shows "min_width_for_unsigned u \<le> w \<longleftrightarrow> u \<le> UNSIGNED_MAX w"
  using assms
  by (cases w) (auto simp: min_width_for_unsigned_def width_simps less_eq_width_enum_def)

text \<open>
  The minimum width is sound and minimal: a value of the 32-bit range fits a width, signed or
  unsigned, exactly when that width is at least the computed one.
\<close>

theorem min_width_iff:
  assumes "SIGNED_MIN ExtraWide \<le> v" "v \<le> SIGNED_MAX ExtraWide" "u \<le> UNSIGNED_MAX ExtraWide"
  shows "(min_width_for_signed v \<le> w \<longleftrightarrow> SIGNED_MIN w \<le> v \<and> v \<le> SIGNED_MAX w) \<and>
         (min_width_for_unsigned u \<le> w \<longleftrightarrow> u \<le> UNSIGNED_MAX w)"
  using min_width_for_signed_le [OF assms(1,2)] min_width_for_unsigned_le [OF assms(3)] by simp

theorem min_width_iff_witness:
  "min_width_for_signed (-129) \<le> Wide \<and> \<not> min_width_for_signed (-129) \<le> Narrow \<and>
   min_width_for_unsigned 255 \<le> Narrow"
  using min_width_iff [of "-129" 255 Wide] min_width_iff [of "-129" 255 Narrow] by (simp add: width_simps)

subsection \<open>Operands\<close>

datatype operand_type = Register_t | UInt_t | SInt_t | ConstantIndex_t

primrec is_signed_type :: "operand_type \<Rightarrow> bool" where
  "is_signed_type Register_t = True"
| "is_signed_type UInt_t = False"
| "is_signed_type SInt_t = True"
| "is_signed_type ConstantIndex_t = False"

definition try_from_unsigned :: "usize \<Rightarrow> 'w::len word option" where
  "try_from_unsigned v = (if unat v \<le> 2 ^ LENGTH('w) - 1 then Some (ucast v) else None)"

definition try_from_signed :: "u64 \<Rightarrow> 'w::len word option" where
  "try_from_signed v =
     (if - (2 ^ (LENGTH('w) - 1)) \<le> sint v \<and> sint v \<le> 2 ^ (LENGTH('w) - 1) - 1
      then Some (scast v) else None)"

definition operand_min_width :: "operand_type \<Rightarrow> 'w::len word \<Rightarrow> width_enum" where
  "operand_min_width t v =
     (if is_signed_type t then min_width_for_signed (sint v) else min_width_for_unsigned (unat v))"

text \<open>
  An operand made from an isize or usize value reads back as that value, and construction is
  refused exactly for the values outside the operand's range.
\<close>

theorem try_from_roundtrip:
  "(case try_from_signed v :: 'w::len word option of
      Some x \<Rightarrow> sint x = sint v
    | None \<Rightarrow> sint v < - (2 ^ (LENGTH('w) - 1)) \<or> 2 ^ (LENGTH('w) - 1) \<le> sint v) \<and>
   (case try_from_unsigned u :: 'w::len word option of
      Some y \<Rightarrow> unat y = unat u
    | None \<Rightarrow> 2 ^ LENGTH('w) \<le> unat u)"
proof -
  have "sint (scast v :: 'w word) = sint v"
    if "- (2 ^ (LENGTH('w) - 1)) \<le> sint v" "sint v < 2 ^ (LENGTH('w) - 1)"
    using that by (simp add: signed_scast_eq signed_take_bit_int_eq_self)
  moreover have "unat (ucast u :: 'w word) = unat u" if "unat u < 2 ^ LENGTH('w)"
    using that by (simp add: unsigned_ucast_eq take_bit_nat_eq_self)
  moreover have "unat u \<le> 2 ^ LENGTH('w) - 1 \<longleftrightarrow> unat u < 2 ^ LENGTH('w)"
    by (metis Suc_le_eq Suc_pred' less_Suc_eq_le zero_less_numeral zero_less_power One_nat_def)
  ultimately show ?thesis
    by (auto simp: try_from_signed_def try_from_unsigned_def)
qed

subsection \<open>Registers\<close>

definition SCOPE_SLOT_INDEX :: nat where "SCOPE_SLOT_INDEX = 3"
definition CLOSURE_SLOT_INDEX :: nat where "CLOSURE_SLOT_INDEX = 5"
definition RECEIVER_SLOT_INDEX :: nat where "RECEIVER_SLOT_INDEX = 7"
definition FIRST_ARGUMENT_SLOT_INDEX :: nat where "FIRST_ARGUMENT_SLOT_INDEX = 8"

definition encode_argument_register :: "nat \<Rightarrow> int" where
  "encode_argument_register i = int (i + FIRST_ARGUMENT_SLOT_INDEX)"

definition decode_argument_register :: "int \<Rightarrow> nat" where
  "decode_argument_register v = nat v - FIRST_ARGUMENT_SLOT_INDEX"

definition encode_local_register :: "nat \<Rightarrow> int" where
  "encode_local_register i = -1 - int i"

definition decode_local_register :: "int \<Rightarrow> nat" where
  "decode_local_register v = nat (-1 - v)"

text \<open>The limits of a width, given by its number of bits.\<close>

definition MAX_ARGUMENT_INDEX :: "nat \<Rightarrow> nat" where
  "MAX_ARGUMENT_INDEX bits = decode_argument_register (2 ^ (bits - 1) - 1)"

definition MAX_LOCAL_INDEX :: "nat \<Rightarrow> nat" where
  "MAX_LOCAL_INDEX bits = decode_local_register (- (2 ^ (bits - 1)))"

definition reg_argument :: "nat \<Rightarrow> 'w::len word" where
  "reg_argument i = of_int (encode_argument_register i)"

definition reg_local :: "nat \<Rightarrow> 'w::len word" where
  "reg_local i = of_int (encode_local_register i)"

definition reg_this :: "'w::len word" where "reg_this = of_nat RECEIVER_SLOT_INDEX"
definition reg_scope :: "'w::len word" where "reg_scope = of_nat SCOPE_SLOT_INDEX"
definition reg_closure :: "'w::len word" where "reg_closure = of_nat CLOSURE_SLOT_INDEX"

definition is_argument :: "'w::len word \<Rightarrow> bool" where
  "is_argument r \<longleftrightarrow> sint r \<ge> int FIRST_ARGUMENT_SLOT_INDEX"

definition is_local :: "'w::len word \<Rightarrow> bool" where
  "is_local r \<longleftrightarrow> sint r < 0"

definition is_this :: "'w::len word \<Rightarrow> bool" where "is_this r \<longleftrightarrow> unat r = RECEIVER_SLOT_INDEX"
definition is_scope :: "'w::len word \<Rightarrow> bool" where "is_scope r \<longleftrightarrow> unat r = SCOPE_SLOT_INDEX"
definition is_closure :: "'w::len word \<Rightarrow> bool" where "is_closure r \<longleftrightarrow> unat r = CLOSURE_SLOT_INDEX"

definition argument_index :: "'w::len word \<Rightarrow> nat" where
  "argument_index r = decode_argument_register (sint r)"

definition local_index :: "'w::len word \<Rightarrow> nat" where
  "local_index r = decode_local_register (sint r)"

lemmas slot_indices = SCOPE_SLOT_INDEX_def CLOSURE_SLOT_INDEX_def RECEIVER_SLOT_INDEX_def
  FIRST_ARGUMENT_SLOT_INDEX_def

lemma max_indices:
  "MAX_LOCAL_INDEX bits = 2 ^ (bits - 1) - 1" "MAX_ARGUMENT_INDEX bits = 2 ^ (bits - 1) - 1 - 8"
proof -
  have "nat ((2::int) ^ (bits - 1) - 1) = 2 ^ (bits - 1) - 1" by (simp add: nat_diff_distrib nat_power_eq)
  then show "MAX_LOCAL_INDEX bits = 2 ^ (bits - 1) - 1"
    "MAX_ARGUMENT_INDEX bits = 2 ^ (bits - 1) - 1 - 8"
    by (simp_all add: MAX_LOCAL_INDEX_def MAX_ARGUMENT_INDEX_def decode_local_register_def
        decode_argument_register_def slot_indices)
qed

lemma sint_of_int_eq:
  "- (2 ^ (LENGTH('w) - 1)) \<le> i \<Longrightarrow> i < 2 ^ (LENGTH('w) - 1) \<Longrightarrow> sint (of_int i :: 'w::len word) = i"
  by (simp add: signed_of_int signed_take_bit_int_eq_self)

lemma sint_of_unat:
  assumes "int (unat (r :: 'w::len word)) < 2 ^ (LENGTH('w) - 1)"
  shows "sint r = int (unat r)"
proof -
  have "r = of_int (int (unat r))" by simp
  moreover have "- (2 ^ (LENGTH('w) - 1)) \<le> int (unat r)"
    by (rule order_trans [of _ 0]) simp_all
  ultimately show ?thesis using sint_of_int_eq [of "int (unat r)", where 'w = 'w] assms by metis
qed

lemma special_registers_sint:
  assumes "5 \<le> LENGTH('w::len)"
  shows "is_this r \<Longrightarrow> sint (r :: 'w word) = 7" "is_scope r \<Longrightarrow> sint r = 3" "is_closure r \<Longrightarrow> sint r = 5"
proof -
  have "(2::int) ^ 4 \<le> 2 ^ (LENGTH('w) - 1)" using assms by (intro power_increasing) simp_all
  then show "is_this r \<Longrightarrow> sint r = 7" "is_scope r \<Longrightarrow> sint r = 3" "is_closure r \<Longrightarrow> sint r = 5"
    using sint_of_unat [of r] by (simp_all add: is_this_def is_scope_def is_closure_def slot_indices)
qed

lemma below_power_int:
  assumes "i + m \<le> 2 ^ k - 1"
  shows "int i + int m < 2 ^ k"
proof -
  have "i + m < 2 ^ k" using assms by (rule le_less_trans) simp
  then have "int (i + m) < int (2 ^ k)" by (simp only: of_nat_less_iff)
  then show ?thesis by simp
qed

lemma reg_local_sint:
  assumes "i \<le> MAX_LOCAL_INDEX LENGTH('w::len)"
  shows "sint (reg_local i :: 'w word) = -1 - int i"
proof -
  have "int i < 2 ^ (LENGTH('w) - 1)"
    using below_power_int [of i 0 "LENGTH('w) - 1"] assms by (simp add: max_indices)
  moreover have "(0::int) < 2 ^ (LENGTH('w) - 1)" by simp
  ultimately show ?thesis
    unfolding reg_local_def encode_local_register_def by (intro sint_of_int_eq) linarith+
qed

lemma reg_argument_sint:
  assumes "i \<le> MAX_ARGUMENT_INDEX LENGTH('w::len)" "5 \<le> LENGTH('w)"
  shows "sint (reg_argument i :: 'w word) = int i + 8"
proof -
  have "(2::int) ^ 4 \<le> 2 ^ (LENGTH('w) - 1)" using assms(2) by (intro power_increasing) simp_all
  moreover have "(2::nat) ^ 4 \<le> 2 ^ (LENGTH('w) - 1)" using assms(2) by (intro power_increasing) simp_all
  then have "int i + int 8 < 2 ^ (LENGTH('w) - 1)"
    using assms(1) by (intro below_power_int) (simp add: max_indices)
  ultimately show ?thesis
    unfolding reg_argument_def encode_argument_register_def slot_indices
    by (subst sint_of_int_eq) simp_all
qed

text \<open>
  For the three widths, registers are told apart and decoded correctly: a local register made for
  an index up to the width's limit is local only and has that index, an argument register is an
  argument only and has its index, and neither is mistaken for the receiver, scope or closure slot.
\<close>

theorem register_roundtrip:
  assumes "LENGTH('w::len) \<in> {8, 16, 32}"
    and "i \<le> MAX_LOCAL_INDEX LENGTH('w)" "j \<le> MAX_ARGUMENT_INDEX LENGTH('w)"
  shows "is_local (reg_local i :: 'w word) \<and> local_index (reg_local i :: 'w word) = i \<and>
         is_argument (reg_argument j :: 'w word) \<and> argument_index (reg_argument j :: 'w word) = j \<and>
         (\<forall>r \<in> {reg_local i, reg_argument j :: 'w word}. \<not> is_this r \<and> \<not> is_scope r \<and> \<not> is_closure r) \<and>
         \<not> is_argument (reg_local i :: 'w word) \<and> \<not> is_local (reg_argument j :: 'w word)"
proof -
  have l: "5 \<le> LENGTH('w)" using assms(1) by auto
  note s = reg_local_sint [OF assms(2)] reg_argument_sint [OF assms(3) l]
  have "\<not> is_this r \<and> \<not> is_scope r \<and> \<not> is_closure r" if "r \<in> {reg_local i, reg_argument j :: 'w word}" for r
    using that s special_registers_sint [OF l, of r] by auto
  then show ?thesis
    using s by (simp add: is_local_def is_argument_def local_index_def argument_index_def
        decode_local_register_def decode_argument_register_def slot_indices)
qed

theorem register_roundtrip_witness:
  "is_local (reg_local 127 :: 8 word) \<and> local_index (reg_local 127 :: 8 word) = 127 \<and>
   argument_index (reg_argument 119 :: 8 word) = 119"
  using register_roundtrip [of 127 119, where 'w = 8] by (simp add: max_indices)

subsection \<open>Temporary registers\<close>

datatype emit_error = ConstantTableTooLarge | TooManyFunctionParameters | TooManyCallArguments
  | TooManyRegisters | TooManyScopes | IndexTooLarge | IntegerTooLarge | EmitAlloc

type_synonym gen_register = "32 word"

record register_allocator =
  num_local_registers :: u32
  num_allocated :: u32
  max_allocated :: u32

definition allocator_new :: "u32 \<Rightarrow> register_allocator" where
  "allocator_new n = \<lparr>num_local_registers = n, num_allocated = n, max_allocated = n\<rparr>"

definition allocate :: "register_allocator \<Rightarrow> register_allocator \<times> (emit_error + gen_register)" where
  "allocate ra =
     (let register_index = num_allocated ra in
        if register_index \<ge> of_nat (MAX_LOCAL_INDEX 32) then (ra, Inl TooManyRegisters)
        else (ra\<lparr>num_allocated := num_allocated ra + 1,
                 max_allocated := max (max_allocated ra) (num_allocated ra + 1)\<rparr>,
              Inr (reg_local (unat register_index))))"

definition is_temporary_register :: "register_allocator \<Rightarrow> gen_register \<Rightarrow> bool" where
  "is_temporary_register ra r \<longleftrightarrow>
     is_local r \<and> of_nat (local_index r) \<ge> num_local_registers ra"

definition release :: "register_allocator \<Rightarrow> gen_register \<Rightarrow> register_allocator" where
  "release ra r =
     (if \<not> is_temporary_register ra r then ra else ra\<lparr>num_allocated := num_allocated ra - 1\<rparr>)"

definition allocator_is_empty :: "register_allocator \<Rightarrow> bool" where
  "allocator_is_empty ra \<longleftrightarrow> num_allocated ra = num_local_registers ra"

text \<open>
  How the generator uses the allocator: it allocates temporaries, and releases either the one it
  allocated last or a register that is not a temporary. The second component lists the live
  temporaries, newest first.
\<close>

inductive allocator_step ::
  "register_allocator \<times> gen_register list \<Rightarrow> register_allocator \<times> gen_register list \<Rightarrow> bool" where
  alloc: "allocate ra = (ra', Inr r) \<Longrightarrow> allocator_step (ra, live) (ra', r # live)"
| full: "allocate ra = (ra', Inl e) \<Longrightarrow> allocator_step (ra, live) (ra', live)"
| release_top: "allocator_step (ra, r # live) (release ra r, live)"
| release_other: "\<not> is_temporary_register ra r \<Longrightarrow> allocator_step (ra, live) (release ra r, live)"

inductive_cases allocator_stepE: "allocator_step (ra, live) s"

definition allocator_inv :: "u32 \<Rightarrow> register_allocator \<times> gen_register list \<Rightarrow> bool" where
  "allocator_inv n s = (case s of (ra, live) \<Rightarrow>
     num_local_registers ra = n \<and>
     unat (num_allocated ra) = unat n + length live \<and>
     num_allocated ra \<le> max_allocated ra \<and>
     unat (max_allocated ra) \<le> max (unat n) (MAX_LOCAL_INDEX 32) \<and>
     live = map (\<lambda>k. reg_local (unat n + k)) (rev [0..<length live]))"

lemma local_index_u32: "i \<le> MAX_LOCAL_INDEX 32 \<Longrightarrow> local_index (reg_local i :: 32 word) = i"
  using reg_local_sint [of i, where 'w = 32] by (simp add: local_index_def decode_local_register_def)

lemma is_local_u32: "i \<le> MAX_LOCAL_INDEX 32 \<Longrightarrow> is_local (reg_local i :: 32 word)"
  using reg_local_sint [of i, where 'w = 32] by (simp add: is_local_def)

lemma max_local_32: "MAX_LOCAL_INDEX 32 = 2147483647"
  by (simp add: max_indices)

lemma unat_Suc_u32: "unat (x :: u32) < 2147483647 \<Longrightarrow> unat (x + 1) = unat x + 1"
  by (simp add: unat_word_ariths)

lemma temporary_in_range:
  assumes "unat n \<le> i" "i \<le> MAX_LOCAL_INDEX 32" "num_local_registers ra = n"
  shows "is_temporary_register ra (reg_local i)"
  using assms local_index_u32 [OF assms(2)] is_local_u32 [OF assms(2)]
  by (simp add: is_temporary_register_def word_le_nat_alt unat_of_nat max_local_32)

lemma allocator_inv_step:
  assumes "allocator_inv n s" "allocator_step s s'"
  shows "allocator_inv n s'"
proof -
  obtain ra live where s: "s = (ra, live)" by (cases s)
  have inv: "num_local_registers ra = n" "unat (num_allocated ra) = unat n + length live"
      "num_allocated ra \<le> max_allocated ra" "unat (max_allocated ra) \<le> max (unat n) (MAX_LOCAL_INDEX 32)"
      "live = map (\<lambda>k. reg_local (unat n + k)) (rev [0..<length live])"
    using assms(1) by (simp_all add: allocator_inv_def s)
  from assms(2) [unfolded s] show ?thesis
  proof (rule allocator_stepE)
    fix ra' r assume s': "s' = (ra', r # live)" and a: "allocate ra = (ra', Inr r)"
    then have lt: "unat (num_allocated ra) < 2147483647"
      and r: "ra' = ra\<lparr>num_allocated := num_allocated ra + 1,
          max_allocated := max (max_allocated ra) (num_allocated ra + 1)\<rparr>"
        "r = reg_local (unat (num_allocated ra))"
      by (auto simp: allocate_def Let_def max_local_32 word_le_nat_alt split: if_splits)
    have "unat (max (max_allocated ra) (num_allocated ra + 1)) \<le> max (unat n) (MAX_LOCAL_INDEX 32)"
      using inv(4) lt by (auto simp: max_def max_local_32 unat_Suc_u32 split: if_splits)
    moreover have "r # live = map (\<lambda>k. reg_local (unat n + k)) (rev [0..<length (r # live)])"
      using inv(2,5) r(2) by simp
    ultimately show ?thesis
      using inv lt by (simp add: allocator_inv_def s' r(1) unat_Suc_u32)
  next
    fix ra' e assume "s' = (ra', live)" "allocate ra = (ra', Inl e)"
    then have "s' = (ra, live)" by (auto simp: allocate_def Let_def split: if_splits)
    then show ?thesis using assms(1) s by simp
  next
    fix r live' assume l: "live = r # live'" and s': "s' = (release ra r, live')"
    have n: "unat n + length live' < unat (max_allocated ra)"
      using inv(2,3) l by (simp add: word_le_nat_alt)
    then have m: "unat (max_allocated ra) \<le> MAX_LOCAL_INDEX 32" using inv(4) by auto
    have "r = reg_local (unat n + length live')" "live' = map (\<lambda>k. reg_local (unat n + k)) (rev [0..<length live'])"
      using inv(5) l by simp_all
    moreover have "is_temporary_register ra r"
      unfolding calculation(1) using n m inv(1) by (intro temporary_in_range) simp_all
    moreover have "unat (num_allocated ra - 1) = unat n + length live'"
      using inv(2) l by (simp add: unat_sub word_le_nat_alt)
    ultimately show ?thesis
      using inv n by (simp add: allocator_inv_def s' release_def word_le_nat_alt)
  next
    fix r assume "s' = (release ra r, live)" "\<not> is_temporary_register ra r"
    then show ?thesis using assms(1) s by (simp add: release_def)
  qed
qed

text \<open>
  Under the generator's stack discipline the live temporaries are pairwise different local
  registers that start right after the function's own locals, the count of allocated registers is
  exact, and every live register's index is below \<open>max_allocated\<close>, the number of slots that
  the function's frame reserves.
\<close>

theorem temporaries_disjoint:
  assumes "unat n \<le> MAX_LOCAL_INDEX 32" and "allocator_step\<^sup>*\<^sup>* (allocator_new n, []) (ra, live)"
  shows "distinct live \<and> unat (num_allocated ra) = unat n + length live \<and>
         (\<forall>r \<in> set live. is_temporary_register ra r \<and> unat n \<le> local_index r \<and>
            local_index r < unat (max_allocated ra))"
proof -
  have "allocator_inv n (ra, live)"
    using assms(2)
  proof (induction rule: rtranclp_induct2)
    case refl
    then show ?case by (simp add: allocator_inv_def allocator_new_def)
  next
    case (step ra live ra' live')
    show ?case by (rule allocator_inv_step [OF step.IH step.hyps(2)])
  qed
  then have inv: "num_local_registers ra = n" "unat (num_allocated ra) = unat n + length live"
      "unat (num_allocated ra) \<le> unat (max_allocated ra)" "unat (max_allocated ra) \<le> MAX_LOCAL_INDEX 32"
      "live = map (\<lambda>k. reg_local (unat n + k)) (rev [0..<length live])"
    using assms(1) by (simp_all add: allocator_inv_def word_le_nat_alt max_def)
  have b: "unat n + k \<le> MAX_LOCAL_INDEX 32" if "k < length live" for k
    using that inv(2-4) by simp
  have li: "local_index (reg_local (unat n + k) :: 32 word) = unat n + k" if "k < length live" for k
    by (rule local_index_u32 [OF b [OF that]])
  then have "inj_on (\<lambda>k. reg_local (unat n + k) :: 32 word) {0..<length live}"
    by (intro inj_onI) (metis add_left_cancel atLeastLessThan_iff)
  then have "distinct (map (\<lambda>k. reg_local (unat n + k) :: 32 word) (rev [0..<length live]))"
    by (simp add: distinct_map)
  moreover have "is_temporary_register ra r \<and> unat n \<le> local_index r \<and> local_index r < unat (max_allocated ra)"
    if "r \<in> set live" for r
  proof -
    have "r \<in> (\<lambda>k. reg_local (unat n + k)) ` {0..<length live}"
      using that inv(5) by (metis list.set_map set_rev set_upt)
    then obtain k where k: "k < length live" "r = reg_local (unat n + k)" by auto
    show ?thesis
      using li [OF k(1)] k inv temporary_in_range [OF _ b [OF k(1)] inv(1)] by simp
  qed
  ultimately show ?thesis using inv(2,5) by metis
qed

theorem temporaries_disjoint_witness:
  "\<exists>ra live. allocator_step\<^sup>*\<^sup>* (allocator_new 2, []) (ra, live) \<and> length live = 2 \<and> distinct live \<and>
     unat (num_allocated ra) = 4"
proof -
  let ?a1 = "\<lparr>num_local_registers = 2, num_allocated = 3, max_allocated = 3\<rparr>"
  let ?a2 = "\<lparr>num_local_registers = 2, num_allocated = 4, max_allocated = 4\<rparr>"
  have "allocator_step (allocator_new 2, []) (?a1, [reg_local 2])"
    by (rule allocator_step.alloc) (simp add: allocate_def allocator_new_def max_local_32)
  moreover have "allocator_step (?a1, [reg_local 2]) (?a2, [reg_local 3, reg_local 2])"
    by (rule allocator_step.alloc) (simp add: allocate_def max_local_32)
  ultimately have r: "allocator_step\<^sup>*\<^sup>* (allocator_new 2, []) (?a2, [reg_local 3, reg_local 2])"
    by (meson converse_rtranclp_into_rtranclp r_into_rtranclp)
  from temporaries_disjoint [OF _ r] have "distinct [reg_local 3, reg_local 2 :: 32 word]"
    by (simp add: max_local_32)
  with r show ?thesis
    by (intro exI [of _ ?a2] exI [of _ "[reg_local 3, reg_local 2]"]) simp
qed

end
