(* ===== verification/Instruction_Table.thy ===== *)
theory Instruction_Table
  imports Bytecode_Operand
begin

section \<open>The instruction set\<close>

text \<open>
  The instructions that \<open>define_instructions!\<close> of \<open>runtime/bytecode/instruction.rs\<close>
  declares, in the order of the source, so that the position in the list is the opcode: the name,
  whether the instruction can throw (and so records a source position), and the types of its
  operands. The pairs of immediate and constant jumps that jump patching relies on are checked on
  the table.
\<close>

type_synonym instruction_def = "string \<times> bool \<times> operand_type list"

definition INSTRUCTIONS_1 :: "instruction_def list" where
  "INSTRUCTIONS_1 = [
     (''WidePrefix'', False, []),
     (''ExtraWidePrefix'', False, []),
     (''Mov'', False, [Register_t, Register_t]),
     (''LoadImmediate'', False, [Register_t, SInt_t]),
     (''LoadConstant'', False, [Register_t, ConstantIndex_t]),
     (''LoadUndefined'', False, [Register_t]),
     (''LoadNull'', False, [Register_t]),
     (''LoadEmpty'', False, [Register_t]),
     (''LoadTrue'', False, [Register_t]),
     (''LoadFalse'', False, [Register_t]),
     (''LoadGlobal'', True, [Register_t, ConstantIndex_t]),
     (''LoadGlobalOrUnresolved'', True, [Register_t, ConstantIndex_t]),
     (''StoreGlobal'', True, [Register_t, ConstantIndex_t]),
     (''LoadDynamic'', True, [Register_t, ConstantIndex_t]),
     (''LoadDynamicOrUnresolved'', True, [Register_t, ConstantIndex_t])]"

definition INSTRUCTIONS_2 :: "instruction_def list" where
  "INSTRUCTIONS_2 = [
     (''StoreDynamic'', True, [Register_t, ConstantIndex_t]),
     (''Call'', True, [Register_t, Register_t, Register_t, UInt_t]),
     (''CallWithReceiver'', True, [Register_t, Register_t, Register_t, Register_t, UInt_t]),
     (''CallVarargs'', True, [Register_t, Register_t, Register_t, Register_t]),
     (''CallMaybeEval'', True, [Register_t, Register_t, Register_t, UInt_t, UInt_t]),
     (''CallMaybeEvalVarargs'', True, [Register_t, Register_t, Register_t, UInt_t]),
     (''Construct'', True, [Register_t, Register_t, Register_t, Register_t, UInt_t]),
     (''ConstructVarargs'', True, [Register_t, Register_t, Register_t, Register_t]),
     (''DefaultSuperCall'', True, []),
     (''Ret'', False, [Register_t]),
     (''Add'', True, [Register_t, Register_t, Register_t])]"

definition INSTRUCTIONS_3 :: "instruction_def list" where
  "INSTRUCTIONS_3 = [
     (''Sub'', True, [Register_t, Register_t, Register_t]),
     (''Mul'', True, [Register_t, Register_t, Register_t]),
     (''Div'', True, [Register_t, Register_t, Register_t]),
     (''Rem'', True, [Register_t, Register_t, Register_t]),
     (''Exp'', True, [Register_t, Register_t, Register_t]),
     (''BitAnd'', True, [Register_t, Register_t, Register_t]),
     (''BitOr'', True, [Register_t, Register_t, Register_t]),
     (''BitXor'', True, [Register_t, Register_t, Register_t]),
     (''ShiftLeft'', True, [Register_t, Register_t, Register_t]),
     (''ShiftRightArithmetic'', True, [Register_t, Register_t, Register_t]),
     (''ShiftRightLogical'', True, [Register_t, Register_t, Register_t]),
     (''LooseEqual'', True, [Register_t, Register_t, Register_t])]"

definition INSTRUCTIONS_4 :: "instruction_def list" where
  "INSTRUCTIONS_4 = [
     (''LooseNotEqual'', True, [Register_t, Register_t, Register_t]),
     (''StrictEqual'', False, [Register_t, Register_t, Register_t]),
     (''StrictNotEqual'', False, [Register_t, Register_t, Register_t]),
     (''LessThan'', True, [Register_t, Register_t, Register_t]),
     (''LessThanOrEqual'', True, [Register_t, Register_t, Register_t]),
     (''GreaterThan'', True, [Register_t, Register_t, Register_t]),
     (''GreaterThanOrEqual'', True, [Register_t, Register_t, Register_t]),
     (''Neg'', True, [Register_t, Register_t]),
     (''Inc'', False, [Register_t]),
     (''Dec'', False, [Register_t]),
     (''LogNot'', False, [Register_t, Register_t]),
     (''BitNot'', True, [Register_t, Register_t]),
     (''TypeOf'', False, [Register_t, Register_t])]"

definition INSTRUCTIONS_5 :: "instruction_def list" where
  "INSTRUCTIONS_5 = [
     (''In'', True, [Register_t, Register_t, Register_t]),
     (''InstanceOf'', True, [Register_t, Register_t, Register_t]),
     (''ToNumber'', True, [Register_t, Register_t]),
     (''ToNumeric'', True, [Register_t, Register_t]),
     (''ToString'', True, [Register_t, Register_t]),
     (''ToPropertyKey'', True, [Register_t, Register_t]),
     (''ToObject'', True, [Register_t, Register_t]),
     (''Jump'', False, [SInt_t]),
     (''JumpConstant'', False, [ConstantIndex_t]),
     (''JumpTrue'', False, [Register_t, SInt_t]),
     (''JumpTrueConstant'', False, [Register_t, ConstantIndex_t]),
     (''JumpToBooleanTrue'', False, [Register_t, SInt_t]),
     (''JumpToBooleanTrueConstant'', False, [Register_t, ConstantIndex_t])]"

definition INSTRUCTIONS_6 :: "instruction_def list" where
  "INSTRUCTIONS_6 = [
     (''JumpFalse'', False, [Register_t, SInt_t]),
     (''JumpFalseConstant'', False, [Register_t, ConstantIndex_t]),
     (''JumpToBooleanFalse'', False, [Register_t, SInt_t]),
     (''JumpToBooleanFalseConstant'', False, [Register_t, ConstantIndex_t]),
     (''JumpNotUndefined'', False, [Register_t, SInt_t]),
     (''JumpNotUndefinedConstant'', False, [Register_t, ConstantIndex_t]),
     (''JumpNullish'', False, [Register_t, SInt_t]),
     (''JumpNullishConstant'', False, [Register_t, ConstantIndex_t]),
     (''JumpNotNullish'', False, [Register_t, SInt_t]),
     (''JumpNotNullishConstant'', False, [Register_t, ConstantIndex_t]),
     (''NewClosure'', False, [Register_t, ConstantIndex_t]),
     (''NewAsyncClosure'', False, [Register_t, ConstantIndex_t]),
     (''NewGenerator'', False, [Register_t, ConstantIndex_t]),
     (''NewAsyncGenerator'', False, [Register_t, ConstantIndex_t])]"

definition INSTRUCTIONS_7 :: "instruction_def list" where
  "INSTRUCTIONS_7 = [
     (''NewObject'', False, [Register_t]),
     (''NewArray'', False, [Register_t]),
     (''NewRegExp'', False, [Register_t, ConstantIndex_t]),
     (''NewMappedArguments'', False, [Register_t]),
     (''NewUnmappedArguments'', False, [Register_t]),
     (''NewClass'', True, [Register_t, ConstantIndex_t, ConstantIndex_t, Register_t, Register_t]),
     (''NewAccessor'', False, [Register_t, Register_t, Register_t]),
     (''NewPrivateSymbol'', False, [Register_t, ConstantIndex_t]),
     (''GetProperty'', True, [Register_t, Register_t, Register_t]),
     (''SetProperty'', True, [Register_t, Register_t, Register_t]),
     (''DefineProperty'', True, [Register_t, Register_t, Register_t, UInt_t]),
     (''GetNamedProperty'', True, [Register_t, Register_t, ConstantIndex_t])]"

definition INSTRUCTIONS_8 :: "instruction_def list" where
  "INSTRUCTIONS_8 = [
     (''SetNamedProperty'', True, [Register_t, ConstantIndex_t, Register_t]),
     (''DefineNamedProperty'', True, [Register_t, ConstantIndex_t, Register_t]),
     (''GetSuperProperty'', True, [Register_t, Register_t, Register_t, Register_t]),
     (''GetNamedSuperProperty'', True, [Register_t, Register_t, Register_t, ConstantIndex_t]),
     (''SetSuperProperty'', True, [Register_t, Register_t, Register_t, Register_t]),
     (''DeleteProperty'', True, [Register_t, Register_t, Register_t]),
     (''DeleteBinding'', True, [Register_t, ConstantIndex_t]),
     (''GetPrivateProperty'', True, [Register_t, Register_t, Register_t]),
     (''SetPrivateProperty'', True, [Register_t, Register_t, Register_t]),
     (''DefinePrivateProperty'', True, [Register_t, Register_t, Register_t, UInt_t]),
     (''SetArrayProperty'', False, [Register_t, Register_t, Register_t])]"

definition INSTRUCTIONS_9 :: "instruction_def list" where
  "INSTRUCTIONS_9 = [
     (''SetPrototypeOf'', False, [Register_t, Register_t]),
     (''CopyDataProperties'', True, [Register_t, Register_t, Register_t, UInt_t]),
     (''GetMethod'', True, [Register_t, Register_t, ConstantIndex_t]),
     (''PushLexicalScope'', False, [ConstantIndex_t]),
     (''PushFunctionScope'', False, [ConstantIndex_t]),
     (''PushWithScope'', True, [Register_t, ConstantIndex_t]),
     (''PopScope'', False, []),
     (''DupScope'', False, []),
     (''LoadFromScope'', False, [Register_t, UInt_t, UInt_t]),
     (''StoreToScope'', False, [Register_t, UInt_t, UInt_t]),
     (''LoadFromModule'', True, [Register_t, UInt_t, UInt_t]),
     (''StoreToModule'', False, [Register_t, UInt_t, UInt_t])]"

definition INSTRUCTIONS_10 :: "instruction_def list" where
  "INSTRUCTIONS_10 = [
     (''Throw'', False, [Register_t]),
     (''RestParameter'', False, [Register_t]),
     (''GetSuperConstructor'', False, [Register_t, Register_t]),
     (''CheckTdz'', True, [Register_t, ConstantIndex_t]),
     (''CheckThisInitialized'', True, [Register_t]),
     (''CheckSuperAlreadyCalled'', True, [Register_t]),
     (''CheckIteratorResultObject'', True, [Register_t]),
     (''ErrorConst'', True, [ConstantIndex_t]),
     (''ErrorDeleteSuperProperty'', True, []),
     (''ErrorIteratorNoThrowMethod'', True, []),
     (''NewForInIterator'', True, [Register_t, Register_t]),
     (''ForInNext'', True, [Register_t, Register_t]),
     (''GetIterator'', True, [Register_t, Register_t, Register_t])]"

definition INSTRUCTIONS_11 :: "instruction_def list" where
  "INSTRUCTIONS_11 = [
     (''GetAsyncIterator'', True, [Register_t, Register_t, Register_t]),
     (''IteratorNext'', True, [Register_t, Register_t, Register_t, Register_t]),
     (''IteratorUnpackResult'', True, [Register_t, Register_t, Register_t]),
     (''IteratorClose'', True, [Register_t]),
     (''AsyncIteratorCloseStart'', True, [Register_t, Register_t, Register_t]),
     (''AsyncIteratorCloseFinish'', True, [Register_t]),
     (''GeneratorStart'', True, [Register_t]),
     (''Yield'', False, [Register_t, Register_t, Register_t, Register_t]),
     (''NewPromise'', False, [Register_t]),
     (''Await'', True, [Register_t, Register_t, Register_t, Register_t]),
     (''ResolvePromise'', False, [Register_t, Register_t])]"

definition INSTRUCTIONS_12 :: "instruction_def list" where
  "INSTRUCTIONS_12 = [
     (''RejectPromise'', False, [Register_t, Register_t]),
     (''ImportMeta'', False, [Register_t]),
     (''DynamicImport'', True, [Register_t, Register_t, Register_t])]"

definition INSTRUCTIONS :: "instruction_def list" where
  "INSTRUCTIONS = concat
     [INSTRUCTIONS_1, INSTRUCTIONS_2, INSTRUCTIONS_3, INSTRUCTIONS_4, INSTRUCTIONS_5, INSTRUCTIONS_6,
      INSTRUCTIONS_7, INSTRUCTIONS_8, INSTRUCTIONS_9, INSTRUCTIONS_10, INSTRUCTIONS_11, INSTRUCTIONS_12]"

lemmas instruction_defs = INSTRUCTIONS_def INSTRUCTIONS_1_def
  INSTRUCTIONS_2_def
  INSTRUCTIONS_3_def
  INSTRUCTIONS_4_def
  INSTRUCTIONS_5_def
  INSTRUCTIONS_6_def
  INSTRUCTIONS_7_def
  INSTRUCTIONS_8_def
  INSTRUCTIONS_9_def
  INSTRUCTIONS_10_def
  INSTRUCTIONS_11_def
  INSTRUCTIONS_12_def

definition WIDE_PREFIX :: u8 where "WIDE_PREFIX = 0"
definition EXTRA_WIDE_PREFIX :: u8 where "EXTRA_WIDE_PREFIX = 1"
definition JUMP_OPCODE :: u8 where "JUMP_OPCODE = 58"

definition instruction_of :: "u8 \<Rightarrow> instruction_def option" where
  "instruction_of opc = (if unat opc < length INSTRUCTIONS then Some (INSTRUCTIONS ! unat opc) else None)"

definition operand_types :: "u8 \<Rightarrow> operand_type list option" where
  "operand_types opc = map_option (snd \<circ> snd) (instruction_of opc)"

definition can_throw :: "u8 \<Rightarrow> bool" where
  "can_throw opc = (case instruction_of opc of None \<Rightarrow> False | Some (_, t, _) \<Rightarrow> t)"

lemma table_length: "length INSTRUCTIONS = 140"
  by (simp add: instruction_defs)

text \<open>An immediate jump: one relative offset, in the first operand for the unconditional jump.\<close>

definition is_immediate_jump :: "instruction_def \<Rightarrow> bool" where
  "is_immediate_jump d = (case d of (n, _, _) \<Rightarrow>
     n \<in> {''Jump'', ''JumpTrue'', ''JumpToBooleanTrue'', ''JumpFalse'', ''JumpToBooleanFalse'',
          ''JumpNotUndefined'', ''JumpNullish'', ''JumpNotNullish''})"

definition jump_operand_index :: "nat \<Rightarrow> nat" where
  "jump_operand_index opc = (if opc = unat JUMP_OPCODE then 0 else 1)"

definition constant_form :: "nat \<Rightarrow> instruction_def \<Rightarrow> instruction_def \<Rightarrow> bool" where
  "constant_form i d d' =
     (case (d, d') of ((n, t, ops), (n', t', ops')) \<Rightarrow>
        n' = n @ ''Constant'' \<and> t' = t \<and> jump_operand_index i < length ops \<and>
        ops ! jump_operand_index i = SInt_t \<and>
        ops' = ops[jump_operand_index i := ConstantIndex_t])"

fun jump_pairs_checked :: "nat \<Rightarrow> instruction_def list \<Rightarrow> bool" where
  "jump_pairs_checked i (d # d' # ds) =
     ((is_immediate_jump d \<longrightarrow> constant_form i d d') \<and> jump_pairs_checked (Suc i) (d' # ds))"
| "jump_pairs_checked i [d] = (\<not> is_immediate_jump d)"
| "jump_pairs_checked i [] = True"

lemma jump_pairs_nth:
  "jump_pairs_checked k ds \<Longrightarrow> i < length ds \<Longrightarrow> is_immediate_jump (ds ! i) \<Longrightarrow>
     i + 1 < length ds \<and> constant_form (k + i) (ds ! i) (ds ! (i + 1))"
proof (induction k ds arbitrary: i rule: jump_pairs_checked.induct)
  case (1 k d d' ds)
  then show ?case by (cases i) auto
qed auto

lemma jump_pairs_table: "jump_pairs_checked 0 INSTRUCTIONS"
  by code_simp

text \<open>
  For every immediate jump of the instruction set, the next opcode is its constant form: same
  name with the suffix, same throwing behaviour, and the same operands with the relative offset
  replaced by a constant index at the position where \<open>set_jump_offset_operand\<close> writes, so
  adding one to the opcode and overwriting that operand converts the jump.
\<close>

theorem jump_pairs_adjacent:
  assumes "i < length INSTRUCTIONS" and "is_immediate_jump (INSTRUCTIONS ! i)"
  shows "i + 1 < length INSTRUCTIONS \<and> constant_form i (INSTRUCTIONS ! i) (INSTRUCTIONS ! (i + 1))"
  using jump_pairs_nth [OF jump_pairs_table assms] by simp

theorem jump_pairs_adjacent_witness:
  "is_immediate_jump (INSTRUCTIONS ! 58) \<and>
   constant_form 58 (INSTRUCTIONS ! 58) (INSTRUCTIONS ! 59)"
proof -
  have "is_immediate_jump (INSTRUCTIONS ! 58)" by code_simp
  with jump_pairs_adjacent [of 58] show ?thesis by (simp add: table_length)
qed

end
