(* ===== verification/Varint.thy ===== *)
theory Varint
  imports Codec
begin

section \<open>The varint codec\<close>

text \<open>
  \<open>so2js/common/varint.rs\<close>: \<open>encode_varint\<close> appends a 64-bit value to a byte buffer, seven
  bits at a time from the low end, with the high bit of a byte saying that more bytes follow;
  \<open>decode_varint\<close> reads one value from the front of a slice and returns it with the number of
  bytes read, and panics (here: \<open>None\<close>) when the slice ends before the value does.
\<close>

function encode_varint :: "u8 list \<Rightarrow> usize \<Rightarrow> u8 list" where
  "encode_varint buf value =
     (if value \<ge> 0x80 then encode_varint (buf @ [ucast value OR 0x80]) (drop_bit 7 value)
      else buf @ [ucast value])"
  by pat_completeness auto
termination
  by (relation "measure (\<lambda>(buf, v). unat v)") (auto simp: unat_drop_bit_lt)

declare encode_varint.simps [simp del]

text \<open>
  The loop of \<open>decode_varint\<close>, on the suffix of the buffer that starts at index \<open>i\<close>. The
  shift amount of a 64-bit shift is taken modulo 64.
\<close>

fun decode_varint_loop :: "u8 list \<Rightarrow> usize \<Rightarrow> nat \<Rightarrow> nat \<Rightarrow> (usize \<times> nat) option" where
  "decode_varint_loop [] value shift i = None"
| "decode_varint_loop (byte # rest) value shift i =
     (let value' = value OR push_bit (shift mod 64) (ucast (byte AND 0x7F))
      in if byte AND 0x80 = 0 then Some (value', i + 1)
         else decode_varint_loop rest value' (shift + 7) (i + 1))"

definition decode_varint :: "u8 list \<Rightarrow> (usize \<times> nat) option" where
  "decode_varint buf = decode_varint_loop buf 0 0 0"

subsection \<open>One group of seven bits\<close>

lemma varint_group_payload:
  "ucast ((ucast (v :: u64) OR 0x80 :: u8) AND 0x7F) = v AND mask 7"
  by (rule bit_word_eqI) (auto simp: bit_simps byte_mask_bits)

lemma varint_group_more:
  "(ucast (v :: u64) OR 0x80 :: u8) AND 0x80 \<noteq> 0"
proof
  assume "(ucast v OR 0x80 :: u8) AND 0x80 = 0"
  then have "bit ((ucast v OR 0x80 :: u8) AND 0x80) 7 = bit (0 :: u8) 7"
    by simp
  then show False by (simp only: bit_simps byte_mask_bits) simp
qed

lemma varint_last:
  assumes "\<not> 0x80 \<le> (v :: u64)"
  shows "ucast ((ucast v :: u8) AND 0x7F) = v" and "(ucast v :: u8) AND 0x80 = 0"
proof -
  have "take_bit 7 v = v"
  proof (rule word_unat_eq_iff [THEN iffD2])
    have "unat v < 2 ^ 7" using assms by (simp add: word_le_nat_alt)
    then show "unat (take_bit 7 v) = unat v"
      by (simp only: unsigned_take_bit_eq) (simp add: take_bit_eq_mod)
  qed
  then have bv: "bit v n \<Longrightarrow> n < 7" for n
    by (metis bit_take_bit_iff)
  show "ucast ((ucast v :: u8) AND 0x7F) = v"
    by (rule bit_word_eqI) (auto simp: bit_simps byte_mask_bits dest: bv)
  show "(ucast v :: u8) AND 0x80 = 0"
    by (rule bit_word_eqI) (use bv [of 7] in \<open>auto simp: bit_simps byte_mask_bits\<close>)
qed

subsection \<open>Decoding what was encoded\<close>

lemma encode_varint_append: "encode_varint (pre @ buf) v = pre @ encode_varint buf v"
proof (induction buf v rule: encode_varint.induct)
  case (1 buf v)
  then show ?case
    by (subst (1 2) encode_varint.simps) simp
qed

lemma encode_varint_Nil:
  "encode_varint [] v =
     (if 0x80 \<le> v then (ucast v OR 0x80) # encode_varint [] (drop_bit 7 v) else [ucast v])"
  using encode_varint_append [of "[ucast v OR 0x80]" "[]" "drop_bit 7 v"]
  by (subst encode_varint.simps) simp

lemma push_bit_group:
  "push_bit s (v AND mask 7) OR push_bit (s + 7) (drop_bit 7 v) = push_bit s (v :: u64)"
proof (rule bit_word_eqI)
  fix n assume "n < LENGTH(64)"
  have "7 + (n - (s + 7)) = n - s" if "\<not> n - s < 7"
    using that by simp
  then show "bit (push_bit s (v AND mask 7) OR push_bit (s + 7) (drop_bit 7 v)) n =
      bit (push_bit s v) n"
    by (cases "n - s < 7") (auto simp: bit_simps)
qed

lemma decode_encode_loop:
  assumes "unat v < 2 ^ (64 - s)" and "s < 64"
  shows "decode_varint_loop (encode_varint [] v @ rest) acc s i =
           Some (acc OR push_bit s v, i + length (encode_varint [] v))"
  using assms
proof (induction "unat v" arbitrary: v acc s i rule: less_induct)
  case less
  show ?case
  proof (cases "0x80 \<le> v")
    case False
    then have "encode_varint [] v = [ucast v]"
      by (simp add: encode_varint_Nil [of v])
    then show ?thesis using less.prems(2)
      by (simp add: varint_last [OF False])
  next
    case True
    have "2 ^ 7 \<le> unat v" using True by (simp add: word_le_nat_alt)
    then have "(2 :: nat) ^ 7 < 2 ^ (64 - s)" using less.prems(1) by (rule le_less_trans)
    then have "7 < 64 - s" by (rule power_less_imp_less_exp [rotated]) simp
    then have s: "s + 7 < 64" by simp
    then have "64 - s = 64 - (s + 7) + 7" by simp
    then have "unat v < 2 ^ (64 - (s + 7)) * 2 ^ 7"
      using less.prems(1) by (simp only: power_add)
    then have b: "unat (drop_bit 7 v) < 2 ^ (64 - (s + 7))"
      by (simp only: unat_drop_bit less_mult_imp_div_less)
    have "decode_varint_loop (encode_varint [] (drop_bit 7 v) @ rest)
            (acc OR push_bit s (v AND mask 7)) (s + 7) (i + 1) =
          Some ((acc OR push_bit s (v AND mask 7)) OR push_bit (s + 7) (drop_bit 7 v),
                i + 1 + length (encode_varint [] (drop_bit 7 v)))"
      by (rule less.hyps [OF unat_drop_bit_lt [OF True] b s])
    moreover have "encode_varint [] v = (ucast v OR 0x80) # encode_varint [] (drop_bit 7 v)"
      using True by (simp add: encode_varint_Nil [of v])
    ultimately show ?thesis using less.prems(2)
      by (simp add: varint_group_more varint_group_payload or.assoc push_bit_group del: push_bit_and)
  qed
qed

lemma decode_encode_prefix:
  "decode_varint (encode_varint [] v @ rest) = Some (v, length (encode_varint [] v))"
proof -
  have "unat v < 2 ^ (64 - 0)"
    using unsigned_less [of v] by simp
  from decode_encode_loop [OF this, of rest 0 0] show ?thesis
    by (simp add: decode_varint_def)
qed

lemma encode_varint_nonempty: "encode_varint [] v \<noteq> []"
  by (subst encode_varint_Nil) simp

interpretation vi: prefix_codec "encode_varint []" decode_varint "\<lambda>_. True"
  by unfold_locales (simp_all add: decode_encode_prefix encode_varint_nonempty)

lemma length_encode_varint:
  assumes "unat v < 2 ^ (7 * k)" and "0 < k"
  shows "length (encode_varint [] v) \<le> k"
  using assms
proof (induction k arbitrary: v)
  case 0
  then show ?case by simp
next
  case (Suc k)
  show ?case
  proof (cases "0x80 \<le> v")
    case False
    then show ?thesis by (simp add: encode_varint_Nil [of v])
  next
    case True
    then have "2 ^ 7 \<le> unat v" by (simp add: word_le_nat_alt)
    then have "2 ^ 7 < (2 :: nat) ^ (7 * Suc k)" using Suc.prems(1) by (rule le_less_trans)
    then have "0 < k" using power_less_imp_less_exp [of "2 :: nat" 7 "7 * Suc k"] by simp
    moreover have "unat (drop_bit 7 v) < 2 ^ (7 * k)"
      using Suc.prems(1) by (simp add: unat_drop_bit less_mult_imp_div_less power_add mult.commute)
    ultimately have "length (encode_varint [] (drop_bit 7 v)) \<le> k"
      by (rule Suc.IH [rotated])
    with True show ?thesis by (simp add: encode_varint_Nil [of v])
  qed
qed

text \<open>
  Encoding appends between one and ten bytes to the buffer and leaves the bytes before them
  alone; decoding from the position where they start gives back the value and their number, whatever
  follows in the buffer.
\<close>

theorem decode_encode_varint:
  "\<exists>n. 1 \<le> n \<and> n \<le> 10 \<and> length (encode_varint buf v) = length buf + n \<and>
       take (length buf) (encode_varint buf v) = buf \<and>
       decode_varint (drop (length buf) (encode_varint buf v @ rest)) = Some (v, n)"
proof -
  have e: "encode_varint buf v = buf @ encode_varint [] v"
    using encode_varint_append [of buf "[]" v] by simp
  have "unat v < 2 ^ (7 * 10)"
    by (rule less_trans [OF unsigned_less]) (simp add: power_strict_increasing)
  then have "length (encode_varint [] v) \<le> 10" by (rule length_encode_varint) simp
  moreover have "1 \<le> length (encode_varint [] v)"
    using encode_varint_nonempty [of v] by (cases "encode_varint [] v") simp_all
  ultimately show ?thesis
    using decode_encode_prefix [of v rest] by (auto simp: e)
qed

end
