(* ===== verification/Bytecode_Writer.thy ===== *)
theory Bytecode_Writer
  imports Instruction_Table Varint
begin

unbundle bit_operations_syntax

section \<open>Writing and reading bytecode\<close>

text \<open>
  \<open>runtime/bytecode/writer.rs\<close> and the encoding half of \<open>instruction.rs\<close>: an
  instruction is written in the smallest width that fits all its operands, behind a width prefix and
  padding that aligns the operands; \<open>InstructionIterator\<close> reads the stream back. Integers are
  written in native byte order, little-endian on the supported targets. Source positions of throwing
  instructions go to a second buffer, as varints.
\<close>

record bytecode_writer =
  w_bytes :: "u8 list"
  w_source_map :: "u8 list"
  last_pos :: usize

definition NO_POS :: usize where "NO_POS = - 1"

definition writer_new :: bytecode_writer where
  "writer_new = \<lparr>w_bytes = [], w_source_map = [], last_pos = NO_POS\<rparr>"

definition u16_to_bytes :: "u16 \<Rightarrow> u8 list" where
  "u16_to_bytes v = [ucast v, ucast (drop_bit 8 v)]"

definition u32_to_bytes :: "u32 \<Rightarrow> u8 list" where
  "u32_to_bytes v = [ucast v, ucast (drop_bit 8 v), ucast (drop_bit 16 v), ucast (drop_bit 24 v)]"

definition u16_from_bytes :: "u8 \<Rightarrow> u8 \<Rightarrow> u16" where
  "u16_from_bytes a b = ucast a OR push_bit 8 (ucast b)"

definition u32_from_bytes :: "u8 \<Rightarrow> u8 \<Rightarrow> u8 \<Rightarrow> u8 \<Rightarrow> u32" where
  "u32_from_bytes a b c d =
     ucast a OR push_bit 8 (ucast b) OR push_bit 16 (ucast c) OR push_bit 24 (ucast d)"

definition current_offset :: "bytecode_writer \<Rightarrow> nat" where
  "current_offset w = length (w_bytes w)"

definition write_u8 :: "bytecode_writer \<Rightarrow> u8 \<Rightarrow> bytecode_writer" where
  "write_u8 w b = w\<lparr>w_bytes := w_bytes w @ [b]\<rparr>"

text \<open>In-place patches; a write past the end panics.\<close>

definition set_u8 :: "bytecode_writer \<Rightarrow> nat \<Rightarrow> u8 \<Rightarrow> bytecode_writer option" where
  "set_u8 w i v =
     (if i < length (w_bytes w) then Some (w\<lparr>w_bytes := (w_bytes w)[i := v]\<rparr>) else None)"

definition set_u16 :: "bytecode_writer \<Rightarrow> nat \<Rightarrow> u16 \<Rightarrow> bytecode_writer option" where
  "set_u16 w i v =
     do { let bs = u16_to_bytes v; w \<leftarrow> set_u8 w i (bs ! 0); set_u8 w (i + 1) (bs ! 1) }"

definition set_u32 :: "bytecode_writer \<Rightarrow> nat \<Rightarrow> u32 \<Rightarrow> bytecode_writer option" where
  "set_u32 w i v =
     do { let bs = u32_to_bytes v;
          w \<leftarrow> set_u8 w i (bs ! 0); w \<leftarrow> set_u8 w (i + 1) (bs ! 1);
          w \<leftarrow> set_u8 w (i + 2) (bs ! 2); set_u8 w (i + 3) (bs ! 3) }"

definition wide_prefix_index_to_opcode_index :: "nat \<Rightarrow> nat" where
  "wide_prefix_index_to_opcode_index i = (i + 1) OR 1"

definition extra_wide_prefix_index_to_opcode_index :: "nat \<Rightarrow> nat" where
  "extra_wide_prefix_index_to_opcode_index i = (i + 1) OR 3"

definition write_padding :: "bytecode_writer \<Rightarrow> nat \<Rightarrow> bytecode_writer" where
  "write_padding w stop =
     w\<lparr>w_bytes := w_bytes w @ replicate (stop - length (w_bytes w)) 0\<rparr>"

definition write_width_prefix :: "bytecode_writer \<Rightarrow> width_enum \<Rightarrow> bytecode_writer" where
  "write_width_prefix w width =
     (case width of
        Narrow \<Rightarrow> w
      | Wide \<Rightarrow>
          let opcode_index = wide_prefix_index_to_opcode_index (length (w_bytes w))
          in write_padding (write_u8 w WIDE_PREFIX) opcode_index
      | ExtraWide \<Rightarrow>
          let opcode_index = extra_wide_prefix_index_to_opcode_index (length (w_bytes w))
          in write_padding (write_u8 w EXTRA_WIDE_PREFIX) opcode_index)"

definition operand_bytes :: "width_enum \<Rightarrow> u32 \<Rightarrow> u8 list" where
  "operand_bytes width v =
     (case width of Narrow \<Rightarrow> [ucast v] | Wide \<Rightarrow> u16_to_bytes (ucast v) | ExtraWide \<Rightarrow> u32_to_bytes v)"

definition write_operand :: "bytecode_writer \<Rightarrow> width_enum \<Rightarrow> u32 \<Rightarrow> bytecode_writer" where
  "write_operand w width v = w\<lparr>w_bytes := w_bytes w @ operand_bytes width v\<rparr>"

definition write_source_map_varint :: "bytecode_writer \<Rightarrow> usize \<Rightarrow> bytecode_writer" where
  "write_source_map_varint w v = w\<lparr>w_source_map := encode_varint (w_source_map w) v\<rparr>"

definition write_source_map_header :: "bytecode_writer \<Rightarrow> usize \<Rightarrow> usize \<Rightarrow> bytecode_writer" where
  "write_source_map_header w start_pos end_pos =
     write_source_map_varint (write_source_map_varint w start_pos) end_pos"

definition write_source_map_entry :: "bytecode_writer \<Rightarrow> usize \<Rightarrow> bytecode_writer" where
  "write_source_map_entry w pos =
     (if pos = NO_POS \<or> pos = last_pos w then w
      else let w = w\<lparr>last_pos := pos\<rparr>
           in write_source_map_varint (write_source_map_varint w (of_nat (current_offset w))) pos)"

text \<open>
  The writing function that the macro generates for an instruction with operands of the given types:
  the width is the maximum of the operands' minimum widths.
\<close>

definition instruction_width :: "operand_type list \<Rightarrow> u32 list \<Rightarrow> width_enum" where
  "instruction_width ts vs =
     foldl (\<lambda>width (t, v). max (operand_min_width t v) width) Narrow (zip ts vs)"

definition write_instruction ::
  "bytecode_writer \<Rightarrow> u8 \<Rightarrow> operand_type list \<Rightarrow> u32 list \<Rightarrow> usize \<Rightarrow> bytecode_writer" where
  "write_instruction w opc ts vs pos =
     (let width = instruction_width ts vs;
          w = write_u8 (write_width_prefix w width) opc;
          w = foldl (\<lambda>w v. write_operand w width v) w vs
      in if can_throw opc then write_source_map_entry w pos else w)"

subsection \<open>Reading\<close>

record decode_info =
  di_width :: width_enum
  di_opcode :: u8
  di_opcode_index :: nat

definition byte_at :: "u8 list \<Rightarrow> nat \<Rightarrow> u8 option" where
  "byte_at bs i = (if i < length bs then Some (bs ! i) else None)"

definition decode_width_and_opcode_at_index :: "u8 list \<Rightarrow> nat \<Rightarrow> decode_info option" where
  "decode_width_and_opcode_at_index bs i =
     do { opc \<leftarrow> byte_at bs i;
          if opc = WIDE_PREFIX then
            do { let j = wide_prefix_index_to_opcode_index i;
                 opc \<leftarrow> byte_at bs j;
                 Some \<lparr>di_width = Wide, di_opcode = opc, di_opcode_index = j\<rparr> }
          else if opc = EXTRA_WIDE_PREFIX then
            do { let j = extra_wide_prefix_index_to_opcode_index i;
                 opc \<leftarrow> byte_at bs j;
                 Some \<lparr>di_width = ExtraWide, di_opcode = opc, di_opcode_index = j\<rparr> }
          else Some \<lparr>di_width = Narrow, di_opcode = opc, di_opcode_index = i\<rparr> }"

text \<open>The value of an operand at a byte position, read at its width and type.\<close>

definition read_operand :: "operand_type \<Rightarrow> width_enum \<Rightarrow> u8 list \<Rightarrow> nat \<Rightarrow> int option" where
  "read_operand t width bs i =
     (if i + num_bytes width > length bs then None
      else Some (case width of
        Narrow \<Rightarrow> (let v = bs ! i in if is_signed_type t then sint v else uint v)
      | Wide \<Rightarrow>
          (let v = u16_from_bytes (bs ! i) (bs ! (i + 1)) in if is_signed_type t then sint v else uint v)
      | ExtraWide \<Rightarrow>
          (let v = u32_from_bytes (bs ! i) (bs ! (i + 1)) (bs ! (i + 2)) (bs ! (i + 3))
           in if is_signed_type t then sint v else uint v)))"

primrec read_operands :: "operand_type list \<Rightarrow> width_enum \<Rightarrow> u8 list \<Rightarrow> nat \<Rightarrow> int list option" where
  "read_operands [] width bs i = Some []"
| "read_operands (t # ts) width bs i =
     do { v \<leftarrow> read_operand t width bs i;
          vs \<leftarrow> read_operands ts width bs (i + num_bytes width);
          Some (v # vs) }"

text \<open>\<open>InstructionIterator::next\<close>: the instruction at a position and the next position.\<close>

definition next_instruction :: "u8 list \<Rightarrow> nat \<Rightarrow> (u8 \<times> int list \<times> nat) option" where
  "next_instruction bs pos =
     do { di \<leftarrow> decode_width_and_opcode_at_index bs pos;
          ts \<leftarrow> operand_types (di_opcode di);
          vs \<leftarrow> read_operands ts (di_width di) bs (di_opcode_index di + 1);
          Some (di_opcode di, vs, di_opcode_index di + 1 + length ts * num_bytes (di_width di)) }"

subsection \<open>Bytes and operands\<close>

lemma or_1_nat: "(n :: nat) OR 1 = n div 2 * 2 + 1"
  by (subst or_one_eq) (auto elim: evenE oddE)

lemma or_3_nat: "(n :: nat) OR 3 = n div 4 * 4 + 3"
proof -
  have "n OR 3 = 1 + 2 * (n div 2 OR 1)" by (subst or_rec) simp
  then show ?thesis unfolding or_1_nat by simp
qed

lemma opcode_indices:
  "wide_prefix_index_to_opcode_index i = (i + 1) div 2 * 2 + 1"
  "extra_wide_prefix_index_to_opcode_index i = (i + 1) div 4 * 4 + 3"
  by (simp_all only: wide_prefix_index_to_opcode_index_def extra_wide_prefix_index_to_opcode_index_def
      or_1_nat or_3_nat)

lemma u16_bytes_roundtrip: "u16_from_bytes (ucast v) (ucast (drop_bit 8 v)) = v"
  unfolding u16_from_bytes_def
  by (rule bit_word_eqI) (auto simp: bit_simps not_less)

lemma u32_bytes_roundtrip:
  "u32_from_bytes (ucast v) (ucast (drop_bit 8 v)) (ucast (drop_bit 16 v)) (ucast (drop_bit 24 v)) = v"
proof (rule bit_word_eqI)
  fix n assume "n < LENGTH(32)"
  then show "bit (u32_from_bytes (ucast v) (ucast (drop_bit 8 v)) (ucast (drop_bit 16 v)) (ucast (drop_bit 24 v))) n =
      bit v n"
    unfolding u32_from_bytes_def
    by (cases "n < 8"; cases "n < 16"; cases "n < 24") (auto simp: bit_simps not_less)
qed

definition operand_int :: "operand_type \<Rightarrow> u32 \<Rightarrow> int" where
  "operand_int t v = (if is_signed_type t then sint v else uint v)"

lemma sint_ucast_down:
  fixes v :: u32
  assumes "LENGTH('w) \<le> 32" and "- (2 ^ (LENGTH('w) - 1)) \<le> sint v" "sint v < 2 ^ (LENGTH('w) - 1)"
  shows "sint (ucast v :: 'w::len word) = sint v"
proof -
  have "(ucast v :: 'w word) = of_int (sint v)"
  proof (rule bit_word_eqI)
    fix n assume "n < LENGTH('w)"
    then have "n = 31 \<or> n < 31" using assms(1) by auto
    then show "bit (ucast v :: 'w word) n = bit (of_int (sint v) :: 'w word) n"
      by (auto simp: bit_simps min_def)
  qed
  then show ?thesis using sint_of_int_eq [OF assms(2,3)] by simp
qed

lemma uint_ucast_down:
  fixes v :: u32
  assumes "unat v < 2 ^ LENGTH('w)"
  shows "uint (ucast v :: 'w::len word) = uint v"
proof -
  have "int (unat v) < int (2 ^ LENGTH('w))" using assms by (simp only: of_nat_less_iff)
  then have "uint v < 2 ^ LENGTH('w)" by simp
  then show ?thesis by (simp only: unsigned_ucast_eq) (simp add: take_bit_int_eq_self)
qed

lemma length_operand_bytes [simp]: "length (operand_bytes width v) = num_bytes width"
  by (cases width) (simp_all add: operand_bytes_def u16_to_bytes_def u32_to_bytes_def)

lemma operand_fits:
  fixes v :: u32
  assumes "operand_min_width t v \<le> width"
  shows "is_signed_type t \<Longrightarrow> SIGNED_MIN width \<le> sint v \<and> sint v \<le> SIGNED_MAX width"
    and "\<not> is_signed_type t \<Longrightarrow> unat v \<le> UNSIGNED_MAX width"
proof -
  have "SIGNED_MIN ExtraWide \<le> sint v" "sint v \<le> SIGNED_MAX ExtraWide"
    using sint_greater_eq [of v] sint_less [of v] by (simp_all add: width_simps)
  then show "is_signed_type t \<Longrightarrow> SIGNED_MIN width \<le> sint v \<and> sint v \<le> SIGNED_MAX width"
    using assms by (simp add: operand_min_width_def min_width_for_signed_le)
  have "unat v < 2 ^ LENGTH(32)" by (rule unsigned_less)
  then have "unat v \<le> UNSIGNED_MAX ExtraWide" by (simp add: width_simps)
  then show "\<not> is_signed_type t \<Longrightarrow> unat v \<le> UNSIGNED_MAX width"
    using assms by (simp add: operand_min_width_def min_width_for_unsigned_le)
qed

lemma read_operand_written:
  assumes "operand_min_width t v \<le> width"
  shows "read_operand t width (pre @ operand_bytes width v @ post) (length pre) = Some (operand_int t v)"
proof (cases width)
  case Narrow
  have "(if is_signed_type t then sint (ucast v :: u8) else uint (ucast v :: u8)) = operand_int t v"
    using operand_fits [OF assms] sint_ucast_down [of v, where 'w = 8] uint_ucast_down [of v, where 'w = 8]
    by (cases "is_signed_type t") (simp_all add: operand_int_def Narrow width_simps)
  then show ?thesis by (simp add: read_operand_def Narrow operand_bytes_def)
next
  case Wide
  have "(if is_signed_type t then sint (ucast v :: u16) else uint (ucast v :: u16)) = operand_int t v"
    using operand_fits [OF assms] sint_ucast_down [of v, where 'w = 16] uint_ucast_down [of v, where 'w = 16]
    by (cases "is_signed_type t") (simp_all add: operand_int_def Wide width_simps)
  then show ?thesis
    using u16_bytes_roundtrip [of "ucast v"]
    by (simp add: read_operand_def Wide operand_bytes_def u16_to_bytes_def nth_append)
next
  case ExtraWide
  then show ?thesis
    using u32_bytes_roundtrip [of v]
    by (simp add: read_operand_def operand_bytes_def u32_to_bytes_def nth_append operand_int_def)
qed

lemma read_operands_written:
  assumes "length ts = length vs" "\<forall>(t, v) \<in> set (zip ts vs). operand_min_width t v \<le> width"
  shows "read_operands ts width (pre @ concat (map (operand_bytes width) vs) @ post) (length pre) =
           Some (map2 operand_int ts vs)"
  using assms
proof (induction ts vs arbitrary: pre rule: list_induct2)
  case (Cons t ts v vs)
  have "read_operands ts width ((pre @ operand_bytes width v) @ concat (map (operand_bytes width) vs) @ post)
      (length (pre @ operand_bytes width v)) = Some (map2 operand_int ts vs)"
    using Cons.prems by (intro Cons.IH) simp
  then show ?case
    using read_operand_written [of t v width pre "concat (map (operand_bytes width) vs) @ post"] Cons.prems
    by simp
qed simp

lemma foldl_max_ge:
  fixes f :: "'a \<Rightarrow> 'b::linorder"
  shows "a \<le> foldl (\<lambda>m x. max (f x) m) a xs \<and> (\<forall>x \<in> set xs. f x \<le> foldl (\<lambda>m x. max (f x) m) a xs)"
proof (induction xs arbitrary: a)
  case (Cons x xs)
  then show ?case by (auto intro: order_trans [OF max.cobounded1] order_trans [OF max.cobounded2])
qed simp

lemma instruction_width_fits:
  "\<forall>(t, v) \<in> set (zip ts vs). operand_min_width t v \<le> instruction_width ts vs"
proof -
  have e: "(\<lambda>width (t, v). max (operand_min_width t v) width) =
      (\<lambda>width x. max ((\<lambda>(t, v). operand_min_width t v) x) width)"
    by (auto simp: fun_eq_iff)
  show ?thesis
    unfolding instruction_width_def e
    using foldl_max_ge [of Narrow "\<lambda>(t, v). operand_min_width t v" "zip ts vs"] by auto
qed

subsection \<open>One instruction\<close>

definition prefix_bytes :: "nat \<Rightarrow> width_enum \<Rightarrow> u8 list" where
  "prefix_bytes n width =
     (case width of Narrow \<Rightarrow> []
      | Wide \<Rightarrow> WIDE_PREFIX # replicate (wide_prefix_index_to_opcode_index n - Suc n) 0
      | ExtraWide \<Rightarrow> EXTRA_WIDE_PREFIX # replicate (extra_wide_prefix_index_to_opcode_index n - Suc n) 0)"

definition instruction_bytes :: "nat \<Rightarrow> u8 \<Rightarrow> operand_type list \<Rightarrow> u32 list \<Rightarrow> u8 list" where
  "instruction_bytes n opc ts vs =
     (let width = instruction_width ts vs
      in prefix_bytes n width @ opc # concat (map (operand_bytes width) vs))"

lemma w_bytes_operands:
  "w_bytes (foldl (\<lambda>w v. write_operand w width v) w vs) =
     w_bytes w @ concat (map (operand_bytes width) vs)"
  by (induction vs arbitrary: w) (simp_all add: write_operand_def)

lemma w_bytes_source_map_entry [simp]: "w_bytes (write_source_map_entry w pos) = w_bytes w"
  by (simp add: write_source_map_entry_def write_source_map_varint_def Let_def)

lemma w_bytes_prefix:
  "w_bytes (write_width_prefix w width) = w_bytes w @ prefix_bytes (length (w_bytes w)) width"
  by (cases width) (simp_all add: write_width_prefix_def prefix_bytes_def write_padding_def write_u8_def Let_def)

lemma w_bytes_write_instruction:
  "w_bytes (write_instruction w opc ts vs pos) =
     w_bytes w @ instruction_bytes (length (w_bytes w)) opc ts vs"
  by (simp add: write_instruction_def instruction_bytes_def Let_def w_bytes_operands w_bytes_prefix write_u8_def)

lemma length_prefix_bytes:
  "n + length (prefix_bytes n width) =
     (case width of Narrow \<Rightarrow> n | Wide \<Rightarrow> wide_prefix_index_to_opcode_index n
      | ExtraWide \<Rightarrow> extra_wide_prefix_index_to_opcode_index n)"
  by (cases width) (simp_all add: prefix_bytes_def opcode_indices)

lemma sum_list_const: "sum_list (map (\<lambda>v. k) vs) = length vs * (k :: nat)"
  by (induction vs) simp_all

lemma length_concat_operands: "length (concat (map (operand_bytes width) vs)) = length vs * num_bytes width"
  by (simp add: length_concat comp_def sum_list_const)

lemma opcode_index_after: "n < wide_prefix_index_to_opcode_index n" "n < extra_wide_prefix_index_to_opcode_index n"
  by (simp_all add: opcode_indices)

lemma prefix_padding:
  "k = wide_prefix_index_to_opcode_index n \<Longrightarrow> prefix_bytes n Wide = WIDE_PREFIX # replicate (k - Suc n) 0"
  "k = extra_wide_prefix_index_to_opcode_index n \<Longrightarrow>
     prefix_bytes n ExtraWide = EXTRA_WIDE_PREFIX # replicate (k - Suc n) 0"
  by (simp_all add: prefix_bytes_def)

lemma decode_width_written:
  assumes "opc \<noteq> WIDE_PREFIX" "opc \<noteq> EXTRA_WIDE_PREFIX"
  shows "decode_width_and_opcode_at_index (pre @ prefix_bytes (length pre) width @ opc # rest) (length pre) =
           Some \<lparr>di_width = width, di_opcode = opc,
                 di_opcode_index = length pre + length (prefix_bytes (length pre) width)\<rparr>"
proof -
  let ?bs = "pre @ prefix_bytes (length pre) width @ opc # rest"
  let ?j = "length pre + length (prefix_bytes (length pre) width)"
  have at: "byte_at ?bs ?j = Some opc" by (simp add: byte_at_def nth_append)
  show ?thesis
  proof (cases width)
    case Narrow
    then show ?thesis
      using assms by (simp add: decode_width_and_opcode_at_index_def byte_at_def prefix_bytes_def nth_append)
  next
    case Wide
    then have "byte_at ?bs (length pre) = Some WIDE_PREFIX"
      by (simp add: byte_at_def prefix_bytes_def nth_append)
    moreover have "?j = wide_prefix_index_to_opcode_index (length pre)"
      using length_prefix_bytes [of "length pre" width] Wide by simp
    ultimately show ?thesis
      using at Wide by (simp add: decode_width_and_opcode_at_index_def Let_def)
  next
    case ExtraWide
    then have "byte_at ?bs (length pre) = Some EXTRA_WIDE_PREFIX"
      by (simp add: byte_at_def prefix_bytes_def nth_append)
    moreover have "?j = extra_wide_prefix_index_to_opcode_index (length pre)"
      using length_prefix_bytes [of "length pre" width] ExtraWide by simp
    moreover have "EXTRA_WIDE_PREFIX \<noteq> WIDE_PREFIX" by (simp add: WIDE_PREFIX_def EXTRA_WIDE_PREFIX_def)
    ultimately show ?thesis
      using at ExtraWide by (simp add: decode_width_and_opcode_at_index_def Let_def)
  qed
qed

lemma next_instruction_written:
  assumes "opc \<noteq> WIDE_PREFIX" "opc \<noteq> EXTRA_WIDE_PREFIX" "operand_types opc = Some ts" "length vs = length ts"
  shows "next_instruction (pre @ instruction_bytes (length pre) opc ts vs @ post) (length pre) =
           Some (opc, map2 operand_int ts vs,
                 length pre + length (instruction_bytes (length pre) opc ts vs))"
proof -
  define width where "width = instruction_width ts vs"
  let ?pre = "pre @ prefix_bytes (length pre) width @ [opc]"
  let ?ops = "concat (map (operand_bytes width) vs)"
  have bs: "pre @ instruction_bytes (length pre) opc ts vs @ post = ?pre @ ?ops @ post"
    by (simp add: instruction_bytes_def Let_def width_def)
  have "read_operands ts width (?pre @ ?ops @ post) (length ?pre) = Some (map2 operand_int ts vs)"
    unfolding width_def using assms(4) by (intro read_operands_written instruction_width_fits) simp
  moreover have "decode_width_and_opcode_at_index (?pre @ ?ops @ post) (length pre) =
      Some \<lparr>di_width = width, di_opcode = opc,
            di_opcode_index = length pre + length (prefix_bytes (length pre) width)\<rparr>"
    using decode_width_written [OF assms(1,2), of pre width "?ops @ post"] by simp
  ultimately show ?thesis
    unfolding bs next_instruction_def using assms(3,4)
    by (simp add: instruction_bytes_def Let_def length_concat_operands flip: width_def)
qed

text \<open>
  Whatever was written before, the operands that follow a width prefix and an opcode start at a
  multiple of their size, so the interpreter may read them through an aligned pointer; the prefix
  adds at most two, respectively four, bytes.
\<close>

theorem operands_aligned:
  "num_bytes width dvd length (w_bytes (write_u8 (write_width_prefix w width) opc)) \<and>
   length (w_bytes (write_width_prefix w width)) \<le> length (w_bytes w) + (if width = Narrow then 0 else num_bytes width)"
proof -
  define n where "n = length (w_bytes w)"
  have l: "length (w_bytes (write_u8 (write_width_prefix w width) opc)) = Suc (n + length (prefix_bytes n width))"
    "length (w_bytes (write_width_prefix w width)) = n + length (prefix_bytes n width)"
    by (simp_all add: write_u8_def w_bytes_prefix n_def)
  show ?thesis
  proof (cases width)
    case Narrow
    then show ?thesis unfolding l length_prefix_bytes by (simp add: n_def)
  next
    case Wide
    have "2 dvd Suc ((n + 1) div 2 * 2 + 1)" "(n + 1) div 2 * 2 + 1 \<le> n + 2" by presburger+
    then show ?thesis unfolding l length_prefix_bytes using Wide by (simp add: opcode_indices n_def)
  next
    case ExtraWide
    have "4 dvd Suc ((n + 1) div 4 * 4 + 3)" "(n + 1) div 4 * 4 + 3 \<le> n + 4" by presburger+
    then show ?thesis unfolding l length_prefix_bytes using ExtraWide by (simp add: opcode_indices n_def)
  qed
qed

subsection \<open>A stream of instructions\<close>

lemma next_instruction_advances: "next_instruction bs pos = Some (opc, vs, pos') \<Longrightarrow> pos < pos'"
  using opcode_index_after [of pos]
  by (auto simp: next_instruction_def decode_width_and_opcode_at_index_def Let_def bind_eq_Some_iff
      split: if_splits)

text \<open>The loop over \<open>InstructionIterator\<close>: the instructions with their offsets.\<close>

function iter_instructions :: "u8 list \<Rightarrow> nat \<Rightarrow> (nat \<times> u8 \<times> int list) list option" where
  "iter_instructions bs pos =
     (if pos \<ge> length bs then Some []
      else case next_instruction bs pos of
             None \<Rightarrow> None
           | Some (opc, vs, pos') \<Rightarrow> map_option (Cons (pos, opc, vs)) (iter_instructions bs pos'))"
  by pat_completeness auto
termination
  by (relation "measure (\<lambda>(bs, pos). length bs - pos)") (auto dest: next_instruction_advances)

declare iter_instructions.simps [simp del]

text \<open>A program: opcodes with their operands and source positions.\<close>

type_synonym instruction = "u8 \<times> u32 list \<times> usize"

definition valid_instruction :: "instruction \<Rightarrow> bool" where
  "valid_instruction i = (case i of (opc, vs, pos) \<Rightarrow>
     opc \<noteq> WIDE_PREFIX \<and> opc \<noteq> EXTRA_WIDE_PREFIX \<and>
     (case operand_types opc of None \<Rightarrow> False | Some ts \<Rightarrow> length vs = length ts))"

definition write_one :: "bytecode_writer \<Rightarrow> instruction \<Rightarrow> bytecode_writer" where
  "write_one w i = (case i of (opc, vs, pos) \<Rightarrow>
     write_instruction w opc (case operand_types opc of None \<Rightarrow> [] | Some ts \<Rightarrow> ts) vs pos)"

definition write_program :: "bytecode_writer \<Rightarrow> instruction list \<Rightarrow> bytecode_writer" where
  "write_program w prog = foldl write_one w prog"

text \<open>An instruction as the iterator reports it, without its offset.\<close>

definition decoded :: "instruction \<Rightarrow> u8 \<times> int list" where
  "decoded i = (case i of (opc, vs, pos) \<Rightarrow>
     (opc, map2 operand_int (case operand_types opc of None \<Rightarrow> [] | Some ts \<Rightarrow> ts) vs))"

lemma w_bytes_write_one:
  "\<exists>bs. w_bytes (write_one w i) = w_bytes w @ bs \<and> bs \<noteq> []"
  by (auto simp: write_one_def w_bytes_write_instruction instruction_bytes_def Let_def split: prod.splits)

lemma w_bytes_write_program: "\<exists>bs. w_bytes (write_program w prog) = w_bytes w @ bs"
proof (induction prog arbitrary: w)
  case (Cons i prog)
  obtain bs bs' where "w_bytes (write_one w i) = w_bytes w @ bs"
      "w_bytes (write_program (write_one w i) prog) = w_bytes (write_one w i) @ bs'"
    using w_bytes_write_one [of w i] Cons.IH [of "write_one w i"] by blast
  then show ?case by (simp add: write_program_def)
qed (simp add: write_program_def)

lemma next_instruction_one:
  assumes "valid_instruction i"
  shows "next_instruction (w_bytes (write_one w i) @ post) (length (w_bytes w)) =
           Some (fst (decoded i), snd (decoded i), length (w_bytes (write_one w i)))"
proof -
  obtain opc vs pos ts where i: "i = (opc, vs, pos)" "operand_types opc = Some ts" "length vs = length ts"
      "opc \<noteq> WIDE_PREFIX" "opc \<noteq> EXTRA_WIDE_PREFIX"
    using assms by (auto simp: valid_instruction_def split: prod.splits option.splits)
  show ?thesis
    using next_instruction_written [OF i(4,5,2,3), of "w_bytes w" post]
    by (simp add: i write_one_def decoded_def w_bytes_write_instruction)
qed

lemma iter_instructions_written:
  assumes "list_all valid_instruction prog"
  shows "\<exists>offsets. iter_instructions (w_bytes (write_program w prog)) (length (w_bytes w)) =
           Some (zip offsets (map decoded prog)) \<and> length offsets = length prog"
  using assms
proof (induction prog arbitrary: w)
  case Nil
  then show ?case by (simp add: write_program_def iter_instructions.simps)
next
  case (Cons i prog)
  let ?w = "write_one w i"
  obtain offsets where it: "iter_instructions (w_bytes (write_program ?w prog)) (length (w_bytes ?w)) =
      Some (zip offsets (map decoded prog))" "length offsets = length prog"
    using Cons by auto
  obtain post where post: "w_bytes (write_program ?w prog) = w_bytes ?w @ post"
    using w_bytes_write_program by blast
  obtain bs where bs: "w_bytes ?w = w_bytes w @ bs" "bs \<noteq> []" using w_bytes_write_one by blast
  have "next_instruction (w_bytes (write_program ?w prog)) (length (w_bytes w)) =
      Some (fst (decoded i), snd (decoded i), length (w_bytes ?w))"
    unfolding post using Cons.prems by (intro next_instruction_one) simp
  then have "iter_instructions (w_bytes (write_program ?w prog)) (length (w_bytes w)) =
      Some ((length (w_bytes w), decoded i) # zip offsets (map decoded prog))"
    using it(1) bs by (subst iter_instructions.simps) (simp add: post)
  then show ?case
    using it(2) by (intro exI [of _ "length (w_bytes w) # offsets"]) (simp add: write_program_def)
qed

text \<open>
  C11: decoding undoes encoding for whole programs: iterating over the bytecode of any sequence of
  valid instructions returns, in order, exactly their opcodes and operand values (sign- or
  zero-extended according to the operand type), whatever width and padding each instruction was
  written with.
\<close>

theorem bytecode_roundtrip:
  assumes "list_all valid_instruction prog"
  shows "map_option (map snd) (iter_instructions (w_bytes (write_program writer_new prog)) 0) =
           Some (map decoded prog)"
proof -
  obtain offsets where "iter_instructions (w_bytes (write_program writer_new prog)) 0 =
      Some (zip offsets (map decoded prog))" "length offsets = length prog"
    using iter_instructions_written [OF assms, of writer_new] by (auto simp: writer_new_def)
  then show ?thesis by simp
qed

text \<open>Opcode 2 is \<open>Mov\<close>; the second instruction needs the wide form.\<close>

theorem bytecode_roundtrip_witness:
  "map_option (map snd) (iter_instructions
     (w_bytes (write_program writer_new [(2, [1, - 1], NO_POS), (2, [300, 5], NO_POS)])) 0) =
   Some [(2, [1, - 1]), (2, [300, 5])]"
proof -
  have ot: "operand_types 2 = Some [Register_t, Register_t]"
    by (simp add: operand_types_def instruction_of_def instruction_defs)
  have v: "list_all valid_instruction [(2, [1, - 1], NO_POS), (2, [300, 5], NO_POS)]"
    by (simp add: valid_instruction_def ot WIDE_PREFIX_def EXTRA_WIDE_PREFIX_def)
  from bytecode_roundtrip [OF v] show ?thesis
    by (simp add: decoded_def ot operand_int_def)
qed

end
