(* ===== verification/Source_Map.thy ===== *)
theory Source_Map
  imports Bytecode_Writer
begin

section \<open>The source map of a function's bytecode\<close>

text \<open>
  \<open>runtime/bytecode/source_map.rs\<close>, the reader of the buffer that the bytecode writer fills:
  the source range of the function, then pairs of a bytecode offset and a source position. The
  theorems connect the writer and the reader: the reader sees exactly the entries written, and a
  lookup with the program counter of a throwing instruction finds that instruction's position.
\<close>

type_synonym source_map_entry = "usize \<times> usize"

text \<open>\<open>SourceMapIter::next\<close> on the unread rest: a panic, the end, or an entry and the rest.\<close>

definition source_map_next :: "u8 list \<Rightarrow> (source_map_entry \<times> u8 list) option option" where
  "source_map_next buf =
     (if buf = [] then Some None
      else do { (bytecode_offset, n) \<leftarrow> decode_varint buf;
                (source_position, m) \<leftarrow> decode_varint (drop n buf);
                Some (Some ((bytecode_offset, source_position), drop (n + m) buf)) })"

lemma decode_varint_loop_length:
  "decode_varint_loop buf v s i = Some (v', n) \<Longrightarrow> i < n \<and> n \<le> i + length buf"
proof (induction buf arbitrary: v s i)
  case (Cons b buf)
  show ?case
  proof (cases "b AND 0x80 = 0")
    case True
    then show ?thesis using Cons.prems by (simp add: Let_def)
  next
    case False
    then have "decode_varint_loop buf (v OR push_bit (s mod 64) (ucast (b AND 0x7F))) (s + 7) (i + 1) = Some (v', n)"
      using Cons.prems by (simp add: Let_def)
    from Cons.IH [OF this] show ?thesis by simp
  qed
qed simp

lemma decode_varint_length: "decode_varint buf = Some (v, n) \<Longrightarrow> 0 < n \<and> n \<le> length buf"
  using decode_varint_loop_length [of buf 0 0 0 v n] by (simp add: decode_varint_def)

lemma source_map_next_decreases:
  "source_map_next buf = Some (Some (e, rest)) \<Longrightarrow> length rest < length buf"
  by (auto simp: source_map_next_def bind_eq_Some_iff split: if_splits dest!: decode_varint_length)

text \<open>All entries from a position of the iterator on.\<close>

function source_map_entries :: "u8 list \<Rightarrow> source_map_entry list option" where
  "source_map_entries buf =
     (case source_map_next buf of
        None \<Rightarrow> None
      | Some None \<Rightarrow> Some []
      | Some (Some (e, rest)) \<Rightarrow> map_option (Cons e) (source_map_entries rest))"
  by pat_completeness auto
termination
  by (relation "measure length") (auto dest: source_map_next_decreases)

declare source_map_entries.simps [simp del]

definition get_function_range :: "u8 list \<Rightarrow> (usize \<times> usize) option" where
  "get_function_range buf =
     do { (start_pos, n) \<leftarrow> decode_varint buf;
          (end_pos, _) \<leftarrow> decode_varint (drop n buf);
          Some (start_pos, end_pos) }"

text \<open>\<open>SourceMapIter::new\<close> drops the first entry.\<close>

definition source_map_iter_new :: "u8 list \<Rightarrow> u8 list option" where
  "source_map_iter_new buf =
     (case source_map_next buf of None \<Rightarrow> None | Some None \<Rightarrow> Some buf | Some (Some (e, rest)) \<Rightarrow> Some rest)"

text \<open>The search loop, from the position of the last entry seen.\<close>

function find_position :: "usize \<Rightarrow> usize \<Rightarrow> u8 list \<Rightarrow> usize option" where
  "find_position off current buf =
     (case source_map_next buf of
        None \<Rightarrow> None
      | Some None \<Rightarrow> Some current
      | Some (Some ((bytecode_offset, source_position), rest)) \<Rightarrow>
          if off < bytecode_offset then Some current else find_position off source_position rest)"
  by pat_completeness auto
termination
  by (relation "measure (\<lambda>(off, current, buf). length buf)") (auto dest: source_map_next_decreases)

declare find_position.simps [simp del]

text \<open>The outer option is a panic, the inner one the function's result.\<close>

definition get_source_position :: "u8 list \<Rightarrow> usize \<Rightarrow> usize option option" where
  "get_source_position buf off =
     do { rest \<leftarrow> source_map_iter_new buf;
          next \<leftarrow> source_map_next rest;
          (case next of
             None \<Rightarrow> Some None
           | Some ((_, source_position), rest) \<Rightarrow> map_option Some (find_position off source_position rest)) }"

subsection \<open>The reader sees the entries written\<close>

definition entry_bytes :: "source_map_entry \<Rightarrow> u8 list" where
  "entry_bytes e = encode_varint [] (fst e) @ encode_varint [] (snd e)"

lemma decode_varint_prefix: "decode_varint (encode_varint [] v @ rest) = Some (v, length (encode_varint [] v))"
  by (rule vi.dec_enc) simp

lemma source_map_next_entry: "source_map_next (entry_bytes e @ rest) = Some (Some (e, rest))"
  using vi.enc_nonempty [of "fst e"]
  by (simp add: source_map_next_def entry_bytes_def decode_varint_prefix)

definition entry_decode :: "u8 list \<Rightarrow> (source_map_entry \<times> nat) option" where
  "entry_decode buf =
     (case source_map_next buf of Some (Some (e, rest)) \<Rightarrow> Some (e, length buf - length rest) | _ \<Rightarrow> None)"

interpretation sm: codec_loop entry_bytes entry_decode "\<lambda>_. True" source_map_entries
proof
  fix e rest
  show "entry_decode (entry_bytes e @ rest) = Some (e, length (entry_bytes e))"
    by (simp add: entry_decode_def source_map_next_entry)
  show "entry_bytes e \<noteq> []" using vi.enc_nonempty [of "fst e"] by (simp add: entry_bytes_def)
next
  show "source_map_entries [] = Some []" by (simp add: source_map_entries.simps source_map_next_def)
next
  fix buf e n assume d: "entry_decode buf = Some (e, n)"
  then obtain rest where r: "source_map_next buf = Some (Some (e, rest))" "n = length buf - length rest"
    by (auto simp: entry_decode_def split: option.splits)
  then obtain k where "rest = drop k buf"
    by (auto simp: source_map_next_def bind_eq_Some_iff split: if_splits)
  then have "drop n buf = rest" using r(2) by (cases "k \<le> length buf") auto
  then show "source_map_entries buf = map_option (Cons e) (source_map_entries (drop n buf))"
    by (subst source_map_entries.simps) (simp add: r(1))
qed

lemma find_position_entries:
  "find_position off current (concat (map entry_bytes es)) =
     Some (snd (last ((0, current) # takeWhile (\<lambda>e. \<not> off < fst e) es)))"
proof (induction es arbitrary: current)
  case Nil
  then show ?case by (simp add: find_position.simps source_map_next_def)
next
  case (Cons e es)
  show ?case
    using Cons.IH [of "snd e"]
    by (subst find_position.simps) (auto simp: source_map_next_entry split: prod.splits)
qed

lemma get_source_position_entries:
  "get_source_position (concat (map entry_bytes (hdr # es))) off =
     Some (case es of [] \<Rightarrow> None
           | e # es' \<Rightarrow> Some (snd (last (e # takeWhile (\<lambda>e. \<not> off < fst e) es'))))"
proof (cases es)
  case Nil
  then show ?thesis
    using source_map_next_entry [of hdr "[]"]
    by (simp add: get_source_position_def source_map_iter_new_def) (simp add: source_map_next_def)
next
  case (Cons e es')
  then show ?thesis
    using find_position_entries [of off "snd e" es']
    by (auto simp: get_source_position_def source_map_iter_new_def source_map_next_entry split: prod.splits)
qed

subsection \<open>The writer's entries\<close>

definition source_map_inv :: "source_map_entry \<Rightarrow> source_map_entry list \<Rightarrow> bytecode_writer \<Rightarrow> bool" where
  "source_map_inv hdr es w \<longleftrightarrow>
     w_source_map w = concat (map entry_bytes (hdr # es)) \<and>
     last_pos w = (if es = [] then NO_POS else snd (last es)) \<and>
     (\<forall>e \<in> set es. unat (fst e) \<le> length (w_bytes w))"

lemma source_map_inv_header:
  "source_map_inv (s, t) [] (write_source_map_header writer_new s t)"
  using encode_varint_append [of "encode_varint [] s" "[]" t]
  by (simp add: source_map_inv_def write_source_map_header_def write_source_map_varint_def writer_new_def
      entry_bytes_def)

lemma operands_frame [simp]:
  "w_source_map (foldl (\<lambda>w v. write_operand w width v) w vs) = w_source_map w"
  "last_pos (foldl (\<lambda>w v. write_operand w width v) w vs) = last_pos w"
  by (induction vs arbitrary: w) (simp_all add: write_operand_def)

lemma prefix_frame [simp]:
  "w_source_map (write_width_prefix w width) = w_source_map w"
  "last_pos (write_width_prefix w width) = last_pos w"
  by (cases width; simp add: write_width_prefix_def write_padding_def write_u8_def Let_def)+

lemma write_entry_inv:
  assumes "source_map_inv hdr es w" "length (w_bytes w) < 2 ^ 64"
  shows "\<exists>es'. source_map_inv hdr (es @ es') (write_source_map_entry w pos) \<and>
           (\<forall>e \<in> set es'. unat (fst e) = length (w_bytes w)) \<and>
           (pos \<noteq> NO_POS \<longrightarrow> es @ es' \<noteq> [] \<and> snd (last (es @ es')) = pos)"
proof (cases "pos = NO_POS \<or> pos = last_pos w")
  case True
  then have "write_source_map_entry w pos = w" by (simp add: write_source_map_entry_def)
  moreover have "pos \<noteq> NO_POS \<longrightarrow> es \<noteq> [] \<and> snd (last es) = pos"
    using True assms(1) by (auto simp: source_map_inv_def split: if_splits)
  ultimately show ?thesis using assms(1) by (intro exI [of _ "[]"]) simp
next
  case False
  let ?e = "(of_nat (length (w_bytes w)) :: usize, pos)"
  have u: "unat (fst ?e) = length (w_bytes w)" using assms(2) by (simp add: unat_of_nat)
  have "w_source_map (write_source_map_entry w pos) = w_source_map w @ entry_bytes ?e"
    using False encode_varint_append [of "w_source_map w" "[]" "of_nat (length (w_bytes w))"]
      encode_varint_append [of "w_source_map w @ encode_varint [] (of_nat (length (w_bytes w)))" "[]" pos]
    by (simp add: write_source_map_entry_def write_source_map_varint_def current_offset_def Let_def entry_bytes_def)
  moreover have "last_pos (write_source_map_entry w pos) = pos"
    using False by (simp add: write_source_map_entry_def write_source_map_varint_def Let_def)
  ultimately have "source_map_inv hdr (es @ [?e]) (write_source_map_entry w pos)"
    using assms(1) u by (simp add: source_map_inv_def)
  then show ?thesis using u by (intro exI [of _ "[?e]"]) simp
qed

lemma write_one_inv:
  assumes inv: "source_map_inv hdr es w" and i: "i = (opc, vs, pos)"
    and len: "length (w_bytes (write_one w i)) < 2 ^ 64"
  shows "\<exists>es'. source_map_inv hdr (es @ es') (write_one w i) \<and>
           (\<forall>e \<in> set es'. unat (fst e) = length (w_bytes (write_one w i))) \<and>
           (can_throw opc \<and> pos \<noteq> NO_POS \<longrightarrow> es @ es' \<noteq> [] \<and> snd (last (es @ es')) = pos)"
proof -
  define ts where "ts = (case operand_types opc of None \<Rightarrow> [] | Some ts \<Rightarrow> ts)"
  define w' where "w' = foldl (\<lambda>w v. write_operand w (instruction_width ts vs) v)
    (write_u8 (write_width_prefix w (instruction_width ts vs)) opc) vs"
  have w1: "write_one w i = (if can_throw opc then write_source_map_entry w' pos else w')"
    by (simp add: write_one_def i write_instruction_def Let_def w'_def ts_def)
  have "w_source_map w' = w_source_map w" "last_pos w' = last_pos w" "length (w_bytes w) \<le> length (w_bytes w')"
    by (simp_all add: w'_def write_u8_def w_bytes_operands w_bytes_prefix)
  then have inv': "source_map_inv hdr es w'"
    using inv by (auto simp: source_map_inv_def intro: order_trans)
  show ?thesis
  proof (cases "can_throw opc")
    case True
    then show ?thesis
      using write_entry_inv [OF inv', of pos] len by (simp add: w1)
  next
    case False
    then show ?thesis using inv' by (intro exI [of _ "[]"]) (simp add: w1)
  qed
qed

lemma length_write_program: "length (w_bytes w) \<le> length (w_bytes (write_program w prog))"
  using w_bytes_write_program [of w prog] by auto

lemma write_program_inv:
  assumes "source_map_inv hdr es w" "length (w_bytes (write_program w prog)) < 2 ^ 64"
  shows "\<exists>es'. source_map_inv hdr (es @ es') (write_program w prog) \<and>
           (\<forall>e \<in> set es'. length (w_bytes w) < unat (fst e))"
  using assms
proof (induction prog arbitrary: w es)
  case Nil
  then show ?case by (intro exI [of _ "[]"]) (simp add: write_program_def)
next
  case (Cons i prog)
  obtain opc vs pos where i: "i = (opc, vs, pos)" by (cases i)
  have wp: "write_program w (i # prog) = write_program (write_one w i) prog"
    by (simp add: write_program_def)
  have lt: "length (w_bytes w) < length (w_bytes (write_one w i))"
    using w_bytes_write_one [of w i] by auto
  have "length (w_bytes (write_one w i)) < 2 ^ 64"
    using length_write_program [of "write_one w i" prog] Cons.prems(2) by (simp add: wp)
  from write_one_inv [OF Cons.prems(1) i this] obtain es1 where
    es1: "source_map_inv hdr (es @ es1) (write_one w i)"
      "\<forall>e \<in> set es1. unat (fst e) = length (w_bytes (write_one w i))" by blast
  from Cons.IH [OF es1(1)] Cons.prems(2) obtain es2 where
    es2: "source_map_inv hdr ((es @ es1) @ es2) (write_program (write_one w i) prog)"
      "\<forall>e \<in> set es2. length (w_bytes (write_one w i)) < unat (fst e)" unfolding wp by blast
  then show ?case
    using es1(2) lt by (intro exI [of _ "es1 @ es2"]) (auto simp: wp)
qed

lemma takeWhile_split:
  assumes "\<forall>x \<in> set xs. P x" "\<forall>y \<in> set ys. \<not> P y"
  shows "takeWhile P (xs @ ys) = xs"
  using assms by (cases ys) (simp_all add: takeWhile_append2)

text \<open>
  C25: for every throwing instruction of a program that was written with a source position, looking up
  the offset right after the instruction, the program counter while it executes, in the finished
  source map returns that position, whatever instructions precede and follow and although runs of
  equal positions are stored once.
\<close>

theorem source_position_of_instruction:
  assumes w0: "w0 = write_source_map_header writer_new s t"
    and i: "i = (opc, vs, pos)" "can_throw opc" "pos \<noteq> NO_POS"
    and off: "off = length (w_bytes (write_program w0 (before @ [i])))"
    and len: "length (w_bytes (write_program w0 (before @ i # after))) < 2 ^ 64"
  shows "get_source_position (w_source_map (write_program w0 (before @ i # after))) (of_nat off) =
           Some (Some pos)"
proof -
  let ?w = "write_program w0 before"
  have w1: "write_program w0 (before @ [i]) = write_one ?w i"
    and w2: "write_program w0 (before @ i # after) = write_program (write_one ?w i) after"
    by (simp_all add: write_program_def)
  have l1: "length (w_bytes (write_one ?w i)) < 2 ^ 64"
    using length_write_program [of "write_one ?w i" after] len by (simp add: w2)
  have "length (w_bytes ?w) < 2 ^ 64"
    using l1 w_bytes_write_one [of ?w i] by auto
  then obtain es where es: "source_map_inv (s, t) es ?w"
    using write_program_inv [OF source_map_inv_header, of s t before] unfolding w0 by auto
  from write_one_inv [OF es i(1) l1] i(2,3) obtain es1 where
    es1: "source_map_inv (s, t) (es @ es1) (write_one ?w i)" "es @ es1 \<noteq> []" "snd (last (es @ es1)) = pos"
    by auto
  from write_program_inv [OF es1(1)] len obtain es2 where
    es2: "source_map_inv (s, t) ((es @ es1) @ es2) (write_program (write_one ?w i) after)"
      "\<forall>e \<in> set es2. length (w_bytes (write_one ?w i)) < unat (fst e)" unfolding w2 by blast
  have o: "unat (of_nat off :: usize) = off" and off': "off = length (w_bytes (write_one ?w i))"
    using l1 off by (simp_all add: w1 unat_of_nat)
  have le: "\<forall>e \<in> set (es @ es1). \<not> of_nat off < fst e"
    using es1(1) unfolding source_map_inv_def word_less_nat_alt o not_less off' [symmetric] by blast
  have gt: "\<forall>e \<in> set es2. \<not> \<not> of_nat off < fst e"
    using es2(2) unfolding word_less_nat_alt o off' [symmetric] by blast
  obtain e es' where ee: "es @ es1 = e # es'" using es1(2) by (cases "es @ es1") auto
  have "takeWhile (\<lambda>e. \<not> of_nat off < fst e) (es' @ es2) = es'"
    using le gt ee by (intro takeWhile_split) auto
  moreover have "w_source_map (write_program w0 (before @ i # after)) =
      concat (map entry_bytes ((s, t) # e # (es' @ es2)))"
    using es2(1) ee by (simp add: w2 source_map_inv_def)
  ultimately show ?thesis
    using get_source_position_entries [of "(s, t)" "e # (es' @ es2)" "of_nat off"] es1(3) ee
    by (simp split: if_splits)
qed

text \<open>Opcode 10 is \<open>LoadGlobal\<close>; two loads at the same position share one entry.\<close>

definition demo_start :: bytecode_writer where
  "demo_start = write_source_map_header writer_new 0 40"

lemma demo_load_global: "operand_types 10 = Some [Register_t, ConstantIndex_t]" "can_throw 10"
  by (simp_all add: operand_types_def can_throw_def instruction_of_def instruction_defs)

lemma demo_load_length:
  "length (w_bytes (write_one w (10, [1, 2], p))) = length (w_bytes w) + 3"
  by (simp add: write_one_def demo_load_global w_bytes_write_instruction instruction_bytes_def
      instruction_width_def operand_min_width_def min_width_for_signed_def min_width_for_unsigned_def
      width_simps Let_def prefix_bytes_def max_def)

theorem source_position_of_instruction_witness:
  "get_source_position
     (w_source_map (write_program demo_start ([(10, [1, 2], 17)] @ (10, [1, 2], 17) # [(10, [1, 2], 23)])))
     (of_nat (length (w_bytes (write_program demo_start ([(10, [1, 2], 17)] @ [(10, [1, 2], 17)]))))) =
   Some (Some 17)"
proof (rule source_position_of_instruction [OF demo_start_def refl demo_load_global(2) _ refl])
  show "(17 :: usize) \<noteq> NO_POS" by (simp add: NO_POS_def)
  show "length (w_bytes (write_program demo_start
      ([(10, [1, 2], 17)] @ (10, [1, 2], 17) # [(10, [1, 2], 23)]))) < 2 ^ 64"
    by (simp add: write_program_def demo_load_length demo_start_def write_source_map_header_def
        write_source_map_varint_def writer_new_def)
qed

end
