(* ===== verification/F64.thy ===== *)
theory F64
  imports Prelude
begin

unbundle bit_operations_syntax

section \<open>Double-precision numbers as bit patterns\<close>

text \<open>
  The part of Rust's \<open>f64\<close> that the runtime's value representation uses, on the bit pattern
  that \<open>to_bits\<close> gives: the comparison operators, \<open>trunc\<close>, the saturating cast
  \<open>as i32\<close> and the conversions of integers to the nearest double (ties to even). The main
  fact is that the integers in the 32-bit range convert to doubles and back without loss.
\<close>

type_synonym f64 = u64

subsection \<open>Fields\<close>

definition f64_sign :: "f64 \<Rightarrow> bool" where
  "f64_sign v \<longleftrightarrow> 2 ^ 63 \<le> unat v"

definition f64_mag :: "f64 \<Rightarrow> nat" where
  "f64_mag v = unat v mod 2 ^ 63"

definition f64_exp :: "f64 \<Rightarrow> nat" where
  "f64_exp v = f64_mag v div 2 ^ 52"

definition f64_mant :: "f64 \<Rightarrow> nat" where
  "f64_mant v = f64_mag v mod 2 ^ 52"

definition f64_pack :: "bool \<Rightarrow> nat \<Rightarrow> f64" where
  "f64_pack s mag = of_nat ((if s then 2 ^ 63 else 0) + mag)"

lemma f64_pack_fields: "f64_pack (f64_sign v) (f64_mag v) = v"
proof -
  have "(if 2 ^ 63 \<le> unat v then 2 ^ 63 else 0) + unat v mod 2 ^ 63 = unat v"
  proof (cases "2 ^ 63 \<le> unat v")
    case True
    have "unat v < 2 * 2 ^ 63" using unsigned_less [of v] by simp
    with True have "unat v mod 2 ^ 63 = unat v - 2 ^ 63"
      by (subst le_mod_geq) auto
    with True show ?thesis by simp
  next
    case False
    then show ?thesis by simp
  qed
  then show ?thesis by (simp add: f64_pack_def f64_sign_def f64_mag_def)
qed

lemma unat_f64_pack: "mag < 2 ^ 63 \<Longrightarrow> unat (f64_pack s mag) = (if s then 2 ^ 63 else 0) + mag"
  unfolding f64_pack_def unat_of_nat by (rule mod_less) auto

lemma f64_pack_sign [simp]: "mag < 2 ^ 63 \<Longrightarrow> f64_sign (f64_pack s mag) = s"
  by (simp add: f64_sign_def unat_f64_pack)

lemma f64_pack_mag [simp]: "mag < 2 ^ 63 \<Longrightarrow> f64_mag (f64_pack s mag) = mag"
  by (simp add: f64_mag_def unat_f64_pack)

lemma f64_mag_lt: "f64_mag v < 2 ^ 63"
  by (simp add: f64_mag_def)

lemma f64_eqI: "f64_sign v = f64_sign w \<Longrightarrow> f64_mag v = f64_mag w \<Longrightarrow> v = w"
  by (rule trans [OF f64_pack_fields [symmetric]], rule trans [OF _ f64_pack_fields]) (simp only:)

lemma f64_mag_split: "f64_mag v = f64_exp v * 2 ^ 52 + f64_mant v"
  unfolding f64_exp_def f64_mant_def by (rule div_mult_mod_eq [symmetric])

lemma f64_mant_lt: "f64_mant v < 2 ^ 52"
  by (simp add: f64_mant_def)

subsection \<open>Comparison and truncation\<close>

definition f64_is_nan :: "f64 \<Rightarrow> bool" where
  "f64_is_nan v \<longleftrightarrow> f64_exp v = 2047 \<and> f64_mant v \<noteq> 0"

text \<open>Doubles that are not NaN are ordered as sign and magnitude integers.\<close>

definition f64_key :: "f64 \<Rightarrow> int" where
  "f64_key v = (if f64_sign v then - int (f64_mag v) else int (f64_mag v))"

definition f64_eq :: "f64 \<Rightarrow> f64 \<Rightarrow> bool" where
  "f64_eq a b \<longleftrightarrow> \<not> f64_is_nan a \<and> \<not> f64_is_nan b \<and> f64_key a = f64_key b"

definition f64_le :: "f64 \<Rightarrow> f64 \<Rightarrow> bool" where
  "f64_le a b \<longleftrightarrow> \<not> f64_is_nan a \<and> \<not> f64_is_nan b \<and> f64_key a \<le> f64_key b"

definition f64_positive_zero :: f64 where
  "f64_positive_zero = 0"

definition f64_negative_zero :: f64 where
  "f64_negative_zero = 0x8000000000000000"

definition f64_infinity :: f64 where
  "f64_infinity = 0x7FF0000000000000"

definition f64_trunc :: "f64 \<Rightarrow> f64" where
  "f64_trunc v =
     (let e = f64_exp v in
        if e < 1023 then f64_pack (f64_sign v) 0
        else if 1075 \<le> e then v
        else f64_pack (f64_sign v) (f64_mag v div 2 ^ (1075 - e) * 2 ^ (1075 - e)))"

lemma f64_zeros:
  "f64_sign f64_negative_zero" "f64_mag f64_negative_zero = 0"
  "\<not> f64_sign f64_positive_zero" "f64_mag f64_positive_zero = 0"
  by (simp_all add: f64_sign_def f64_mag_def f64_negative_zero_def f64_positive_zero_def)

lemma f64_key_eq_cases:
  "f64_key a = f64_key b \<longleftrightarrow>
     a = b \<or> a = f64_positive_zero \<and> b = f64_negative_zero \<or> a = f64_negative_zero \<and> b = f64_positive_zero"
proof
  assume k: "f64_key a = f64_key b"
  then have m: "f64_mag a = f64_mag b"
    by (simp add: f64_key_def split: if_splits)
  show "a = b \<or> a = f64_positive_zero \<and> b = f64_negative_zero \<or> a = f64_negative_zero \<and> b = f64_positive_zero"
  proof (cases "f64_sign a = f64_sign b")
    case True
    with m show ?thesis by (blast intro: f64_eqI)
  next
    case False
    with k m have "f64_mag a = 0" "f64_mag b = 0" by (auto simp: f64_key_def split: if_splits)
    with False show ?thesis
      using f64_eqI [of a f64_negative_zero] f64_eqI [of a f64_positive_zero]
        f64_eqI [of b f64_negative_zero] f64_eqI [of b f64_positive_zero] f64_zeros by auto
  qed
qed (auto simp: f64_key_def f64_zeros)

subsection \<open>Conversions\<close>

fun ilog2 :: "nat \<Rightarrow> nat" where
  "ilog2 n = (if n \<le> 1 then 0 else Suc (ilog2 (n div 2)))"

declare ilog2.simps [simp del]

lemma ilog2_unique: "2 ^ k \<le> n \<Longrightarrow> n < 2 ^ Suc k \<Longrightarrow> ilog2 n = k"
proof (induction k arbitrary: n)
  case 0
  then show ?case by (subst ilog2.simps) simp
next
  case (Suc k)
  then have "2 ^ k \<le> n div 2" "n div 2 < 2 ^ Suc k" by auto
  moreover have "\<not> n \<le> 1"
    using Suc.prems(1) one_le_power [of "2::nat" k] by (simp only: power_Suc) linarith
  ultimately show ?case using Suc.IH by (subst ilog2.simps) simp
qed

text \<open>
  The nearest double to a natural number, ties to even. The rounded 53-bit significand carries into
  the exponent by the addition.
\<close>

definition f64_of_nat :: "nat \<Rightarrow> nat" where
  "f64_of_nat n =
     (if n = 0 then 0
      else let k = ilog2 n in
        (1022 + k) * 2 ^ 52 +
        (if k \<le> 52 then n * 2 ^ (52 - k)
         else let d = k - 52; q = n div 2 ^ d; r = n mod 2 ^ d; half = 2 ^ (d - 1)
              in if r > half \<or> r = half \<and> odd q then q + 1 else q))"

definition f64_of_int :: "int \<Rightarrow> f64" where
  "f64_of_int i = f64_pack (i < 0) (f64_of_nat (nat \<bar>i\<bar>))"

text \<open>The integer part of a finite double; the cast \<open>as i32\<close> saturates it.\<close>

definition f64_int_part :: "f64 \<Rightarrow> int" where
  "f64_int_part v =
     (let n = (if f64_exp v < 1023 then 0
               else (2 ^ 52 + f64_mant v) * 2 ^ f64_exp v div 2 ^ 1075)
      in if f64_sign v then - int n else int n)"

definition f64_to_i32 :: "f64 \<Rightarrow> int" where
  "f64_to_i32 v =
     (if f64_is_nan v then 0
      else max (- (2 ^ 31)) (min (2 ^ 31 - 1) (f64_int_part v)))"

definition I32_MAX_F64 :: f64 where
  "I32_MAX_F64 = 0x41DFFFFFFFC00000"

definition I32_MIN_F64 :: f64 where
  "I32_MIN_F64 = 0xC1E0000000000000"

lemma i32_bounds_values: "f64_of_int (2 ^ 31 - 1) = I32_MAX_F64" "f64_of_int (- (2 ^ 31)) = I32_MIN_F64"
proof -
  have "ilog2 2147483647 = 30" "ilog2 2147483648 = 31" by (rule ilog2_unique; simp)+
  then show "f64_of_int (2 ^ 31 - 1) = I32_MAX_F64" "f64_of_int (- (2 ^ 31)) = I32_MIN_F64"
    by (simp_all add: f64_of_int_def f64_of_nat_def f64_pack_def I32_MAX_F64_def I32_MIN_F64_def)
qed

text \<open>An integral double in the 32-bit range is the image of its integer part.\<close>

lemma f64_of_nat_shift:
  assumes "k \<le> 52" and "n * 2 ^ (52 - k) = 2 ^ 52 + m" and "m < 2 ^ 52"
  shows "ilog2 n = k" and "f64_of_nat n = (1023 + k) * 2 ^ 52 + m"
proof -
  let ?d = "2 ^ (52 - k) :: nat"
  have p: "(2::nat) ^ 52 = 2 ^ k * ?d" using assms(1) by (simp flip: power_add)
  have "2 ^ k * ?d \<le> n * ?d" using assms(2) p by simp
  moreover have "n * ?d < 2 ^ Suc k * ?d" using assms(2,3) p by simp
  ultimately have b: "2 ^ k \<le> n" "n < 2 ^ Suc k" by (simp_all del: power_Suc)
  show l: "ilog2 n = k" by (rule ilog2_unique [OF b])
  have "n \<noteq> 0" using b(1) by (metis not_numeral_le_zero power_eq_0_iff le_zero_eq)
  then show "f64_of_nat n = (1023 + k) * 2 ^ 52 + m"
    using assms l by (simp add: f64_of_nat_def Let_def)
qed

lemma f64_int_roundtrip:
  assumes e: "1023 \<le> f64_exp v" "f64_exp v \<le> 1054"
    and d: "2 ^ (1075 - f64_exp v) dvd f64_mag v"
  shows "f64_of_int (f64_int_part v) = v" and "\<bar>f64_int_part v\<bar> < 2 ^ 32"
proof -
  define k where "k = f64_exp v - 1023"
  have k: "f64_exp v = 1023 + k" "k \<le> 31" using e by (simp_all add: k_def)
  let ?d = "2 ^ (52 - k) :: nat" and ?m = "f64_mant v"
  have "?d dvd f64_mag v" using d k by simp
  moreover have "?d dvd (2::nat) ^ 52" by (rule le_imp_power_dvd) simp
  ultimately have "?d dvd f64_mag v mod 2 ^ 52" by (rule dvd_mod)
  then have "?d dvd 2 ^ 52 + ?m"
    using \<open>?d dvd 2 ^ 52\<close> by (simp only: f64_mant_def dvd_add)
  then obtain n where n: "2 ^ 52 + ?m = ?d * n" by blast
  have pw: "(2::nat) ^ 1075 = ?d * 2 ^ (1023 + k)" using k(2) by (simp flip: power_add)
  have int: "(2 ^ 52 + ?m) * 2 ^ f64_exp v div 2 ^ 1075 = n"
  proof -
    have "(2 ^ 52 + ?m) * 2 ^ f64_exp v = n * (2::nat) ^ 1075"
      unfolding n pw k(1) by (simp only: ac_simps)
    moreover have "n * (2::nat) ^ 1075 div 2 ^ 1075 = n"
      by (rule nonzero_mult_div_cancel_right) (simp only: power_not_zero zero_neq_numeral not_False_eq_True)
    ultimately show ?thesis by (simp only:)
  qed
  have part: "f64_int_part v = (if f64_sign v then - int n else int n)"
    using e(1) by (simp only: f64_int_part_def int Let_def) simp
  have nn: "n * ?d = 2 ^ 52 + ?m" using n by (simp add: mult.commute)
  note sh = f64_of_nat_shift [OF _ nn f64_mant_lt]
  have "f64_of_nat n = f64_mag v" using sh(2) k f64_mag_split [of v] by simp
  moreover have "n \<noteq> 0" using nn by (auto intro: ccontr)
  ultimately show "f64_of_int (f64_int_part v) = v"
    by (simp add: f64_of_int_def part f64_pack_fields split: if_splits)
      (metis f64_pack_fields)
  have "(2::nat) ^ 21 \<le> ?d" using k(2) by (intro power_increasing) simp_all
  then have "2 ^ 21 * n \<le> n * ?d" by (simp only: mult.commute [of n] mult_le_mono1)
  also have "\<dots> < 2 ^ 53" using nn f64_mant_lt [of v] by simp
  finally have "n < 2 ^ 32" by simp
  then show "\<bar>f64_int_part v\<bar> < 2 ^ 32" by (simp add: part)
qed

end
