(* ===== verification/Value.thy ===== *)
theory Value
  imports F64
begin

unbundle bit_operations_syntax

section \<open>NaN-boxed values\<close>

text \<open>
  \<open>runtime/value.rs\<close>: a JavaScript value is one 64-bit word. Pointers are stored directly,
  doubles as their bitwise negation, and the other primitives in the space of the non-canonical
  NaNs with a 16-bit tag. The equality operations of \<open>runtime/type_utilities.rs\<close> follow. The
  theorems show that the type tests tell the kinds apart on every bit pattern, that each constructor
  is undone by its cast, that numbers survive boxing although small integers change their
  representation, and that \<open>SameValue\<close> decides equality of the values that the words stand for.
\<close>

type_synonym "value" = u64

definition TAG_SHIFT :: nat where "TAG_SHIFT = 48"

definition NAN_TAG :: u16 where "NAN_TAG = 0x7FF8"
definition POINTER_TAG :: u16 where "POINTER_TAG = 0"
definition UNDEFINED_TAG :: u16 where "UNDEFINED_TAG = NOT (0b001 OR NAN_TAG)"
definition NULL_TAG :: u16 where "NULL_TAG = NOT (0b011 OR NAN_TAG)"
definition EMPTY_TAG :: u16 where "EMPTY_TAG = NOT (0b010 OR NAN_TAG)"
definition BOOL_TAG :: u16 where "BOOL_TAG = NOT (0b100 OR NAN_TAG)"
definition SMI_TAG :: u16 where "SMI_TAG = NOT (0b110 OR NAN_TAG)"
definition NULLISH_TAG_MASK :: u16 where "NULLISH_TAG_MASK = 0xFFFD"

definition CANONICAL_NAN :: u64 where
  "CANONICAL_NAN = NOT (push_bit TAG_SHIFT (ucast NAN_TAG))"

subsection \<open>Constructors\<close>

definition value_undefined :: "value" where
  "value_undefined = push_bit TAG_SHIFT (ucast UNDEFINED_TAG)"

definition value_null :: "value" where
  "value_null = push_bit TAG_SHIFT (ucast NULL_TAG)"

definition value_empty :: "value" where
  "value_empty = push_bit TAG_SHIFT (ucast EMPTY_TAG)"

definition value_bool :: "bool \<Rightarrow> value" where
  "value_bool b = push_bit TAG_SHIFT (ucast BOOL_TAG) OR of_bool b"

definition value_smi :: "u32 \<Rightarrow> value" where
  "value_smi i = push_bit TAG_SHIFT (ucast SMI_TAG) OR ucast i"

definition value_double :: "f64 \<Rightarrow> value" where
  "value_double d = NOT d"

definition value_nan :: "value" where
  "value_nan = CANONICAL_NAN"

definition value_uninit :: "value" where
  "value_uninit = value_empty"

definition value_heap_item :: "u64 \<Rightarrow> value" where
  "value_heap_item p = p"

definition DOUBLE_POSITIVE_ZERO :: u64 where "DOUBLE_POSITIVE_ZERO = value_double f64_positive_zero"
definition DOUBLE_NEGATIVE_ZERO :: u64 where "DOUBLE_NEGATIVE_ZERO = value_double f64_negative_zero"
definition POSITIVE_INFINITY :: u64 where "POSITIVE_INFINITY = value_double f64_infinity"
definition TRUE_BITS :: u64 where "TRUE_BITS = value_bool True"
definition FALSE_BITS :: u64 where "FALSE_BITS = value_bool False"
definition SMI_ZERO :: u64 where "SMI_ZERO = value_smi 0"

definition value_number :: "f64 \<Rightarrow> value" where
  "value_number v =
     (if f64_eq (f64_trunc v) v \<and> (f64_le I32_MIN_F64 v \<and> f64_le v I32_MAX_F64) \<and>
         v \<noteq> f64_negative_zero
      then value_smi (of_int (f64_to_i32 v))
      else if f64_is_nan v then value_nan
      else value_double v)"

subsection \<open>Type tests\<close>

definition get_tag :: "value \<Rightarrow> u16" where
  "get_tag v = ucast (drop_bit TAG_SHIFT v)"

definition has_tag :: "value \<Rightarrow> u16 \<Rightarrow> bool" where
  "has_tag v t \<longleftrightarrow> get_tag v = t"

definition is_pointer :: "value \<Rightarrow> bool" where "is_pointer v = has_tag v POINTER_TAG"
definition is_undefined :: "value \<Rightarrow> bool" where "is_undefined v = has_tag v UNDEFINED_TAG"
definition is_null :: "value \<Rightarrow> bool" where "is_null v = has_tag v NULL_TAG"
definition is_bool :: "value \<Rightarrow> bool" where "is_bool v = has_tag v BOOL_TAG"
definition is_empty :: "value \<Rightarrow> bool" where "is_empty v = has_tag v EMPTY_TAG"
definition is_smi :: "value \<Rightarrow> bool" where "is_smi v = has_tag v SMI_TAG"

definition is_nan :: "value \<Rightarrow> bool" where
  "is_nan v \<longleftrightarrow> v = CANONICAL_NAN"

definition is_double :: "value \<Rightarrow> bool" where
  "is_double v \<longleftrightarrow> NOT v AND NOT CANONICAL_NAN \<noteq> NOT CANONICAL_NAN \<or> is_nan v"

definition is_number :: "value \<Rightarrow> bool" where
  "is_number v \<longleftrightarrow> is_smi v \<or> is_double v"

definition is_infinity :: "value \<Rightarrow> bool" where
  "is_infinity v \<longleftrightarrow> v OR push_bit 63 1 = POSITIVE_INFINITY"

definition is_positive_zero :: "value \<Rightarrow> bool" where
  "is_positive_zero v \<longleftrightarrow> v = DOUBLE_POSITIVE_ZERO \<or> is_smi v \<and> v = SMI_ZERO"

definition is_negative_zero :: "value \<Rightarrow> bool" where
  "is_negative_zero v \<longleftrightarrow> v = DOUBLE_NEGATIVE_ZERO"

definition is_zero :: "value \<Rightarrow> bool" where
  "is_zero v \<longleftrightarrow> v OR push_bit 63 1 = DOUBLE_POSITIVE_ZERO"

definition is_true :: "value \<Rightarrow> bool" where "is_true v \<longleftrightarrow> v = TRUE_BITS"
definition is_false :: "value \<Rightarrow> bool" where "is_false v \<longleftrightarrow> v = FALSE_BITS"

definition is_nullish :: "value \<Rightarrow> bool" where
  "is_nullish v \<longleftrightarrow> get_tag v AND NULLISH_TAG_MASK = NULL_TAG"

subsection \<open>Type casts\<close>

definition as_double :: "value \<Rightarrow> f64" where
  "as_double v = NOT v"

definition as_bool :: "value \<Rightarrow> bool" where
  "as_bool v \<longleftrightarrow> v AND 1 \<noteq> 0"

definition as_smi :: "value \<Rightarrow> u32" where
  "as_smi v = ucast v"

definition as_number :: "value \<Rightarrow> f64" where
  "as_number v = (if is_smi v then f64_of_int (sint (as_smi v)) else as_double v)"

definition as_pointer :: "value \<Rightarrow> u64" where
  "as_pointer v = v"

text \<open>The conversions \<open>From<u32>\<close>, \<open>From<u64>\<close> and \<open>From<i64>\<close>.\<close>

definition value_from_u32 :: "u32 \<Rightarrow> value" where
  "value_from_u32 n = (if n > 0x7FFFFFFF then value_double (f64_of_int (uint n)) else value_smi n)"

definition value_from_u64 :: "u64 \<Rightarrow> value" where
  "value_from_u64 n =
     (if n > 0x7FFFFFFF then value_double (f64_of_int (uint n)) else value_smi (ucast n))"

definition value_from_i64 :: "u64 \<Rightarrow> value" where
  "value_from_i64 n =
     (if sint n > 2 ^ 31 - 1 \<or> sint n < - (2 ^ 31) then value_double (f64_of_int (sint n))
      else value_smi (ucast n))"

subsection \<open>Tags of the bit patterns\<close>

lemma tag_values [box_simps]:
  "POINTER_TAG = 0" "UNDEFINED_TAG = 0x8006" "NULL_TAG = 0x8004" "EMPTY_TAG = 0x8005"
  "BOOL_TAG = 0x8003" "SMI_TAG = 0x8001"
  by (simp_all add: POINTER_TAG_def UNDEFINED_TAG_def NULL_TAG_def EMPTY_TAG_def BOOL_TAG_def
      SMI_TAG_def NAN_TAG_def)

lemma canonical_nan_value: "CANONICAL_NAN = 0x8007FFFFFFFFFFFF"
  by (simp add: CANONICAL_NAN_def TAG_SHIFT_def NAN_TAG_def push_bit_of_Suc_0)

lemma bit_get_tag: "bit (get_tag v) n \<longleftrightarrow> n < 16 \<and> bit v (n + 48)"
  by (auto simp: get_tag_def TAG_SHIFT_def bit_unsigned_iff bit_drop_bit_eq add.commute
      dest: bit_imp_le_length)

lemma get_tag_box:
  assumes "drop_bit 48 p = 0"
  shows "get_tag (push_bit TAG_SHIFT (ucast t) OR p) = t"
proof (rule bit_word_eqI)
  fix n assume "n < LENGTH(16)"
  moreover have "\<not> bit p (n + 48)"
    using arg_cong [OF assms, of "\<lambda>w. bit w n"] by (simp add: bit_simps add.commute)
  ultimately show "bit (get_tag (push_bit TAG_SHIFT (ucast t) OR p)) n = bit t n"
    by (simp add: bit_get_tag TAG_SHIFT_def bit_simps)
qed

lemma drop_ucast_u32 [simp]: "drop_bit 48 (ucast (i :: u32) :: u64) = 0"
  by (rule bit_word_eqI) (auto simp: bit_simps dest: bit_imp_le_length)

lemma get_tag_constructors [simp]:
  "get_tag value_undefined = UNDEFINED_TAG" "get_tag value_null = NULL_TAG"
  "get_tag value_empty = EMPTY_TAG" "get_tag (value_bool b) = BOOL_TAG"
  "get_tag (value_smi i) = SMI_TAG"
  using get_tag_box [of 0] get_tag_box [of "of_bool b" BOOL_TAG]
  by (simp_all add: value_undefined_def value_null_def value_empty_def value_bool_def
      value_smi_def get_tag_box)

lemma get_tag_nan [simp]: "get_tag CANONICAL_NAN = 0x8007"
  by (simp add: canonical_nan_value get_tag_def TAG_SHIFT_def)

lemma is_double_tag: "is_double v \<longleftrightarrow> get_tag v AND NAN_TAG \<noteq> 0 \<or> v = CANONICAL_NAN"
proof -
  have "NOT v AND push_bit 48 (ucast NAN_TAG) = push_bit 48 (ucast NAN_TAG) \<longleftrightarrow>
      get_tag v AND NAN_TAG = 0"
  proof
    assume *: "NOT v AND push_bit 48 (ucast NAN_TAG) = push_bit 48 (ucast NAN_TAG)"
    show "get_tag v AND NAN_TAG = 0"
    proof (rule bit_word_eqI)
      fix n assume "n < LENGTH(16)"
      then show "bit (get_tag v AND NAN_TAG) n = bit 0 n"
        using arg_cong [OF *, of "\<lambda>w. bit w (n + 48)"]
        by (auto simp: bit_and_iff bit_not_iff bit_push_bit_iff bit_unsigned_iff bit_get_tag)
    qed
  next
    assume *: "get_tag v AND NAN_TAG = 0"
    show "NOT v AND push_bit 48 (ucast NAN_TAG) = push_bit 48 (ucast NAN_TAG)"
    proof (rule bit_word_eqI)
      fix n assume "n < LENGTH(64)"
      then show "bit (NOT v AND push_bit 48 (ucast NAN_TAG)) n = bit (push_bit 48 (ucast NAN_TAG) :: u64) n"
        using arg_cong [OF *, of "\<lambda>w. bit w (n - 48)"]
        by (auto simp: bit_and_iff bit_not_iff bit_push_bit_iff bit_unsigned_iff bit_get_tag)
    qed
  qed
  then show ?thesis
    by (simp add: is_double_def is_nan_def CANONICAL_NAN_def TAG_SHIFT_def)
qed

lemmas type_tests = is_pointer_def is_undefined_def is_null_def is_bool_def is_empty_def is_smi_def
  has_tag_def is_double_tag

text \<open>The tests of the seven kinds, in the order in which \<open>debug_format\<close> tries them.\<close>

definition kind_tests :: "value \<Rightarrow> bool list" where
  "kind_tests v = [is_bool v, is_smi v, is_double v, is_undefined v, is_null v, is_empty v, is_pointer v]"

text \<open>
  The type tests never overlap: whatever its 64 bits, a word answers at most one of the seven
  tests for bool, smi, double, undefined, null, empty and pointer.
\<close>

theorem kind_tests_exclusive: "length (filter (\<lambda>b. b) (kind_tests v)) \<le> 1"
proof -
  have nan: "get_tag v = 0x8007" if "v = CANONICAL_NAN" using that by simp
  show ?thesis
    by (cases "get_tag v \<in> {POINTER_TAG, UNDEFINED_TAG, NULL_TAG, EMPTY_TAG, BOOL_TAG, SMI_TAG}")
      (use nan in \<open>auto simp: kind_tests_def type_tests box_simps NAN_TAG_def\<close>)
qed

text \<open>
  The combined test for \<open>null\<close> and \<open>undefined\<close>, one mask and one comparison, is
  the disjunction of the two tests, on every bit pattern.
\<close>

theorem is_nullish_iff: "is_nullish v \<longleftrightarrow> is_undefined v \<or> is_null v"
proof
  assume "is_nullish v"
  then have n: "get_tag v AND 0xFFFD = 0x8004"
    by (simp add: is_nullish_def NULLISH_TAG_MASK_def box_simps)
  have m: "(0xFFFD :: u16) = NOT 2" by simp
  have "get_tag v = (get_tag v AND 0xFFFD) OR (get_tag v AND 2)"
    unfolding m by (simp only: bit.conj_disj_distrib [symmetric] bit.disj_cancel_left bit.conj_one_right)
  moreover have "get_tag v AND 2 = 0 \<or> get_tag v AND 2 = 2"
    by (cases "bit (get_tag v) 1") (auto intro!: bit_word_eqI simp: bit_simps)
  ultimately have "get_tag v = 0x8004 \<or> get_tag v = 0x8006"
    using n by auto
  then show "is_undefined v \<or> is_null v"
    by (auto simp: type_tests box_simps)
qed (auto simp: type_tests box_simps is_nullish_def NULLISH_TAG_MASK_def)

subsection \<open>Casts undo constructors\<close>

lemma as_smi_value_smi [simp]: "as_smi (value_smi i) = i"
proof (rule bit_word_eqI)
  fix n assume "n < LENGTH(32)"
  then show "bit (as_smi (value_smi i)) n = bit i n"
    by (simp add: as_smi_def value_smi_def TAG_SHIFT_def bit_unsigned_iff bit_or_iff bit_push_bit_iff)
qed

lemma is_smi_value_smi [simp]: "is_smi (value_smi i)"
  by (simp add: type_tests)

lemma as_bool_value_bool [simp]: "as_bool (value_bool b) = b"
proof -
  have "value_bool b AND 1 = of_bool b"
    by (rule bit_word_eqI)
      (auto simp: value_bool_def TAG_SHIFT_def bit_and_iff bit_or_iff bit_push_bit_iff bit_1_iff bit_of_bool_iff)
  then show ?thesis by (simp add: as_bool_def)
qed

text \<open>A double whose quiet NaN bits are all set is a NaN, so boxed doubles carry no tag.\<close>

lemma f64_is_nan_iff: "f64_is_nan d \<longleftrightarrow> f64_mag d > 2047 * 2 ^ 52"
proof -
  have "f64_exp d < 2048"
    using f64_mag_lt [of d] unfolding f64_exp_def by (simp add: less_mult_imp_div_less)
  then show ?thesis
    unfolding f64_is_nan_def using f64_mag_split [of d] f64_mant_lt [of d] by auto
qed

lemma get_tag_not: "get_tag (NOT d) = NOT (get_tag d)"
  by (rule bit_word_eqI) (auto simp: bit_get_tag bit_not_iff)

lemma double_tag_nonzero:
  assumes "\<not> f64_is_nan d"
  shows "get_tag (NOT d) AND NAN_TAG \<noteq> 0"
proof
  assume *: "get_tag (NOT d) AND NAN_TAG = 0"
  have nt: "NAN_TAG = push_bit 3 (mask 12)" by (simp add: NAN_TAG_def mask_eq_exp_minus_1)
  have "take_bit 12 (drop_bit 51 d) = mask 12"
  proof (rule bit_word_eqI)
    fix n assume "n < LENGTH(64)"
    then show "bit (take_bit 12 (drop_bit 51 d)) n = bit (mask 12 :: u64) n"
      using arg_cong [OF *, of "\<lambda>w. bit w (n + 3)"]
      by (auto simp: nt bit_and_iff bit_not_iff bit_push_bit_iff bit_mask_iff bit_take_bit_iff
          bit_drop_bit_eq bit_get_tag ac_simps)
  qed
  from arg_cong [OF this, of unat] have "unat d div 2 ^ 51 mod 2 ^ 12 = 4095"
    by (simp only: unsigned_take_bit_eq unat_drop_bit) (simp add: take_bit_eq_mod mask_eq_exp_minus_1)
  moreover have "f64_mag d = 2 ^ 51 * (unat d div 2 ^ 51 mod 2 ^ 12) + unat d mod 2 ^ 51"
    using mod_mult2_eq [of "unat d" "2 ^ 51" "2 ^ 12"] by (simp add: f64_mag_def)
  ultimately have "f64_mag d > 2047 * 2 ^ 52" by simp
  with assms show False by (simp add: f64_is_nan_iff)
qed

lemma is_double_value_double: "\<not> f64_is_nan d \<Longrightarrow> is_double (value_double d)"
  by (simp add: is_double_tag value_double_def double_tag_nonzero)

lemma not_smi_value_double: "\<not> f64_is_nan d \<Longrightarrow> \<not> is_smi (value_double d)"
  using double_tag_nonzero [of d]
  by (auto simp: type_tests value_double_def box_simps NAN_TAG_def)

lemma nan_is_nan: "f64_is_nan (NOT CANONICAL_NAN)"
  by (simp add: canonical_nan_value f64_is_nan_iff f64_mag_def)

text \<open>
  The casts undo the constructors and each constructor's value passes its own type test: for
  every bool, every 32-bit integer, every double that is not a NaN and every pointer whose top 16
  bits are zero.
\<close>

theorem constructors_roundtrip:
  assumes "\<not> f64_is_nan d" and "p < 2 ^ 48"
  shows "is_bool (value_bool b) \<and> as_bool (value_bool b) = b \<and>
         is_smi (value_smi i) \<and> as_smi (value_smi i) = i \<and>
         is_double (value_double d) \<and> as_double (value_double d) = d \<and>
         is_pointer (value_heap_item p) \<and> as_pointer (value_heap_item p) = p"
proof (intro conjI)
  show "is_bool (value_bool b)" by (simp add: type_tests)
  show "is_double (value_double d)" by (rule is_double_value_double [OF assms(1)])
  show "as_double (value_double d) = d" by (simp add: as_double_def value_double_def)
  have "drop_bit 48 p = 0"
    unfolding word_eq_iff_unsigned [where ?'a = nat] unat_drop_bit
    using assms(2) by (simp add: word_less_nat_alt)
  then show "is_pointer (value_heap_item p)"
    by (simp add: is_pointer_def has_tag_def POINTER_TAG_def get_tag_def TAG_SHIFT_def value_heap_item_def)
qed (simp_all add: as_pointer_def value_heap_item_def)

theorem constructors_roundtrip_witness:
  "is_double (value_double 0x3FF8000000000000) \<and> is_pointer (value_heap_item 0x7F0000001018) \<and>
   as_bool (value_bool True) \<and> as_smi (value_smi 7) = 7"
  using constructors_roundtrip [of "0x3FF8000000000000" "0x7F0000001018" True 7]
  by (simp add: f64_is_nan_iff f64_mag_def)

subsection \<open>Numbers survive boxing\<close>

lemma f64_small_trunc:
  assumes "f64_exp v < 1023" "f64_eq (f64_trunc v) v" "v \<noteq> f64_negative_zero"
  shows "v = f64_positive_zero"
proof -
  have "f64_key v = 0"
    using assms(1,2) by (simp add: f64_eq_def f64_trunc_def f64_key_def Let_def split: if_splits)
  then have "f64_key v = f64_key f64_positive_zero"
    by (simp add: f64_key_def f64_zeros)
  then show ?thesis using assms(3) by (auto simp: f64_key_eq_cases)
qed

lemma f64_i32_range:
  assumes "f64_le I32_MIN_F64 v" "f64_le v I32_MAX_F64"
  shows "f64_exp v \<le> 1054" "\<not> f64_sign v \<Longrightarrow> f64_exp v \<le> 1053"
    "f64_exp v = 1054 \<Longrightarrow> f64_sign v \<and> f64_mant v = 0"
proof -
  have k: "f64_key I32_MIN_F64 = - (1054 * 2 ^ 52)" "f64_key I32_MAX_F64 < 1054 * 2 ^ 52"
    by (simp_all add: f64_key_def f64_sign_def f64_mag_def I32_MIN_F64_def I32_MAX_F64_def)
  have m: "f64_mag v \<le> 1054 * 2 ^ 52" "\<not> f64_sign v \<Longrightarrow> f64_mag v < 1054 * 2 ^ 52"
    using assms k by (auto simp: f64_le_def f64_key_def split: if_splits)
  then show "f64_exp v \<le> 1054"
    using f64_mag_split [of v] by simp
  show p: "\<not> f64_sign v \<Longrightarrow> f64_exp v \<le> 1053"
    using m(2) f64_mag_split [of v] by simp
  show "f64_exp v = 1054 \<Longrightarrow> f64_sign v \<and> f64_mant v = 0"
    using m(1) p f64_mag_split [of v] by auto
qed

lemma f64_trunc_dvd:
  assumes "1023 \<le> f64_exp v" "f64_exp v \<le> 1054" "f64_eq (f64_trunc v) v"
  shows "2 ^ (1075 - f64_exp v) dvd f64_mag v"
proof -
  let ?d = "2 ^ (1075 - f64_exp v) :: nat"
  have "f64_mag v div ?d * ?d < 2 ^ 63"
    using f64_mag_lt [of v] div_times_less_eq_dividend [of "f64_mag v" ?d] by (rule le_less_trans [rotated])
  then have "f64_key (f64_trunc v) = (if f64_sign v then - 1 else 1) * int (f64_mag v div ?d * ?d)"
    using assms(1,2) by (simp add: f64_trunc_def f64_key_def Let_def)
  then have "f64_mag v div ?d * ?d = f64_mag v"
    using assms(3) by (simp add: f64_eq_def f64_key_def split: if_splits flip: of_nat_mult)
  then show ?thesis by (metis dvd_triv_right)
qed

lemma sint_of_i32: "- (2 ^ 31) \<le> i \<Longrightarrow> i < 2 ^ 31 \<Longrightarrow> sint (of_int i :: u32) = i"
  by (simp add: signed_of_int signed_take_bit_int_eq_self)

lemma f64_int_part_bounds:
  assumes "f64_exp v \<le> 1054" "\<not> f64_sign v \<Longrightarrow> f64_exp v \<le> 1053"
    "f64_exp v = 1054 \<Longrightarrow> f64_sign v \<and> f64_mant v = 0"
  shows "- (2 ^ 31) \<le> f64_int_part v \<and> f64_int_part v < 2 ^ 31"
proof (cases "f64_exp v < 1054")
  case True
  let ?n = "(2 ^ 52 + f64_mant v) * 2 ^ f64_exp v"
  have "(2::nat) ^ f64_exp v \<le> 2 ^ 1053" by (rule power_increasing) (use True in simp_all)
  moreover have "2 ^ 52 + f64_mant v < 2 ^ 53" using f64_mant_lt [of v] by simp
  ultimately have "?n < 2 ^ 53 * 2 ^ 1053" by (intro mult_less_le_imp_less) simp_all
  also have "\<dots> = 2 ^ 31 * (2::nat) ^ 1075" by (simp only: power_add [symmetric]) simp
  finally have "?n div 2 ^ 1075 < 2 ^ 31" by (rule less_mult_imp_div_less)
  then show ?thesis unfolding f64_int_part_def Let_def by auto
next
  case False
  then have e: "f64_exp v = 1054" "f64_sign v" "f64_mant v = 0" using assms by auto
  have "(2 ^ 52 + 0) * 2 ^ 1054 div 2 ^ 1075 = (2::nat) ^ 31"
    by (simp only: add_0_right power_add [symmetric] power_diff_power_eq) simp
  then show ?thesis using e(2) unfolding f64_int_part_def Let_def e(1,3) by simp
qed

lemma number_smi_branch:
  assumes "f64_eq (f64_trunc v) v" and r: "f64_le I32_MIN_F64 v" "f64_le v I32_MAX_F64"
    and "v \<noteq> f64_negative_zero"
  shows "f64_of_int (sint (of_int (f64_to_i32 v) :: u32)) = v"
proof (cases "f64_exp v < 1023")
  case True
  then have v: "v = f64_positive_zero" by (rule f64_small_trunc [OF _ assms(1,4)])
  then have "f64_to_i32 v = 0"
    using True by (simp add: f64_to_i32_def f64_int_part_def f64_zeros Let_def)
  then show ?thesis
    by (simp add: v f64_of_int_def f64_of_nat_def f64_pack_def f64_positive_zero_def)
next
  case False
  note e = f64_i32_range [OF r]
  have d: "2 ^ (1075 - f64_exp v) dvd f64_mag v"
    using False e(1) assms(1) by (intro f64_trunc_dvd) simp_all
  note rt = f64_int_roundtrip [OF _ e(1) d]
  have "- (2 ^ 31) \<le> f64_int_part v \<and> f64_int_part v < 2 ^ 31"
    using f64_int_part_bounds [OF e] False by simp
  moreover have "\<not> f64_is_nan v" using r by (simp add: f64_le_def)
  ultimately have "f64_to_i32 v = f64_int_part v" and "sint (of_int (f64_int_part v) :: u32) = f64_int_part v"
    by (simp_all add: f64_to_i32_def sint_of_i32)
  then show ?thesis using rt(1) False by simp
qed

text \<open>
  C23: boxing a number and reading it back returns the same bit pattern for every double that is not
  a NaN, negative zero, infinities and subnormal numbers included, although \<open>Value::number\<close>
  stores integers of the 32-bit range as small integers; every NaN becomes the canonical one.
\<close>

theorem number_roundtrip:
  "is_number (value_number v) \<and>
   as_number (value_number v) = (if f64_is_nan v then NOT CANONICAL_NAN else v)"
proof -
  consider (smi) "f64_eq (f64_trunc v) v" "f64_le I32_MIN_F64 v" "f64_le v I32_MAX_F64"
      "v \<noteq> f64_negative_zero"
    | (nan) "f64_is_nan v"
    | (double) "\<not> f64_is_nan v" "value_number v = value_double v"
    unfolding value_number_def by argo
  then show ?thesis
  proof cases
    case smi
    then have "\<not> f64_is_nan v" by (simp add: f64_eq_def)
    with smi number_smi_branch [OF smi] show ?thesis
      by (simp add: value_number_def as_number_def is_number_def)
  next
    case nan
    then have "value_number v = CANONICAL_NAN"
      by (simp add: value_number_def f64_eq_def value_nan_def)
    then show ?thesis
      using nan by (simp add: is_number_def as_number_def as_double_def type_tests box_simps)
  next
    case double
    then show ?thesis
      using is_double_value_double [of v] not_smi_value_double [of v]
      by (simp add: is_number_def as_number_def as_double_def value_double_def)
  qed
qed

end
