(* ===== verification/Constant_Table.thy ===== *)
theory Constant_Table
  imports Bytecode_Operand Value "HOL-Library.Multiset"
begin

unbundle bit_operations_syntax

section \<open>The constant table of a function\<close>

text \<open>
  \<open>runtime/bytecode/constant_table_builder.rs\<close> and \<open>constant_table.rs\<close>. While
  generating a function, constants get indices from three ranges by operand width; forward jumps
  reserve an entry before their offset is known and later commit or give it back. The hash map of
  constants is an association list searched with the entries' own equality; the counters are naturals,
  which the invariant keeps within 32 bits. An underflow or an access out of range is a panic, the
  value \<open>None\<close>.
\<close>

datatype constant_entry =
    String "value"
  | HeapItem "value" nat
  | Double "value"
  | BytecodeOffset u64

text \<open>Whether the stored word is a value, or raw bits that the collector must not visit.\<close>

primrec to_value :: "constant_entry \<Rightarrow> value \<times> bool" where
  "to_value (String v) = (v, True)"
| "to_value (HeapItem v key) = (v, True)"
| "to_value (Double v) = (v, True)"
| "to_value (BytecodeOffset offset) = (offset, False)"

fun entry_eq :: "constant_entry \<Rightarrow> constant_entry \<Rightarrow> bool" where
  "entry_eq (String a) (String b) = (a = b)"
| "entry_eq (HeapItem a k) (HeapItem b l) = (k = l)"
| "entry_eq (Double a) (Double b) = (a = b)"
| "entry_eq (BytecodeOffset a) (BytecodeOffset b) = (a = b)"
| "entry_eq _ _ = False"

record constant_table_builder =
  constants :: "(constant_entry \<times> nat) list"
  narrow_allocated :: nat
  narrow_reserved :: nat
  wide_allocated :: nat
  wide_reserved :: nat
  extra_wide_allocated :: nat
  extra_wide_reserved :: nat
  duplicates :: "(constant_entry \<times> nat) list"
  num_heap_items :: nat

definition NUM_NARROW_ENTRIES :: nat where "NUM_NARROW_ENTRIES = UNSIGNED_MAX Narrow + 1"
definition FIRST_WIDE_INDEX :: nat where "FIRST_WIDE_INDEX = NUM_NARROW_ENTRIES"
definition NUM_WIDE_ENTRIES :: nat where "NUM_WIDE_ENTRIES = UNSIGNED_MAX Wide - FIRST_WIDE_INDEX + 1"
definition FIRST_EXTRA_WIDE_INDEX :: nat where "FIRST_EXTRA_WIDE_INDEX = NUM_NARROW_ENTRIES + NUM_WIDE_ENTRIES"
definition NUM_EXTRA_WIDE_ENTRIES :: nat where
  "NUM_EXTRA_WIDE_ENTRIES = UNSIGNED_MAX ExtraWide - FIRST_EXTRA_WIDE_INDEX + 1"

definition ct_builder_new :: constant_table_builder where
  "ct_builder_new =
     \<lparr>constants = [], narrow_allocated = 0, narrow_reserved = 0, wide_allocated = 0, wide_reserved = 0,
      extra_wide_allocated = 0, extra_wide_reserved = 0, duplicates = [], num_heap_items = 0\<rparr>"

text \<open>\<open>get\<close> and \<open>insert\<close> of the hash map.\<close>

definition constants_get :: "(constant_entry \<times> nat) list \<Rightarrow> constant_entry \<Rightarrow> nat option" where
  "constants_get cs k = map_option snd (find (\<lambda>(k', _). entry_eq k' k) cs)"

definition constants_insert :: "(constant_entry \<times> nat) list \<Rightarrow> constant_entry \<Rightarrow> nat \<Rightarrow> (constant_entry \<times> nat) list" where
  "constants_insert cs k v =
     (if constants_get cs k = None then cs @ [(k, v)]
      else map (\<lambda>(k', i). if entry_eq k' k then (k', v) else (k', i)) cs)"

definition next_index_width :: "constant_table_builder \<Rightarrow> emit_error + width_enum" where
  "next_index_width b =
     (if narrow_allocated b + narrow_reserved b < NUM_NARROW_ENTRIES then Inr Narrow
      else if wide_allocated b + wide_reserved b < NUM_WIDE_ENTRIES then Inr Wide
      else if extra_wide_allocated b + extra_wide_reserved b < NUM_EXTRA_WIDE_ENTRIES then Inr ExtraWide
      else Inl ConstantTableTooLarge)"

text \<open>The next index of a range and the builder with that index allocated.\<close>

definition allocate_index :: "constant_table_builder \<Rightarrow> width_enum \<Rightarrow> nat \<times> constant_table_builder" where
  "allocate_index b width =
     (case width of
        Narrow \<Rightarrow> (narrow_allocated b, b\<lparr>narrow_allocated := narrow_allocated b + 1\<rparr>)
      | Wide \<Rightarrow> (wide_allocated b + FIRST_WIDE_INDEX, b\<lparr>wide_allocated := wide_allocated b + 1\<rparr>)
      | ExtraWide \<Rightarrow>
          (extra_wide_allocated b + FIRST_EXTRA_WIDE_INDEX, b\<lparr>extra_wide_allocated := extra_wide_allocated b + 1\<rparr>))"

definition insert_if_missing ::
  "constant_table_builder \<Rightarrow> constant_entry \<Rightarrow> emit_error + nat \<times> constant_table_builder" where
  "insert_if_missing b key =
     (case constants_get (constants b) key of
        Some i \<Rightarrow> Inr (i, b)
      | None \<Rightarrow>
          (case next_index_width b of
             Inl e \<Rightarrow> Inl e
           | Inr width \<Rightarrow>
               (let (next_index, b) = allocate_index b width
                in Inr (next_index, b\<lparr>constants := constants_insert (constants b) key next_index\<rparr>))))"

definition reserve_entry :: "constant_table_builder \<Rightarrow> emit_error + width_enum \<times> constant_table_builder" where
  "reserve_entry b =
     (case next_index_width b of
        Inl e \<Rightarrow> Inl e
      | Inr width \<Rightarrow> Inr (width, case width of
            Narrow \<Rightarrow> b\<lparr>narrow_reserved := narrow_reserved b + 1\<rparr>
          | Wide \<Rightarrow> b\<lparr>wide_reserved := wide_reserved b + 1\<rparr>
          | ExtraWide \<Rightarrow> b\<lparr>extra_wide_reserved := extra_wide_reserved b + 1\<rparr>))"

definition remove_reserved :: "constant_table_builder \<Rightarrow> width_enum \<Rightarrow> constant_table_builder option" where
  "remove_reserved b width =
     (case width of
        Narrow \<Rightarrow> if narrow_reserved b = 0 then None else Some (b\<lparr>narrow_reserved := narrow_reserved b - 1\<rparr>)
      | Wide \<Rightarrow> if wide_reserved b = 0 then None else Some (b\<lparr>wide_reserved := wide_reserved b - 1\<rparr>)
      | ExtraWide \<Rightarrow>
          if extra_wide_reserved b = 0 then None else Some (b\<lparr>extra_wide_reserved := extra_wide_reserved b - 1\<rparr>))"

text \<open>The common part of the narrow and wide cases, after the reservation is released.\<close>

definition commit_in_range ::
  "constant_table_builder \<Rightarrow> width_enum \<Rightarrow> constant_entry \<Rightarrow> nat \<times> constant_table_builder" where
  "commit_in_range b width key =
     (case constants_get (constants b) key of
        Some i \<Rightarrow>
          if min_width_for_unsigned i \<le> width then (i, b)
          else (let b = b\<lparr>duplicates := duplicates b @ [(key, i)]\<rparr>; (next_index, b) = allocate_index b width
                in (next_index, b\<lparr>constants := constants_insert (constants b) key next_index\<rparr>))
      | None \<Rightarrow>
          (let (next_index, b) = allocate_index b width
           in (next_index, b\<lparr>constants := constants_insert (constants b) key next_index\<rparr>)))"

definition commit_reserved_bytecode_offset ::
  "constant_table_builder \<Rightarrow> width_enum \<Rightarrow> u64 \<Rightarrow> (nat \<times> constant_table_builder) option" where
  "commit_reserved_bytecode_offset b width offset =
     (let key = BytecodeOffset offset in
      case width of
        ExtraWide \<Rightarrow>
          (case constants_get (constants b) key of
             Some i \<Rightarrow> Some (i, b)
           | None \<Rightarrow> do { b' \<leftarrow> remove_reserved b ExtraWide; Some (allocate_index b' ExtraWide) })
      | _ \<Rightarrow> do { b' \<leftarrow> remove_reserved b width; Some (commit_in_range b' width key) })"

definition add_string :: "constant_table_builder \<Rightarrow> value \<Rightarrow> emit_error + nat \<times> constant_table_builder" where
  "add_string b s = insert_if_missing b (String s)"

definition add_heap_item :: "constant_table_builder \<Rightarrow> value \<Rightarrow> emit_error + nat \<times> constant_table_builder" where
  "add_heap_item b item =
     (let key = num_heap_items b
      in insert_if_missing (b\<lparr>num_heap_items := key + 1\<rparr>) (HeapItem item key))"

definition add_double :: "constant_table_builder \<Rightarrow> f64 \<Rightarrow> emit_error + nat \<times> constant_table_builder" where
  "add_double b d = insert_if_missing b (Double (value_number d))"

definition add_bytecode_offset :: "constant_table_builder \<Rightarrow> u64 \<Rightarrow> emit_error + nat \<times> constant_table_builder" where
  "add_bytecode_offset b offset = insert_if_missing b (BytecodeOffset offset)"

subsection \<open>The finished table\<close>

record constant_table =
  ct_constants :: "value list"
  ct_metadata :: "u8 list"

definition calculate_metadata_size :: "nat \<Rightarrow> nat" where
  "calculate_metadata_size n = (n + 7) div 8"

definition get_constant :: "constant_table \<Rightarrow> nat \<Rightarrow> value option" where
  "get_constant t i = (if i < length (ct_constants t) then Some (ct_constants t ! i) else None)"

definition ct_is_value :: "constant_table \<Rightarrow> nat \<Rightarrow> bool option" where
  "ct_is_value t i =
     (if i div 8 < length (ct_metadata t) then Some ((ct_metadata t ! (i div 8)) AND push_bit (i mod 8) 1 = 0) else None)"

definition set_metadata :: "u8 list \<Rightarrow> nat \<Rightarrow> bool \<Rightarrow> u8 list" where
  "set_metadata meta i is_value =
     (if is_value then meta else meta[i div 8 := (meta ! (i div 8)) OR push_bit (i mod 8) 1])"

definition num_constants :: "constant_table_builder \<Rightarrow> nat" where
  "num_constants b =
     (if extra_wide_allocated b > 0 then FIRST_EXTRA_WIDE_INDEX + extra_wide_allocated b
      else if wide_allocated b > 0 then FIRST_WIDE_INDEX + wide_allocated b
      else narrow_allocated b)"

text \<open>Slots that no constant fills become undefined.\<close>

definition put_constant :: "constant_table \<Rightarrow> constant_entry \<times> nat \<Rightarrow> constant_table" where
  "put_constant t c =
     \<lparr>ct_constants = (ct_constants t)[snd c := fst (to_value (fst c))],
      ct_metadata = set_metadata (ct_metadata t) (snd c) (snd (to_value (fst c)))\<rparr>"

primrec place_constants :: "constant_table \<Rightarrow> (constant_entry \<times> nat) list \<Rightarrow> constant_table option" where
  "place_constants t [] = Some t"
| "place_constants t (c # cs) =
     (if snd c < length (ct_constants t) then place_constants (put_constant t c) cs else None)"

definition ct_finish :: "constant_table_builder \<Rightarrow> constant_table option option" where
  "ct_finish b =
     (if narrow_reserved b \<noteq> 0 \<or> wide_reserved b \<noteq> 0 \<or> extra_wide_reserved b \<noteq> 0 then None
      else if num_constants b = 0 then Some None
      else do { t \<leftarrow> place_constants
                  \<lparr>ct_constants = replicate (num_constants b) value_undefined,
                   ct_metadata = replicate (calculate_metadata_size (num_constants b)) 0\<rparr>
                  (constants b @ duplicates b);
                Some (Some t) })"

subsection \<open>Index ranges\<close>

lemma range_values [width_simps]:
  "NUM_NARROW_ENTRIES = 256" "FIRST_WIDE_INDEX = 256" "NUM_WIDE_ENTRIES = 65280" "FIRST_EXTRA_WIDE_INDEX = 65536"
  "NUM_EXTRA_WIDE_ENTRIES = 4294901760"
  by (simp_all add: NUM_NARROW_ENTRIES_def FIRST_WIDE_INDEX_def NUM_WIDE_ENTRIES_def FIRST_EXTRA_WIDE_INDEX_def
      NUM_EXTRA_WIDE_ENTRIES_def width_values)

definition in_bounds :: "constant_table_builder \<Rightarrow> bool" where
  "in_bounds b \<longleftrightarrow>
     narrow_allocated b + narrow_reserved b \<le> NUM_NARROW_ENTRIES \<and>
     wide_allocated b + wide_reserved b \<le> NUM_WIDE_ENTRIES \<and>
     extra_wide_allocated b + extra_wide_reserved b \<le> NUM_EXTRA_WIDE_ENTRIES"

definition room :: "constant_table_builder \<Rightarrow> width_enum \<Rightarrow> bool" where
  "room b width \<longleftrightarrow>
     (case width of
        Narrow \<Rightarrow> narrow_allocated b + narrow_reserved b < NUM_NARROW_ENTRIES
      | Wide \<Rightarrow> wide_allocated b + wide_reserved b < NUM_WIDE_ENTRIES
      | ExtraWide \<Rightarrow> extra_wide_allocated b + extra_wide_reserved b < NUM_EXTRA_WIDE_ENTRIES)"

definition valid_index :: "constant_table_builder \<Rightarrow> nat \<Rightarrow> bool" where
  "valid_index b i \<longleftrightarrow>
     i < narrow_allocated b \<or>
     FIRST_WIDE_INDEX \<le> i \<and> i < FIRST_WIDE_INDEX + wide_allocated b \<or>
     FIRST_EXTRA_WIDE_INDEX \<le> i \<and> i < FIRST_EXTRA_WIDE_INDEX + extra_wide_allocated b"

lemma allocate_index_fresh:
  assumes "allocate_index b width = (i, b')" "in_bounds b" "room b width"
  shows "in_bounds b'" "\<not> valid_index b i" "valid_index b' j \<longleftrightarrow> valid_index b j \<or> j = i"
    "min_width_for_unsigned i \<le> width" "constants b' = constants b" "duplicates b' = duplicates b"
    "num_heap_items b' = num_heap_items b" "narrow_reserved b' = narrow_reserved b"
    "wide_reserved b' = wide_reserved b" "extra_wide_reserved b' = extra_wide_reserved b"
  using assms
  by (cases width; auto simp: allocate_index_def in_bounds_def room_def valid_index_def min_width_for_unsigned_def
      less_eq_width_enum_def width_simps)+

lemma valid_index_bounds: "in_bounds b \<Longrightarrow> valid_index b i \<Longrightarrow> i < num_constants b \<and> i < 2 ^ 32"
  by (auto simp: in_bounds_def valid_index_def num_constants_def width_simps)

subsection \<open>The map of constants\<close>

primrec entry_id :: "constant_entry \<Rightarrow> constant_entry" where
  "entry_id (String a) = String a"
| "entry_id (HeapItem a k) = HeapItem 0 k"
| "entry_id (Double a) = Double a"
| "entry_id (BytecodeOffset a) = BytecodeOffset a"

lemma entry_eq_id: "entry_eq a b \<longleftrightarrow> entry_id a = entry_id b"
  by (cases a; cases b) auto

abbreviation ids :: "(constant_entry \<times> nat) list \<Rightarrow> constant_entry list" where
  "ids cs \<equiv> map (\<lambda>c. entry_id (fst c)) cs"

lemma constants_get_None: "constants_get cs k = None \<longleftrightarrow> entry_id k \<notin> set (ids cs)"
  by (force simp: constants_get_def find_None_iff entry_eq_id)

lemma constants_get_Some: "constants_get cs k = Some i \<Longrightarrow> \<exists>k'. (k', i) \<in> set cs \<and> entry_id k' = entry_id k"
  by (auto simp: constants_get_def find_Some_iff entry_eq_id) (metis nth_mem prod.collapse)

lemma constants_overwrite:
  assumes "distinct (ids cs)" "(k', i) \<in> set cs" "entry_id k' = entry_id k"
  shows "\<exists>xs ys. cs = xs @ (k', i) # ys \<and> constants_insert cs k v = xs @ (k', v) # ys"
proof -
  obtain xs ys where cs: "cs = xs @ (k', i) # ys" using assms(2) by (meson split_list)
  have "map (\<lambda>(k', i). if entry_eq k' k then (k', v) else (k', i)) zs = zs" if "entry_id k \<notin> set (ids zs)" for zs
    using that by (induction zs) (auto simp: entry_eq_id)
  then have "constants_insert cs k v = xs @ (k', v) # ys"
    using assms cs constants_get_None [of cs k] by (simp add: constants_insert_def entry_eq_id)
  then show ?thesis using cs by blast
qed

subsection \<open>The builder's invariant\<close>

definition ct_pairs :: "constant_table_builder \<Rightarrow> (constant_entry \<times> nat) list" where
  "ct_pairs b = constants b @ duplicates b"

definition ct_inv :: "constant_table_builder \<Rightarrow> bool" where
  "ct_inv b \<longleftrightarrow>
     in_bounds b \<and> (\<forall>c \<in> set (ct_pairs b). valid_index b (snd c)) \<and> distinct (map snd (ct_pairs b)) \<and>
     distinct (ids (constants b)) \<and> (\<forall>v k i. (HeapItem v k, i) \<in> set (constants b) \<longrightarrow> k < num_heap_items b)"

lemma ct_invD:
  assumes "ct_inv b"
  shows "in_bounds b" "c \<in> set (ct_pairs b) \<Longrightarrow> valid_index b (snd c)" "distinct (map snd (ct_pairs b))"
    "distinct (ids (constants b))" "(HeapItem v k, i) \<in> set (constants b) \<Longrightarrow> k < num_heap_items b"
  using assms unfolding ct_inv_def by blast+

text \<open>The invariant does not look at the reservations, beyond the bounds.\<close>

lemma ct_inv_same:
  assumes inv: "ct_inv b" and same: "constants b' = constants b" "duplicates b' = duplicates b"
      "narrow_allocated b' = narrow_allocated b" "wide_allocated b' = wide_allocated b"
      "extra_wide_allocated b' = extra_wide_allocated b" "num_heap_items b \<le> num_heap_items b'"
    and bounds: "in_bounds b'"
  shows "ct_inv b'"
proof -
  have "ct_pairs b' = ct_pairs b" "\<And>i. valid_index b' i = valid_index b i"
    using same by (simp_all add: ct_pairs_def valid_index_def)
  then show ?thesis
    unfolding ct_inv_def using ct_invD [OF inv] bounds same(1,6) by (metis order_less_le_trans)
qed

lemma ct_inv_new: "ct_inv ct_builder_new"
  by (simp add: ct_inv_def ct_builder_new_def in_bounds_def ct_pairs_def)

lemma set_of_add_mset: "mset xs = add_mset x (mset ys) \<Longrightarrow> set xs = insert x (set ys)"
  by (metis set_mset_add_mset_insert set_mset_mset)

lemma ct_inv_extend:
  assumes inv: "ct_inv b" and room: "room b width" and a: "allocate_index b width = (i, b1)"
    and pairs: "mset (ct_pairs b') = add_mset (k, i) (mset (ct_pairs b))"
    and same: "narrow_allocated b' = narrow_allocated b1" "wide_allocated b' = wide_allocated b1"
      "extra_wide_allocated b' = extra_wide_allocated b1" "narrow_reserved b' = narrow_reserved b1"
      "wide_reserved b' = wide_reserved b1" "extra_wide_reserved b' = extra_wide_reserved b1"
    and ids: "distinct (ids (constants b'))"
    and heap: "\<forall>v k i. (HeapItem v k, i) \<in> set (constants b') \<longrightarrow> k < num_heap_items b'"
  shows "ct_inv b'"
proof -
  note f = allocate_index_fresh [OF a _ room]
  have b: "in_bounds b" using inv by (simp add: ct_inv_def)
  have valid: "valid_index b' j \<longleftrightarrow> valid_index b j \<or> j = i" for j
    using f(3) [OF b, of j] same by (simp add: valid_index_def)
  have set: "set (ct_pairs b') = insert (k, i) (set (ct_pairs b))" by (rule set_of_add_mset [OF pairs])
  have "mset (map snd (ct_pairs b')) = mset (i # map snd (ct_pairs b))" using pairs by (simp add: mset_map)
  moreover have "i \<notin> set (map snd (ct_pairs b))" using inv f(2) [OF b] by (auto simp: ct_inv_def)
  then have "distinct (i # map snd (ct_pairs b))" using inv by (simp add: ct_inv_def)
  ultimately have "distinct (map snd (ct_pairs b'))" using mset_eq_imp_distinct_iff by blast
  moreover have "in_bounds b'" using f(1) [OF b] same by (simp add: in_bounds_def)
  moreover have "\<forall>c \<in> set (ct_pairs b'). valid_index b' (snd c)" using inv set valid by (auto simp: ct_inv_def)
  ultimately show ?thesis using ids heap by (simp add: ct_inv_def)
qed

text \<open>Adding a constant: its index is found, or a fresh one is stored with it.\<close>

lemma insert_fresh:
  assumes inv: "ct_inv b" and room: "room b width" and new: "constants_get (constants b) key = None"
    and a: "allocate_index b width = (i, b1)" and heap: "\<forall>v k. key = HeapItem v k \<longrightarrow> k < num_heap_items b"
  shows "ct_inv (b1\<lparr>constants := constants_insert (constants b1) key i\<rparr>)"
    and "set (ct_pairs (b1\<lparr>constants := constants_insert (constants b1) key i\<rparr>)) = insert (key, i) (set (ct_pairs b))"
proof -
  let ?b = "b1\<lparr>constants := constants_insert (constants b1) key i\<rparr>"
  have b: "in_bounds b" using inv by (simp add: ct_inv_def)
  note f = allocate_index_fresh [OF a b room]
  have cs: "constants ?b = constants b @ [(key, i)]" using new f(5) by (simp add: constants_insert_def)
  then have pairs: "mset (ct_pairs ?b) = add_mset (key, i) (mset (ct_pairs b))"
    using f(6) by (simp add: ct_pairs_def)
  then show "set (ct_pairs ?b) = insert (key, i) (set (ct_pairs b))"
    by (rule set_of_add_mset)
  show "ct_inv ?b"
  proof (rule ct_inv_extend [OF inv room a pairs])
    show "distinct (ids (constants ?b))" using cs inv new constants_get_None by (auto simp: ct_inv_def)
    show "\<forall>v k i. (HeapItem v k, i) \<in> set (constants ?b) \<longrightarrow> k < num_heap_items ?b"
      unfolding cs using ct_invD(5) [OF inv] heap f(7) by auto
  qed simp_all
qed

lemma insert_duplicate:
  assumes inv: "ct_inv b" and room: "room b width" and old: "(BytecodeOffset off, j) \<in> set (constants b)"
    and a: "allocate_index (b\<lparr>duplicates := duplicates b @ [(BytecodeOffset off, j)]\<rparr>) width = (i, b1)"
  shows "ct_inv (b1\<lparr>constants := constants_insert (constants b1) (BytecodeOffset off) i\<rparr>)"
    and "set (ct_pairs (b1\<lparr>constants := constants_insert (constants b1) (BytecodeOffset off) i\<rparr>)) =
           insert (BytecodeOffset off, i) (set (ct_pairs b))"
proof -
  let ?d = "b\<lparr>duplicates := duplicates b @ [(BytecodeOffset off, j)]\<rparr>"
  let ?b = "b1\<lparr>constants := constants_insert (constants b1) (BytecodeOffset off) i\<rparr>"
  have d: "in_bounds ?d" "room ?d width"
    using inv room by (cases width; simp add: ct_inv_def in_bounds_def room_def)+
  note f = allocate_index_fresh [OF a d]
  obtain xs ys where cs: "constants b = xs @ (BytecodeOffset off, j) # ys"
      "constants_insert (constants b) (BytecodeOffset off) i = xs @ (BytecodeOffset off, i) # ys"
    using constants_overwrite [OF _ old refl, of i] inv by (auto simp: ct_inv_def)
  then have pairs: "mset (ct_pairs ?b) = add_mset (BytecodeOffset off, i) (mset (ct_pairs b))"
    using f(5,6) by (simp add: ct_pairs_def)
  then show "set (ct_pairs ?b) = insert (BytecodeOffset off, i) (set (ct_pairs b))"
    by (rule set_of_add_mset)
  obtain b0 where a0: "allocate_index b width = (i, b0)" "narrow_allocated b1 = narrow_allocated b0"
      "wide_allocated b1 = wide_allocated b0" "extra_wide_allocated b1 = extra_wide_allocated b0"
      "narrow_reserved b1 = narrow_reserved b0" "wide_reserved b1 = wide_reserved b0"
      "extra_wide_reserved b1 = extra_wide_reserved b0"
    using a by (cases width) (auto simp: allocate_index_def)
  show "ct_inv ?b"
  proof (rule ct_inv_extend [OF inv room a0(1) pairs])
    show "distinct (ids (constants ?b))" using cs inv f(5) by (simp add: ct_inv_def)
    show "\<forall>v k i. (HeapItem v k, i) \<in> set (constants ?b) \<longrightarrow> k < num_heap_items ?b"
      using cs ct_invD(5) [OF inv] f(5,7) by auto
  qed (simp_all add: a0)
qed

lemma next_index_width_room: "next_index_width b = Inr width \<Longrightarrow> room b width"
  by (auto simp: next_index_width_def room_def split: if_splits)

definition same_reserved :: "constant_table_builder \<Rightarrow> constant_table_builder \<Rightarrow> bool" where
  "same_reserved b b' \<longleftrightarrow>
     narrow_reserved b' = narrow_reserved b \<and> wide_reserved b' = wide_reserved b \<and>
     extra_wide_reserved b' = extra_wide_reserved b"

lemma insert_if_missing_step:
  assumes inv: "ct_inv b" and r: "insert_if_missing b key = Inr (i, b')"
    and heap: "\<forall>v k. key = HeapItem v k \<longrightarrow> k < num_heap_items b \<and> constants_get (constants b) key = None"
  shows "ct_inv b'" "(key, i) \<in> set (ct_pairs b')" "set (ct_pairs b) \<subseteq> set (ct_pairs b')" "same_reserved b b'"
proof -
  have "ct_inv b' \<and> (key, i) \<in> set (ct_pairs b') \<and> set (ct_pairs b) \<subseteq> set (ct_pairs b') \<and> same_reserved b b'"
  proof (cases "constants_get (constants b) key")
    case None
    then obtain width where w: "next_index_width b = Inr width"
      using r by (auto simp: insert_if_missing_def split: sum.splits)
    obtain j b1 where a: "allocate_index b width = (j, b1)" by (cases "allocate_index b width")
    have "i = j" "b' = b1\<lparr>constants := constants_insert (constants b1) key j\<rparr>"
      using r None w a by (auto simp: insert_if_missing_def)
    then show ?thesis
      using insert_fresh [OF inv next_index_width_room [OF w] None a] heap
        allocate_index_fresh(8-10) [OF a _ next_index_width_room [OF w]] inv
      by (auto simp: same_reserved_def ct_inv_def)
  next
    case (Some j)
    then have "i = j" "b' = b" using r by (simp_all add: insert_if_missing_def)
    moreover obtain k' where "(k', j) \<in> set (constants b)" "entry_id k' = entry_id key"
      using constants_get_Some [OF Some] by blast
    moreover have "k' = key" using calculation(4) heap Some by (cases key; cases k') auto
    ultimately show ?thesis using inv by (simp add: ct_pairs_def same_reserved_def)
  qed
  then show "ct_inv b'" "(key, i) \<in> set (ct_pairs b')" "set (ct_pairs b) \<subseteq> set (ct_pairs b')" "same_reserved b b'"
    by simp_all
qed

lemma remove_reserved_step:
  assumes inv: "ct_inv b" and r: "remove_reserved b width = Some b'"
  shows "ct_inv b'" "room b' width" "constants b' = constants b" "duplicates b' = duplicates b"
    "num_heap_items b' = num_heap_items b"
proof -
  show same: "constants b' = constants b" "duplicates b' = duplicates b" "num_heap_items b' = num_heap_items b"
    using r by (cases width; simp add: remove_reserved_def split: if_splits; fastforce)+
  show "room b' width"
    using r ct_invD(1) [OF inv] by (cases width) (auto simp: remove_reserved_def room_def in_bounds_def split: if_splits)
  show "ct_inv b'"
  proof (rule ct_inv_same [OF inv same(1,2)])
    show "in_bounds b'"
      using r ct_invD(1) [OF inv] by (cases width) (auto simp: remove_reserved_def in_bounds_def split: if_splits)
  qed (use r in \<open>cases width; auto simp: remove_reserved_def split: if_splits\<close>)+
qed

lemma commit_step:
  assumes inv: "ct_inv b" and r: "remove_reserved b width = Some b1"
    and c: "commit_in_range b1 width (BytecodeOffset off) = (i, b')"
  shows "ct_inv b' \<and> (BytecodeOffset off, i) \<in> set (ct_pairs b') \<and> set (ct_pairs b) \<subseteq> set (ct_pairs b') \<and>
         same_reserved b1 b' \<and> min_width_for_unsigned i \<le> width"
proof -
  let ?key = "BytecodeOffset off"
  note b1 = remove_reserved_step [OF inv r]
  have pairs: "ct_pairs b1 = ct_pairs b" using b1(3,4) by (simp add: ct_pairs_def)
  show ?thesis
  proof (cases "constants_get (constants b1) ?key")
    case None
    obtain j b2 where a: "allocate_index b1 width = (j, b2)" by (cases "allocate_index b1 width")
    have "i = j" "b' = b2\<lparr>constants := constants_insert (constants b2) ?key j\<rparr>"
      using c None a by (auto simp: commit_in_range_def)
    then show ?thesis
      using insert_fresh [OF b1(1,2) None a] allocate_index_fresh(4,8-10) [OF a _ b1(2)] b1(1) pairs
      by (auto simp: same_reserved_def ct_inv_def)
  next
    case (Some j)
    obtain k' where k': "(k', j) \<in> set (constants b1)" "entry_id k' = entry_id ?key"
      using constants_get_Some [OF Some] by blast
    then have old: "(?key, j) \<in> set (constants b1)" by (cases k') auto
    show ?thesis
    proof (cases "min_width_for_unsigned j \<le> width")
      case True
      then have "i = j" "b' = b1" using c Some by (simp_all add: commit_in_range_def)
      then show ?thesis using True old b1(1,3,4) by (simp add: ct_pairs_def same_reserved_def)
    next
      case False
      let ?d = "b1\<lparr>duplicates := duplicates b1 @ [(?key, j)]\<rparr>"
      obtain n b2 where a: "allocate_index ?d width = (n, b2)" by (cases "allocate_index ?d width")
      have eq: "i = n" "b' = b2\<lparr>constants := constants_insert (constants b2) ?key n\<rparr>"
        using c Some False a by (auto simp: commit_in_range_def)
      have d: "in_bounds ?d" "room ?d width"
        using b1(1,2) by (cases width; simp add: ct_inv_def in_bounds_def room_def)+
      show ?thesis
        using insert_duplicate [OF b1(1,2) old a] allocate_index_fresh(4,8-10) [OF a d] pairs
        by (auto simp: eq same_reserved_def)
    qed
  qed
qed

subsection \<open>The builder and its clients\<close>

text \<open>
  A generator run: the builder, the widths of the reservations that are neither committed nor given
  back, and the constants added so far with the indices returned for them. Commits of extra wide
  reservations are left out: what they do is stated separately below.
\<close>

type_synonym ct_state = "constant_table_builder \<times> width_enum list \<times> (constant_entry \<times> nat) list"

inductive ct_step :: "ct_state \<Rightarrow> ct_state \<Rightarrow> bool" where
  add_string: "add_string b v = Inr (i, b') \<Longrightarrow> ct_step (b, rs, hs) (b', rs, (String v, i) # hs)"
| add_heap_item: "add_heap_item b v = Inr (i, b') \<Longrightarrow>
    ct_step (b, rs, hs) (b', rs, (HeapItem v (num_heap_items b), i) # hs)"
| add_double: "add_double b d = Inr (i, b') \<Longrightarrow> ct_step (b, rs, hs) (b', rs, (Double (value_number d), i) # hs)"
| add_bytecode_offset: "add_bytecode_offset b off = Inr (i, b') \<Longrightarrow>
    ct_step (b, rs, hs) (b', rs, (BytecodeOffset off, i) # hs)"
| reserve: "reserve_entry b = Inr (w, b') \<Longrightarrow> ct_step (b, rs, hs) (b', w # rs, hs)"
| remove: "remove_reserved b w = Some b' \<Longrightarrow> w \<in> set rs \<Longrightarrow> ct_step (b, rs, hs) (b', remove1 w rs, hs)"
| commit: "commit_reserved_bytecode_offset b w off = Some (i, b') \<Longrightarrow> w \<in> set rs \<Longrightarrow> w \<noteq> ExtraWide \<Longrightarrow>
    ct_step (b, rs, hs) (b', remove1 w rs, (BytecodeOffset off, i) # hs)"

definition reserved_ok :: "constant_table_builder \<Rightarrow> width_enum list \<Rightarrow> bool" where
  "reserved_ok b rs \<longleftrightarrow>
     narrow_reserved b = count_list rs Narrow \<and> wide_reserved b = count_list rs Wide \<and>
     extra_wide_reserved b = count_list rs ExtraWide"

definition ct_state_inv :: "ct_state \<Rightarrow> bool" where
  "ct_state_inv s \<longleftrightarrow>
     (case s of (b, rs, hs) \<Rightarrow> ct_inv b \<and> reserved_ok b rs \<and> set hs \<subseteq> set (ct_pairs b))"

lemma count_list_remove1: "count_list (remove1 x xs) y = (if y = x then count_list xs y - 1 else count_list xs y)"
  by (induction xs) auto

lemma reserved_ok_remove:
  assumes "reserved_ok b rs" "remove_reserved b w = Some b'"
  shows "reserved_ok b' (remove1 w rs)"
proof -
  show ?thesis
    using assms by (cases w) (auto simp: reserved_ok_def remove_reserved_def count_list_remove1 split: if_splits)
qed

lemma remove_reserved_defined: "reserved_ok b rs \<Longrightarrow> w \<in> set rs \<Longrightarrow> \<exists>b'. remove_reserved b w = Some b'"
  by (cases w) (auto simp: reserved_ok_def remove_reserved_def count_list_0_iff)

lemma ct_state_inv_add:
  assumes "ct_state_inv (b, rs, hs)" "insert_if_missing b key = Inr (i, b')" "\<And>v k. key \<noteq> HeapItem v k"
  shows "ct_state_inv (b', rs, (key, i) # hs)"
  using assms insert_if_missing_step [of b key i b']
  by (auto simp: ct_state_inv_def reserved_ok_def same_reserved_def)

lemma ct_state_inv_add_heap_item:
  assumes inv: "ct_state_inv (b, rs, hs)" and r: "add_heap_item b v = Inr (i, b')"
  shows "ct_state_inv (b', rs, (HeapItem v (num_heap_items b), i) # hs)"
proof -
  let ?b = "b\<lparr>num_heap_items := num_heap_items b + 1\<rparr>" and ?key = "HeapItem v (num_heap_items b)"
  have b: "ct_inv b" "reserved_ok b rs" "set hs \<subseteq> set (ct_pairs b)" using inv by (simp_all add: ct_state_inv_def)
  have inv': "ct_inv ?b"
    by (rule ct_inv_same [OF b(1)]) (use ct_invD(1) [OF b(1)] in \<open>simp_all add: in_bounds_def\<close>)
  have new: "constants_get (constants ?b) ?key = None"
  proof (rule ccontr)
    assume "constants_get (constants ?b) ?key \<noteq> None"
    then obtain j where "constants_get (constants b) ?key = Some j" by auto
    then obtain k' where "(k', j) \<in> set (constants b)" "entry_id k' = entry_id ?key"
      using constants_get_Some by blast
    then show False using ct_invD(5) [OF b(1)] by (cases k') auto
  qed
  have "insert_if_missing ?b ?key = Inr (i, b')" using r by (simp add: add_heap_item_def Let_def)
  note st = insert_if_missing_step [OF inv' this]
  have "ct_pairs ?b = ct_pairs b" by (simp add: ct_pairs_def)
  then show ?thesis
    using st new b by (auto simp: ct_state_inv_def reserved_ok_def same_reserved_def)
qed

lemma ct_state_inv_reserve:
  assumes inv: "ct_state_inv (b, rs, hs)" and r: "reserve_entry b = Inr (w, b')"
  shows "ct_state_inv (b', w # rs, hs)"
proof -
  have b: "ct_inv b" "reserved_ok b rs" "set hs \<subseteq> set (ct_pairs b)" using inv by (simp_all add: ct_state_inv_def)
  have w: "next_index_width b = Inr w" using r by (auto simp: reserve_entry_def split: sum.splits)
  have b': "b' = (case w of Narrow \<Rightarrow> b\<lparr>narrow_reserved := narrow_reserved b + 1\<rparr>
      | Wide \<Rightarrow> b\<lparr>wide_reserved := wide_reserved b + 1\<rparr>
      | ExtraWide \<Rightarrow> b\<lparr>extra_wide_reserved := extra_wide_reserved b + 1\<rparr>)"
    using r w by (simp add: reserve_entry_def)
  have "in_bounds b'"
    using ct_invD(1) [OF b(1)] next_index_width_room [OF w] by (cases w) (simp_all add: b' in_bounds_def room_def)
  then have "ct_inv b'" by (rule ct_inv_same [OF b(1), rotated 6]) (cases w; simp add: b')+
  moreover have "ct_pairs b' = ct_pairs b" "reserved_ok b' (w # rs)"
    using b(2) by (cases w; simp add: b' ct_pairs_def reserved_ok_def)+
  ultimately show ?thesis using b(3) by (simp add: ct_state_inv_def)
qed

lemma commit_reserved_cases:
  assumes "ct_inv b" "reserved_ok b rs" "w \<in> set rs" "w \<noteq> ExtraWide"
  shows "\<exists>b1 i b'. remove_reserved b w = Some b1 \<and> commit_in_range b1 w (BytecodeOffset off) = (i, b') \<and>
           commit_reserved_bytecode_offset b w off = Some (i, b')"
proof -
  obtain b1 where b1: "remove_reserved b w = Some b1" using remove_reserved_defined [OF assms(2,3)] by blast
  obtain i b' where c: "commit_in_range b1 w (BytecodeOffset off) = (i, b')"
    by (cases "commit_in_range b1 w (BytecodeOffset off)")
  have "commit_reserved_bytecode_offset b w off = Some (i, b')"
    using assms(4) b1 c by (cases w) (simp_all add: commit_reserved_bytecode_offset_def)
  then show ?thesis using b1 c by blast
qed

lemma ct_state_inv_commit:
  assumes inv: "ct_state_inv (b, rs, hs)" and w: "w \<in> set rs" "w \<noteq> ExtraWide"
    and r: "commit_reserved_bytecode_offset b w off = Some (i, b')"
  shows "ct_state_inv (b', remove1 w rs, (BytecodeOffset off, i) # hs)" "min_width_for_unsigned i \<le> w"
proof -
  have b: "ct_inv b" "reserved_ok b rs" "set hs \<subseteq> set (ct_pairs b)" using inv by (simp_all add: ct_state_inv_def)
  obtain b1 where b1: "remove_reserved b w = Some b1" "commit_in_range b1 w (BytecodeOffset off) = (i, b')"
    using commit_reserved_cases [OF b(1,2) w, of off] r by auto
  note c = commit_step [OF b(1) b1]
  then show "min_width_for_unsigned i \<le> w" by blast
  have "reserved_ok b' (remove1 w rs)"
    using reserved_ok_remove [OF b(2) b1(1)] c by (simp add: reserved_ok_def same_reserved_def)
  then show "ct_state_inv (b', remove1 w rs, (BytecodeOffset off, i) # hs)"
    using c b(3) by (simp add: ct_state_inv_def) blast
qed

lemma ct_state_inv_step: "ct_step s s' \<Longrightarrow> ct_state_inv s \<Longrightarrow> ct_state_inv s'"
proof (induction rule: ct_step.induct)
  case (remove b w b' rs hs)
  then have "ct_inv b" "reserved_ok b rs" "set hs \<subseteq> set (ct_pairs b)" by (simp_all add: ct_state_inv_def)
  then show ?case
    using remove_reserved_step [of b w b'] reserved_ok_remove [of b rs w b'] remove(1)
    by (simp add: ct_state_inv_def ct_pairs_def)
qed (simp_all add: add_string_def add_double_def add_bytecode_offset_def ct_state_inv_add ct_state_inv_add_heap_item
    ct_state_inv_reserve ct_state_inv_commit)

lemma ct_state_inv_reachable: "ct_step\<^sup>*\<^sup>* (ct_builder_new, [], []) s \<Longrightarrow> ct_state_inv s"
proof (induction rule: rtranclp_induct)
  case base
  show ?case using ct_inv_new by (simp add: ct_state_inv_def reserved_ok_def ct_builder_new_def)
qed (rule ct_state_inv_step)

subsection \<open>The finished table\<close>

definition raw_bit :: "u8 list \<Rightarrow> nat \<Rightarrow> bool" where
  "raw_bit meta i = bit (meta ! (i div 8)) (i mod 8)"

lemma raw_bit_set_metadata:
  assumes "i div 8 < length meta"
  shows "raw_bit (set_metadata meta i is_value) j \<longleftrightarrow> raw_bit meta j \<or> \<not> is_value \<and> j = i"
proof (cases "j div 8 = i div 8")
  case True
  then have "j = i \<longleftrightarrow> j mod 8 = i mod 8" by (metis div_mult_mod_eq)
  moreover have "j mod 8 < 8" by simp
  ultimately show ?thesis using assms True by (auto simp: raw_bit_def set_metadata_def bit_simps)
next
  case False
  then show ?thesis by (auto simp: raw_bit_def set_metadata_def)
qed

lemma length_set_metadata [simp]: "length (set_metadata meta i v) = length meta"
  by (simp add: set_metadata_def)

definition metadata_fits :: "constant_table \<Rightarrow> bool" where
  "metadata_fits t \<longleftrightarrow> length (ct_metadata t) = calculate_metadata_size (length (ct_constants t))"

lemma metadata_index: "metadata_fits t \<Longrightarrow> i < length (ct_constants t) \<Longrightarrow> i div 8 < length (ct_metadata t)"
  by (simp add: metadata_fits_def calculate_metadata_size_def)

lemma ct_is_value_raw:
  "metadata_fits t \<Longrightarrow> i < length (ct_constants t) \<Longrightarrow> ct_is_value t i = Some (\<not> raw_bit (ct_metadata t) i)"
  by (simp add: ct_is_value_def metadata_index raw_bit_def bit_iff_and_push_bit_not_eq_0)

definition holds_at :: "constant_table \<Rightarrow> constant_entry \<times> nat \<Rightarrow> bool" where
  "holds_at t c \<longleftrightarrow>
     ct_constants t ! snd c = fst (to_value (fst c)) \<and> raw_bit (ct_metadata t) (snd c) = (\<not> snd (to_value (fst c)))"

definition same_at :: "constant_table \<Rightarrow> constant_table \<Rightarrow> nat \<Rightarrow> bool" where
  "same_at t t' j \<longleftrightarrow>
     ct_constants t' ! j = ct_constants t ! j \<and> raw_bit (ct_metadata t') j = raw_bit (ct_metadata t) j"

lemma put_constant_step:
  assumes "metadata_fits t" "snd c < length (ct_constants t)"
  shows "metadata_fits (put_constant t c)" "length (ct_constants (put_constant t c)) = length (ct_constants t)"
    "\<not> raw_bit (ct_metadata t) (snd c) \<Longrightarrow> holds_at (put_constant t c) c"
    "j \<noteq> snd c \<Longrightarrow> same_at t (put_constant t c) j"
  using assms raw_bit_set_metadata [OF metadata_index [OF assms]]
  by (simp_all add: put_constant_def metadata_fits_def holds_at_def same_at_def)

lemma holds_at_same: "same_at t t' (snd c) \<Longrightarrow> holds_at t' c = holds_at t c"
  by (simp add: holds_at_def same_at_def)

lemma place_constants_correct:
  assumes "metadata_fits t" "distinct (map snd cs)" "\<forall>c \<in> set cs. snd c < length (ct_constants t)"
    "\<forall>c \<in> set cs. \<not> raw_bit (ct_metadata t) (snd c)"
  shows "\<exists>t'. place_constants t cs = Some t' \<and> metadata_fits t' \<and> length (ct_constants t') = length (ct_constants t) \<and>
           (\<forall>c \<in> set cs. holds_at t' c) \<and> (\<forall>j. j \<notin> snd ` set cs \<longrightarrow> same_at t t' j)"
  using assms
proof (induction cs arbitrary: t)
  case Nil
  then show ?case by (simp add: same_at_def)
next
  case (Cons c cs)
  let ?t = "put_constant t c"
  have i: "snd c < length (ct_constants t)" "snd c \<notin> snd ` set cs" using Cons.prems by auto
  note p = put_constant_step [OF Cons.prems(1) i(1)]
  have low: "\<forall>c \<in> set cs. \<not> raw_bit (ct_metadata ?t) (snd c)"
  proof
    fix d assume d: "d \<in> set cs"
    then have "snd d \<noteq> snd c" using i(2) by (metis imageI)
    from p(4) [OF this] show "\<not> raw_bit (ct_metadata ?t) (snd d)" using Cons.prems(4) d by (simp add: same_at_def)
  qed
  obtain t' where t': "place_constants ?t cs = Some t'" "metadata_fits t'" "length (ct_constants t') = length (ct_constants ?t)"
      "\<forall>c \<in> set cs. holds_at t' c" "\<And>j. j \<notin> snd ` set cs \<Longrightarrow> same_at ?t t' j"
    using Cons.IH [OF p(1) _ _ low] Cons.prems(2,3) p(2) by auto
  have "holds_at t' c" using holds_at_same [OF t'(5) [OF i(2)]] p(3) Cons.prems(4) by simp
  moreover have "same_at t t' j" if "j \<notin> snd ` set (c # cs)" for j
    using t'(5) [of j] p(4) [of j] that by (simp add: same_at_def)
  moreover have "place_constants t (c # cs) = Some t'" using t'(1) i(1) by simp
  ultimately show ?case using t'(2-4) p(2) by (intro exI [of _ t']) simp
qed

lemma ct_finish_correct:
  assumes inv: "ct_inv b" and free: "narrow_reserved b = 0" "wide_reserved b = 0" "extra_wide_reserved b = 0"
    and some: "num_constants b > 0"
  shows "\<exists>t. ct_finish b = Some (Some t) \<and>
           (\<forall>c \<in> set (ct_pairs b). get_constant t (snd c) = Some (fst (to_value (fst c))) \<and>
              ct_is_value t (snd c) = Some (snd (to_value (fst c)))) \<and>
           (\<forall>j < num_constants b. j \<notin> snd ` set (ct_pairs b) \<longrightarrow>
              get_constant t j = Some value_undefined \<and> ct_is_value t j = Some True)"
proof -
  let ?n = "num_constants b"
  let ?t0 = "\<lparr>ct_constants = replicate ?n value_undefined, ct_metadata = replicate (calculate_metadata_size ?n) 0\<rparr>"
  have idx: "snd c < ?n" if "c \<in> set (ct_pairs b)" for c
    using valid_index_bounds [OF ct_invD(1) [OF inv] ct_invD(2) [OF inv that]] by simp
  have fits: "metadata_fits ?t0" by (simp add: metadata_fits_def)
  have zero: "\<not> raw_bit (ct_metadata ?t0) j" if "j < ?n" for j
    using metadata_index [OF fits, of j] that by (simp add: raw_bit_def)
  obtain t where t: "place_constants ?t0 (ct_pairs b) = Some t" "metadata_fits t" "length (ct_constants t) = ?n"
      "\<forall>c \<in> set (ct_pairs b). holds_at t c" "\<forall>j. j \<notin> snd ` set (ct_pairs b) \<longrightarrow> same_at ?t0 t j"
    using place_constants_correct [OF fits ct_invD(3) [OF inv]] idx zero by auto
  have "ct_finish b = Some (Some t)" using t(1) free some by (simp add: ct_finish_def ct_pairs_def)
  moreover have "get_constant t (snd c) = Some (fst (to_value (fst c))) \<and> ct_is_value t (snd c) = Some (snd (to_value (fst c)))"
    if "c \<in> set (ct_pairs b)" for c
    using t(3,4) idx [OF that] that by (simp add: get_constant_def ct_is_value_raw [OF t(2)] holds_at_def)
  moreover have "get_constant t j = Some value_undefined \<and> ct_is_value t j = Some True"
    if "j < ?n" "j \<notin> snd ` set (ct_pairs b)" for j
    using t(3,5) that zero [of j] by (simp add: get_constant_def ct_is_value_raw [OF t(2)] same_at_def)
  ultimately show ?thesis by blast
qed



text \<open>
  The extra wide case loses the offset: committing it allocates an index but stores nothing
  under it, and the finished table has undefined there, which a constant jump would take for its
  offset.
\<close>

theorem extra_wide_offset_lost:
  assumes inv: "ct_inv b" and new: "constants_get (constants b) (BytecodeOffset off) = None"
    and res: "extra_wide_reserved b = 1" "wide_reserved b = 0" "narrow_reserved b = 0"
  shows "\<exists>i b' t. commit_reserved_bytecode_offset b ExtraWide off = Some (i, b') \<and> ct_finish b' = Some (Some t) \<and>
           get_constant t i = Some value_undefined \<and> ct_is_value t i = Some True"
proof -
  obtain b1 where b1: "remove_reserved b ExtraWide = Some b1" using res by (simp add: remove_reserved_def)
  obtain i b' where a: "allocate_index b1 ExtraWide = (i, b')" by (cases "allocate_index b1 ExtraWide")
  note s = remove_reserved_step [OF inv b1]
  note f = allocate_index_fresh [OF a ct_invD(1) [OF s(1)] s(2)]
  have c: "commit_reserved_bytecode_offset b ExtraWide off = Some (i, b')"
    using new b1 a by (simp add: commit_reserved_bytecode_offset_def)
  have pairs: "ct_pairs b' = ct_pairs b1" using f(5,6) by (simp add: ct_pairs_def)
  have fresh: "i \<notin> snd ` set (ct_pairs b')" using ct_invD(2) [OF s(1)] f(2) by (auto simp: pairs)
  have inv': "ct_inv b'"
    unfolding ct_inv_def pairs f(5) f(7) using ct_invD [OF s(1)] f(1,3) by blast
  have "valid_index b' i" using f(3) by simp
  then have n: "i < num_constants b'" using valid_index_bounds [OF f(1)] by simp
  have "narrow_reserved b' = 0" "wide_reserved b' = 0" "extra_wide_reserved b' = 0"
    using res b1 f(8-10) by (auto simp: remove_reserved_def)
  then show ?thesis using ct_finish_correct [OF inv'] n fresh c by fastforce
qed

theorem extra_wide_offset_lost_witness:
  "\<exists>i b' t. commit_reserved_bytecode_offset
       (ct_builder_new\<lparr>narrow_allocated := 256, wide_allocated := 65280, extra_wide_reserved := 1\<rparr>) ExtraWide 70000
         = Some (i, b') \<and> ct_finish b' = Some (Some t) \<and> get_constant t i = Some value_undefined"
proof -
  let ?b = "ct_builder_new\<lparr>narrow_allocated := 256, wide_allocated := 65280, extra_wide_reserved := 1\<rparr>"
  have "ct_inv ?b" by (simp add: ct_inv_def ct_builder_new_def in_bounds_def ct_pairs_def width_simps)
  from extra_wide_offset_lost [OF this, of 70000] show ?thesis
    by (auto simp: ct_builder_new_def constants_get_def)
qed

end
