(* ===== verification/Forward_Jumps.thy ===== *)
theory Forward_Jumps
  imports Bytecode_Writer Constant_Table
begin

unbundle bit_operations_syntax

section \<open>Blocks and jumps\<close>

text \<open>
  The part of \<open>runtime/bytecode/generator.rs\<close> that emits jumps between blocks, and the
  jump handlers of \<open>vm.rs\<close> that run them. A jump to a block that has started gets its offset
  at once, in the instruction or in the constant table; a jump to a later block gets a dummy operand
  of the width for which the constant table reserved an entry, and is patched when the block starts:
  in place if the offset fits the operand, else into the constant form of the jump. Offsets are
  natural numbers; a buffer holds less than \<open>2 ^ 63\<close> bytes, the limit of \<open>Vec\<close>.

  The theorem of this theory ties the writer, the constant table, the instruction table and the
  decoder together: every jump of the finished function lands at its block.
\<close>

record jump_info =
  ji_offset :: nat
  ji_width :: width_enum

datatype jump_operand = RelativeOffset u32 | ConstantIndex u32

record gen =
  g_writer :: bytecode_writer
  g_constants :: constant_table_builder
  g_block_offsets :: "nat \<rightharpoonup> nat"
  g_unresolved :: "nat \<rightharpoonup> jump_info list"
  g_num_blocks :: nat

definition gen_new :: gen where
  "gen_new =
     \<lparr>g_writer = writer_new, g_constants = ct_builder_new, g_block_offsets = Map.empty,
      g_unresolved = Map.empty, g_num_blocks = 0\<rparr>"

definition new_block :: "gen \<Rightarrow> nat \<times> gen" where
  "new_block g = (g_num_blocks g, g\<lparr>g_num_blocks := g_num_blocks g + 1\<rparr>)"

definition set_jump_offset_operand :: "bytecode_writer \<Rightarrow> decode_info \<Rightarrow> u64 \<Rightarrow> bytecode_writer option" where
  "set_jump_offset_operand w di offset =
     (let operand_index = jump_operand_index (unat (di_opcode di));
          operand_offset = di_opcode_index di + 1 + operand_index * num_bytes (di_width di)
      in case di_width di of
           Narrow \<Rightarrow> set_u8 w operand_offset (ucast offset)
         | Wide \<Rightarrow> set_u16 w operand_offset (ucast offset)
         | ExtraWide \<Rightarrow> set_u32 w operand_offset (ucast offset))"

definition patch_forward_jump :: "gen \<Rightarrow> jump_info \<Rightarrow> nat \<Rightarrow> gen option" where
  "patch_forward_jump g info target_block =
     do { target_offset \<leftarrow> g_block_offsets g target_block;
          if target_offset < ji_offset info then None
          else do {
            let relative_offset = (of_nat (target_offset - ji_offset info) :: u64);
            di \<leftarrow> decode_width_and_opcode_at_index (w_bytes (g_writer g)) (ji_offset info);
            if min_width_for_signed (sint relative_offset) \<le> di_width di \<and>
               (try_from_signed relative_offset :: u32 option) \<noteq> None
            then do {
              ct \<leftarrow> remove_reserved (g_constants g) (ji_width info);
              w \<leftarrow> set_jump_offset_operand (g_writer g) di relative_offset;
              Some (g\<lparr>g_writer := w, g_constants := ct\<rparr>) }
            else do {
              (constant_index, ct) \<leftarrow>
                commit_reserved_bytecode_offset (g_constants g) (ji_width info) relative_offset;
              w \<leftarrow> set_jump_offset_operand (g_writer g) di (of_nat constant_index);
              w \<leftarrow> set_u8 w (di_opcode_index di) (di_opcode di + 1);
              Some (g\<lparr>g_writer := w, g_constants := ct\<rparr>) } } }"

primrec patch_all :: "gen \<Rightarrow> jump_info list \<Rightarrow> nat \<Rightarrow> gen option" where
  "patch_all g [] block = Some g"
| "patch_all g (info # infos) block = do { g' \<leftarrow> patch_forward_jump g info block; patch_all g' infos block }"

definition start_block :: "gen \<Rightarrow> nat \<Rightarrow> gen option" where
  "start_block g block =
     (let g = g\<lparr>g_block_offsets := (g_block_offsets g)(block \<mapsto> current_offset (g_writer g))\<rparr>
      in case g_unresolved g block of
           None \<Rightarrow> Some g
         | Some infos \<Rightarrow> patch_all (g\<lparr>g_unresolved := (g_unresolved g)(block := None)\<rparr>) infos block)"

definition jump_target_operand :: "gen \<Rightarrow> nat \<Rightarrow> emit_error + jump_operand \<times> gen" where
  "jump_target_operand g target_block =
     (let jump_offset = current_offset (g_writer g) in
      case g_block_offsets g target_block of
        Some target_block_offset \<Rightarrow>
          (let relative_offset = (of_nat target_block_offset - of_nat jump_offset :: u64) in
           case try_from_signed relative_offset :: u32 option of
             Some operand \<Rightarrow> Inr (RelativeOffset operand, g)
           | None \<Rightarrow>
               (case add_bytecode_offset (g_constants g) relative_offset of
                  Inl e \<Rightarrow> Inl e
                | Inr (constant_index, ct) \<Rightarrow>
                    Inr (ConstantIndex (of_nat constant_index), g\<lparr>g_constants := ct\<rparr>)))
      | None \<Rightarrow>
          (case reserve_entry (g_constants g) of
             Inl e \<Rightarrow> Inl e
           | Inr (constant_table_width, ct) \<Rightarrow>
               (let info = \<lparr>ji_offset = jump_offset, ji_width = constant_table_width\<rparr>;
                    infos = (case g_unresolved g target_block of None \<Rightarrow> [] | Some infos \<Rightarrow> infos) @ [info]
                in Inr (RelativeOffset (of_int (SIGNED_MIN constant_table_width)),
                     g\<lparr>g_constants := ct, g_unresolved := (g_unresolved g)(target_block \<mapsto> infos)\<rparr>))))"

text \<open>
  The jump emitters: the immediate form of an opcode, or its constant form, the next opcode. The
  condition registers come before the jump operand. Jumps do not throw and carry no position.
\<close>

definition write_jump :: "u8 \<Rightarrow> u32 list \<Rightarrow> nat \<Rightarrow> gen \<Rightarrow> emit_error + gen" where
  "write_jump opc conds target_block g =
     (case jump_target_operand g target_block of
        Inl e \<Rightarrow> Inl e
      | Inr (operand, g) \<Rightarrow>
          Inr (g\<lparr>g_writer :=
            (case operand of
               RelativeOffset v \<Rightarrow> write_one (g_writer g) (opc, conds @ [v], NO_POS)
             | ConstantIndex v \<Rightarrow> write_one (g_writer g) (opc + 1, conds @ [v], NO_POS))\<rparr>))"

definition write_jump_instruction :: "nat \<Rightarrow> gen \<Rightarrow> emit_error + gen" where
  "write_jump_instruction target g = write_jump JUMP_OPCODE [] target g"

definition write_jump_true_instruction :: "gen_register \<Rightarrow> nat \<Rightarrow> gen \<Rightarrow> emit_error + gen" where
  "write_jump_true_instruction condition target g = write_jump 60 [condition] target g"

definition write_jump_to_boolean_true_instruction :: "gen_register \<Rightarrow> nat \<Rightarrow> gen \<Rightarrow> emit_error + gen" where
  "write_jump_to_boolean_true_instruction condition target g = write_jump 62 [condition] target g"

definition write_jump_false_instruction :: "gen_register \<Rightarrow> nat \<Rightarrow> gen \<Rightarrow> emit_error + gen" where
  "write_jump_false_instruction condition target g = write_jump 64 [condition] target g"

definition write_jump_to_boolean_false_instruction :: "gen_register \<Rightarrow> nat \<Rightarrow> gen \<Rightarrow> emit_error + gen" where
  "write_jump_to_boolean_false_instruction condition target g = write_jump 66 [condition] target g"

definition write_jump_not_undefined_instruction :: "gen_register \<Rightarrow> nat \<Rightarrow> gen \<Rightarrow> emit_error + gen" where
  "write_jump_not_undefined_instruction condition target g = write_jump 68 [condition] target g"

definition write_jump_nullish_instruction :: "gen_register \<Rightarrow> nat \<Rightarrow> gen \<Rightarrow> emit_error + gen" where
  "write_jump_nullish_instruction condition target g = write_jump 70 [condition] target g"

definition write_jump_not_nullish_instruction :: "gen_register \<Rightarrow> nat \<Rightarrow> gen \<Rightarrow> emit_error + gen" where
  "write_jump_not_nullish_instruction condition target g = write_jump 72 [condition] target g"

definition jump_opcodes :: "(u8 \<times> string) list" where
  "jump_opcodes =
     [(58, ''Jump''), (60, ''JumpTrue''), (62, ''JumpToBooleanTrue''), (64, ''JumpFalse''),
      (66, ''JumpToBooleanFalse''), (68, ''JumpNotUndefined''), (70, ''JumpNullish''), (72, ''JumpNotNullish'')]"

lemma jump_opcodes_named: "list_all (\<lambda>(opc, n). map_option fst (instruction_of opc) = Some n) jump_opcodes"
  by code_simp

text \<open>
  The VM's jump handlers: where a taken jump continues. An immediate jump adds its operand to the
  position of the instruction, prefix included; a constant jump adds the raw offset that the constant
  table holds at the operand's index.
\<close>

definition vm_jump_target :: "u8 list \<Rightarrow> constant_table option \<Rightarrow> nat \<Rightarrow> int option" where
  "vm_jump_target bs table pc =
     do { (opc, vs, after) \<leftarrow> next_instruction bs pc;
          if opc \<in> fst ` set jump_opcodes then Some (int pc + last vs)
          else if opc - 1 \<in> fst ` set jump_opcodes then
            do { t \<leftarrow> table; v \<leftarrow> get_constant t (nat (last vs)); Some (int pc + sint v) }
          else None }"

subsection \<open>The written instructions as a list of items\<close>

text \<open>
  An item is an instruction with the width it was written in, which a patch keeps; the bytes of an
  item depend on its offset through the padding only.
\<close>

type_synonym item = "width_enum \<times> u8 \<times> u32 list"

definition item_bytes :: "nat \<Rightarrow> item \<Rightarrow> u8 list" where
  "item_bytes n it =
     (case it of (width, opc, vs) \<Rightarrow> prefix_bytes n width @ opc # concat (map (operand_bytes width) vs))"

fun stream_bytes :: "nat \<Rightarrow> item list \<Rightarrow> u8 list" where
  "stream_bytes n [] = []"
| "stream_bytes n (it # its) = item_bytes n it @ stream_bytes (n + length (item_bytes n it)) its"

definition item_offset :: "item list \<Rightarrow> nat \<Rightarrow> nat" where
  "item_offset items k = length (stream_bytes 0 (take k items))"

definition same_shape :: "item \<Rightarrow> item \<Rightarrow> bool" where
  "same_shape it it' \<longleftrightarrow>
     (case (it, it') of ((w, _, vs), (w', _, vs')) \<Rightarrow> w = w' \<and> length vs = length vs')"

lemma length_item_bytes:
  "length (item_bytes n (width, opc, vs)) = length (prefix_bytes n width) + 1 + length vs * num_bytes width"
  by (simp add: item_bytes_def length_concat_operands)

lemma same_shape_length: "same_shape it it' \<Longrightarrow> length (item_bytes n it) = length (item_bytes n it')"
  by (cases it; cases it') (simp add: same_shape_def length_item_bytes)

lemma stream_bytes_append:
  "stream_bytes n (xs @ ys) = stream_bytes n xs @ stream_bytes (n + length (stream_bytes n xs)) ys"
  by (induction xs arbitrary: n) (simp_all add: ac_simps)

lemma stream_bytes_at:
  assumes "k < length items"
  shows "stream_bytes 0 items = stream_bytes 0 (take k items) @ item_bytes (item_offset items k) (items ! k) @
           stream_bytes (item_offset items k + length (item_bytes (item_offset items k) (items ! k))) (drop (Suc k) items)"
proof -
  have "items = take k items @ items ! k # drop (Suc k) items" using assms by (rule id_take_nth_drop)
  then have "stream_bytes 0 items = stream_bytes 0 (take k items @ items ! k # drop (Suc k) items)" by simp
  then show ?thesis by (simp add: stream_bytes_append item_offset_def)
qed

lemma item_offset_le: "item_offset items k \<le> length (stream_bytes 0 items)"
proof -
  have "stream_bytes 0 items = stream_bytes 0 (take k items) @ stream_bytes (item_offset items k) (drop k items)"
    using stream_bytes_append [of 0 "take k items" "drop k items"] by (simp add: item_offset_def)
  then show ?thesis by (simp add: item_offset_def)
qed

lemma item_offset_append: "k \<le> length items \<Longrightarrow> item_offset (items @ items2) k = item_offset items k"
  by (simp add: item_offset_def)

lemma item_offset_upd:
  assumes "k < length items" "same_shape (items ! k) it"
  shows "item_offset (items[k := it]) j = item_offset items j"
proof (cases "j \<le> k")
  case True
  then show ?thesis by (simp add: item_offset_def)
next
  case False
  then have t: "take j (items[k := it]) = (take j items)[k := it]" "k < length (take j items)"
    using assms(1) by (simp_all add: take_update_swap)
  have "length (stream_bytes n (xs[i := it])) = length (stream_bytes n xs)" if "i < length xs" "same_shape (xs ! i) it" for n xs i
    using that
  proof (induction xs arbitrary: n i)
    case (Cons x xs)
    then show ?case by (cases i) (simp_all add: same_shape_length)
  qed simp
  from this [OF t(2)] show ?thesis using assms False by (simp add: item_offset_def t(1))
qed

lemma stream_bytes_upd:
  assumes "k < length items" "same_shape (items ! k) it"
  shows "stream_bytes 0 (items[k := it]) = stream_bytes 0 (take k items) @ item_bytes (item_offset items k) it @
           stream_bytes (item_offset items k + length (item_bytes (item_offset items k) (items ! k))) (drop (Suc k) items)"
  using stream_bytes_at [of k "items[k := it]"] assms item_offset_upd [OF assms, of k] same_shape_length [OF assms(2)]
  by simp

text \<open>Decoding an item whose operands fit its width.\<close>

lemma next_instruction_item:
  assumes "opc \<noteq> WIDE_PREFIX" "opc \<noteq> EXTRA_WIDE_PREFIX" "operand_types opc = Some ts" "length vs = length ts"
    and fits: "\<forall>(t, v) \<in> set (zip ts vs). operand_min_width t v \<le> width"
  shows "next_instruction (pre @ item_bytes (length pre) (width, opc, vs) @ post) (length pre) =
           Some (opc, map2 operand_int ts vs, length pre + length (item_bytes (length pre) (width, opc, vs)))"
proof -
  let ?pre = "pre @ prefix_bytes (length pre) width @ [opc]"
  let ?ops = "concat (map (operand_bytes width) vs)"
  have bs: "pre @ item_bytes (length pre) (width, opc, vs) @ post = ?pre @ ?ops @ post"
    by (simp add: item_bytes_def)
  have "read_operands ts width (?pre @ ?ops @ post) (length ?pre) = Some (map2 operand_int ts vs)"
    using assms(4) fits by (intro read_operands_written) simp_all
  moreover have "decode_width_and_opcode_at_index (?pre @ ?ops @ post) (length pre) =
      Some \<lparr>di_width = width, di_opcode = opc, di_opcode_index = length pre + length (prefix_bytes (length pre) width)\<rparr>"
    using decode_width_written [OF assms(1,2), of pre width "?ops @ post"] by simp
  ultimately show ?thesis
    unfolding bs next_instruction_def using assms(3,4) by (simp add: length_item_bytes)
qed

subsection \<open>Patching an item\<close>

lemma set_u8_at:
  "w_bytes w = pre @ b # post \<Longrightarrow> set_u8 w (length pre) v = Some (w\<lparr>w_bytes := pre @ v # post\<rparr>)"
  by (simp add: set_u8_def)

lemma set_operand_at:
  assumes "w_bytes w = pre @ operand_bytes width old @ post" "n = length pre"
  shows "(case width of Narrow \<Rightarrow> set_u8 w n (ucast offset) | Wide \<Rightarrow> set_u16 w n (ucast offset)
          | ExtraWide \<Rightarrow> set_u32 w n (ucast offset)) =
         Some (w\<lparr>w_bytes := pre @ operand_bytes width (ucast (offset :: u64)) @ post\<rparr>)"
proof (cases width)
  case Narrow
  have "(ucast (ucast offset :: u32) :: u8) = ucast offset" by (rule bit_word_eqI) (simp add: bit_simps)
  then show ?thesis using assms Narrow by (simp add: operand_bytes_def set_u8_at)
next
  case Wide
  have "(ucast (ucast offset :: u32) :: u16) = ucast offset" by (rule bit_word_eqI) (simp add: bit_simps)
  then show ?thesis
    using assms Wide by (simp add: operand_bytes_def set_u16_def u16_to_bytes_def set_u8_def list_update_append)
next
  case ExtraWide
  then show ?thesis
    using assms
    by (simp add: operand_bytes_def set_u32_def u32_to_bytes_def set_u8_def list_update_append numeral_eq_Suc)
qed

lemma set_jump_offset_item:
  assumes w: "w_bytes w = pre @ item_bytes (length pre) (width, opc, vs) @ post"
    and j: "jump_operand_index (unat opc) < length vs"
    and di: "di_width di = width" "di_opcode di = opc"
      "di_opcode_index di = length pre + length (prefix_bytes (length pre) width)"
  shows "set_jump_offset_operand w di offset =
           Some (w\<lparr>w_bytes := pre @ item_bytes (length pre) (width, opc, vs[jump_operand_index (unat opc) := ucast offset]) @ post\<rparr>)"
proof -
  let ?j = "jump_operand_index (unat opc)"
  let ?pre = "pre @ prefix_bytes (length pre) width @ opc # concat (map (operand_bytes width) (take ?j vs))"
  let ?post = "concat (map (operand_bytes width) (drop (Suc ?j) vs)) @ post"
  have "concat (map (operand_bytes width) vs) = concat (map (operand_bytes width) (take ?j vs)) @
      operand_bytes width (vs ! ?j) @ concat (map (operand_bytes width) (drop (Suc ?j) vs))"
    using id_take_nth_drop [OF j] by (metis concat.simps(2) concat_append list.simps(9) map_append)
  then have bs: "w_bytes w = ?pre @ operand_bytes width (vs ! ?j) @ ?post" using w by (simp add: item_bytes_def)
  have n: "di_opcode_index di + 1 + ?j * num_bytes width = length ?pre"
    using j di(3) by (simp add: length_concat_operands)
  have "?pre @ operand_bytes width (ucast offset) @ ?post =
      pre @ item_bytes (length pre) (width, opc, vs[?j := ucast offset]) @ post"
    using j by (simp add: item_bytes_def upd_conv_take_nth_drop)
  then show ?thesis
    unfolding set_jump_offset_operand_def Let_def di(1,2) using set_operand_at [OF bs n, of offset] by (simp only:)
qed

lemma set_opcode_item:
  assumes "w_bytes w = pre @ item_bytes (length pre) (width, opc, vs) @ post"
  shows "set_u8 w (length pre + length (prefix_bytes (length pre) width)) opc' =
           Some (w\<lparr>w_bytes := pre @ item_bytes (length pre) (width, opc', vs) @ post\<rparr>)"
  using set_u8_at [of w "pre @ prefix_bytes (length pre) width" opc "concat (map (operand_bytes width) vs) @ post" opc'] assms
  by (simp add: item_bytes_def)

subsection \<open>One patched jump\<close>

definition valid_jump :: "u8 \<Rightarrow> u32 list \<Rightarrow> bool" where
  "valid_jump opc conds \<longleftrightarrow> opc \<in> fst ` set jump_opcodes \<and> length conds = jump_operand_index (unat opc)"

lemma jump_opcode_table:
  "list_all (\<lambda>(opc, n). opc \<noteq> WIDE_PREFIX \<and> opc \<noteq> EXTRA_WIDE_PREFIX \<and> opc + 1 \<noteq> WIDE_PREFIX \<and> opc + 1 \<noteq> EXTRA_WIDE_PREFIX \<and>
     opc + 1 \<notin> fst ` set jump_opcodes \<and>
     operand_types opc = Some (replicate (jump_operand_index (unat opc)) Register_t @ [SInt_t]) \<and>
     operand_types (opc + 1) = Some (replicate (jump_operand_index (unat opc)) Register_t @ [ConstantIndex_t])) jump_opcodes"
  by code_simp

lemma valid_jumpD:
  assumes "valid_jump opc conds"
  shows "opc \<noteq> WIDE_PREFIX" "opc \<noteq> EXTRA_WIDE_PREFIX" "opc + 1 \<noteq> WIDE_PREFIX" "opc + 1 \<noteq> EXTRA_WIDE_PREFIX"
    "opc \<in> fst ` set jump_opcodes" "opc + 1 \<notin> fst ` set jump_opcodes"
    "operand_types opc = Some (replicate (length conds) Register_t @ [SInt_t])"
    "operand_types (opc + 1) = Some (replicate (length conds) Register_t @ [ConstantIndex_t])"
    "jump_operand_index (unat opc) = length conds"
proof -
  obtain n where "(opc, n) \<in> set jump_opcodes" using assms by (auto simp: valid_jump_def)
  then show "opc \<noteq> WIDE_PREFIX" "opc \<noteq> EXTRA_WIDE_PREFIX" "opc + 1 \<noteq> WIDE_PREFIX" "opc + 1 \<noteq> EXTRA_WIDE_PREFIX"
    "opc \<in> fst ` set jump_opcodes" "opc + 1 \<notin> fst ` set jump_opcodes"
    "operand_types opc = Some (replicate (length conds) Register_t @ [SInt_t])"
    "operand_types (opc + 1) = Some (replicate (length conds) Register_t @ [ConstantIndex_t])"
    "jump_operand_index (unat opc) = length conds"
    using jump_opcode_table assms unfolding list_all_iff valid_jump_def by fastforce+
qed

definition conds_fit :: "width_enum \<Rightarrow> u32 list \<Rightarrow> bool" where
  "conds_fit width conds \<longleftrightarrow> (\<forall>c \<in> set conds. operand_min_width Register_t c \<le> width)"

text \<open>A jump whose operand holds the distance to its target, itself or through the constants.\<close>

definition resolved_item :: "(constant_entry \<times> nat) list \<Rightarrow> u8 \<Rightarrow> u32 list \<Rightarrow> int \<Rightarrow> item \<Rightarrow> bool" where
  "resolved_item hs opc conds rel it \<longleftrightarrow>
     (\<exists>width. conds_fit width conds \<and>
        ((\<exists>x. it = (width, opc, conds @ [x]) \<and> sint x = rel \<and> min_width_for_signed rel \<le> width) \<or>
         (\<exists>i. it = (width, opc + 1, conds @ [of_nat i]) \<and> (BytecodeOffset (of_int rel), i) \<in> set hs \<and>
            i < 2 ^ 32 \<and> min_width_for_unsigned i \<le> width)))"

definition pending_item :: "u8 \<Rightarrow> u32 list \<Rightarrow> width_enum \<Rightarrow> item \<Rightarrow> bool" where
  "pending_item opc conds w it \<longleftrightarrow>
     (\<exists>width d. it = (width, opc, conds @ [d]) \<and> w \<le> width \<and> conds_fit width conds)"

lemma ucast_of_int_u32: "ucast (of_int z :: u64) = (of_int z :: u32)"
  by (rule bit_word_eqI) (simp add: bit_simps)

lemma ucast_of_nat_u32: "ucast (of_nat n :: u64) = (of_nat n :: u32)"
  using ucast_of_int_u32 [of "int n"] by simp

lemma sint_small: "- (2 ^ 63) \<le> z \<Longrightarrow> z < 2 ^ 63 \<Longrightarrow> sint (of_int z :: u64) = z"
  by (rule sint_of_int_eq) simp_all

lemma try_from_signed_iff:
  fixes v :: u64
  shows "(try_from_signed v :: u32 option) \<noteq> None \<longleftrightarrow> SIGNED_MIN ExtraWide \<le> sint v \<and> sint v \<le> SIGNED_MAX ExtraWide"
  by (simp add: try_from_signed_def width_simps)

lemma sint_of_int_u32: "SIGNED_MIN ExtraWide \<le> z \<Longrightarrow> z \<le> SIGNED_MAX ExtraWide \<Longrightarrow> sint (of_int z :: u32) = z"
  by (rule sint_of_int_eq) (simp_all add: width_simps)

lemma decode_item:
  assumes "opc \<noteq> WIDE_PREFIX" "opc \<noteq> EXTRA_WIDE_PREFIX"
  shows "decode_width_and_opcode_at_index (pre @ item_bytes (length pre) (width, opc, vs) @ post) (length pre) =
           Some \<lparr>di_width = width, di_opcode = opc,
                 di_opcode_index = length pre + length (prefix_bytes (length pre) width)\<rparr>"
  using decode_width_written [OF assms, of pre width "concat (map (operand_bytes width) vs) @ post"]
  by (simp add: item_bytes_def)

lemma patch_forward_jump_item:
  assumes bytes: "w_bytes (g_writer g) = stream_bytes 0 items" and k: "k < length items"
    and jump: "valid_jump opc conds" and pend: "pending_item opc conds (ji_width info) (items ! k)"
    and off: "ji_offset info = item_offset items k" and t: "g_block_offsets g block = Some target"
    and range: "item_offset items k \<le> target" "target < 2 ^ 63"
    and ct: "ct_state_inv (g_constants g, rs, hs)" "ji_width info \<in> set rs" "ji_width info \<noteq> ExtraWide"
  shows "\<exists>it ct hs'. patch_forward_jump g info block =
             Some (g\<lparr>g_writer := (g_writer g)\<lparr>w_bytes := stream_bytes 0 (items[k := it])\<rparr>, g_constants := ct\<rparr>) \<and>
           same_shape (items ! k) it \<and> resolved_item hs' opc conds (int target - int (item_offset items k)) it \<and>
           ct_state_inv (ct, remove1 (ji_width info) rs, hs') \<and> set hs \<subseteq> set hs'"
proof -
  obtain width d where it: "items ! k = (width, opc, conds @ [d])" "ji_width info \<le> width" "conds_fit width conds"
    using pend by (auto simp: pending_item_def)
  let ?pre = "stream_bytes 0 (take k items)"
  let ?post = "stream_bytes (item_offset items k + length (item_bytes (item_offset items k) (items ! k))) (drop (Suc k) items)"
  let ?rel = "int target - int (item_offset items k)"
  let ?r = "of_nat (target - item_offset items k) :: u64"
  let ?di = "\<lparr>di_width = width, di_opcode = opc, di_opcode_index = length ?pre + length (prefix_bytes (length ?pre) width)\<rparr>"
  have len: "length ?pre = item_offset items k" by (simp add: item_offset_def)
  have w: "w_bytes (g_writer g) = ?pre @ item_bytes (length ?pre) (width, opc, conds @ [d]) @ ?post"
    using stream_bytes_at [OF k] bytes it(1) len by simp
  have upd: "stream_bytes 0 (items[k := (width, opc', conds @ [x])]) = ?pre @ item_bytes (length ?pre) (width, opc', conds @ [x]) @ ?post"
    for opc' x using stream_bytes_upd [OF k, of "(width, opc', conds @ [x])"] it(1) len by (simp add: same_shape_def)
  have shape: "same_shape (items ! k) (width, opc', conds @ [x])" for opc' x by (simp add: it(1) same_shape_def)
  note j = valid_jumpD [OF jump]
  have di: "decode_width_and_opcode_at_index (w_bytes (g_writer g)) (ji_offset info) = Some ?di"
    unfolding w off len [symmetric] by (rule decode_item [OF j(1,2)])
  have set: "set_jump_offset_operand (g_writer g) ?di v =
      Some ((g_writer g)\<lparr>w_bytes := stream_bytes 0 (items[k := (width, opc, conds @ [ucast v])])\<rparr>)" for v
    using set_jump_offset_item [OF w, of ?di v] by (simp add: j(9) upd list_update_append)
  have r: "?r = of_int ?rel" "sint ?r = ?rel"
  proof -
    have "int (target - item_offset items k) = ?rel" using range by simp
    then show "?r = of_int ?rel" by (metis of_int_of_nat_eq)
    then show "sint ?r = ?rel" using sint_small [of ?rel] range by simp
  qed
  show ?thesis
  proof (cases "min_width_for_signed ?rel \<le> width \<and> (try_from_signed ?r :: u32 option) \<noteq> None")
    case True
    have b: "ct_inv (g_constants g)" "reserved_ok (g_constants g) rs" using ct(1) by (simp_all add: ct_state_inv_def)
    obtain ct' where c: "remove_reserved (g_constants g) (ji_width info) = Some ct'"
      using remove_reserved_defined [OF b(2) ct(2)] by blast
    have inv: "ct_state_inv (ct', remove1 (ji_width info) rs, hs)"
      by (rule ct_state_inv_step [OF ct_step.remove [OF c ct(2)] ct(1)])
    let ?it = "(width, opc, conds @ [ucast ?r])"
    have "SIGNED_MIN ExtraWide \<le> ?rel \<and> ?rel \<le> SIGNED_MAX ExtraWide"
      using True try_from_signed_iff [of ?r] unfolding r(2) by blast
    then have "sint (ucast ?r :: u32) = ?rel" unfolding r(1) ucast_of_int_u32 by (intro sint_of_int_u32) simp_all
    then have "resolved_item hs opc conds ?rel ?it" using True it(3) by (auto simp: resolved_item_def)
    moreover have "patch_forward_jump g info block =
        Some (g\<lparr>g_writer := (g_writer g)\<lparr>w_bytes := stream_bytes 0 (items[k := ?it])\<rparr>, g_constants := ct'\<rparr>)"
      using True t off di c set range r(2) by (simp add: patch_forward_jump_def)
    ultimately show ?thesis using inv shape by blast
  next
    case False
    obtain i ct' where c: "commit_reserved_bytecode_offset (g_constants g) (ji_width info) ?r = Some (i, ct')"
      using commit_reserved_cases [of "g_constants g" rs "ji_width info" ?r] ct by (auto simp: ct_state_inv_def)
    note inv = ct_state_inv_commit [OF ct c]
    have "(BytecodeOffset ?r, i) \<in> set (ct_pairs ct')" "ct_inv ct'" using inv(1) by (simp_all add: ct_state_inv_def)
    then have "i < 2 ^ 32" using valid_index_bounds [OF ct_invD(1)] ct_invD(2) by fastforce
    let ?it = "(width, opc + 1, conds @ [of_nat i])"
    have "resolved_item ((BytecodeOffset ?r, i) # hs) opc conds ?rel ?it"
      using \<open>i < 2 ^ 32\<close> it(3) order_trans [OF inv(2) it(2)] r(1) by (auto simp: resolved_item_def)
    moreover have "patch_forward_jump g info block =
        Some (g\<lparr>g_writer := (g_writer g)\<lparr>w_bytes := stream_bytes 0 (items[k := ?it])\<rparr>, g_constants := ct'\<rparr>)"
    proof -
      let ?w = "(g_writer g)\<lparr>w_bytes := stream_bytes 0 (items[k := (width, opc, conds @ [of_nat i])])\<rparr>"
      have "w_bytes ?w = ?pre @ item_bytes (length ?pre) (width, opc, conds @ [of_nat i]) @ ?post" by (simp add: upd)
      note op = set_opcode_item [OF this, of "opc + 1"]
      have "set_u8 ?w (di_opcode_index ?di) (opc + 1) = Some (?w\<lparr>w_bytes := stream_bytes 0 (items[k := ?it])\<rparr>)"
        using op by (simp add: upd)
      then show ?thesis
        using False t off di c set [of "of_nat i"] range r(2) by (auto simp: patch_forward_jump_def ucast_of_nat_u32 Let_def)
    qed
    ultimately show ?thesis using inv(1) shape by (metis set_subset_Cons)
  qed
qed

subsection \<open>The generator's invariant\<close>

text \<open>
  A jump by the index of its item, with its opcode, condition registers and target block; a pending
  jump carries the width of its reservation.
\<close>

type_synonym jump = "nat \<times> u8 \<times> u32 list \<times> nat"

fun jump_target :: "jump \<Rightarrow> nat" where "jump_target (k, opc, conds, t) = t"

definition info_of :: "item list \<Rightarrow> jump \<times> width_enum \<Rightarrow> jump_info" where
  "info_of items p = \<lparr>ji_offset = item_offset items (fst (fst p)), ji_width = snd p\<rparr>"

definition jump_resolved :: "gen \<Rightarrow> item list \<Rightarrow> (constant_entry \<times> nat) list \<Rightarrow> jump \<Rightarrow> bool" where
  "jump_resolved g items hs j =
     (case j of (k, opc, conds, t) \<Rightarrow>
        \<exists>target. g_block_offsets g t = Some target \<and>
          resolved_item hs opc conds (int target - int (item_offset items k)) (items ! k))"

definition jump_pending :: "item list \<Rightarrow> jump \<times> width_enum \<Rightarrow> bool" where
  "jump_pending items p =
     (case p of ((k, opc, conds, t), w) \<Rightarrow> pending_item opc conds w (items ! k) \<and> w \<noteq> ExtraWide)"

definition jump_ok :: "item list \<Rightarrow> jump \<Rightarrow> bool" where
  "jump_ok items j = (case j of (k, opc, conds, t) \<Rightarrow> k < length items \<and> valid_jump opc conds)"

definition gen_core ::
  "gen \<Rightarrow> item list \<Rightarrow> jump list \<Rightarrow> (jump \<times> width_enum) list \<Rightarrow> (constant_entry \<times> nat) list \<Rightarrow> bool" where
  "gen_core g items jumps pend hs \<longleftrightarrow>
     w_bytes (g_writer g) = stream_bytes 0 items \<and> length (stream_bytes 0 items) < 2 ^ 63 \<and>
     ct_state_inv (g_constants g, map snd pend, hs) \<and>
     distinct (map fst jumps) \<and> distinct pend \<and>
     (\<forall>p \<in> set pend. fst p \<in> set jumps \<and> jump_pending items p) \<and>
     (\<forall>j \<in> set jumps. jump_ok items j \<and> (j \<in> fst ` set pend \<or> jump_resolved g items hs j)) \<and>
     distinct (map fst pend) \<and>
     (\<forall>t target. g_block_offsets g t = Some target \<longrightarrow> target \<le> length (stream_bytes 0 items))"

lemma gen_coreD:
  assumes "gen_core g items jumps pend hs"
  shows "w_bytes (g_writer g) = stream_bytes 0 items" "length (stream_bytes 0 items) < 2 ^ 63"
    "ct_state_inv (g_constants g, map snd pend, hs)" "distinct (map fst jumps)" "distinct pend"
    "p \<in> set pend \<Longrightarrow> fst p \<in> set jumps" "p \<in> set pend \<Longrightarrow> jump_pending items p"
    "j \<in> set jumps \<Longrightarrow> jump_ok items j" "j \<in> set jumps \<Longrightarrow> j \<in> fst ` set pend \<or> jump_resolved g items hs j"
    "distinct (map fst pend)" "g_block_offsets g t = Some target \<Longrightarrow> target \<le> length (stream_bytes 0 items)"
  using assms unfolding gen_core_def by blast+

lemma ct_state_inv_mset: "ct_state_inv (b, rs, hs) \<Longrightarrow> mset rs' = mset rs \<Longrightarrow> ct_state_inv (b, rs', hs)"
  by (simp add: ct_state_inv_def reserved_ok_def flip: count_mset)

lemma resolved_item_mono: "resolved_item hs opc conds rel it \<Longrightarrow> set hs \<subseteq> set hs' \<Longrightarrow> resolved_item hs' opc conds rel it"
  unfolding resolved_item_def by blast

lemma jump_index_inj: "distinct (map fst jumps) \<Longrightarrow> j \<in> set jumps \<Longrightarrow> j' \<in> set jumps \<Longrightarrow> fst j = fst j' \<Longrightarrow> j = j'"
  by (metis distinct_map inj_on_def)

text \<open>Patching one pending jump whose block has started.\<close>

lemma patch_pending:
  assumes core: "gen_core g items jumps pend hs" and p: "p \<in> set pend"
    and t: "g_block_offsets g (jump_target (fst p)) = Some target" and le: "item_offset items (fst (fst p)) \<le> target"
  shows "\<exists>g' items' hs'. patch_forward_jump g (info_of items p) (jump_target (fst p)) = Some g' \<and>
           gen_core g' items' jumps (remove1 p pend) hs' \<and> (\<forall>j. item_offset items' j = item_offset items j) \<and>
           g_block_offsets g' = g_block_offsets g \<and> g_unresolved g' = g_unresolved g"
proof -
  note c = gen_coreD [OF core]
  obtain k opc conds b w where pe: "p = ((k, opc, conds, b), w)" by (metis prod.collapse)
  have k: "k < length items" "valid_jump opc conds" using c(8) [OF c(6) [OF p]] by (simp_all add: pe jump_ok_def)
  have pend: "pending_item opc conds w (items ! k)" "w \<noteq> ExtraWide" using c(7) [OF p] by (simp_all add: pe jump_pending_def)
  have "target < 2 ^ 63" using c(11) [OF t] c(2) by simp
  moreover have "w \<in> set (map snd pend)" using p pe by force
  ultimately obtain it ct hs' where r: "patch_forward_jump g (info_of items p) b =
        Some (g\<lparr>g_writer := (g_writer g)\<lparr>w_bytes := stream_bytes 0 (items[k := it])\<rparr>, g_constants := ct\<rparr>)"
      "same_shape (items ! k) it" "resolved_item hs' opc conds (int target - int (item_offset items k)) it"
      "ct_state_inv (ct, remove1 w (map snd pend), hs')" "set hs \<subseteq> set hs'"
    using patch_forward_jump_item [OF c(1) k, of "info_of items p" b target "map snd pend" hs] pend c(3) t le
    by (auto simp: pe info_of_def)
  let ?g = "g\<lparr>g_writer := (g_writer g)\<lparr>w_bytes := stream_bytes 0 (items[k := it])\<rparr>, g_constants := ct\<rparr>"
  note off = item_offset_upd [OF k(1) r(2)]
  have len: "length (stream_bytes 0 (items[k := it])) = length (stream_bytes 0 items)"
    using off [of "length items"] by (simp add: item_offset_def)
  have inv: "ct_state_inv (ct, map snd (remove1 p pend), hs')"
    by (rule ct_state_inv_mset [OF r(4)]) (use p pe image_mset_Diff [of "{#p#}" "mset pend" snd] in simp)
  have keep: "jump_resolved ?g (items[k := it]) hs' j" if j: "j \<in> set jumps" "jump_resolved g items hs j" "fst j \<noteq> k" for j
  proof -
    obtain k' opc' conds' t' where je: "j = (k', opc', conds', t')" by (metis prod.collapse)
    obtain o' where o': "g_block_offsets g t' = Some o'"
        "resolved_item hs opc' conds' (int o' - int (item_offset items k')) (items ! k')"
      using j(2) by (auto simp: jump_resolved_def je)
    show ?thesis using o'(1) resolved_item_mono [OF o'(2) r(5)] j(3) by (simp add: jump_resolved_def je off)
  qed
  have new: "jump_resolved ?g (items[k := it]) hs' (fst p)"
    using r(3) t k(1) by (auto simp: jump_resolved_def pe off)
  have rem: "set (remove1 p pend) = set pend - {p}" using c(5) by simp
  have "gen_core ?g (items[k := it]) jumps (remove1 p pend) hs'"
    unfolding gen_core_def
  proof (intro conjI ballI allI impI)
    fix q assume q: "q \<in> set (remove1 p pend)"
    then have q': "q \<in> set pend" "q \<noteq> p" using rem by auto
    then show "fst q \<in> set jumps" using c(6) by blast
    have "fst q \<noteq> fst p" using q' p c(10) by (metis distinct_map inj_on_def)
    then have "fst (fst q) \<noteq> k" using jump_index_inj [OF c(4) c(6) [OF q'(1)] c(6) [OF p]] pe by auto
    then show "jump_pending (items[k := it]) q" using c(7) [OF q'(1)] by (auto simp: jump_pending_def split: prod.splits)
  next
    fix j assume j: "j \<in> set jumps"
    show "jump_ok (items[k := it]) j" using c(8) [OF j] by (simp add: jump_ok_def split: prod.splits)
    show "j \<in> fst ` set (remove1 p pend) \<or> jump_resolved ?g (items[k := it]) hs' j"
    proof (cases "j = fst p")
      case False
      have "fst j \<noteq> k" using False jump_index_inj [OF c(4) j c(6) [OF p]] pe by auto
      then show ?thesis using c(9) [OF j] keep [OF j] False rem by auto
    qed (use new in simp)
  qed (use c len inv in \<open>auto simp: distinct_map_filter distinct_remove1 distinct_map inj_on_def rem\<close>)
  then show ?thesis using r(1) off by (auto simp: pe)
qed

lemma patch_all_pending:
  assumes "gen_core g items jumps pend hs" "set ps \<subseteq> set pend" "distinct ps"
    "\<forall>p \<in> set ps. jump_target (fst p) = t" "g_block_offsets g t = Some target" "target = length (stream_bytes 0 items)"
  shows "\<exists>g' items' hs'. patch_all g (map (info_of items) ps) t = Some g' \<and>
           gen_core g' items' jumps (filter (\<lambda>p. p \<notin> set ps) pend) hs' \<and>
           (\<forall>j. item_offset items' j = item_offset items j) \<and>
           g_block_offsets g' = g_block_offsets g \<and> g_unresolved g' = g_unresolved g"
  using assms
proof (induction ps arbitrary: g items pend hs)
  case Nil
  then show ?case by auto
next
  case (Cons p ps)
  have p: "p \<in> set pend" "jump_target (fst p) = t" using Cons.prems by auto
  have "item_offset items (fst (fst p)) \<le> target" using Cons.prems(6) item_offset_le by simp
  then obtain g1 items1 hs1 where g1: "patch_forward_jump g (info_of items p) t = Some g1"
      "gen_core g1 items1 jumps (remove1 p pend) hs1" "\<And>j. item_offset items1 j = item_offset items j"
      "g_block_offsets g1 = g_block_offsets g" "g_unresolved g1 = g_unresolved g"
    using patch_pending [OF Cons.prems(1) p(1)] p(2) Cons.prems(5) by auto
  have d: "distinct pend" by (rule gen_coreD(5) [OF Cons.prems(1)])
  have info: "info_of items1 = info_of items" by (simp add: fun_eq_iff info_of_def g1(3))
  have len: "length (stream_bytes 0 items1) = length (stream_bytes 0 items)"
    using g1(3) [of "max (length items) (length items1)"] by (simp add: item_offset_def)
  have "\<exists>g' items' hs'. patch_all g1 (map (info_of items1) ps) t = Some g' \<and>
      gen_core g' items' jumps (filter (\<lambda>q. q \<notin> set ps) (remove1 p pend)) hs' \<and>
      (\<forall>j. item_offset items' j = item_offset items1 j) \<and>
      g_block_offsets g' = g_block_offsets g1 \<and> g_unresolved g' = g_unresolved g1"
    using Cons.prems d g1(4) len by (intro Cons.IH [OF g1(2)]) auto
  moreover have "filter (\<lambda>q. q \<notin> set ps) (remove1 p pend) = filter (\<lambda>q. q \<notin> set (p # ps)) pend"
    using d by (auto simp: distinct_remove1_removeAll removeAll_filter_not_eq intro!: filter_cong)
  ultimately show ?case using g1 by (simp add: info)
qed

definition unresolved_ok :: "gen \<Rightarrow> item list \<Rightarrow> (jump \<times> width_enum) list \<Rightarrow> bool" where
  "unresolved_ok g items pend \<longleftrightarrow>
     (\<forall>t. (case g_unresolved g t of None \<Rightarrow> [] | Some infos \<Rightarrow> infos) =
            map (info_of items) (filter (\<lambda>p. jump_target (fst p) = t) pend)) \<and>
     (\<forall>p \<in> set pend. g_block_offsets g (jump_target (fst p)) = None)"

text \<open>The state of a run: the generator, and the emitted jumps with their offsets.\<close>

type_synonym emitted_jump = "nat \<times> u8 \<times> u32 list \<times> nat"

definition emitted :: "item list \<Rightarrow> jump \<Rightarrow> emitted_jump" where
  "emitted items j = (case j of (k, opc, conds, t) \<Rightarrow> (item_offset items k, opc, conds, t))"

definition gen_inv :: "gen \<times> emitted_jump list \<Rightarrow> bool" where
  "gen_inv s \<longleftrightarrow>
     (case s of (g, J) \<Rightarrow> \<exists>items jumps pend hs.
        gen_core g items jumps pend hs \<and> unresolved_ok g items pend \<and> J = map (emitted items) jumps)"

lemma gen_inv_start_block:
  assumes inv: "gen_inv (g, J)" and fresh: "g_block_offsets g t = None"
  shows "\<exists>g'. start_block g t = Some g' \<and> gen_inv (g', J)"
proof -
  obtain items jumps pend hs where i: "gen_core g items jumps pend hs" "unresolved_ok g items pend" "J = map (emitted items) jumps"
    using inv by (auto simp: gen_inv_def)
  note c = gen_coreD [OF i(1)]
  let ?g = "g\<lparr>g_block_offsets := (g_block_offsets g)(t \<mapsto> length (stream_bytes 0 items)), g_unresolved := (g_unresolved g)(t := None)\<rparr>"
  let ?ps = "filter (\<lambda>p. jump_target (fst p) = t) pend"
  have res: "jump_resolved ?g items hs j" if "jump_resolved g items hs j" for j
    using that fresh by (auto simp: jump_resolved_def split: prod.splits)
  have "\<forall>j \<in> set jumps. jump_ok items j \<and> (j \<in> fst ` set pend \<or> jump_resolved ?g items hs j)"
    using c(8,9) res by blast
  moreover have "\<forall>p \<in> set pend. fst p \<in> set jumps \<and> jump_pending items p" using c(6,7) by blast
  ultimately have core: "gen_core ?g items jumps pend hs"
    unfolding gen_core_def using c(1-5,10,11) by simp
  have ps: "set ?ps \<subseteq> set pend" "distinct ?ps" "\<forall>p \<in> set ?ps. jump_target (fst p) = t" using c(5) by auto
  have at: "g_block_offsets ?g t = Some (length (stream_bytes 0 items))" by simp
  obtain g' items' hs' where g': "patch_all ?g (map (info_of items) ?ps) t = Some g'"
      "gen_core g' items' jumps (filter (\<lambda>p. p \<notin> set ?ps) pend) hs'" "\<And>j. item_offset items' j = item_offset items j"
      "g_block_offsets g' = g_block_offsets ?g" "g_unresolved g' = g_unresolved ?g"
    using patch_all_pending [OF core ps at refl] by blast
  have infos: "(case g_unresolved g t of None \<Rightarrow> [] | Some infos \<Rightarrow> infos) = map (info_of items) ?ps"
    using i(2) by (simp add: unresolved_ok_def)
  have "start_block g t = patch_all ?g (map (info_of items) ?ps) t"
  proof (cases "g_unresolved g t")
    case None
    then have "?g = g\<lparr>g_block_offsets := (g_block_offsets g)(t \<mapsto> length (stream_bytes 0 items))\<rparr>"
      by (simp add: fun_upd_idem)
    moreover have "map (info_of items) ?ps = []" using infos None by simp
    ultimately show ?thesis using None c(1) by (simp add: start_block_def current_offset_def)
  next
    case (Some l)
    then have "l = map (info_of items) ?ps" using infos by simp
    then show ?thesis using Some c(1) by (simp add: start_block_def current_offset_def)
  qed
  moreover have "emitted items' = emitted items" by (simp add: fun_eq_iff emitted_def g'(3))
  moreover have "unresolved_ok g' items' (filter (\<lambda>p. p \<notin> set ?ps) pend)"
    unfolding unresolved_ok_def
  proof (intro conjI allI ballI)
    fix b
    have "filter (\<lambda>p. jump_target (fst p) = b) (filter (\<lambda>p. p \<notin> set ?ps) pend) =
        (if b = t then [] else filter (\<lambda>p. jump_target (fst p) = b) pend)"
      by (auto simp: filter_empty_conv intro!: filter_cong)
    moreover have "info_of items' = info_of items" by (simp add: fun_eq_iff info_of_def g'(3))
    ultimately show "(case g_unresolved g' b of None \<Rightarrow> [] | Some infos \<Rightarrow> infos) =
        map (info_of items') (filter (\<lambda>p. jump_target (fst p) = b) (filter (\<lambda>p. p \<notin> set ?ps) pend))"
      using i(2) g'(5) by (simp add: unresolved_ok_def)
  next
    fix p assume "p \<in> set (filter (\<lambda>p. p \<notin> set ?ps) pend)"
    then have "jump_target (fst p) \<noteq> t" "p \<in> set pend" by auto
    then show "g_block_offsets g' (jump_target (fst p)) = None"
      using i(2) g'(4) by (simp add: unresolved_ok_def)
  qed
  ultimately show ?thesis
    using g'(1,2) i(3) unfolding gen_inv_def case_prod_conv
    by (intro exI [of _ g'] conjI exI [of _ items'] exI [of _ jumps] exI [of _ "filter (\<lambda>p. p \<notin> set ?ps) pend"]
        exI [of _ hs']) simp_all
qed

subsection \<open>Emitting instructions and jumps\<close>

lemma w_bytes_write_item:
  assumes "w_bytes w = stream_bytes 0 items" "operand_types opc = Some ts"
  shows "w_bytes (write_one w (opc, vs, pos)) = stream_bytes 0 (items @ [(instruction_width ts vs, opc, vs)])"
  using assms by (simp add: write_one_def w_bytes_write_instruction instruction_bytes_def item_bytes_def stream_bytes_append Let_def)

text \<open>What one more item adds: nothing but itself, a resolved jump or a pending one.\<close>

definition extends :: "gen \<Rightarrow> item list \<Rightarrow> (constant_entry \<times> nat) list \<Rightarrow> jump list \<Rightarrow> (jump \<times> width_enum) list \<Rightarrow> bool" where
  "extends g items hs js ps \<longleftrightarrow>
     js = [] \<and> ps = [] \<or>
     (\<exists>opc conds t. let j = (length items - 1, opc, conds, t) in js = [j] \<and> valid_jump opc conds \<and>
        (ps = [] \<and> jump_resolved g items hs j \<or> (\<exists>w. ps = [(j, w)] \<and> jump_pending items (j, w))))"

lemma gen_core_append:
  assumes core: "gen_core g items jumps pend hs"
    and w: "w_bytes (g_writer g') = stream_bytes 0 (items @ [it])" "length (stream_bytes 0 (items @ [it])) < 2 ^ 63"
    and ct: "ct_state_inv (g_constants g', map snd (pend @ ps), hs')" "set hs \<subseteq> set hs'"
    and blocks: "g_block_offsets g' = g_block_offsets g" and ext: "extends g' (items @ [it]) hs' js ps"
  shows "gen_core g' (items @ [it]) (jumps @ js) (pend @ ps) hs'"
proof -
  note c = gen_coreD [OF core]
  have idx: "fst j < length items" if "j \<in> set jumps" for j using c(8) [OF that] by (auto simp: jump_ok_def split: prod.splits)
  have js: "\<forall>j \<in> set js. fst j = length items \<and> jump_ok (items @ [it]) j \<and>
      (j \<in> fst ` set ps \<or> jump_resolved g' (items @ [it]) hs' j)" "distinct js" "length js \<le> 1"
    using ext by (auto simp: extends_def jump_ok_def Let_def)
  have ps: "\<forall>p \<in> set ps. fst p \<in> set js \<and> jump_pending (items @ [it]) p" "length ps \<le> 1"
    using ext by (auto simp: extends_def Let_def)
  have old: "jump_ok (items @ [it]) j \<and> (j \<in> fst ` set pend \<or> jump_resolved g' (items @ [it]) hs' j)"
    if j: "j \<in> set jumps" for j
  proof -
    obtain k opc conds t where je: "j = (k, opc, conds, t)" by (metis prod.collapse)
    have "k < length items" using idx [OF j] by (simp add: je)
    then have "jump_resolved g items hs j \<Longrightarrow> jump_resolved g' (items @ [it]) hs' j"
      using resolved_item_mono [OF _ ct(2), of opc conds _ "items ! k"]
      by (simp add: jump_resolved_def je blocks item_offset_append nth_append) blast
    then show ?thesis using c(8,9) [OF j] by (auto simp: jump_ok_def je)
  qed
  have pold: "jump_pending (items @ [it]) p" if "p \<in> set pend" for p
    using c(7) [OF that] idx [OF c(6) [OF that]] by (auto simp: jump_pending_def nth_append split: prod.splits)
  have one: "distinct xs" if "length xs \<le> 1" for xs :: "'a list" using that by (cases xs) auto
  have "distinct (map fst (jumps @ js))"
    using c(4) idx js(1) one [of "map fst js"] js(3) by fastforce
  moreover have "fst ` set pend \<inter> fst ` set ps = {}"
    using c(6) ps(1) js(1) idx by fastforce
  then have "distinct (map fst (pend @ ps))" "distinct (pend @ ps)"
    using c(5,10) one [of "map fst ps"] one [of ps] ps(2) by auto
  moreover have "\<forall>p \<in> set (pend @ ps). fst p \<in> set (jumps @ js) \<and> jump_pending (items @ [it]) p"
    using c(6) pold ps(1) by auto
  moreover have "\<forall>j \<in> set (jumps @ js). jump_ok (items @ [it]) j \<and> (j \<in> fst ` set (pend @ ps) \<or> jump_resolved g' (items @ [it]) hs' j)"
    using old js(1) by (metis (no_types, lifting) Un_iff image_Un set_append)
  moreover have "\<forall>t target. g_block_offsets g' t = Some target \<longrightarrow> target \<le> length (stream_bytes 0 (items @ [it]))"
    using c(11) blocks by (fastforce simp: stream_bytes_append)
  ultimately show ?thesis unfolding gen_core_def using w ct(1) by blast
qed

lemma emitted_append: "jump_ok items j \<Longrightarrow> emitted (items @ [it]) j = emitted items j"
  by (auto simp: emitted_def jump_ok_def item_offset_append split: prod.splits)

lemma info_of_append: "jump_ok items (fst p) \<Longrightarrow> info_of (items @ [it]) p = info_of items p"
  by (auto simp: info_of_def jump_ok_def item_offset_append split: prod.splits)

lemma gen_inv_append:
  assumes core: "gen_core g items jumps pend hs" and u: "unresolved_ok g items pend"
    and w: "w_bytes (g_writer g') = stream_bytes 0 (items @ [it])" "length (stream_bytes 0 (items @ [it])) < 2 ^ 63"
    and ct: "ct_state_inv (g_constants g', map snd (pend @ ps), hs')" "set hs \<subseteq> set hs'"
    and blocks: "g_block_offsets g' = g_block_offsets g" and ext: "extends g' (items @ [it]) hs' js ps"
    and unres: "\<And>t. (case g_unresolved g' t of None \<Rightarrow> [] | Some infos \<Rightarrow> infos) =
        (case g_unresolved g t of None \<Rightarrow> [] | Some infos \<Rightarrow> infos) @
        map (info_of (items @ [it])) (filter (\<lambda>p. jump_target (fst p) = t) ps)"
    and none: "\<forall>p \<in> set ps. g_block_offsets g (jump_target (fst p)) = None"
  shows "gen_inv (g', map (emitted items) jumps @ map (emitted (items @ [it])) js)"
proof -
  note c = gen_coreD [OF core]
  have "map (emitted items) jumps = map (emitted (items @ [it])) jumps"
    using emitted_append [OF c(8)] by simp
  moreover have "map (info_of items) (filter P pend) = map (info_of (items @ [it])) (filter P pend)" for P
    using info_of_append [OF c(8) [OF c(6)]] by simp
  then have "unresolved_ok g' (items @ [it]) (pend @ ps)"
    using u none unres by (auto simp: unresolved_ok_def blocks)
  ultimately show ?thesis
    using gen_core_append [OF core w ct blocks ext] unfolding gen_inv_def case_prod_conv by (metis map_append)
qed

lemma set_zip_replicate: "set (zip (replicate (length xs) a) xs) = Pair a ` set xs"
  by (induction xs) auto

lemma jump_operands_fit:
  "(\<forall>(t, v) \<in> set (zip (replicate (length conds) Register_t @ [T]) (conds @ [x])). operand_min_width t v \<le> width) \<longleftrightarrow>
     conds_fit width conds \<and> operand_min_width T x \<le> width"
  by (auto simp: conds_fit_def set_zip_replicate)

lemma jump_width_fits:
  fixes conds :: "u32 list"
  shows "conds_fit (instruction_width (replicate (length conds) Register_t @ [T]) (conds @ [x])) conds"
    "operand_min_width T x \<le> instruction_width (replicate (length conds) Register_t @ [T]) (conds @ [x])"
  using instruction_width_fits [of "replicate (length conds) Register_t @ [T]" "conds @ [x]"]
  unfolding jump_operands_fit by simp_all

lemma try_from_signed_sint: "(try_from_signed v :: u32 option) = Some x \<Longrightarrow> sint x = sint (v :: u64)"
  by (auto simp: try_from_signed_def signed_scast_eq signed_take_bit_int_eq_self split: if_splits)

lemma unat_of_nat_u32: "i < 2 ^ 32 \<Longrightarrow> unat (of_nat i :: u32) = i"
  by (simp add: unsigned_of_nat take_bit_nat_eq_self)

lemma dummy_width: "w \<le> operand_min_width SInt_t (of_int (SIGNED_MIN w) :: u32)"
  using sint_of_int_u32 [of "SIGNED_MIN w"]
  by (cases w) (simp_all add: operand_min_width_def min_width_for_signed_def width_simps less_eq_width_enum_def)

lemma gen_inv_write_jump:
  assumes inv: "gen_inv (g, J)" and jump: "valid_jump opc conds" and small: "next_index_width (g_constants g) \<noteq> Inr ExtraWide"
    and wr: "write_jump opc conds t g = Inr g'" and len: "length (w_bytes (g_writer g')) < 2 ^ 63"
  shows "gen_inv (g', J @ [(current_offset (g_writer g), opc, conds, t)])"
proof -
  obtain items jumps pend hs where i: "gen_core g items jumps pend hs" "unresolved_ok g items pend" "J = map (emitted items) jumps"
    using inv by (auto simp: gen_inv_def)
  note c = gen_coreD [OF i(1)] and v = valid_jumpD [OF jump]
  let ?n = "length (stream_bytes 0 items)"
  let ?j = "(length items, opc, conds, t)"
  have off: "current_offset (g_writer g) = ?n" using c(1) by (simp add: current_offset_def)
  have em: "emitted (items @ [it]) ?j = (?n, opc, conds, t)" for it by (simp add: emitted_def item_offset_def)
  have item_off: "item_offset (items @ [it]) (length items) = ?n" for it by (simp add: item_offset_def)
  let ?imm = "\<lambda>x. (instruction_width (replicate (length conds) Register_t @ [SInt_t]) (conds @ [x]), opc, conds @ [x])"
  let ?const = "\<lambda>x. (instruction_width (replicate (length conds) Register_t @ [ConstantIndex_t]) (conds @ [x]), opc + 1, conds @ [x])"
  have imm: "w_bytes (write_one w (opc, conds @ [x], pos)) = stream_bytes 0 (items @ [?imm x])" if "w_bytes w = stream_bytes 0 items" for w x pos
    using w_bytes_write_item [OF that v(7)] .
  have const: "w_bytes (write_one w (opc + 1, conds @ [x], pos)) = stream_bytes 0 (items @ [?const x])" if "w_bytes w = stream_bytes 0 items" for w x pos
    using w_bytes_write_item [OF that v(8)] .
  show ?thesis
  proof (cases "g_block_offsets g t")
    case (Some target)
    let ?rel = "int target - int ?n"
    have r: "(of_nat target - of_nat ?n :: u64) = of_int ?rel" by simp
    have "target \<le> ?n" by (rule c(11) [OF Some])
    then have sr: "sint (of_int ?rel :: u64) = ?rel" using c(2) by (intro sint_small) simp_all
    show ?thesis
    proof (cases "try_from_signed (of_int ?rel :: u64) :: u32 option")
      case (Some x)
      have g': "g' = g\<lparr>g_writer := write_one (g_writer g) (opc, conds @ [x], NO_POS)\<rparr>"
        using wr \<open>g_block_offsets g t = Some target\<close> Some unfolding write_jump_def jump_target_operand_def off Let_def r by simp
      have "sint x = ?rel" using try_from_signed_sint [OF Some] sr by simp
      then have "resolved_item hs opc conds ?rel (?imm x)"
        using jump_width_fits [where conds = conds and T = SInt_t and x = x] by (auto simp: resolved_item_def operand_min_width_def)
      then have "extends g' (items @ [?imm x]) hs [?j] []"
        using jump \<open>g_block_offsets g t = Some target\<close> by (auto simp: extends_def jump_resolved_def g' item_off)
      then have "gen_inv (g', map (emitted items) jumps @ map (emitted (items @ [?imm x])) [?j])"
        using c(3) len imm [OF c(1)] by (intro gen_inv_append [OF i(1,2), where ps = "[]" and hs' = hs]) (simp_all add: g')
      then show ?thesis using em i(3) off by simp
    next
      case None
      obtain ci ct where a: "add_bytecode_offset (g_constants g) (of_int ?rel) = Inr (ci, ct)"
          and g': "g' = g\<lparr>g_constants := ct, g_writer := write_one (g_writer g) (opc + 1, conds @ [of_nat ci], NO_POS)\<rparr>"
        using wr \<open>g_block_offsets g t = Some target\<close> None unfolding write_jump_def jump_target_operand_def off Let_def r
        by (auto split: sum.splits)
      let ?hs = "(BytecodeOffset (of_int ?rel), ci) # hs"
      have ct: "ct_state_inv (ct, map snd pend, ?hs)" by (rule ct_state_inv_step [OF ct_step.add_bytecode_offset [OF a] c(3)])
      then have "ci < 2 ^ 32"
        using valid_index_bounds ct_invD(1,2) by (fastforce simp: ct_state_inv_def)
      then have "resolved_item ?hs opc conds ?rel (?const (of_nat ci))"
        using jump_width_fits [where conds = conds and T = ConstantIndex_t and x = "of_nat ci"] unat_of_nat_u32 [of ci]
        by (auto simp: resolved_item_def operand_min_width_def)
      then have "extends g' (items @ [?const (of_nat ci)]) ?hs [?j] []"
        using jump \<open>g_block_offsets g t = Some target\<close> by (auto simp: extends_def jump_resolved_def g' item_off)
      then have "gen_inv (g', map (emitted items) jumps @ map (emitted (items @ [?const (of_nat ci)])) [?j])"
        using ct len const [OF c(1)] by (intro gen_inv_append [OF i(1,2), where ps = "[]" and hs' = ?hs]) (auto simp: g')
      then show ?thesis using em i(3) off by simp
    qed
  next
    case None
    obtain w ct where a: "reserve_entry (g_constants g) = Inr (w, ct)"
        and g': "g' = g\<lparr>g_constants := ct,
            g_unresolved := (g_unresolved g)(t \<mapsto> (case g_unresolved g t of None \<Rightarrow> [] | Some infos \<Rightarrow> infos) @
              [\<lparr>ji_offset = ?n, ji_width = w\<rparr>]),
            g_writer := write_one (g_writer g) (opc, conds @ [of_int (SIGNED_MIN w)], NO_POS)\<rparr>"
      using wr None unfolding write_jump_def jump_target_operand_def off Let_def by (auto split: sum.splits)
    have "w \<noteq> ExtraWide" using a small by (auto simp: reserve_entry_def split: sum.splits)
    let ?d = "of_int (SIGNED_MIN w) :: u32"
    have ct: "ct_state_inv (ct, map snd (pend @ [(?j, w)]), hs)"
      by (rule ct_state_inv_mset [OF ct_state_inv_step [OF ct_step.reserve [OF a] c(3)]]) simp
    have "jump_pending (items @ [?imm ?d]) (?j, w)"
      using \<open>w \<noteq> ExtraWide\<close> jump_width_fits [where conds = conds and T = SInt_t and x = ?d] order_trans [OF dummy_width]
      by (auto simp: jump_pending_def pending_item_def)
    then have "extends g' (items @ [?imm ?d]) hs [?j] [(?j, w)]" using jump by (auto simp: extends_def)
    then have "gen_inv (g', map (emitted items) jumps @ map (emitted (items @ [?imm ?d])) [?j])"
      using ct len imm [OF c(1)] None
      by (intro gen_inv_append [OF i(1,2), where ps = "[(?j, w)]" and hs' = hs]) (auto simp: g' info_of_def item_off)
    then show ?thesis using em i(3) off by simp
  qed
qed

subsection \<open>Runs of the generator\<close>

text \<open>
  The client: other instructions and constants, new blocks, the start of a block that has not
  started, and jumps, as long as the one- and two-byte ranges of the constant table have room for the
  reservation.
\<close>

definition ct_adds :: "constant_table_builder \<Rightarrow> constant_table_builder \<Rightarrow> bool" where
  "ct_adds b b' \<longleftrightarrow>
     (\<exists>i. (\<exists>v. add_string b v = Inr (i, b')) \<or> (\<exists>v. add_heap_item b v = Inr (i, b')) \<or> (\<exists>d. add_double b d = Inr (i, b')))"

inductive gen_step :: "gen \<times> emitted_jump list \<Rightarrow> gen \<times> emitted_jump list \<Rightarrow> bool" where
  instruction: "valid_instruction i \<Longrightarrow> length (w_bytes (write_one (g_writer g) i)) < 2 ^ 63 \<Longrightarrow>
    gen_step (g, J) (g\<lparr>g_writer := write_one (g_writer g) i\<rparr>, J)"
| add_constant: "ct_adds (g_constants g) ct \<Longrightarrow> gen_step (g, J) (g\<lparr>g_constants := ct\<rparr>, J)"
| new_block: "new_block g = (t, g') \<Longrightarrow> gen_step (g, J) (g', J)"
| start_block: "g_block_offsets g t = None \<Longrightarrow> start_block g t = Some g' \<Longrightarrow> gen_step (g, J) (g', J)"
| jump: "valid_jump opc conds \<Longrightarrow> next_index_width (g_constants g) \<noteq> Inr ExtraWide \<Longrightarrow>
    write_jump opc conds t g = Inr g' \<Longrightarrow> length (w_bytes (g_writer g')) < 2 ^ 63 \<Longrightarrow>
    gen_step (g, J) (g', J @ [(current_offset (g_writer g), opc, conds, t)])"

lemma gen_core_constants:
  assumes core: "gen_core g items jumps pend hs" and ct: "ct_state_inv (ct, map snd pend, hs')" "set hs \<subseteq> set hs'"
  shows "gen_core (g\<lparr>g_constants := ct\<rparr>) items jumps pend hs'"
proof -
  note c = gen_coreD [OF core]
  have "jump_resolved (g\<lparr>g_constants := ct\<rparr>) items hs' j" if "jump_resolved g items hs j" for j
  proof -
    obtain k opc conds t where je: "j = (k, opc, conds, t)" by (metis prod.collapse)
    show ?thesis
      using that resolved_item_mono [OF _ ct(2), of opc conds _ "items ! k"] by (simp add: jump_resolved_def je) blast
  qed
  then have "\<forall>j \<in> set jumps. jump_ok items j \<and> (j \<in> fst ` set pend \<or> jump_resolved (g\<lparr>g_constants := ct\<rparr>) items hs' j)"
    using c(8,9) by blast
  moreover have "\<forall>p \<in> set pend. fst p \<in> set jumps \<and> jump_pending items p" using c(6,7) by blast
  ultimately show ?thesis unfolding gen_core_def using c(1,2,4,5,10,11) ct(1) by simp
qed

lemma ct_adds_inv:
  assumes "ct_adds b ct" "ct_state_inv (b, rs, hs)"
  shows "\<exists>hs'. ct_state_inv (ct, rs, hs') \<and> set hs \<subseteq> set hs'"
proof -
  obtain c where "ct_step (b, rs, hs) (ct, rs, c # hs)"
    using assms(1) ct_step.intros(1-3) unfolding ct_adds_def by blast
  from ct_state_inv_step [OF this assms(2)] show ?thesis by (meson set_subset_Cons)
qed

lemma gen_inv_step: "gen_step s s' \<Longrightarrow> gen_inv s \<Longrightarrow> gen_inv s'"
proof (induction rule: gen_step.induct)
  case (instruction i g J)
  obtain opc vs pos where ie: "i = (opc, vs, pos)" by (metis prod.collapse)
  obtain ts where ts: "operand_types opc = Some ts" using instruction(1) by (auto simp: ie valid_instruction_def split: option.splits)
  obtain items jumps pend hs where c: "gen_core g items jumps pend hs" "unresolved_ok g items pend" "J = map (emitted items) jumps"
    using instruction(3) by (auto simp: gen_inv_def)
  have "gen_inv (g\<lparr>g_writer := write_one (g_writer g) i\<rparr>, map (emitted items) jumps @
      map (emitted (items @ [(instruction_width ts vs, opc, vs)])) [])"
    using gen_coreD(3) [OF c(1)] w_bytes_write_item [OF gen_coreD(1) [OF c(1)] ts, of vs pos] instruction(2)
    by (intro gen_inv_append [OF c(1,2), where ps = "[]" and hs' = hs]) (simp_all add: ie extends_def)
  then show ?case using c(3) by simp
next
  case (add_constant g ct J)
  obtain items jumps pend hs where c: "gen_core g items jumps pend hs" "unresolved_ok g items pend" "J = map (emitted items) jumps"
    using add_constant(2) by (auto simp: gen_inv_def)
  obtain hs' where "ct_state_inv (ct, map snd pend, hs')" "set hs \<subseteq> set hs'"
    using ct_adds_inv [OF add_constant(1) gen_coreD(3) [OF c(1)]] by blast
  from gen_core_constants [OF c(1) this] have "gen_core (g\<lparr>g_constants := ct\<rparr>) items jumps pend hs'" .
  moreover have "unresolved_ok (g\<lparr>g_constants := ct\<rparr>) items pend" using c(2) by (simp add: unresolved_ok_def)
  ultimately show ?case using c(3) unfolding gen_inv_def by auto
next
  case (new_block g t g' J)
  then have g': "g' = g\<lparr>g_num_blocks := g_num_blocks g + 1\<rparr>" by (auto simp: new_block_def)
  have "gen_core g' = gen_core g" "unresolved_ok g' = unresolved_ok g"
    by (simp_all add: g' fun_eq_iff gen_core_def unresolved_ok_def jump_resolved_def)
  then show ?case using new_block(2) by (simp add: gen_inv_def)
next
  case (start_block g t g' J)
  then show ?case using gen_inv_start_block [of g J t] by auto
next
  case (jump opc conds g t g' J)
  then show ?case by (intro gen_inv_write_jump)
qed

lemma gen_inv_reachable: "gen_step\<^sup>*\<^sup>* (gen_new, []) s \<Longrightarrow> gen_inv s"
proof (induction rule: rtranclp_induct)
  case base
  have "gen_core gen_new [] [] [] []"
    using ct_inv_new by (simp add: gen_core_def gen_new_def writer_new_def ct_state_inv_def reserved_ok_def ct_builder_new_def)
  moreover have "unresolved_ok gen_new [] []" by (simp add: unresolved_ok_def gen_new_def)
  ultimately show ?case unfolding gen_inv_def by force
qed (rule gen_inv_step)

lemma vm_jump_resolved:
  assumes bytes: "w_bytes w = stream_bytes 0 items" and k: "k < length items" and jump: "valid_jump opc conds"
    and res: "resolved_item hs opc conds rel (items ! k)" and rel: "- (2 ^ 63) \<le> rel" "rel < 2 ^ 63"
    and table: "\<forall>(e, i) \<in> set hs. \<exists>t. table = Some t \<and> get_constant t i = Some (fst (to_value e))"
  shows "vm_jump_target (w_bytes w) table (item_offset items k) = Some (int (item_offset items k) + rel)"
proof -
  note v = valid_jumpD [OF jump]
  let ?pre = "stream_bytes 0 (take k items)"
  have len: "item_offset items k = length ?pre" by (simp add: item_offset_def)
  obtain post where at: "w_bytes w = ?pre @ item_bytes (length ?pre) (items ! k) @ post"
    using stream_bytes_at [OF k] bytes len by metis
  obtain width where fit: "conds_fit width conds" and forms: "(\<exists>x. items ! k = (width, opc, conds @ [x]) \<and> sint x = rel \<and> min_width_for_signed rel \<le> width) \<or>
      (\<exists>i. items ! k = (width, opc + 1, conds @ [of_nat i]) \<and> (BytecodeOffset (of_int rel), i) \<in> set hs \<and>
         i < 2 ^ 32 \<and> min_width_for_unsigned i \<le> width)"
    using res by (auto simp: resolved_item_def)
  from forms show ?thesis
  proof (elim disjE exE conjE)
    fix x assume x: "items ! k = (width, opc, conds @ [x])" "sint x = rel" "min_width_for_signed rel \<le> width"
    have "next_instruction (w_bytes w) (length ?pre) = Some (opc,
        map2 operand_int (replicate (length conds) Register_t @ [SInt_t]) (conds @ [x]), length ?pre + length (item_bytes (length ?pre) (items ! k)))"
      unfolding at x(1)
    proof (intro next_instruction_item v)
      show "\<forall>(t, v) \<in> set (zip (replicate (length conds) Register_t @ [SInt_t]) (conds @ [x])). operand_min_width t v \<le> width"
        unfolding jump_operands_fit using fit x(2,3) by (simp add: operand_min_width_def)
    qed simp
    then show ?thesis using v(5) x(2) by (simp add: vm_jump_target_def len operand_int_def)
  next
    fix i assume i: "items ! k = (width, opc + 1, conds @ [of_nat i])" "(BytecodeOffset (of_int rel), i) \<in> set hs"
      "i < 2 ^ 32" "min_width_for_unsigned i \<le> width"
    have "next_instruction (w_bytes w) (length ?pre) = Some (opc + 1,
        map2 operand_int (replicate (length conds) Register_t @ [ConstantIndex_t]) (conds @ [of_nat i]),
        length ?pre + length (item_bytes (length ?pre) (items ! k)))"
      unfolding at i(1)
    proof (intro next_instruction_item v)
      show "\<forall>(t, v) \<in> set (zip (replicate (length conds) Register_t @ [ConstantIndex_t]) (conds @ [of_nat i])). operand_min_width t v \<le> width"
        unfolding jump_operands_fit using fit i(4) unat_of_nat_u32 [OF i(3)] by (simp add: operand_min_width_def)
    qed simp
    moreover obtain t where t: "table = Some t" "get_constant t i = Some (of_int rel)"
      using table i(2) by fastforce
    moreover have "nat (uint (of_nat i :: u32)) = i" using unat_of_nat_u32 [OF i(3)] by simp
    ultimately show ?thesis
      using v(5,6) sint_small [OF rel] by (simp add: vm_jump_target_def len operand_int_def)
  qed
qed

text \<open>
  C12: every jump of a finished function lands at its block: whatever instructions, constants, blocks
  and jumps the generator emits, once no jump is unresolved the constant table can be finished and
  the VM, executing the bytes at the offset of any emitted jump, continues exactly at the offset at
  which the target block was started, for backward jumps, for forward jumps patched in place and for
  those turned into their constant form.
\<close>

theorem jumps_land:
  assumes run: "gen_step\<^sup>*\<^sup>* (gen_new, []) (g, J)" and res: "g_unresolved g = Map.empty" and j: "(off, opc, conds, t) \<in> set J"
  shows "\<exists>target table. g_block_offsets g t = Some target \<and> ct_finish (g_constants g) = Some table \<and>
           vm_jump_target (w_bytes (g_writer g)) table off = Some (int target)"
proof -
  obtain items jumps pend hs where c: "gen_core g items jumps pend hs" "unresolved_ok g items pend" "J = map (emitted items) jumps"
    using gen_inv_reachable [OF run] by (auto simp: gen_inv_def)
  note d = gen_coreD [OF c(1)]
  have "filter (\<lambda>p. jump_target (fst p) = b) pend = []" for b using c(2) res by (simp add: unresolved_ok_def)
  then have pend: "pend = []" by (metis (mono_tags, lifting) filter_empty_conv list.set_intros(1) neq_Nil_conv)
  obtain k where k: "(k, opc, conds, t) \<in> set jumps" "off = item_offset items k"
    using j c(3) by (auto simp: emitted_def)
  have ok: "k < length items" "valid_jump opc conds" using d(8) [OF k(1)] by (simp_all add: jump_ok_def)
  obtain target where t: "g_block_offsets g t = Some target"
      "resolved_item hs opc conds (int target - int off) (items ! k)"
    using d(9) [OF k(1)] pend k(2) by (auto simp: jump_resolved_def)
  have ct: "ct_inv (g_constants g)" "narrow_reserved (g_constants g) = 0" "wide_reserved (g_constants g) = 0"
      "extra_wide_reserved (g_constants g) = 0" "set hs \<subseteq> set (ct_pairs (g_constants g))"
    using d(3) pend by (simp_all add: ct_state_inv_def reserved_ok_def)
  have "\<exists>table. ct_finish (g_constants g) = Some table \<and>
      (\<forall>(e, i) \<in> set hs. \<exists>t. table = Some t \<and> get_constant t i = Some (fst (to_value e)))"
  proof (cases "num_constants (g_constants g) > 0")
    case True
    then show ?thesis using ct_finish_correct [OF ct(1-4)] ct(5) by fastforce
  next
    case False
    then have "set hs = {}"
      using ct(5) valid_index_bounds [OF ct_invD(1) [OF ct(1)]] ct_invD(2) [OF ct(1)] by fastforce
    then show ?thesis using False ct(2-4) by (simp add: ct_finish_def)
  qed
  then obtain table where table: "ct_finish (g_constants g) = Some table"
      "\<forall>(e, i) \<in> set hs. \<exists>t. table = Some t \<and> get_constant t i = Some (fst (to_value e))"
    by (elim exE conjE) (rule that)
  have "target < 2 ^ 63" "off < 2 ^ 63" using d(11) [OF t(1)] d(2) item_offset_le [of items k] k(2) by simp_all
  then have "vm_jump_target (w_bytes (g_writer g)) table off = Some (int off + (int target - int off))"
    using vm_jump_resolved [OF d(1) ok, of hs "int target - int off" table] t(2) table(2) k(2) by simp
  then show ?thesis using t(1) table(1) by simp
qed

text \<open>A function with one forward jump, to a block that starts right after it.\<close>

definition one_jump :: gen where
  "one_jump = gen_new\<lparr>g_writer := writer_new\<lparr>w_bytes := [58, 128]\<rparr>,
     g_constants := ct_builder_new\<lparr>narrow_reserved := 1\<rparr>,
     g_unresolved := [0 \<mapsto> [\<lparr>ji_offset = 0, ji_width = Narrow\<rparr>]]\<rparr>"

definition one_jump_patched :: gen where
  "one_jump_patched = gen_new\<lparr>g_writer := writer_new\<lparr>w_bytes := [58, 2]\<rparr>, g_block_offsets := [0 \<mapsto> Suc 1]\<rparr>"

lemma one_jump_written: "write_jump_instruction 0 gen_new = Inr one_jump"
proof -
  have "operand_types JUMP_OPCODE = Some [SInt_t]" "can_throw JUMP_OPCODE = False" by code_simp+
  moreover have "w_bytes (write_u8 writer_new 58) = [58]" by (simp add: write_u8_def writer_new_def)
  ultimately show ?thesis
    by (simp add: write_jump_instruction_def write_jump_def jump_target_operand_def gen_new_def one_jump_def current_offset_def
        reserve_entry_def next_index_width_def ct_builder_new_def width_simps write_one_def write_instruction_def
        instruction_width_def operand_min_width_def min_width_for_signed_def write_width_prefix_def write_operand_def
        operand_bytes_def write_u8_def writer_new_def JUMP_OPCODE_def max_def less_eq_width_enum_def)
qed

lemma one_jump_started: "start_block one_jump 0 = Some one_jump_patched"
  by (simp add: start_block_def one_jump_def one_jump_patched_def gen_new_def current_offset_def writer_new_def
      patch_forward_jump_def decode_width_and_opcode_at_index_def byte_at_def WIDE_PREFIX_def EXTRA_WIDE_PREFIX_def
      min_width_for_signed_def width_simps try_from_signed_def remove_reserved_def ct_builder_new_def
      set_jump_offset_operand_def jump_operand_index_def JUMP_OPCODE_def set_u8_def fun_upd_idem)

theorem jumps_land_witness:
  "\<exists>J. gen_step\<^sup>*\<^sup>* (gen_new, []) (one_jump_patched, J) \<and>
       (\<exists>table. ct_finish (g_constants one_jump_patched) = Some table \<and>
          vm_jump_target (w_bytes (g_writer one_jump_patched)) table 0 = Some 2)"
proof -
  have "valid_jump 58 []" by (simp add: valid_jump_def jump_opcodes_def jump_operand_index_def JUMP_OPCODE_def)
  then have "gen_step (gen_new, []) (one_jump, [] @ [(current_offset (g_writer gen_new), 58, [], 0)])"
    using one_jump_written
    by (intro gen_step.jump) (simp_all add: write_jump_instruction_def JUMP_OPCODE_def one_jump_def writer_new_def
        gen_new_def next_index_width_def ct_builder_new_def width_simps)
  then have s1: "gen_step (gen_new, []) (one_jump, [(0, 58, [], 0)])"
    by (simp add: current_offset_def gen_new_def writer_new_def)
  have s2: "gen_step (one_jump, [(0, 58, [], 0)]) (one_jump_patched, [(0, 58, [], 0)])"
    by (rule gen_step.start_block [of _ 0]) (simp_all add: one_jump_started, simp add: one_jump_def gen_new_def)
  have run: "gen_step\<^sup>*\<^sup>* (gen_new, []) (one_jump_patched, [(0, 58, [], 0)])"
    using s1 s2 by (meson converse_rtranclp_into_rtranclp rtranclp.rtrancl_refl)
  have "g_unresolved one_jump_patched = Map.empty" by (simp add: one_jump_patched_def gen_new_def)
  from jumps_land [OF run this, of 0 58 "[]" 0] run show ?thesis
    by (auto simp: one_jump_patched_def)
qed

end
