(* ===== verification/Property.thy ===== *)
theory Property
  imports Value
begin

unbundle bit_operations_syntax

section \<open>Properties and property descriptors\<close>

text \<open>
  \<open>runtime/property.rs\<close>, \<open>runtime/property_descriptor.rs\<close>,
  \<open>runtime/property_key.rs\<close> and \<open>runtime/accessor.rs\<close>: what an object stores
  under a key, and the partial descriptions of properties that the internal methods exchange.
  The flags of a property are the bits of one byte. The lemmas read the bits after each setter;
  the rest of the object model rests on them only.
\<close>

type_synonym ptr = u64

named_theorems prop_simps \<open>values and flags of properties\<close>

subsection \<open>Keys\<close>

text \<open>
  A property key is a boxed value: a small integer for an array index, whose 32 bits are read as
  unsigned, otherwise the pointer to an interned string or a symbol. The datatype has the two
  cases; \<open>key_value\<close> is the boxed value that the source stores.
\<close>

datatype property_key = ArrayIndex u32 | NamedKey ptr

primrec key_value :: "property_key \<Rightarrow> value" where
  "key_value (ArrayIndex i) = value_smi i"
| "key_value (NamedKey p) = value_heap_item p"

primrec is_array_index :: "property_key \<Rightarrow> bool" where
  "is_array_index (ArrayIndex i) = True"
| "is_array_index (NamedKey p) = False"

text \<open>
  The key of an array index; the largest number of 32 bits is no array index and takes the string,
  whose interned pointer is a parameter.
\<close>

definition key_array_index :: "(nat \<Rightarrow> ptr) \<Rightarrow> u32 \<Rightarrow> property_key" where
  "key_array_index interned i = (if i = 0xFFFFFFFF then NamedKey (interned (unat i)) else ArrayIndex i)"

definition key_from_u64 :: "(nat \<Rightarrow> ptr) \<Rightarrow> u64 \<Rightarrow> property_key" where
  "key_from_u64 interned n =
     (if n \<ge> 0xFFFFFFFF then NamedKey (interned (unat n)) else ArrayIndex (ucast n))"

subsection \<open>Flags\<close>

type_synonym property_flags = u8

definition IS_WRITABLE :: property_flags where "IS_WRITABLE = push_bit 0 1"
definition IS_ENUMERABLE :: property_flags where "IS_ENUMERABLE = push_bit 1 1"
definition IS_CONFIGURABLE :: property_flags where "IS_CONFIGURABLE = push_bit 2 1"
definition IS_PRIVATE_FIELD :: property_flags where "IS_PRIVATE_FIELD = push_bit 3 1"
definition IS_PRIVATE_METHOD :: property_flags where "IS_PRIVATE_METHOD = push_bit 4 1"
definition IS_PRIVATE_ACCESSOR :: property_flags where "IS_PRIVATE_ACCESSOR = push_bit 5 1"

definition DENSE_ARRAY_PROPERTY_FLAGS :: property_flags where
  "DENSE_ARRAY_PROPERTY_FLAGS = IS_WRITABLE OR IS_ENUMERABLE OR IS_CONFIGURABLE"

text \<open>The operations of the \<open>bitflags\<close> types that the source uses.\<close>

definition flags_contains :: "property_flags \<Rightarrow> property_flags \<Rightarrow> bool" where
  "flags_contains fs f \<longleftrightarrow> fs AND f = f"

definition flags_intersects :: "property_flags \<Rightarrow> property_flags \<Rightarrow> bool" where
  "flags_intersects fs f \<longleftrightarrow> fs AND f \<noteq> 0"

definition flags_set :: "property_flags \<Rightarrow> bool \<Rightarrow> property_flags \<Rightarrow> property_flags" where
  "flags_set f b fs = (if b then fs OR f else fs AND NOT f)"

subsection \<open>Properties\<close>

text \<open>
  \<open>Property\<close> and \<open>HeapProperty\<close> have the same fields; they differ in whether the value is
  rooted on the stack.
\<close>

record property =
  prop_value :: "value"
  prop_flags :: property_flags

definition property_data :: "value \<Rightarrow> bool \<Rightarrow> bool \<Rightarrow> bool \<Rightarrow> property" where
  "property_data v is_writable is_enumerable is_configurable =
     (let flags = 0;
          flags = (if is_writable then flags OR IS_WRITABLE else flags);
          flags = (if is_enumerable then flags OR IS_ENUMERABLE else flags);
          flags = (if is_configurable then flags OR IS_CONFIGURABLE else flags)
      in \<lparr>prop_value = v, prop_flags = flags\<rparr>)"

definition property_accessor :: "value \<Rightarrow> bool \<Rightarrow> bool \<Rightarrow> property" where
  "property_accessor accessor_value is_enumerable is_configurable =
     (let flags = 0;
          flags = (if is_enumerable then flags OR IS_ENUMERABLE else flags);
          flags = (if is_configurable then flags OR IS_CONFIGURABLE else flags)
      in \<lparr>prop_value = accessor_value, prop_flags = flags\<rparr>)"

definition private_field :: "value \<Rightarrow> property" where
  "private_field v = \<lparr>prop_value = v, prop_flags = IS_PRIVATE_FIELD\<rparr>"

definition private_method :: "ptr \<Rightarrow> property" where
  "private_method m = \<lparr>prop_value = value_heap_item m, prop_flags = IS_PRIVATE_METHOD\<rparr>"

definition private_accessor :: "ptr \<Rightarrow> property" where
  "private_accessor a = \<lparr>prop_value = value_heap_item a, prop_flags = IS_PRIVATE_ACCESSOR\<rparr>"

definition prop_is_enumerable :: "property \<Rightarrow> bool" where
  "prop_is_enumerable p = flags_contains (prop_flags p) IS_ENUMERABLE"

definition prop_is_configurable :: "property \<Rightarrow> bool" where
  "prop_is_configurable p = flags_contains (prop_flags p) IS_CONFIGURABLE"

definition prop_is_writable :: "property \<Rightarrow> bool" where
  "prop_is_writable p = flags_contains (prop_flags p) IS_WRITABLE"

definition is_allowed_as_dense_array_property :: "property \<Rightarrow> bool" where
  "is_allowed_as_dense_array_property p = flags_contains (prop_flags p) DENSE_ARRAY_PROPERTY_FLAGS"

definition is_private :: "property \<Rightarrow> bool" where
  "is_private p =
     flags_intersects (prop_flags p) (IS_PRIVATE_FIELD OR IS_PRIVATE_METHOD OR IS_PRIVATE_ACCESSOR)"

definition prop_set_value :: "value \<Rightarrow> property \<Rightarrow> property" where
  "prop_set_value v p = p\<lparr>prop_value := v\<rparr>"

definition set_is_enumerable :: "bool \<Rightarrow> property \<Rightarrow> property" where
  "set_is_enumerable b p = p\<lparr>prop_flags := flags_set IS_ENUMERABLE b (prop_flags p)\<rparr>"

definition set_is_configurable :: "bool \<Rightarrow> property \<Rightarrow> property" where
  "set_is_configurable b p = p\<lparr>prop_flags := flags_set IS_CONFIGURABLE b (prop_flags p)\<rparr>"

definition set_is_writable :: "bool \<Rightarrow> property \<Rightarrow> property" where
  "set_is_writable b p = p\<lparr>prop_flags := flags_set IS_WRITABLE b (prop_flags p)\<rparr>"

subsection \<open>Accessors and descriptors\<close>

record accessor =
  acc_get :: "ptr option"
  acc_set :: "ptr option"

record property_descriptor =
  pd_value :: "value option"
  pd_is_writable :: "bool option"
  pd_is_enumerable :: "bool option"
  pd_is_configurable :: "bool option"
  pd_has_get :: bool
  pd_has_set :: bool
  pd_get :: "ptr option"
  pd_set :: "ptr option"

definition desc_data :: "value \<Rightarrow> bool \<Rightarrow> bool \<Rightarrow> bool \<Rightarrow> property_descriptor" where
  "desc_data v w e c =
     \<lparr>pd_value = Some v, pd_is_writable = Some w, pd_is_enumerable = Some e, pd_is_configurable = Some c,
      pd_has_get = False, pd_has_set = False, pd_get = None, pd_set = None\<rparr>"

definition desc_data_value_only :: "value \<Rightarrow> property_descriptor" where
  "desc_data_value_only v =
     \<lparr>pd_value = Some v, pd_is_writable = None, pd_is_enumerable = None, pd_is_configurable = None,
      pd_has_get = False, pd_has_set = False, pd_get = None, pd_set = None\<rparr>"

definition desc_accessor :: "ptr option \<Rightarrow> ptr option \<Rightarrow> bool \<Rightarrow> bool \<Rightarrow> property_descriptor" where
  "desc_accessor getter setter e c =
     \<lparr>pd_value = None, pd_is_writable = None, pd_is_enumerable = Some e, pd_is_configurable = Some c,
      pd_has_get = True, pd_has_set = True, pd_get = getter, pd_set = setter\<rparr>"

definition desc_get_only :: "ptr option \<Rightarrow> bool \<Rightarrow> bool \<Rightarrow> property_descriptor" where
  "desc_get_only getter e c =
     \<lparr>pd_value = None, pd_is_writable = None, pd_is_enumerable = Some e, pd_is_configurable = Some c,
      pd_has_get = True, pd_has_set = False, pd_get = getter, pd_set = None\<rparr>"

definition desc_set_only :: "ptr option \<Rightarrow> bool \<Rightarrow> bool \<Rightarrow> property_descriptor" where
  "desc_set_only setter e c =
     \<lparr>pd_value = None, pd_is_writable = None, pd_is_enumerable = Some e, pd_is_configurable = Some c,
      pd_has_get = False, pd_has_set = True, pd_get = None, pd_set = setter\<rparr>"

definition desc_attributes :: "bool option \<Rightarrow> bool option \<Rightarrow> bool option \<Rightarrow> property_descriptor" where
  "desc_attributes w e c =
     \<lparr>pd_value = None, pd_is_writable = w, pd_is_enumerable = e, pd_is_configurable = c,
      pd_has_get = False, pd_has_set = False, pd_get = None, pd_set = None\<rparr>"

text \<open>\<open>Option::unwrap_or(false)\<close>.\<close>

definition unwrap_or_false :: "bool option \<Rightarrow> bool" where
  "unwrap_or_false b = (case b of None \<Rightarrow> False | Some b \<Rightarrow> b)"

definition desc_is_writable :: "property_descriptor \<Rightarrow> bool" where
  "desc_is_writable d = unwrap_or_false (pd_is_writable d)"

definition desc_is_enumerable :: "property_descriptor \<Rightarrow> bool" where
  "desc_is_enumerable d = unwrap_or_false (pd_is_enumerable d)"

definition desc_is_configurable :: "property_descriptor \<Rightarrow> bool" where
  "desc_is_configurable d = unwrap_or_false (pd_is_configurable d)"

definition has_no_fields :: "property_descriptor \<Rightarrow> bool" where
  "has_no_fields d \<longleftrightarrow> pd_value d = None \<and> \<not> pd_has_get d \<and> \<not> pd_has_set d \<and>
     pd_is_writable d = None \<and> pd_is_enumerable d = None \<and> pd_is_configurable d = None"

definition is_accessor_descriptor :: "property_descriptor \<Rightarrow> bool" where
  "is_accessor_descriptor d \<longleftrightarrow> pd_has_get d \<or> pd_has_set d"

definition is_data_descriptor :: "property_descriptor \<Rightarrow> bool" where
  "is_data_descriptor d \<longleftrightarrow> pd_value d \<noteq> None \<or> pd_is_writable d \<noteq> None"

definition is_generic_descriptor :: "property_descriptor \<Rightarrow> bool" where
  "is_generic_descriptor d \<longleftrightarrow> \<not> is_data_descriptor d \<and> \<not> is_accessor_descriptor d"

definition complete_property_descriptor :: "property_descriptor \<Rightarrow> property_descriptor" where
  "complete_property_descriptor d =
     (let d = (if is_generic_descriptor d \<or> is_data_descriptor d then
                 (let d = (if pd_value d = None then d\<lparr>pd_value := Some value_undefined\<rparr> else d)
                  in if pd_is_writable d = None then d\<lparr>pd_is_writable := Some False\<rparr> else d)
               else d);
          d = (if pd_is_enumerable d = None then d\<lparr>pd_is_enumerable := Some False\<rparr> else d)
      in if pd_is_configurable d = None then d\<lparr>pd_is_configurable := Some False\<rparr> else d)"

subsection \<open>Reading the flags\<close>

lemma key_value_inj: "key_value (ArrayIndex i) = key_value (ArrayIndex j) \<longleftrightarrow> i = j"
  by (metis as_smi_value_smi key_value.simps(1))

lemma flag_bits:
  "bit IS_WRITABLE n \<longleftrightarrow> n = 0" "bit IS_ENUMERABLE n \<longleftrightarrow> n = 1" "bit IS_CONFIGURABLE n \<longleftrightarrow> n = 2"
  unfolding IS_WRITABLE_def IS_ENUMERABLE_def IS_CONFIGURABLE_def bit_push_bit_iff by (auto simp: bit_1_iff)

lemma flags_contains_iff: "flags_contains fs f \<longleftrightarrow> (\<forall>n. bit f n \<longrightarrow> bit fs n)"
  unfolding flags_contains_def bit_eq_iff [of "fs AND f" f] bit_and_iff
  by (metis bit_imp_possible_bit)

lemma bit_flags_set: "bit (flags_set f b fs) n \<longleftrightarrow> (if bit f n then b else bit fs n)"
  unfolding flags_set_def by (auto simp: bit_simps dest: bit_imp_le_length)

lemma flag_tests [prop_simps]:
  "prop_is_writable p \<longleftrightarrow> bit (prop_flags p) 0"
  "prop_is_enumerable p \<longleftrightarrow> bit (prop_flags p) 1"
  "prop_is_configurable p \<longleftrightarrow> bit (prop_flags p) 2"
  by (simp_all add: prop_is_writable_def prop_is_enumerable_def prop_is_configurable_def
      flags_contains_iff flag_bits)

lemma is_allowed_iff [prop_simps]:
  "is_allowed_as_dense_array_property p \<longleftrightarrow>
     bit (prop_flags p) 0 \<and> bit (prop_flags p) 1 \<and> bit (prop_flags p) 2"
  by (auto simp: is_allowed_as_dense_array_property_def DENSE_ARRAY_PROPERTY_FLAGS_def
      flags_contains_iff bit_or_iff flag_bits)

lemma set_flags [prop_simps]:
  "bit (prop_flags (set_is_writable b p)) n \<longleftrightarrow> (if n = 0 then b else bit (prop_flags p) n)"
  "bit (prop_flags (set_is_enumerable b p)) n \<longleftrightarrow> (if n = 1 then b else bit (prop_flags p) n)"
  "bit (prop_flags (set_is_configurable b p)) n \<longleftrightarrow> (if n = 2 then b else bit (prop_flags p) n)"
  "prop_flags (prop_set_value v p) = prop_flags p"
  by (simp_all add: set_is_writable_def set_is_enumerable_def set_is_configurable_def prop_set_value_def
      bit_flags_set flag_bits)

lemma set_values [prop_simps]:
  "prop_value (set_is_writable b p) = prop_value p" "prop_value (set_is_enumerable b p) = prop_value p"
  "prop_value (set_is_configurable b p) = prop_value p" "prop_value (prop_set_value v p) = v"
  by (simp_all add: set_is_writable_def set_is_enumerable_def set_is_configurable_def prop_set_value_def)

text \<open>A property that uses no flag but the three attributes.\<close>

definition plain_flags :: "property \<Rightarrow> bool" where
  "plain_flags p \<longleftrightarrow> (\<forall>n \<ge> 3. \<not> bit (prop_flags p) n)"

lemma plain_flags_set:
  "plain_flags p \<Longrightarrow> plain_flags (set_is_writable b p)" "plain_flags p \<Longrightarrow> plain_flags (set_is_enumerable b p)"
  "plain_flags p \<Longrightarrow> plain_flags (set_is_configurable b p)" "plain_flags p \<Longrightarrow> plain_flags (prop_set_value v p)"
  by (simp_all add: plain_flags_def prop_simps)

lemma new_flags [prop_simps]:
  "bit (prop_flags (property_data v w e c)) n \<longleftrightarrow> n = 0 \<and> w \<or> n = 1 \<and> e \<or> n = 2 \<and> c"
  "bit (prop_flags (property_accessor v e c)) n \<longleftrightarrow> n = 1 \<and> e \<or> n = 2 \<and> c"
  by (auto simp: property_data_def property_accessor_def Let_def bit_or_iff flag_bits)

lemma new_properties [prop_simps]:
  "prop_value (property_data v w e c) = v" "prop_value (property_accessor v e c) = v"
  "plain_flags (property_data v w e c)" "plain_flags (property_accessor v e c)"
  by (simp add: property_data_def Let_def, simp add: property_accessor_def Let_def,
      auto simp: plain_flags_def new_flags)

lemma property_eqI:
  assumes "prop_value p = prop_value q" "plain_flags p" "plain_flags q"
    "\<And>n. n < 3 \<Longrightarrow> bit (prop_flags p) n = bit (prop_flags q) n"
  shows "p = (q :: property)"
proof (rule property.equality)
  have "bit (prop_flags p) n = bit (prop_flags q) n" for n
    using assms(2-4) by (cases "n < 3") (auto simp: plain_flags_def not_less)
  then show "prop_flags p = prop_flags q" by (intro bit_word_eqI) simp
qed (simp_all add: assms(1))

text \<open>A dense property comes back from its value alone.\<close>

lemma dense_property_restored:
  assumes "plain_flags p" "is_allowed_as_dense_array_property p"
  shows "property_data (prop_value p) True True True = p"
proof (rule property_eqI)
  fix n :: nat
  assume "n < 3"
  then consider "n = 0" | "n = 1" | "n = 2" by linarith
  then show "bit (prop_flags (property_data (prop_value p) True True True)) n = bit (prop_flags p) n"
    using assms(2) by cases (simp_all add: new_flags is_allowed_iff)
qed (simp_all add: assms prop_simps)

subsection \<open>Stores of properties\<close>

text \<open>
  What the internal methods need from the place where properties are kept: looking a key up after
  storing or removing a property gives the property, and other keys keep theirs. Values marked as
  holes (\<open>Value::empty\<close>) cannot be stored. Overwriting a present property is only promised
  while the store is \<open>clean\<close>; removing the property of a \<open>light\<close> key keeps it clean.
\<close>

definition storable :: "property \<Rightarrow> bool" where
  "storable p \<longleftrightarrow> plain_flags p \<and> \<not> is_empty (prop_value p)"

locale property_store =
  fixes inv :: "'s \<Rightarrow> bool"
    and props :: "'s \<Rightarrow> 'k \<rightharpoonup> property"
    and lookup :: "'s \<Rightarrow> 'k \<Rightarrow> property option option"
    and put :: "'s \<Rightarrow> 'k \<Rightarrow> property \<Rightarrow> 's option"
    and del :: "'s \<Rightarrow> 'k \<Rightarrow> 's option"
    and key_ok :: "'k \<Rightarrow> bool"
    and clean :: "'s \<Rightarrow> bool"
    and light :: "'s \<Rightarrow> 'k \<Rightarrow> bool"
  assumes lookup_props: "inv s \<Longrightarrow> lookup s k = Some (props s k)"
    and put_props: "\<lbrakk>inv s; clean s \<or> props s k = None; key_ok k; storable p\<rbrakk> \<Longrightarrow>
          \<exists>s'. put s k p = Some s' \<and> inv s' \<and> props s' = (props s)(k \<mapsto> p) \<and> (clean s \<longrightarrow> clean s')"
    and del_props: "\<lbrakk>inv s; props s k \<noteq> None\<rbrakk> \<Longrightarrow>
          \<exists>s'. del s k = Some s' \<and> inv s' \<and> props s' = (props s)(k := None) \<and> (light s k \<longrightarrow> clean s \<longrightarrow> clean s')"
begin

lemma lookup_put:
  assumes "inv s" "clean s \<or> props s k = None" "key_ok k" "storable p"
  shows "\<exists>s'. put s k p = Some s' \<and> lookup s' k' = (if k' = k then Some (Some p) else lookup s k')"
  using put_props [OF assms] lookup_props assms(1) by fastforce

text \<open>Reading a property, changing it and storing it back.\<close>

lemma update_props:
  assumes "inv s" "clean s" "key_ok k" "props s k = Some p" "storable (f p)"
  shows "\<exists>s'. Option.bind (lookup s k) (\<lambda>r. Option.bind r (\<lambda>p. put s k (f p))) = Some s' \<and> inv s' \<and> clean s' \<and>
           props s' = (props s)(k \<mapsto> f p)"
  using put_props [of s k "f p"] lookup_props [of s k] assms by auto

end

end
