(* ===== verification/Ordered_Store.thy ===== *)
theory Ordered_Store
  imports Prelude
begin

section \<open>Stores of key-value pairs in insertion order\<close>

text \<open>
  The contract that JavaScript's \<open>Map\<close> and \<open>Set\<close> need from their backing store, over
  the list of the pairs in insertion order: overwriting keeps a key's position, a new key goes to
  the end, removal takes the pair out. Operations return \<open>None\<close> on undefined behaviour, which
  the contract rules out. What clients use of a store is proved once from the contract.
\<close>

definition al_insert :: "'k \<Rightarrow> 'v \<Rightarrow> ('k \<times> 'v) list \<Rightarrow> ('k \<times> 'v) list" where
  "al_insert k v xs =
     (if k \<in> fst ` set xs then map (\<lambda>(k', v'). if k' = k then (k', v) else (k', v')) xs
      else xs @ [(k, v)])"

definition al_remove :: "'k \<Rightarrow> ('k \<times> 'v) list \<Rightarrow> ('k \<times> 'v) list" where
  "al_remove k xs = filter (\<lambda>kv. fst kv \<noteq> k) xs"

lemma map_of_overwrite:
  "map_of (map (\<lambda>(k', v'). if k' = k then (k', v) else (k', v')) xs) k' =
     (if k' = k \<and> k \<in> fst ` set xs then Some v else map_of xs k')"
proof (induction xs)
  case (Cons x xs)
  obtain a b where "x = (a, b)" by (cases x)
  then show ?case using Cons by (cases "k' = k"; cases "a = k") simp_all
qed simp

lemma map_of_al_insert: "map_of (al_insert k v xs) = (map_of xs)(k \<mapsto> v)"
proof
  fix k'
  show "map_of (al_insert k v xs) k' = ((map_of xs)(k \<mapsto> v)) k'"
  proof (cases "k \<in> fst ` set xs")
    case True
    then show ?thesis by (simp add: al_insert_def map_of_overwrite)
  next
    case False
    then have "map_of xs k = None" by (simp add: map_of_eq_None_iff)
    then show ?thesis using False by (auto simp: al_insert_def map_add_def split: option.splits)
  qed
qed

lemma map_of_al_remove: "map_of (al_remove k xs) = (map_of xs)(k := None)"
  unfolding al_remove_def by (induction xs) (auto simp: fun_eq_iff)

lemma fst_overwrite: "map fst (map (\<lambda>(k', v'). if k' = k then (k', v) else (k', v')) xs) = map fst xs"
proof (induction xs)
  case (Cons x xs)
  then show ?case by (cases x) simp
qed simp

lemma distinct_al_insert: "distinct (map fst xs) \<Longrightarrow> distinct (map fst (al_insert k v xs))"
proof (cases "k \<in> fst ` set xs")
  case True
  assume "distinct (map fst xs)"
  then show ?thesis using True by (simp only: al_insert_def fst_overwrite if_True)
qed (simp add: al_insert_def)

lemma distinct_al_remove: "distinct (map fst xs) \<Longrightarrow> distinct (map fst (al_remove k xs))"
  unfolding al_remove_def by (rule distinct_map_filter)

datatype ('k, 'v) store_op = Put 'k 'v | Del 'k

primrec al_op :: "('k \<times> 'v) list \<Rightarrow> ('k, 'v) store_op \<Rightarrow> ('k \<times> 'v) list" where
  "al_op xs (Put k v) = al_insert k v xs"
| "al_op xs (Del k) = al_remove k xs"

text \<open>Runs a sequence of operations, failing when one of them does.\<close>

primrec run_ops ::
  "('m \<Rightarrow> 'k \<Rightarrow> 'v \<Rightarrow> ('m \<times> bool) option) \<Rightarrow> ('m \<Rightarrow> 'k \<Rightarrow> ('m \<times> bool) option) \<Rightarrow>
   'm \<Rightarrow> ('k, 'v) store_op list \<Rightarrow> 'm option" where
  "run_ops put del m [] = Some m"
| "run_ops put del m (x # xs) =
     Option.bind (case x of Put k v \<Rightarrow> put m k v | Del k \<Rightarrow> del m k) (\<lambda>(m', _). run_ops put del m' xs)"

primrec map_op :: "('k \<rightharpoonup> 'v) \<Rightarrow> ('k, 'v) store_op \<Rightarrow> ('k \<rightharpoonup> 'v)" where
  "map_op M (Put k v) = M(k \<mapsto> v)"
| "map_op M (Del k) = M(k := None)"

text \<open>
  No key that is present is put again once a key has been removed; \<open>removed\<close> says whether one
  has been.
\<close>

primrec safe_ops :: "('k \<rightharpoonup> 'v) \<Rightarrow> bool \<Rightarrow> ('k, 'v) store_op list \<Rightarrow> bool" where
  "safe_ops M removed [] \<longleftrightarrow> True"
| "safe_ops M removed (x # xs) \<longleftrightarrow>
     (case x of Put k v \<Rightarrow> \<not> removed \<or> M k = None | Del k \<Rightarrow> True) \<and>
     safe_ops (map_op M x) (case x of Put k v \<Rightarrow> removed | Del k \<Rightarrow> removed \<or> M k \<noteq> None) xs"

text \<open>
  A store that implements a finite map, with a condition \<open>clean\<close> under which a present key may
  be overwritten and which removing a key may end.
\<close>

locale finite_map_store =
  fixes inv :: "'m \<Rightarrow> bool"
    and abs :: "'m \<Rightarrow> ('k \<rightharpoonup> 'v)"
    and lookup :: "'m \<Rightarrow> 'k \<Rightarrow> 'v option option"
    and put :: "'m \<Rightarrow> 'k \<Rightarrow> 'v \<Rightarrow> ('m \<times> bool) option"
    and del :: "'m \<Rightarrow> 'k \<Rightarrow> ('m \<times> bool) option"
    and clean :: "'m \<Rightarrow> bool"
  assumes lookup_abs: "inv m \<Longrightarrow> lookup m k = Some (abs m k)"
    and put_abs: "inv m \<Longrightarrow> clean m \<or> abs m k = None \<Longrightarrow>
          \<exists>m'. put m k v = Some (m', abs m k \<noteq> None) \<and> inv m' \<and> abs m' = (abs m)(k \<mapsto> v) \<and> (clean m \<longrightarrow> clean m')"
    and del_abs: "inv m \<Longrightarrow>
          \<exists>m'. del m k = Some (m', abs m k \<noteq> None) \<and> inv m' \<and> abs m' = (abs m)(k := None) \<and>
            (abs m k = None \<longrightarrow> clean m \<longrightarrow> clean m')"
begin

lemma run_ops_abs:
  assumes "inv m" "removed \<or> clean m" "safe_ops (abs m) removed ops"
  shows "\<exists>m'. run_ops put del m ops = Some m' \<and> inv m' \<and> abs m' = foldl map_op (abs m) ops"
  using assms
proof (induction ops arbitrary: m removed)
  case (Cons x ops)
  let ?removed = "case x of Put k v \<Rightarrow> removed | Del k \<Rightarrow> removed \<or> abs m k \<noteq> None"
  have ok: "case x of Put k v \<Rightarrow> \<not> removed \<or> abs m k = None | Del k \<Rightarrow> True"
    "safe_ops (map_op (abs m) x) ?removed ops"
    using Cons.prems(3) by simp_all
  have "\<exists>m' b. (case x of Put k v \<Rightarrow> put m k v | Del k \<Rightarrow> del m k) = Some (m', b) \<and> inv m' \<and>
      abs m' = map_op (abs m) x \<and> (?removed \<or> clean m')"
  proof (cases x)
    case (Put k v)
    then show ?thesis using put_abs [OF Cons.prems(1), of k v] ok(1) Cons.prems(2) by auto
  next
    case (Del k)
    then show ?thesis using del_abs [OF Cons.prems(1), of k] Cons.prems(2) by (cases "abs m k") auto
  qed
  then obtain m' b where m': "(case x of Put k v \<Rightarrow> put m k v | Del k \<Rightarrow> del m k) = Some (m', b)" "inv m'"
      "abs m' = map_op (abs m) x" "?removed \<or> clean m'" by blast
  have "\<exists>m''. run_ops put del m' ops = Some m'' \<and> inv m'' \<and> abs m'' = foldl map_op (abs m') ops"
    using m'(2-4) ok(2) by (intro Cons.IH [of _ ?removed]) simp_all
  then show ?case using m'(1,3) by simp
qed simp

end

locale ordered_store =
  fixes inv :: "'m \<Rightarrow> bool"
    and items :: "'m \<Rightarrow> ('k \<times> 'v) list"
    and lookup :: "'m \<Rightarrow> 'k \<Rightarrow> 'v option option"
    and put :: "'m \<Rightarrow> 'k \<Rightarrow> 'v \<Rightarrow> ('m \<times> bool) option"
    and del :: "'m \<Rightarrow> 'k \<Rightarrow> ('m \<times> bool) option"
  assumes items_distinct: "inv m \<Longrightarrow> distinct (map fst (items m))"
    and lookup_items: "inv m \<Longrightarrow> lookup m k = Some (map_of (items m) k)"
    and put_items: "inv m \<Longrightarrow> \<exists>m'. put m k v = Some (m', k \<in> fst ` set (items m)) \<and> inv m' \<and>
          items m' = al_insert k v (items m)"
    and del_items: "inv m \<Longrightarrow> \<exists>m'. del m k = Some (m', k \<in> fst ` set (items m)) \<and> inv m' \<and>
          items m' = al_remove k (items m)"
begin

lemma lookup_put:
  assumes "inv m"
  shows "\<exists>m' b. put m k v = Some (m', b) \<and> inv m' \<and>
           lookup m' k' = (if k' = k then Some (Some v) else lookup m k')"
  using put_items [OF assms, of k v] lookup_items [OF assms] by (auto simp: lookup_items map_of_al_insert)

lemma lookup_del:
  assumes "inv m"
  shows "\<exists>m' b. del m k = Some (m', b) \<and> inv m' \<and>
           lookup m' k' = (if k' = k then Some None else lookup m k')"
  using del_items [OF assms, of k] lookup_items [OF assms] by (auto simp: lookup_items map_of_al_remove)

lemma run_ops_items:
  assumes "inv m"
  shows "\<exists>m'. run_ops put del m ops = Some m' \<and> inv m' \<and> items m' = foldl al_op (items m) ops"
  using assms
proof (induction ops arbitrary: m)
  case (Cons x ops)
  obtain m' b where m': "(case x of Put k v \<Rightarrow> put m k v | Del k \<Rightarrow> del m k) = Some (m', b)" "inv m'"
      "items m' = al_op (items m) x"
    using put_items [OF Cons.prems] del_items [OF Cons.prems] by (cases x) fastforce+
  then show ?case using Cons.IH [OF m'(2)] by simp
qed simp

end

text \<open>A store in insertion order implements a finite map, without the condition.\<close>

sublocale ordered_store \<subseteq> fm: finite_map_store inv "\<lambda>m. map_of (items m)" lookup put del "\<lambda>m. True"
proof
  fix m k v
  assume inv: "inv m"
  have present: "k \<in> fst ` set (items m) \<longleftrightarrow> map_of (items m) k \<noteq> None" by (simp add: map_of_eq_None_iff)
  show "lookup m k = Some (map_of (items m) k)" by (rule lookup_items [OF inv])
  show "\<exists>m'. put m k v = Some (m', map_of (items m) k \<noteq> None) \<and> inv m' \<and>
      map_of (items m') = (map_of (items m))(k \<mapsto> v) \<and> (True \<longrightarrow> True)"
    using put_items [OF inv, of k v] unfolding present by (auto simp: map_of_al_insert)
  show "\<exists>m'. del m k = Some (m', map_of (items m) k \<noteq> None) \<and> inv m' \<and>
      map_of (items m') = (map_of (items m))(k := None) \<and> (map_of (items m) k = None \<longrightarrow> True \<longrightarrow> True)"
    using del_items [OF inv, of k] unfolding present by (auto simp: map_of_al_remove)
qed

end
