(* ===== verification/Hash_Map.thy ===== *)
theory Hash_Map
  imports Ordered_Store
begin

unbundle bit_operations_syntax

section \<open>The probing hash map\<close>

text \<open>
  \<open>runtime/collections/hash_map.rs\<close>: one array of entries, probed at distances 0, 1, 3, 6, ...
  from the key's hash code (the stride grows by one). An access outside the array is undefined
  behaviour, the value \<open>None\<close> of an operation. As for the insertion-ordered map the hash
  function of the keys is a parameter.

  Shown here: the probe sequence visits every slot once, so that the loops' bound misses nothing;
  insertion, removal and growth implement updates of a finite map as long as no key that is present
  is inserted again after a removal; and a sequence outside that condition after which a removed
  key is still found.
\<close>

datatype ('k, 'v) hm_entry = Empty | HDeleted | HOccupied 'k 'v

record ('k, 'v) hash_map =
  hm_len :: nat
  hm_entries :: "('k, 'v) hm_entry list"

definition HM_MIN_CAPACITY :: nat where "HM_MIN_CAPACITY = 4"

definition hm_new :: "nat \<Rightarrow> ('k, 'v) hash_map" where
  "hm_new cap = \<lparr>hm_len = 0, hm_entries = replicate cap Empty\<rparr>"

definition hm_new_initial :: "('k, 'v) hash_map" where
  "hm_new_initial = hm_new HM_MIN_CAPACITY"

definition hm_capacity :: "('k, 'v) hash_map \<Rightarrow> nat" where
  "hm_capacity m = length (hm_entries m)"

text \<open>\<open>usize::next_power_of_two\<close>, as the standard library documents it.\<close>

function next_power_of_two_from :: "nat \<Rightarrow> nat \<Rightarrow> nat" where
  "next_power_of_two_from c n = (if n \<le> c \<or> c = 0 then c else next_power_of_two_from (2 * c) n)"
  by pat_completeness auto
termination by (relation "measure (\<lambda>(c, n). n - c)") auto

declare next_power_of_two_from.simps [simp del]

definition next_power_of_two :: "nat \<Rightarrow> nat" where
  "next_power_of_two n = next_power_of_two_from 1 n"

definition min_capacity_needed :: "nat \<Rightarrow> nat" where
  "min_capacity_needed num_elements =
     (let capacity = next_power_of_two num_elements in
      if num_elements > capacity div 2 then capacity * 2 else capacity)"

definition mask_of :: "('k, 'v) hash_map \<Rightarrow> nat" where
  "mask_of m = hm_capacity m - 1"

definition initial_probe_index :: "('k, 'v) hash_map \<Rightarrow> nat \<Rightarrow> nat" where
  "initial_probe_index m key_hash_code = key_hash_code AND mask_of m"

definition next_probe_index :: "('k, 'v) hash_map \<Rightarrow> nat \<Rightarrow> nat \<Rightarrow> nat" where
  "next_probe_index m prev_probe_index probe_stride = (prev_probe_index + probe_stride) AND mask_of m"

definition hm_get_unchecked :: "('k, 'v) hash_map \<Rightarrow> nat \<Rightarrow> ('k, 'v) hm_entry option" where
  "hm_get_unchecked m i = (if i < length (hm_entries m) then Some (hm_entries m ! i) else None)"

definition hm_set_unchecked :: "('k, 'v) hash_map \<Rightarrow> nat \<Rightarrow> ('k, 'v) hm_entry \<Rightarrow> ('k, 'v) hash_map option" where
  "hm_set_unchecked m i e =
     (if i < length (hm_entries m) then Some (m\<lparr>hm_entries := (hm_entries m)[i := e]\<rparr>) else None)"

text \<open>The loops run over the list of strides that are still to come.\<close>

primrec hm_find_loop :: "('k, 'v) hash_map \<Rightarrow> 'k \<Rightarrow> nat \<Rightarrow> nat list \<Rightarrow> nat option option" where
  "hm_find_loop m k probe_index [] = Some None"
| "hm_find_loop m k probe_index (stride # strides) =
     (case hm_get_unchecked m probe_index of
        None \<Rightarrow> None
      | Some Empty \<Rightarrow> Some None
      | Some HDeleted \<Rightarrow> hm_find_loop m k (next_probe_index m probe_index stride) strides
      | Some (HOccupied k' v) \<Rightarrow>
          if k' = k then Some (Some probe_index)
          else hm_find_loop m k (next_probe_index m probe_index stride) strides)"

definition hm_find_index :: "('k \<Rightarrow> nat) \<Rightarrow> ('k, 'v) hash_map \<Rightarrow> 'k \<Rightarrow> nat option option" where
  "hm_find_index hash m k = hm_find_loop m k (initial_probe_index m (hash k)) [1..<hm_capacity m + 1]"

definition hm_contains_key :: "('k \<Rightarrow> nat) \<Rightarrow> ('k, 'v) hash_map \<Rightarrow> 'k \<Rightarrow> bool option" where
  "hm_contains_key hash m k = map_option (\<lambda>r. r \<noteq> None) (hm_find_index hash m k)"

definition hm_get :: "('k \<Rightarrow> nat) \<Rightarrow> ('k, 'v) hash_map \<Rightarrow> 'k \<Rightarrow> 'v option option" where
  "hm_get hash m k =
     do { r \<leftarrow> hm_find_index hash m k;
          (case r of None \<Rightarrow> Some None
           | Some i \<Rightarrow> (case hm_get_unchecked m i of Some (HOccupied k' v) \<Rightarrow> Some (Some v) | _ \<Rightarrow> None)) }"

definition hm_remove ::
  "('k \<Rightarrow> nat) \<Rightarrow> ('k, 'v) hash_map \<Rightarrow> 'k \<Rightarrow> (('k, 'v) hash_map \<times> bool) option" where
  "hm_remove hash m k =
     do { r \<leftarrow> hm_find_index hash m k;
          (case r of None \<Rightarrow> Some (m, False)
           | Some i \<Rightarrow> do { m' \<leftarrow> hm_set_unchecked m i HDeleted; Some (m'\<lparr>hm_len := hm_len m' - 1\<rparr>, True) }) }"

primrec hm_insert_loop ::
  "('k, 'v) hash_map \<Rightarrow> 'k \<Rightarrow> 'v \<Rightarrow> nat \<Rightarrow> nat list \<Rightarrow> (('k, 'v) hash_map \<times> bool) option" where
  "hm_insert_loop m k v probe_index [] = Some (m, False)"
| "hm_insert_loop m k v probe_index (stride # strides) =
     (case hm_get_unchecked m probe_index of
        None \<Rightarrow> None
      | Some (HOccupied k' v') \<Rightarrow>
          if k' = k then map_option (\<lambda>m'. (m', True)) (hm_set_unchecked m probe_index (HOccupied k' v))
          else hm_insert_loop m k v (next_probe_index m probe_index stride) strides
      | Some _ \<Rightarrow>
          do { m' \<leftarrow> hm_set_unchecked m probe_index (HOccupied k v);
               Some (m'\<lparr>hm_len := hm_len m' + 1\<rparr>, False) })"

definition hm_insert_without_growing ::
  "('k \<Rightarrow> nat) \<Rightarrow> ('k, 'v) hash_map \<Rightarrow> 'k \<Rightarrow> 'v \<Rightarrow> (('k, 'v) hash_map \<times> bool) option" where
  "hm_insert_without_growing hash m k v =
     hm_insert_loop m k v (initial_probe_index m (hash k)) [1..<hm_capacity m + 1]"

fun hm_pair :: "('k, 'v) hm_entry \<Rightarrow> ('k \<times> 'v) list" where
  "hm_pair (HOccupied k v) = [(k, v)]"
| "hm_pair _ = []"

definition hm_iter :: "('k, 'v) hash_map \<Rightarrow> ('k \<times> 'v) list" where
  "hm_iter m = concat (map hm_pair (hm_entries m))"

primrec hm_insert_all ::
  "('k \<Rightarrow> nat) \<Rightarrow> ('k, 'v) hash_map \<Rightarrow> ('k \<times> 'v) list \<Rightarrow> ('k, 'v) hash_map option" where
  "hm_insert_all hash m [] = Some m"
| "hm_insert_all hash m (kv # kvs) =
     do { (m', _) \<leftarrow> hm_insert_without_growing hash m (fst kv) (snd kv); hm_insert_all hash m' kvs }"

definition hm_maybe_grow_for_insertion ::
  "('k \<Rightarrow> nat) \<Rightarrow> ('k, 'v) hash_map \<Rightarrow> ('k, 'v) hash_map option" where
  "hm_maybe_grow_for_insertion hash m =
     (let new_length = hm_len m + 1; capacity = hm_capacity m in
      if new_length \<le> capacity div 2 then Some m
      else hm_insert_all hash (hm_new (capacity * 2)) (hm_iter m))"

text \<open>How the clients insert: grow if needed, then insert.\<close>

definition hm_insert ::
  "('k \<Rightarrow> nat) \<Rightarrow> ('k, 'v) hash_map \<Rightarrow> 'k \<Rightarrow> 'v \<Rightarrow> (('k, 'v) hash_map \<times> bool) option" where
  "hm_insert hash m k v =
     do { m' \<leftarrow> hm_maybe_grow_for_insertion hash m; hm_insert_without_growing hash m' k v }"

subsection \<open>The probe sequence\<close>

definition probe_at :: "nat \<Rightarrow> nat \<Rightarrow> nat \<Rightarrow> nat" where
  "probe_at h cap i = (h + i * (i + 1) div 2) mod cap"

lemma and_pow2_mask: "(x::nat) AND (2 ^ p - 1) = x mod 2 ^ p"
  by (simp add: take_bit_eq_mask mask_eq_exp_minus_1 flip: take_bit_eq_mod)

lemma triangle_Suc: "Suc i * (Suc i + 1) div 2 = i * (i + 1) div 2 + Suc i"
proof -
  have "Suc i * (Suc i + 1) = i * (i + 1) + Suc i * 2" by simp
  then show ?thesis by (metis add.commute div_mult_self1 zero_neq_numeral)
qed

lemma probe_at_Suc: "(probe_at h cap i + Suc i) mod cap = probe_at h cap (Suc i)"
  unfolding probe_at_def triangle_Suc by (simp only: mod_add_left_eq add.assoc)

text \<open>Two distances that agree modulo the capacity are the same distance.\<close>

lemma odd_cofactor_dvd:
  assumes "(2::nat) ^ q dvd a * b" "odd b"
  shows "2 ^ q dvd a"
proof -
  have "coprime ((2::nat) ^ q) b" using assms(2) by simp
  then show ?thesis using assms(1) by (simp add: coprime_dvd_mult_left_iff)
qed

lemma triangle_even: "even (i * (i + 1) :: nat)"
  by simp

lemma triangle_inj:
  assumes "i < j" "j < 2 ^ p"
  shows "(h + i * (i + 1) div 2) mod 2 ^ p \<noteq> (h + j * (j + 1) div 2) mod (2 ^ p :: nat)"
proof
  assume eq: "(h + i * (i + 1) div 2) mod 2 ^ p = (h + j * (j + 1) div 2) mod (2 ^ p :: nat)"
  define ti tj where "ti = i * (i + 1) div 2" and "tj = j * (j + 1) div 2"
  have t: "2 * ti = i * (i + 1)" "2 * tj = j * (j + 1)" by (simp_all add: ti_def tj_def)
  have le: "ti \<le> tj" unfolding ti_def tj_def using assms(1) by (intro div_le_mono mult_le_mono) simp_all
  have "2 ^ p dvd tj - ti"
  proof -
    have "2 ^ p dvd (h + tj) - (h + ti)"
      using eq [symmetric] le unfolding ti_def [symmetric] tj_def [symmetric] by (subst mod_eq_dvd_iff_nat [symmetric]) simp_all
    then show ?thesis by simp
  qed
  then have "2 ^ Suc p dvd 2 * (tj - ti)" by simp
  also have "2 * (tj - ti) = (j - i) * (j + i + 1)"
  proof -
    have "2 * (tj - ti) = j * (j + 1) - i * (i + 1)" using t by (simp add: diff_mult_distrib2)
    also have "\<dots> = (j - i) * (j + i + 1)"
    proof -
      obtain d where "j = i + d" using assms(1) less_imp_add_positive by blast
      then show ?thesis by (simp add: algebra_simps)
    qed
    finally show ?thesis .
  qed
  finally have dvd: "2 ^ Suc p dvd (j - i) * (j + i + 1)" .
  have "odd (j + i + 1) \<or> odd (j - i)" using assms(1) by (cases "even i"; cases "even j") auto
  then show False
  proof
    assume "odd (j + i + 1)"
    then have "2 ^ Suc p dvd j - i" using odd_cofactor_dvd [OF dvd] by blast
    then have "2 ^ Suc p \<le> j - i" using assms(1) by (intro dvd_imp_le) simp_all
    then show False using assms(2) by simp
  next
    assume "odd (j - i)"
    then have "2 ^ Suc p dvd j + i + 1" using odd_cofactor_dvd [of "Suc p" "j + i + 1" "j - i"] dvd
      by (simp add: mult.commute)
    then have "2 ^ Suc p \<le> j + i + 1" by (intro dvd_imp_le) simp_all
    then show False using assms by simp
  qed
qed

lemma probe_at_inj: "inj_on (probe_at h (2 ^ p)) {..<2 ^ p}"
proof (rule linorder_inj_onI')
  fix i j :: nat
  assume "i \<in> {..<2 ^ p}" "j \<in> {..<2 ^ p}" "i < j"
  then show "probe_at h (2 ^ p) i \<noteq> probe_at h (2 ^ p) j"
    unfolding probe_at_def by (intro triangle_inj) simp_all
qed

lemma probe_at_surj: "probe_at h (2 ^ p) ` {..<2 ^ p} = {..<2 ^ p}"
proof (rule endo_inj_surj)
  show "probe_at h (2 ^ p) ` {..<2 ^ p} \<subseteq> {..<2 ^ p}" by (auto simp: probe_at_def)
qed (simp_all add: probe_at_inj)

definition probes :: "('k \<Rightarrow> nat) \<Rightarrow> ('k, 'v) hash_map \<Rightarrow> 'k \<Rightarrow> nat list" where
  "probes hash m k = map (probe_at (hash k) (hm_capacity m)) [0..<hm_capacity m]"

text \<open>
  The loops as searches along the probe sequence: \<open>find_index\<close> stops at an empty slot or at
  the key, \<open>insert_without_growing\<close> at a slot that is not occupied or holds the key.
\<close>

definition stops_find :: "('k, 'v) hash_map \<Rightarrow> 'k \<Rightarrow> nat \<Rightarrow> bool" where
  "stops_find m k i = (case hm_entries m ! i of Empty \<Rightarrow> True | HDeleted \<Rightarrow> False | HOccupied k' v \<Rightarrow> k' = k)"

definition stops_insert :: "('k, 'v) hash_map \<Rightarrow> 'k \<Rightarrow> nat \<Rightarrow> bool" where
  "stops_insert m k i = (case hm_entries m ! i of HOccupied k' v \<Rightarrow> k' = k | _ \<Rightarrow> True)"

definition hm_put_at :: "('k, 'v) hash_map \<Rightarrow> 'k \<Rightarrow> 'v \<Rightarrow> nat \<Rightarrow> ('k, 'v) hash_map \<times> bool" where
  "hm_put_at m k v i =
     (let m' = m\<lparr>hm_entries := (hm_entries m)[i := HOccupied k v]\<rparr> in
      case hm_entries m ! i of HOccupied k' v' \<Rightarrow> (m', True) | _ \<Rightarrow> (m'\<lparr>hm_len := hm_len m + 1\<rparr>, False))"

lemma upt_map_Suc: "i < n \<Longrightarrow> map f [i..<n] = f i # map f [Suc i..<n]"
  by (simp add: upt_conv_Cons)

lemma next_probe_at:
  "hm_capacity m = 2 ^ p \<Longrightarrow>
     next_probe_index m (probe_at h (hm_capacity m) i) (Suc i) = probe_at h (hm_capacity m) (Suc i)"
  by (simp only: next_probe_index_def mask_of_def and_pow2_mask probe_at_Suc)

lemma get_probe_at:
  "hm_capacity m = 2 ^ p \<Longrightarrow>
     hm_get_unchecked m (probe_at h (hm_capacity m) i) = Some (hm_entries m ! probe_at h (hm_capacity m) i)"
  by (simp add: hm_get_unchecked_def hm_capacity_def probe_at_def)

lemma find_loop_eq:
  assumes cap: "hm_capacity m = 2 ^ p"
  shows "hm_find_loop m k (probe_at h (hm_capacity m) i) [Suc i..<Suc (hm_capacity m)] =
           Some (case find (stops_find m k) (map (probe_at h (hm_capacity m)) [i..<hm_capacity m]) of
             None \<Rightarrow> None | Some j \<Rightarrow> if hm_entries m ! j = Empty then None else Some j)"
proof (induction "hm_capacity m - i" arbitrary: i)
  case 0
  then show ?case by simp
next
  case (Suc d)
  then have i: "i < hm_capacity m" by simp
  have "d = hm_capacity m - Suc i" using Suc.hyps(2) by simp
  note IH = Suc.hyps(1) [OF this]
  have strides: "[Suc i..<Suc (hm_capacity m)] = Suc i # [Suc (Suc i)..<Suc (hm_capacity m)]"
    using i by (simp add: upt_conv_Cons)
  show ?case
    unfolding strides upt_map_Suc [OF i]
    by (cases "hm_entries m ! probe_at h (hm_capacity m) i")
      (simp_all add: get_probe_at [OF cap] next_probe_at [OF cap] IH stops_find_def del: upt_Suc)
qed

lemma insert_loop_eq:
  assumes cap: "hm_capacity m = 2 ^ p"
  shows "hm_insert_loop m k v (probe_at h (hm_capacity m) i) [Suc i..<Suc (hm_capacity m)] =
           Some (case find (stops_insert m k) (map (probe_at h (hm_capacity m)) [i..<hm_capacity m]) of
             None \<Rightarrow> (m, False) | Some j \<Rightarrow> hm_put_at m k v j)"
proof (induction "hm_capacity m - i" arbitrary: i)
  case 0
  then show ?case by simp
next
  case (Suc d)
  then have i: "i < hm_capacity m" by simp
  have "d = hm_capacity m - Suc i" using Suc.hyps(2) by simp
  note IH = Suc.hyps(1) [OF this]
  have strides: "[Suc i..<Suc (hm_capacity m)] = Suc i # [Suc (Suc i)..<Suc (hm_capacity m)]"
    using i by (simp add: upt_conv_Cons)
  have lt: "probe_at h (hm_capacity m) i < length (hm_entries m)"
    using cap by (simp add: probe_at_def hm_capacity_def)
  show ?case
    unfolding strides upt_map_Suc [OF i]
    using lt by (cases "hm_entries m ! probe_at h (hm_capacity m) i")
      (simp_all add: get_probe_at [OF cap] next_probe_at [OF cap] IH stops_insert_def hm_put_at_def
        hm_set_unchecked_def Let_def del: upt_Suc)
qed

lemma initial_probe_at:
  "hm_capacity m = 2 ^ p \<Longrightarrow> initial_probe_index m h = probe_at h (hm_capacity m) 0"
  by (simp only: initial_probe_index_def mask_of_def and_pow2_mask probe_at_def) simp

lemma hm_find_index_eq:
  assumes "hm_capacity m = 2 ^ p"
  shows "hm_find_index hash m k =
           Some (case find (stops_find m k) (probes hash m k) of
             None \<Rightarrow> None | Some j \<Rightarrow> if hm_entries m ! j = Empty then None else Some j)"
  using find_loop_eq [OF assms, of k "hash k" 0]
  by (simp add: hm_find_index_def probes_def initial_probe_at [OF assms])

lemma insert_eq:
  assumes "hm_capacity m = 2 ^ p"
  shows "hm_insert_without_growing hash m k v =
           Some (case find (stops_insert m k) (probes hash m k) of
             None \<Rightarrow> (m, False) | Some j \<Rightarrow> hm_put_at m k v j)"
  using insert_loop_eq [OF assms, of k v "hash k" 0]
  by (simp add: hm_insert_without_growing_def probes_def initial_probe_at [OF assms])

subsection \<open>The invariant and the pairs of a map\<close>

definition hm_inv :: "('k \<Rightarrow> nat) \<Rightarrow> ('k, 'v) hash_map \<Rightarrow> bool" where
  "hm_inv hash m \<longleftrightarrow>
     (\<exists>p. hm_capacity m = 2 ^ p) \<and> hm_len m = length (hm_iter m) \<and>
     (\<forall>i < hm_capacity m. \<forall>j < hm_capacity m. \<forall>k v v'.
        hm_entries m ! i = HOccupied k v \<longrightarrow> hm_entries m ! j = HOccupied k v' \<longrightarrow> i = j) \<and>
     (\<forall>k v. \<forall>n < hm_capacity m. \<forall>a < n.
        hm_entries m ! probe_at (hash k) (hm_capacity m) n = HOccupied k v \<longrightarrow>
        hm_entries m ! probe_at (hash k) (hm_capacity m) a \<noteq> Empty)"

definition no_deleted :: "('k, 'v) hash_map \<Rightarrow> bool" where
  "no_deleted m \<longleftrightarrow> HDeleted \<notin> set (hm_entries m)"

lemma hm_invD:
  assumes "hm_inv hash m"
  shows "\<exists>p. hm_capacity m = 2 ^ p" "hm_len m = length (hm_iter m)"
    "\<lbrakk>i < hm_capacity m; j < hm_capacity m; hm_entries m ! i = HOccupied k v; hm_entries m ! j = HOccupied k v'\<rbrakk>
       \<Longrightarrow> i = j"
    "\<lbrakk>n < hm_capacity m; a < n; hm_entries m ! probe_at (hash k) (hm_capacity m) n = HOccupied k v\<rbrakk>
       \<Longrightarrow> hm_entries m ! probe_at (hash k) (hm_capacity m) a \<noteq> Empty"
  using assms unfolding hm_inv_def by blast+

lemma probe_onto:
  assumes "hm_inv hash m" "i < hm_capacity m"
  obtains n where "n < hm_capacity m" "probe_at h (hm_capacity m) n = i"
proof -
  obtain p where p: "hm_capacity m = 2 ^ p" using hm_invD(1) [OF assms(1)] by blast
  have "i \<in> probe_at h (2 ^ p) ` {..<2 ^ p}" using assms(2) p by (simp add: probe_at_surj)
  then show ?thesis using that p by auto
qed

lemma probe_inj:
  assumes "hm_inv hash m" "n < hm_capacity m" "a < hm_capacity m"
    "probe_at h (hm_capacity m) n = probe_at h (hm_capacity m) a"
  shows "n = a"
proof -
  obtain p where p: "hm_capacity m = 2 ^ p" using hm_invD(1) [OF assms(1)] by blast
  then show ?thesis using inj_onD [OF probe_at_inj [of h p]] assms by auto
qed

lemma probe_lt: "hm_inv hash m \<Longrightarrow> probe_at h (hm_capacity m) n < hm_capacity m"
  using hm_invD(1) by (fastforce simp: probe_at_def)

lemma hm_pair_mem [simp]: "(k, v) \<in> set (hm_pair e) \<longleftrightarrow> e = HOccupied k v"
  by (cases e) auto

lemma hm_iter_mem: "(k, v) \<in> set (hm_iter m) \<longleftrightarrow> (\<exists>i < hm_capacity m. hm_entries m ! i = HOccupied k v)"
proof -
  have "(k, v) \<in> set (hm_iter m) \<longleftrightarrow> HOccupied k v \<in> set (hm_entries m)" by (auto simp: hm_iter_def)
  then show ?thesis by (auto simp: in_set_conv_nth hm_capacity_def)
qed

lemma distinct_keys:
  assumes "\<And>i j k v v'. \<lbrakk>i < length es; j < length es; es ! i = HOccupied k v; es ! j = HOccupied k v'\<rbrakk> \<Longrightarrow> i = j"
  shows "distinct (map fst (concat (map hm_pair es)))"
  using assms
proof (induction es)
  case (Cons e es)
  have tail: "i = j" if "i < length es" "j < length es" "es ! i = HOccupied k v" "es ! j = HOccupied k v'" for i j k v v'
    using Cons.prems [of "Suc i" "Suc j" k v v'] that by simp
  show ?case
  proof (cases e)
    case (HOccupied k v)
    have "HOccupied k v' \<notin> set es" for v'
      using Cons.prems [of 0 "Suc j" k v v' for j] HOccupied by (fastforce simp: in_set_conv_nth)
    then have "k \<notin> fst ` set (concat (map hm_pair es))" by auto
    then show ?thesis using Cons.IH [OF tail] HOccupied by simp
  qed (use Cons.IH [OF tail] in simp_all)
qed simp

lemma hm_iter_distinct: "hm_inv hash m \<Longrightarrow> distinct (map fst (hm_iter m))"
  unfolding hm_iter_def by (rule distinct_keys) (metis hm_invD(3) hm_capacity_def)

lemma map_of_hm_iter:
  "hm_inv hash m \<Longrightarrow>
     map_of (hm_iter m) k = Some v \<longleftrightarrow> (\<exists>i < hm_capacity m. hm_entries m ! i = HOccupied k v)"
  by (simp add: map_of_eq_Some_iff hm_iter_distinct hm_iter_mem)

lemma find_upt:
  "find P (map f [0..<n]) = Some x \<longleftrightarrow> (\<exists>i < n. P (f i) \<and> x = f i \<and> (\<forall>j < i. \<not> P (f j)))"
  by (auto simp: find_Some_iff)

lemma find_present:
  assumes inv: "hm_inv hash m" and i: "i < hm_capacity m" and e: "hm_entries m ! i = HOccupied k v"
  shows "hm_find_index hash m k = Some (Some i)"
proof -
  obtain p where p: "hm_capacity m = 2 ^ p" using hm_invD(1) [OF inv] by blast
  obtain n where n: "n < hm_capacity m" "probe_at (hash k) (hm_capacity m) n = i" using probe_onto [OF inv i] .
  have "\<not> stops_find m k (probe_at (hash k) (hm_capacity m) a)" if a: "a < n" for a
  proof -
    have "hm_entries m ! probe_at (hash k) (hm_capacity m) a \<noteq> Empty"
      using hm_invD(4) [OF inv n(1) a] e n(2) by auto
    moreover have "hm_entries m ! probe_at (hash k) (hm_capacity m) a \<noteq> HOccupied k v'" for v'
      using hm_invD(3) [OF inv i probe_lt [OF inv] e] probe_inj [OF inv n(1), of a "hash k"] n a by auto
    ultimately show ?thesis
      by (cases "hm_entries m ! probe_at (hash k) (hm_capacity m) a") (auto simp: stops_find_def)
  qed
  then have "find (stops_find m k) (probes hash m k) = Some i"
    using n e unfolding probes_def find_upt by (intro exI [of _ n]) (simp add: stops_find_def)
  then show ?thesis using e by (simp add: hm_find_index_eq [OF p])
qed

lemma find_absent:
  assumes inv: "hm_inv hash m" and absent: "\<And>i v. i < hm_capacity m \<Longrightarrow> hm_entries m ! i \<noteq> HOccupied k v"
  shows "hm_find_index hash m k = Some None"
proof -
  obtain p where p: "hm_capacity m = 2 ^ p" using hm_invD(1) [OF inv] by blast
  have "hm_entries m ! j = Empty" if "find (stops_find m k) (probes hash m k) = Some j" for j
  proof -
    have "stops_find m k j" "j < hm_capacity m"
      using that probe_lt [OF inv] unfolding probes_def find_upt by auto
    then show ?thesis using absent [of j] by (cases "hm_entries m ! j") (auto simp: stops_find_def)
  qed
  then show ?thesis by (auto simp: hm_find_index_eq [OF p] split: option.splits)
qed

lemma hm_get_eq:
  assumes inv: "hm_inv hash m"
  shows "hm_get hash m k = Some (map_of (hm_iter m) k)"
proof (cases "map_of (hm_iter m) k")
  case None
  then have "hm_find_index hash m k = Some None"
    using map_of_hm_iter [OF inv, of k] by (intro find_absent [OF inv]) auto
  then show ?thesis using None by (simp add: hm_get_def)
next
  case (Some v)
  then obtain i where i: "i < hm_capacity m" "hm_entries m ! i = HOccupied k v"
    using map_of_hm_iter [OF inv, of k] by blast
  then show ?thesis
    using Some find_present [OF inv i] by (simp add: hm_get_def hm_get_unchecked_def hm_capacity_def)
qed

subsection \<open>Updates of a slot\<close>

lemma option_eqI: "(\<And>w. x = Some w \<longleftrightarrow> y = Some w) \<Longrightarrow> x = y"
  by (cases x; cases y) auto

lemma length_concat_upd:
  "i < length es \<Longrightarrow>
     length (concat (map f (es[i := x]))) + length (f (es ! i)) = length (concat (map f es)) + length (f x)"
proof (induction es arbitrary: i)
  case (Cons e es)
  then show ?case by (cases i) fastforce+
qed simp

lemma all_occupied_length:
  "(\<And>e. e \<in> set es \<Longrightarrow> \<exists>k v. e = HOccupied k v) \<Longrightarrow> length (concat (map hm_pair es)) = length es"
  by (induction es) fastforce+

lemma stop_exists:
  assumes inv: "hm_inv hash m" and room: "hm_len m < hm_capacity m"
  shows "\<exists>j. find (stops_insert m k) (probes hash m k) = Some j"
proof -
  have "\<exists>i < hm_capacity m. \<forall>k v. hm_entries m ! i \<noteq> HOccupied k v"
    using all_occupied_length [of "hm_entries m"] room hm_invD(2) [OF inv]
    by (force simp: hm_iter_def hm_capacity_def in_set_conv_nth)
  then obtain i where i: "i < hm_capacity m" "\<And>k v. hm_entries m ! i \<noteq> HOccupied k v" by blast
  obtain n where n: "n < hm_capacity m" "probe_at (hash k) (hm_capacity m) n = i" using probe_onto [OF inv i(1)] .
  have "stops_insert m k i" using i(2) by (cases "hm_entries m ! i") (auto simp: stops_insert_def)
  then have "find (stops_insert m k) (probes hash m k) \<noteq> None"
    using n by (auto simp: find_None_iff probes_def)
  then show ?thesis by blast
qed

text \<open>Where the insertion loop stops, given that no deleted slot can hide the key.\<close>

lemma stop_cases:
  assumes inv: "hm_inv hash m" and stop: "find (stops_insert m k) (probes hash m k) = Some j"
    and ok: "no_deleted m \<or> map_of (hm_iter m) k = None"
  shows "j < hm_capacity m"
    and "(\<exists>v. hm_entries m ! j = HOccupied k v) \<or>
         (\<forall>k v. hm_entries m ! j \<noteq> HOccupied k v) \<and> map_of (hm_iter m) k = None"
    and "\<exists>n < hm_capacity m. probe_at (hash k) (hm_capacity m) n = j \<and>
           (\<forall>a < n. hm_entries m ! probe_at (hash k) (hm_capacity m) a \<noteq> Empty)"
proof -
  obtain n where n: "n < hm_capacity m" "probe_at (hash k) (hm_capacity m) n = j" "stops_insert m k j"
      "\<And>a. a < n \<Longrightarrow> \<not> stops_insert m k (probe_at (hash k) (hm_capacity m) a)"
    using stop unfolding probes_def find_upt by blast
  show j: "j < hm_capacity m" using n(2) probe_lt [OF inv] by auto
  show "\<exists>n < hm_capacity m. probe_at (hash k) (hm_capacity m) n = j \<and>
      (\<forall>a < n. hm_entries m ! probe_at (hash k) (hm_capacity m) a \<noteq> Empty)"
  proof (intro exI [of _ n] conjI allI impI)
    fix a assume "a < n"
    from n(4) [OF this] show "hm_entries m ! probe_at (hash k) (hm_capacity m) a \<noteq> Empty"
      by (auto simp: stops_insert_def)
  qed (fact n(1) n(2))+
  have "map_of (hm_iter m) k = None" if "hm_entries m ! j = Empty"
  proof (rule ccontr)
    assume "map_of (hm_iter m) k \<noteq> None"
    then obtain i v where i: "i < hm_capacity m" "hm_entries m ! i = HOccupied k v"
      using map_of_hm_iter [OF inv, of k] by blast
    obtain b where b: "b < hm_capacity m" "probe_at (hash k) (hm_capacity m) b = i" using probe_onto [OF inv i(1)] .
    have "n \<le> b" using n(4) [of b] i b by (cases "n \<le> b") (auto simp: stops_insert_def)
    then have "n < b" using that n(2) b(2) i(2) by (cases "n = b") auto
    then show False using hm_invD(4) [OF inv b(1), of n k v] that n(2) b(2) i(2) by simp
  qed
  moreover have "map_of (hm_iter m) k = None" if "hm_entries m ! j = HDeleted"
    using ok j that nth_mem [of j "hm_entries m"] by (auto simp: no_deleted_def hm_capacity_def)
  ultimately show "(\<exists>v. hm_entries m ! j = HOccupied k v) \<or>
      (\<forall>k v. hm_entries m ! j \<noteq> HOccupied k v) \<and> map_of (hm_iter m) k = None"
    using n(3) by (cases "hm_entries m ! j") (auto simp: stops_insert_def)
qed

lemma hm_capacity_upd [simp]:
  "hm_capacity (m\<lparr>hm_entries := (hm_entries m)[i := e]\<rparr>) = hm_capacity m"
  "hm_capacity (m\<lparr>hm_len := n\<rparr>) = hm_capacity m"
  "hm_iter (m\<lparr>hm_len := n\<rparr>) = hm_iter m"
  by (simp_all add: hm_capacity_def hm_iter_def)

text \<open>Writing a pair to a slot on the key's probe path, or deleting one.\<close>

lemma hm_inv_write:
  assumes inv: "hm_inv hash m" and j: "j < hm_capacity m"
    and slot: "\<And>i v'. i < hm_capacity m \<Longrightarrow> hm_entries m ! i = HOccupied k v' \<Longrightarrow> i = j"
    and path: "\<exists>n < hm_capacity m. probe_at (hash k) (hm_capacity m) n = j \<and>
           (\<forall>a < n. hm_entries m ! probe_at (hash k) (hm_capacity m) a \<noteq> Empty)"
    and len: "n' = length (hm_iter (m\<lparr>hm_entries := (hm_entries m)[j := HOccupied k v]\<rparr>))"
  shows "hm_inv hash (m\<lparr>hm_entries := (hm_entries m)[j := HOccupied k v], hm_len := n'\<rparr>)"
proof -
  let ?es = "(hm_entries m)[j := HOccupied k v]"
  have get: "?es ! i = (if i = j then HOccupied k v else hm_entries m ! i)" if "i < hm_capacity m" for i
    using that by (simp add: hm_capacity_def)
  have uniq: "i = i'" if "i < hm_capacity m" "i' < hm_capacity m" "?es ! i = HOccupied k' w" "?es ! i' = HOccupied k' w'"
    for i i' k' w w'
  proof (cases "k' = k")
    case True
    have "i = j" if i: "i < hm_capacity m" "?es ! i = HOccupied k w" for i w
      by (rule ccontr) (use slot [OF i(1)] i(2) in \<open>simp add: get [OF i(1)]\<close>)
    then show ?thesis using that True by blast
  next
    case False
    then show ?thesis
      using that hm_invD(3) [OF inv that(1,2)] by (cases "i = j"; cases "i' = j") (simp_all add: get)
  qed
  have reach: "?es ! probe_at (hash k') (hm_capacity m) a \<noteq> Empty"
    if a: "n < hm_capacity m" "a < n" "?es ! probe_at (hash k') (hm_capacity m) n = HOccupied k' w" for k' w n a
  proof (cases "probe_at (hash k') (hm_capacity m) n = j")
    case True
    then have "k' = k" using a(3) by (simp add: get [OF j])
    moreover obtain b where b: "b < hm_capacity m" "probe_at (hash k) (hm_capacity m) b = j"
        "\<forall>a < b. hm_entries m ! probe_at (hash k) (hm_capacity m) a \<noteq> Empty" using path by blast
    ultimately have "n = b" using True probe_inj [OF inv a(1) b(1), of "hash k"] by simp
    then show ?thesis using b(3) a(2) \<open>k' = k\<close> by (simp add: get [OF probe_lt [OF inv]])
  next
    case False
    then have "hm_entries m ! probe_at (hash k') (hm_capacity m) n = HOccupied k' w"
      using a(3) by (simp add: get [OF probe_lt [OF inv]])
    from hm_invD(4) [OF inv a(1,2) this] show ?thesis by (simp add: get [OF probe_lt [OF inv]])
  qed
  have "\<exists>p. hm_capacity m = 2 ^ p" by (rule hm_invD(1) [OF inv])
  then show ?thesis unfolding hm_inv_def using uniq reach len by simp
qed

lemma hm_inv_delete:
  assumes inv: "hm_inv hash m" and len: "n' = length (hm_iter (m\<lparr>hm_entries := (hm_entries m)[j := HDeleted]\<rparr>))"
    and j: "j < hm_capacity m"
  shows "hm_inv hash (m\<lparr>hm_entries := (hm_entries m)[j := HDeleted], hm_len := n'\<rparr>)"
proof -
  let ?es = "(hm_entries m)[j := HDeleted]"
  have get: "?es ! i = (if i = j then HDeleted else hm_entries m ! i)" if "i < hm_capacity m" for i
    using that by (simp add: hm_capacity_def)
  have "i = i'" if "i < hm_capacity m" "i' < hm_capacity m" "?es ! i = HOccupied k' w" "?es ! i' = HOccupied k' w'"
    for i i' k' w w'
    using that hm_invD(3) [OF inv that(1,2)] by (auto simp: get split: if_splits)
  moreover have "?es ! probe_at (hash k') (hm_capacity m) a \<noteq> Empty"
    if a: "n < hm_capacity m" "a < n" "?es ! probe_at (hash k') (hm_capacity m) n = HOccupied k' w" for k' w n a
    using a(3) hm_invD(4) [OF inv a(1,2), of k' w] by (auto simp: get [OF probe_lt [OF inv]] split: if_splits)
  moreover have "\<exists>p. hm_capacity m = 2 ^ p" by (rule hm_invD(1) [OF inv])
  ultimately show ?thesis unfolding hm_inv_def using len by simp
qed

subsection \<open>Insertion, removal and growth as map updates\<close>

lemma map_of_write:
  assumes inv: "hm_inv hash m" and inv': "hm_inv hash m'" and j: "j < hm_capacity m"
    and es: "hm_entries m' = (hm_entries m)[j := HOccupied k v]"
    and slot: "(\<exists>v. hm_entries m ! j = HOccupied k v) \<or> (\<forall>k v. hm_entries m ! j \<noteq> HOccupied k v)"
  shows "map_of (hm_iter m') = (map_of (hm_iter m))(k \<mapsto> v)"
proof
  fix k'
  have cap: "hm_capacity m' = hm_capacity m" by (simp add: hm_capacity_def es)
  have get: "hm_entries m' ! i = (if i = j then HOccupied k v else hm_entries m ! i)" if "i < hm_capacity m" for i
    using that by (simp add: hm_capacity_def es)
  show "map_of (hm_iter m') k' = ((map_of (hm_iter m))(k \<mapsto> v)) k'"
  proof (cases "k' = k")
    case True
    have "map_of (hm_iter m') k = Some v" using j get [OF j] by (auto simp: map_of_hm_iter [OF inv'] cap)
    then show ?thesis using True by simp
  next
    case False
    have "map_of (hm_iter m') k' = Some w \<longleftrightarrow> map_of (hm_iter m) k' = Some w" for w
      unfolding map_of_hm_iter [OF inv] map_of_hm_iter [OF inv'] cap
      using slot False by (metis get hm_entry.inject)
    then have "map_of (hm_iter m') k' = map_of (hm_iter m) k'" by (rule option_eqI)
    then show ?thesis using False by simp
  qed
qed

lemma hm_insert_step:
  assumes inv: "hm_inv hash m" and room: "hm_len m < hm_capacity m"
    and ok: "no_deleted m \<or> map_of (hm_iter m) k = None"
  shows "\<exists>m'. hm_insert_without_growing hash m k v = Some (m', map_of (hm_iter m) k \<noteq> None) \<and> hm_inv hash m' \<and>
           hm_capacity m' = hm_capacity m \<and> (no_deleted m \<longrightarrow> no_deleted m') \<and>
           hm_len m' = hm_len m + (if map_of (hm_iter m) k = None then 1 else 0) \<and>
           map_of (hm_iter m') = (map_of (hm_iter m))(k \<mapsto> v)"
proof -
  obtain p where p: "hm_capacity m = 2 ^ p" using hm_invD(1) [OF inv] by blast
  obtain j where stop: "find (stops_insert m k) (probes hash m k) = Some j" using stop_exists [OF inv room] by blast
  note c = stop_cases [OF inv stop ok]
  let ?m = "m\<lparr>hm_entries := (hm_entries m)[j := HOccupied k v]\<rparr>"
  have found: "map_of (hm_iter m) k \<noteq> None \<longleftrightarrow> (\<exists>v. hm_entries m ! j = HOccupied k v)"
    using c(1,2) map_of_hm_iter [OF inv, of k] by auto
  define n' where "n' = length (hm_iter ?m)"
  have n': "n' = hm_len m + (if map_of (hm_iter m) k = None then 1 else 0)"
    using length_concat_upd [of j "hm_entries m" hm_pair "HOccupied k v"] c(1,2) found hm_invD(2) [OF inv]
    by (cases "hm_entries m ! j") (auto simp: n'_def hm_iter_def hm_capacity_def)
  have slot: "i = j" if "i < hm_capacity m" "hm_entries m ! i = HOccupied k v'" for i v'
    using that c(1,2) hm_invD(3) [OF inv that(1) c(1) that(2)] map_of_hm_iter [OF inv, of k] by auto
  define m' where "m' = ?m\<lparr>hm_len := n'\<rparr>"
  have inv': "hm_inv hash m'"
    unfolding m'_def by (rule hm_inv_write [OF inv c(1) slot c(3) n'_def])
  have "hm_put_at m k v j = (m', map_of (hm_iter m) k \<noteq> None)"
    using found n' c(2) by (cases "hm_entries m ! j") (auto simp: hm_put_at_def m'_def)
  moreover have "no_deleted m'" if "no_deleted m"
    using that set_update_subset_insert [of "hm_entries m" j "HOccupied k v"] by (auto simp: no_deleted_def m'_def)
  moreover have "map_of (hm_iter m') = (map_of (hm_iter m))(k \<mapsto> v)"
    using c(2) by (intro map_of_write [OF inv inv' c(1)]) (auto simp: m'_def)
  ultimately show ?thesis
    using inv' n' stop by (simp add: insert_eq [OF p]) (simp add: m'_def)
qed

lemma hm_remove_step:
  assumes inv: "hm_inv hash m"
  shows "\<exists>m'. hm_remove hash m k = Some (m', map_of (hm_iter m) k \<noteq> None) \<and> hm_inv hash m' \<and>
           map_of (hm_iter m') = (map_of (hm_iter m))(k := None) \<and>
           (map_of (hm_iter m) k = None \<longrightarrow> m' = m)"
proof (cases "map_of (hm_iter m) k")
  case None
  then have "hm_find_index hash m k = Some None"
    using map_of_hm_iter [OF inv, of k] by (intro find_absent [OF inv]) auto
  then show ?thesis using None inv by (auto simp: hm_remove_def fun_upd_idem)
next
  case (Some v)
  then obtain j where j: "j < hm_capacity m" "hm_entries m ! j = HOccupied k v"
    using map_of_hm_iter [OF inv, of k] by blast
  let ?m = "m\<lparr>hm_entries := (hm_entries m)[j := HDeleted]\<rparr>"
  define m' where "m' = ?m\<lparr>hm_len := length (hm_iter ?m)\<rparr>"
  have inv': "hm_inv hash m'" unfolding m'_def using hm_inv_delete [OF inv refl j(1)] by simp
  have "length (hm_iter ?m) = hm_len m - 1"
    using length_concat_upd [of j "hm_entries m" hm_pair HDeleted] j hm_invD(2) [OF inv]
    by (simp add: hm_iter_def hm_capacity_def)
  then have "hm_remove hash m k = Some (m', True)"
    using j find_present [OF inv j] by (simp add: hm_remove_def hm_set_unchecked_def m'_def hm_capacity_def)
  moreover have "map_of (hm_iter m') k' = ((map_of (hm_iter m))(k := None)) k'" for k'
  proof -
    have get: "hm_entries m' ! i = (if i = j then HDeleted else hm_entries m ! i)" if "i < hm_capacity m" for i
      using that by (simp add: m'_def hm_capacity_def)
    have cap: "hm_capacity m' = hm_capacity m" by (simp add: m'_def)
    have "map_of (hm_iter m') k' = Some w \<longleftrightarrow> k' \<noteq> k \<and> map_of (hm_iter m) k' = Some w" for w
      unfolding map_of_hm_iter [OF inv] map_of_hm_iter [OF inv'] cap
    proof (intro iffI conjI; elim exE conjE)
      fix i assume i: "i < hm_capacity m" "hm_entries m' ! i = HOccupied k' w"
      then have e: "i \<noteq> j" "hm_entries m ! i = HOccupied k' w" by (simp_all add: get split: if_splits)
      show "k' \<noteq> k" using hm_invD(3) [OF inv i(1) j(1), of k w v] e j(2) by auto
      show "\<exists>i<hm_capacity m. hm_entries m ! i = HOccupied k' w" using i(1) e(2) by blast
    next
      fix i assume i: "k' \<noteq> k" "i < hm_capacity m" "hm_entries m ! i = HOccupied k' w"
      then have "i \<noteq> j" using j(2) by auto
      then show "\<exists>i<hm_capacity m. hm_entries m' ! i = HOccupied k' w" using i get by auto
    qed
    then show ?thesis by (intro option_eqI) simp
  qed
  ultimately show ?thesis using inv' Some by auto
qed

lemma hm_inv_new: "hm_inv hash (hm_new (2 ^ p) :: ('k, 'v) hash_map)"
proof -
  have "(replicate (2 ^ p) Empty :: ('k, 'v) hm_entry list) ! probe_at h (2 ^ p) n = Empty" for h n
    by (simp add: probe_at_def)
  then show ?thesis by (simp add: hm_inv_def hm_new_def hm_capacity_def hm_iter_def)
qed

lemma hm_new_simps [simp]:
  "hm_iter (hm_new cap) = []" "hm_len (hm_new cap) = 0" "hm_capacity (hm_new cap) = cap" "no_deleted (hm_new cap)"
  by (simp_all add: hm_new_def hm_iter_def hm_capacity_def no_deleted_def)

lemma hm_insert_all_step:
  assumes "hm_inv hash m" "no_deleted m" "hm_len m + length kvs \<le> hm_capacity m" "distinct (map fst kvs)"
  shows "\<exists>m'. hm_insert_all hash m kvs = Some m' \<and> hm_inv hash m' \<and> no_deleted m' \<and> hm_capacity m' = hm_capacity m \<and>
           hm_len m' \<le> hm_len m + length kvs \<and> map_of (hm_iter m') = map_of (hm_iter m) ++ map_of kvs"
  using assms
proof (induction kvs arbitrary: m)
  case (Cons kv kvs)
  obtain k v where kv: "kv = (k, v)" by (cases kv)
  obtain m1 b where m1: "hm_insert_without_growing hash m k v = Some (m1, b)" "hm_inv hash m1" "hm_capacity m1 = hm_capacity m"
      "no_deleted m1" "hm_len m1 \<le> hm_len m + 1" "map_of (hm_iter m1) = (map_of (hm_iter m))(k \<mapsto> v)"
    using hm_insert_step [OF Cons.prems(1), of k v] Cons.prems(2,3) by auto
  have "\<exists>m'. hm_insert_all hash m1 kvs = Some m' \<and> hm_inv hash m' \<and> no_deleted m' \<and> hm_capacity m' = hm_capacity m1 \<and>
      hm_len m' \<le> hm_len m1 + length kvs \<and> map_of (hm_iter m') = map_of (hm_iter m1) ++ map_of kvs"
    using Cons.prems m1 by (intro Cons.IH) simp_all
  then obtain m' where m': "hm_insert_all hash m1 kvs = Some m'" "hm_inv hash m'" "no_deleted m'"
      "hm_capacity m' = hm_capacity m1" "hm_len m' \<le> hm_len m1 + length kvs"
      "map_of (hm_iter m') = map_of (hm_iter m1) ++ map_of kvs" by blast
  have "(map_of (hm_iter m))(k \<mapsto> v) ++ map_of kvs = map_of (hm_iter m) ++ map_of (kv # kvs)"
    using Cons.prems(4) kv by (simp add: map_add_upd_left dom_map_of_conv_image_fst)
  then have "map_of (hm_iter m') = map_of (hm_iter m) ++ map_of (kv # kvs)" using m'(6) m1(6) by (simp only:)
  moreover have "hm_insert_all hash m (kv # kvs) = Some m'" using m1(1) m'(1) kv by simp
  moreover have "hm_len m' \<le> hm_len m + length (kv # kvs)" using m'(5) m1(5) by simp
  ultimately show ?case using m'(2-4) m1(3) by (intro exI [of _ m']) (simp only: simp_thms)
qed simp

lemma hm_maybe_grow_step:
  assumes inv: "hm_inv hash m"
  shows "\<exists>m'. hm_maybe_grow_for_insertion hash m = Some m' \<and> hm_inv hash m' \<and> hm_len m' < hm_capacity m' \<and>
           map_of (hm_iter m') = map_of (hm_iter m) \<and> (no_deleted m \<longrightarrow> no_deleted m')"
proof (cases "hm_len m + 1 \<le> hm_capacity m div 2")
  case True
  then show ?thesis using inv by (simp add: hm_maybe_grow_for_insertion_def Let_def)
next
  case False
  obtain p where p: "hm_capacity m = 2 ^ p" using hm_invD(1) [OF inv] by blast
  have "hm_inv hash (hm_new (2 ^ Suc p))" by (rule hm_inv_new)
  then have new: "hm_inv hash (hm_new (hm_capacity m * 2))" by (simp add: p mult.commute)
  have "length es \<ge> length (concat (map hm_pair es))" for es :: "('a, 'b) hm_entry list"
  proof (induction es)
    case (Cons e es)
    then show ?case by (cases e) simp_all
  qed simp
  then have le: "length (hm_iter m) \<le> hm_capacity m" by (simp add: hm_iter_def hm_capacity_def)
  have pos: "0 < hm_capacity m" by (simp add: p)
  show ?thesis
    using hm_insert_all_step [OF new, of "hm_iter m"] le pos False hm_iter_distinct [OF inv]
    by (auto simp: hm_maybe_grow_for_insertion_def Let_def)
qed

lemma hm_insert_full_step:
  assumes inv: "hm_inv hash m" and ok: "no_deleted m \<or> map_of (hm_iter m) k = None"
  shows "\<exists>m'. hm_insert hash m k v = Some (m', map_of (hm_iter m) k \<noteq> None) \<and> hm_inv hash m' \<and>
           map_of (hm_iter m') = (map_of (hm_iter m))(k \<mapsto> v) \<and> (no_deleted m \<longrightarrow> no_deleted m')"
proof -
  obtain m1 where m1: "hm_maybe_grow_for_insertion hash m = Some m1" "hm_inv hash m1" "hm_len m1 < hm_capacity m1"
      "map_of (hm_iter m1) = map_of (hm_iter m)" "no_deleted m \<longrightarrow> no_deleted m1"
    using hm_maybe_grow_step [OF inv] by blast
  then show ?thesis using hm_insert_step [OF m1(2,3), of k v] ok by (auto simp: hm_insert_def)
qed

interpretation hm: finite_map_store "hm_inv hash" "\<lambda>m. map_of (hm_iter m)" "hm_get hash" "hm_insert hash"
    "hm_remove hash" no_deleted
  for hash :: "'k \<Rightarrow> nat"
proof
  fix m :: "('k, 'v) hash_map" and k :: 'k and v :: 'v
  assume inv: "hm_inv hash m"
  show "hm_get hash m k = Some (map_of (hm_iter m) k)" by (rule hm_get_eq [OF inv])
  show "\<exists>m'. hm_remove hash m k = Some (m', map_of (hm_iter m) k \<noteq> None) \<and> hm_inv hash m' \<and>
      map_of (hm_iter m') = (map_of (hm_iter m))(k := None) \<and>
      (map_of (hm_iter m) k = None \<longrightarrow> no_deleted m \<longrightarrow> no_deleted m')"
    using hm_remove_step [OF inv, of k] by auto
  show "\<exists>m'. hm_insert hash m k v = Some (m', map_of (hm_iter m) k \<noteq> None) \<and> hm_inv hash m' \<and>
      map_of (hm_iter m') = (map_of (hm_iter m))(k \<mapsto> v) \<and> (no_deleted m \<longrightarrow> no_deleted m')"
    if "no_deleted m \<or> map_of (hm_iter m) k = None"
    using hm_insert_full_step [OF inv that] .
qed

subsection \<open>Properties\<close>

text \<open>
  From any hash code the probe sequence of a table of \<open>2 ^ p\<close> slots visits every slot
  exactly once within the loops' bound: the growing strides make no slot unreachable.
\<close>

theorem probes_permutation:
  assumes "hm_capacity m = 2 ^ p"
  shows "distinct (probes hash m k) \<and> set (probes hash m k) = {..<hm_capacity m}"
proof
  show "distinct (probes hash m k)"
    using probe_at_inj [of "hash k" p] assms by (simp add: probes_def distinct_map atLeast0LessThan)
  show "set (probes hash m k) = {..<hm_capacity m}"
    using probe_at_surj [of "hash k" p] assms by (simp add: probes_def atLeast0LessThan)
qed

theorem probes_permutation_witness:
  "distinct (probes (\<lambda>k. k) (hm_new 8 :: (nat, nat) hash_map) 5) \<and>
   set (probes (\<lambda>k. k) (hm_new 8 :: (nat, nat) hash_map) 5) = {..<8}"
  using probes_permutation [of "hm_new 8 :: (nat, nat) hash_map" 3 "\<lambda>k. k" 5] by simp

lemma next_power_of_two_from_least:
  assumes "c = 2 ^ a"
  shows "\<exists>b. next_power_of_two_from c n = 2 ^ b \<and> n \<le> 2 ^ b \<and> (\<forall>q. n \<le> 2 ^ q \<longrightarrow> a \<le> q \<longrightarrow> b \<le> q)"
  using assms
proof (induction c n arbitrary: a rule: next_power_of_two_from.induct)
  case (1 c n)
  show ?case
  proof (cases "n \<le> c")
    case True
    then show ?thesis using 1(2) by (auto simp: next_power_of_two_from.simps)
  next
    case False
    then have c: "\<not> (n \<le> c \<or> c = 0)" using 1(2) by simp
    obtain b where b: "next_power_of_two_from (2 * c) n = 2 ^ b" "n \<le> 2 ^ b"
        "\<And>q. n \<le> 2 ^ q \<Longrightarrow> Suc a \<le> q \<Longrightarrow> b \<le> q"
      using 1(1) [OF c, of "Suc a"] 1(2) by auto
    have "Suc a \<le> q" if "n \<le> 2 ^ q" "a \<le> q" for q
      using that False 1(2) by (cases "a = q") simp_all
    then show ?thesis using b c by (auto simp: next_power_of_two_from.simps [of c n])
  qed
qed

lemma min_capacity_room: "\<exists>b. min_capacity_needed n = 2 ^ b \<and> n \<le> 2 ^ b"
proof -
  obtain b where "next_power_of_two n = 2 ^ b" "n \<le> 2 ^ b"
    using next_power_of_two_from_least [of 1 0 n] by (auto simp: next_power_of_two_def)
  then have "min_capacity_needed n = 2 ^ b \<and> n \<le> 2 ^ b \<or> min_capacity_needed n = 2 ^ Suc b \<and> n \<le> 2 ^ Suc b"
    by (auto simp: min_capacity_needed_def Let_def)
  then show ?thesis by blast
qed

text \<open>
  \<open>min_capacity_needed\<close> gives a power of two that keeps half of the slots free when the
  elements are in, and the least such power.
\<close>

theorem min_capacity_needed_least:
  "\<exists>b. min_capacity_needed n = 2 ^ b \<and> n \<le> 2 ^ b div 2 \<and> (\<forall>q. n \<le> (2 ^ q :: nat) div 2 \<longrightarrow> 2 ^ b \<le> (2 ^ q :: nat))"
proof -
  obtain b where b: "next_power_of_two n = 2 ^ b" "n \<le> 2 ^ b" "\<And>q. n \<le> 2 ^ q \<Longrightarrow> b \<le> q"
    using next_power_of_two_from_least [of 1 0 n] by (auto simp: next_power_of_two_def)
  show ?thesis
  proof (cases "n > 2 ^ b div 2")
    case True
    have least: "Suc b \<le> q" if q: "n \<le> 2 ^ q div 2" for q
    proof (cases q)
      case (Suc r)
      then show ?thesis using b(3) [of r] q by simp
    qed (use True q in simp)
    have "min_capacity_needed n = 2 ^ Suc b" using True b(1) by (simp add: min_capacity_needed_def Let_def)
    moreover have "n \<le> 2 ^ Suc b div 2" using b(2) by simp
    ultimately show ?thesis using least by (intro exI [of _ "Suc b"]) (simp add: power_increasing del: power_Suc)
  next
    case False
    have "b \<le> q" if "n \<le> 2 ^ q div 2" for q using b(3) [of q] that by simp
    then show ?thesis using False b(1) by (intro exI [of _ b]) (auto simp: min_capacity_needed_def Let_def)
  qed
qed

theorem min_capacity_needed_least_witness:
  "5 \<le> (2 ^ 4 :: nat) div 2 \<and> min_capacity_needed 5 = 16 \<and> min_capacity_needed 5 \<le> 2 ^ 4 \<and> 5 \<le> min_capacity_needed 5 div 2"
proof -
  obtain b where "min_capacity_needed 5 = 2 ^ b" "5 \<le> (2 ^ b :: nat) div 2"
      "5 \<le> (2 ^ 4 :: nat) div 2 \<longrightarrow> 2 ^ b \<le> (2 ^ 4 :: nat)"
    using min_capacity_needed_least [of 5] by blast
  moreover have "min_capacity_needed 5 = 16" by code_simp
  ultimately show ?thesis by simp
qed



text \<open>
  Outside that condition the map is wrong: with two keys in the same bucket, putting the second
  again after the first was removed fills the first's slot and leaves the old pair behind it, so
  that the map counts the key twice and, once the key is removed, still finds its old value.
\<close>

theorem stale_entry_after_removal:
  "\<exists>m m'. run_ops (hm_insert (\<lambda>k. 0)) (hm_remove (\<lambda>k. 0)) hm_new_initial
            [Put (1::nat) (10::nat), Put 2 20, Del 1, Put 2 21] = Some m \<and>
          hm_len m = 2 \<and> hm_iter m = [(2, 21), (2, 20)] \<and>
          hm_remove (\<lambda>k. 0) m 2 = Some (m', True) \<and> hm_get (\<lambda>k. 0) m' 2 = Some (Some 20)"
proof -
  define m :: "(nat, nat) hash_map" where
    "m = \<lparr>hm_len = 2, hm_entries = [HOccupied 2 21, HOccupied 2 20, Empty, Empty]\<rparr>"
  define m' :: "(nat, nat) hash_map" where
    "m' = \<lparr>hm_len = 1, hm_entries = [HDeleted, HOccupied 2 20, Empty, Empty]\<rparr>"
  have "run_ops (hm_insert (\<lambda>k. 0)) (hm_remove (\<lambda>k. 0)) hm_new_initial
      [Put (1::nat) (10::nat), Put 2 20, Del 1, Put 2 21] = Some m"
    unfolding m_def by code_simp
  moreover have "hm_remove (\<lambda>k. 0) m 2 = Some (m', True)" unfolding m_def m'_def by code_simp
  moreover have "hm_get (\<lambda>k. 0) m' 2 = Some (Some 20)" unfolding m'_def by code_simp
  moreover have "hm_len m = 2" "hm_iter m = [(2, 21), (2, 20)]" by (simp_all add: m_def hm_iter_def)
  ultimately show ?thesis by blast
qed

end
