(* ===== verification/Array_Properties.thy ===== *)
theory Array_Properties
  imports Property Hash_Map
begin

section \<open>The properties of an object at array indices\<close>

text \<open>
  \<open>runtime/array_properties.rs\<close>: a dense vector of values while all properties are plain
  writable, enumerable and configurable data and the gaps are small, otherwise a hash map and a
  length. Lengths and indices have 32 bits: sums wrap, written \<open>u32_add\<close>. An access outside
  the vector and a read of an uninitialized element are undefined behaviour, the value \<open>None\<close>.

  Shown here: in both representations, and across the transitions between them, the operations
  implement a map from indices to properties; what shortening an array removes; and that shortening
  a sparse array deletes properties that are not configurable when there is more than one.
\<close>

definition SPARSE_ARRAY_THRESHOLD :: nat where "SPARSE_ARRAY_THRESHOLD = 100"

definition u32_add :: "nat \<Rightarrow> nat \<Rightarrow> nat" where
  "u32_add a b = (a + b) mod 2 ^ 32"

record dense_array_properties =
  d_len :: nat
  d_array :: "value option list"

record sparse_array_properties =
  sparse_map :: "(nat, property) hash_map"
  sp_array_length :: nat

datatype array_properties = Dense dense_array_properties | Sparse sparse_array_properties

subsection \<open>Dense properties\<close>

definition dense_new :: "nat \<Rightarrow> dense_array_properties" where
  "dense_new cap = \<lparr>d_len = 0, d_array = replicate cap None\<rparr>"

definition d_capacity :: "dense_array_properties \<Rightarrow> nat" where
  "d_capacity d = length (d_array d)"

definition dense_get :: "dense_array_properties \<Rightarrow> nat \<Rightarrow> value option" where
  "dense_get d i = (if i < d_capacity d then d_array d ! i else None)"

definition dense_set :: "dense_array_properties \<Rightarrow> nat \<Rightarrow> value \<Rightarrow> dense_array_properties option" where
  "dense_set d i v = (if i < d_capacity d then Some (d\<lparr>d_array := (d_array d)[i := Some v]\<rparr>) else None)"

definition set_empty_range :: "dense_array_properties \<Rightarrow> nat \<Rightarrow> nat \<Rightarrow> dense_array_properties option" where
  "set_empty_range d start stop =
     (if start \<le> stop \<and> stop \<le> d_capacity d then
        Some (d\<lparr>d_array := take start (d_array d) @ replicate (stop - start) (Some value_empty) @ drop stop (d_array d)\<rparr>)
      else None)"

definition dense_iter :: "dense_array_properties \<Rightarrow> value list option" where
  "dense_iter d = (if d_len d \<le> d_capacity d then those (take (d_len d) (d_array d)) else None)"

text \<open>\<open>copy_nonoverlapping\<close> of the first \<open>n\<close> elements into a new vector.\<close>

definition copy_values ::
  "dense_array_properties \<Rightarrow> dense_array_properties \<Rightarrow> nat \<Rightarrow> dense_array_properties option" where
  "copy_values d new n =
     (if n \<le> d_capacity d \<and> n \<le> d_capacity new then
        Some (new\<lparr>d_array := take n (d_array d) @ drop n (d_array new)\<rparr>)
      else None)"

definition grow_dense_properties :: "dense_array_properties \<Rightarrow> nat \<Rightarrow> dense_array_properties option" where
  "grow_dense_properties d new_length =
     (let old_length = d_len d; old_capacity = d_capacity d in
      if new_length \<le> old_capacity then set_empty_range (d\<lparr>d_len := new_length\<rparr>) old_length new_length
      else
        let new_capacity = max (min (old_capacity * 2) (2 ^ 32 - 1)) new_length;
            new = (dense_new new_capacity)\<lparr>d_len := new_length\<rparr>
        in do { new \<leftarrow> copy_values d new old_length; set_empty_range new old_length new_capacity })"

definition shrink_dense_properties :: "dense_array_properties \<Rightarrow> nat \<Rightarrow> dense_array_properties option" where
  "shrink_dense_properties d new_length =
     (if new_length \<ge> d_capacity d div 2 then Some (d\<lparr>d_len := new_length\<rparr>)
      else copy_values d ((dense_new new_length)\<lparr>d_len := new_length\<rparr>) new_length)"

subsection \<open>Sparse properties\<close>

definition sparse_new :: "nat \<Rightarrow> nat \<Rightarrow> sparse_array_properties" where
  "sparse_new cap len = \<lparr>sparse_map = hm_new cap, sp_array_length = len\<rparr>"

definition ordered_keys :: "sparse_array_properties \<Rightarrow> nat list" where
  "ordered_keys s = sort (map fst (hm_iter (sparse_map s)))"

text \<open>The pairs that the transition inserts: the values that are not holes, with their index.\<close>

definition dense_pairs :: "value list \<Rightarrow> (nat \<times> property) list" where
  "dense_pairs vs =
     map (\<lambda>(i, v). (i, property_data v True True True)) (filter (\<lambda>(i, v). \<not> is_empty v) (enumerate 0 vs))"

definition transition_to_sparse_properties ::
  "(nat \<Rightarrow> nat) \<Rightarrow> dense_array_properties \<Rightarrow> sparse_array_properties option" where
  "transition_to_sparse_properties hash d =
     do { vs \<leftarrow> dense_iter d;
          let new_capacity = min_capacity_needed (length (filter (\<lambda>v. \<not> is_empty v) vs));
          let s = sparse_new new_capacity (d_len d);
          m \<leftarrow> hm_insert_all hash (sparse_map s) (dense_pairs vs);
          Some (s\<lparr>sparse_map := m\<rparr>) }"

subsection \<open>Both representations\<close>

definition ap_array_length :: "array_properties \<Rightarrow> nat" where
  "ap_array_length ap = (case ap of Dense d \<Rightarrow> d_len d | Sparse s \<Rightarrow> sp_array_length s)"

definition ap_get_property :: "(nat \<Rightarrow> nat) \<Rightarrow> array_properties \<Rightarrow> nat \<Rightarrow> property option option" where
  "ap_get_property hash ap i =
     (case ap of
        Dense d \<Rightarrow>
          if i \<ge> d_len d then Some None
          else do { v \<leftarrow> dense_get d i;
                    Some (if is_empty v then None else Some (property_data v True True True)) }
      | Sparse s \<Rightarrow> hm_get hash (sparse_map s) i)"

definition ap_remove_property :: "(nat \<Rightarrow> nat) \<Rightarrow> array_properties \<Rightarrow> nat \<Rightarrow> array_properties option" where
  "ap_remove_property hash ap i =
     (case ap of
        Dense d \<Rightarrow> map_option Dense (dense_set d i value_empty)
      | Sparse s \<Rightarrow> map_option (\<lambda>(m, _). Sparse (s\<lparr>sparse_map := m\<rparr>)) (hm_remove hash (sparse_map s) i))"

text \<open>
  The recursive calls of the source become this function's own; that they end is part of the
  lemmas below (not returning is \<open>None\<close>).
\<close>

partial_function (option) ap_set_property ::
  "(nat \<Rightarrow> nat) \<Rightarrow> array_properties \<Rightarrow> nat \<Rightarrow> property \<Rightarrow> array_properties option" where
  "ap_set_property hash ap i p =
     (case ap of
        Dense d \<Rightarrow>
          if \<not> is_allowed_as_dense_array_property p then
            do { s \<leftarrow> transition_to_sparse_properties hash d; ap_set_property hash (Sparse s) i p }
          else if i \<ge> d_len d then
            (if i \<ge> u32_add (d_len d) SPARSE_ARRAY_THRESHOLD then
               do { s \<leftarrow> transition_to_sparse_properties hash d; ap_set_property hash (Sparse s) i p }
             else do { d' \<leftarrow> grow_dense_properties d (u32_add i 1); ap_set_property hash (Dense d') i p })
          else map_option Dense (dense_set d i (prop_value p))
      | Sparse s \<Rightarrow>
          let s = (if i \<ge> sp_array_length s then s\<lparr>sp_array_length := u32_add i 1\<rparr> else s)
          in map_option (\<lambda>(m, _). Sparse (s\<lparr>sparse_map := m\<rparr>)) (hm_insert hash (sparse_map s) i p))"

text \<open>The search for a property that cannot be removed, in the order of the map's entries.\<close>

definition last_non_configurable_index :: "nat \<Rightarrow> (nat \<times> property) list \<Rightarrow> nat option" where
  "last_non_configurable_index new_length kvs =
     foldl (\<lambda>last (index, p).
       if index < new_length then last
       else if \<not> prop_is_configurable p then
         (if index \<le> (case last of None \<Rightarrow> index | Some l \<Rightarrow> l) then Some index else last)
       else last) None kvs"

definition sparse_set_len ::
  "(nat \<Rightarrow> nat) \<Rightarrow> sparse_array_properties \<Rightarrow> nat \<Rightarrow> (array_properties \<times> bool) option" where
  "sparse_set_len hash s new_length =
     (if new_length \<ge> sp_array_length s then Some (Sparse (s\<lparr>sp_array_length := new_length\<rparr>), True)
      else
        let last = last_non_configurable_index new_length (hm_iter (sparse_map s));
            new_length = (case last of Some last_index \<Rightarrow> u32_add last_index 1 | None \<Rightarrow> new_length);
            kept = filter (\<lambda>(index, p). index < new_length) (hm_iter (sparse_map s));
            s' = sparse_new (min_capacity_needed (length kept)) new_length
        in do { m \<leftarrow> hm_insert_all hash (sparse_map s') kept; Some (Sparse (s'\<lparr>sparse_map := m\<rparr>), last = None) })"

text \<open>The call of \<open>set_len\<close> on itself is on sparse properties.\<close>

definition set_len :: "(nat \<Rightarrow> nat) \<Rightarrow> array_properties \<Rightarrow> nat \<Rightarrow> (array_properties \<times> bool) option" where
  "set_len hash ap new_length =
     (case ap of
        Dense d \<Rightarrow>
          if new_length > d_len d then
            (if new_length \<ge> u32_add (d_len d) SPARSE_ARRAY_THRESHOLD then
               do { s \<leftarrow> transition_to_sparse_properties hash d; sparse_set_len hash s new_length }
             else do { d' \<leftarrow> grow_dense_properties d new_length; Some (Dense d', True) })
          else if new_length < d_len d then
            do { d' \<leftarrow> shrink_dense_properties d new_length; Some (Dense d', True) }
          else Some (Dense d, True)
      | Sparse s \<Rightarrow> sparse_set_len hash s new_length)"

subsection \<open>The map that the properties stand for\<close>

definition dense_inv :: "dense_array_properties \<Rightarrow> bool" where
  "dense_inv d \<longleftrightarrow> d_len d \<le> d_capacity d \<and> d_capacity d < 2 ^ 32 \<and> (\<forall>i < d_len d. d_array d ! i \<noteq> None)"

definition dense_props :: "dense_array_properties \<Rightarrow> nat \<rightharpoonup> property" where
  "dense_props d i =
     (if i < d_len d then
        (case d_array d ! i of None \<Rightarrow> None
         | Some v \<Rightarrow> if is_empty v then None else Some (property_data v True True True))
      else None)"

definition ap_inv :: "(nat \<Rightarrow> nat) \<Rightarrow> array_properties \<Rightarrow> bool" where
  "ap_inv hash ap =
     (case ap of Dense d \<Rightarrow> dense_inv d
      | Sparse s \<Rightarrow> hm_inv hash (sparse_map s) \<and> (\<forall>i \<in> fst ` set (hm_iter (sparse_map s)). i < sp_array_length s))"

definition ap_props :: "array_properties \<Rightarrow> nat \<rightharpoonup> property" where
  "ap_props ap = (case ap of Dense d \<Rightarrow> dense_props d | Sparse s \<Rightarrow> map_of (hm_iter (sparse_map s)))"

definition ap_clean :: "array_properties \<Rightarrow> bool" where
  "ap_clean ap = (case ap of Dense d \<Rightarrow> True | Sparse s \<Rightarrow> no_deleted (sparse_map s))"

definition is_dense :: "array_properties \<Rightarrow> bool" where
  "is_dense ap = (case ap of Dense d \<Rightarrow> True | Sparse s \<Rightarrow> False)"

lemmas ap_defs = ap_inv_def ap_props_def ap_clean_def ap_array_length_def is_dense_def

lemma is_empty_value_empty [simp]: "is_empty value_empty"
  by (simp add: is_empty_def has_tag_def get_tag_constructors)

lemma dense_inv_nth: "dense_inv d \<Longrightarrow> i < d_len d \<Longrightarrow> \<exists>v. d_array d ! i = Some v"
  by (auto simp: dense_inv_def)

text \<open>
  Two vectors that agree up to the shorter length and have holes from there on hold the same
  properties.
\<close>

lemma dense_props_cong:
  assumes "\<And>i. i < d_len d \<Longrightarrow> i < d_len d' \<Longrightarrow> d_array d' ! i = d_array d ! i" "d_len d \<le> d_len d'"
    "\<And>i. d_len d \<le> i \<Longrightarrow> i < d_len d' \<Longrightarrow> d_array d' ! i = Some value_empty"
  shows "dense_props d' = dense_props d"
proof
  fix i
  consider "i < d_len d" | "d_len d \<le> i" "i < d_len d'" | "d_len d' \<le> i" using assms(2) by linarith
  then show "dense_props d' i = dense_props d i"
    using assms by cases (simp_all add: dense_props_def)
qed

lemma dense_fill:
  assumes "set_empty_range d start stop = Some d'" "start \<le> d_len d" "d_len d \<le> stop"
    "\<And>i. i < start \<Longrightarrow> d_array d ! i \<noteq> None" "d_capacity d < 2 ^ 32"
  shows "dense_inv d'" "d_len d' = d_len d" "\<And>i. i < start \<Longrightarrow> d_array d' ! i = d_array d ! i"
    "\<And>i. start \<le> i \<Longrightarrow> i < d_len d' \<Longrightarrow> d_array d' ! i = Some value_empty"
proof -
  have d': "start \<le> stop" "stop \<le> d_capacity d"
      "d' = d\<lparr>d_array := take start (d_array d) @ replicate (stop - start) (Some value_empty) @ drop stop (d_array d)\<rparr>"
    using assms(1) by (simp_all add: set_empty_range_def split: if_splits)
  then show len: "d_len d' = d_len d" by simp
  have cap: "d_capacity d' = d_capacity d" using d' by (simp add: d_capacity_def)
  have start: "start \<le> length (d_array d)" using d' by (simp add: d_capacity_def)
  show low: "d_array d' ! i = d_array d ! i" if "i < start" for i
    using that start by (simp add: d' nth_append min_def)
  show high: "d_array d' ! i = Some value_empty" if "start \<le> i" "i < d_len d'" for i
  proof -
    have "i - start < stop - start" using that assms(3) len by (simp add: diff_less_mono)
    then show ?thesis using that start by (simp add: d' nth_append min_def)
  qed
  have "d_array d' ! i \<noteq> None" if "i < d_len d'" for i
    using that low high assms(4) by (cases "i < start") simp_all
  then show "dense_inv d'" using d' assms(3,5) len cap by (simp add: dense_inv_def)
qed

lemma dense_grow:
  assumes d: "dense_inv d" and n: "d_len d < n" "n < 2 ^ 32"
  shows "\<exists>d'. grow_dense_properties d n = Some d' \<and> dense_inv d' \<and> d_len d' = n \<and> dense_props d' = dense_props d"
proof (cases "n \<le> d_capacity d")
  case True
  let ?d = "d\<lparr>d_len := n\<rparr>"
  obtain d' where d': "set_empty_range ?d (d_len d) n = Some d'"
    using True n(1) by (simp add: set_empty_range_def d_capacity_def)
  have "\<And>i. i < d_len d \<Longrightarrow> d_array ?d ! i \<noteq> None" "d_capacity ?d < 2 ^ 32"
    using d by (simp_all add: dense_inv_def d_capacity_def)
  note f = dense_fill [OF d' _ _ this]
  have "dense_props d' = dense_props d" using f n(1) by (intro dense_props_cong) simp_all
  then show ?thesis using True d' f(1,2) n(1) by (simp add: grow_dense_properties_def Let_def)
next
  case False
  let ?cap = "max (min (d_capacity d * 2) (2 ^ 32 - 1)) n"
  let ?new = "(dense_new ?cap)\<lparr>d_len := n\<rparr>"
  let ?copy = "?new\<lparr>d_array := take (d_len d) (d_array d) @ drop (d_len d) (d_array ?new)\<rparr>"
  have le: "d_len d \<le> d_capacity d" "d_len d \<le> ?cap" using d n(1) by (simp_all add: dense_inv_def)
  have cap: "d_capacity ?new = ?cap" by (simp add: d_capacity_def dense_new_def)
  have cap': "d_capacity ?copy = ?cap" using le by (simp add: d_capacity_def dense_new_def)
  have copy: "copy_values d ?new (d_len d) = Some ?copy" using le cap by (simp add: copy_values_def)
  obtain d' where d': "set_empty_range ?copy (d_len d) ?cap = Some d'"
    using le cap' by (simp add: set_empty_range_def)
  have same: "\<And>i. i < d_len d \<Longrightarrow> d_array ?copy ! i = d_array d ! i"
    using le(1) by (simp add: nth_append d_capacity_def)
  have "\<And>i. i < d_len d \<Longrightarrow> d_array ?copy ! i \<noteq> None" "d_capacity ?copy < 2 ^ 32"
    using d n(2) by (simp_all only: same cap') (auto simp: dense_inv_def)
  note f = dense_fill [OF d' _ _ this]
  have "dense_props d' = dense_props d" using f n(1) same by (intro dense_props_cong) simp_all
  then show ?thesis using False d' f(1,2) copy n(1) by (simp add: grow_dense_properties_def Let_def)
qed

lemma dense_shrink:
  assumes d: "dense_inv d" and n: "n < d_len d"
  shows "\<exists>d'. shrink_dense_properties d n = Some d' \<and> dense_inv d' \<and> d_len d' = n \<and>
           dense_props d' = (\<lambda>i. if i < n then dense_props d i else None)"
proof -
  let ?new = "(dense_new n)\<lparr>d_len := n\<rparr>"
  let ?d = "if n \<ge> d_capacity d div 2 then d\<lparr>d_len := n\<rparr>
            else ?new\<lparr>d_array := take n (d_array d) @ drop n (d_array ?new)\<rparr>"
  have le: "n \<le> d_capacity d" using d n by (simp add: dense_inv_def)
  then have "shrink_dense_properties d n = Some ?d"
    by (simp add: shrink_dense_properties_def copy_values_def d_capacity_def dense_new_def)
  moreover have same: "d_array ?d ! i = d_array d ! i" if "i < n" for i
    using that le by (simp add: nth_append d_capacity_def)
  moreover have len: "d_len ?d = n" by simp
  moreover have "dense_inv ?d"
    using d n le same by (auto simp: dense_inv_def d_capacity_def dense_new_def)
  ultimately show ?thesis using n by (auto simp: dense_props_def fun_eq_iff)
qed

lemma dense_iter_eq:
  assumes d: "dense_inv d"
  shows "\<exists>vs. dense_iter d = Some vs \<and> length vs = d_len d \<and> (\<forall>i < d_len d. d_array d ! i = Some (vs ! i))"
proof -
  have those: "\<exists>vs. those xs = Some vs \<and> xs = map Some vs" if "None \<notin> set xs" for xs :: "'a option list"
    using that
  proof (induction xs)
    case (Cons x xs)
    then show ?case by (cases x) auto
  qed simp
  have le: "d_len d \<le> d_capacity d" using d by (simp add: dense_inv_def)
  then have "None \<notin> set (take (d_len d) (d_array d))"
    using d by (auto simp: dense_inv_def in_set_conv_nth d_capacity_def)
  then obtain vs where vs: "those (take (d_len d) (d_array d)) = Some vs" "take (d_len d) (d_array d) = map Some vs"
    using those by blast
  then have len: "length vs = d_len d" using le by (metis d_capacity_def length_map length_take min.absorb2)
  have "d_array d ! i = Some (vs ! i)" if "i < d_len d" for i
    using that vs(2) len by (metis nth_map nth_take)
  then show ?thesis using vs(1) len le by (simp add: dense_iter_def)
qed

lemma dense_pairs_mem: "(i, p) \<in> set (dense_pairs vs) \<longleftrightarrow>
    i < length vs \<and> \<not> is_empty (vs ! i) \<and> p = property_data (vs ! i) True True True"
  by (auto simp: dense_pairs_def in_set_enumerate_eq)

lemma dense_pairs_distinct: "distinct (map fst (dense_pairs vs))"
proof -
  have "map fst (dense_pairs vs) = map fst (filter (\<lambda>(i, v). \<not> is_empty v) (enumerate 0 vs))"
    by (simp add: dense_pairs_def case_prod_beta)
  then show ?thesis by (simp add: distinct_map_filter)
qed

lemma dense_pairs_length: "length (dense_pairs vs) = length (filter (\<lambda>v. \<not> is_empty v) vs)"
proof -
  have "length (filter (\<lambda>(i, v). P v) (enumerate n vs)) = length (filter P vs)" for P n
    by (induction vs arbitrary: n) simp_all
  then show ?thesis by (simp add: dense_pairs_def)
qed

lemma map_of_dense_pairs:
  assumes "dense_inv d" "length vs = d_len d" "\<forall>i < d_len d. d_array d ! i = Some (vs ! i)"
  shows "map_of (dense_pairs vs) = dense_props d"
proof
  fix i
  have "map_of (dense_pairs vs) i = Some p \<longleftrightarrow> dense_props d i = Some p" for p
    using assms by (auto simp: map_of_eq_Some_iff [OF dense_pairs_distinct] dense_pairs_mem dense_props_def)
  then show "map_of (dense_pairs vs) i = dense_props d i" by (intro option_eqI) simp
qed

text \<open>A hash map with room is filled from a list of pairs.\<close>

lemma fill_new_map:
  assumes "distinct (map fst kvs)"
  shows "\<exists>m. hm_insert_all hash (hm_new (min_capacity_needed (length kvs))) kvs = Some m \<and> hm_inv hash m \<and>
           no_deleted m \<and> map_of (hm_iter m) = map_of kvs"
proof -
  obtain b where b: "min_capacity_needed (length kvs) = 2 ^ b" "length kvs \<le> 2 ^ b" using min_capacity_room by blast
  then show ?thesis using hm_insert_all_step [OF hm_inv_new [of hash b], of kvs] assms by auto
qed

lemma fst_map_of: "fst ` set kvs = dom (map_of kvs)"
  by (simp add: dom_map_of_conv_image_fst)

lemma transition_props:
  assumes d: "dense_inv d"
  shows "\<exists>s. transition_to_sparse_properties hash d = Some s \<and> ap_inv hash (Sparse s) \<and> no_deleted (sparse_map s) \<and>
           sp_array_length s = d_len d \<and> map_of (hm_iter (sparse_map s)) = dense_props d"
proof -
  obtain vs where vs: "dense_iter d = Some vs" "length vs = d_len d" "\<forall>i < d_len d. d_array d ! i = Some (vs ! i)"
    using dense_iter_eq [OF d] by blast
  obtain m where m: "hm_insert_all hash (hm_new (min_capacity_needed (length (dense_pairs vs)))) (dense_pairs vs) = Some m"
      "hm_inv hash m" "no_deleted m" "map_of (hm_iter m) = map_of (dense_pairs vs)"
    using fill_new_map [OF dense_pairs_distinct] by blast
  have props: "map_of (hm_iter m) = dense_props d" using m(4) map_of_dense_pairs [OF d vs(2,3)] by simp
  have "\<forall>i \<in> fst ` set (hm_iter m). i < d_len d"
    unfolding fst_map_of props by (auto simp: dense_props_def split: if_splits)
  then show ?thesis
    using vs(1) m(1-3) props
    by (simp add: transition_to_sparse_properties_def dense_pairs_length sparse_new_def ap_inv_def Let_def)
qed

subsection \<open>The operations implement the map\<close>

lemma ap_lookup: "ap_inv hash ap \<Longrightarrow> ap_get_property hash ap i = Some (ap_props ap i)"
proof (cases ap)
  case (Dense d)
  assume "ap_inv hash ap"
  then have d: "dense_inv d" using Dense by (simp add: ap_inv_def)
  show ?thesis
  proof (cases "i < d_len d")
    case True
    then obtain v where "d_array d ! i = Some v" "i < d_capacity d"
      using d dense_inv_nth [OF d True] by (auto simp: dense_inv_def)
    then show ?thesis using True Dense by (simp add: ap_get_property_def ap_props_def dense_props_def dense_get_def)
  qed (simp add: Dense ap_get_property_def ap_props_def dense_props_def)
next
  case (Sparse s)
  assume "ap_inv hash ap"
  then show ?thesis using Sparse by (simp add: ap_get_property_def ap_defs hm.lookup_abs)
qed

lemma sparse_put:
  assumes inv: "ap_inv hash (Sparse s)" and ok: "ap_clean (Sparse s) \<or> ap_props (Sparse s) i = None"
    and i: "i < 2 ^ 32 - 1"
  shows "\<exists>ap'. ap_set_property hash (Sparse s) i p = Some ap' \<and> ap_inv hash ap' \<and> ap_props ap' = (ap_props (Sparse s))(i \<mapsto> p) \<and>
           (ap_clean (Sparse s) \<longrightarrow> ap_clean ap') \<and> ap_array_length ap' = max (sp_array_length s) (i + 1)"
proof -
  let ?s = "if i \<ge> sp_array_length s then s\<lparr>sp_array_length := u32_add i 1\<rparr> else s"
  obtain m b where m: "hm_insert hash (sparse_map s) i p = Some (m, b)" "hm_inv hash m"
      "map_of (hm_iter m) = (map_of (hm_iter (sparse_map s)))(i \<mapsto> p)" "no_deleted (sparse_map s) \<longrightarrow> no_deleted m"
    using hm.put_abs [of hash "sparse_map s" i p] inv ok by (auto simp: ap_defs)
  have len: "sp_array_length ?s = max (sp_array_length s) (i + 1)" using i by (simp add: u32_add_def)
  have set: "ap_set_property hash (Sparse s) i p = Some (Sparse (?s\<lparr>sparse_map := m\<rparr>))"
    using m(1) by (simp add: ap_set_property.simps Let_def)
  have "j < sp_array_length ?s" if "j \<in> fst ` set (hm_iter m)" for j
    using that inv unfolding fst_map_of m(3) len by (auto simp: ap_inv_def fst_map_of less_max_iff_disj)
  then show ?thesis using set m(2-4) len by (simp add: ap_defs)
qed

lemma dense_put_in_range:
  assumes inv: "dense_inv d" and i: "i < d_len d"
    and p: "storable p" "is_allowed_as_dense_array_property p"
  shows "\<exists>d'. ap_set_property hash (Dense d) i p = Some (Dense d') \<and> dense_inv d' \<and> d_len d' = d_len d \<and>
           dense_props d' = (dense_props d)(i \<mapsto> p)"
proof -
  let ?d = "d\<lparr>d_array := (d_array d)[i := Some (prop_value p)]\<rparr>"
  have cap: "i < d_capacity d" using inv i by (simp add: dense_inv_def)
  then have "ap_set_property hash (Dense d) i p = Some (Dense ?d)"
    using i p(2) by (simp add: ap_set_property.simps dense_set_def)
  moreover have "dense_inv ?d" using inv cap by (auto simp: dense_inv_def d_capacity_def nth_list_update)
  moreover have "dense_props ?d = (dense_props d)(i \<mapsto> p)"
    using cap i p(1) dense_property_restored [OF _ p(2)]
    by (auto simp: dense_props_def fun_eq_iff nth_list_update d_capacity_def storable_def)
  ultimately show ?thesis by simp
qed

lemma ap_put:
  assumes inv: "ap_inv hash ap" and ok: "ap_clean ap \<or> ap_props ap i = None" and i: "i < 2 ^ 32 - 1" and p: "storable p"
  shows "\<exists>ap'. ap_set_property hash ap i p = Some ap' \<and> ap_inv hash ap' \<and> ap_props ap' = (ap_props ap)(i \<mapsto> p) \<and>
           (ap_clean ap \<longrightarrow> ap_clean ap') \<and> ap_array_length ap' = max (ap_array_length ap) (i + 1)"
proof (cases ap)
  case (Dense d)
  then have d: "dense_inv d" using inv by (simp add: ap_inv_def)
  obtain s where s: "transition_to_sparse_properties hash d = Some s" "ap_inv hash (Sparse s)" "no_deleted (sparse_map s)"
      "sp_array_length s = d_len d" "map_of (hm_iter (sparse_map s)) = dense_props d"
    using transition_props [OF d] by blast
  have sparse: ?thesis if "ap_set_property hash ap i p = ap_set_property hash (Sparse s) i p"
    using sparse_put [OF s(2) _ i, of p] that Dense s(3-5) by (simp add: ap_defs)
  show ?thesis
  proof (cases "\<not> is_allowed_as_dense_array_property p \<or> d_len d \<le> i \<and> u32_add (d_len d) SPARSE_ARRAY_THRESHOLD \<le> i")
    case True
    then have "ap_set_property hash ap i p = ap_set_property hash (Sparse s) i p"
      using s(1) Dense by (subst ap_set_property.simps) auto
    then show ?thesis by (rule sparse)
  next
    case False
    have "\<exists>d1. ap_set_property hash ap i p = ap_set_property hash (Dense d1) i p \<and> dense_inv d1 \<and> i < d_len d1 \<and>
        dense_props d1 = dense_props d \<and> d_len d1 = max (d_len d) (i + 1)"
    proof (cases "i < d_len d")
      case True
      then show ?thesis using Dense d by auto
    next
      case out: False
      have n: "u32_add i 1 = i + 1" using i by (simp add: u32_add_def)
      obtain d1 where d1: "grow_dense_properties d (i + 1) = Some d1" "dense_inv d1" "d_len d1 = i + 1"
          "dense_props d1 = dense_props d"
        using dense_grow [OF d, of "i + 1"] out i by auto
      then have "ap_set_property hash ap i p = ap_set_property hash (Dense d1) i p"
        using False out n Dense by (subst ap_set_property.simps) simp
      then show ?thesis using d1 out by auto
    qed
    then obtain d1 where d1: "ap_set_property hash ap i p = ap_set_property hash (Dense d1) i p" "dense_inv d1" "i < d_len d1"
        "dense_props d1 = dense_props d" "d_len d1 = max (d_len d) (i + 1)" by blast
    then show ?thesis using dense_put_in_range [OF d1(2,3) p, of hash] False Dense by (auto simp: ap_defs)
  qed
next
  case (Sparse s)
  then show ?thesis using sparse_put [of hash s i p] inv ok i by (simp add: ap_array_length_def)
qed

lemma ap_del:
  assumes inv: "ap_inv hash ap" and present: "ap_props ap i \<noteq> None"
  shows "\<exists>ap'. ap_remove_property hash ap i = Some ap' \<and> ap_inv hash ap' \<and> ap_props ap' = (ap_props ap)(i := None) \<and>
           ap_array_length ap' = ap_array_length ap \<and> is_dense ap' = is_dense ap \<and> (is_dense ap \<longrightarrow> ap_clean ap')"
proof (cases ap)
  case (Dense d)
  let ?d = "d\<lparr>d_array := (d_array d)[i := Some value_empty]\<rparr>"
  have d: "dense_inv d" using inv Dense by (simp add: ap_inv_def)
  have i: "i < d_len d" using present Dense by (auto simp: ap_props_def dense_props_def split: if_splits)
  then have cap: "i < d_capacity d" using d by (simp add: dense_inv_def)
  have "dense_inv ?d" using d cap by (auto simp: dense_inv_def d_capacity_def nth_list_update)
  moreover have "dense_props ?d = (dense_props d)(i := None)"
    using cap i by (auto simp: dense_props_def fun_eq_iff nth_list_update d_capacity_def)
  ultimately show ?thesis using Dense cap by (simp add: ap_remove_property_def dense_set_def ap_defs)
next
  case (Sparse s)
  obtain m b where m: "hm_remove hash (sparse_map s) i = Some (m, b)" "hm_inv hash m"
      "map_of (hm_iter m) = (map_of (hm_iter (sparse_map s)))(i := None)"
    using hm.del_abs [of hash "sparse_map s" i] inv Sparse by (auto simp: ap_inv_def)
  have "\<forall>j \<in> fst ` set (hm_iter m). j < sp_array_length s"
    using inv Sparse unfolding fst_map_of m(3) by (auto simp: ap_inv_def fst_map_of)
  then show ?thesis using m Sparse by (simp add: ap_remove_property_def ap_defs)
qed

interpretation ap: property_store "ap_inv hash" ap_props "ap_get_property hash" "ap_set_property hash"
    "ap_remove_property hash" "\<lambda>i. i < 2 ^ 32 - 1" ap_clean "\<lambda>ap i. is_dense ap"
  for hash :: "nat \<Rightarrow> nat"
proof
  fix ap i p
  assume inv: "ap_inv hash ap"
  show "ap_get_property hash ap i = Some (ap_props ap i)" by (rule ap_lookup [OF inv])
  show "\<exists>ap'. ap_set_property hash ap i p = Some ap' \<and> ap_inv hash ap' \<and> ap_props ap' = (ap_props ap)(i \<mapsto> p) \<and>
      (ap_clean ap \<longrightarrow> ap_clean ap')"
    if "ap_clean ap \<or> ap_props ap i = None" "i < 2 ^ 32 - 1" "storable p"
    using ap_put [OF inv that] by blast
  show "\<exists>ap'. ap_remove_property hash ap i = Some ap' \<and> ap_inv hash ap' \<and> ap_props ap' = (ap_props ap)(i := None) \<and>
      (is_dense ap \<longrightarrow> ap_clean ap \<longrightarrow> ap_clean ap')"
    if "ap_props ap i \<noteq> None"
    using ap_del [OF inv that] by blast
qed

subsection \<open>Changing the length\<close>

text \<open>The indices from \<open>n\<close> on whose property cannot be removed.\<close>

definition fixed_from :: "nat \<Rightarrow> (nat \<rightharpoonup> property) \<Rightarrow> nat set" where
  "fixed_from n props = {i. n \<le> i \<and> (\<exists>p. props i = Some p \<and> \<not> prop_is_configurable p)}"

lemma last_non_configurable_index_Min:
  "last_non_configurable_index n kvs =
     (let S = fst ` {kv \<in> set kvs. n \<le> fst kv \<and> \<not> prop_is_configurable (snd kv)}
      in if S = {} then None else Some (Min S))"
proof (induction kvs rule: rev_induct)
  case Nil
  then show ?case by (simp add: last_non_configurable_index_def)
next
  case (snoc kv kvs)
  let ?S = "\<lambda>kvs. fst ` {kv \<in> set kvs. n \<le> fst kv \<and> \<not> prop_is_configurable (snd kv)}"
  obtain i p where kv: "kv = (i, p)" by (cases kv)
  have fin: "finite (?S kvs)" by simp
  have step: "last_non_configurable_index n (kvs @ [kv]) =
      (if i < n \<or> prop_is_configurable p then last_non_configurable_index n kvs
       else if i \<le> (case last_non_configurable_index n kvs of None \<Rightarrow> i | Some l \<Rightarrow> l) then Some i
       else last_non_configurable_index n kvs)"
    by (simp add: last_non_configurable_index_def kv)
  show ?case
  proof (cases "i < n \<or> prop_is_configurable p")
    case True
    then have "?S (kvs @ [kv]) = ?S kvs" by (auto simp: kv)
    then show ?thesis using step snoc True by (simp add: Let_def)
  next
    case False
    then have S: "?S (kvs @ [kv]) = insert i (?S kvs)"
      by (auto simp: kv not_less intro!: image_eqI [of i fst "(i, p)"])
    show ?thesis
    proof (cases "?S kvs = {}")
      case True
      then have "last_non_configurable_index n kvs = None" using snoc by (simp add: Let_def)
      then show ?thesis using step False unfolding S True by simp
    next
      case non_empty: False
      then have "last_non_configurable_index n kvs = Some (Min (?S kvs))" using snoc by (simp add: Let_def)
      moreover have "Min (insert i (?S kvs)) = min i (Min (?S kvs))" using fin non_empty by (rule Min_insert)
      ultimately show ?thesis using step False unfolding S by (auto simp: Let_def min_def)
    qed
  qed
qed

lemma last_non_configurable_index_map:
  assumes "distinct (map fst kvs)"
  shows "last_non_configurable_index n kvs =
           (if fixed_from n (map_of kvs) = {} then None else Some (Min (fixed_from n (map_of kvs))))"
proof -
  have "fst ` {kv \<in> set kvs. n \<le> fst kv \<and> \<not> prop_is_configurable (snd kv)} = fixed_from n (map_of kvs)"
    using assms by (force simp: fixed_from_def map_of_eq_Some_iff)
  then show ?thesis by (simp add: last_non_configurable_index_Min Let_def)
qed

text \<open>The length that \<open>set_len\<close> arrives at.\<close>

definition reached_length :: "nat \<Rightarrow> (nat \<rightharpoonup> property) \<Rightarrow> nat" where
  "reached_length n props = (if fixed_from n props = {} then n else Min (fixed_from n props) + 1)"

lemma ap_props_bound:
  assumes "ap_inv hash ap" "ap_props ap i = Some p"
  shows "i < ap_array_length ap"
proof (cases ap)
  case (Dense d)
  then show ?thesis using assms(2) by (auto simp: ap_defs dense_props_def split: if_splits)
next
  case (Sparse s)
  then have "i \<in> fst ` set (hm_iter (sparse_map s))" using assms(2) by (auto simp: ap_props_def fst_map_of)
  then show ?thesis using assms(1) Sparse by (auto simp: ap_inv_def ap_array_length_def)
qed

lemma fixed_from_finite:
  assumes "ap_inv hash ap"
  shows "fixed_from n (ap_props ap) \<subseteq> {i. i < ap_array_length ap}" "finite (fixed_from n (ap_props ap))"
proof -
  show "fixed_from n (ap_props ap) \<subseteq> {i. i < ap_array_length ap}"
    using ap_props_bound [OF assms] by (auto simp: fixed_from_def)
  then show "finite (fixed_from n (ap_props ap))" by (rule finite_subset) simp
qed

lemma map_of_filter_less: "map_of (filter (\<lambda>(i, p). i < r) kvs) = map_of kvs |` {i. i < r}"
  by (induction kvs) (auto simp: restrict_map_def fun_eq_iff)

lemma sparse_set_len_props:
  assumes inv: "ap_inv hash (Sparse s)" and len: "sp_array_length s < 2 ^ 32" and n: "n < 2 ^ 32"
  shows "\<exists>ap'. sparse_set_len hash s n = Some (ap', fixed_from n (ap_props (Sparse s)) = {} \<or> sp_array_length s \<le> n) \<and>
           ap_inv hash ap' \<and> ap_array_length ap' = reached_length n (ap_props (Sparse s)) \<and>
           ap_props ap' = (ap_props (Sparse s)) |` {i. i < reached_length n (ap_props (Sparse s))} \<and>
           (ap_clean (Sparse s) \<longrightarrow> ap_clean ap')"
proof (cases "sp_array_length s \<le> n")
  case True
  have none: "fixed_from n (ap_props (Sparse s)) = {}"
    using fixed_from_finite(1) [OF inv, of n] True by (force simp: fixed_from_def ap_array_length_def)
  have "i < n" if "ap_props (Sparse s) i = Some p" for i p
    using ap_props_bound [OF inv that] True by (simp add: ap_array_length_def)
  then have "ap_props (Sparse s) |` {i. i < n} = ap_props (Sparse s)"
    by (intro ext) (metis mem_Collect_eq not_None_eq restrict_map_def)
  then show ?thesis using True none inv by (auto simp: sparse_set_len_def reached_length_def ap_defs)
next
  case False
  let ?kvs = "hm_iter (sparse_map s)" and ?r = "reached_length n (ap_props (Sparse s))"
  let ?kept = "filter (\<lambda>(index, p). index < ?r) ?kvs"
  have dist: "distinct (map fst ?kvs)" using inv by (auto simp: ap_inv_def intro: hm_iter_distinct)
  have props: "ap_props (Sparse s) = map_of ?kvs" by (simp add: ap_props_def)
  have last: "last_non_configurable_index n ?kvs =
      (if fixed_from n (map_of ?kvs) = {} then None else Some (Min (fixed_from n (map_of ?kvs))))"
    by (rule last_non_configurable_index_map [OF dist])
  have bound: "Min (fixed_from n (map_of ?kvs)) < 2 ^ 32 - 1" if "fixed_from n (map_of ?kvs) \<noteq> {}"
  proof -
    have "Min (fixed_from n (map_of ?kvs)) \<in> fixed_from n (map_of ?kvs)"
      using fixed_from_finite(2) [OF inv, of n] that unfolding props by (rule Min_in)
    then have "Min (fixed_from n (map_of ?kvs)) < sp_array_length s"
      using fixed_from_finite(1) [OF inv, of n] unfolding props by (auto simp: ap_array_length_def)
    then show ?thesis using len by linarith
  qed
  have r: "(case last_non_configurable_index n ?kvs of Some l \<Rightarrow> u32_add l 1 | None \<Rightarrow> n) = ?r"
    using bound by (auto simp: last reached_length_def props u32_add_def)
  have "distinct (map fst ?kept)" using dist by (rule distinct_map_filter)
  then obtain m where m: "hm_insert_all hash (hm_new (min_capacity_needed (length ?kept))) ?kept = Some m" "hm_inv hash m"
      "no_deleted m" "map_of (hm_iter m) = map_of ?kept" using fill_new_map by blast
  have restrict: "map_of ?kept = map_of ?kvs |` {i. i < ?r}"
    by (rule map_of_filter_less)
  have keys: "\<forall>i \<in> fst ` set (hm_iter m). i < ?r" unfolding fst_map_of m(4) restrict by auto
  have none: "last_non_configurable_index n ?kvs = None \<longleftrightarrow> fixed_from n (map_of ?kvs) = {}" by (simp add: last)
  have "sparse_set_len hash s n = Some (Sparse \<lparr>sparse_map = m, sp_array_length = ?r\<rparr>, fixed_from n (map_of ?kvs) = {})"
    using False m(1) unfolding sparse_set_len_def Let_def r none by (simp add: sparse_new_def)
  then show ?thesis using m(2,3) keys restrict m(4) False by (simp add: ap_defs)
qed

lemma dense_fixed: "fixed_from n (dense_props d) = {}"
  by (auto simp: fixed_from_def dense_props_def prop_simps split: if_splits option.splits)

lemma set_len_props:
  assumes inv: "ap_inv hash ap" and len: "ap_array_length ap < 2 ^ 32" and n: "n < 2 ^ 32"
  shows "\<exists>ap'. set_len hash ap n = Some (ap', fixed_from n (ap_props ap) = {}) \<and> ap_inv hash ap' \<and>
           ap_array_length ap' = reached_length n (ap_props ap) \<and>
           ap_props ap' = ap_props ap |` {i. i < reached_length n (ap_props ap)} \<and> (ap_clean ap \<longrightarrow> ap_clean ap')"
proof (cases ap)
  case (Dense d)
  then have d: "dense_inv d" using inv by (simp add: ap_inv_def)
  have r: "reached_length n (ap_props ap) = n" by (simp add: reached_length_def Dense ap_props_def dense_fixed)
  have below: "dense_props d |` {i. i < n} = dense_props d" if "d_len d \<le> n"
    using that by (auto simp: fun_eq_iff restrict_map_def dense_props_def)
  have restrict: "(\<lambda>i. if i < n then dense_props d i else None) = dense_props d |` {i. i < n}"
    by (auto simp: restrict_map_def)
  consider "n < d_len d" | "n = d_len d" | "d_len d < n" "n < u32_add (d_len d) SPARSE_ARRAY_THRESHOLD"
    | "d_len d < n" "u32_add (d_len d) SPARSE_ARRAY_THRESHOLD \<le> n" by linarith
  then show ?thesis
  proof cases
    case 1
    then show ?thesis
      using dense_shrink [OF d 1] unfolding r by (auto simp: set_len_def Dense ap_defs dense_fixed restrict)
  next
    case 2
    then show ?thesis using inv below unfolding r by (simp add: set_len_def Dense ap_defs dense_fixed)
  next
    case 3
    then show ?thesis
      using dense_grow [OF d 3(1) n] below unfolding r by (auto simp: set_len_def Dense ap_defs dense_fixed)
  next
    case 4
    obtain s where s: "transition_to_sparse_properties hash d = Some s" "ap_inv hash (Sparse s)" "no_deleted (sparse_map s)"
        "sp_array_length s = d_len d" "map_of (hm_iter (sparse_map s)) = dense_props d"
      using transition_props [OF d] by blast
    have props: "ap_props (Sparse s) = ap_props ap" using s(5) Dense by (simp add: ap_props_def)
    have fixed: "fixed_from n (ap_props ap) = {}" using Dense by (simp add: ap_props_def dense_fixed)
    have "set_len hash ap n = sparse_set_len hash s n" using 4 s(1) Dense by (simp add: set_len_def)
    then show ?thesis
      using sparse_set_len_props [OF s(2) _ n] s(3,4) len Dense fixed unfolding props
      by (simp add: ap_array_length_def ap_clean_def)
  qed
next
  case (Sparse s)
  have "fixed_from n (ap_props ap) = {}" if "sp_array_length s \<le> n"
    using fixed_from_finite(1) [OF inv, of n] that Sparse by (force simp: fixed_from_def ap_array_length_def)
  then show ?thesis
    using sparse_set_len_props [of hash s n] inv len n Sparse by (auto simp: set_len_def ap_array_length_def)
qed


definition sample_dense :: array_properties where
  "sample_dense = Dense \<lparr>d_len = 3, d_array = [Some (value_smi 1), Some value_empty, Some (value_smi 3), None]\<rparr>"

lemma sample_dense: "ap_inv hash sample_dense" "ap_array_length sample_dense = 3" "fixed_from n (ap_props sample_dense) = {}"
  by (simp_all add: sample_dense_def ap_defs dense_inv_def d_capacity_def less_Suc_eq numeral_3_eq_3 dense_fixed)


text \<open>
  With two properties that cannot be removed, \<open>set_len\<close> stops at the lower one: the higher one is
  deleted although it is not configurable.
\<close>

theorem set_len_drops_fixed_property:
  assumes inv: "ap_inv hash ap" and len: "ap_array_length ap < 2 ^ 32" "n < 2 ^ 32"
    and i: "n \<le> i" "ap_props ap i = Some p" "\<not> prop_is_configurable p"
    and j: "i < j" "ap_props ap j = Some q" "\<not> prop_is_configurable q"
  shows "\<exists>ap'. set_len hash ap n = Some (ap', False) \<and> ap_get_property hash ap j = Some (Some q) \<and>
           ap_get_property hash ap' j = Some None"
proof -
  have fixed: "i \<in> fixed_from n (ap_props ap)" using i by (auto simp: fixed_from_def)
  then have "Min (fixed_from n (ap_props ap)) \<le> i" using fixed_from_finite(2) [OF inv] by (rule Min_le [rotated])
  then have "reached_length n (ap_props ap) \<le> j" using j(1) fixed by (auto simp: reached_length_def)
  moreover obtain ap' where ap': "set_len hash ap n = Some (ap', fixed_from n (ap_props ap) = {})" "ap_inv hash ap'"
      "ap_props ap' = ap_props ap |` {i. i < reached_length n (ap_props ap)}"
    using set_len_props [OF inv len] by blast
  ultimately have "ap_get_property hash ap' j = Some None" using ap_lookup [OF ap'(2), of j] by (simp add: restrict_map_def)
  moreover have "fixed_from n (ap_props ap) \<noteq> {}" using fixed by blast
  ultimately show ?thesis using ap'(1) ap_lookup [OF inv, of j] j(2) by simp
qed

text \<open>The properties at the indices 1 and 2 of an empty object, made read-only and not configurable.\<close>

lemma two_fixed_properties:
  fixes hash :: "nat \<Rightarrow> nat"
  defines "p \<equiv> property_data value_undefined False True False"
  shows "\<exists>ap1 ap. ap_set_property hash (Dense (dense_new 0)) 1 p = Some ap1 \<and> ap_set_property hash ap1 2 p = Some ap \<and>
           ap_inv hash ap \<and> ap_array_length ap = 3 \<and> ap_props ap = [1 \<mapsto> p, 2 \<mapsto> p]"
proof -
  have new: "ap_inv hash (Dense (dense_new 0))" "ap_clean (Dense (dense_new 0))" "ap_array_length (Dense (dense_new 0)) = 0"
      "ap_props (Dense (dense_new 0)) = Map.empty"
    by (auto simp: ap_defs dense_inv_def dense_new_def d_capacity_def dense_props_def)
  have "is_empty value_undefined = False" by code_simp
  then have p: "storable p" by (simp add: storable_def p_def prop_simps)
  obtain ap1 where ap1: "ap_set_property hash (Dense (dense_new 0)) 1 p = Some ap1" "ap_inv hash ap1" "ap_clean ap1"
      "ap_props ap1 = [1 \<mapsto> p]" "ap_array_length ap1 = 2"
    using ap_put [OF new(1) _ _ p, of 1] new(2-4) by auto
  obtain ap where "ap_set_property hash ap1 2 p = Some ap" "ap_inv hash ap" "ap_props ap = [1 \<mapsto> p, 2 \<mapsto> p]"
      "ap_array_length ap = 3"
    using ap_put [OF ap1(2) _ _ p, of 2] ap1(3-5) by auto
  then show ?thesis using ap1(1) by blast
qed

theorem set_len_drops_fixed_property_witness:
  "\<exists>ap1 ap ap'. let p = property_data value_undefined False True False in
     ap_set_property id (Dense (dense_new 0)) 1 p = Some ap1 \<and> ap_set_property id ap1 2 p = Some ap \<and>
     set_len id ap 0 = Some (ap', False) \<and> ap_get_property id ap 2 = Some (Some p) \<and> ap_get_property id ap' 2 = Some None"
proof -
  let ?p = "property_data value_undefined False True False"
  obtain ap1 ap where ap: "ap_set_property id (Dense (dense_new 0)) 1 ?p = Some ap1" "ap_set_property id ap1 2 ?p = Some ap"
      "ap_inv id ap" "ap_array_length ap = 3" "ap_props ap = [1 \<mapsto> ?p, 2 \<mapsto> ?p]"
    using two_fixed_properties by blast
  have "\<not> prop_is_configurable ?p" by (simp add: prop_simps)
  then show ?thesis
    using set_len_drops_fixed_property [OF ap(3), of 0 1 ?p 2 ?p] ap by (auto simp: Let_def)
qed

end
