(* ===== verification/Index_Map.thy ===== *)
theory Index_Map
  imports Ordered_Store
begin

unbundle bit_operations_syntax

section \<open>The insertion-ordered hash map\<close>

text \<open>
  \<open>runtime/collections/index_map.rs\<close>, the map behind JavaScript's \<open>Map\<close> and
  \<open>Set\<close>: a table of chain heads and an array of entries in insertion order, where removal
  leaves a deleted entry on its chain. \<open>EMPTY_INDEX\<close> is \<open>None\<close>; an entry slot that
  was never written is \<open>None\<close>, and reading one is undefined behaviour, the value
  \<open>None\<close> of an operation. The hash function of the keys is a parameter; the code relies on it
  giving the same code for the same key at every call.

  The refinement theorems relate the map to the list of its key-value pairs in insertion order.
\<close>

datatype ('k, 'v) map_entry =
    Deleted (chain: "nat option")
  | Occupied 'k 'v (chain: "nat option")

record ('k, 'v) index_map =
  is_tombstone :: bool
  num_occupied :: nat
  num_deleted :: nat
  indices :: "nat option list"
  entries :: "('k, 'v) map_entry option list"

definition MIN_CAPACITY :: nat where "MIN_CAPACITY = 4"

definition im_new :: "nat \<Rightarrow> ('k, 'v) index_map" where
  "im_new cap = \<lparr>is_tombstone = False, num_occupied = 0, num_deleted = 0, indices = replicate cap None, entries = replicate cap None\<rparr>"

definition num_entries_used :: "('k, 'v) index_map \<Rightarrow> nat" where
  "num_entries_used m = num_occupied m + num_deleted m"

definition im_capacity :: "('k, 'v) index_map \<Rightarrow> nat" where
  "im_capacity m = length (indices m)"

definition hash_index :: "('k \<Rightarrow> nat) \<Rightarrow> nat \<Rightarrow> 'k \<Rightarrow> nat" where
  "hash_index hash cap k = hash k AND (cap - 1)"

definition get_index_unchecked :: "('k, 'v) index_map \<Rightarrow> nat \<Rightarrow> nat option option" where
  "get_index_unchecked m i = (if i < length (indices m) then Some (indices m ! i) else None)"

definition get_entry_unchecked :: "('k, 'v) index_map \<Rightarrow> nat \<Rightarrow> ('k, 'v) map_entry option" where
  "get_entry_unchecked m i = (if i < length (entries m) then entries m ! i else None)"

definition set_entry_unchecked ::
  "('k, 'v) index_map \<Rightarrow> nat \<Rightarrow> ('k, 'v) map_entry \<Rightarrow> ('k, 'v) index_map option" where
  "set_entry_unchecked m i e =
     (if i < length (entries m) then Some (m\<lparr>entries := (entries m)[i := Some e]\<rparr>) else None)"

text \<open>The loop of \<open>find_index\<close>: follow the chain to the key or to its end.\<close>

partial_function (option) find_loop ::
  "('k, 'v) index_map \<Rightarrow> 'k \<Rightarrow> nat option \<Rightarrow> nat option option" where
  "find_loop m k current =
     (case current of None \<Rightarrow> Some None
      | Some i \<Rightarrow>
          (case get_entry_unchecked m i of None \<Rightarrow> None
           | Some e \<Rightarrow>
               (case e of
                  Occupied k' v c \<Rightarrow> if k' = k then Some (Some i) else find_loop m k c
                | Deleted c \<Rightarrow> find_loop m k c)))"

definition find_index :: "('k \<Rightarrow> nat) \<Rightarrow> ('k, 'v) index_map \<Rightarrow> 'k \<Rightarrow> nat option option" where
  "find_index hash m k =
     (if im_capacity m = 0 then Some None
      else do { start \<leftarrow> get_index_unchecked m (hash_index hash (im_capacity m) k);
                find_loop m k start })"

definition im_contains_key :: "('k \<Rightarrow> nat) \<Rightarrow> ('k, 'v) index_map \<Rightarrow> 'k \<Rightarrow> bool option" where
  "im_contains_key hash m k = map_option (\<lambda>r. r \<noteq> None) (find_index hash m k)"

definition im_get :: "('k \<Rightarrow> nat) \<Rightarrow> ('k, 'v) index_map \<Rightarrow> 'k \<Rightarrow> 'v option option" where
  "im_get hash m k =
     do { r \<leftarrow> find_index hash m k;
          (case r of None \<Rightarrow> Some None
           | Some i \<Rightarrow> (case get_entry_unchecked m i of
                          Some (Occupied k' v c) \<Rightarrow> Some (Some v) | _ \<Rightarrow> None)) }"

definition im_remove ::
  "('k \<Rightarrow> nat) \<Rightarrow> ('k, 'v) index_map \<Rightarrow> 'k \<Rightarrow> (('k, 'v) index_map \<times> bool) option" where
  "im_remove hash m k =
     do { r \<leftarrow> find_index hash m k;
          (case r of None \<Rightarrow> Some (m, False)
           | Some i \<Rightarrow>
               do { e \<leftarrow> get_entry_unchecked m i;
                    m' \<leftarrow> set_entry_unchecked m i (Deleted (chain e));
                    Some (m'\<lparr>num_occupied := num_occupied m' - 1, num_deleted := num_deleted m' + 1\<rparr>, True) }) }"

definition im_clear :: "('k, 'v) index_map \<Rightarrow> ('k, 'v) index_map" where
  "im_clear m = m\<lparr>indices := replicate (im_capacity m) None, num_occupied := 0, num_deleted := 0\<rparr>"

text \<open>
  The loop of \<open>insert_without_growing\<close> at the current entry of a chain: the key was overwritten
  (\<open>True\<close>), or the new entry's index was linked to the end of the chain (\<open>False\<close>).
\<close>

partial_function (option) insert_loop ::
  "('k, 'v) index_map \<Rightarrow> 'k \<Rightarrow> 'v \<Rightarrow> nat \<Rightarrow> nat \<Rightarrow> (('k, 'v) index_map \<times> bool) option" where
  "insert_loop m k v new_index i =
     (case get_entry_unchecked m i of None \<Rightarrow> None
      | Some e \<Rightarrow>
          (case e of
             Deleted c \<Rightarrow>
               (case c of
                  None \<Rightarrow> map_option (\<lambda>m'. (m', False)) (set_entry_unchecked m i (Deleted (Some new_index)))
                | Some j \<Rightarrow> insert_loop m k v new_index j)
           | Occupied k' v' c \<Rightarrow>
               if k' = k then map_option (\<lambda>m'. (m', True)) (set_entry_unchecked m i (Occupied k' v c))
               else (case c of
                  None \<Rightarrow>
                    map_option (\<lambda>m'. (m', False)) (set_entry_unchecked m i (Occupied k' v' (Some new_index)))
                | Some j \<Rightarrow> insert_loop m k v new_index j)))"

definition im_insert_without_growing ::
  "('k \<Rightarrow> nat) \<Rightarrow> ('k, 'v) index_map \<Rightarrow> 'k \<Rightarrow> 'v \<Rightarrow> (('k, 'v) index_map \<times> bool) option" where
  "im_insert_without_growing hash m k v =
     (let h = hash_index hash (im_capacity m) k; new_index = num_entries_used m in
      do { start \<leftarrow> get_index_unchecked m h;
           (m', present) \<leftarrow>
             (case start of
                None \<Rightarrow> Some (m\<lparr>indices := (indices m)[h := Some new_index]\<rparr>, False)
              | Some i \<Rightarrow> insert_loop m k v new_index i);
           if present then Some (m', True)
           else do { m'' \<leftarrow> set_entry_unchecked m' new_index (Occupied k v None);
                     Some (m''\<lparr>num_occupied := num_occupied m'' + 1\<rparr>, False) } })"

text \<open>Iteration over the used entries, which skips the deleted ones.\<close>

fun occupied_pair :: "('k, 'v) map_entry option \<Rightarrow> ('k \<times> 'v) list" where
  "occupied_pair (Some (Occupied k v c)) = [(k, v)]"
| "occupied_pair _ = []"

definition im_iter :: "('k, 'v) index_map \<Rightarrow> ('k \<times> 'v) list" where
  "im_iter m = concat (map occupied_pair (take (num_entries_used m) (entries m)))"

primrec insert_all :: "('k \<Rightarrow> nat) \<Rightarrow> ('k, 'v) index_map \<Rightarrow> ('k \<times> 'v) list \<Rightarrow> ('k, 'v) index_map option" where
  "insert_all hash m [] = Some m"
| "insert_all hash m (kv # kvs) =
     do { (m', _) \<leftarrow> im_insert_without_growing hash m (fst kv) (snd kv); insert_all hash m' kvs }"

definition grown_capacity :: "('k, 'v) index_map \<Rightarrow> nat" where
  "grown_capacity m =
     (if im_capacity m = 0 then MIN_CAPACITY
      else if num_deleted m > im_capacity m div 2 then im_capacity m
      else im_capacity m * 2)"

text \<open>
  \<open>maybe_grow_for_insertion\<close>: the old map afterwards and the map to insert into, which is
  allocated at \<open>new_ptr\<close> when the old one is full. The old map becomes a tombstone, whose first
  index holds the pointer to the new map.
\<close>

definition set_new_map_ptr :: "nat \<Rightarrow> ('k, 'v) index_map \<Rightarrow> ('k, 'v) index_map" where
  "set_new_map_ptr new_ptr m = m\<lparr>indices := (indices m)[0 := Some new_ptr]\<rparr>"

definition get_new_map_ptr :: "('k, 'v) index_map \<Rightarrow> nat option option" where
  "get_new_map_ptr m = get_index_unchecked m 0"

definition maybe_grow_for_insertion ::
  "('k \<Rightarrow> nat) \<Rightarrow> nat \<Rightarrow> ('k, 'v) index_map \<Rightarrow> (('k, 'v) index_map \<times> ('k, 'v) index_map) option" where
  "maybe_grow_for_insertion hash new_ptr m =
     (if num_entries_used m < im_capacity m then Some (m, m)
      else do { new \<leftarrow> insert_all hash (im_new (grown_capacity m)) (im_iter m);
                Some (if im_capacity m \<noteq> 0 then set_new_map_ptr new_ptr (m\<lparr>is_tombstone := True\<rparr>) else m, new) })"

text \<open>The new map and the position in it of an iterator that stood in the tombstone.\<close>

definition fix_iterator_for_resized_map :: "('k, 'v) index_map \<Rightarrow> nat \<Rightarrow> (nat option \<times> nat) option" where
  "fix_iterator_for_resized_map tombstone next_entry_index =
     do { new \<leftarrow> get_new_map_ptr tombstone;
          Some (new, length (filter (\<lambda>e. case e of Some (Occupied k v c) \<Rightarrow> True | _ \<Rightarrow> False)
            (take next_entry_index (entries tombstone)))) }"

text \<open>
  \<open>GcSafeEntriesIter::next\<close> from the current index of its loop: the pair found and the next
  index of the iterator, which stays where it was at the end of the map.
\<close>

function iter_next_loop :: "('k, 'v) index_map \<Rightarrow> nat \<Rightarrow> nat \<Rightarrow> (('k \<times> 'v) option \<times> nat) option" where
  "iter_next_loop m next_entry_index current =
     (if current < num_entries_used m then
        (case get_entry_unchecked m current of None \<Rightarrow> None
         | Some (Deleted c) \<Rightarrow> iter_next_loop m next_entry_index (current + 1)
         | Some (Occupied k v c) \<Rightarrow> Some (Some (k, v), current + 1))
      else Some (None, next_entry_index))"
  by pat_completeness auto
termination by (relation "measure (\<lambda>(m, _, i). num_entries_used m - i)") auto

declare iter_next_loop.simps [simp del]

definition iter_next :: "('k, 'v) index_map \<Rightarrow> nat \<Rightarrow> (('k \<times> 'v) option \<times> nat) option" where
  "iter_next m next_entry_index = iter_next_loop m next_entry_index next_entry_index"

text \<open>How the map objects insert: grow if needed, then insert.\<close>

definition im_insert ::
  "('k \<Rightarrow> nat) \<Rightarrow> nat \<Rightarrow> ('k, 'v) index_map \<Rightarrow> 'k \<Rightarrow> 'v \<Rightarrow> (('k, 'v) index_map \<times> bool) option" where
  "im_insert hash new_ptr m k v =
     do { (old, m') \<leftarrow> maybe_grow_for_insertion hash new_ptr m; im_insert_without_growing hash m' k v }"

subsection \<open>Chains\<close>

primrec path :: "('k, 'v) map_entry option list \<Rightarrow> nat option \<Rightarrow> nat list \<Rightarrow> bool" where
  "path es p [] = (p = None)"
| "path es p (i # ps) =
     (p = Some i \<and> i < length es \<and> (case es ! i of None \<Rightarrow> False | Some e \<Rightarrow> path es (chain e) ps))"

primrec set_chain :: "('k, 'v) map_entry \<Rightarrow> nat option \<Rightarrow> ('k, 'v) map_entry" where
  "set_chain (Deleted c') c = Deleted c"
| "set_chain (Occupied k v c') c = Occupied k v c"

lemma chain_set_chain [simp]: "chain (set_chain e c) = c"
  by (cases e) simp_all

definition has_key :: "('k, 'v) map_entry option list \<Rightarrow> 'k \<Rightarrow> nat \<Rightarrow> bool" where
  "has_key es k i = (case es ! i of Some (Occupied k' v c) \<Rightarrow> k' = k | _ \<Rightarrow> False)"

lemma path_upd_other [simp]: "i \<notin> set ps \<Longrightarrow> path (es[i := x]) p ps = path es p ps"
proof (induction ps arbitrary: p)
  case (Cons j ps)
  then have "(es[i := x]) ! j = es ! j" by simp
  then show ?case using Cons by (simp split: option.splits)
qed simp

lemma path_upd_same_chain:
  assumes "es ! i = Some e" "chain e' = chain e"
  shows "path (es[i := Some e']) p ps = path es p ps"
proof (induction ps arbitrary: p)
  case (Cons j ps)
  show ?case
  proof (cases "j = i")
    case True
    then show ?thesis using assms Cons by (cases "i < length es") simp_all
  next
    case False
    then show ?thesis using Cons by (simp split: option.splits)
  qed
qed simp

lemma path_bound: "path es p ps \<Longrightarrow> j \<in> set ps \<Longrightarrow> j < length es \<and> es ! j \<noteq> None"
  by (induction ps arbitrary: p) (auto split: option.splits)

lemma path_snoc:
  assumes "path es p (ps @ [j])" "distinct (ps @ [j])" "es ! j = Some e" "n \<notin> set (ps @ [j])" "n < length es"
  shows "path (es[j := Some (set_chain e (Some n)), n := Some (Occupied k v None)]) p (ps @ [j, n])"
  using assms
proof (induction ps arbitrary: p)
  case Nil
  then show ?case by simp
next
  case (Cons i ps)
  let ?es = "es[j := Some (set_chain e (Some n)), n := Some (Occupied k v None)]"
  obtain d where d: "p = Some i" "i < length es" "es ! i = Some d" "path es (chain d) (ps @ [j])"
    using Cons.prems(1) by (auto split: option.splits)
  have "path ?es (chain d) (ps @ [j, n])"
    using Cons.prems by (intro Cons.IH [OF d(4)]) simp_all
  moreover have "?es ! i = Some d" using Cons.prems d by auto
  ultimately show ?case using d by simp
qed

lemma has_key_simps [simp]:
  "es ! i = Some (Deleted c) \<Longrightarrow> \<not> has_key es k i"
  "es ! i = None \<Longrightarrow> \<not> has_key es k i"
  "es ! i = Some (Occupied k' v c) \<Longrightarrow> has_key es k i = (k' = k)"
  by (simp_all add: has_key_def)

lemma has_keyE:
  assumes "has_key es k i"
  obtains v c where "es ! i = Some (Occupied k v c)"
  using assms by (cases "es ! i" rule: option.exhaust; cases "the (es ! i)") auto

lemma find_loop_path:
  assumes "path (entries m) p ps"
  shows "find_loop m k p = Some (find (has_key (entries m) k) ps)"
  using assms
proof (induction ps arbitrary: p)
  case Nil
  then show ?case by (simp add: find_loop.simps)
next
  case (Cons i ps)
  then obtain e where e: "p = Some i" "i < length (entries m)" "entries m ! i = Some e" "path (entries m) (chain e) ps"
    by (auto split: option.splits)
  then show ?case
    using Cons.IH [OF e(4)]
    by (cases e) (simp_all add: find_loop.simps [of m k "Some i"] get_entry_unchecked_def)
qed

text \<open>What the insertion loop does to a chain: overwrite at the key, or link after the last entry.\<close>

definition overwrite :: "('k, 'v) index_map \<Rightarrow> nat \<Rightarrow> 'v \<Rightarrow> ('k, 'v) index_map" where
  "overwrite m i v = m\<lparr>entries := (entries m)[i := (case entries m ! i of
     Some (Occupied k v' c) \<Rightarrow> Some (Occupied k v c) | x \<Rightarrow> x)]\<rparr>"

definition relink :: "('k, 'v) index_map \<Rightarrow> nat \<Rightarrow> nat \<Rightarrow> ('k, 'v) index_map" where
  "relink m j n = m\<lparr>entries := (entries m)[j := map_option (\<lambda>e. set_chain e (Some n)) (entries m ! j)]\<rparr>"

lemma insert_loop_path:
  assumes "path (entries m) (Some i) (i # ps)"
  shows "insert_loop m k v n i =
           (case find (has_key (entries m) k) (i # ps) of
              Some j \<Rightarrow> Some (overwrite m j v, True)
            | None \<Rightarrow> Some (relink m (last (i # ps)) n, False))"
  using assms
proof (induction ps arbitrary: i)
  case Nil
  then obtain e where "i < length (entries m)" "entries m ! i = Some e" "chain e = None"
    by (auto split: option.splits)
  then show ?case
    by (cases e) (auto simp: insert_loop.simps [of m k v n i] get_entry_unchecked_def set_entry_unchecked_def
        overwrite_def relink_def)
next
  case (Cons j ps)
  then obtain e where e: "i < length (entries m)" "entries m ! i = Some e" "chain e = Some j"
      "path (entries m) (Some j) (j # ps)"
    by (auto split: option.splits)
  have l: "last (i # j # ps) = last (j # ps)" by simp
  show ?case
    using e Cons.IH [OF e(4)] unfolding l
    by (cases e) (auto simp: insert_loop.simps [of m k v n i] get_entry_unchecked_def set_entry_unchecked_def
        overwrite_def simp del: last.simps)
qed

subsection \<open>Entries as a list of pairs\<close>

abbreviation pairs :: "('k, 'v) map_entry option list \<Rightarrow> ('k \<times> 'v) list" where
  "pairs es \<equiv> concat (map occupied_pair es)"

lemma find_append: "find P (xs @ ys) = (case find P xs of None \<Rightarrow> find P ys | Some x \<Rightarrow> Some x)"
  by (induction xs) auto

lemma find_filter_implied: "(\<And>x. x \<in> set xs \<Longrightarrow> P x \<Longrightarrow> Q x) \<Longrightarrow> find P (filter Q xs) = find P xs"
  by (induction xs) auto

lemma map_of_pairs:
  assumes "n \<le> length es"
  shows "map_of (pairs (take n es)) k =
           (case find (has_key es k) [0..<n] of None \<Rightarrow> None
            | Some i \<Rightarrow> (case es ! i of Some (Occupied k' v c) \<Rightarrow> Some v | _ \<Rightarrow> None))"
  using assms
proof (induction n)
  case (Suc n)
  have s: "pairs (take (Suc n) es) = pairs (take n es) @ occupied_pair (es ! n)"
    using Suc.prems by (simp add: take_Suc_conv_app_nth)
  have one: "map_of (occupied_pair (es ! n)) k =
      (if has_key es k n then (case es ! n of Some (Occupied k' v c) \<Rightarrow> Some v | _ \<Rightarrow> None) else None)"
    by (cases "es ! n" rule: occupied_pair.cases) (auto simp: has_key_def)
  have found: "map_of (pairs (take n es)) k \<noteq> None" if "find (has_key es k) [0..<n] = Some i" for i
  proof -
    have "has_key es k i" using that by (auto simp: find_Some_iff)
    then show ?thesis using Suc that by (auto elim!: has_keyE)
  qed
  show ?case
  proof (cases "find (has_key es k) [0..<n]")
    case None
    then show ?thesis using Suc one by (simp add: s find_append map_add_def)
  next
    case (Some i)
    then show ?thesis using Suc found [OF Some] by (auto simp: s find_append map_add_def)
  qed
qed simp

lemma pairs_update:
  assumes "i < length es"
  shows "pairs (es[i := x]) = pairs (take i es) @ occupied_pair x @ pairs (drop (Suc i) es)"
    and "pairs es = pairs (take i es) @ occupied_pair (es ! i) @ pairs (drop (Suc i) es)"
proof -
  show "pairs (es[i := x]) = pairs (take i es) @ occupied_pair x @ pairs (drop (Suc i) es)"
    using assms by (simp add: upd_conv_take_nth_drop)
  have "es = take i es @ es ! i # drop (Suc i) es" using assms by (rule id_take_nth_drop)
  then have "pairs es = pairs (take i es @ es ! i # drop (Suc i) es)" by simp
  then show "pairs es = pairs (take i es) @ occupied_pair (es ! i) @ pairs (drop (Suc i) es)" by simp
qed

subsection \<open>The invariant\<close>

text \<open>
  \<open>bucket\<close> remembers the chain of every used entry, of the deleted ones too; the chain of a
  bucket lists its entries in increasing order.
\<close>

definition chains_ok :: "('k \<Rightarrow> nat) \<Rightarrow> ('k, 'v) index_map \<Rightarrow> (nat \<Rightarrow> nat) \<Rightarrow> bool" where
  "chains_ok hash m bucket \<longleftrightarrow>
     (\<forall>b < im_capacity m.
        path (entries m) (indices m ! b) (filter (\<lambda>i. bucket i = b) [0..<num_entries_used m])) \<and>
     (\<forall>i < num_entries_used m. \<forall>k v c.
        entries m ! i = Some (Occupied k v c) \<longrightarrow> bucket i = hash_index hash (im_capacity m) k)"

definition im_inv :: "('k \<Rightarrow> nat) \<Rightarrow> ('k, 'v) index_map \<Rightarrow> bool" where
  "im_inv hash m \<longleftrightarrow>
     (im_capacity m = 0 \<or> (\<exists>p. im_capacity m = 2 ^ p)) \<and>
     length (entries m) = im_capacity m \<and> num_entries_used m \<le> im_capacity m \<and>
     (\<forall>i < num_entries_used m. entries m ! i \<noteq> None) \<and>
     num_occupied m = length (im_iter m) \<and> distinct (map fst (im_iter m)) \<and>
     (\<exists>bucket. chains_ok hash m bucket)"

lemma hash_index_lt:
  assumes "\<exists>p. cap = 2 ^ p"
  shows "hash_index hash cap k < cap"
proof -
  obtain p where "cap = 2 ^ p" using assms by blast
  then have "hash_index hash cap k = take_bit p (hash k)"
    by (simp add: hash_index_def take_bit_eq_mask mask_eq_exp_minus_1)
  then show ?thesis using \<open>cap = 2 ^ p\<close> by simp
qed

lemma im_iter_upd:
  assumes "i < num_entries_used m" "length (entries m) = im_capacity m" "num_entries_used m \<le> im_capacity m"
    and "n = num_entries_used m"
  shows "pairs (take n ((entries m)[i := x])) =
           pairs (take i (entries m)) @ occupied_pair x @ pairs (drop (Suc i) (take n (entries m)))"
    and "im_iter m =
           pairs (take i (entries m)) @ occupied_pair (entries m ! i) @ pairs (drop (Suc i) (take n (entries m)))"
proof -
  let ?es = "take n (entries m)"
  have i: "i < length ?es" using assms by simp
  show "pairs (take n ((entries m)[i := x])) =
      pairs (take i (entries m)) @ occupied_pair x @ pairs (drop (Suc i) ?es)"
    using pairs_update(1) [OF i, of x] assms by (simp add: take_update_swap min_def)
  show "im_iter m = pairs (take i (entries m)) @ occupied_pair (entries m ! i) @ pairs (drop (Suc i) ?es)"
    using pairs_update(2) [OF i] assms by (simp add: im_iter_def min_def)
qed

lemma find_index_eq:
  assumes "im_inv hash m"
  shows "find_index hash m k = Some (find (has_key (entries m) k) [0..<num_entries_used m])"
proof (cases "im_capacity m = 0")
  case True
  then show ?thesis using assms by (simp add: find_index_def im_inv_def)
next
  case False
  let ?h = "hash_index hash (im_capacity m) k"
  have h: "?h < im_capacity m" using assms False by (intro hash_index_lt) (auto simp: im_inv_def)
  obtain bucket where b: "chains_ok hash m bucket" using assms by (auto simp: im_inv_def)
  have "find_loop m k (indices m ! ?h) =
      Some (find (has_key (entries m) k) (filter (\<lambda>i. bucket i = ?h) [0..<num_entries_used m]))"
    using b h by (intro find_loop_path) (simp add: chains_ok_def)
  also have "find (has_key (entries m) k) (filter (\<lambda>i. bucket i = ?h) [0..<num_entries_used m]) =
      find (has_key (entries m) k) [0..<num_entries_used m]"
    using b by (intro find_filter_implied) (auto simp: chains_ok_def elim!: has_keyE)
  finally show ?thesis
    using False h by (simp add: find_index_def get_index_unchecked_def im_capacity_def)
qed

lemma find_key_Some:
  assumes "find (has_key (entries m) k) [0..<n] = Some i"
  obtains v c where "i < n" "entries m ! i = Some (Occupied k v c)"
proof -
  have "i < n" "has_key (entries m) k i" using assms by (auto simp: find_Some_iff)
  then show ?thesis using that by (auto elim!: has_keyE)
qed

lemma find_key_iff:
  assumes "im_inv hash m"
  shows "find (has_key (entries m) k) [0..<num_entries_used m] = None \<longleftrightarrow> k \<notin> fst ` set (im_iter m)"
proof -
  have l: "num_entries_used m \<le> length (entries m)" using assms by (simp add: im_inv_def)
  have "map_of (im_iter m) k = None \<longleftrightarrow> find (has_key (entries m) k) [0..<num_entries_used m] = None"
    unfolding im_iter_def map_of_pairs [OF l]
    by (cases "find (has_key (entries m) k) [0..<num_entries_used m]") (auto elim!: find_key_Some)
  then show ?thesis by (simp add: map_of_eq_None_iff)
qed

lemma im_get_eq:
  assumes "im_inv hash m"
  shows "im_get hash m k = Some (map_of (im_iter m) k)"
proof -
  have l: "num_entries_used m \<le> length (entries m)" using assms by (simp add: im_inv_def)
  show ?thesis
    unfolding im_iter_def map_of_pairs [OF l] im_get_def find_index_eq [OF assms]
    using l by (auto simp: get_entry_unchecked_def split: option.splits elim!: find_key_Some)
qed

subsection \<open>Removal\<close>

lemma al_remove_middle:
  assumes "distinct (map fst (A @ (k, v) # B))"
  shows "al_remove k (A @ (k, v) # B) = A @ B"
proof -
  have "k \<notin> fst ` set A" "k \<notin> fst ` set B" using assms by auto
  then have "filter (\<lambda>kv. fst kv \<noteq> k) A = A" "filter (\<lambda>kv. fst kv \<noteq> k) B = B"
    by (auto intro!: filter_True)
  then show ?thesis by (simp add: al_remove_def)
qed

lemma im_remove_refines:
  assumes inv: "im_inv hash m"
  shows "\<exists>m'. im_remove hash m k = Some (m', k \<in> fst ` set (im_iter m)) \<and> im_inv hash m' \<and>
           im_iter m' = al_remove k (im_iter m)"
proof (cases "find (has_key (entries m) k) [0..<num_entries_used m]")
  case None
  then have "k \<notin> fst ` set (im_iter m)" using find_key_iff [OF inv] by simp
  then have "al_remove k (im_iter m) = im_iter m" by (auto simp: al_remove_def intro!: filter_True)
  then show ?thesis
    using None inv \<open>k \<notin> fst ` set (im_iter m)\<close> by (simp add: im_remove_def find_index_eq)
next
  case (Some i)
  obtain v c where i: "i < num_entries_used m" "entries m ! i = Some (Occupied k v c)"
    by (rule find_key_Some [OF Some])
  define m' where "m' = m\<lparr>entries := (entries m)[i := Some (Deleted c)],
    num_occupied := num_occupied m - 1, num_deleted := num_deleted m + 1\<rparr>"
  have len: "length (entries m) = im_capacity m" "num_entries_used m \<le> im_capacity m"
    using inv by (simp_all add: im_inv_def)
  have il: "i < length (entries m)" using i(1) len by simp
  let ?A = "pairs (take i (entries m))" and ?B = "pairs (drop (Suc i) (take (num_entries_used m) (entries m)))"
  have it: "im_iter m = ?A @ (k, v) # ?B" using im_iter_upd(2) [OF i(1) len refl] i(2) by simp
  have used: "num_entries_used m' = num_entries_used m" "im_capacity m' = im_capacity m"
    using inv it by (simp_all add: m'_def num_entries_used_def im_inv_def im_capacity_def)
  have it': "im_iter m' = ?A @ ?B"
    using im_iter_upd(1) [OF i(1) len refl, of "Some (Deleted c)"] used by (simp add: im_iter_def m'_def)
  have d: "distinct (map fst (im_iter m))" using inv by (simp add: im_inv_def)
  obtain bucket where b: "chains_ok hash m bucket" using inv by (auto simp: im_inv_def)
  have "chains_ok hash m' bucket"
    using b unfolding chains_ok_def used
    by (auto simp: m'_def path_upd_same_chain [OF i(2)] nth_list_update [OF il] split: if_splits)
  moreover have "num_occupied m' = length (im_iter m')" "distinct (map fst (im_iter m'))"
    using inv d by (simp_all add: it it' im_inv_def) (simp add: m'_def)
  ultimately have "im_inv hash m'"
    using inv unfolding im_inv_def used by (auto simp: m'_def nth_list_update [OF il])
  moreover have "im_iter m' = al_remove k (im_iter m)"
    using al_remove_middle d unfolding it it' by metis
  moreover have "im_remove hash m k = Some (m', True)"
    using Some i len by (simp add: im_remove_def find_index_eq [OF inv] get_entry_unchecked_def
        set_entry_unchecked_def m'_def)
  moreover have "k \<in> fst ` set (im_iter m)" by (simp add: it)
  ultimately show ?thesis by auto
qed

subsection \<open>Insertion\<close>

lemma al_insert_middle:
  assumes "distinct (map fst (A @ (k, w) # B))"
  shows "al_insert k v (A @ (k, w) # B) = A @ (k, v) # B"
proof -
  have "map (\<lambda>(k', v'). if k' = k then (k', v) else (k', v')) C = C" if "k \<notin> fst ` set C" for C :: "('a \<times> 'b) list"
    using that by (intro map_idI) (force split: if_splits)
  then show ?thesis using assms by (simp add: al_insert_def)
qed

text \<open>Overwriting the value of a present key.\<close>

lemma overwrite_refines:
  assumes inv: "im_inv hash m" and "find (has_key (entries m) k) [0..<num_entries_used m] = Some i"
  shows "im_inv hash (overwrite m i v)" and "im_iter (overwrite m i v) = al_insert k v (im_iter m)"
    and "num_entries_used (overwrite m i v) = num_entries_used m"
proof -
  obtain w c where i: "i < num_entries_used m" "entries m ! i = Some (Occupied k w c)"
    by (rule find_key_Some [OF assms(2)])
  have ow: "overwrite m i v = m\<lparr>entries := (entries m)[i := Some (Occupied k v c)]\<rparr>"
    by (simp add: overwrite_def i)
  have len: "length (entries m) = im_capacity m" "num_entries_used m \<le> im_capacity m"
    using inv by (simp_all add: im_inv_def)
  show used: "num_entries_used (overwrite m i v) = num_entries_used m" by (simp add: ow num_entries_used_def)
  have il: "i < length (entries m)" using i(1) len by simp
  let ?A = "pairs (take i (entries m))" and ?B = "pairs (drop (Suc i) (take (num_entries_used m) (entries m)))"
  have it: "im_iter m = ?A @ (k, w) # ?B" using im_iter_upd(2) [OF i(1) len refl] i(2) by simp
  have it': "im_iter (overwrite m i v) = ?A @ (k, v) # ?B"
    using im_iter_upd(1) [OF i(1) len refl, of "Some (Occupied k v c)"]
    by (simp add: im_iter_def used) (simp add: ow)
  have d: "distinct (map fst (im_iter m))" using inv by (simp add: im_inv_def)
  show "im_iter (overwrite m i v) = al_insert k v (im_iter m)"
    using al_insert_middle d unfolding it it' by metis
  obtain bucket where b: "chains_ok hash m bucket" using inv by (auto simp: im_inv_def)
  have cap: "im_capacity (overwrite m i v) = im_capacity m" by (simp add: ow im_capacity_def)
  have "chains_ok hash (overwrite m i v) bucket"
    using b i unfolding chains_ok_def used cap
    by (auto simp: ow path_upd_same_chain [OF i(2)] nth_list_update [OF il] split: if_splits)
  moreover have "num_occupied m = length (im_iter m)" using inv by (simp add: im_inv_def)
  ultimately show "im_inv hash (overwrite m i v)"
    using inv d unfolding im_inv_def used cap it' it by (auto simp: ow nth_list_update [OF il])
qed

text \<open>Adding a new key: \<open>m1\<close> is the map after the new index was linked to its chain.\<close>

lemma append_refines:
  assumes inv: "im_inv hash m" and room: "num_entries_used m < im_capacity m"
    and new: "k \<notin> fst ` set (im_iter m)" and n: "n = num_entries_used m"
    and m1: "num_occupied m1 = num_occupied m" "num_deleted m1 = num_deleted m"
      "length (indices m1) = im_capacity m" "length (entries m1) = length (entries m)"
    and same: "\<And>i. i < n \<Longrightarrow> entries m1 ! i \<noteq> None \<and> occupied_pair (entries m1 ! i) = occupied_pair (entries m ! i)"
    and bucket: "chains_ok hash m bucket"
    and paths: "\<And>b. b < im_capacity m \<Longrightarrow>
      path ((entries m1)[n := Some (Occupied k v None)]) (indices m1 ! b)
        (filter (\<lambda>i. bucket i = b) [0..<n] @ (if b = hash_index hash (im_capacity m) k then [n] else []))"
    and m2: "m2 = m1\<lparr>entries := (entries m1)[n := Some (Occupied k v None)], num_occupied := num_occupied m1 + 1\<rparr>"
  shows "im_inv hash m2" and "im_iter m2 = im_iter m @ [(k, v)]"
proof -
  have len: "length (entries m) = im_capacity m" "n < length (entries m)"
    using inv room n by (simp_all add: im_inv_def)
  have nl: "n < length (entries m1)" using len m1(4) by simp
  have used: "num_entries_used m2 = Suc n" "im_capacity m2 = im_capacity m"
    using m1 n by (simp_all add: m2 num_entries_used_def im_capacity_def)
  have mp: "map occupied_pair (take n (entries m1)) = map occupied_pair (take n (entries m))"
    using same len m1(4) by (intro nth_equalityI) simp_all
  have "take (Suc n) ((entries m1)[n := Some (Occupied k v None)]) = take n (entries m1) @ [Some (Occupied k v None)]"
    using nl by (simp add: take_Suc_conv_app_nth)
  then show it: "im_iter m2 = im_iter m @ [(k, v)]"
    using mp n by (simp add: im_iter_def used) (simp add: m2)
  let ?bucket = "bucket(n := hash_index hash (im_capacity m) k)"
  have f: "filter (\<lambda>i. ?bucket i = b) [0..<Suc n] = filter (\<lambda>i. bucket i = b) [0..<n] @
      (if b = hash_index hash (im_capacity m) k then [n] else [])" for b
    by (auto intro!: filter_cong)
  have occ: "\<exists>v' c'. entries m ! i = Some (Occupied k' v' c')"
    if "i < n" "entries m1 ! i = Some (Occupied k' v' c')" for i k' v' c'
    using same [OF that(1)] that(2) by (cases "entries m ! i" rule: occupied_pair.cases) auto
  have "chains_ok hash m2 ?bucket"
    unfolding chains_ok_def used f
  proof (intro conjI allI impI)
    fix b assume "b < im_capacity m"
    then show "path (entries m2) (indices m2 ! b) (filter (\<lambda>i. bucket i = b) [0..<n] @
        (if b = hash_index hash (im_capacity m) k then [n] else []))"
      using paths [of b] by (simp add: m2)
  next
    fix i k' v' c' assume i: "i < Suc n" "entries m2 ! i = Some (Occupied k' v' c')"
    show "?bucket i = hash_index hash (im_capacity m) k'"
    proof (cases "i = n")
      case True
      then show ?thesis using i nl by (simp add: m2)
    next
      case False
      then have "entries m1 ! i = Some (Occupied k' v' c')" "i < n" using i by (simp_all add: m2)
      then show ?thesis using occ [of i k' v' c'] bucket False n by (auto simp: chains_ok_def)
    qed
  qed
  moreover have "\<forall>i < Suc n. entries m2 ! i \<noteq> None"
    using same nl by (auto simp: m2 nth_list_update less_Suc_eq)
  ultimately show "im_inv hash m2"
    using inv new room m1 n len unfolding im_inv_def used it by (auto simp: m2)
qed

text \<open>The chain of a key's bucket, its first index, and a search in it.\<close>

lemma bucket_chain:
  assumes inv: "im_inv hash m" and room: "num_entries_used m < im_capacity m"
    and b: "chains_ok hash m bucket" and h: "h = hash_index hash (im_capacity m) k"
    and ps: "ps = filter (\<lambda>i. bucket i = h) [0..<num_entries_used m]"
  shows "h < im_capacity m" and "get_index_unchecked m h = Some (indices m ! h)"
    and "path (entries m) (indices m ! h) ps"
    and "find (has_key (entries m) k) ps = find (has_key (entries m) k) [0..<num_entries_used m]"
proof -
  show h': "h < im_capacity m"
    unfolding h using inv room by (intro hash_index_lt) (auto simp: im_inv_def)
  then show "get_index_unchecked m h = Some (indices m ! h)"
    by (simp add: get_index_unchecked_def im_capacity_def)
  show "path (entries m) (indices m ! h) ps" using b h' by (simp add: chains_ok_def ps)
  show "find (has_key (entries m) k) ps = find (has_key (entries m) k) [0..<num_entries_used m]"
    unfolding ps using b by (intro find_filter_implied) (auto simp: chains_ok_def h elim!: has_keyE)
qed

lemma insert_first_of_bucket:
  assumes inv: "im_inv hash m" and room: "num_entries_used m < im_capacity m"
    and b: "chains_ok hash m bucket" and h: "h = hash_index hash (im_capacity m) k"
    and n: "n = num_entries_used m" and new: "k \<notin> fst ` set (im_iter m)"
    and empty: "filter (\<lambda>i. bucket i = h) [0..<n] = []"
    and m2: "m2 = m\<lparr>indices := (indices m)[h := Some n], entries := (entries m)[n := Some (Occupied k v None)],
        num_occupied := num_occupied m + 1\<rparr>"
  shows "im_inv hash m2 \<and> im_iter m2 = im_iter m @ [(k, v)]"
proof -
  define m1 where "m1 = m\<lparr>indices := (indices m)[h := Some n]\<rparr>"
  have len: "length (entries m) = im_capacity m" "length (indices m) = im_capacity m" "n < length (entries m)"
    using inv room by (simp_all add: im_inv_def im_capacity_def n)
  have ex: "\<forall>i < n. entries m ! i \<noteq> None" using inv by (simp add: im_inv_def n)
  have m2': "m2 = m1\<lparr>entries := (entries m1)[n := Some (Occupied k v None)], num_occupied := num_occupied m1 + 1\<rparr>"
    by (simp add: m2 m1_def)
  have pth: "path ((entries m1)[n := Some (Occupied k v None)]) (indices m1 ! b')
      (filter (\<lambda>i. bucket i = b') [0..<n] @ (if b' = hash_index hash (im_capacity m) k then [n] else []))"
    if "b' < im_capacity m" for b'
    using b that empty len
    by (cases "b' = h") (simp_all add: chains_ok_def m1_def nth_list_update flip: h n)
  show ?thesis
    using append_refines [OF inv room new n _ _ _ _ _ b pth m2'] ex len(2) by (simp add: m1_def)
qed

lemma insert_at_end_of_bucket:
  assumes inv: "im_inv hash m" and room: "num_entries_used m < im_capacity m"
    and b: "chains_ok hash m bucket" and h: "h = hash_index hash (im_capacity m) k"
    and n: "n = num_entries_used m" and new: "k \<notin> fst ` set (im_iter m)"
    and snoc: "filter (\<lambda>i. bucket i = h) [0..<n] = qs @ [j]"
    and m2: "m2 = (relink m j n)\<lparr>entries := (entries (relink m j n))[n := Some (Occupied k v None)],
        num_occupied := num_occupied (relink m j n) + 1\<rparr>"
  shows "im_inv hash m2 \<and> im_iter m2 = im_iter m @ [(k, v)]"
proof -
  let ?m1 = "relink m j n"
  have len: "length (entries m) = im_capacity m" "length (indices m) = im_capacity m" "n < length (entries m)"
    using inv room by (simp_all add: im_inv_def im_capacity_def n)
  have ex: "\<forall>i < n. entries m ! i \<noteq> None" using inv by (simp add: im_inv_def n)
  have "distinct (qs @ [j])" "n \<notin> set (qs @ [j])" unfolding snoc [symmetric] by simp_all
  moreover have "j \<in> set (filter (\<lambda>i. bucket i = h) [0..<n])" unfolding snoc by simp
  ultimately have ps: "distinct (qs @ [j])" "n \<notin> set (qs @ [j])" "j < n" "bucket j = h" by simp_all
  obtain e where e: "entries m ! j = Some e" using ex ps(3) by auto
  have es1: "entries ?m1 = (entries m)[j := Some (set_chain e (Some n))]" by (simp add: relink_def e)
  have op: "occupied_pair (Some (set_chain e c)) = occupied_pair (Some e)" for c by (cases e) simp_all
  have pth: "path ((entries ?m1)[n := Some (Occupied k v None)]) (indices ?m1 ! b')
      (filter (\<lambda>i. bucket i = b') [0..<n] @ (if b' = hash_index hash (im_capacity m) k then [n] else []))"
    if b': "b' < im_capacity m" for b'
  proof (cases "b' = h")
    case True
    have "path (entries m) (indices m ! b') (filter (\<lambda>i. bucket i = b') [0..<n])"
      using b b' by (simp add: chains_ok_def n)
    then have "path (entries m) (indices m ! h) (qs @ [j])" using True snoc by simp
    from path_snoc [OF this ps(1) e ps(2) len(3)] show ?thesis
      using True snoc e by (simp add: relink_def flip: h)
  next
    case False
    then show ?thesis
      using b b' ps(4) by (simp add: chains_ok_def es1 relink_def flip: h n)
  qed
  have same: "entries ?m1 ! i \<noteq> None \<and> occupied_pair (entries ?m1 ! i) = occupied_pair (entries m ! i)"
    if "i < n" for i
    using that ex e op len ps(3) by (cases "i = j") (simp_all add: es1)
  show ?thesis
    using append_refines [OF inv room new n _ _ _ _ same b pth m2] len by (simp add: relink_def)
qed

lemma insert_refines:
  assumes inv: "im_inv hash m" and room: "num_entries_used m < im_capacity m"
  shows "\<exists>m'. im_insert_without_growing hash m k v = Some (m', k \<in> fst ` set (im_iter m)) \<and>
           im_inv hash m' \<and> im_iter m' = al_insert k v (im_iter m) \<and> im_capacity m' = im_capacity m \<and>
           num_entries_used m' = num_entries_used m + (if k \<in> fst ` set (im_iter m) then 0 else 1)"
proof -
  define n h where "n = num_entries_used m" and "h = hash_index hash (im_capacity m) k"
  obtain bucket where b: "chains_ok hash m bucket" using inv by (auto simp: im_inv_def)
  define ps where "ps = filter (\<lambda>i. bucket i = h) [0..<n]"
  note bc = bucket_chain [OF inv room b h_def ps_def [unfolded n_def]]
  have len: "length (entries m) = im_capacity m" "n < length (entries m)"
    using inv room by (simp_all add: im_inv_def n_def)
  show ?thesis
  proof (cases "find (has_key (entries m) k) [0..<n]")
    case (Some i)
    then obtain j ps' where ps: "ps = j # ps'" using bc(4) by (cases ps) (auto simp: n_def)
    then have "indices m ! h = Some j" using bc(3) by simp
    moreover have "insert_loop m k v n j = Some (overwrite m i v, True)"
      using insert_loop_path [of m j ps' k v n] bc(3,4) ps Some by (simp add: n_def)
    moreover have "k \<in> fst ` set (im_iter m)" using find_key_iff [OF inv, of k] Some by (auto simp: n_def)
    moreover have "im_capacity (overwrite m i v) = im_capacity m" by (simp add: overwrite_def im_capacity_def)
    ultimately show ?thesis
      using overwrite_refines [OF inv Some [unfolded n_def], of v] bc(2)
      by (simp add: im_insert_without_growing_def Let_def flip: h_def n_def)
  next
    case None
    then have new: "k \<notin> fst ` set (im_iter m)" using find_key_iff [OF inv, of k] by (simp add: n_def)
    then have al: "al_insert k v (im_iter m) = im_iter m @ [(k, v)]" by (simp add: al_insert_def)
    show ?thesis
    proof (cases ps rule: rev_cases)
      case Nil
      define m2 where "m2 = m\<lparr>indices := (indices m)[h := Some n],
        entries := (entries m)[n := Some (Occupied k v None)], num_occupied := num_occupied m + 1\<rparr>"
      have "indices m ! h = None" using bc(3) Nil by simp
      then have "im_insert_without_growing hash m k v = Some (m2, False)"
        using bc(2) len by (simp add: im_insert_without_growing_def Let_def set_entry_unchecked_def m2_def
            flip: h_def n_def)
      moreover have "im_capacity m2 = im_capacity m" "num_entries_used m2 = num_entries_used m + 1"
        by (simp_all add: m2_def im_capacity_def num_entries_used_def)
      ultimately show ?thesis
        using insert_first_of_bucket [OF inv room b h_def n_def new _ m2_def] Nil new al by (simp add: ps_def)
    next
      case (snoc qs j)
      define m2 where "m2 = (relink m j n)\<lparr>entries := (entries (relink m j n))[n := Some (Occupied k v None)],
        num_occupied := num_occupied (relink m j n) + 1\<rparr>"
      obtain j' ps' where j': "ps = j' # ps'" using snoc by (metis append_is_Nil_conv list.exhaust not_Cons_self2)
      then have "indices m ! h = Some j'" using bc(3) by simp
      moreover have "insert_loop m k v n j' = Some (relink m j n, False)"
      proof -
        have "last (j' # ps') = j" using j' snoc by (metis last_snoc)
        then show ?thesis
          using insert_loop_path [of m j' ps' k v n] bc(3,4) j' None by (simp add: n_def del: last.simps)
      qed
      moreover have "length (entries (relink m j n)) = length (entries m)" by (simp add: relink_def)
      ultimately have "im_insert_without_growing hash m k v = Some (m2, False)"
        using bc(2) len by (simp add: im_insert_without_growing_def Let_def set_entry_unchecked_def m2_def
            flip: h_def n_def)
      moreover have "im_capacity m2 = im_capacity m" "num_entries_used m2 = num_entries_used m + 1"
        by (simp_all add: m2_def relink_def im_capacity_def num_entries_used_def)
      ultimately show ?thesis
        using insert_at_end_of_bucket [OF inv room b h_def n_def new _ m2_def] snoc new al by (simp add: ps_def)
    qed
  qed
qed

subsection \<open>Growing\<close>

lemma im_inv_new: "cap = 0 \<or> (\<exists>p. cap = 2 ^ p) \<Longrightarrow> im_inv hash (im_new cap)"
  by (simp add: im_inv_def chains_ok_def im_new_def im_capacity_def num_entries_used_def im_iter_def)

lemma im_new_simps [simp]:
  "im_iter (im_new cap) = []" "num_entries_used (im_new cap) = 0" "im_capacity (im_new cap) = cap"
  by (simp_all add: im_new_def im_iter_def num_entries_used_def im_capacity_def)

lemma insert_all_refines:
  assumes "im_inv hash m" "distinct (map fst (im_iter m @ kvs))" "num_entries_used m + length kvs \<le> im_capacity m"
  shows "\<exists>m'. insert_all hash m kvs = Some m' \<and> im_inv hash m' \<and> im_iter m' = im_iter m @ kvs \<and>
           im_capacity m' = im_capacity m \<and> num_entries_used m' = num_entries_used m + length kvs"
  using assms
proof (induction kvs arbitrary: m)
  case (Cons kv kvs)
  obtain k v where kv: "kv = (k, v)" by (cases kv)
  then have new: "k \<notin> fst ` set (im_iter m)" using Cons.prems(2) by auto
  obtain m1 where m1: "im_insert_without_growing hash m k v = Some (m1, False)" "im_inv hash m1"
      "im_iter m1 = im_iter m @ [(k, v)]" "im_capacity m1 = im_capacity m"
      "num_entries_used m1 = num_entries_used m + 1"
    using insert_refines [OF Cons.prems(1), of k v] Cons.prems(3) new by (auto simp: al_insert_def)
  have "\<exists>m'. insert_all hash m1 kvs = Some m' \<and> im_inv hash m' \<and> im_iter m' = im_iter m1 @ kvs \<and>
      im_capacity m' = im_capacity m1 \<and> num_entries_used m' = num_entries_used m1 + length kvs"
    using Cons.prems m1 kv by (intro Cons.IH) simp_all
  then show ?case using m1 kv by auto
qed simp

lemma used_full:
  assumes "im_inv hash m"
  shows "length (im_iter m) + num_deleted m = num_entries_used m"
  using assms by (simp add: im_inv_def num_entries_used_def)

lemma grown_capacity_room:
  assumes "im_inv hash m" "num_entries_used m = im_capacity m"
  shows "\<exists>p. grown_capacity m = 2 ^ p" "length (im_iter m) < grown_capacity m"
proof -
  have c: "im_capacity m = 0 \<or> (\<exists>p. im_capacity m = 2 ^ p)" using assms(1) by (simp add: im_inv_def)
  show "\<exists>p. grown_capacity m = 2 ^ p"
  proof (cases "im_capacity m = 0")
    case True
    then show ?thesis by (intro exI [of _ 2]) (simp add: grown_capacity_def MIN_CAPACITY_def)
  next
    case False
    with c obtain p where p: "im_capacity m = 2 ^ p" by blast
    then have "grown_capacity m = 2 ^ p \<or> grown_capacity m = 2 ^ Suc p"
      by (simp add: grown_capacity_def)
    then show ?thesis by blast
  qed
  show "length (im_iter m) < grown_capacity m"
    using used_full [OF assms(1)] assms(2) by (auto simp: grown_capacity_def MIN_CAPACITY_def)
qed

lemma maybe_grow_refines:
  assumes inv: "im_inv hash m"
  shows "\<exists>old m'. maybe_grow_for_insertion hash ptr m = Some (old, m') \<and> im_inv hash m' \<and> im_iter m' = im_iter m \<and>
           num_entries_used m' < im_capacity m' \<and> (m' = m \<or> num_deleted m' = 0)"
proof (cases "num_entries_used m < im_capacity m")
  case True
  then show ?thesis using inv by (simp add: maybe_grow_for_insertion_def)
next
  case False
  then have full: "num_entries_used m = im_capacity m" using inv by (simp add: im_inv_def)
  note g = grown_capacity_room [OF inv full]
  have new: "im_inv hash (im_new (grown_capacity m) :: ('a, 'b) index_map)"
    using g(1) by (intro im_inv_new) blast
  have dist: "distinct (map fst (im_iter m))" using inv by (simp add: im_inv_def)
  have "\<exists>m'. insert_all hash (im_new (grown_capacity m)) (im_iter m) = Some m' \<and> im_inv hash m' \<and>
      im_iter m' = im_iter (im_new (grown_capacity m)) @ im_iter m \<and>
      im_capacity m' = im_capacity (im_new (grown_capacity m) :: ('a, 'b) index_map) \<and>
      num_entries_used m' = num_entries_used (im_new (grown_capacity m) :: ('a, 'b) index_map) + length (im_iter m)"
    using new dist g(2) by (intro insert_all_refines) simp_all
  then obtain m' where m': "insert_all hash (im_new (grown_capacity m)) (im_iter m) = Some m'" "im_inv hash m'"
      "im_iter m' = im_iter m" "im_capacity m' = grown_capacity m" "num_entries_used m' = length (im_iter m)"
    by auto
  moreover have "num_deleted m' = 0" using used_full [OF m'(2)] m'(3,5) by simp
  ultimately show ?thesis using g(2) False by (simp add: maybe_grow_for_insertion_def)
qed

lemma im_insert_refines:
  assumes "im_inv hash m"
  shows "\<exists>m'. im_insert hash ptr m k v = Some (m', k \<in> fst ` set (im_iter m)) \<and> im_inv hash m' \<and>
           im_iter m' = al_insert k v (im_iter m)"
proof -
  obtain old m1 where m1: "maybe_grow_for_insertion hash ptr m = Some (old, m1)" "im_inv hash m1" "im_iter m1 = im_iter m"
      "num_entries_used m1 < im_capacity m1"
    using maybe_grow_refines [OF assms] by blast
  then show ?thesis using insert_refines [OF m1(2,4), of k v] by (auto simp: im_insert_def)
qed

interpretation im: ordered_store "im_inv hash" im_iter "im_get hash" "im_insert hash ptr" "im_remove hash"
  for hash :: "'k \<Rightarrow> nat" and ptr :: nat
proof
  fix m :: "('k, 'v) index_map" and k :: 'k and v :: 'v
  assume inv: "im_inv hash m"
  show "distinct (map fst (im_iter m))" using inv by (simp add: im_inv_def)
  show "im_get hash m k = Some (map_of (im_iter m) k)" by (rule im_get_eq [OF inv])
  show "\<exists>m'. im_insert hash ptr m k v = Some (m', k \<in> fst ` set (im_iter m)) \<and> im_inv hash m' \<and>
      im_iter m' = al_insert k v (im_iter m)"
    by (rule im_insert_refines [OF inv])
  show "\<exists>m'. im_remove hash m k = Some (m', k \<in> fst ` set (im_iter m)) \<and> im_inv hash m' \<and>
      im_iter m' = al_remove k (im_iter m)"
    by (rule im_remove_refines [OF inv])
qed


subsection \<open>Iterators across growth\<close>

text \<open>What an iterator that stands at an entry index still yields.\<close>

definition im_iter_from :: "('k, 'v) index_map \<Rightarrow> nat \<Rightarrow> ('k \<times> 'v) list" where
  "im_iter_from m next_entry_index = pairs (drop next_entry_index (take (num_entries_used m) (entries m)))"

lemma length_occupied_pair: "length (occupied_pair e) \<le> 1"
  by (cases e rule: occupied_pair.cases) simp_all

lemma length_pairs: "length (pairs es) \<le> length es"
proof (induction es)
  case (Cons e es)
  then show ?case using length_occupied_pair [of e] by simp
qed simp

lemma pairs_drop_full:
  "length (pairs es) = length es \<Longrightarrow> pairs (drop n es) = drop n (pairs es)"
proof (induction es arbitrary: n)
  case (Cons e es)
  have "length (occupied_pair e) = 1" "length (pairs es) = length es"
    using Cons.prems length_occupied_pair [of e] length_pairs [of es] by auto
  then obtain kv where "occupied_pair e = [kv]" by (auto simp: length_Suc_conv)
  then show ?case using Cons \<open>length (pairs es) = length es\<close> by (cases n) simp_all
qed simp

lemma occupied_count:
  "length (filter (\<lambda>e. case e of Some (Occupied k v c) \<Rightarrow> True | _ \<Rightarrow> False) es) = length (pairs es)"
proof (induction es)
  case (Cons e es)
  then show ?case by (cases e rule: occupied_pair.cases) simp_all
qed simp

lemma im_iter_split:
  assumes "n \<le> num_entries_used m"
  shows "im_iter m = pairs (take n (entries m)) @ im_iter_from m n"
proof -
  have "take (num_entries_used m) (entries m) = take n (entries m) @ drop n (take (num_entries_used m) (entries m))"
    using assms by (metis append_take_drop_id min.absorb1 take_take)
  then show ?thesis by (metis concat_append im_iter_def im_iter_from_def map_append)
qed

lemma maybe_grow_tombstone:
  assumes "maybe_grow_for_insertion hash ptr m = Some (old, m')" "\<not> num_entries_used m < im_capacity m" "im_capacity m \<noteq> 0"
  shows "old = set_new_map_ptr ptr (m\<lparr>is_tombstone := True\<rparr>)"
  using assms by (auto simp: maybe_grow_for_insertion_def bind_eq_Some_conv)

text \<open>
  C26: an iterator survives growth: the old map becomes a tombstone, through which the iterator finds
  the new map, and from the position that \<open>fix_iterator_for_resized_map\<close> computes it yields
  exactly the pairs that it had not yet yielded from the old map.
\<close>

theorem iterator_survives_growth:
  assumes inv: "im_inv hash m" and full: "num_entries_used m = im_capacity m" "im_capacity m \<noteq> 0"
    and n: "n \<le> num_entries_used m"
  shows "\<exists>old m' j. maybe_grow_for_insertion hash ptr m = Some (old, m') \<and> is_tombstone old \<and>
           fix_iterator_for_resized_map old n = Some (Some ptr, j) \<and> im_iter_from m' j = im_iter_from m n"
proof -
  obtain old m' where m': "maybe_grow_for_insertion hash ptr m = Some (old, m')" "im_inv hash m'" "im_iter m' = im_iter m"
      "num_entries_used m' < im_capacity m'" "m' = m \<or> num_deleted m' = 0"
    using maybe_grow_refines [OF inv, of ptr] by blast
  have "num_deleted m' = 0" using m'(4,5) full by auto
  then have "length (pairs (take (num_entries_used m') (entries m'))) = length (take (num_entries_used m') (entries m'))"
    using used_full [OF m'(2)] m'(2) by (simp add: im_iter_def im_inv_def)
  then have from_new: "im_iter_from m' j = drop j (im_iter m)" for j
    using m'(3) by (simp add: im_iter_from_def pairs_drop_full im_iter_def)
  have old: "old = set_new_map_ptr ptr (m\<lparr>is_tombstone := True\<rparr>)"
    using maybe_grow_tombstone [OF m'(1)] full by simp
  have "fix_iterator_for_resized_map old n = Some (Some ptr, length (pairs (take n (entries m))))"
    using full(2) by (simp add: fix_iterator_for_resized_map_def get_new_map_ptr_def get_index_unchecked_def
        old set_new_map_ptr_def im_capacity_def occupied_count)
  moreover have "im_iter_from m' (length (pairs (take n (entries m)))) = im_iter_from m n"
    unfolding from_new im_iter_split [OF n] by simp
  moreover have "is_tombstone old" by (simp add: old set_new_map_ptr_def)
  ultimately show ?thesis using m'(1) by blast
qed

text \<open>A full map of capacity 1 that holds one pair, with every key in the same bucket.\<close>

definition full_map :: "(nat, nat) index_map" where
  "full_map = \<lparr>is_tombstone = False, num_occupied = 1, num_deleted = 0, indices = [Some 0], entries = [Some (Occupied 7 9 None)]\<rparr>"

lemma im_inv_full_map: "im_inv (\<lambda>k. 0) full_map"
proof -
  define m0 :: "(nat, nat) index_map" where "m0 = im_new (2 ^ 0)"
  have inv: "im_inv (\<lambda>k. 0) m0" unfolding m0_def by (rule im_inv_new) blast
  have room: "num_entries_used m0 < im_capacity m0"
    by (simp add: num_entries_used_def im_capacity_def im_new_def m0_def)
  obtain m' b where "im_insert_without_growing (\<lambda>k. 0) m0 7 9 = Some (m', b)" "im_inv (\<lambda>k. 0) m'"
    using insert_refines [OF inv room, of 7 9] by blast
  moreover have "im_insert_without_growing (\<lambda>k. 0) m0 7 9 = Some (full_map, False)"
    by (simp add: im_insert_without_growing_def full_map_def im_new_def hash_index_def get_index_unchecked_def
        set_entry_unchecked_def num_entries_used_def im_capacity_def m0_def)
  ultimately show ?thesis by simp
qed

theorem iterator_survives_growth_witness:
  "\<exists>old m' j. maybe_grow_for_insertion (\<lambda>k. 0) 4096 full_map = Some (old, m') \<and> is_tombstone old \<and>
        fix_iterator_for_resized_map old 0 = Some (Some 4096, j) \<and> im_iter_from m' j = [(7, 9)]"
  using iterator_survives_growth [OF im_inv_full_map, of 0 4096]
  by (simp add: full_map_def num_entries_used_def im_capacity_def im_iter_from_def)

subsection \<open>One step of an iterator\<close>

lemma im_iter_from_step:
  assumes "i < num_entries_used m" "num_entries_used m \<le> length (entries m)"
  shows "im_iter_from m i = occupied_pair (entries m ! i) @ im_iter_from m (Suc i)"
proof -
  have "drop i (take (num_entries_used m) (entries m)) =
      entries m ! i # drop (Suc i) (take (num_entries_used m) (entries m))"
    using assms by (subst Cons_nth_drop_Suc [symmetric]) simp_all
  then show ?thesis by (simp add: im_iter_from_def)
qed

lemma im_iter_from_end: "num_entries_used m \<le> i \<Longrightarrow> im_iter_from m i = []"
  by (simp add: im_iter_from_def)

lemma iter_next_loop_correct:
  assumes "im_inv hash m"
  shows "case im_iter_from m i of
           [] \<Rightarrow> iter_next_loop m n i = Some (None, n)
         | kv # kvs \<Rightarrow> \<exists>j. iter_next_loop m n i = Some (Some kv, j) \<and> im_iter_from m j = kvs"
proof (induction "num_entries_used m - i" arbitrary: i)
  case 0
  then show ?case by (simp add: im_iter_from_end iter_next_loop.simps [of m n i])
next
  case (Suc d)
  have i: "i < num_entries_used m" "num_entries_used m \<le> length (entries m)"
    using Suc.hyps(2) assms by (simp_all add: im_inv_def)
  then obtain e where e: "entries m ! i = Some e" using assms by (auto simp: im_inv_def)
  have g: "get_entry_unchecked m i = Some e" using e i by (simp add: get_entry_unchecked_def)
  have "d = num_entries_used m - (i + 1)" using Suc.hyps(2) by simp
  from Suc.hyps(1) [OF this] show ?case
    using i g e
    by (cases e; cases "im_iter_from m (Suc i)") (simp_all add: im_iter_from_step iter_next_loop.simps [of m n i])
qed

text \<open>
  One call of an iterator's \<open>next\<close> on any well-formed map returns: it yields the first pair
  still to come and moves just past it, or, when no pair is left, reports the end and stays where it
  is; deleted entries are skipped and no uninitialised entry is read.
\<close>

theorem iter_next_correct:
  assumes "im_inv hash m"
  shows "case im_iter_from m n of
           [] \<Rightarrow> iter_next m n = Some (None, n)
         | kv # kvs \<Rightarrow> \<exists>j. iter_next m n = Some (Some kv, j) \<and> im_iter_from m j = kvs"
  using iter_next_loop_correct [OF assms, of n n] unfolding iter_next_def .

theorem iter_next_correct_witness:
  "im_iter_from full_map 0 = [(7, 9)] \<and>
   (\<exists>j. iter_next full_map 0 = Some (Some (7, 9), j) \<and> im_iter_from full_map j = [])"
proof
  show f: "im_iter_from full_map 0 = [(7, 9)]"
    by (simp add: full_map_def im_iter_from_def num_entries_used_def)
  show "\<exists>j. iter_next full_map 0 = Some (Some (7, 9), j) \<and> im_iter_from full_map j = []"
    using iter_next_correct [OF im_inv_full_map, of 0] by (simp add: f)
qed

subsection \<open>Clearing under an iterator\<close>

lemma im_inv_clear: "im_inv hash m \<Longrightarrow> im_inv hash (im_clear m)"
  by (simp add: im_inv_def chains_ok_def im_clear_def im_capacity_def num_entries_used_def im_iter_def)

lemma im_clear_simps [simp]:
  "im_iter (im_clear m) = []" "num_entries_used (im_clear m) = 0" "im_capacity (im_clear m) = im_capacity m"
  by (simp_all add: im_clear_def im_iter_def num_entries_used_def im_capacity_def)

text \<open>
  Clearing a map strands its live iterators: \<open>clear\<close> makes new pairs start again at entry
  0 and leaves no tombstone, so an iterator that had already yielded something misses the pair
  inserted next and reports the end, although the map holds that pair.
\<close>

theorem clear_strands_iterator:
  assumes inv: "im_inv hash m" and cap: "im_capacity m \<noteq> 0" and n: "0 < n"
  shows "\<exists>m'. im_insert hash ptr (im_clear m) k v = Some (m', False) \<and> im_iter m' = [(k, v)] \<and>
           iter_next m' n = Some (None, n)"
proof -
  have room: "num_entries_used (im_clear m) < im_capacity (im_clear m)" using cap by simp
  obtain m' where m': "im_insert_without_growing hash (im_clear m) k v = Some (m', False)"
      "im_iter m' = [(k, v)]" "num_entries_used m' = 1"
    using insert_refines [OF im_inv_clear [OF inv] room, of k v] by (auto simp: al_insert_def)
  moreover have "im_insert hash ptr (im_clear m) k v = im_insert_without_growing hash (im_clear m) k v"
    using room by (simp add: im_insert_def maybe_grow_for_insertion_def)
  moreover have "iter_next m' n = Some (None, n)"
    using n m'(3) by (simp add: iter_next_def iter_next_loop.simps [of m' n n])
  ultimately show ?thesis by simp
qed

theorem clear_strands_iterator_witness:
  "\<exists>m'. im_insert (\<lambda>k. 0) 4096 (im_clear full_map) 1 2 = Some (m', False) \<and> im_iter m' = [(1, 2)] \<and>
        iter_next m' 1 = Some (None, 1)"
  using clear_strands_iterator [OF im_inv_full_map, of 1 4096 1 2]
  by (simp add: full_map_def im_capacity_def)

end
