(* ===== verification/Value_Equality.thy ===== *)
theory Value_Equality
  imports Value
begin

unbundle bit_operations_syntax

section \<open>SameValue, SameValueZero and strict equality\<close>

text \<open>
  The equality operations of \<open>runtime/type_utilities.rs\<close> on boxed values. The heap enters as
  the function \<open>deref\<close> from the pointer of a heap item to what the operations read of it: the
  code units of a string, the integer of a BigInt, or nothing for the items that are compared by
  address. The refinement theorem says that \<open>same_value\<close> decides equality of the JavaScript
  values that two words stand for; the other two operations differ from it at NaN and at the zeros
  only.
\<close>

datatype heap_contents = StringItem "u16 list" | BigIntItem int | OtherItem

definition same_value_non_numeric :: "(u64 \<Rightarrow> heap_contents) \<Rightarrow> value \<Rightarrow> value \<Rightarrow> bool" where
  "same_value_non_numeric deref v1 v2 =
     (if v1 = v2 then True
      else if is_pointer v1 \<and> is_pointer v2 then
        (case (deref (as_pointer v1), deref (as_pointer v2)) of
           (StringItem s1, StringItem s2) \<Rightarrow> s1 = s2
         | (BigIntItem i1, BigIntItem i2) \<Rightarrow> i1 = i2
         | _ \<Rightarrow> False)
      else False)"

definition same_value :: "(u64 \<Rightarrow> heap_contents) \<Rightarrow> value \<Rightarrow> value \<Rightarrow> bool" where
  "same_value deref v1 v2 =
     (if is_number v1 then
        (if is_number v2 then
           (if is_nan v1 \<and> is_nan v2 then True
            else if is_positive_zero v1 \<and> is_negative_zero v2 \<or>
                    is_negative_zero v1 \<and> is_positive_zero v2 then False
            else f64_eq (as_number v1) (as_number v2))
         else False)
      else same_value_non_numeric deref v1 v2)"

definition same_value_zero :: "(u64 \<Rightarrow> heap_contents) \<Rightarrow> value \<Rightarrow> value \<Rightarrow> bool" where
  "same_value_zero deref v1 v2 =
     (if is_number v1 then
        (if is_number v2 then
           (if is_nan v1 \<and> is_nan v2 then True else f64_eq (as_number v1) (as_number v2))
         else False)
      else same_value_non_numeric deref v1 v2)"

definition is_strictly_equal :: "(u64 \<Rightarrow> heap_contents) \<Rightarrow> value \<Rightarrow> value \<Rightarrow> bool" where
  "is_strictly_equal deref v1 v2 =
     (if is_number v1 then
        (if is_number v2 then f64_eq (as_number v1) (as_number v2) else False)
      else same_value_non_numeric deref v1 v2)"

subsection \<open>The values that words stand for\<close>

datatype js_value = JNumber f64 | JString "u16 list" | JBigInt int | JReference u64 | JOther u64

definition abs_value :: "(u64 \<Rightarrow> heap_contents) \<Rightarrow> value \<Rightarrow> js_value" where
  "abs_value deref v =
     (if is_number v then JNumber (as_number v)
      else if is_pointer v then
        (case deref (as_pointer v) of StringItem s \<Rightarrow> JString s | BigIntItem i \<Rightarrow> JBigInt i
         | OtherItem \<Rightarrow> JReference (as_pointer v))
      else JOther v)"

text \<open>The words that the number constructors make: no payload bits above a small integer, one NaN.\<close>

definition wf_value :: "value \<Rightarrow> bool" where
  "wf_value v \<longleftrightarrow>
     (is_smi v \<longrightarrow> v = value_smi (as_smi v)) \<and>
     (is_double v \<longrightarrow> is_nan v \<or> \<not> f64_is_nan (as_double v))"

lemma ilog2_bounds: "0 < n \<Longrightarrow> 2 ^ ilog2 n \<le> n \<and> n < 2 ^ Suc (ilog2 n)"
proof (induction n rule: ilog2.induct)
  case (1 n)
  show ?case
  proof (cases "n \<le> 1")
    case True
    with 1 show ?thesis by (subst (1 2) ilog2.simps) simp
  next
    case False
    with 1 have "2 ^ ilog2 (n div 2) \<le> n div 2 \<and> n div 2 < 2 ^ Suc (ilog2 (n div 2))" by simp
    moreover have "ilog2 n = Suc (ilog2 (n div 2))" using False by (subst ilog2.simps) simp
    ultimately show ?thesis by auto
  qed
qed

lemma f64_of_nat_bounds:
  assumes "0 < n" "n < 2 ^ 32"
  shows "0 < f64_of_nat n" "f64_of_nat n < 1055 * 2 ^ 52"
proof -
  define k where "k = ilog2 n"
  have b: "2 ^ k \<le> n" "n < 2 ^ Suc k" using ilog2_bounds [OF assms(1)] by (simp_all add: k_def)
  have "(2::nat) ^ k < 2 ^ 32" using b(1) assms(2) by (rule le_less_trans)
  then have k: "k \<le> 31" by (simp only: power_strict_increasing_iff)
  have "n * 2 ^ (52 - k) < 2 ^ Suc k * 2 ^ (52 - k)" using b(2) by simp
  also have "\<dots> = 2 ^ 53" using k by (simp flip: power_add)
  finally have "n * 2 ^ (52 - k) < 2 ^ 53" .
  moreover have "f64_of_nat n = (1022 + k) * 2 ^ 52 + n * 2 ^ (52 - k)"
    using assms(1) k by (simp add: f64_of_nat_def Let_def k_def)
  ultimately show "0 < f64_of_nat n" "f64_of_nat n < 1055 * 2 ^ 52"
    using k by simp_all
qed

lemma f64_of_i32_props:
  assumes "\<bar>i\<bar> < 2 ^ 32"
  shows "\<not> f64_is_nan (f64_of_int i)" "f64_of_int i \<noteq> f64_negative_zero"
    "f64_of_int i = f64_positive_zero \<longleftrightarrow> i = 0"
proof -
  have b: "f64_of_nat (nat \<bar>i\<bar>) < 1055 * 2 ^ 52"
  proof (cases "i = 0")
    case False
    then show ?thesis using assms by (intro f64_of_nat_bounds(2)) simp_all
  qed (simp add: f64_of_nat_def)
  have z: "f64_of_nat (nat \<bar>i\<bar>) = 0 \<longleftrightarrow> i = 0"
    using f64_of_nat_bounds(1) [of "nat \<bar>i\<bar>"] assms by (auto simp: f64_of_nat_def)
  have m: "f64_mag (f64_of_int i) = f64_of_nat (nat \<bar>i\<bar>)" and s: "f64_sign (f64_of_int i) = (i < 0)"
    using b by (simp_all add: f64_of_int_def)
  show "\<not> f64_is_nan (f64_of_int i)" using b by (simp add: f64_is_nan_iff m)
  show "f64_of_int i \<noteq> f64_negative_zero"
    using m s z f64_zeros by auto
  show "f64_of_int i = f64_positive_zero \<longleftrightarrow> i = 0"
    using m s z f64_zeros f64_eqI [of "f64_of_int i" f64_positive_zero] by auto
qed

subsection \<open>Number tests read the number\<close>

lemma sint_u32_bound: "\<bar>sint (i :: u32)\<bar> < 2 ^ 32"
  using sint_greater_eq [of i] sint_less [of i] by simp

lemma not_eq_iff: "NOT v = w \<longleftrightarrow> v = NOT (w :: u64)"
  by auto

lemma number_tests:
  assumes "wf_value v" "is_number v"
  shows "is_nan v \<longleftrightarrow> f64_is_nan (as_number v)"
    "is_positive_zero v \<longleftrightarrow> as_number v = f64_positive_zero"
    "is_negative_zero v \<longleftrightarrow> as_number v = f64_negative_zero"
proof -
  have "(is_nan v \<longleftrightarrow> f64_is_nan (as_number v)) \<and>
    (is_positive_zero v \<longleftrightarrow> as_number v = f64_positive_zero) \<and>
    (is_negative_zero v \<longleftrightarrow> as_number v = f64_negative_zero)"
  proof (cases "is_smi v")
    case True
    note i = f64_of_i32_props [OF sint_u32_bound, of "as_smi v"]
    have v: "v = value_smi (as_smi v)" using assms True by (simp add: wf_value_def)
    have t: "get_tag v = 0x8001" using True by (simp add: type_tests box_simps)
    have "get_tag DOUBLE_POSITIVE_ZERO = 0xFFFF" "get_tag DOUBLE_NEGATIVE_ZERO = 0x7FFF"
      by (simp_all add: DOUBLE_POSITIVE_ZERO_def DOUBLE_NEGATIVE_ZERO_def value_double_def
          f64_positive_zero_def f64_negative_zero_def get_tag_def TAG_SHIFT_def mask_eq_exp_minus_1)
    then have ne: "v \<noteq> DOUBLE_POSITIVE_ZERO" "v \<noteq> DOUBLE_NEGATIVE_ZERO" "v \<noteq> CANONICAL_NAN"
      using t by auto
    have "v = SMI_ZERO \<longleftrightarrow> sint (as_smi v) = 0"
      using v by (metis SMI_ZERO_def as_smi_value_smi signed_eq_0_iff)
    then show ?thesis
      using i ne True by (simp add: is_nan_def is_positive_zero_def is_negative_zero_def as_number_def)
  next
    case False
    then have d: "is_double v" using assms by (simp add: is_number_def)
    have "f64_is_nan (NOT v) \<longleftrightarrow> is_nan v"
      using assms d nan_is_nan by (auto simp: wf_value_def as_double_def is_nan_def)
    then show ?thesis
      using False by (auto simp: as_number_def as_double_def is_positive_zero_def is_negative_zero_def
          DOUBLE_POSITIVE_ZERO_def DOUBLE_NEGATIVE_ZERO_def value_double_def not_eq_iff)
  qed
  then show "is_nan v \<longleftrightarrow> f64_is_nan (as_number v)"
    "is_positive_zero v \<longleftrightarrow> as_number v = f64_positive_zero"
    "is_negative_zero v \<longleftrightarrow> as_number v = f64_negative_zero" by blast+
qed

lemma wf_nan_unique:
  assumes "wf_value v" "is_number v" "f64_is_nan (as_number v)"
  shows "v = CANONICAL_NAN" "as_number v = NOT CANONICAL_NAN"
proof -
  show v: "v = CANONICAL_NAN" using number_tests(1) [OF assms(1,2)] assms(3) by (simp add: is_nan_def)
  show "as_number v = NOT CANONICAL_NAN"
    by (simp add: v as_number_def as_double_def type_tests box_simps)
qed

lemma f64_zeros_not_nan: "\<not> f64_is_nan f64_positive_zero" "\<not> f64_is_nan f64_negative_zero"
  by (simp_all add: f64_is_nan_iff f64_zeros)

lemma f64_zeros_differ: "f64_positive_zero \<noteq> f64_negative_zero"
  by (simp add: f64_positive_zero_def f64_negative_zero_def)

lemma pointer_not_number: "is_pointer v \<Longrightarrow> \<not> is_number v"
  by (auto simp: is_number_def type_tests box_simps NAN_TAG_def)

lemma not_number_abs:
  assumes "\<not> is_number v1"
  shows "same_value_non_numeric deref v1 v2 \<longleftrightarrow> abs_value deref v1 = abs_value deref v2"
  using assms pointer_not_number [of v2]
  by (auto simp: same_value_non_numeric_def abs_value_def as_pointer_def split: heap_contents.splits)

lemma abs_number: "is_number v \<Longrightarrow> abs_value deref v = JNumber (as_number v)"
  by (simp add: abs_value_def)

text \<open>
  C24: \<open>same_value\<close> decides equality of the JavaScript values that two words stand for: small
  integers and doubles are compared as numbers, NaN equals itself and the zeros differ, strings and
  BigInts are compared by contents, other heap items by address, all other values by their bits. So
  it is an equivalence relation.
\<close>

theorem same_value_iff_abs:
  assumes "wf_value v1" "wf_value v2"
  shows "same_value deref v1 v2 \<longleftrightarrow> abs_value deref v1 = abs_value deref v2"
proof (cases "is_number v1 \<and> is_number v2")
  case True
  note t1 = number_tests [OF assms(1) conjunct1 [OF True]]
  note t2 = number_tests [OF assms(2) conjunct2 [OF True]]
  note n = wf_nan_unique(2) [OF assms(1) conjunct1 [OF True]]
    wf_nan_unique(2) [OF assms(2) conjunct2 [OF True]]
  have "same_value deref v1 v2 \<longleftrightarrow> as_number v1 = as_number v2"
    using True n f64_zeros_not_nan f64_zeros_differ
    by (auto simp: same_value_def t1 t2 f64_eq_def f64_key_eq_cases)
  then show ?thesis using True by (simp add: abs_number)
next
  case False
  then show ?thesis
    using not_number_abs [of v1 deref v2]
    by (auto simp: same_value_def abs_value_def split: heap_contents.splits)
qed

theorem same_value_iff_abs_witness:
  "same_value (\<lambda>p. if p < 0x3000 then StringItem [104, 105] else OtherItem)
     (value_heap_item 0x1000) (value_heap_item 0x2000) \<and>
   \<not> same_value (\<lambda>p. OtherItem) (value_heap_item 0x1000) (value_heap_item 0x2000)"
proof -
  have p: "is_pointer (value_heap_item 0x1000)" "is_pointer (value_heap_item 0x2000)"
    by (simp_all add: type_tests value_heap_item_def get_tag_def TAG_SHIFT_def POINTER_TAG_def)
  then have n: "\<not> is_number (value_heap_item 0x1000)" "\<not> is_number (value_heap_item 0x2000)"
    by (simp_all add: pointer_not_number)
  then have w: "wf_value (value_heap_item 0x1000)" "wf_value (value_heap_item 0x2000)"
    by (simp_all add: wf_value_def is_number_def)
  show ?thesis
    using n p by (simp only: same_value_iff_abs [OF w]) (simp add: abs_value_def as_pointer_def value_heap_item_def)
qed

text \<open>
  SameValueZero identifies the two zeros and is otherwise SameValue; strict equality is
  SameValueZero without NaN: it holds exactly for pairs that are the same up to the sign of zero and
  whose first value is not NaN.
\<close>

theorem equality_operations_agree:
  assumes "wf_value v1" "wf_value v2"
  shows "(same_value_zero deref v1 v2 \<longleftrightarrow>
            same_value deref v1 v2 \<or>
            is_positive_zero v1 \<and> is_negative_zero v2 \<or> is_negative_zero v1 \<and> is_positive_zero v2) \<and>
         (is_strictly_equal deref v1 v2 \<longleftrightarrow> same_value_zero deref v1 v2 \<and> \<not> is_nan v1)"
proof (cases "is_number v1 \<and> is_number v2")
  case True
  note t1 = number_tests [OF assms(1) conjunct1 [OF True]]
  note t2 = number_tests [OF assms(2) conjunct2 [OF True]]
  show ?thesis
    using True f64_zeros_not_nan
    by (auto simp: same_value_def same_value_zero_def is_strictly_equal_def t1 t2 f64_eq_def f64_key_eq_cases)
next
  case False
  have nz: "is_number v" if "is_positive_zero v \<or> is_negative_zero v \<or> is_nan v" for v
    using that double_tag_nonzero [OF f64_zeros_not_nan(1)] double_tag_nonzero [OF f64_zeros_not_nan(2)]
    by (auto simp: is_positive_zero_def is_negative_zero_def is_number_def is_double_tag is_nan_def
        DOUBLE_POSITIVE_ZERO_def DOUBLE_NEGATIVE_ZERO_def value_double_def)
  from False nz [of v1] nz [of v2] show ?thesis
    by (auto simp: same_value_def same_value_zero_def is_strictly_equal_def)
qed

theorem equality_operations_agree_witness:
  "\<not> same_value (\<lambda>p. OtherItem) (value_smi 0) DOUBLE_NEGATIVE_ZERO \<and>
   is_strictly_equal (\<lambda>p. OtherItem) (value_smi 0) DOUBLE_NEGATIVE_ZERO"
proof -
  have s: "is_positive_zero (value_smi 0)" "\<not> is_nan (value_smi 0)" "is_negative_zero DOUBLE_NEGATIVE_ZERO"
    by (auto simp: is_positive_zero_def SMI_ZERO_def is_negative_zero_def is_nan_def box_simps
        dest: arg_cong [where f = get_tag])
  have n: "is_number (value_smi 0)" "is_number DOUBLE_NEGATIVE_ZERO"
    using is_double_value_double [OF f64_zeros_not_nan(2)]
    by (simp_all add: is_number_def DOUBLE_NEGATIVE_ZERO_def)
  have w: "wf_value (value_smi 0)" "wf_value DOUBLE_NEGATIVE_ZERO"
    using f64_zeros_not_nan not_smi_value_double [OF f64_zeros_not_nan(2)]
    by (simp_all add: wf_value_def type_tests box_simps NAN_TAG_def DOUBLE_NEGATIVE_ZERO_def
        as_double_def value_double_def is_nan_def)
  show ?thesis
    using equality_operations_agree [OF w, of "\<lambda>p. OtherItem"] s n by (simp add: same_value_def)
qed

end
