(* ===== verification/Conversions.thy ===== *)
theory Conversions
  imports Value_Equality
begin

section \<open>Conversions of numbers to machine integers\<close>

text \<open>
  The integer conversions of \<open>runtime/type_utilities.rs\<close> (\<open>ToInt32\<close> and its
  relatives), with \<open>modulo\<close> of \<open>common/math.rs\<close>. ECMAScript asks for the mathematical
  integer part modulo a power of two. The code goes through a cast to \<open>i64\<close>, which saturates:
  the theorems show that the conversions are right for every number whose integer part has less
  than 63 bits, and wrong beyond.

  Signed results are words of their width. The conversion of what is behind a pointer to a number
  (strings are parsed, objects run user code) is a parameter.
\<close>

datatype eval_error = Alloc_Error | Type_Error | Range_Error

subsection \<open>Arithmetic of the source\<close>

text \<open>The operator \<open>%\<close> takes the sign of the dividend.\<close>

definition rust_rem :: "int \<Rightarrow> int \<Rightarrow> int" where
  "rust_rem a b = sgn a * (\<bar>a\<bar> mod \<bar>b\<bar>)"

definition modulo_i64 :: "int \<Rightarrow> int \<Rightarrow> int" where
  "modulo_i64 a b = rust_rem (rust_rem a b + b) b"

definition f64_is_finite :: "f64 \<Rightarrow> bool" where
  "f64_is_finite x \<longleftrightarrow> f64_exp x \<noteq> 2047"

text \<open>
  \<open>f64_number.abs().floor() as i64\<close>, negated for a negative number: the floor of the absolute
  value is the absolute value of the integer part, and the cast saturates.
\<close>

definition f64_round_to_i64 :: "f64 \<Rightarrow> int" where
  "f64_round_to_i64 x =
     (let n = min \<bar>f64_int_part x\<bar> (2 ^ 63 - 1)
      in if f64_sign x \<and> \<not> f64_eq x f64_positive_zero then - n else n)"

subsection \<open>Conversions\<close>

definition to_number :: "(value \<Rightarrow> eval_error + value) \<Rightarrow> value \<Rightarrow> (eval_error + value) option" where
  "to_number pointer_to_number v =
     (if is_number v then Some (Inr v)
      else if is_pointer v then Some (pointer_to_number v)
      else if get_tag v = NULL_TAG then Some (Inr (value_smi 0))
      else if get_tag v = UNDEFINED_TAG then Some (Inr value_nan)
      else if get_tag v = BOOL_TAG then Some (Inr (if as_bool v then value_smi 1 else value_smi 0))
      else None)"

text \<open>
  What follows \<open>to_number\<close> in each conversion. The signed conversions to 16 and 8 bits compare
  with the largest signed number instead, which is the same test.
\<close>

definition uint_of_number :: "int \<Rightarrow> f64 \<Rightarrow> int" where
  "uint_of_number u_max x =
     (if f64_eq x f64_positive_zero \<or> \<not> f64_is_finite x then 0
      else modulo_i64 (f64_round_to_i64 x) u_max)"

definition int_of_number :: "int \<Rightarrow> f64 \<Rightarrow> int" where
  "int_of_number u_max x =
     (if f64_eq x f64_positive_zero \<or> \<not> f64_is_finite x then 0
      else let n = modulo_i64 (f64_round_to_i64 x) u_max
           in if n \<ge> drop_bit 1 u_max then n - u_max else n)"

definition convert_number ::
  "(value \<Rightarrow> eval_error + value) \<Rightarrow> (f64 \<Rightarrow> int) \<Rightarrow> value \<Rightarrow> (eval_error + 'a::len word) option" where
  "convert_number ptn f v =
     map_option (\<lambda>r. case r of Inl e \<Rightarrow> Inl e | Inr n \<Rightarrow> Inr (of_int (f (as_number n)))) (to_number ptn v)"

definition to_int32 :: "(value \<Rightarrow> eval_error + value) \<Rightarrow> value \<Rightarrow> (eval_error + u32) option" where
  "to_int32 ptn v = (if is_smi v then Some (Inr (as_smi v)) else convert_number ptn (int_of_number (2 ^ 32)) v)"

definition to_uint32 :: "(value \<Rightarrow> eval_error + value) \<Rightarrow> value \<Rightarrow> (eval_error + u32) option" where
  "to_uint32 ptn v =
     (if is_smi v \<and> sint (as_smi v) \<ge> 0 then Some (Inr (as_smi v))
      else convert_number ptn (uint_of_number (2 ^ 32)) v)"

definition to_int16 :: "(value \<Rightarrow> eval_error + value) \<Rightarrow> value \<Rightarrow> (eval_error + u16) option" where
  "to_int16 ptn v = (if is_smi v then Some (Inr (ucast (as_smi v))) else convert_number ptn (int_of_number (2 ^ 16)) v)"

definition to_uint16 :: "(value \<Rightarrow> eval_error + value) \<Rightarrow> value \<Rightarrow> (eval_error + u16) option" where
  "to_uint16 ptn v =
     (if is_smi v \<and> sint (as_smi v) \<ge> 0 then Some (Inr (ucast (as_smi v)))
      else convert_number ptn (uint_of_number (2 ^ 16)) v)"

definition to_int8 :: "(value \<Rightarrow> eval_error + value) \<Rightarrow> value \<Rightarrow> (eval_error + u8) option" where
  "to_int8 ptn v = (if is_smi v then Some (Inr (ucast (as_smi v))) else convert_number ptn (int_of_number (2 ^ 8)) v)"

definition to_uint8 :: "(value \<Rightarrow> eval_error + value) \<Rightarrow> value \<Rightarrow> (eval_error + u8) option" where
  "to_uint8 ptn v =
     (if is_smi v \<and> sint (as_smi v) \<ge> 0 then Some (Inr (ucast (as_smi v)))
      else convert_number ptn (uint_of_number (2 ^ 8)) v)"

subsection \<open>The integer part of a double\<close>

text \<open>What ECMAScript converts: the integer part, and zero for NaN and the infinities.\<close>

definition js_integer :: "f64 \<Rightarrow> int" where
  "js_integer x = (if f64_is_finite x then f64_int_part x else 0)"

lemma modulo_mod: "0 < b \<Longrightarrow> modulo_i64 a b = a mod b"
proof -
  assume b: "0 < b"
  have "rust_rem a b mod b = a mod b"
  proof (cases "a < 0")
    case True
    have "(- ((- a) mod b)) mod b = (- (- a)) mod b" by (rule mod_minus_eq)
    then show ?thesis using True b by (simp add: rust_rem_def)
  qed (use b in \<open>simp add: rust_rem_def sgn_if\<close>)
  moreover have "\<bar>rust_rem a b\<bar> < b"
    using b by (simp add: rust_rem_def abs_mult sgn_if)
  then have "rust_rem (rust_rem a b + b) b = (rust_rem a b + b) mod b"
    unfolding rust_rem_def [of "rust_rem a b + b"] using b by (simp add: sgn_if)
  ultimately show ?thesis by (simp add: modulo_i64_def)
qed

lemma f64_zero_int_part: "f64_eq x f64_positive_zero \<Longrightarrow> f64_int_part x = 0"
  by (auto simp: f64_eq_def f64_key_eq_cases f64_int_part_def f64_exp_def f64_positive_zero_def f64_negative_zero_def f64_mag_def)

lemma f64_round_exact:
  assumes "\<bar>f64_int_part x\<bar> < 2 ^ 63"
  shows "f64_round_to_i64 x = f64_int_part x"
proof -
  have "min \<bar>f64_int_part x\<bar> (2 ^ 63 - 1) = \<bar>f64_int_part x\<bar>" using assms by linarith
  moreover have "f64_int_part x \<le> 0" if "f64_sign x" using that by (simp add: f64_int_part_def Let_def)
  moreover have "0 \<le> f64_int_part x" if "\<not> f64_sign x" using that by (simp add: f64_int_part_def Let_def)
  ultimately show ?thesis
    using f64_zero_int_part [of x] by (cases "f64_sign x") (auto simp: f64_round_to_i64_def Let_def)
qed

lemma f64_int_part_of_int:
  assumes "\<bar>i\<bar> < 2 ^ 32"
  shows "f64_int_part (f64_of_int i) = i" "f64_is_finite (f64_of_int i)"
proof -
  let ?n = "nat \<bar>i\<bar>"
  have "f64_int_part (f64_of_int i) = i \<and> f64_is_finite (f64_of_int i)"
  proof (cases "i = 0")
    case True
    then show ?thesis by (simp add: f64_of_int_def f64_of_nat_def f64_int_part_def f64_exp_def f64_is_finite_def)
  next
    case False
    define k where "k = ilog2 ?n"
    have k: "2 ^ k \<le> ?n" "?n < 2 ^ Suc k" using ilog2_bounds [of ?n] False by (simp_all add: k_def)
    have "?n < 2 ^ 32" using assms by simp
    with k(1) have "(2::nat) ^ k < 2 ^ 32" by (rule le_less_trans)
    then have k32: "k < 32" using power_less_imp_less_exp [of "2::nat" k 32] by simp
    let ?d = "2 ^ (52 - k) :: nat"
    define m where "m = ?n * ?d - 2 ^ 52"
    have p: "(2::nat) ^ 52 = 2 ^ k * ?d" using k32 by (simp flip: power_add)
    have lo: "2 ^ 52 \<le> ?n * ?d" unfolding p by (rule mult_le_mono1) (rule k(1))
    have "?n * ?d < 2 ^ Suc k * ?d" using k(2) by (intro mult_less_mono1) simp_all
    then have "?n * ?d < 2 * 2 ^ 52" unfolding p by simp
    with lo have m: "?n * ?d = 2 ^ 52 + m" "m < 2 ^ 52" unfolding m_def by linarith+
    have mag: "f64_of_nat ?n = (1023 + k) * 2 ^ 52 + m"
      using f64_of_nat_shift(2) [of k ?n m] m k32 by simp
    have "(1023 + k) * 2 ^ 52 + m < 2047 * 2 ^ 52"
    proof -
      have "(1023 + k) * 2 ^ 52 \<le> (1023 + 31) * (2::nat) ^ 52" using k32 by (intro mult_right_mono) simp_all
      then show ?thesis using m(2) by simp
    qed
    then have bound: "f64_of_nat ?n < 2 ^ 63" using mag by simp
    have fields: "f64_mag (f64_of_int i) = f64_of_nat ?n" "f64_sign (f64_of_int i) \<longleftrightarrow> i < 0"
      using bound by (simp_all add: f64_of_int_def)
    have e: "f64_exp (f64_of_int i) = 1023 + k" "f64_mant (f64_of_int i) = m"
      unfolding f64_exp_def f64_mant_def fields(1) mag using m(2)
      by (simp_all only: div_mult_self3 mod_mult_self3 div_less mod_less)
    have "(2 ^ 52 + m) * 2 ^ (1023 + k) = ?n * 2 ^ 1075"
    proof -
      have "(2::nat) ^ 1075 = ?d * 2 ^ (1023 + k)" using k32 by (simp flip: power_add)
      then show ?thesis unfolding m(1) [symmetric] by simp
    qed
    then have "(2 ^ 52 + m) * 2 ^ (1023 + k) div 2 ^ 1075 = ?n" by (simp del: power_Suc)
    then show ?thesis using e fields(2) k32 by (simp add: f64_int_part_def f64_is_finite_def Let_def)
  qed
  then show "f64_int_part (f64_of_int i) = i" "f64_is_finite (f64_of_int i)" by simp_all
qed

lemma as_number_smi:
  assumes "is_smi v"
  shows "js_integer (as_number v) = sint (as_smi v)"
  using assms f64_int_part_of_int [OF sint_u32_bound] by (simp add: as_number_def js_integer_def)

lemma uint_of_number_word:
  assumes "\<bar>js_integer x\<bar> < 2 ^ 63" "LENGTH('a) = n"
  shows "(of_int (uint_of_number (2 ^ n) x) :: 'a::len word) = of_int (js_integer x)"
proof (cases "f64_eq x f64_positive_zero \<or> \<not> f64_is_finite x")
  case True
  then show ?thesis by (auto simp: uint_of_number_def js_integer_def f64_zero_int_part)
next
  case False
  then have "uint_of_number (2 ^ n) x = js_integer x mod 2 ^ n"
    using assms(1) by (simp add: uint_of_number_def js_integer_def f64_round_exact modulo_mod)
  then show ?thesis using assms(2) by (simp add: word_of_int_eq_iff flip: take_bit_eq_mod)
qed

lemma int_of_number_word:
  assumes "\<bar>js_integer x\<bar> < 2 ^ 63" "LENGTH('a) = n"
  shows "(of_int (int_of_number (2 ^ n) x) :: 'a::len word) = of_int (js_integer x)"
proof -
  have zero: "(2 :: 'a word) ^ n = 0" using assms(2) by (metis exp_eq_zero_iff order_refl word_exp_length_eq_0)
  have "of_int (int_of_number (2 ^ n) x) = (of_int (uint_of_number (2 ^ n) x) :: 'a word)"
    by (simp add: int_of_number_def uint_of_number_def Let_def zero)
  then show ?thesis using uint_of_number_word [OF assms] by simp
qed

lemma convert_number_word:
  assumes "is_number v" "\<And>x. \<bar>js_integer x\<bar> < 2 ^ 63 \<Longrightarrow> (of_int (f x) :: 'a::len word) = of_int (js_integer x)"
    "\<bar>js_integer (as_number v)\<bar> < 2 ^ 63"
  shows "convert_number ptn f v = Some (Inr (of_int (js_integer (as_number v)) :: 'a word))"
  using assms by (simp add: convert_number_def to_number_def)

lemma slow_conversions:
  assumes "is_number v" "\<bar>js_integer (as_number v)\<bar> < 2 ^ 63" "LENGTH('a::len) = n"
  shows "convert_number ptn (int_of_number (2 ^ n)) v = Some (Inr (of_int (js_integer (as_number v)) :: 'a word))"
    "convert_number ptn (uint_of_number (2 ^ n)) v = Some (Inr (of_int (js_integer (as_number v)) :: 'a word))"
  by (rule convert_number_word [OF assms(1) _ assms(2)], erule int_of_number_word [OF _ assms(3)])
    (rule convert_number_word [OF assms(1) _ assms(2)], erule uint_of_number_word [OF _ assms(3)])

lemma smi_word:
  assumes "is_smi v" "LENGTH('a::len) \<le> 32"
  shows "(ucast (as_smi v) :: 'a word) = of_int (js_integer (as_number v))"
proof -
  have "(of_int (sint (as_smi v)) :: 'a word) = ucast (as_smi v)"
  proof (rule bit_word_eqI)
    fix n
    assume "n < LENGTH('a)"
    then have "31 \<le> n \<Longrightarrow> n = 31" using assms(2) by simp
    then show "bit (of_int (sint (as_smi v)) :: 'a word) n = bit (ucast (as_smi v) :: 'a word) n"
      using \<open>n < LENGTH('a)\<close> by (auto simp: bit_simps min_def split: if_splits)
  qed
  then show ?thesis by (simp add: as_number_smi [OF assms(1)])
qed

text \<open>
  C33: on every number whose integer part has less than 63 bits, small integer or double, the six
  conversions return the integer part modulo the power of two of their width, as ECMAScript
  requires; NaN and the infinities give zero.
\<close>

theorem to_machine_integers:
  assumes "is_number v" "\<bar>js_integer (as_number v)\<bar> < 2 ^ 63"
  shows "to_int32 ptn v = Some (Inr (of_int (js_integer (as_number v)))) \<and>
         to_uint32 ptn v = Some (Inr (of_int (js_integer (as_number v)))) \<and>
         to_int16 ptn v = Some (Inr (of_int (js_integer (as_number v)))) \<and>
         to_uint16 ptn v = Some (Inr (of_int (js_integer (as_number v)))) \<and>
         to_int8 ptn v = Some (Inr (of_int (js_integer (as_number v)))) \<and>
         to_uint8 ptn v = Some (Inr (of_int (js_integer (as_number v))))"
proof -
  have smi: "as_smi v = of_int (js_integer (as_number v))" if "is_smi v" using smi_word [where ?'a = 32, OF that] by simp
  show ?thesis
    using slow_conversions [where ?'a = 32, OF assms] slow_conversions [where ?'a = 16, OF assms]
      slow_conversions [where ?'a = 8, OF assms] smi
      smi_word [where ?'a = 16, of v] smi_word [where ?'a = 8, of v]
    by (simp add: to_int32_def to_uint32_def to_int16_def to_uint16_def to_int8_def to_uint8_def)
qed

lemma double_as_number:
  assumes "\<not> f64_is_nan d"
  shows "as_number (value_double d) = d" "is_double (value_double d)" "is_number (value_double d)"
  using is_double_value_double [OF assms] not_smi_value_double [OF assms]
  by (simp_all add: is_number_def as_number_def as_double_def value_double_def)

lemma sample_doubles:
  defines "d \<equiv> 0xC1F0000000100000" and "e \<equiv> 0x43E0000000000000"
  shows "is_number (value_double d)" "js_integer (as_number (value_double d)) = - (2 ^ 32 + 1)"
    "is_double (value_double e)" "f64_is_finite (as_number (value_double e))" "\<not> f64_sign (as_number (value_double e))"
    "f64_int_part (as_number (value_double e)) = 2 ^ 63" "js_integer (as_number (value_double e)) = 2 ^ 63"
proof -
  have "\<not> f64_is_nan d" "\<not> f64_is_nan e"
    by (simp_all add: f64_is_nan_def f64_exp_def f64_mant_def f64_mag_def d_def e_def)
  note n = this [THEN double_as_number(1)] this [THEN double_as_number(2)] this [THEN double_as_number(3)]
  show "is_number (value_double d)" "is_double (value_double e)" using n by simp_all
  have "f64_exp d = 1055" "f64_mant d = 2 ^ 20" "f64_sign d" "f64_exp e = 1086" "f64_mant e = 0" "\<not> f64_sign e"
    by (simp_all add: f64_exp_def f64_mant_def f64_mag_def f64_sign_def d_def e_def)
  then show "js_integer (as_number (value_double d)) = - (2 ^ 32 + 1)" "f64_is_finite (as_number (value_double e))"
      "\<not> f64_sign (as_number (value_double e))" "f64_int_part (as_number (value_double e)) = 2 ^ 63"
      "js_integer (as_number (value_double e)) = 2 ^ 63"
    by (simp_all add: n js_integer_def f64_int_part_def f64_is_finite_def Let_def)
qed

theorem to_machine_integers_witness:
  "is_number (value_double 0xC1F0000000100000) \<and>
   to_int32 Inr (value_double 0xC1F0000000100000) = Some (Inr (- 1)) \<and>
   to_uint8 Inr (value_double 0xC1F0000000100000) = Some (Inr 255)"
proof -
  have v: "is_number (value_double 0xC1F0000000100000)" "js_integer (as_number (value_double 0xC1F0000000100000)) = - (2 ^ 32 + 1)"
    by (simp_all add: sample_doubles)
  have "to_int32 Inr (value_double 0xC1F0000000100000) = Some (Inr (of_int (- (2 ^ 32 + 1))))"
      "to_uint8 Inr (value_double 0xC1F0000000100000) = Some (Inr (of_int (- (2 ^ 32 + 1))))"
    using to_machine_integers [OF v(1), of Inr] unfolding v(2) by simp_all
  then show ?thesis using v(1) by simp
qed

text \<open>
  Beyond, the conversions are wrong: the cast to 64 bits saturates, so that for every number
  whose integer part has at least 64 bits the unsigned conversions return the largest number of
  their width if it is positive and one if it is negative, where ECMAScript asks for zero at the
  powers of two and the low bits in general.
\<close>

theorem saturated_conversion:
  assumes "is_double v" "f64_is_finite (as_number v)" "2 ^ 63 \<le> \<bar>f64_int_part (as_number v)\<bar>"
  shows "to_uint32 ptn v = Some (Inr (if f64_sign (as_number v) then 1 else 0xFFFFFFFF))"
proof -
  let ?x = "as_number v"
  have num: "is_number v" and smi: "\<not> is_smi v"
    using assms(1) by (auto simp: is_number_def type_tests box_simps NAN_TAG_def)
  have "f64_int_part ?x \<noteq> 0" using assms(3) by auto
  then have nz: "\<not> f64_eq ?x f64_positive_zero" using f64_zero_int_part by blast
  have "min \<bar>f64_int_part ?x\<bar> (2 ^ 63 - 1) = 2 ^ 63 - 1" using assms(3) by linarith
  then have "f64_round_to_i64 ?x = (if f64_sign ?x then - (2 ^ 63 - 1) else 2 ^ 63 - 1)"
    using nz by (simp add: f64_round_to_i64_def Let_def)
  then have "uint_of_number (2 ^ 32) ?x = (if f64_sign ?x then 1 else 2 ^ 32 - 1)"
    using nz assms(2) by (simp add: uint_of_number_def modulo_mod)
  then show ?thesis using num smi by (simp add: to_uint32_def convert_number_def to_number_def)
qed

theorem saturated_conversion_witness:
  "js_integer (as_number (value_double 0x43E0000000000000)) = 2 ^ 63 \<and>
   (of_int (js_integer (as_number (value_double 0x43E0000000000000))) :: u32) = 0 \<and>
   to_uint32 Inr (value_double 0x43E0000000000000) = Some (Inr 0xFFFFFFFF)"
proof -
  let ?v = "value_double 0x43E0000000000000"
  have v: "is_double ?v" "f64_is_finite (as_number ?v)" "f64_int_part (as_number ?v) = 2 ^ 63" "\<not> f64_sign (as_number ?v)"
      "js_integer (as_number ?v) = 2 ^ 63"
    by (simp_all add: sample_doubles)
  then have "to_uint32 Inr ?v = Some (Inr 0xFFFFFFFF)" using saturated_conversion [OF v(1,2), of Inr] by simp
  then show ?thesis unfolding v(5) by simp
qed

end
