(* ===== verification/Ordinary_Object.thy ===== *)
theory Ordinary_Object
  imports Array_Properties Index_Map Conversions
begin

section \<open>Ordinary objects and arrays\<close>

text \<open>
  The storage of an object's properties (\<open>runtime/object_value.rs\<close>) and the internal methods
  of ordinary objects (\<open>runtime/ordinary_object.rs\<close>) and of arrays
  (\<open>runtime/array_object.rs\<close>), with the operations on integrity levels of
  \<open>runtime/abstract_operations.rs\<close>. Named properties live in the insertion-ordered map, the
  properties at array indices in \<open>array_properties\<close>. An accessor property holds a pointer to
  a heap cell with the getter and the setter, which redefinition changes in place; the heap of
  objects and accessor cells is therefore explicit.

  Parameters, in the record \<open>js_context\<close>: the hash function of the keys, the allocator of
  accessor cells (which may fail), the contents of strings and BigInts behind pointers, the pointer
  of the interned string ''length'', which named keys are symbols, the conversion of heap values to numbers, and the call of a
  function, which runs the virtual machine. A panic, a missing object and undefined behaviour are
  \<open>None\<close>; a JavaScript exception or a failed allocation is an \<open>Inl\<close>. Of the object
  kinds the model has ordinary objects, \<open>Object.prototype\<close> and arrays; proxies and the other
  exotic objects are outside of it, as are private elements.
\<close>

datatype object_kind = KOrdinary | KObjectPrototype | KArray bool

record object_value =
  prototype :: "ptr option"
  named_properties :: "(property_key, property) index_map"
  array_properties :: array_properties
  is_extensible_field :: bool
  object_kind :: object_kind

record js_heap =
  objects :: "ptr \<rightharpoonup> object_value"
  accessors :: "ptr \<rightharpoonup> accessor"

record js_context =
  cx_hash :: "property_key \<Rightarrow> nat"
  cx_alloc :: "js_heap \<Rightarrow> ptr option"
  cx_deref :: "ptr \<Rightarrow> heap_contents"
  cx_length_name :: ptr
  cx_is_symbol :: "ptr \<Rightarrow> bool"
  cx_pointer_to_number :: "value \<Rightarrow> eval_error + value"
  cx_call :: "js_heap \<Rightarrow> ptr \<Rightarrow> value \<Rightarrow> value list \<Rightarrow> (eval_error + value \<times> js_heap) option"

subsection \<open>Properties of one object\<close>

definition index_hash :: "(property_key \<Rightarrow> nat) \<Rightarrow> nat \<Rightarrow> nat" where
  "index_hash hash i = hash (ArrayIndex (of_nat i))"

definition object_new :: "object_kind \<Rightarrow> ptr option \<Rightarrow> object_value" where
  "object_new kind proto =
     \<lparr>prototype = proto, named_properties = im_new 0, array_properties = Dense (dense_new 0),
      is_extensible_field = True, object_kind = kind\<rparr>"

definition get_property :: "(property_key \<Rightarrow> nat) \<Rightarrow> object_value \<Rightarrow> property_key \<Rightarrow> property option option" where
  "get_property hash ob k =
     (case k of ArrayIndex i \<Rightarrow> ap_get_property (index_hash hash) (array_properties ob) (unat i)
      | NamedKey p \<Rightarrow> im_get hash (named_properties ob) k)"

text \<open>
  The address of a grown map, which growing records in the map that it replaces, does not matter:
  the object drops the old map.
\<close>

definition set_property ::
  "(property_key \<Rightarrow> nat) \<Rightarrow> object_value \<Rightarrow> property_key \<Rightarrow> property \<Rightarrow> object_value option" where
  "set_property hash ob k p =
     (case k of
        ArrayIndex i \<Rightarrow>
          do { ap \<leftarrow> ap_set_property (index_hash hash) (array_properties ob) (unat i) p;
               Some (ob\<lparr>array_properties := ap\<rparr>) }
      | NamedKey _ \<Rightarrow>
          do { (m, _) \<leftarrow> im_insert hash 0 (named_properties ob) k p; Some (ob\<lparr>named_properties := m\<rparr>) })"

definition remove_property ::
  "(property_key \<Rightarrow> nat) \<Rightarrow> object_value \<Rightarrow> property_key \<Rightarrow> object_value option" where
  "remove_property hash ob k =
     (case k of
        ArrayIndex i \<Rightarrow>
          do { ap \<leftarrow> ap_remove_property (index_hash hash) (array_properties ob) (unat i);
               Some (ob\<lparr>array_properties := ap\<rparr>) }
      | NamedKey _ \<Rightarrow>
          do { (m, _) \<leftarrow> im_remove hash (named_properties ob) k; Some (ob\<lparr>named_properties := m\<rparr>) })"

definition array_properties_length :: "object_value \<Rightarrow> nat" where
  "array_properties_length ob = ap_array_length (array_properties ob)"

definition set_array_properties_length ::
  "(property_key \<Rightarrow> nat) \<Rightarrow> object_value \<Rightarrow> nat \<Rightarrow> (object_value \<times> bool) option" where
  "set_array_properties_length hash ob n =
     do { (ap, ok) \<leftarrow> set_len (index_hash hash) (array_properties ob) n; Some (ob\<lparr>array_properties := ap\<rparr>, ok) }"

subsection \<open>Own properties\<close>

definition accessor_of :: "js_heap \<Rightarrow> value \<Rightarrow> accessor option" where
  "accessor_of h v = (if is_pointer v then accessors h (as_pointer v) else None)"

definition property_desc :: "js_heap \<Rightarrow> property \<Rightarrow> property_descriptor" where
  "property_desc h p =
     (case accessor_of h (prop_value p) of
        Some a \<Rightarrow> desc_accessor (acc_get a) (acc_set a) (prop_is_enumerable p) (prop_is_configurable p)
      | None \<Rightarrow> desc_data (prop_value p) (prop_is_writable p) (prop_is_enumerable p) (prop_is_configurable p))"

definition ordinary_get_own_property ::
  "js_context \<Rightarrow> js_heap \<Rightarrow> ptr \<Rightarrow> property_key \<Rightarrow> property_descriptor option option" where
  "ordinary_get_own_property cx h obj k =
     do { ob \<leftarrow> objects h obj; r \<leftarrow> get_property (cx_hash cx) ob k; Some (map_option (property_desc h) r) }"

definition array_get_own_property ::
  "js_context \<Rightarrow> js_heap \<Rightarrow> ptr \<Rightarrow> bool \<Rightarrow> property_key \<Rightarrow> property_descriptor option option" where
  "array_get_own_property cx h obj is_length_writable k =
     (if k = NamedKey (cx_length_name cx) then
        do { ob \<leftarrow> objects h obj;
             Some (Some (desc_data (value_from_u32 (of_nat (array_properties_length ob))) is_length_writable False False)) }
      else ordinary_get_own_property cx h obj k)"

text \<open>Dynamic dispatch through the object's descriptor.\<close>

definition get_own_property ::
  "js_context \<Rightarrow> js_heap \<Rightarrow> ptr \<Rightarrow> property_key \<Rightarrow> property_descriptor option option" where
  "get_own_property cx h obj k =
     do { ob \<leftarrow> objects h obj;
          (case object_kind ob of
             KArray w \<Rightarrow> array_get_own_property cx h obj w k
           | _ \<Rightarrow> ordinary_get_own_property cx h obj k) }"

definition is_extensible :: "js_heap \<Rightarrow> ptr \<Rightarrow> bool option" where
  "is_extensible h obj = map_option is_extensible_field (objects h obj)"

definition prevent_extensions :: "js_heap \<Rightarrow> ptr \<Rightarrow> (bool \<times> js_heap) option" where
  "prevent_extensions h obj =
     do { ob \<leftarrow> objects h obj; Some (True, h\<lparr>objects := (objects h)(obj \<mapsto> ob\<lparr>is_extensible_field := False\<rparr>)\<rparr>) }"

definition get_prototype_of :: "js_heap \<Rightarrow> ptr \<Rightarrow> ptr option option" where
  "get_prototype_of h obj = map_option prototype (objects h obj)"

subsection \<open>Defining a property\<close>

definition accessor_new ::
  "js_context \<Rightarrow> js_heap \<Rightarrow> ptr option \<Rightarrow> ptr option \<Rightarrow> eval_error + (value \<times> js_heap)" where
  "accessor_new cx h getter setter =
     (case cx_alloc cx h of
        None \<Rightarrow> Inl Alloc_Error
      | Some p \<Rightarrow>
          Inr (value_heap_item p, h\<lparr>accessors := (accessors h)(p \<mapsto> \<lparr>acc_get = getter, acc_set = setter\<rparr>)\<rparr>))"

text \<open>\<open>object.get_property(cx, key).unwrap()\<close> and \<open>object.set_property(cx, key, property)\<close>.\<close>

definition load_property :: "js_context \<Rightarrow> js_heap \<Rightarrow> ptr \<Rightarrow> property_key \<Rightarrow> property option" where
  "load_property cx h obj k = do { ob \<leftarrow> objects h obj; r \<leftarrow> get_property (cx_hash cx) ob k; r }"

definition store_property :: "js_context \<Rightarrow> js_heap \<Rightarrow> ptr \<Rightarrow> property_key \<Rightarrow> property \<Rightarrow> js_heap option" where
  "store_property cx h obj k p =
     do { ob \<leftarrow> objects h obj; ob' \<leftarrow> set_property (cx_hash cx) ob k p; Some (h\<lparr>objects := (objects h)(obj \<mapsto> ob')\<rparr>) }"

text \<open>The branch of \<open>validate_and_apply_property_descriptor\<close> without a current property.\<close>

definition create_property ::
  "js_context \<Rightarrow> js_heap \<Rightarrow> ptr \<Rightarrow> property_key \<Rightarrow> property_descriptor \<Rightarrow> (eval_error + bool \<times> js_heap) option" where
  "create_property cx h obj k d =
     (let is_enumerable = unwrap_or_false (pd_is_enumerable d);
          is_configurable = unwrap_or_false (pd_is_configurable d)
      in if is_accessor_descriptor d then
           (case accessor_new cx h (pd_get d) (pd_set d) of
              Inl e \<Rightarrow> Some (Inl e)
            | Inr (accessor_value, h) \<Rightarrow>
                do { h \<leftarrow> store_property cx h obj k (property_accessor accessor_value is_enumerable is_configurable);
                     Some (Inr (True, h)) })
         else
           (let is_writable = unwrap_or_false (pd_is_writable d);
                v = (case pd_value d of None \<Rightarrow> value_undefined | Some v \<Rightarrow> v)
            in do { h \<leftarrow> store_property cx h obj k (property_data v is_writable is_enumerable is_configurable);
                    Some (Inr (True, h)) }))"

text \<open>The conversion between a data and an accessor property.\<close>

definition convert_property ::
  "js_context \<Rightarrow> js_heap \<Rightarrow> ptr \<Rightarrow> property_key \<Rightarrow> property_descriptor \<Rightarrow> (eval_error + js_heap) option" where
  "convert_property cx h obj k d =
     do { p \<leftarrow> load_property cx h obj k;
          if is_data_descriptor d then
            map_option Inr (store_property cx h obj k (set_is_writable False (prop_set_value value_undefined p)))
          else
            (case accessor_new cx h None None of
               Inl e \<Rightarrow> Some (Inl e)
             | Inr (accessor_value, h) \<Rightarrow>
                 map_option Inr (store_property cx h obj k (prop_set_value accessor_value p))) }"

text \<open>The last part: every field that the descriptor has is copied into the property.\<close>

definition set_accessor ::
  "js_heap \<Rightarrow> value \<Rightarrow> (accessor \<Rightarrow> accessor) \<Rightarrow> js_heap option" where
  "set_accessor h v f =
     do { a \<leftarrow> accessor_of h v; Some (h\<lparr>accessors := (accessors h)(as_pointer v \<mapsto> f a)\<rparr>) }"

definition changed_property :: "property_descriptor \<Rightarrow> property \<Rightarrow> property" where
  "changed_property d p =
     (let p = (case pd_is_enumerable d of None \<Rightarrow> p | Some b \<Rightarrow> set_is_enumerable b p);
          p = (case pd_is_configurable d of None \<Rightarrow> p | Some b \<Rightarrow> set_is_configurable b p)
      in if is_data_descriptor d then
           (let p = (case pd_is_writable d of None \<Rightarrow> p | Some b \<Rightarrow> set_is_writable b p)
            in case pd_value d of None \<Rightarrow> p | Some v \<Rightarrow> prop_set_value v p)
         else p)"

definition apply_descriptor ::
  "js_context \<Rightarrow> js_heap \<Rightarrow> ptr option \<Rightarrow> property_key \<Rightarrow> property_descriptor \<Rightarrow> (eval_error + bool \<times> js_heap) option" where
  "apply_descriptor cx h object k d =
     (case object of
        None \<Rightarrow> Some (Inr (True, h))
      | Some obj \<Rightarrow>
          do { p \<leftarrow> load_property cx h obj k;
               h \<leftarrow> (if \<not> is_data_descriptor d \<and> pd_has_get d
                     then set_accessor h (prop_value p) (\<lambda>a. a\<lparr>acc_get := pd_get d\<rparr>) else Some h);
               h \<leftarrow> (if \<not> is_data_descriptor d \<and> pd_has_set d
                     then set_accessor h (prop_value p) (\<lambda>a. a\<lparr>acc_set := pd_set d\<rparr>) else Some h);
               h \<leftarrow> store_property cx h obj k (changed_property d p);
               Some (Inr (True, h)) })"

text \<open>Whether a getter or setter is given that differs from the current one.\<close>

definition accessor_differs :: "bool \<Rightarrow> ptr option \<Rightarrow> ptr option \<Rightarrow> bool" where
  "accessor_differs has new current \<longleftrightarrow>
     has \<and> (case (new, current) of (Some f, Some g) \<Rightarrow> f \<noteq> g | (Some _, None) \<Rightarrow> True | (None, Some _) \<Rightarrow> True
            | (None, None) \<Rightarrow> False)"

definition validate_and_apply_property_descriptor ::
  "js_context \<Rightarrow> js_heap \<Rightarrow> ptr option \<Rightarrow> property_key \<Rightarrow> bool \<Rightarrow> property_descriptor \<Rightarrow> property_descriptor option
   \<Rightarrow> (eval_error + bool \<times> js_heap) option" where
  "validate_and_apply_property_descriptor cx h object k extensible d current_desc =
     (case current_desc of
        None \<Rightarrow>
          if \<not> extensible then Some (Inr (False, h))
          else (case object of None \<Rightarrow> Some (Inr (True, h)) | Some obj \<Rightarrow> create_property cx h obj k d)
      | Some cur \<Rightarrow>
          if has_no_fields d then Some (Inr (True, h))
          else if \<not> desc_is_configurable cur \<and>
              (pd_is_configurable d = Some True \<or>
               (case pd_is_enumerable d of Some b \<Rightarrow> b \<noteq> desc_is_enumerable cur | None \<Rightarrow> False))
          then Some (Inr (False, h))
          else if is_generic_descriptor d then apply_descriptor cx h object k d
          else if is_data_descriptor cur \<noteq> is_data_descriptor d then
            (if \<not> desc_is_configurable cur then Some (Inr (False, h))
             else (case object of None \<Rightarrow> Some (Inr (True, h))
                   | Some obj \<Rightarrow>
                       do { r \<leftarrow> convert_property cx h obj k d;
                            (case r of Inl e \<Rightarrow> Some (Inl e) | Inr h \<Rightarrow> apply_descriptor cx h object k d) }))
          else if is_data_descriptor cur \<and> is_data_descriptor d then
            (if \<not> desc_is_configurable cur \<and> \<not> desc_is_writable cur then
               (if pd_is_writable d = Some True then Some (Inr (False, h))
                else (case pd_value d of
                        None \<Rightarrow> Some (Inr (True, h))
                      | Some v \<Rightarrow> do { w \<leftarrow> pd_value cur; Some (Inr (same_value (cx_deref cx) v w, h)) }))
             else apply_descriptor cx h object k d)
          else
            (if \<not> desc_is_configurable cur then
               Some (Inr (\<not> accessor_differs (pd_has_get d) (pd_get d) (pd_get cur) \<and>
                          \<not> accessor_differs (pd_has_set d) (pd_set d) (pd_set cur), h))
             else apply_descriptor cx h object k d))"

definition ordinary_define_own_property ::
  "js_context \<Rightarrow> js_heap \<Rightarrow> ptr \<Rightarrow> property_key \<Rightarrow> property_descriptor \<Rightarrow> (eval_error + bool \<times> js_heap) option" where
  "ordinary_define_own_property cx h obj k d =
     do { current_desc \<leftarrow> get_own_property cx h obj k;
          extensible \<leftarrow> is_extensible h obj;
          validate_and_apply_property_descriptor cx h (Some obj) k extensible d current_desc }"

definition is_compatible_property_descriptor ::
  "js_context \<Rightarrow> js_heap \<Rightarrow> property_key \<Rightarrow> bool \<Rightarrow> property_descriptor \<Rightarrow> property_descriptor option
   \<Rightarrow> (eval_error + bool \<times> js_heap) option" where
  "is_compatible_property_descriptor cx h empty_string extensible d current_desc =
     validate_and_apply_property_descriptor cx h None empty_string extensible d current_desc"

text \<open>
  The new length, converted before any test; the model has no conversion that changes the heap.
\<close>

definition new_array_length ::
  "js_context \<Rightarrow> object_value \<Rightarrow> property_descriptor \<Rightarrow> (eval_error + nat) option" where
  "new_array_length cx ob d =
     (case pd_value d of
        None \<Rightarrow> Some (Inr (array_properties_length ob))
      | Some v \<Rightarrow>
          do { new_len \<leftarrow> to_uint32 (cx_pointer_to_number cx) v;
               number_len \<leftarrow> to_number (cx_pointer_to_number cx) v;
               Some (case new_len of Inl e \<Rightarrow> Inl e
                     | Inr new_len \<Rightarrow>
                         (case number_len of Inl e \<Rightarrow> Inl e
                          | Inr number_len \<Rightarrow>
                              if \<not> f64_eq (f64_of_int (uint new_len)) (as_number number_len) then Inl Range_Error
                              else Inr (unat new_len))) })"

definition array_set_length ::
  "js_context \<Rightarrow> js_heap \<Rightarrow> ptr \<Rightarrow> bool \<Rightarrow> property_descriptor \<Rightarrow> (eval_error + bool \<times> js_heap) option" where
  "array_set_length cx h obj is_length_writable d =
     do { ob \<leftarrow> objects h obj;
          new_length \<leftarrow> new_array_length cx ob d;
          (case new_length of
             Inl e \<Rightarrow> Some (Inl e)
           | Inr new_len \<Rightarrow>
               if pd_is_configurable d = Some True \<or> pd_is_enumerable d = Some True \<or> is_accessor_descriptor d
               then Some (Inr (False, h))
               else if \<not> is_length_writable \<and>
                 (pd_is_writable d = Some True \<or> new_len \<noteq> array_properties_length ob)
               then Some (Inr (False, h))
               else
                 do { (ob, has_delete_succeeded) \<leftarrow> set_array_properties_length (cx_hash cx) ob new_len;
                      let ob = (if pd_is_writable d = Some False then ob\<lparr>object_kind := KArray False\<rparr> else ob);
                      Some (Inr (has_delete_succeeded, h\<lparr>objects := (objects h)(obj \<mapsto> ob)\<rparr>)) }) }"

definition array_define_own_property ::
  "js_context \<Rightarrow> js_heap \<Rightarrow> ptr \<Rightarrow> bool \<Rightarrow> property_key \<Rightarrow> property_descriptor \<Rightarrow> (eval_error + bool \<times> js_heap) option" where
  "array_define_own_property cx h obj is_length_writable k d =
     (case k of
        ArrayIndex i \<Rightarrow>
          do { ob \<leftarrow> objects h obj;
               if unat i \<ge> array_properties_length ob \<and> \<not> is_length_writable then Some (Inr (False, h))
               else ordinary_define_own_property cx h obj k d }
      | NamedKey p \<Rightarrow>
          if p = cx_length_name cx then array_set_length cx h obj is_length_writable d
          else ordinary_define_own_property cx h obj k d)"

definition define_own_property ::
  "js_context \<Rightarrow> js_heap \<Rightarrow> ptr \<Rightarrow> property_key \<Rightarrow> property_descriptor \<Rightarrow> (eval_error + bool \<times> js_heap) option" where
  "define_own_property cx h obj k d =
     do { ob \<leftarrow> objects h obj;
          (case object_kind ob of
             KArray w \<Rightarrow> array_define_own_property cx h obj w k d
           | _ \<Rightarrow> ordinary_define_own_property cx h obj k d) }"

definition create_data_property ::
  "js_context \<Rightarrow> js_heap \<Rightarrow> ptr \<Rightarrow> property_key \<Rightarrow> value \<Rightarrow> (eval_error + bool \<times> js_heap) option" where
  "create_data_property cx h obj k v = define_own_property cx h obj k (desc_data v True True True)"

definition define_property_or_throw ::
  "js_context \<Rightarrow> js_heap \<Rightarrow> ptr \<Rightarrow> property_key \<Rightarrow> property_descriptor \<Rightarrow> (eval_error + js_heap) option" where
  "define_property_or_throw cx h obj k d =
     do { r \<leftarrow> define_own_property cx h obj k d;
          Some (case r of Inl e \<Rightarrow> Inl e | Inr (success, h) \<Rightarrow> if success then Inr h else Inl Type_Error) }"

subsection \<open>Deleting, prototypes and keys\<close>

definition ordinary_delete :: "js_context \<Rightarrow> js_heap \<Rightarrow> ptr \<Rightarrow> property_key \<Rightarrow> (bool \<times> js_heap) option" where
  "ordinary_delete cx h obj k =
     do { desc \<leftarrow> get_own_property cx h obj k;
          (case desc of
             None \<Rightarrow> Some (True, h)
           | Some d \<Rightarrow>
               if desc_is_configurable d then
                 do { ob \<leftarrow> objects h obj;
                      ob' \<leftarrow> remove_property (cx_hash cx) ob k;
                      Some (True, h\<lparr>objects := (objects h)(obj \<mapsto> ob')\<rparr>) }
               else Some (False, h)) }"

definition js_delete :: "js_context \<Rightarrow> js_heap \<Rightarrow> ptr \<Rightarrow> property_key \<Rightarrow> (bool \<times> js_heap) option" where
  "js_delete cx h obj k =
     do { ob \<leftarrow> objects h obj;
          (case object_kind ob of
             KArray w \<Rightarrow> if k = NamedKey (cx_length_name cx) then Some (False, h) else ordinary_delete cx h obj k
           | _ \<Rightarrow> ordinary_delete cx h obj k) }"

text \<open>
  The loop over the prototypes of the new prototype: whether the object itself is among them. Not
  returning is \<open>None\<close>.
\<close>

partial_function (option) in_prototype_chain :: "js_heap \<Rightarrow> ptr \<Rightarrow> ptr option \<Rightarrow> bool option" where
  "in_prototype_chain h obj current_prototype =
     (case current_prototype of
        None \<Rightarrow> Some False
      | Some p \<Rightarrow>
          if p = obj then Some True
          else do { next \<leftarrow> get_prototype_of h p; in_prototype_chain h obj next })"

definition set_prototype_of :: "js_heap \<Rightarrow> ptr \<Rightarrow> ptr option \<Rightarrow> (bool \<times> js_heap) option" where
  "set_prototype_of h obj new_prototype =
     do { ob \<leftarrow> objects h obj;
          if prototype ob = new_prototype then Some (True, h)
          else if object_kind ob = KObjectPrototype then Some (False, h)
          else if \<not> is_extensible_field ob then Some (False, h)
          else do { cyclic \<leftarrow> in_prototype_chain h obj new_prototype;
                    if cyclic then Some (False, h)
                    else Some (True, h\<lparr>objects := (objects h)(obj \<mapsto> ob\<lparr>prototype := new_prototype\<rparr>)\<rparr>) } }"

definition object_create :: "js_heap \<Rightarrow> ptr \<Rightarrow> object_kind \<Rightarrow> ptr option \<Rightarrow> js_heap" where
  "object_create h obj kind proto = h\<lparr>objects := (objects h)(obj \<mapsto> object_new kind proto)\<rparr>"

text \<open>
  The keys of an object: array indices in ascending order, then strings, then symbols. The source
  returns the keys as strings and symbols, which its callers turn back into property keys.
\<close>

definition indexed_keys :: "array_properties \<Rightarrow> property_key list option" where
  "indexed_keys ap =
     (case ap of
        Dense d \<Rightarrow>
          do { vs \<leftarrow> dense_iter d;
               Some (map (\<lambda>(i, v). ArrayIndex (of_nat i)) (filter (\<lambda>(i, v). \<not> is_empty v) (enumerate 0 vs))) }
      | Sparse s \<Rightarrow> Some (map (\<lambda>i. ArrayIndex (of_nat i)) (ordered_keys s)))"

definition is_symbol_key :: "js_context \<Rightarrow> property_key \<Rightarrow> bool" where
  "is_symbol_key cx k = (case k of ArrayIndex i \<Rightarrow> False | NamedKey p \<Rightarrow> cx_is_symbol cx p)"

definition string_symbol_keys :: "js_context \<Rightarrow> object_value \<Rightarrow> property_key list" where
  "string_symbol_keys cx ob =
     map fst (filter (\<lambda>(k, p). \<not> is_symbol_key cx k) (im_iter (named_properties ob))) @
     map fst (filter (\<lambda>(k, p). is_symbol_key cx k \<and> \<not> is_private p) (im_iter (named_properties ob)))"

definition own_property_keys :: "js_context \<Rightarrow> js_heap \<Rightarrow> ptr \<Rightarrow> property_key list option" where
  "own_property_keys cx h obj =
     do { ob \<leftarrow> objects h obj;
          indices \<leftarrow> indexed_keys (array_properties ob);
          Some (indices @
                (case object_kind ob of KArray w \<Rightarrow> [NamedKey (cx_length_name cx)] | _ \<Rightarrow> []) @
                string_symbol_keys cx ob) }"

subsection \<open>Integrity levels\<close>

datatype integrity_level = Sealed | Frozen

primrec integrity_loop ::
  "js_context \<Rightarrow> integrity_level \<Rightarrow> js_heap \<Rightarrow> ptr \<Rightarrow> property_key list \<Rightarrow> (eval_error + js_heap) option" where
  "integrity_loop cx level h obj [] = Some (Inr h)"
| "integrity_loop cx level h obj (k # ks) =
     do { r \<leftarrow> (case level of
                  Sealed \<Rightarrow> define_property_or_throw cx h obj k (desc_attributes None None (Some False))
                | Frozen \<Rightarrow>
                    do { current \<leftarrow> get_own_property cx h obj k;
                         (case current of
                            Some d \<Rightarrow>
                              define_property_or_throw cx h obj k
                                (if is_accessor_descriptor d then desc_attributes None None (Some False)
                                 else desc_attributes (Some False) None (Some False))
                          | None \<Rightarrow> Some (Inr h)) });
          (case r of Inl e \<Rightarrow> Some (Inl e) | Inr h \<Rightarrow> integrity_loop cx level h obj ks) }"

definition set_integrity_level ::
  "js_context \<Rightarrow> js_heap \<Rightarrow> ptr \<Rightarrow> integrity_level \<Rightarrow> (eval_error + bool \<times> js_heap) option" where
  "set_integrity_level cx h obj level =
     do { (success, h) \<leftarrow> prevent_extensions h obj;
          if \<not> success then Some (Inr (False, h))
          else do { keys \<leftarrow> own_property_keys cx h obj;
                    r \<leftarrow> integrity_loop cx level h obj keys;
                    Some (case r of Inl e \<Rightarrow> Inl e | Inr h \<Rightarrow> Inr (True, h)) } }"

primrec test_loop :: "js_context \<Rightarrow> integrity_level \<Rightarrow> js_heap \<Rightarrow> ptr \<Rightarrow> property_key list \<Rightarrow> bool option" where
  "test_loop cx level h obj [] = Some True"
| "test_loop cx level h obj (k # ks) =
     do { current \<leftarrow> get_own_property cx h obj k;
          (case current of
             Some d \<Rightarrow>
               if pd_is_configurable d = Some True then Some False
               else if level = Frozen \<and> is_data_descriptor d \<and> pd_is_writable d = Some True then Some False
               else test_loop cx level h obj ks
           | None \<Rightarrow> test_loop cx level h obj ks) }"

definition test_integrity_level :: "js_context \<Rightarrow> js_heap \<Rightarrow> ptr \<Rightarrow> integrity_level \<Rightarrow> bool option" where
  "test_integrity_level cx h obj level =
     do { extensible \<leftarrow> is_extensible h obj;
          if extensible then Some False
          else do { keys \<leftarrow> own_property_keys cx h obj; test_loop cx level h obj keys } }"

subsection \<open>Reading and writing through the prototype chain\<close>

partial_function (option) has_property :: "js_context \<Rightarrow> js_heap \<Rightarrow> ptr \<Rightarrow> property_key \<Rightarrow> bool option" where
  "has_property cx h obj k =
     do { own_property \<leftarrow> get_own_property cx h obj k;
          if own_property \<noteq> None then Some True
          else do { parent \<leftarrow> get_prototype_of h obj;
                    (case parent of Some p \<Rightarrow> has_property cx h p k | None \<Rightarrow> Some False) } }"

partial_function (option) js_get ::
  "js_context \<Rightarrow> js_heap \<Rightarrow> ptr \<Rightarrow> property_key \<Rightarrow> value \<Rightarrow> (eval_error + value \<times> js_heap) option" where
  "js_get cx h obj k receiver =
     do { desc \<leftarrow> get_own_property cx h obj k;
          (case desc of
             None \<Rightarrow>
               do { parent \<leftarrow> get_prototype_of h obj;
                    (case parent of None \<Rightarrow> Some (Inr (value_undefined, h)) | Some p \<Rightarrow> js_get cx h p k receiver) }
           | Some d \<Rightarrow>
               if is_data_descriptor d then do { v \<leftarrow> pd_value d; Some (Inr (v, h)) }
               else (case pd_get d of
                       None \<Rightarrow> Some (Inr (value_undefined, h))
                     | Some getter \<Rightarrow> cx_call cx h getter receiver [])) }"

definition is_object_value :: "js_heap \<Rightarrow> value \<Rightarrow> bool" where
  "is_object_value h v \<longleftrightarrow> is_pointer v \<and> objects h (as_pointer v) \<noteq> None"

definition set_with_own_descriptor ::
  "js_context \<Rightarrow> js_heap \<Rightarrow> property_key \<Rightarrow> value \<Rightarrow> value \<Rightarrow> property_descriptor \<Rightarrow> (eval_error + bool \<times> js_heap) option" where
  "set_with_own_descriptor cx h k v receiver own_desc =
     (if is_data_descriptor own_desc then
        if pd_is_writable own_desc = Some False then Some (Inr (False, h))
        else if \<not> is_object_value h receiver then Some (Inr (False, h))
        else do { existing \<leftarrow> get_own_property cx h (as_pointer receiver) k;
                  (case existing of
                     None \<Rightarrow> create_data_property cx h (as_pointer receiver) k v
                   | Some d \<Rightarrow>
                       if is_accessor_descriptor d then Some (Inr (False, h))
                       else if pd_is_writable d = Some False then Some (Inr (False, h))
                       else define_own_property cx h (as_pointer receiver) k (desc_data_value_only v)) }
      else (case pd_set own_desc of
              None \<Rightarrow> Some (Inr (False, h))
            | Some setter \<Rightarrow>
                do { r \<leftarrow> cx_call cx h setter receiver [v];
                     Some (case r of Inl e \<Rightarrow> Inl e | Inr (_, h) \<Rightarrow> Inr (True, h)) }))"

partial_function (option) js_set ::
  "js_context \<Rightarrow> js_heap \<Rightarrow> ptr \<Rightarrow> property_key \<Rightarrow> value \<Rightarrow> value \<Rightarrow> (eval_error + bool \<times> js_heap) option" where
  "js_set cx h obj k v receiver =
     do { own \<leftarrow> get_own_property cx h obj k;
          (case own of
             Some d \<Rightarrow> set_with_own_descriptor cx h k v receiver d
           | None \<Rightarrow>
               do { parent \<leftarrow> get_prototype_of h obj;
                    (case parent of
                       None \<Rightarrow> set_with_own_descriptor cx h k v receiver (desc_data value_undefined True True True)
                     | Some p \<Rightarrow> js_set cx h p k v receiver) }) }"

end
