(* ===== verification/Object_Invariants.thy ===== *)
theory Object_Invariants
  imports Ordinary_Object
begin

section \<open>Well-formed objects and the definition of properties\<close>

text \<open>
  The invariant of a heap of ordinary objects and arrays, an object as an instance of the store of
  properties, and the correctness of defining an own property: \<open>define_own_property\<close> refines
  ECMAScript's \<open>ValidateAndApplyPropertyDescriptor\<close> on descriptors.
\<close>

subsection \<open>An object as a store of properties\<close>

definition obj_inv :: "(property_key \<Rightarrow> nat) \<Rightarrow> object_value \<Rightarrow> bool" where
  "obj_inv hash ob \<longleftrightarrow>
     ap_inv (index_hash hash) (array_properties ob) \<and> ap_array_length (array_properties ob) < 2 ^ 32 \<and>
     im_inv hash (named_properties ob) \<and> (\<forall>k \<in> fst ` set (im_iter (named_properties ob)). \<not> is_array_index k)"

definition obj_props :: "object_value \<Rightarrow> property_key \<rightharpoonup> property" where
  "obj_props ob k =
     (case k of ArrayIndex i \<Rightarrow> ap_props (array_properties ob) (unat i)
      | NamedKey p \<Rightarrow> map_of (im_iter (named_properties ob)) k)"

definition obj_clean :: "object_value \<Rightarrow> bool" where
  "obj_clean ob = ap_clean (array_properties ob)"

definition key_ok :: "property_key \<Rightarrow> bool" where
  "key_ok k = (case k of ArrayIndex i \<Rightarrow> i \<noteq> 0xFFFFFFFF | NamedKey p \<Rightarrow> True)"

definition key_light :: "object_value \<Rightarrow> property_key \<Rightarrow> bool" where
  "key_light ob k = (is_array_index k \<longrightarrow> is_dense (array_properties ob))"

text \<open>Everything but the properties.\<close>

definition same_header :: "object_value \<Rightarrow> object_value \<Rightarrow> bool" where
  "same_header ob ob' \<longleftrightarrow> prototype ob' = prototype ob \<and> is_extensible_field ob' = is_extensible_field ob \<and>
     object_kind ob' = object_kind ob"

lemmas obj_defs = obj_inv_def obj_clean_def key_light_def same_header_def

lemma fst_al: "fst ` set (al_insert k v xs) = insert k (fst ` set xs)" "fst ` set (al_remove k xs) = fst ` set xs - {k}"
proof -
  have "fst ` set ys = dom (map_of ys)" for ys :: "('a \<times> 'b) list" by (simp add: dom_map_of_conv_image_fst)
  then show "fst ` set (al_insert k v xs) = insert k (fst ` set xs)" "fst ` set (al_remove k xs) = fst ` set xs - {k}"
    by (auto simp: map_of_al_insert map_of_al_remove)
qed

lemma key_ok_index: "key_ok (ArrayIndex i) \<Longrightarrow> unat i < 2 ^ 32 - 1"
proof -
  assume "key_ok (ArrayIndex i)"
  then have "unat i \<noteq> unat (0xFFFFFFFF :: u32)" by (simp add: key_ok_def word_unat_eq_iff)
  moreover have "unat i < 2 ^ 32" using unsigned_less [of i, where ?'a = nat] by simp
  ultimately show ?thesis by simp
qed

lemma get_property_props: "obj_inv hash ob \<Longrightarrow> get_property hash ob k = Some (obj_props ob k)"
  by (cases k) (simp_all add: get_property_def obj_props_def obj_inv_def ap_lookup im.lookup_items)

lemma set_property_props:
  assumes inv: "obj_inv hash ob" and ok: "obj_clean ob \<or> obj_props ob k = None" "key_ok k" "storable p"
  shows "\<exists>ob'. set_property hash ob k p = Some ob' \<and> obj_inv hash ob' \<and> obj_props ob' = (obj_props ob)(k \<mapsto> p) \<and>
           (obj_clean ob \<longrightarrow> obj_clean ob') \<and> same_header ob ob' \<and>
           array_properties_length ob' = (case k of ArrayIndex i \<Rightarrow> max (array_properties_length ob) (unat i + 1)
             | NamedKey _ \<Rightarrow> array_properties_length ob)"
proof (cases k)
  case (ArrayIndex i)
  have i: "unat i < 2 ^ 32 - 1" using ok(2) ArrayIndex key_ok_index by simp
  obtain ap where ap: "ap_set_property (index_hash hash) (array_properties ob) (unat i) p = Some ap"
      "ap_inv (index_hash hash) ap" "ap_props ap = (ap_props (array_properties ob))(unat i \<mapsto> p)"
      "ap_clean (array_properties ob) \<longrightarrow> ap_clean ap"
      "ap_array_length ap = max (ap_array_length (array_properties ob)) (unat i + 1)"
    using ap_put [of "index_hash hash" "array_properties ob" "unat i" p] inv ok i
    by (auto simp: ArrayIndex obj_inv_def obj_clean_def obj_props_def)
  have "obj_props (ob\<lparr>array_properties := ap\<rparr>) = (obj_props ob)(k \<mapsto> p)"
    by (auto simp: fun_eq_iff obj_props_def ap(3) ArrayIndex word_unat_eq_iff split: property_key.splits)
  then show ?thesis using ap inv i
    by (simp add: set_property_def ArrayIndex obj_defs array_properties_length_def)
next
  case (NamedKey q)
  obtain m where m: "im_insert hash 0 (named_properties ob) k p = Some (m, k \<in> fst ` set (im_iter (named_properties ob)))"
      "im_inv hash m" "im_iter m = al_insert k p (im_iter (named_properties ob))"
    using im.put_items [of hash "named_properties ob" 0 k p] inv by (auto simp: obj_inv_def)
  have "obj_props (ob\<lparr>named_properties := m\<rparr>) = (obj_props ob)(k \<mapsto> p)"
    by (auto simp: fun_eq_iff obj_props_def m(3) map_of_al_insert NamedKey split: property_key.splits)
  moreover have "\<forall>l \<in> fst ` set (im_iter m). \<not> is_array_index l"
    using inv unfolding m(3) fst_al by (simp add: obj_inv_def NamedKey)
  ultimately show ?thesis using m inv
    by (simp add: set_property_def NamedKey obj_defs array_properties_length_def)
qed

lemma remove_property_props:
  assumes inv: "obj_inv hash ob" and present: "obj_props ob k \<noteq> None"
  shows "\<exists>ob'. remove_property hash ob k = Some ob' \<and> obj_inv hash ob' \<and> obj_props ob' = (obj_props ob)(k := None) \<and>
           (key_light ob k \<longrightarrow> obj_clean ob \<longrightarrow> obj_clean ob') \<and> same_header ob ob' \<and>
           array_properties_length ob' = array_properties_length ob"
proof (cases k)
  case (ArrayIndex i)
  obtain ap where ap: "ap_remove_property (index_hash hash) (array_properties ob) (unat i) = Some ap"
      "ap_inv (index_hash hash) ap" "ap_props ap = (ap_props (array_properties ob))(unat i := None)"
      "ap_array_length ap = ap_array_length (array_properties ob)" "is_dense (array_properties ob) \<longrightarrow> ap_clean ap"
    using ap_del [of "index_hash hash" "array_properties ob" "unat i"] inv present
    by (auto simp: ArrayIndex obj_inv_def obj_props_def)
  have "obj_props (ob\<lparr>array_properties := ap\<rparr>) = (obj_props ob)(k := None)"
    by (auto simp: fun_eq_iff obj_props_def ap(3) ArrayIndex word_unat_eq_iff split: property_key.splits)
  then show ?thesis using ap inv
    by (simp add: remove_property_def ArrayIndex obj_defs array_properties_length_def)
next
  case (NamedKey q)
  obtain m where m: "im_remove hash (named_properties ob) k = Some (m, k \<in> fst ` set (im_iter (named_properties ob)))"
      "im_inv hash m" "im_iter m = al_remove k (im_iter (named_properties ob))"
    using im.del_items [of hash "named_properties ob" k] inv by (auto simp: obj_inv_def)
  have "obj_props (ob\<lparr>named_properties := m\<rparr>) = (obj_props ob)(k := None)"
    by (auto simp: fun_eq_iff obj_props_def m(3) map_of_al_remove NamedKey split: property_key.splits)
  moreover have "\<forall>l \<in> fst ` set (im_iter m). \<not> is_array_index l"
    using inv unfolding m(3) fst_al by (auto simp: obj_inv_def)
  ultimately show ?thesis using m inv
    by (simp add: remove_property_def NamedKey obj_defs array_properties_length_def)
qed

interpretation os: property_store "obj_inv hash" obj_props "get_property hash" "set_property hash" "remove_property hash"
    key_ok obj_clean key_light
  for hash :: "property_key \<Rightarrow> nat"
proof
  fix ob k p
  assume inv: "obj_inv hash ob"
  show "get_property hash ob k = Some (obj_props ob k)" by (rule get_property_props [OF inv])
  show "\<exists>ob'. set_property hash ob k p = Some ob' \<and> obj_inv hash ob' \<and> obj_props ob' = (obj_props ob)(k \<mapsto> p) \<and>
      (obj_clean ob \<longrightarrow> obj_clean ob')"
    if "obj_clean ob \<or> obj_props ob k = None" "key_ok k" "storable p"
    using set_property_props [OF inv that] by blast
  show "\<exists>ob'. remove_property hash ob k = Some ob' \<and> obj_inv hash ob' \<and> obj_props ob' = (obj_props ob)(k := None) \<and>
      (key_light ob k \<longrightarrow> obj_clean ob \<longrightarrow> obj_clean ob')"
    if "obj_props ob k \<noteq> None"
    using remove_property_props [OF inv that] by blast
qed

subsection \<open>The heap\<close>

definition hprops :: "js_heap \<Rightarrow> ptr \<Rightarrow> property_key \<Rightarrow> property option" where
  "hprops h obj k = (case objects h obj of None \<Rightarrow> None | Some ob \<Rightarrow> obj_props ob k)"

text \<open>
  Every object is well formed, accessor cells are behind pointers, and no accessor cell is shared
  by two properties: a cell is changed in place.
\<close>

definition heap_inv :: "js_context \<Rightarrow> js_heap \<Rightarrow> bool" where
  "heap_inv cx h \<longleftrightarrow>
     (\<forall>obj ob. objects h obj = Some ob \<longrightarrow> obj_inv (cx_hash cx) ob \<and> obj_clean ob) \<and>
     (\<forall>obj k p. hprops h obj k = Some p \<longrightarrow> storable p) \<and>
     (\<forall>p. accessors h p \<noteq> None \<longrightarrow> is_pointer p) \<and>
     (\<forall>obj k p obj' k' q. hprops h obj k = Some p \<longrightarrow> hprops h obj' k' = Some q \<longrightarrow>
        accessor_of h (prop_value p) \<noteq> None \<longrightarrow> prop_value q = prop_value p \<longrightarrow> obj' = obj \<and> k' = k)"

text \<open>
  What the allocator promises: a new cell is a heap pointer to which no property refers, and no cell
  in use.
\<close>

definition alloc_fresh :: "js_context \<Rightarrow> bool" where
  "alloc_fresh cx \<longleftrightarrow>
     (\<forall>h p. cx_alloc cx h = Some p \<longrightarrow>
        is_pointer p \<and> accessors h p = None \<and> (\<forall>obj k q. hprops h obj k = Some q \<longrightarrow> prop_value q \<noteq> p))"

text \<open>
  The descriptors that reach the internal methods: the value is one that programs can name, no hole
  and no accessor cell, data and accessor fields are not mixed, and an absent accessor field has its
  default.
\<close>

definition desc_ok :: "js_heap \<Rightarrow> property_descriptor \<Rightarrow> bool" where
  "desc_ok h d \<longleftrightarrow> (\<forall>v. pd_value d = Some v \<longrightarrow> \<not> is_empty v \<and> accessor_of h v = None) \<and>
     \<not> (is_data_descriptor d \<and> is_accessor_descriptor d) \<and>
     (\<not> pd_has_get d \<longrightarrow> pd_get d = None) \<and> (\<not> pd_has_set d \<longrightarrow> pd_set d = None)"

lemma heap_invD:
  assumes "heap_inv cx h"
  shows "objects h obj = Some ob \<Longrightarrow> obj_inv (cx_hash cx) ob" "objects h obj = Some ob \<Longrightarrow> obj_clean ob"
    "hprops h obj k = Some p \<Longrightarrow> storable p" "accessors h a \<noteq> None \<Longrightarrow> is_pointer a"
    "\<lbrakk>hprops h obj k = Some p; hprops h obj' k' = Some q; accessor_of h (prop_value p) \<noteq> None;
      prop_value q = prop_value p\<rbrakk> \<Longrightarrow> obj' = obj \<and> k' = k"
proof -
  note c1 = assms [unfolded heap_inv_def, THEN conjunct1] and c2 = assms [unfolded heap_inv_def, THEN conjunct2]
  show "objects h obj = Some ob \<Longrightarrow> obj_inv (cx_hash cx) ob" "objects h obj = Some ob \<Longrightarrow> obj_clean ob"
    using c1 by blast+
  show "hprops h obj k = Some p \<Longrightarrow> storable p" using c2 [THEN conjunct1] by blast
  show "accessors h a \<noteq> None \<Longrightarrow> is_pointer a" using c2 [THEN conjunct2, THEN conjunct1] by blast
  show "\<lbrakk>hprops h obj k = Some p; hprops h obj' k' = Some q; accessor_of h (prop_value p) \<noteq> None;
      prop_value q = prop_value p\<rbrakk> \<Longrightarrow> obj' = obj \<and> k' = k"
    using c2 [THEN conjunct2, THEN conjunct2] by blast
qed

lemma property_desc_simps [simp]:
  "desc_is_configurable (property_desc h p) = prop_is_configurable p"
  "desc_is_enumerable (property_desc h p) = prop_is_enumerable p"
  "is_data_descriptor (property_desc h p) \<longleftrightarrow> accessor_of h (prop_value p) = None"
  "is_accessor_descriptor (property_desc h p) \<longleftrightarrow> accessor_of h (prop_value p) \<noteq> None"
  "pd_is_configurable (property_desc h p) = Some (prop_is_configurable p)"
  by (simp_all add: property_desc_def desc_data_def desc_accessor_def desc_is_configurable_def
      desc_is_enumerable_def unwrap_or_false_def is_data_descriptor_def is_accessor_descriptor_def split: option.split)

lemma data_desc_simps:
  assumes "accessor_of h (prop_value p) = None"
  shows "desc_is_writable (property_desc h p) = prop_is_writable p" "pd_value (property_desc h p) = Some (prop_value p)"
  using assms by (simp_all add: property_desc_def desc_data_def desc_is_writable_def unwrap_or_false_def)

text \<open>
  The transition from \<open>h\<close> to \<open>h'\<close> sets the property of one object at one key; other properties
  keep their descriptors.
\<close>

definition grown_length :: "object_value \<Rightarrow> property_key \<Rightarrow> nat" where
  "grown_length ob k =
     (case k of ArrayIndex i \<Rightarrow> max (array_properties_length ob) (unat i + 1) | NamedKey _ \<Rightarrow> array_properties_length ob)"

definition sets_property :: "js_context \<Rightarrow> js_heap \<Rightarrow> js_heap \<Rightarrow> ptr \<Rightarrow> property_key \<Rightarrow> property \<Rightarrow> bool" where
  "sets_property cx h h' obj k p \<longleftrightarrow> heap_inv cx h' \<and>
     (\<exists>ob ob'. objects h obj = Some ob \<and> objects h' = (objects h)(obj \<mapsto> ob') \<and> same_header ob ob' \<and>
        obj_props ob' = (obj_props ob)(k \<mapsto> p) \<and> array_properties_length ob' = grown_length ob k) \<and>
     (\<forall>obj' k' q. \<not> (obj' = obj \<and> k' = k) \<longrightarrow> hprops h obj' k' = Some q \<longrightarrow> property_desc h' q = property_desc h q)"

lemma sets_property_hprops:
  "sets_property cx h h' obj k p \<Longrightarrow>
     hprops h' obj' k' = (if obj' = obj \<and> k' = k then Some p else hprops h obj' k')"
  by (auto simp: sets_property_def hprops_def)

lemma sets_property_trans:
  assumes 1: "sets_property cx h h1 obj k p" and 2: "sets_property cx h1 h2 obj k q"
  shows "sets_property cx h h2 obj k q"
proof -
  obtain ob ob1 where o1: "objects h obj = Some ob" "objects h1 = (objects h)(obj \<mapsto> ob1)" "same_header ob ob1"
      "obj_props ob1 = (obj_props ob)(k \<mapsto> p)" "array_properties_length ob1 = grown_length ob k"
    using 1 unfolding sets_property_def by blast
  obtain ob2 where o2: "objects h2 = (objects h1)(obj \<mapsto> ob2)" "same_header ob1 ob2"
      "obj_props ob2 = (obj_props ob1)(k \<mapsto> q)" "array_properties_length ob2 = grown_length ob1 k"
    using 2 o1(2) unfolding sets_property_def by auto
  have "property_desc h2 r = property_desc h r" if "\<not> (obj' = obj \<and> k' = k)" "hprops h obj' k' = Some r" for obj' k' r
  proof -
    have "hprops h1 obj' k' = Some r" using sets_property_hprops [OF 1] that by auto
    then show ?thesis using 1 2 that unfolding sets_property_def by metis
  qed
  moreover have "grown_length ob1 k = grown_length ob k"
    using o1(5) by (auto simp: grown_length_def split: property_key.splits)
  moreover have "objects h2 = (objects h)(obj \<mapsto> ob2)" "obj_props ob2 = (obj_props ob)(k \<mapsto> q)" "same_header ob ob2"
    using o1 o2 by (simp_all add: same_header_def)
  ultimately show ?thesis using 2 o1(1) o2(4) unfolding sets_property_def by auto
qed

lemma store_property_sets:
  assumes inv: "heap_inv cx h" and ob: "objects h obj = Some ob" and k: "key_ok k" and p: "storable p"
    and new: "\<And>obj' k' q. accessor_of h (prop_value p) \<noteq> None \<Longrightarrow> hprops h obj' k' = Some q \<Longrightarrow>
      prop_value q = prop_value p \<Longrightarrow> obj' = obj \<and> k' = k"
  shows "\<exists>h'. store_property cx h obj k p = Some h' \<and> sets_property cx h h' obj k p \<and> accessors h' = accessors h"
proof -
  obtain ob' where ob': "set_property (cx_hash cx) ob k p = Some ob'" "obj_inv (cx_hash cx) ob'"
      "obj_props ob' = (obj_props ob)(k \<mapsto> p)" "obj_clean ob'" "same_header ob ob'"
      "array_properties_length ob' = grown_length ob k"
    using set_property_props [OF heap_invD(1) [OF inv ob] _ k p] heap_invD(2) [OF inv ob] by (auto simp: grown_length_def)
  let ?h = "h\<lparr>objects := (objects h)(obj \<mapsto> ob')\<rparr>"
  have acc: "accessor_of ?h v = accessor_of h v" for v by (simp add: accessor_of_def)
  have desc: "property_desc ?h q = property_desc h q" for q by (simp add: property_desc_def acc)
  have props: "hprops ?h obj' k' = (if obj' = obj \<and> k' = k then Some p else hprops h obj' k')" for obj' k'
    using ob ob'(3) by (simp add: hprops_def)
  have "heap_inv cx ?h"
    unfolding heap_inv_def acc
  proof (intro conjI allI impI)
    show "obj_inv (cx_hash cx) x" if "objects ?h obj' = Some x" for obj' x
      using that ob'(2) heap_invD(1) [OF inv] by (auto split: if_splits)
    show "obj_clean x" if "objects ?h obj' = Some x" for obj' x
      using that ob'(4) heap_invD(2) [OF inv] by (auto split: if_splits)
    show "storable q" if "hprops ?h obj' k' = Some q" for obj' k' q
      using that p heap_invD(3) [OF inv] by (auto simp: props split: if_splits)
    show "is_pointer a" if "accessors ?h a \<noteq> None" for a using that heap_invD(4) [OF inv] by simp
    fix obj1 k1 p1 obj2 k2 p2
    assume *: "hprops ?h obj1 k1 = Some p1" "hprops ?h obj2 k2 = Some p2" "accessor_of h (prop_value p1) \<noteq> None"
      "prop_value p2 = prop_value p1"
    have "obj2 = obj1 \<and> k2 = k1"
      using * new heap_invD(5) [OF inv] unfolding props by (auto split: if_splits)
    then show "obj2 = obj1" "k2 = k1" by simp_all
  qed
  then show ?thesis
    using ob ob' by (auto simp: store_property_def sets_property_def desc)
qed

subsection \<open>Accessor cells\<close>

lemma pointer_not_empty: "is_pointer v \<Longrightarrow> \<not> is_empty v"
  by (auto simp: type_tests box_simps NAN_TAG_def)

text \<open>A change that touches no object and no descriptor of another property, followed by a store.\<close>

lemma sets_property_after:
  assumes "objects h1 = objects h"
    "\<And>obj' k' q. \<not> (obj' = obj \<and> k' = k) \<Longrightarrow> hprops h obj' k' = Some q \<Longrightarrow> property_desc h1 q = property_desc h q"
    and 2: "sets_property cx h1 h2 obj k p"
  shows "sets_property cx h h2 obj k p"
proof -
  have "hprops h1 = hprops h" using assms(1) by (simp add: fun_eq_iff hprops_def)
  then show ?thesis using 2 assms(1,2) unfolding sets_property_def by auto
qed

lemma accessor_of_cong: "accessors h' = accessors h \<Longrightarrow> accessor_of h' v = accessor_of h v"
  by (simp add: accessor_of_def)

lemma property_desc_cong:
  "accessor_of h' (prop_value q) = accessor_of h (prop_value q) \<Longrightarrow> property_desc h' q = property_desc h q"
  by (simp add: property_desc_def)

lemma accessor_new_cell:
  assumes inv: "heap_inv cx h" and fresh: "alloc_fresh cx" and new: "accessor_new cx h getter setter = Inr (v, h1)"
  shows "heap_inv cx h1" "objects h1 = objects h" "accessor_of h1 v = Some \<lparr>acc_get = getter, acc_set = setter\<rparr>"
    "\<not> is_empty v" "\<And>obj k q. hprops h obj k = Some q \<Longrightarrow> prop_value q \<noteq> v"
    "\<And>obj k q. hprops h obj k = Some q \<Longrightarrow> property_desc h1 q = property_desc h q"
    "\<And>w. accessor_of h1 w = None \<Longrightarrow> accessor_of h w = None"
proof -
  obtain p where p: "cx_alloc cx h = Some p" "v = value_heap_item p"
      "h1 = h\<lparr>accessors := (accessors h)(p \<mapsto> \<lparr>acc_get = getter, acc_set = setter\<rparr>)\<rparr>"
    using new by (auto simp: accessor_new_def split: option.splits)
  have f: "is_pointer p" "accessors h p = None" "\<And>obj k q. hprops h obj k = Some q \<Longrightarrow> prop_value q \<noteq> p"
    using fresh p(1) unfolding alloc_fresh_def by blast+
  have v: "v = p" using p(2) by (simp add: value_heap_item_def)
  show objs: "objects h1 = objects h" using p(3) by simp
  then have props: "hprops h1 = hprops h" by (simp add: fun_eq_iff hprops_def)
  have acc: "accessor_of h1 w = (if w = p then Some \<lparr>acc_get = getter, acc_set = setter\<rparr> else accessor_of h w)" for w
    using f(1) p(3) by (auto simp: accessor_of_def as_pointer_def)
  show "accessor_of h1 v = Some \<lparr>acc_get = getter, acc_set = setter\<rparr>" using acc v by simp
  show "\<not> is_empty v" using f(1) v pointer_not_empty by simp
  show other: "prop_value q \<noteq> v" if "hprops h obj k = Some q" for obj k q using f(3) [OF that] v by simp
  show "property_desc h1 q = property_desc h q" if "hprops h obj k = Some q" for obj k q
    using f(3) [OF that] by (intro property_desc_cong) (simp add: acc)
  show "accessor_of h1 w = None \<Longrightarrow> accessor_of h w = None" for w by (simp add: acc split: if_splits)
  show "heap_inv cx h1"
    unfolding heap_inv_def objs props
  proof (intro conjI allI impI)
    show "is_pointer a" if "accessors h1 a \<noteq> None" for a
      using that f(1) heap_invD(4) [OF inv] p(3) by (auto split: if_splits)
    fix obj1 k1 p1 obj2 k2 p2
    assume *: "hprops h obj1 k1 = Some p1" "hprops h obj2 k2 = Some p2" "accessor_of h1 (prop_value p1) \<noteq> None"
      "prop_value p2 = prop_value p1"
    then have "accessor_of h (prop_value p1) \<noteq> None" using f(3) acc by auto
    then have "obj2 = obj1 \<and> k2 = k1" using heap_invD(5) [OF inv *(1,2)] *(4) by blast
    then show "obj2 = obj1" "k2 = k1" by simp_all
  qed (use heap_invD(1-3) [OF inv] in blast)+
qed

lemma set_accessor_cell:
  assumes inv: "heap_inv cx h" and p: "hprops h obj k = Some p" "accessor_of h (prop_value p) = Some a"
  shows "\<exists>h1. set_accessor h (prop_value p) f = Some h1 \<and> heap_inv cx h1 \<and> objects h1 = objects h \<and>
           accessor_of h1 (prop_value p) = Some (f a) \<and>
           (\<forall>obj' k' q. \<not> (obj' = obj \<and> k' = k) \<longrightarrow> hprops h obj' k' = Some q \<longrightarrow> property_desc h1 q = property_desc h q)"
proof -
  let ?v = "prop_value p"
  let ?h = "h\<lparr>accessors := (accessors h)(as_pointer ?v \<mapsto> f a)\<rparr>"
  have v: "is_pointer ?v" using p(2) by (simp add: accessor_of_def split: if_splits)
  have acc: "accessor_of ?h w = (if w = ?v then Some (f a) else accessor_of h w)" for w
    using v by (auto simp: accessor_of_def as_pointer_def)
  have props: "hprops ?h = hprops h" by (simp add: fun_eq_iff hprops_def)
  have "property_desc ?h q = property_desc h q" if "\<not> (obj' = obj \<and> k' = k)" "hprops h obj' k' = Some q" for obj' k' q
  proof -
    have "prop_value q \<noteq> ?v" using heap_invD(5) [OF inv p(1) that(2)] p(2) that(1) by auto
    then show ?thesis by (intro property_desc_cong) (simp add: acc)
  qed
  moreover have "heap_inv cx ?h"
    unfolding heap_inv_def props
  proof (intro conjI allI impI)
    show "is_pointer b" if "accessors ?h b \<noteq> None" for b
      using that v heap_invD(4) [OF inv] by (auto simp: as_pointer_def split: if_splits)
    fix obj1 k1 p1 obj2 k2 p2
    assume *: "hprops h obj1 k1 = Some p1" "hprops h obj2 k2 = Some p2" "accessor_of ?h (prop_value p1) \<noteq> None"
      "prop_value p2 = prop_value p1"
    then have "accessor_of h (prop_value p1) \<noteq> None" using p(2) acc by (auto split: if_splits)
    then have "obj2 = obj1 \<and> k2 = k1" using heap_invD(5) [OF inv *(1,2)] *(4) by blast
    then show "obj2 = obj1" "k2 = k1" by simp_all
  qed (use heap_invD(1-3) [OF inv] in auto)
  ultimately show ?thesis using p(2) by (simp add: set_accessor_def acc)
qed

subsection \<open>Defining a property, on descriptors\<close>

text \<open>
  \<open>ValidateAndApplyPropertyDescriptor\<close> as ECMAScript states it, on descriptors alone: which
  changes of a current property are allowed, and the property that results.
\<close>

definition compatible :: "(ptr \<Rightarrow> heap_contents) \<Rightarrow> property_descriptor \<Rightarrow> property_descriptor \<Rightarrow> bool" where
  "compatible deref d cur \<longleftrightarrow>
     desc_is_configurable cur \<or>
     pd_is_configurable d \<noteq> Some True \<and> pd_is_enumerable d \<noteq> Some (\<not> desc_is_enumerable cur) \<and>
     (is_generic_descriptor d \<or>
      is_data_descriptor d = is_data_descriptor cur \<and>
      (if is_data_descriptor cur then
         desc_is_writable cur \<or>
         pd_is_writable d \<noteq> Some True \<and>
         (case pd_value d of None \<Rightarrow> True | Some v \<Rightarrow> \<exists>w. pd_value cur = Some w \<and> same_value deref v w)
       else (pd_has_get d \<longrightarrow> pd_get d = pd_get cur) \<and> (pd_has_set d \<longrightarrow> pd_set d = pd_set cur)))"

definition or_else :: "'a option \<Rightarrow> 'a option \<Rightarrow> 'a option" where
  "or_else x y = (case x of None \<Rightarrow> y | Some _ \<Rightarrow> x)"

definition override :: "property_descriptor \<Rightarrow> property_descriptor \<Rightarrow> property_descriptor" where
  "override d cur =
     cur\<lparr>pd_value := or_else (pd_value d) (pd_value cur), pd_is_writable := or_else (pd_is_writable d) (pd_is_writable cur),
         pd_is_enumerable := or_else (pd_is_enumerable d) (pd_is_enumerable cur),
         pd_is_configurable := or_else (pd_is_configurable d) (pd_is_configurable cur),
         pd_get := (if pd_has_get d then pd_get d else pd_get cur),
         pd_set := (if pd_has_set d then pd_set d else pd_set cur)\<rparr>"

text \<open>The property of the other kind from which a conversion starts.\<close>

definition converted :: "property_descriptor \<Rightarrow> property_descriptor \<Rightarrow> property_descriptor" where
  "converted d cur =
     (if is_generic_descriptor d \<or> is_data_descriptor d = is_data_descriptor cur then cur
      else if is_data_descriptor d
      then desc_data value_undefined False (desc_is_enumerable cur) (desc_is_configurable cur)
      else desc_accessor None None (desc_is_enumerable cur) (desc_is_configurable cur))"

text \<open>Whether every field of the current property is fixed.\<close>

definition locked :: "property_descriptor \<Rightarrow> bool" where
  "locked cur \<longleftrightarrow> \<not> desc_is_configurable cur \<and> \<not> (is_data_descriptor cur \<and> desc_is_writable cur)"

definition default_desc :: "property_descriptor \<Rightarrow> property_descriptor" where
  "default_desc d =
     (if is_accessor_descriptor d then desc_accessor None None False False
      else desc_data value_undefined False False False)"

definition resulting_desc :: "property_descriptor \<Rightarrow> property_descriptor option \<Rightarrow> property_descriptor" where
  "resulting_desc d cur =
     (case cur of None \<Rightarrow> override d (default_desc d)
      | Some c \<Rightarrow> if locked c then c else override d (converted d c))"

lemma changed_property_bits:
  "prop_is_enumerable (changed_property d p) = (case pd_is_enumerable d of None \<Rightarrow> prop_is_enumerable p | Some b \<Rightarrow> b)"
  "prop_is_configurable (changed_property d p) = (case pd_is_configurable d of None \<Rightarrow> prop_is_configurable p | Some b \<Rightarrow> b)"
  "prop_is_writable (changed_property d p) = (case pd_is_writable d of None \<Rightarrow> prop_is_writable p | Some b \<Rightarrow> b)"
  "prop_value (changed_property d p) = (case pd_value d of None \<Rightarrow> prop_value p | Some v \<Rightarrow> v)"
  by (auto simp: changed_property_def is_data_descriptor_def prop_simps Let_def split: option.split)

lemma changed_property_storable:
  assumes "storable p" "desc_ok h d"
  shows "storable (changed_property d p)"
proof -
  have "plain_flags (changed_property d p)"
    using assms(1) by (auto simp: storable_def changed_property_def Let_def plain_flags_set split: option.split)
  moreover have "\<not> is_empty (prop_value (changed_property d p))"
    using assms by (auto simp: storable_def desc_ok_def changed_property_bits split: option.split)
  ultimately show ?thesis by (simp add: storable_def)
qed

lemma data_desc_changed:
  assumes "accessor_of h (prop_value p) = None" "accessor_of h' (prop_value (changed_property d p)) = None"
    "\<not> is_accessor_descriptor d"
  shows "property_desc h' (changed_property d p) = override d (property_desc h p)"
  using assms by (auto simp: property_desc_def desc_data_def override_def or_else_def changed_property_bits
      is_accessor_descriptor_def split: option.split)

lemma accessor_desc_changed:
  assumes "accessor_of h (prop_value p) = Some a"
    "accessor_of h' (prop_value p) = Some \<lparr>acc_get = (if pd_has_get d then pd_get d else acc_get a),
       acc_set = (if pd_has_set d then pd_set d else acc_set a)\<rparr>"
    "\<not> is_data_descriptor d"
  shows "property_desc h' (changed_property d p) = override d (property_desc h p)"
proof -
  have d: "pd_value d = None" "pd_is_writable d = None" using assms(3) by (simp_all add: is_data_descriptor_def)
  show ?thesis
    using assms(1,2) by (auto simp: property_desc_def desc_accessor_def override_def or_else_def changed_property_bits d
        split: option.split)
qed

lemma apply_descriptor_sets:
  assumes inv: "heap_inv cx h" and p: "hprops h obj k = Some p" and k: "key_ok k" and d: "desc_ok h d"
    and acc: "is_accessor_descriptor d \<Longrightarrow> accessor_of h (prop_value p) \<noteq> None"
    and dat: "is_data_descriptor d \<Longrightarrow> accessor_of h (prop_value p) = None"
  shows "\<exists>h'. apply_descriptor cx h (Some obj) k d = Some (Inr (True, h')) \<and>
           sets_property cx h h' obj k (changed_property d p) \<and>
           property_desc h' (changed_property d p) = override d (property_desc h p)"
proof -
  obtain ob where ob: "objects h obj = Some ob" "obj_props ob k = Some p"
    using p by (auto simp: hprops_def split: option.splits)
  have load: "load_property cx h obj k = Some p"
    using ob get_property_props [OF heap_invD(1) [OF inv ob(1)]] by (simp add: load_property_def)
  have st: "storable (changed_property d p)"
    using changed_property_storable [OF heap_invD(3) [OF inv p] d] .
  show ?thesis
  proof (cases "is_accessor_descriptor d")
    case False
    have new: "accessor_of h (prop_value (changed_property d p)) \<noteq> None \<Longrightarrow> prop_value (changed_property d p) = prop_value p"
      using d by (auto simp: changed_property_bits desc_ok_def split: option.splits)
    obtain h' where h': "store_property cx h obj k (changed_property d p) = Some h'"
        "sets_property cx h h' obj k (changed_property d p)" "accessors h' = accessors h"
      using store_property_sets [OF inv ob(1) k st] new heap_invD(5) [OF inv p] by metis
    have same: "accessor_of h' v = accessor_of h v" for v using h'(3) by (simp add: accessor_of_def)
    have "property_desc h' (changed_property d p) = override d (property_desc h p)"
    proof (cases "accessor_of h (prop_value p)")
      case None
      then have "accessor_of h (prop_value (changed_property d p)) = None" using new by fastforce
      then show ?thesis using data_desc_changed [OF None, of h' d] False by (simp add: same)
    next
      case (Some a)
      then have "\<not> is_data_descriptor d" using dat by auto
      then show ?thesis
        using accessor_desc_changed [OF Some, of h' d] Some False by (simp add: same is_accessor_descriptor_def)
    qed
    then show ?thesis using h' load False by (simp add: apply_descriptor_def is_accessor_descriptor_def)
  next
    case True
    then obtain a where a: "accessor_of h (prop_value p) = Some a" using acc by blast
    have nd: "\<not> is_data_descriptor d" using d True by (auto simp: desc_ok_def)
    then have val: "prop_value (changed_property d p) = prop_value p"
      by (simp add: changed_property_bits is_data_descriptor_def)
    have step: "\<exists>h1. (if \<not> is_data_descriptor d \<and> b then set_accessor g (prop_value p) f else Some g) = Some h1 \<and>
        heap_inv cx h1 \<and> objects h1 = objects h \<and> accessor_of h1 (prop_value p) = Some (if b then f a0 else a0) \<and>
        (\<forall>obj' k' q. \<not> (obj' = obj \<and> k' = k) \<longrightarrow> hprops h obj' k' = Some q \<longrightarrow> property_desc h1 q = property_desc h q)"
      if g: "heap_inv cx g" "objects g = objects h" "accessor_of g (prop_value p) = Some a0"
        "\<forall>obj' k' q. \<not> (obj' = obj \<and> k' = k) \<longrightarrow> hprops h obj' k' = Some q \<longrightarrow> property_desc g q = property_desc h q"
      for g b f a0
    proof -
      have "hprops g = hprops h" using g(2) by (simp add: fun_eq_iff hprops_def)
      then show ?thesis using set_accessor_cell [OF g(1), of obj k p a0 f] p g nd by (cases b) auto
    qed
    obtain h1 where h1: "(if \<not> is_data_descriptor d \<and> pd_has_get d
          then set_accessor h (prop_value p) (\<lambda>a. a\<lparr>acc_get := pd_get d\<rparr>) else Some h) = Some h1"
        "heap_inv cx h1" "objects h1 = objects h"
        "accessor_of h1 (prop_value p) = Some (if pd_has_get d then a\<lparr>acc_get := pd_get d\<rparr> else a)"
        "\<forall>obj' k' q. \<not> (obj' = obj \<and> k' = k) \<longrightarrow> hprops h obj' k' = Some q \<longrightarrow> property_desc h1 q = property_desc h q"
      using step [OF inv refl a, where f = "\<lambda>a. a\<lparr>acc_get := pd_get d\<rparr>" and b = "pd_has_get d"] by auto
    obtain h2 where h2: "(if \<not> is_data_descriptor d \<and> pd_has_set d
          then set_accessor h1 (prop_value p) (\<lambda>a. a\<lparr>acc_set := pd_set d\<rparr>) else Some h1) = Some h2"
        "heap_inv cx h2" "objects h2 = objects h"
        "accessor_of h2 (prop_value p) = Some \<lparr>acc_get = (if pd_has_get d then pd_get d else acc_get a),
           acc_set = (if pd_has_set d then pd_set d else acc_set a)\<rparr>"
        "\<forall>obj' k' q. \<not> (obj' = obj \<and> k' = k) \<longrightarrow> hprops h obj' k' = Some q \<longrightarrow> property_desc h2 q = property_desc h q"
      using step [OF h1(2-5), where f = "\<lambda>a. a\<lparr>acc_set := pd_set d\<rparr>" and b = "pd_has_set d"] by auto
    have props2: "hprops h2 = hprops h" using h2(3) by (simp add: fun_eq_iff hprops_def)
    have "hprops h2 obj k = Some p" using props2 p by simp
    then obtain h' where h': "store_property cx h2 obj k (changed_property d p) = Some h'"
        "sets_property cx h2 h' obj k (changed_property d p)" "accessors h' = accessors h2"
      using store_property_sets [OF h2(2) _ k st, of obj ob] ob(1) h2(3) heap_invD(5) [OF h2(2)] val by metis
    have "accessor_of h' (prop_value p) = accessor_of h2 (prop_value p)" using h'(3) by (simp add: accessor_of_def)
    then have "property_desc h' (changed_property d p) = override d (property_desc h p)"
      using accessor_desc_changed [OF a _ nd] h2(4) by simp
    moreover have "sets_property cx h h' obj k (changed_property d p)"
      using h2(3,5) h'(2) by (intro sets_property_after [of h2 h]) auto
    ultimately show ?thesis using load h1(1) h2(1) h'(1) by (simp add: apply_descriptor_def)
  qed
qed

lemma undefined_value [simp]: "\<not> is_empty value_undefined" "accessor_of h value_undefined = None"
  by (auto simp: accessor_of_def type_tests box_simps NAN_TAG_def)

lemma not_generic: "\<not> is_generic_descriptor d \<Longrightarrow> \<not> is_data_descriptor d \<Longrightarrow> is_accessor_descriptor d"
  by (simp add: is_generic_descriptor_def)

text \<open>A new accessor cell stored as the value of a property.\<close>

lemma store_new_accessor:
  assumes inv: "heap_inv cx h" and fresh: "alloc_fresh cx" and ob: "objects h obj = Some ob" and k: "key_ok k"
    and new: "accessor_new cx h getter setter = Inr (v, h1)" and p: "plain_flags p" "prop_value p = v"
  shows "\<exists>h'. store_property cx h1 obj k p = Some h' \<and> sets_property cx h h' obj k p \<and>
           property_desc h' p = desc_accessor getter setter (prop_is_enumerable p) (prop_is_configurable p)"
proof -
  note c = accessor_new_cell [OF inv fresh new]
  have "hprops h1 = hprops h" using c(2) by (simp add: fun_eq_iff hprops_def)
  then have "prop_value q \<noteq> prop_value p" if "hprops h1 obj' k' = Some q" for obj' k' q
    using c(5) that p(2) by metis
  moreover have "storable p" using p c(4) by (simp add: storable_def)
  ultimately obtain h' where h': "store_property cx h1 obj k p = Some h'" "sets_property cx h1 h' obj k p"
      "accessors h' = accessors h1"
    using store_property_sets [OF c(1) _ k, of obj ob p] ob c(2) by metis
  have "accessor_of h' v = accessor_of h1 v" using h'(3) by (simp add: accessor_of_def)
  then have "property_desc h' p = desc_accessor getter setter (prop_is_enumerable p) (prop_is_configurable p)"
    using c(3) p(2) by (simp add: property_desc_def)
  moreover have "sets_property cx h h' obj k p" using c(2,6) h'(2) by (intro sets_property_after [of h1 h]) auto
  ultimately show ?thesis using h'(1) by blast
qed

lemma create_property_sets:
  assumes inv: "heap_inv cx h" and fresh: "alloc_fresh cx" and ob: "objects h obj = Some ob" and k: "key_ok k"
    and d: "desc_ok h d"
  shows "create_property cx h obj k d = Some (Inl Alloc_Error) \<and> cx_alloc cx h = None \<and> is_accessor_descriptor d \<or>
         (\<exists>h' p. create_property cx h obj k d = Some (Inr (True, h')) \<and> sets_property cx h h' obj k p \<and>
            property_desc h' p = resulting_desc d None)"
proof (cases "is_accessor_descriptor d")
  case True
  let ?e = "unwrap_or_false (pd_is_enumerable d)" and ?c = "unwrap_or_false (pd_is_configurable d)"
  have nd: "pd_value d = None" "pd_is_writable d = None"
    using d True by (auto simp: desc_ok_def is_data_descriptor_def)
  show ?thesis
  proof (cases "accessor_new cx h (pd_get d) (pd_set d)")
    case (Inl e)
    then show ?thesis using True by (auto simp: create_property_def accessor_new_def Let_def split: option.splits)
  next
    case (Inr r)
    obtain v h1 where r: "r = (v, h1)" by (cases r)
    let ?p = "property_accessor v ?e ?c"
    obtain h' where h': "store_property cx h1 obj k ?p = Some h'" "sets_property cx h h' obj k ?p"
        "property_desc h' ?p = desc_accessor (pd_get d) (pd_set d) (prop_is_enumerable ?p) (prop_is_configurable ?p)"
      using store_new_accessor [OF inv fresh ob k, of "pd_get d" "pd_set d" v h1 ?p] Inr r by (auto simp: prop_simps)
    have "property_desc h' ?p = resulting_desc d None"
      using True d nd unfolding h'(3)
      by (auto simp: resulting_desc_def override_def default_desc_def or_else_def desc_accessor_def desc_ok_def
          unwrap_or_false_def prop_simps split: option.split)
    then show ?thesis using h' True Inr r by (auto simp: create_property_def Let_def)
  qed
next
  case False
  let ?v = "case pd_value d of None \<Rightarrow> value_undefined | Some v \<Rightarrow> v"
  let ?p = "property_data ?v (unwrap_or_false (pd_is_writable d)) (unwrap_or_false (pd_is_enumerable d))
    (unwrap_or_false (pd_is_configurable d))"
  have v: "\<not> is_empty ?v" "accessor_of h ?v = None" using d by (auto simp: desc_ok_def split: option.split)
  then have "storable ?p" by (simp add: storable_def prop_simps)
  then obtain h' where h': "store_property cx h obj k ?p = Some h'" "sets_property cx h h' obj k ?p" "accessors h' = accessors h"
    using store_property_sets [OF inv ob k, of ?p] v(2) by (auto simp: prop_simps)
  have "accessor_of h' ?v = None" using v(2) by (simp add: accessor_of_cong [OF h'(3)])
  then have "property_desc h' ?p = desc_data ?v (unwrap_or_false (pd_is_writable d)) (unwrap_or_false (pd_is_enumerable d))
      (unwrap_or_false (pd_is_configurable d))"
    by (simp add: property_desc_def prop_simps)
  also have "\<dots> = resulting_desc d None"
    using False by (auto simp: resulting_desc_def override_def default_desc_def or_else_def desc_data_def
        is_accessor_descriptor_def unwrap_or_false_def split: option.split)
  finally show ?thesis using h'(1,2) False by (auto simp: create_property_def Let_def)
qed

lemma convert_property_sets:
  assumes inv: "heap_inv cx h" and fresh: "alloc_fresh cx" and p: "hprops h obj k = Some p" and k: "key_ok k"
    and d: "desc_ok h d" "\<not> is_generic_descriptor d" "is_data_descriptor (property_desc h p) \<noteq> is_data_descriptor d"
  shows "convert_property cx h obj k d = Some (Inl Alloc_Error) \<and> cx_alloc cx h = None \<and> is_accessor_descriptor d \<or>
         (\<exists>h' q. convert_property cx h obj k d = Some (Inr h') \<and> sets_property cx h h' obj k q \<and>
            property_desc h' q = converted d (property_desc h p) \<and> desc_ok h' d)"
proof -
  obtain ob where ob: "objects h obj = Some ob" "obj_props ob k = Some p"
    using p by (auto simp: hprops_def split: option.splits)
  have load: "load_property cx h obj k = Some p"
    using ob get_property_props [OF heap_invD(1) [OF inv ob(1)]] by (simp add: load_property_def)
  have st: "storable p" by (rule heap_invD(3) [OF inv p])
  show ?thesis
  proof (cases "is_data_descriptor d")
    case True
    let ?q = "set_is_writable False (prop_set_value value_undefined p)"
    have "storable ?q" using st by (simp add: storable_def plain_flags_set prop_simps)
    then obtain h' where h': "store_property cx h obj k ?q = Some h'" "sets_property cx h h' obj k ?q" "accessors h' = accessors h"
      using store_property_sets [OF inv ob(1) k, of ?q] by (auto simp: prop_simps)
    have acc: "accessor_of h' v = accessor_of h v" for v using h'(3) by (simp add: accessor_of_def)
    have "property_desc h' ?q = desc_data value_undefined False (prop_is_enumerable p) (prop_is_configurable p)"
      by (simp add: property_desc_def prop_simps)
    then have "property_desc h' ?q = converted d (property_desc h p)" using True d by (auto simp: converted_def)
    moreover have "desc_ok h' d" using d(1) by (simp add: desc_ok_def acc)
    ultimately show ?thesis using h'(1,2) load True by (auto simp: convert_property_def)
  next
    case False
    have acc: "is_accessor_descriptor d" using False d(2) not_generic by blast
    show ?thesis
    proof (cases "accessor_new cx h None None")
      case (Inl e)
      then show ?thesis using False load acc by (auto simp: convert_property_def accessor_new_def split: option.splits)
    next
      case (Inr r)
      obtain v h1 where r: "r = (v, h1)" by (cases r)
      let ?q = "prop_set_value v p"
      obtain h' where h': "store_property cx h1 obj k ?q = Some h'" "sets_property cx h h' obj k ?q"
          "property_desc h' ?q = desc_accessor None None (prop_is_enumerable ?q) (prop_is_configurable ?q)"
        using store_new_accessor [OF inv fresh ob(1) k, of None None v h1 ?q] Inr r st
        by (auto simp: storable_def plain_flags_set prop_simps)
      then have "property_desc h' ?q = converted d (property_desc h p)"
        using False d by (simp add: converted_def prop_simps)
      moreover have "desc_ok h' d" using d(1) False by (simp add: desc_ok_def is_data_descriptor_def)
      ultimately show ?thesis using h'(1,2) load False Inr r by (auto simp: convert_property_def)
    qed
  qed
qed

lemma override_no_fields: "has_no_fields d \<Longrightarrow> override d c = c"
  by (simp add: has_no_fields_def override_def or_else_def)

lemma accessor_differs_iff: "accessor_differs has new current \<longleftrightarrow> has \<and> new \<noteq> current"
  by (cases new; cases current) (simp_all add: accessor_differs_def)

lemma override_generic_locked:
  assumes "is_generic_descriptor d" "compatible deref d (property_desc h p)" "locked (property_desc h p)" 
  shows "override d (property_desc h p) = property_desc h p"
proof -
  have d: "pd_value d = None" "pd_is_writable d = None" "\<not> pd_has_get d" "\<not> pd_has_set d"
    using assms(1) by (auto simp: is_generic_descriptor_def is_data_descriptor_def is_accessor_descriptor_def)
  have "\<not> prop_is_configurable p" using assms(3) by (simp add: locked_def)
  then have "or_else (pd_is_enumerable d) (Some (prop_is_enumerable p)) = Some (prop_is_enumerable p)"
      "or_else (pd_is_configurable d) (Some (prop_is_configurable p)) = Some (prop_is_configurable p)"
    using assms(2) by (auto simp: compatible_def or_else_def split: option.split)
  then show ?thesis
    using d by (auto simp: override_def property_desc_def desc_data_def desc_accessor_def or_else_def split: option.split)
qed

lemma locked_desc:
  "locked (property_desc h p) \<longleftrightarrow>
     \<not> prop_is_configurable p \<and> \<not> (accessor_of h (prop_value p) = None \<and> prop_is_writable p)"
  by (auto simp: locked_def data_desc_simps)

definition define_allowed ::
  "(ptr \<Rightarrow> heap_contents) \<Rightarrow> bool \<Rightarrow> property_descriptor \<Rightarrow> property_descriptor option \<Rightarrow> bool" where
  "define_allowed deref ext d cur = (case cur of None \<Rightarrow> ext | Some c \<Rightarrow> compatible deref d c)"

text \<open>The outcome of \<open>validate_and_apply_property_descriptor\<close> for an object's property.\<close>

definition define_outcome ::
  "js_context \<Rightarrow> js_heap \<Rightarrow> ptr \<Rightarrow> property_key \<Rightarrow> bool \<Rightarrow> property_descriptor \<Rightarrow> property_descriptor option \<Rightarrow>
   (eval_error + bool \<times> js_heap) option \<Rightarrow> bool" where
  "define_outcome cx h obj k ok d cur r \<longleftrightarrow>
     r = Some (Inl Alloc_Error) \<and> cx_alloc cx h = None \<and> is_accessor_descriptor d \<and> ok \<or>
     (\<exists>h'. r = Some (Inr (ok, h')) \<and>
        (h' = h \<and> (ok \<longrightarrow> cur = Some (resulting_desc d cur)) \<or>
         ok \<and> (\<exists>p'. sets_property cx h h' obj k p' \<and> property_desc h' p' = resulting_desc d cur)))"

lemma apply_descriptor_outcome:
  assumes "heap_inv cx h" "hprops h obj k = Some p" "key_ok k" "desc_ok h d" "is_generic_descriptor d \<or>
      is_data_descriptor d = is_data_descriptor (property_desc h p)" "ok"
    "resulting_desc d cur = override d (property_desc h p)"
  shows "define_outcome cx h obj k ok d cur (apply_descriptor cx h (Some obj) k d)"
proof -
  have "is_accessor_descriptor d \<Longrightarrow> accessor_of h (prop_value p) \<noteq> None" "is_data_descriptor d \<Longrightarrow> accessor_of h (prop_value p) = None"
    using assms(4,5) by (auto simp: is_generic_descriptor_def desc_ok_def)
  from apply_descriptor_sets [OF assms(1-4) this] show ?thesis using assms(6,7) by (auto simp: define_outcome_def)
qed

lemma convert_apply_outcome:
  assumes inv: "heap_inv cx h" and fresh: "alloc_fresh cx" and p: "hprops h obj k = Some p" and k: "key_ok k"
    and d: "desc_ok h d" "\<not> is_generic_descriptor d" "is_data_descriptor (property_desc h p) \<noteq> is_data_descriptor d"
    and ok: "ok" "resulting_desc d cur = override d (converted d (property_desc h p))"
  shows "define_outcome cx h obj k ok d cur
           (convert_property cx h obj k d \<bind> (\<lambda>r. case r of Inl e \<Rightarrow> Some (Inl e) | Inr h \<Rightarrow> apply_descriptor cx h (Some obj) k d))"
proof -
  from convert_property_sets [OF inv fresh p k d] consider
      "convert_property cx h obj k d = Some (Inl Alloc_Error)" "cx_alloc cx h = None" "is_accessor_descriptor d"
    | h1 q where "convert_property cx h obj k d = Some (Inr h1)" "sets_property cx h h1 obj k q"
        "property_desc h1 q = converted d (property_desc h p)" "desc_ok h1 d" by (elim disjE exE conjE) metis+
  then show ?thesis
  proof cases
    case 1
    then show ?thesis using ok by (simp add: define_outcome_def)
  next
    case 2
    have q: "hprops h1 obj k = Some q" using sets_property_hprops [OF 2(2)] by simp
    have inv1: "heap_inv cx h1" using 2(2) by (simp add: sets_property_def)
    have kind: "is_data_descriptor d = is_data_descriptor (converted d (property_desc h p))"
      using d by (auto simp: converted_def desc_data_def desc_accessor_def is_data_descriptor_def)
    then have "is_data_descriptor d \<longleftrightarrow> accessor_of h1 (prop_value q) = None" using 2(3) property_desc_simps(3) [of h1 q] by simp
    then obtain h2 where h2: "apply_descriptor cx h1 (Some obj) k d = Some (Inr (True, h2))"
        "sets_property cx h1 h2 obj k (changed_property d q)"
        "property_desc h2 (changed_property d q) = override d (property_desc h1 q)"
      using apply_descriptor_sets [OF inv1 q k 2(4)] 2(4) by (auto simp: desc_ok_def)
    then show ?thesis
      using 2 ok sets_property_trans [OF 2(2) h2(2)] by (auto simp: define_outcome_def)
  qed
qed

lemma validate_present:
  assumes inv: "heap_inv cx h" and fresh: "alloc_fresh cx" and p: "hprops h obj k = Some p" and k: "key_ok k"
    and d: "desc_ok h d"
  shows "define_outcome cx h obj k (compatible (cx_deref cx) d (property_desc h p)) d (Some (property_desc h p))
           (validate_and_apply_property_descriptor cx h (Some obj) k ext d (Some (property_desc h p)))"
proof -
  let ?c = "property_desc h p"
  let ?ok = "compatible (cx_deref cx) d ?c"
  let ?r = "validate_and_apply_property_descriptor cx h (Some obj) k ext d (Some ?c)"
  have res: "resulting_desc d (Some ?c) = (if locked ?c then ?c else override d (converted d ?c))"
    by (simp add: resulting_desc_def)
  have unchanged: ?thesis if "?r = Some (Inr (?ok, h))" "?ok \<Longrightarrow> resulting_desc d (Some ?c) = ?c"
    using that by (auto simp: define_outcome_def)
  note v = validate_and_apply_property_descriptor_def
  consider (empty) "has_no_fields d"
    | (reject) "\<not> has_no_fields d" "\<not> prop_is_configurable p"
        "pd_is_configurable d = Some True \<or> pd_is_enumerable d = Some (\<not> prop_is_enumerable p)"
    | (generic) "\<not> has_no_fields d" "is_generic_descriptor d"
        "prop_is_configurable p \<or> pd_is_configurable d \<noteq> Some True \<and> pd_is_enumerable d \<noteq> Some (\<not> prop_is_enumerable p)"
    | (convert) "\<not> has_no_fields d" "\<not> is_generic_descriptor d" "is_data_descriptor ?c \<noteq> is_data_descriptor d"
        "prop_is_configurable p \<or> pd_is_configurable d \<noteq> Some True \<and> pd_is_enumerable d \<noteq> Some (\<not> prop_is_enumerable p)"
    | (same) "\<not> has_no_fields d" "\<not> is_generic_descriptor d" "is_data_descriptor ?c = is_data_descriptor d"
        "prop_is_configurable p \<or> pd_is_configurable d \<noteq> Some True \<and> pd_is_enumerable d \<noteq> Some (\<not> prop_is_enumerable p)"
    by blast
  then show ?thesis
  proof cases
    case empty
    then have g: "is_generic_descriptor d"
      by (simp add: has_no_fields_def is_generic_descriptor_def is_data_descriptor_def is_accessor_descriptor_def)
    then have "?ok" using empty by (simp add: compatible_def has_no_fields_def)
    then show ?thesis
      using empty g by (intro unchanged) (simp_all add: v res converted_def override_no_fields)
  next
    case reject
    have "\<not> ?ok" using reject by (auto simp: compatible_def)
    then show ?thesis using reject by (intro unchanged) (auto simp: v)
  next
    case generic
    have ok: "?ok" using generic by (auto simp: compatible_def)
    have "resulting_desc d (Some ?c) = override d ?c"
      using generic ok override_generic_locked [OF generic(2)] by (simp add: res converted_def)
    moreover have "?r = apply_descriptor cx h (Some obj) k d" using generic by (auto simp: v split: option.splits)
    ultimately show ?thesis using apply_descriptor_outcome [OF inv p k d _ ok] generic(2) by simp
  next
    case convert
    show ?thesis
    proof (cases "prop_is_configurable p")
      case True
      then have "?ok" "\<not> locked ?c" by (simp_all add: compatible_def locked_def)
      moreover have "?r = convert_property cx h obj k d \<bind>
          (\<lambda>r. case r of Inl e \<Rightarrow> Some (Inl e) | Inr h \<Rightarrow> apply_descriptor cx h (Some obj) k d)"
        using convert True by (simp add: v)
      ultimately show ?thesis using convert_apply_outcome [OF inv fresh p k d convert(2,3)] by (simp add: res)
    next
      case False
      have "\<not> ?ok" using convert False by (auto simp: compatible_def)
      then show ?thesis using convert False by (intro unchanged) (auto simp: v split: option.splits)
    qed
  next
    case same
    show ?thesis
    proof (cases "locked ?c")
      case True
      then have "?r = Some (Inr (?ok, h))"
        using same by (auto simp: v locked_desc compatible_def data_desc_simps accessor_differs_iff split: option.splits)
      then show ?thesis using True by (intro unchanged) (simp_all add: res)
    next
      case False
      have ok: "?ok" using same False by (auto simp: compatible_def locked_desc data_desc_simps)
      have "?r = apply_descriptor cx h (Some obj) k d"
        using same False by (auto simp: v locked_desc data_desc_simps split: option.splits)
      moreover have "resulting_desc d (Some ?c) = override d ?c" using False same by (simp add: res converted_def)
      ultimately show ?thesis using apply_descriptor_outcome [OF inv p k d _ ok] same by simp
    qed
  qed
qed

subsection \<open>What a program sees of a heap\<close>

definition is_length_key :: "js_context \<Rightarrow> object_value \<Rightarrow> property_key \<Rightarrow> bool" where
  "is_length_key cx ob k \<longleftrightarrow> (\<exists>w. object_kind ob = KArray w) \<and> k = NamedKey (cx_length_name cx)"

definition length_desc :: "object_value \<Rightarrow> property_descriptor" where
  "length_desc ob = desc_data (value_from_u32 (of_nat (array_properties_length ob))) (object_kind ob = KArray True) False False"

definition own :: "js_context \<Rightarrow> js_heap \<Rightarrow> ptr \<Rightarrow> property_key \<Rightarrow> property_descriptor option" where
  "own cx h obj k =
     (case objects h obj of None \<Rightarrow> None
      | Some ob \<Rightarrow> if is_length_key cx ob k then Some (length_desc ob) else map_option (property_desc h) (obj_props ob k))"

lemma get_own_property_own:
  assumes inv: "heap_inv cx h" and ob: "objects h obj = Some ob"
  shows "get_own_property cx h obj k = Some (own cx h obj k)"
  using ob get_property_props [OF heap_invD(1) [OF inv ob]]
  by (auto simp: get_own_property_def array_get_own_property_def ordinary_get_own_property_def own_def is_length_key_def
      length_desc_def split: object_kind.split)

lemma own_not_length:
  "objects h obj = Some ob \<Longrightarrow> \<not> is_length_key cx ob k \<Longrightarrow> own cx h obj k = map_option (property_desc h) (hprops h obj k)"
  by (simp add: own_def hprops_def)

lemma sets_property_own:
  assumes "sets_property cx h h' obj k p" "objects h obj = Some ob" "\<not> is_length_key cx ob k"
  shows "own cx h' obj k = Some (property_desc h' p)"
    "\<not> (obj' = obj \<and> (k' = k \<or> is_length_key cx ob k')) \<Longrightarrow> own cx h' obj' k' = own cx h obj' k'"
proof -
  obtain ob' where ob': "objects h' = (objects h)(obj \<mapsto> ob')" "same_header ob ob'" "obj_props ob' = (obj_props ob)(k \<mapsto> p)"
    using assms(1,2) unfolding sets_property_def by auto
  have len: "is_length_key cx ob' x \<longleftrightarrow> is_length_key cx ob x" for x
    using ob'(2) by (simp add: same_header_def is_length_key_def)
  show "own cx h' obj k = Some (property_desc h' p)" using ob' assms(3) by (simp add: own_def len)
  assume other: "\<not> (obj' = obj \<and> (k' = k \<or> is_length_key cx ob k'))"
  have desc: "property_desc h' q = property_desc h q" if "hprops h obj' k' = Some q" for q
    using assms(1) other that unfolding sets_property_def by blast
  show "own cx h' obj' k' = own cx h obj' k'"
  proof (cases "obj' = obj")
    case True
    then have "\<not> is_length_key cx ob k'" "k' \<noteq> k" using other by auto
    then show ?thesis
      using True ob' assms(2) desc by (cases "obj_props ob k'") (simp_all add: own_def len hprops_def)
  next
    case False
    then have "objects h' obj' = objects h obj'" using ob'(1) by simp
    then show ?thesis
      using desc by (auto simp: own_def hprops_def split: option.splits intro!: option.map_cong0)
  qed
qed

text \<open>Adding an index past the end of an array with a fixed length.\<close>

definition beyond_fixed_length :: "object_value \<Rightarrow> property_key \<Rightarrow> bool" where
  "beyond_fixed_length ob k \<longleftrightarrow>
     object_kind ob = KArray False \<and> (\<exists>i. k = ArrayIndex i \<and> array_properties_length ob \<le> unat i)"

definition may_define :: "js_context \<Rightarrow> js_heap \<Rightarrow> ptr \<Rightarrow> object_value \<Rightarrow> property_key \<Rightarrow> property_descriptor \<Rightarrow> bool" where
  "may_define cx h obj ob k d \<longleftrightarrow>
     \<not> beyond_fixed_length ob k \<and> define_allowed (cx_deref cx) (is_extensible_field ob) d (own cx h obj k)"

lemma ordinary_define_outcome:
  assumes inv: "heap_inv cx h" and fresh: "alloc_fresh cx" and ob: "objects h obj = Some ob"
    and k: "\<not> is_length_key cx ob k" "key_ok k" and d: "desc_ok h d"
  shows "define_outcome cx h obj k (define_allowed (cx_deref cx) (is_extensible_field ob) d (own cx h obj k)) d (own cx h obj k)
           (ordinary_define_own_property cx h obj k d)"
proof -
  have r: "ordinary_define_own_property cx h obj k d =
      validate_and_apply_property_descriptor cx h (Some obj) k (is_extensible_field ob) d (own cx h obj k)"
    using ob by (simp add: ordinary_define_own_property_def get_own_property_own [OF inv ob] is_extensible_def)
  show ?thesis
  proof (cases "hprops h obj k")
    case None
    then have "own cx h obj k = None" using own_not_length [OF ob k(1)] by simp
    then show ?thesis
      using create_property_sets [OF inv fresh ob k(2) d] unfolding r
      by (cases "is_extensible_field ob")
        (auto simp: define_outcome_def validate_and_apply_property_descriptor_def define_allowed_def)
  next
    case (Some p)
    then have "own cx h obj k = Some (property_desc h p)" using own_not_length [OF ob k(1)] by simp
    then show ?thesis
      using validate_present [OF inv fresh Some k(2) d] unfolding r by (simp add: define_allowed_def)
  qed
qed

lemma define_outcome_reject: "define_outcome cx h obj k False d cur (Some (Inr (False, h)))"
  by (simp add: define_outcome_def)

lemma define_own_property_outcome:
  assumes inv: "heap_inv cx h" and fresh: "alloc_fresh cx" and ob: "objects h obj = Some ob"
    and k: "\<not> is_length_key cx ob k" "key_ok k" and d: "desc_ok h d"
  shows "define_outcome cx h obj k (may_define cx h obj ob k d) d (own cx h obj k) (define_own_property cx h obj k d)"
proof (cases "beyond_fixed_length ob k")
  case True
  then have "define_own_property cx h obj k d = Some (Inr (False, h))"
    using ob by (auto simp: define_own_property_def array_define_own_property_def beyond_fixed_length_def)
  then show ?thesis using True by (simp add: may_define_def define_outcome_reject)
next
  case False
  then have "define_own_property cx h obj k d = ordinary_define_own_property cx h obj k d"
    using ob k(1) by (auto simp: define_own_property_def array_define_own_property_def beyond_fixed_length_def is_length_key_def
        split: object_kind.split property_key.split)
  then show ?thesis using ordinary_define_outcome [OF assms] False by (simp add: may_define_def)
qed


text \<open>A heap with one new object, and an allocator with one cell.\<close>

lemma object_new_inv: "obj_inv hash (object_new kind proto)" "obj_clean (object_new kind proto)" "obj_props (object_new kind proto) k = None"
proof -
  show "obj_props (object_new kind proto) k = None"
    by (simp add: obj_props_def object_new_def ap_props_def dense_props_def dense_new_def split: property_key.split)
  show "obj_inv hash (object_new kind proto)" "obj_clean (object_new kind proto)"
    using im_inv_new
    by (auto simp: obj_inv_def obj_clean_def object_new_def ap_defs dense_inv_def dense_new_def d_capacity_def)
qed

definition demo_cx :: js_context where
  "demo_cx =
     \<lparr>cx_hash = (\<lambda>k. case k of ArrayIndex i \<Rightarrow> unat i | NamedKey p \<Rightarrow> unat p),
      cx_alloc = (\<lambda>h. if is_pointer 64 \<and> accessors h 64 = None \<and> (\<forall>obj k q. hprops h obj k = Some q \<longrightarrow> prop_value q \<noteq> 64)
                       then Some 64 else None),
      cx_deref = (\<lambda>p. OtherItem), cx_length_name = 16, cx_is_symbol = (\<lambda>p. False),
      cx_pointer_to_number = (\<lambda>v. Inl Type_Error), cx_call = (\<lambda>h f this args. Some (Inr (value_undefined, h)))\<rparr>"

definition demo_heap :: js_heap where
  "demo_heap = object_create \<lparr>objects = Map.empty, accessors = Map.empty\<rparr> 32 KOrdinary None"

lemma demo_simps:
  "alloc_fresh demo_cx" "heap_inv demo_cx demo_heap" "objects demo_heap 32 = Some (object_new KOrdinary None)"
  "\<not> is_length_key demo_cx (object_new KOrdinary None) k" "own demo_cx demo_heap 32 k = None"
proof -
  have obj: "objects demo_heap = [32 \<mapsto> object_new KOrdinary None]" "accessors demo_heap = Map.empty"
    by (simp_all add: demo_heap_def object_create_def)
  show "alloc_fresh demo_cx" by (auto simp: alloc_fresh_def demo_cx_def split: if_splits)
  show "heap_inv demo_cx demo_heap"
    by (auto simp: heap_inv_def hprops_def obj object_new_inv split: option.splits if_splits)
  show "objects demo_heap 32 = Some (object_new KOrdinary None)" by (simp add: obj)
  show "\<not> is_length_key demo_cx (object_new KOrdinary None) k" by (simp add: is_length_key_def object_new_def)
  then show "own demo_cx demo_heap 32 k = None" by (simp add: own_def obj object_new_inv)
qed


end
