(* ===== verification/Essential_Invariants.thy ===== *)
theory Essential_Invariants
  imports Object_Invariants
begin

section \<open>The invariants of the internal methods\<close>

text \<open>
  What ECMAScript requires of the internal methods of every object, shown for the model of
  ordinary objects and arrays over any sequence of operations: a property that is not configurable
  stays, with its kind, its enumerability, its accessors and, unless it is writable, its value; an
  object that is not extensible gets no new property and keeps its prototype; prototype chains have
  no cycles, so that reading through them ends; freezing an object freezes it.
\<close>

subsection \<open>Steps of a program on its objects\<close>

text \<open>
  The operations that change objects, in any order and on any objects. Outside are the two
  sequences that break the objects: deleting an index of a sparse object, after which the hash map
  may store a property twice, and shortening an array with several properties that are not
  configurable.
\<close>

definition length_safe :: "object_value \<Rightarrow> bool" where
  "length_safe ob \<longleftrightarrow> (\<exists>i. fixed_from 0 (ap_props (array_properties ob)) \<subseteq> {i})"

inductive heap_step :: "js_context \<Rightarrow> js_heap \<Rightarrow> js_heap \<Rightarrow> bool" for cx where
  create: "objects h obj = None \<Longrightarrow> (\<And>p. proto = Some p \<Longrightarrow> objects h p \<noteq> None) \<Longrightarrow> heap_step cx h (object_create h obj kind proto)"
| define_prop: "\<lbrakk>objects h obj = Some ob; key_ok k; desc_ok h d; is_length_key cx ob k \<longrightarrow> pd_value d = None \<or> length_safe ob;
     define_own_property cx h obj k d = Some (Inr (b, h'))\<rbrakk> \<Longrightarrow> heap_step cx h h'"
| delete_prop: "\<lbrakk>objects h obj = Some ob; key_light ob k; js_delete cx h obj k = Some (b, h')\<rbrakk> \<Longrightarrow> heap_step cx h h'"
| prevent: "prevent_extensions h obj = Some (b, h') \<Longrightarrow> heap_step cx h h'"
| set_proto: "\<lbrakk>\<And>p. proto = Some p \<Longrightarrow> objects h p \<noteq> None; set_prototype_of h obj proto = Some (b, h')\<rbrakk> \<Longrightarrow> heap_step cx h h'"

text \<open>What may become of a property, and of an object.\<close>

definition prop_kept :: "property_descriptor \<Rightarrow> property_descriptor \<Rightarrow> bool" where
  "prop_kept c c' \<longleftrightarrow>
     (locked c \<longrightarrow> c' = c) \<and>
     (\<not> desc_is_configurable c \<longrightarrow>
        \<not> desc_is_configurable c' \<and> desc_is_enumerable c' = desc_is_enumerable c \<and>
        is_data_descriptor c' = is_data_descriptor c)"

definition object_kept :: "js_context \<Rightarrow> js_heap \<Rightarrow> js_heap \<Rightarrow> ptr \<Rightarrow> bool" where
  "object_kept cx h h' obj \<longleftrightarrow>
     (\<forall>ob. objects h obj = Some ob \<longrightarrow>
        (\<exists>ob'. objects h' obj = Some ob' \<and>
           (\<forall>k c. own cx h obj k = Some c \<longrightarrow> \<not> desc_is_configurable c \<longrightarrow>
              (\<exists>c'. own cx h' obj k = Some c' \<and> prop_kept c c')) \<and>
           (\<not> is_extensible_field ob \<longrightarrow> \<not> is_extensible_field ob' \<and> prototype ob' = prototype ob \<and>
              (\<forall>k. own cx h obj k = None \<longrightarrow> own cx h' obj k = None))))"

lemma prop_kept_refl [simp]: "prop_kept c c"
  by (simp add: prop_kept_def)

lemma prop_kept_trans: "prop_kept a b \<Longrightarrow> prop_kept b c \<Longrightarrow> \<not> desc_is_configurable a \<Longrightarrow> prop_kept a c"
  by (auto simp: prop_kept_def)

lemma object_kept_trans:
  assumes "object_kept cx h h1 obj" "object_kept cx h1 h2 obj"
  shows "object_kept cx h h2 obj"
  unfolding object_kept_def
proof (intro allI impI)
  fix ob
  assume "objects h obj = Some ob"
  then obtain ob1 where 1: "objects h1 obj = Some ob1"
      "\<And>k c. own cx h obj k = Some c \<Longrightarrow> \<not> desc_is_configurable c \<Longrightarrow> \<exists>c'. own cx h1 obj k = Some c' \<and> prop_kept c c'"
      "\<not> is_extensible_field ob \<Longrightarrow> \<not> is_extensible_field ob1 \<and> prototype ob1 = prototype ob \<and>
        (\<forall>k. own cx h obj k = None \<longrightarrow> own cx h1 obj k = None)"
    using assms(1) unfolding object_kept_def by blast
  obtain ob2 where 2: "objects h2 obj = Some ob2"
      "\<And>k c. own cx h1 obj k = Some c \<Longrightarrow> \<not> desc_is_configurable c \<Longrightarrow> \<exists>c'. own cx h2 obj k = Some c' \<and> prop_kept c c'"
      "\<not> is_extensible_field ob1 \<Longrightarrow> \<not> is_extensible_field ob2 \<and> prototype ob2 = prototype ob1 \<and>
        (\<forall>k. own cx h1 obj k = None \<longrightarrow> own cx h2 obj k = None)"
    using assms(2) 1(1) unfolding object_kept_def by blast
  have "\<exists>c2. own cx h2 obj k = Some c2 \<and> prop_kept c c2" if prem: "own cx h obj k = Some c" "\<not> desc_is_configurable c" for k c
  proof -
    obtain c1 where c1: "own cx h1 obj k = Some c1" "prop_kept c c1" using 1(2) [OF prem] by blast
    then have "\<not> desc_is_configurable c1" using prem(2) by (simp add: prop_kept_def)
    then show ?thesis using 2(2) [OF c1(1)] c1(2) prem(2) prop_kept_trans by blast
  qed
  then show "\<exists>ob'. objects h2 obj = Some ob' \<and>
      (\<forall>k c. own cx h obj k = Some c \<longrightarrow> \<not> desc_is_configurable c \<longrightarrow> (\<exists>c'. own cx h2 obj k = Some c' \<and> prop_kept c c')) \<and>
      (\<not> is_extensible_field ob \<longrightarrow> \<not> is_extensible_field ob' \<and> prototype ob' = prototype ob \<and>
         (\<forall>k. own cx h obj k = None \<longrightarrow> own cx h2 obj k = None))"
    using 1(3) 2(1,3) by auto
qed

subsection \<open>Each operation keeps the invariants\<close>

lemma object_kept_refl [simp]: "object_kept cx h h obj"
  by (auto simp: object_kept_def)

lemma object_kept_same:
  assumes "objects h' obj = objects h obj" "\<And>k. own cx h' obj k = own cx h obj k"
  shows "object_kept cx h h' obj"
  using assms by (auto simp: object_kept_def)

text \<open>An update of one object that adds no property.\<close>

lemma heap_inv_shrink:
  assumes inv: "heap_inv cx h" and ob: "objects h obj = Some ob"
    and ob': "obj_inv (cx_hash cx) ob'" "obj_clean ob'" "\<And>k p. obj_props ob' k = Some p \<Longrightarrow> obj_props ob k = Some p"
  shows "heap_inv cx (h\<lparr>objects := (objects h)(obj \<mapsto> ob')\<rparr>)"
proof -
  let ?h = "h\<lparr>objects := (objects h)(obj \<mapsto> ob')\<rparr>"
  have acc: "accessor_of ?h v = accessor_of h v" for v by (simp add: accessor_of_def)
  have props: "hprops h x k = Some p" if "hprops ?h x k = Some p" for x k p
    using that ob ob'(3) by (auto simp: hprops_def split: if_splits)
  show ?thesis
    unfolding heap_inv_def acc
  proof (intro conjI allI impI)
    show "obj_inv (cx_hash cx) y" if "objects ?h x = Some y" for x y
      using that ob'(1) heap_invD(1) [OF inv] by (auto split: if_splits)
    show "obj_clean y" if "objects ?h x = Some y" for x y
      using that ob'(2) heap_invD(2) [OF inv] by (auto split: if_splits)
    show "storable q" if "hprops ?h x k = Some q" for x k q using heap_invD(3) [OF inv props [OF that]] .
    show "is_pointer a" if "accessors ?h a \<noteq> None" for a using that heap_invD(4) [OF inv] by simp
    fix x k p y l q
    assume *: "hprops ?h x k = Some p" "hprops ?h y l = Some q" "accessor_of h (prop_value p) \<noteq> None" "prop_value q = prop_value p"
    have "y = x \<and> l = k" using heap_invD(5) [OF inv props [OF *(1)] props [OF *(2)]] *(3,4) by blast
    then show "y = x" "l = k" by simp_all
  qed
qed

lemma own_upd:
  "own cx (h\<lparr>objects := (objects h)(obj \<mapsto> ob')\<rparr>) x k =
     (if x = obj then (if is_length_key cx ob' k then Some (length_desc ob') else map_option (property_desc h) (obj_props ob' k))
      else own cx h x k)"
proof -
  let ?h = "h\<lparr>objects := (objects h)(obj \<mapsto> ob')\<rparr>"
  have "property_desc ?h = property_desc h" by (simp add: fun_eq_iff property_desc_def accessor_of_def)
  then show ?thesis by (cases "objects h x") (simp_all add: own_def)
qed

lemma own_obj:
  "objects h obj = Some ob \<Longrightarrow>
     own cx h obj k = (if is_length_key cx ob k then Some (length_desc ob) else map_option (property_desc h) (obj_props ob k))"
  by (simp add: own_def)

lemma object_kept_upd:
  assumes ob: "objects h obj = Some ob"
    and kept: "\<And>k c. own cx h obj k = Some c \<Longrightarrow> \<not> desc_is_configurable c \<Longrightarrow>
      \<exists>c'. own cx (h\<lparr>objects := (objects h)(obj \<mapsto> ob')\<rparr>) obj k = Some c' \<and> prop_kept c c'"
    and ext: "\<not> is_extensible_field ob \<Longrightarrow> \<not> is_extensible_field ob' \<and> prototype ob' = prototype ob \<and>
      (\<forall>k. own cx h obj k = None \<longrightarrow> own cx (h\<lparr>objects := (objects h)(obj \<mapsto> ob')\<rparr>) obj k = None)"
  shows "object_kept cx h (h\<lparr>objects := (objects h)(obj \<mapsto> ob')\<rparr>) x"
proof (cases "x = obj")
  case True
  then show ?thesis using assms by (auto simp: object_kept_def)
next
  case False
  then show ?thesis by (intro object_kept_same) (simp_all add: own_upd)
qed

lemma create_kept:
  assumes inv: "heap_inv cx h" and new: "objects h obj = None"
  shows "heap_inv cx (object_create h obj kind proto)" "object_kept cx h (object_create h obj kind proto) x"
proof -
  let ?h = "object_create h obj kind proto"
  have o: "objects ?h = (objects h)(obj \<mapsto> object_new kind proto)" and a: "accessors ?h = accessors h"
    by (simp_all add: object_create_def)
  have acc: "accessor_of ?h v = accessor_of h v" for v by (simp add: accessor_of_def a)
  have props: "hprops ?h y k = hprops h y k" for y k using new by (simp add: hprops_def o object_new_inv)
  show "heap_inv cx ?h"
    unfolding heap_inv_def props acc a o using heap_invD [OF inv] by (auto simp: object_new_inv)
  show "object_kept cx h ?h x"
  proof (cases "x = obj")
    case False
    have "property_desc ?h = property_desc h" by (simp add: fun_eq_iff property_desc_def acc)
    then have "own cx ?h x k = own cx h x k" for k using False by (cases "objects h x") (simp_all add: own_def o)
    then show ?thesis using False by (intro object_kept_same) (simp_all add: o)
  qed (simp add: object_kept_def new)
qed

lemma resulting_kept:
  assumes "compatible deref d c" "\<not> desc_is_configurable c" "c = property_desc h p"
  shows "prop_kept c (resulting_desc d (Some c))"
proof (cases "locked c")
  case True
  then show ?thesis by (simp add: resulting_desc_def)
next
  case False
  then have data: "is_data_descriptor c" using assms(2) by (simp add: locked_def)
  then have conv: "converted d c = c" using assms(1,2) by (auto simp: converted_def compatible_def)
  have "pd_is_enumerable (property_desc h p) = Some (prop_is_enumerable p)"
    by (simp add: property_desc_def desc_data_def desc_accessor_def split: option.split)
  then have c: "pd_is_configurable c = Some False" "pd_is_enumerable c = Some (prop_is_enumerable p)"
      "pd_value c = Some (prop_value p)" and e: "desc_is_enumerable c = prop_is_enumerable p"
    using assms(2) data by (simp_all add: assms(3) data_desc_simps)
  have "pd_is_configurable d \<noteq> Some True" "pd_is_enumerable d \<noteq> Some (\<not> prop_is_enumerable p)"
    using assms(1,2) e by (simp_all add: compatible_def)
  then have "desc_is_configurable (override d c) = False" "desc_is_enumerable (override d c) = desc_is_enumerable c"
    unfolding e using c
    by (auto simp: override_def or_else_def desc_is_configurable_def desc_is_enumerable_def unwrap_or_false_def
        split: option.split)
  moreover have "is_data_descriptor (override d c)"
    using c(3) by (simp add: override_def is_data_descriptor_def or_else_def split: option.split)
  ultimately show ?thesis using False data conv by (simp add: prop_kept_def resulting_desc_def)
qed

lemma length_desc_simps [simp]:
  "\<not> desc_is_configurable (length_desc ob)" "\<not> desc_is_enumerable (length_desc ob)" "is_data_descriptor (length_desc ob)"
  "locked (length_desc ob) \<longleftrightarrow> object_kind ob \<noteq> KArray True"
  by (simp_all add: length_desc_def desc_data_def desc_is_configurable_def desc_is_enumerable_def is_data_descriptor_def
      unwrap_or_false_def locked_def desc_is_writable_def)

lemma length_desc_kept:
  assumes "object_kind ob' = object_kind ob" "object_kind ob \<noteq> KArray True \<Longrightarrow> array_properties_length ob' = array_properties_length ob"
  shows "prop_kept (length_desc ob) (length_desc ob')"
proof -
  have "length_desc ob' = length_desc ob" if "object_kind ob \<noteq> KArray True"
    using assms that by (simp add: length_desc_def)
  then show ?thesis by (simp add: prop_kept_def)
qed

lemma sets_property_kept:
  assumes inv: "heap_inv cx h" and ob: "objects h obj = Some ob" and k: "\<not> is_length_key cx ob k"
    and s: "sets_property cx h h' obj k p" "property_desc h' p = resulting_desc d (own cx h obj k)"
    and may: "may_define cx h obj ob k d"
  shows "object_kept cx h h' x"
proof (cases "x = obj")
  case False
  then have "objects h' x = objects h x" using s(1) unfolding sets_property_def by auto
  moreover have "own cx h' x l = own cx h x l" for l using sets_property_own(2) [OF s(1) ob k, of x l] False by simp
  ultimately show ?thesis by (rule object_kept_same)
next
  case True
  obtain ob' where ob': "objects h' obj = Some ob'" "same_header ob ob'" "array_properties_length ob' = grown_length ob k"
    using s(1) ob unfolding sets_property_def by auto
  have new: "own cx h' obj k = Some (resulting_desc d (own cx h obj k))" using sets_property_own(1) [OF s(1) ob k] s(2) by simp
  have other: "own cx h' obj l = own cx h obj l" if "l \<noteq> k" "\<not> is_length_key cx ob l" for l
    using sets_property_own(2) [OF s(1) ob k, of obj l] that by simp
  have len: "own cx h obj l = Some (length_desc ob)" "own cx h' obj l = Some (length_desc ob')" if "is_length_key cx ob l" for l
    using that ob ob'(1,2) by (simp_all add: own_def is_length_key_def same_header_def)
  have allowed: "define_allowed (cx_deref cx) (is_extensible_field ob) d (own cx h obj k)" "\<not> beyond_fixed_length ob k"
    using may by (simp_all add: may_define_def)
  have fixed: "array_properties_length ob' = array_properties_length ob" if "object_kind ob = KArray False"
    using that allowed(2) ob'(3)
    by (auto simp: grown_length_def beyond_fixed_length_def not_le max_def split: property_key.splits)
  have kept: "\<exists>c'. own cx h' obj l = Some c' \<and> prop_kept c c'" if "own cx h obj l = Some c" "\<not> desc_is_configurable c" for l c
  proof -
    consider "l = k" | "is_length_key cx ob l" | "l \<noteq> k" "\<not> is_length_key cx ob l" by blast
    then show ?thesis
    proof cases
      case 1
      then have "own cx h obj k = Some c" using that(1) by simp
      moreover from this obtain p0 where "c = property_desc h p0" using own_not_length [OF ob k] by auto
      ultimately show ?thesis
        using 1 new allowed(1) that(2) resulting_kept [of "cx_deref cx" d c h p0] by (simp add: define_allowed_def)
    next
      case 2
      have "object_kind ob' = object_kind ob" using ob'(2) by (simp add: same_header_def)
      moreover have "array_properties_length ob' = array_properties_length ob" if "object_kind ob \<noteq> KArray True"
        using fixed 2 that by (auto simp: is_length_key_def)
      ultimately show ?thesis using len [OF 2] that(1) length_desc_kept [of ob' ob] by auto
    next
      case 3
      then show ?thesis using other that(1) by auto
    qed
  qed
  moreover have "own cx h' obj l = None" if "own cx h obj l = None" "\<not> is_extensible_field ob" for l
  proof -
    have "l \<noteq> k" using allowed(1) that by (auto simp: define_allowed_def)
    moreover have "\<not> is_length_key cx ob l" using len that(1) by auto
    ultimately show ?thesis using other that(1) by simp
  qed
  ultimately show ?thesis
    using True ob ob'(1,2) by (auto simp: object_kept_def same_header_def)
qed

lemma new_array_length_bound:
  assumes "new_array_length cx ob d = Some (Inr n)" "obj_inv (cx_hash cx) ob"
  shows "n < 2 ^ 32"
proof -
  have "unat (l :: u32) < 2 ^ 32" for l using unsigned_less [of l, where ?'a = nat] by simp
  moreover have "array_properties_length ob < 2 ^ 32" using assms(2) by (simp add: obj_inv_def array_properties_length_def)
  ultimately show ?thesis
    using assms(1) by (auto simp: new_array_length_def split: option.splits bind_splits sum.splits if_splits)
qed

lemma array_set_length_cases:
  assumes r: "array_set_length cx h obj w d = Some (Inr (b, h'))" and ob: "objects h obj = Some ob" "obj_inv (cx_hash cx) ob"
    and P: "h' = h \<Longrightarrow> P"
      "\<And>n ob1 ob2. \<lbrakk>n < 2 ^ 32; w \<and> pd_value d \<noteq> None \<or> n = array_properties_length ob; set_array_properties_length (cx_hash cx) ob n = Some (ob1, b);
         ob2 = ob1 \<or> ob2 = ob1\<lparr>object_kind := KArray False\<rparr>; h' = h\<lparr>objects := (objects h)(obj \<mapsto> ob2)\<rparr>\<rbrakk> \<Longrightarrow> P"
  shows P
proof -
  obtain n where n: "new_array_length cx ob d = Some (Inr n)"
    using r ob(1) by (auto simp: array_set_length_def split: bind_splits sum.splits)
  show P
  proof (cases "h' = h")
    case False
    then have "w \<or> n = array_properties_length ob"
      using r ob(1) n by (auto simp: array_set_length_def split: if_splits)
    moreover have "n = array_properties_length ob" if "pd_value d = None"
      using that n by (simp add: new_array_length_def)
    ultimately have cond: "w \<and> pd_value d \<noteq> None \<or> n = array_properties_length ob" by blast
    obtain ob1 where ob1: "set_array_properties_length (cx_hash cx) ob n = Some (ob1, b)"
        "h' = h\<lparr>objects := (objects h)(obj \<mapsto> (if pd_is_writable d = Some False then ob1\<lparr>object_kind := KArray False\<rparr> else ob1))\<rparr>"
      using r ob(1) n False by (auto simp: array_set_length_def Let_def split: if_splits bind_splits)
    show P by (rule P(2) [OF new_array_length_bound [OF n ob(2)] cond ob1(1) _ ob1(2)]) simp
  qed (rule P(1))
qed

lemma length_safe_kept:
  assumes "length_safe ob" "\<not> prop_is_configurable p" "ap_props (array_properties ob) i = Some p"
  shows "i < reached_length n (ap_props (array_properties ob))"
proof -
  let ?F = "fixed_from n (ap_props (array_properties ob))"
  obtain j where "fixed_from 0 (ap_props (array_properties ob)) \<subseteq> {j}" using assms(1) by (auto simp: length_safe_def)
  then have j: "?F \<subseteq> {j}" by (auto simp: fixed_from_def)
  show ?thesis
  proof (cases "?F = {}")
    case True
    have "i \<in> ?F" if "n \<le> i" using that assms(2,3) by (simp add: fixed_from_def)
    then have "i < n" using True by (auto simp: not_less [symmetric])
    then show ?thesis using True by (simp add: reached_length_def)
  next
    case False
    then have F: "?F = {j}" using j by blast
    then have "n \<le> j" by (auto simp: fixed_from_def)
    moreover have "i = j" if "n \<le> i" using that F assms(2,3) by (auto simp: fixed_from_def)
    ultimately have "i \<le> j" by (cases "n \<le> i") simp_all
    then show ?thesis by (simp add: reached_length_def F)
  qed
qed

lemma set_length_kept:
  assumes inv: "heap_inv cx h" and ob: "objects h obj = Some ob" and len: "is_length_key cx ob k" "pd_value d = None \<or> length_safe ob"
    and def: "define_own_property cx h obj k d = Some (Inr (b, h'))"
  shows "heap_inv cx h' \<and> object_kept cx h h' x"
proof -
  obtain w where w: "object_kind ob = KArray w" "k = NamedKey (cx_length_name cx)" using len(1) by (auto simp: is_length_key_def)
  have oi: "obj_inv (cx_hash cx) ob" "obj_clean ob" using heap_invD(1,2) [OF inv ob] by simp_all
  have "array_set_length cx h obj w d = Some (Inr (b, h'))"
    using def ob w by (simp add: define_own_property_def array_define_own_property_def)
  then show ?thesis
  proof (rule array_set_length_cases [OF _ ob oi(1)])
    assume "h' = h"
    then show ?thesis using inv by simp
  next
    fix n ob1 ob2
    assume *: "n < 2 ^ 32" "w \<and> pd_value d \<noteq> None \<or> n = array_properties_length ob" "set_array_properties_length (cx_hash cx) ob n = Some (ob1, b)"
      "ob2 = ob1 \<or> ob2 = ob1\<lparr>object_kind := KArray False\<rparr>" "h' = h\<lparr>objects := (objects h)(obj \<mapsto> ob2)\<rparr>"
    let ?r = "reached_length n (ap_props (array_properties ob))"
    have ai: "ap_inv (index_hash (cx_hash cx)) (array_properties ob)" "ap_array_length (array_properties ob) < 2 ^ 32"
      using oi(1) by (simp_all add: obj_inv_def)
    obtain ap where ap: "ob1 = ob\<lparr>array_properties := ap\<rparr>" "ap_inv (index_hash (cx_hash cx)) ap" "ap_array_length ap = ?r"
        "ap_props ap = ap_props (array_properties ob) |` {i. i < ?r}" "ap_clean ap"
    proof -
      obtain ap where ap: "set_len (index_hash (cx_hash cx)) (array_properties ob) n =
            Some (ap, fixed_from n (ap_props (array_properties ob)) = {})" "ap_inv (index_hash (cx_hash cx)) ap"
          "ap_array_length ap = ?r" "ap_props ap = ap_props (array_properties ob) |` {i. i < ?r}" "ap_clean ap"
        using set_len_props [OF ai *(1)] oi(2) unfolding obj_clean_def by blast
      have "ob1 = ob\<lparr>array_properties := ap\<rparr>" using *(3) ap(1) by (simp add: set_array_properties_length_def)
      then show ?thesis using that ap by blast
    qed
    have reached: "?r < 2 ^ 32"
    proof (cases "fixed_from n (ap_props (array_properties ob)) = {}")
      case False
      then have "Min (fixed_from n (ap_props (array_properties ob))) \<in> fixed_from n (ap_props (array_properties ob))"
        using fixed_from_finite(2) [OF ai(1)] by (rule Min_in [rotated])
      then have "Min (fixed_from n (ap_props (array_properties ob))) < ap_array_length (array_properties ob)"
        using fixed_from_finite(1) [OF ai(1), of n] by auto
      then show ?thesis using False ai(2) by (simp add: reached_length_def)
    qed (use *(1) in \<open>simp add: reached_length_def\<close>)
    have fields: "array_properties ob2 = ap" "named_properties ob2 = named_properties ob" "prototype ob2 = prototype ob"
        "is_extensible_field ob2 = is_extensible_field ob" "object_kind ob2 = KArray w \<or> object_kind ob2 = KArray False"
      using *(4) ap(1) w(1) by auto
    have sub: "obj_props ob l = Some p" if "obj_props ob2 l = Some p" for l p
      using that by (auto simp: obj_props_def fields ap(4) restrict_map_def split: property_key.splits if_splits)
    have "obj_inv (cx_hash cx) ob2" "obj_clean ob2"
      using oi ap(2,3,5) reached by (simp_all add: obj_inv_def obj_clean_def fields)
    then have inv': "heap_inv cx h'" unfolding *(5) by (rule heap_inv_shrink [OF inv ob]) (rule sub)
    have lk: "is_length_key cx ob2 l \<longleftrightarrow> is_length_key cx ob l" for l using fields(5) w(1) by (auto simp: is_length_key_def)
    have same: "?r = array_properties_length ob" if "n = array_properties_length ob"
    proof -
      have "fixed_from n (ap_props (array_properties ob)) = {}"
        using fixed_from_finite(1) [OF ai(1), of n] that by (force simp: fixed_from_def array_properties_length_def)
      then show ?thesis using that by (simp add: reached_length_def)
    qed
    have same_len: "array_properties_length ob2 = array_properties_length ob" if "\<not> w"
      using same *(2) that ap(3) fields(1) by (simp add: array_properties_length_def)
    have lkept: "prop_kept (length_desc ob) (length_desc ob2)"
    proof (cases w)
      case True
      then show ?thesis using w(1) by (simp add: prop_kept_def)
    next
      case False
      then have "object_kind ob2 = object_kind ob" using fields(5) w(1) by auto
      then show ?thesis using same_len [OF False] by (intro length_desc_kept) simp_all
    qed
    have keep: "obj_props ob2 l = Some p" if "obj_props ob l = Some p" "\<not> prop_is_configurable p" for l p
    proof (cases l)
      case (ArrayIndex i)
      have "unat i < ?r"
      proof (cases "n = array_properties_length ob")
        case True
        then show ?thesis
          using same ap_props_bound [OF ai(1)] that(1) ArrayIndex by (simp add: obj_props_def array_properties_length_def)
      next
        case False
        then have "length_safe ob" using *(2) len(2) by auto
        then show ?thesis using length_safe_kept that ArrayIndex by (simp add: obj_props_def)
      qed
      then show ?thesis using that(1) ArrayIndex by (simp add: obj_props_def fields ap(4))
    next
      case (NamedKey q)
      then show ?thesis using that(1) by (simp add: obj_props_def fields)
    qed
    have "object_kept cx h h' x"
      unfolding *(5)
    proof (rule object_kept_upd [OF ob])
      fix l c
      assume c: "own cx h obj l = Some c" "\<not> desc_is_configurable c"
      show "\<exists>c'. own cx (h\<lparr>objects := (objects h)(obj \<mapsto> ob2)\<rparr>) obj l = Some c' \<and> prop_kept c c'"
      proof (cases "is_length_key cx ob l")
        case True
        then show ?thesis using c ob lkept by (simp add: own_def lk)
      next
        case False
        then obtain p where "obj_props ob l = Some p" "c = property_desc h p" using c(1) ob by (auto simp: own_def)
        then show ?thesis using False keep c(2) by (simp add: own_upd lk)
      qed
    next
      show "\<not> is_extensible_field ob2 \<and> prototype ob2 = prototype ob \<and>
          (\<forall>l. own cx h obj l = None \<longrightarrow> own cx (h\<lparr>objects := (objects h)(obj \<mapsto> ob2)\<rparr>) obj l = None)"
        if "\<not> is_extensible_field ob"
        using that fields(3,4) sub ob by (auto simp: own_upd lk own_def) (metis not_None_eq)
    qed
    then show ?thesis using inv' by simp
  qed
qed

lemma define_kept:
  assumes inv: "heap_inv cx h" and fresh: "alloc_fresh cx" and ob: "objects h obj = Some ob" and k: "key_ok k"
    and d: "desc_ok h d" and safe: "is_length_key cx ob k \<longrightarrow> pd_value d = None \<or> length_safe ob"
    and def: "define_own_property cx h obj k d = Some (Inr (b, h'))"
  shows "heap_inv cx h' \<and> object_kept cx h h' x"
proof (cases "is_length_key cx ob k")
  case True
  then show ?thesis using set_length_kept [OF inv ob _ _ def] safe by simp
next
  case False
  from define_own_property_outcome [OF inv fresh ob False k d] def
  have "h' = h \<or> may_define cx h obj ob k d \<and>
      (\<exists>p. sets_property cx h h' obj k p \<and> property_desc h' p = resulting_desc d (own cx h obj k))"
    unfolding define_outcome_def by auto
  then show ?thesis
  proof (elim disjE conjE exE)
    assume "h' = h"
    then show ?thesis using inv by simp
  next
    fix p
    assume *: "may_define cx h obj ob k d" "sets_property cx h h' obj k p" "property_desc h' p = resulting_desc d (own cx h obj k)"
    have "heap_inv cx h'" using *(2) by (simp add: sets_property_def)
    then show ?thesis using sets_property_kept [OF inv ob False *(2,3,1)] by simp
  qed
qed

lemma delete_kept:
  assumes inv: "heap_inv cx h" and ob: "objects h obj = Some ob" and light: "key_light ob k"
    and del: "js_delete cx h obj k = Some (b, h')"
  shows "heap_inv cx h' \<and> object_kept cx h h' x"
proof (cases "h' = h")
  case False
  have nl: "\<not> is_length_key cx ob k" using del ob False by (auto simp: js_delete_def is_length_key_def)
  then have "ordinary_delete cx h obj k = Some (b, h')"
    using del ob by (auto simp: js_delete_def is_length_key_def split: object_kind.splits)
  then obtain c ob' where c: "own cx h obj k = Some c" "desc_is_configurable c" "remove_property (cx_hash cx) ob k = Some ob'"
      and h': "h' = h\<lparr>objects := (objects h)(obj \<mapsto> ob')\<rparr>"
    using False ob by (auto simp: ordinary_delete_def get_own_property_own [OF inv ob] split: option.splits if_splits bind_splits)
  have oi: "obj_inv (cx_hash cx) ob" "obj_clean ob" using heap_invD(1,2) [OF inv ob] by simp_all
  have "obj_props ob k \<noteq> None" using c(1) ob nl by (auto simp: own_def)
  then have ob': "obj_inv (cx_hash cx) ob'" "obj_props ob' = (obj_props ob)(k := None)" "obj_clean ob'" "same_header ob ob'"
      "array_properties_length ob' = array_properties_length ob"
    using remove_property_props [OF oi(1), of k] c(3) light oi(2) by auto
  have lk: "is_length_key cx ob' l \<longleftrightarrow> is_length_key cx ob l" for l using ob'(4) by (simp add: is_length_key_def same_header_def)
  have ld: "length_desc ob' = length_desc ob" using ob'(4,5) by (simp add: length_desc_def same_header_def)
  have own': "own cx h' obj l = (if l = k then None else own cx h obj l)" for l
    using nl ob ob'(2) unfolding h' by (auto simp: own_upd lk own_obj [OF ob] ld)
  have "heap_inv cx h'" unfolding h' by (rule heap_inv_shrink [OF inv ob ob'(1,3)]) (simp add: ob'(2) split: if_splits)
  moreover have "object_kept cx h h' x"
    using own' c(1,2) ob'(4) unfolding h'
    by (intro object_kept_upd [OF ob]) (auto simp: same_header_def)
  ultimately show ?thesis by simp
qed (simp add: inv)

lemma header_kept:
  assumes inv: "heap_inv cx h" and ob: "objects h obj = Some ob"
    and ob': "named_properties ob' = named_properties ob" "array_properties ob' = array_properties ob" "object_kind ob' = object_kind ob"
    and ext: "\<not> is_extensible_field ob \<Longrightarrow> \<not> is_extensible_field ob' \<and> prototype ob' = prototype ob"
  shows "heap_inv cx (h\<lparr>objects := (objects h)(obj \<mapsto> ob')\<rparr>) \<and>
    object_kept cx h (h\<lparr>objects := (objects h)(obj \<mapsto> ob')\<rparr>) x"
proof -
  have props: "obj_props ob' = obj_props ob" by (simp add: fun_eq_iff obj_props_def ob' split: property_key.split)
  have "obj_inv (cx_hash cx) ob'" "obj_clean ob'"
    using heap_invD(1,2) [OF inv ob] by (simp_all add: obj_inv_def obj_clean_def ob')
  then have "heap_inv cx (h\<lparr>objects := (objects h)(obj \<mapsto> ob')\<rparr>)" by (rule heap_inv_shrink [OF inv ob]) (simp add: props)
  moreover have "own cx (h\<lparr>objects := (objects h)(obj \<mapsto> ob')\<rparr>) obj k = own cx h obj k" for k
    using ob ob' by (simp add: own_upd own_obj [OF ob] props is_length_key_def length_desc_def array_properties_length_def)
  then have "object_kept cx h (h\<lparr>objects := (objects h)(obj \<mapsto> ob')\<rparr>) x" using ext by (intro object_kept_upd [OF ob]) auto
  ultimately show ?thesis ..
qed

lemma set_prototype_cases:
  assumes "set_prototype_of h obj proto = Some (b, h')"
  shows "h' = h \<or> (\<exists>ob. objects h obj = Some ob \<and> is_extensible_field ob \<and> in_prototype_chain h obj proto = Some False \<and>
           h' = h\<lparr>objects := (objects h)(obj \<mapsto> ob\<lparr>prototype := proto\<rparr>)\<rparr>)"
  using assms by (auto simp: set_prototype_of_def split: bind_splits if_splits)

lemma heap_step_kept:
  assumes "heap_step cx h h'" "heap_inv cx h" "alloc_fresh cx"
  shows "heap_inv cx h' \<and> object_kept cx h h' x"
  using assms
proof (induction rule: heap_step.cases)
  case (create h obj proto kind)
  then show ?thesis using create_kept by simp
next
  case (define_prop h obj ob k d b h')
  then show ?thesis using define_kept by blast
next
  case (delete_prop h obj ob k b h')
  then show ?thesis using delete_kept by blast
next
  case (prevent h obj b h')
  then obtain ob where "objects h obj = Some ob" "h' = h\<lparr>objects := (objects h)(obj \<mapsto> ob\<lparr>is_extensible_field := False\<rparr>)\<rparr>"
    by (auto simp: prevent_extensions_def split: bind_splits)
  then show ?thesis using prevent header_kept [of cx h obj ob "ob\<lparr>is_extensible_field := False\<rparr>" x] by simp
next
  case (set_proto proto h obj b h')
  then show ?thesis
    using set_prototype_cases [of h obj proto b h'] header_kept [of cx h obj _ "_\<lparr>prototype := proto\<rparr>" x] by auto
qed

lemma heap_steps_kept:
  assumes "(heap_step cx)\<^sup>*\<^sup>* h h'" "heap_inv cx h" "alloc_fresh cx"
  shows "heap_inv cx h' \<and> object_kept cx h h' x"
  using assms(1)
proof (induction rule: rtranclp_induct)
  case base
  then show ?case using assms(2) by simp
next
  case (step h1 h2)
  then show ?case using heap_step_kept [OF step(2) _ assms(3)] object_kept_trans by blast
qed


definition closed_heap :: js_heap where
  "closed_heap = demo_heap\<lparr>objects := [32 \<mapsto> (object_new KOrdinary None)\<lparr>is_extensible_field := False\<rparr>]\<rparr>"

lemma closed_heap_step: "heap_step demo_cx demo_heap closed_heap"
proof (rule heap_step.prevent)
  show "prevent_extensions demo_heap 32 = Some (True, closed_heap)"
    by (simp add: prevent_extensions_def closed_heap_def demo_heap_def object_create_def)
qed

lemma closed_heap_inv: "heap_inv demo_cx closed_heap"
  using heap_step_kept [OF closed_heap_step demo_simps(2,1)] by simp


end
