(* ===== verification/Prototype_Chains.thy ===== *)
theory Prototype_Chains
  imports Essential_Invariants
begin

section \<open>Prototype chains\<close>

text \<open>
  Prototypes form a forest: an object's prototype exists and no object is its own ancestor. Every
  operation keeps that, since \<open>set_prototype_of\<close> walks the chain of the new prototype first
  and refuses a cycle; therefore that walk, and the reading of properties through the chain, end.
\<close>

definition protos :: "js_heap \<Rightarrow> ptr \<rightharpoonup> ptr option" where
  "protos h obj = map_option prototype (objects h obj)"

definition parents :: "js_heap \<Rightarrow> (ptr \<times> ptr) set" where
  "parents h = {(p, obj). protos h obj = Some (Some p)}"

definition chain_inv :: "js_heap \<Rightarrow> bool" where
  "chain_inv h \<longleftrightarrow> finite (dom (protos h)) \<and> fst ` parents h \<subseteq> dom (protos h) \<and> acyclic (parents h)"

lemma protos_simps [simp]: "protos h obj = None \<longleftrightarrow> objects h obj = None" "get_prototype_of h obj = protos h obj"
  by (auto simp: protos_def get_prototype_of_def)

lemma parents_iff: "(p, obj) \<in> parents h \<longleftrightarrow> protos h obj = Some (Some p)"
  by (simp add: parents_def)

lemma chain_inv_cong: "protos h' = protos h \<Longrightarrow> chain_inv h \<Longrightarrow> chain_inv h'"
  by (simp add: chain_inv_def parents_def)

lemma chain_inv_parent: "chain_inv h \<Longrightarrow> (p, obj) \<in> parents h \<Longrightarrow> objects h p \<noteq> None"
proof -
  assume "chain_inv h" "(p, obj) \<in> parents h"
  then have "fst (p, obj) \<in> dom (protos h)" unfolding chain_inv_def by blast
  then show ?thesis by (auto simp: protos_def)
qed

lemma parents_wf:
  assumes "chain_inv h"
  shows "wf (parents h)"
proof (rule finite_acyclic_wf)
  have "parents h \<subseteq> dom (protos h) \<times> dom (protos h)"
    using assms by (auto simp: chain_inv_def parents_iff)
  then show "finite (parents h)" using assms finite_subset unfolding chain_inv_def by blast
qed (use assms in \<open>simp add: chain_inv_def\<close>)

lemma get_own_some:
  assumes "heap_inv cx h"
  shows "get_own_property cx h obj k = Some (Some c) \<longleftrightarrow> own cx h obj k = Some c"
  using get_own_property_own [OF assms] by (cases "objects h obj") (auto simp: get_own_property_def own_def)

text \<open>Induction along the chain of an object.\<close>

lemma chain_induct [consumes 2, case_names root child]:
  assumes "chain_inv h" "objects h obj \<noteq> None"
    and root: "\<And>obj. protos h obj = Some None \<Longrightarrow> P obj"
    and child: "\<And>obj p. protos h obj = Some (Some p) \<Longrightarrow> objects h p \<noteq> None \<Longrightarrow> P p \<Longrightarrow> P obj"
  shows "P obj"
  using assms(2)
proof (induction obj rule: wf_induct_rule [OF parents_wf [OF assms(1)]])
  case (1 obj)
  then obtain q where q: "protos h obj = Some q" by (auto simp: protos_def)
  show ?case
  proof (cases q)
    case (Some p)
    then have "(p, obj) \<in> parents h" using q by (simp add: parents_iff)
    moreover from this have "objects h p \<noteq> None" using chain_inv_parent [OF assms(1)] by blast
    ultimately show ?thesis using 1(1) child q Some by blast
  qed (use root q in simp)
qed

lemma ancestor_unfold:
  "(x, obj) \<in> (parents h)\<^sup>* \<longleftrightarrow> x = obj \<or> (\<exists>p. protos h obj = Some (Some p) \<and> (x, p) \<in> (parents h)\<^sup>*)"
  by (metis parents_iff rtrancl.simps)

lemma in_prototype_chain_iff:
  assumes "chain_inv h" "objects h p \<noteq> None"
  shows "in_prototype_chain h obj (Some p) = Some ((obj, p) \<in> (parents h)\<^sup>*)"
  using assms
proof (induction rule: chain_induct)
  case (root p)
  then have "(obj, p) \<in> (parents h)\<^sup>* \<longleftrightarrow> obj = p" by (subst ancestor_unfold) simp
  then show ?case using root by (simp add: in_prototype_chain.simps)
next
  case (child p q)
  then have "(obj, p) \<in> (parents h)\<^sup>* \<longleftrightarrow> obj = p \<or> (obj, q) \<in> (parents h)\<^sup>*" by (subst ancestor_unfold) simp
  then show ?case using child by (subst in_prototype_chain.simps) auto
qed

lemma has_property_iff:
  assumes "chain_inv h" "objects h obj \<noteq> None" "heap_inv cx h"
  shows "has_property cx h obj k = Some (\<exists>p. (p, obj) \<in> (parents h)\<^sup>* \<and> own cx h p k \<noteq> None)"
  using assms(1,2)
proof (induction rule: chain_induct)
  case (root obj)
  have eq: "(x, obj) \<in> (parents h)\<^sup>* \<longleftrightarrow> x = obj" for x using root by (subst ancestor_unfold) simp
  obtain ob where "objects h obj = Some ob" using root by (auto simp: protos_def)
  then have "get_own_property cx h obj k = Some (own cx h obj k)" by (rule get_own_property_own [OF assms(3)])
  then show ?case using root by (subst has_property.simps) (simp add: eq)
next
  case (child obj q)
  have eq: "(x, obj) \<in> (parents h)\<^sup>* \<longleftrightarrow> x = obj \<or> (x, q) \<in> (parents h)\<^sup>*" for x
    using child by (subst ancestor_unfold) simp
  obtain ob where "objects h obj = Some ob" using child by (auto simp: protos_def)
  then have "get_own_property cx h obj k = Some (own cx h obj k)" by (rule get_own_property_own [OF assms(3)])
  then show ?case using child by (subst has_property.simps) (auto simp: eq)
qed

text \<open>Reading finds the property of the nearest object of the chain that has it.\<close>

definition read_result :: "js_context \<Rightarrow> js_heap \<Rightarrow> value \<Rightarrow> property_descriptor \<Rightarrow> (eval_error + value \<times> js_heap) option" where
  "read_result cx h receiver c =
     (if is_data_descriptor c then do { v \<leftarrow> pd_value c; Some (Inr (v, h)) }
      else case pd_get c of
             None \<Rightarrow> Some (Inr (value_undefined, h))
           | Some getter \<Rightarrow> cx_call cx h getter receiver [])"

lemma js_get_result:
  assumes "chain_inv h" "objects h obj \<noteq> None" "heap_inv cx h"
  shows "js_get cx h obj k receiver = Some (Inr (value_undefined, h)) \<and>
           (\<forall>x. (x, obj) \<in> (parents h)\<^sup>* \<longrightarrow> own cx h x k = None) \<or>
         (\<exists>p c. (p, obj) \<in> (parents h)\<^sup>* \<and> own cx h p k = Some c \<and> js_get cx h obj k receiver = read_result cx h receiver c \<and>
            (\<forall>x. (x, obj) \<in> (parents h)\<^sup>* \<and> (p, x) \<in> (parents h)\<^sup>+ \<longrightarrow> own cx h x k = None))"
  using assms(1,2)
proof (induction rule: chain_induct)
  case (root obj)
  have eq: "(x, obj) \<in> (parents h)\<^sup>* \<longleftrightarrow> x = obj" for x using root by (subst ancestor_unfold) simp
  obtain ob where "objects h obj = Some ob" using root by (auto simp: protos_def)
  then have g: "get_own_property cx h obj k = Some (own cx h obj k)" by (rule get_own_property_own [OF assms(3)])
  have irr: "(obj, obj) \<notin> (parents h)\<^sup>+" using assms(1) by (simp add: chain_inv_def acyclic_def)
  show ?case
  proof (cases "own cx h obj k")
    case None
    then have "js_get cx h obj k receiver = Some (Inr (value_undefined, h))" using g root by (subst js_get.simps) simp
    then show ?thesis using None by (simp add: eq)
  next
    case (Some c)
    then have "js_get cx h obj k receiver = read_result cx h receiver c"
      using g by (subst js_get.simps) (simp add: read_result_def)
    then show ?thesis using Some irr by (simp add: eq)
  qed
next
  case (child obj q)
  have eq: "(x, obj) \<in> (parents h)\<^sup>* \<longleftrightarrow> x = obj \<or> (x, q) \<in> (parents h)\<^sup>*" for x
    using child by (subst ancestor_unfold) simp
  obtain ob where "objects h obj = Some ob" using child by (auto simp: protos_def)
  then have g: "get_own_property cx h obj k = Some (own cx h obj k)" by (rule get_own_property_own [OF assms(3)])
  show ?case
  proof (cases "own cx h obj k")
    case None
    then have "js_get cx h obj k receiver = js_get cx h q k receiver" using g child by (subst js_get.simps) simp
    with child(3) show ?thesis
    proof (elim disjE conjE exE)
      assume "js_get cx h q k receiver = Some (Inr (value_undefined, h))" "\<forall>x. (x, q) \<in> (parents h)\<^sup>* \<longrightarrow> own cx h x k = None"
      then show ?thesis using None \<open>js_get cx h obj k receiver = js_get cx h q k receiver\<close> by (simp add: eq)
    next
      fix p c
      assume *: "(p, q) \<in> (parents h)\<^sup>*" "own cx h p k = Some c" "js_get cx h q k receiver = read_result cx h receiver c"
        "\<forall>x. (x, q) \<in> (parents h)\<^sup>* \<and> (p, x) \<in> (parents h)\<^sup>+ \<longrightarrow> own cx h x k = None"
      have "(p, obj) \<in> (parents h)\<^sup>*" using *(1) eq by blast
      moreover have "\<forall>x. (x, obj) \<in> (parents h)\<^sup>* \<and> (p, x) \<in> (parents h)\<^sup>+ \<longrightarrow> own cx h x k = None"
      proof (intro allI impI)
        fix x
        assume "(x, obj) \<in> (parents h)\<^sup>* \<and> (p, x) \<in> (parents h)\<^sup>+"
        then show "own cx h x k = None" using *(4) None by (cases "x = obj") (simp_all add: eq)
      qed
      ultimately show ?thesis
        using *(2,3) \<open>js_get cx h obj k receiver = js_get cx h q k receiver\<close> by (intro disjI2 exI [of _ p] exI [of _ c]) simp
    qed
  next
    case (Some c)
    have "(obj, x) \<notin> (parents h)\<^sup>+" if "(x, obj) \<in> (parents h)\<^sup>*" for x
      using assms(1) rtrancl_trancl_trancl [OF that, of x] by (auto simp: chain_inv_def acyclic_def)
    moreover have "js_get cx h obj k receiver = read_result cx h receiver c"
      using g Some by (subst js_get.simps) (simp add: read_result_def)
    ultimately show ?thesis using Some by (intro disjI2 exI [of _ obj] exI [of _ c]) auto
  qed
qed

subsection \<open>Every operation keeps the chains\<close>

lemma chain_inv_upd:
  assumes inv: "chain_inv h" and protos: "protos h' = (protos h)(obj \<mapsto> q)"
    and q: "\<And>p. q = Some p \<Longrightarrow> objects h p \<noteq> None \<and> (obj, p) \<notin> (parents h)\<^sup>*"
  shows "chain_inv h'"
proof -
  have sub: "parents h' \<subseteq> (case q of None \<Rightarrow> parents h | Some p \<Rightarrow> insert (p, obj) (parents h))"
    by (auto simp: parents_def protos split: option.split if_splits)
  have dom: "dom (protos h') = insert obj (dom (protos h))" by (simp add: protos)
  have "acyclic (case q of None \<Rightarrow> parents h | Some p \<Rightarrow> insert (p, obj) (parents h))"
    using inv q by (auto simp: chain_inv_def acyclic_insert split: option.split)
  then have "acyclic (parents h')" using sub acyclic_subset by blast
  moreover have "fst ` parents h' \<subseteq> dom (protos h')"
    using sub q inv unfolding dom by (fastforce simp: chain_inv_def split: option.splits)
  ultimately show ?thesis using inv dom by (simp add: chain_inv_def)
qed

lemma protos_same_header:
  assumes "objects h obj = Some ob" "prototype ob' = prototype ob"
  shows "protos (h\<lparr>objects := (objects h)(obj \<mapsto> ob')\<rparr>) = protos h"
  using assms by (auto simp: protos_def fun_eq_iff)

lemma set_length_protos:
  assumes "array_set_length cx h obj w d = Some (Inr (b, h'))" "objects h obj = Some ob" "obj_inv (cx_hash cx) ob"
  shows "protos h' = protos h"
  using assms
proof (rule array_set_length_cases)
  fix n ob1 ob2
  assume *: "set_array_properties_length (cx_hash cx) ob n = Some (ob1, b)"
      "ob2 = ob1 \<or> ob2 = ob1\<lparr>object_kind := KArray False\<rparr>" "h' = h\<lparr>objects := (objects h)(obj \<mapsto> ob2)\<rparr>"
  have "prototype ob1 = prototype ob" using *(1) by (auto simp: set_array_properties_length_def split: bind_splits)
  then show ?thesis using protos_same_header [OF assms(2)] *(2,3) by auto
qed simp

lemma define_protos:
  assumes inv: "heap_inv cx h" and fresh: "alloc_fresh cx" and ob: "objects h obj = Some ob" and k: "key_ok k"
    and d: "desc_ok h d" and def: "define_own_property cx h obj k d = Some (Inr (b, h'))"
  shows "protos h' = protos h"
proof (cases "is_length_key cx ob k")
  case True
  then obtain w where w: "object_kind ob = KArray w" "k = NamedKey (cx_length_name cx)" by (auto simp: is_length_key_def)
  then have "array_set_length cx h obj w d = Some (Inr (b, h'))"
    using def ob by (simp add: define_own_property_def array_define_own_property_def)
  then show ?thesis using set_length_protos ob heap_invD(1) [OF inv ob] by blast
next
  case False
  from define_own_property_outcome [OF inv fresh ob False k d] def
  consider "h' = h" | p where "sets_property cx h h' obj k p"
    unfolding define_outcome_def by auto
  then show ?thesis
  proof cases
    case 2
    then obtain ob' where ob': "objects h' = (objects h)(obj \<mapsto> ob')" "same_header ob ob'"
      using ob unfolding sets_property_def by auto
    then show ?thesis using ob by (auto simp: protos_def fun_eq_iff same_header_def)
  qed simp
qed

lemma delete_protos:
  assumes inv: "heap_inv cx h" and ob: "objects h obj = Some ob" and del: "js_delete cx h obj k = Some (b, h')"
  shows "protos h' = protos h"
proof (cases "h' = h")
  case False
  then have "ordinary_delete cx h obj k = Some (b, h')" using del ob by (auto simp: js_delete_def split: object_kind.splits if_splits)
  then obtain ob' where ob': "remove_property (cx_hash cx) ob k = Some ob'" "h' = h\<lparr>objects := (objects h)(obj \<mapsto> ob')\<rparr>"
    using False ob by (auto simp: ordinary_delete_def split: option.splits if_splits bind_splits)
  have "prototype ob' = prototype ob"
    using ob'(1) by (auto simp: remove_property_def split: property_key.splits bind_splits)
  then show ?thesis using protos_same_header [OF ob] ob'(2) by simp
qed simp

lemma create_chain:
  assumes inv: "chain_inv h" and new: "objects h obj = None" and proto: "\<And>p. proto = Some p \<Longrightarrow> objects h p \<noteq> None"
  shows "chain_inv (object_create h obj kind proto)"
proof (rule chain_inv_upd [OF inv])
  show "protos (object_create h obj kind proto) = (protos h)(obj \<mapsto> proto)"
    by (auto simp: protos_def fun_eq_iff object_create_def object_new_def)
  fix p
  assume "proto = Some p"
  then have p: "objects h p \<noteq> None" by (rule proto)
  have "(obj, y) \<notin> parents h" for y using chain_inv_parent [OF inv] new by blast
  then have "(obj, p) \<notin> (parents h)\<^sup>*" using p new by (metis converse_rtranclE)
  then show "objects h p \<noteq> None \<and> (obj, p) \<notin> (parents h)\<^sup>*" using p by simp
qed

lemma set_prototype_chain:
  assumes inv: "chain_inv h" and proto: "\<And>p. proto = Some p \<Longrightarrow> objects h p \<noteq> None"
    and set: "set_prototype_of h obj proto = Some (b, h')"
  shows "chain_inv h'"
proof (cases "h' = h")
  case False
  then obtain ob where ob: "in_prototype_chain h obj proto = Some False"
      "h' = h\<lparr>objects := (objects h)(obj \<mapsto> ob\<lparr>prototype := proto\<rparr>)\<rparr>"
    using set_prototype_cases [OF set] by auto
  show ?thesis
  proof (rule chain_inv_upd [OF inv])
    show "protos h' = (protos h)(obj \<mapsto> proto)" by (auto simp: ob(2) protos_def fun_eq_iff)
    show "objects h q \<noteq> None \<and> (obj, q) \<notin> (parents h)\<^sup>*" if "proto = Some q" for q
      using that ob(1) proto in_prototype_chain_iff [OF inv, of q obj] by simp
  qed
qed (simp add: inv)

lemma heap_step_chain:
  assumes step: "heap_step cx h h'" and inv: "heap_inv cx h" "alloc_fresh cx" "chain_inv h"
  shows "chain_inv h'"
  using step
proof (cases rule: heap_step.cases)
  case (create obj proto kind)
  then show ?thesis using create_chain [OF inv(3)] by blast
next
  case (define_prop obj ob k d b)
  then show ?thesis using define_protos [OF inv(1,2)] chain_inv_cong [OF _ inv(3)] by blast
next
  case (delete_prop obj ob k b)
  then show ?thesis using delete_protos [OF inv(1)] chain_inv_cong [OF _ inv(3)] by blast
next
  case (prevent obj b)
  then have "protos h' = protos h"
    by (auto simp: prevent_extensions_def protos_def fun_eq_iff split: bind_splits)
  then show ?thesis by (rule chain_inv_cong [OF _ inv(3)])
next
  case (set_proto proto obj b)
  then show ?thesis using set_prototype_chain [OF inv(3)] by blast
qed

lemma heap_steps_chain:
  assumes "(heap_step cx)\<^sup>*\<^sup>* h h'" "heap_inv cx h" "alloc_fresh cx" "chain_inv h"
  shows "heap_inv cx h' \<and> chain_inv h'"
  using assms(1)
proof (induction rule: rtranclp_induct)
  case (step h1 h2)
  then show ?case using heap_step_kept [OF step(2) _ assms(3)] heap_step_chain [OF step(2) _ assms(3)] by blast
qed (use assms in simp)

text \<open>
  C17: reading through prototypes always ends. Whatever operations a program runs, no object becomes
  its own ancestor; the walk of \<open>set_prototype_of\<close> over the prototypes returns, and refuses
  exactly the prototypes that the object is an ancestor of; \<open>has_property\<close> returns, and says
  whether some object of the chain has the property; \<open>js_get\<close> returns undefined when none has,
  and otherwise what the nearest object that has the property gives: its value, or the result of its
  getter.
\<close>

theorem prototype_reads_end:
  assumes steps: "(heap_step cx)\<^sup>*\<^sup>* h h'" and inv: "heap_inv cx h" "alloc_fresh cx" "chain_inv h" and obj: "objects h' obj \<noteq> None"
  shows "(obj, obj) \<notin> (parents h')\<^sup>+ \<and>
    in_prototype_chain h' x (Some obj) = Some ((x, obj) \<in> (parents h')\<^sup>*) \<and>
    has_property cx h' obj k =
      Some (\<exists>p c. (p, obj) \<in> (parents h')\<^sup>* \<and> get_own_property cx h' p k = Some (Some c)) \<and>
    (js_get cx h' obj k receiver = Some (Inr (value_undefined, h')) \<and>
       (\<nexists>p c. (p, obj) \<in> (parents h')\<^sup>* \<and> get_own_property cx h' p k = Some (Some c)) \<or>
     (\<exists>p c. (p, obj) \<in> (parents h')\<^sup>* \<and> get_own_property cx h' p k = Some (Some c) \<and>
        js_get cx h' obj k receiver = read_result cx h' receiver c \<and>
        (\<nexists>y c'. (y, obj) \<in> (parents h')\<^sup>* \<and> (p, y) \<in> (parents h')\<^sup>+ \<and> get_own_property cx h' y k = Some (Some c'))))"
proof -
  have h': "heap_inv cx h'" "chain_inv h'" using heap_steps_chain [OF steps inv] by simp_all
  have "(obj, obj) \<notin> (parents h')\<^sup>+" using h'(2) by (simp add: chain_inv_def acyclic_def)
  moreover have "js_get cx h' obj k receiver = Some (Inr (value_undefined, h')) \<and>
       (\<nexists>p c. (p, obj) \<in> (parents h')\<^sup>* \<and> own cx h' p k = Some c) \<or>
     (\<exists>p c. (p, obj) \<in> (parents h')\<^sup>* \<and> own cx h' p k = Some c \<and>
        js_get cx h' obj k receiver = read_result cx h' receiver c \<and>
        (\<nexists>y c'. (y, obj) \<in> (parents h')\<^sup>* \<and> (p, y) \<in> (parents h')\<^sup>+ \<and> own cx h' y k = Some c'))"
    using js_get_result [OF h'(2) obj h'(1), of k receiver] by fastforce
  ultimately show ?thesis
    using in_prototype_chain_iff [OF h'(2) obj] has_property_iff [OF h'(2) obj h'(1), of k]
    by (simp add: get_own_some [OF h'(1)])
qed

theorem prototype_reads_end_witness:
  "has_property demo_cx (object_create demo_heap 80 (KArray True) (Some 32)) 80 (NamedKey 16) = Some True \<and>
   in_prototype_chain (object_create demo_heap 80 (KArray True) (Some 32)) 32 (Some 80) = Some True"
proof -
  let ?h = "object_create demo_heap 80 (KArray True) (Some 32)"
  have step: "(heap_step demo_cx)\<^sup>*\<^sup>* demo_heap ?h"
    by (intro r_into_rtranclp heap_step.create) (auto simp: demo_simps demo_heap_def object_create_def)
  have "parents demo_heap = {}" by (auto simp: parents_def protos_def demo_heap_def object_create_def object_new_def)
  then have chain: "chain_inv demo_heap"
    by (simp add: chain_inv_def acyclic_def protos_def demo_heap_def object_create_def dom_def del: protos_simps)
  have obj: "objects ?h 80 \<noteq> None" by (simp add: object_create_def)
  note r = prototype_reads_end [OF step demo_simps(2,1) chain obj]
  have "get_own_property demo_cx ?h 80 (NamedKey 16) \<noteq> None \<and> get_own_property demo_cx ?h 80 (NamedKey 16) \<noteq> Some None"
    by (simp add: get_own_property_def object_create_def object_new_def array_get_own_property_def demo_cx_def)
  then obtain c where "get_own_property demo_cx ?h 80 (NamedKey 16) = Some (Some c)" by auto
  then have "has_property demo_cx ?h 80 (NamedKey 16) = Some True" using r [of 32 "NamedKey 16", THEN conjunct2, THEN conjunct2, THEN conjunct1] by auto
  moreover have "(32, 80) \<in> parents ?h" by (simp add: parents_def protos_def object_create_def object_new_def)
  then have "(32, 80) \<in> (parents ?h)\<^sup>*" by (rule r_into_rtrancl)
  then have "in_prototype_chain ?h 32 (Some 80) = Some True" using r [of 32, THEN conjunct2, THEN conjunct1] by simp
  ultimately show ?thesis ..
qed

end
