(* ===== verification/Regexp_Instruction.thy ===== *)
theory Regexp_Instruction
  imports Prelude
begin

section \<open>Instructions of the regular expression engine\<close>

text \<open>
  The instructions of compiled regular expressions and their encoding as 32-bit words
  (\<open>runtime/regexp/instruction.rs\<close>). The opcode is the low byte of the first word; operands
  are packed above it or follow in words of their own. Reading an instruction past the end of the
  buffer, or at a word whose low byte is no opcode, is undefined behaviour in the source and
  \<open>None\<close> here.
\<close>

datatype re_instruction =
    Literal u32
  | Wildcard
  | WildcardNoNewline
  | Jump u32
  | Branch u32 u32
  | Accept
  | Fail
  | MarkCapturePoint u32
  | ClearCapture u32
  | Progress u32
  | Loop u32 u32 u32
  | AssertStart
  | AssertEnd
  | AssertStartOrNewline
  | AssertEndOrNewline
  | WordBoundaryMoveToPrevious
  | AssertWordBoundary
  | AssertNotWordBoundary
  | Backreference bool u32
  | ConsumeIfTrue
  | ConsumeIfFalse
  | CompareEquals u32
  | CompareBetween u32 u32
  | Lookaround bool bool u32

primrec re_opcode :: "re_instruction \<Rightarrow> u32" where
  "re_opcode (Literal _) = 0"
| "re_opcode Wildcard = 1"
| "re_opcode WildcardNoNewline = 2"
| "re_opcode (Jump _) = 3"
| "re_opcode (Branch _ _) = 4"
| "re_opcode Accept = 5"
| "re_opcode Fail = 6"
| "re_opcode (MarkCapturePoint _) = 7"
| "re_opcode (ClearCapture _) = 8"
| "re_opcode (Progress _) = 9"
| "re_opcode (Loop _ _ _) = 10"
| "re_opcode AssertStart = 11"
| "re_opcode AssertEnd = 12"
| "re_opcode AssertStartOrNewline = 13"
| "re_opcode AssertEndOrNewline = 14"
| "re_opcode WordBoundaryMoveToPrevious = 15"
| "re_opcode AssertWordBoundary = 16"
| "re_opcode AssertNotWordBoundary = 17"
| "re_opcode (Backreference _ _) = 18"
| "re_opcode ConsumeIfTrue = 19"
| "re_opcode ConsumeIfFalse = 20"
| "re_opcode (CompareEquals _) = 21"
| "re_opcode (CompareBetween _ _) = 22"
| "re_opcode (Lookaround _ _ _) = 23"

text \<open>The number of words of the instruction with an opcode.\<close>

definition re_opcode_size :: "u32 \<Rightarrow> nat option" where
  "re_opcode_size opcode =
     (if opcode = 3 \<or> opcode = 7 \<or> opcode = 8 \<or> opcode = 9 \<or> opcode = 18 \<or> opcode = 22 \<or> opcode = 23 then Some 2
      else if opcode = 4 then Some 3
      else if opcode = 10 then Some 4
      else if opcode < 24 then Some 1
      else None)"

definition get_packed_u24_operand :: "u32 \<Rightarrow> u32" where
  "get_packed_u24_operand w = drop_bit 8 w"

definition get_packed_u8_operand :: "u32 \<Rightarrow> nat \<Rightarrow> u32" where
  "get_packed_u8_operand w index = drop_bit (8 * index) w AND 0xFF"

definition opcode_with_u24_operand :: "u32 \<Rightarrow> u32 \<Rightarrow> u32" where
  "opcode_with_u24_operand opcode operand = opcode OR push_bit 8 operand"

text \<open>The words that the \<open>write\<close> functions append.\<close>

primrec re_write :: "re_instruction \<Rightarrow> u32 list" where
  "re_write (Literal cp) = [opcode_with_u24_operand 0 cp]"
| "re_write Wildcard = [1]"
| "re_write WildcardNoNewline = [2]"
| "re_write (Jump target) = [3, target]"
| "re_write (Branch first_branch second_branch) = [4, first_branch, second_branch]"
| "re_write Accept = [5]"
| "re_write Fail = [6]"
| "re_write (MarkCapturePoint index) = [7, index]"
| "re_write (ClearCapture index) = [8, index]"
| "re_write (Progress index) = [9, index]"
| "re_write (Loop register max_value end_branch) = [10, register, max_value, end_branch]"
| "re_write AssertStart = [11]"
| "re_write AssertEnd = [12]"
| "re_write AssertStartOrNewline = [13]"
| "re_write AssertEndOrNewline = [14]"
| "re_write WordBoundaryMoveToPrevious = [15]"
| "re_write AssertWordBoundary = [16]"
| "re_write AssertNotWordBoundary = [17]"
| "re_write (Backreference is_case_insensitive index) =
     [if is_case_insensitive then 18 OR push_bit 8 1 else 18, index]"
| "re_write ConsumeIfTrue = [19]"
| "re_write ConsumeIfFalse = [20]"
| "re_write (CompareEquals cp) = [opcode_with_u24_operand 21 cp]"
| "re_write (CompareBetween start stop) = [opcode_with_u24_operand 22 start, stop]"
| "re_write (Lookaround is_ahead is_positive body_branch) =
     [let first = 23;
          first = (if is_ahead then first OR push_bit 8 1 else first)
      in if is_positive then first OR push_bit 16 1 else first,
      body_branch]"

text \<open>The opcode and the operands, as the accessors of each instruction read them.\<close>

definition re_opcode_at :: "u32 list \<Rightarrow> nat \<Rightarrow> u32 option" where
  "re_opcode_at ws i = (if i < length ws then Some (get_packed_u8_operand (ws ! i) 0) else None)"

definition re_operands :: "u32 \<Rightarrow> u32 \<Rightarrow> (nat \<Rightarrow> u32) \<Rightarrow> re_instruction" where
  "re_operands opcode w arg =
     (if opcode = 0 then Literal (get_packed_u24_operand w)
      else if opcode = 1 then Wildcard
      else if opcode = 2 then WildcardNoNewline
      else if opcode = 3 then Jump (arg 1)
      else if opcode = 4 then Branch (arg 1) (arg 2)
      else if opcode = 5 then Accept
      else if opcode = 6 then Fail
      else if opcode = 7 then MarkCapturePoint (arg 1)
      else if opcode = 8 then ClearCapture (arg 1)
      else if opcode = 9 then Progress (arg 1)
      else if opcode = 10 then Loop (arg 1) (arg 2) (arg 3)
      else if opcode = 11 then AssertStart
      else if opcode = 12 then AssertEnd
      else if opcode = 13 then AssertStartOrNewline
      else if opcode = 14 then AssertEndOrNewline
      else if opcode = 15 then WordBoundaryMoveToPrevious
      else if opcode = 16 then AssertWordBoundary
      else if opcode = 17 then AssertNotWordBoundary
      else if opcode = 18 then Backreference (get_packed_u8_operand w 1 \<noteq> 0) (arg 1)
      else if opcode = 19 then ConsumeIfTrue
      else if opcode = 20 then ConsumeIfFalse
      else if opcode = 21 then CompareEquals (get_packed_u24_operand w)
      else if opcode = 22 then CompareBetween (get_packed_u24_operand w) (arg 1)
      else Lookaround (get_packed_u8_operand w 1 \<noteq> 0) (get_packed_u8_operand w 2 \<noteq> 0) (arg 1))"

definition re_read :: "u32 list \<Rightarrow> nat \<Rightarrow> re_instruction option" where
  "re_read ws i =
     do { opcode \<leftarrow> re_opcode_at ws i;
          sz \<leftarrow> re_opcode_size opcode;
          if i + sz \<le> length ws then Some (re_operands opcode (ws ! i) (\<lambda>k. ws ! (i + k))) else None }"

definition re_size :: "re_instruction \<Rightarrow> nat" where
  "re_size instr = (case re_opcode_size (re_opcode instr) of Some n \<Rightarrow> n | None \<Rightarrow> 0)"

text \<open>The iterator over a buffer: the instructions with the index of their first word.\<close>

function re_iter :: "u32 list \<Rightarrow> nat \<Rightarrow> (nat \<times> re_instruction) list option" where
  "re_iter ws i =
     (if i \<ge> length ws then Some []
      else do { instr \<leftarrow> re_read ws i;
                rest \<leftarrow> (if re_size instr = 0 then None else re_iter ws (i + re_size instr));
                Some ((i, instr) # rest) })"
  by pat_completeness auto
termination by (relation "measure (\<lambda>(ws, i). length ws - i)") auto

declare re_iter.simps [simp del]

subsection \<open>Reading back what was written\<close>

text \<open>The operands that are packed with the opcode have 24 bits.\<close>

definition fits_u24 :: "re_instruction \<Rightarrow> bool" where
  "fits_u24 instr =
     (case instr of Literal cp \<Rightarrow> cp < 2 ^ 24 | CompareEquals cp \<Rightarrow> cp < 2 ^ 24 | CompareBetween start stop \<Rightarrow> start < 2 ^ 24
      | _ \<Rightarrow> True)"

lemma low_bits:
  fixes w :: "'a::len word"
  assumes "w < 2 ^ n" "n < LENGTH('a)" "bit w k"
  shows "k < n"
proof -
  have "take_bit n w = w" using less_mask_eq [OF assms(1)] by (simp add: take_bit_eq_mask)
  then show ?thesis using assms(3) by (metis bit_take_bit_iff)
qed

lemma packed_operand:
  fixes opcode operand :: u32
  assumes "operand < 2 ^ 24" "opcode < 2 ^ 8"
  shows "get_packed_u24_operand (opcode_with_u24_operand opcode operand) = operand"
    and "get_packed_u8_operand (opcode_with_u24_operand opcode operand) 0 = opcode"
proof -
  have bits: "bit operand k \<Longrightarrow> k < 24" "bit opcode k \<Longrightarrow> k < 8" for k
    using low_bits [OF assms(1)] low_bits [OF assms(2)] by simp_all
  have mask: "(0xFF :: u32) = mask 8" by (simp add: mask_eq_exp_minus_1)
  show "get_packed_u24_operand (opcode_with_u24_operand opcode operand) = operand"
    by (rule bit_word_eqI)
      (auto simp: get_packed_u24_operand_def opcode_with_u24_operand_def bit_simps dest: bits)
  show "get_packed_u8_operand (opcode_with_u24_operand opcode operand) 0 = opcode"
    unfolding get_packed_u8_operand_def mask
    by (rule bit_word_eqI) (auto simp: opcode_with_u24_operand_def bit_simps dest: bits)
qed

lemma re_write_nonempty: "re_write instr \<noteq> []" "length (re_write instr) = re_size instr"
  by (cases instr; simp add: re_size_def re_opcode_size_def)+

lemma re_write_opcode:
  "fits_u24 instr \<Longrightarrow> get_packed_u8_operand (hd (re_write instr)) 0 = re_opcode instr"
  using packed_operand(2) [of _ 0] packed_operand(2) [of _ 21] packed_operand(2) [of _ 22]
  by (cases instr) (simp_all add: fits_u24_def get_packed_u8_operand_def)

lemma re_opcode_size_Some: "re_opcode_size (re_opcode instr) = Some (re_size instr)" "0 < re_size instr"
  by (cases instr; simp add: re_size_def re_opcode_size_def)+

lemma re_operands_write:
  assumes "fits_u24 instr"
  shows "re_operands (re_opcode instr) (hd (re_write instr)) (\<lambda>k. (re_write instr @ rest) ! k) = instr"
  using assms packed_operand(1) [of _ 0] packed_operand(1) [of _ 21] packed_operand(1) [of _ 22]
  by (cases instr) (simp_all add: fits_u24_def re_operands_def get_packed_u8_operand_def)

lemma re_read_write:
  assumes "fits_u24 instr"
  shows "re_read (pre @ re_write instr @ rest) (length pre) = Some instr"
proof -
  let ?ws = "pre @ re_write instr @ rest"
  have first: "?ws ! length pre = hd (re_write instr)"
    using re_write_nonempty(1) [of instr] by (simp add: nth_append hd_conv_nth)
  have arg: "(\<lambda>k. ?ws ! (length pre + k)) = (\<lambda>k. (re_write instr @ rest) ! k)" by (simp add: nth_append)
  have "re_opcode_at ?ws (length pre) = Some (re_opcode instr)"
    using re_write_nonempty(1) [of instr] re_write_opcode [OF assms] by (simp add: re_opcode_at_def first)
  then show ?thesis
    unfolding re_read_def arg first
    by (simp add: re_opcode_size_Some re_write_nonempty(2) re_operands_write [OF assms])
qed

definition encode :: "re_instruction list \<Rightarrow> u32 list" where
  "encode instrs = concat (map re_write instrs)"

text \<open>The instructions with the index of their first word.\<close>

primrec located :: "nat \<Rightarrow> re_instruction list \<Rightarrow> (nat \<times> re_instruction) list" where
  "located i [] = []"
| "located i (instr # instrs) = (i, instr) # located (i + re_size instr) instrs"

lemma encode_simps [simp]:
  "encode [] = []" "encode (instr # instrs) = re_write instr @ encode instrs" "encode (xs @ ys) = encode xs @ encode ys"
  by (simp_all add: encode_def)

lemma located_append: "located i (xs @ ys) = located i xs @ located (i + length (encode xs)) ys"
  by (induction xs arbitrary: i) (simp_all add: re_write_nonempty(2) ac_simps)

lemma re_iter_encode:
  assumes "list_all fits_u24 instrs"
  shows "re_iter (pre @ encode instrs) (length pre) = Some (located (length pre) instrs)"
  using assms
proof (induction instrs arbitrary: pre)
  case Nil
  then show ?case by (simp add: re_iter.simps)
next
  case (Cons instr instrs)
  have "re_iter ((pre @ re_write instr) @ encode instrs) (length (pre @ re_write instr)) =
      Some (located (length (pre @ re_write instr)) instrs)"
    using Cons by (intro Cons.IH) simp
  then show ?case
    using Cons.prems re_read_write [of instr pre "encode instrs"] re_opcode_size_Some(2) [of instr] re_write_nonempty(1) [of instr]
    by (subst re_iter.simps) (simp add: re_write_nonempty(2))
qed

text \<open>
  The engine reads back the instructions that the compiler writes. Iterating over the words of a
  sequence of instructions whose packed operands fit returns them in order, each at the index at
  which its first word was written; reading at such an index returns the instruction there.
\<close>

theorem regexp_code_roundtrip:
  assumes "list_all fits_u24 (xs @ instr # ys)"
  shows "re_iter (encode (xs @ instr # ys)) 0 = Some (located 0 (xs @ instr # ys)) \<and>
         located 0 (xs @ instr # ys) ! length xs = (length (encode xs), instr) \<and>
         re_read (encode (xs @ instr # ys)) (length (encode xs)) = Some instr"
proof -
  have "length (located i zs) = length zs" for i zs by (induction zs arbitrary: i) simp_all
  then have "located 0 (xs @ instr # ys) ! length xs = (length (encode xs), instr)"
    by (simp add: located_append nth_append)
  then show ?thesis
    using re_iter_encode [OF assms, of "[]"] re_read_write [of instr "encode xs" "encode ys"] assms by simp
qed

theorem regexp_code_roundtrip_witness:
  "re_iter (encode [Literal 0x1F600, Lookaround True False 7, Accept]) 0 =
     Some [(0, Literal 0x1F600), (1, Lookaround True False 7), (3, Accept)]"
  using regexp_code_roundtrip [of "[Literal 0x1F600]" "Lookaround True False 7" "[Accept]"]
  by (simp add: fits_u24_def re_size_def re_opcode_size_def)

end
