(* ===== verification/Regexp_Class.thy ===== *)
theory Regexp_Class
  imports Regexp_Instruction Wtf8
begin

section \<open>Regular expressions and character classes\<close>

text \<open>
  The syntax tree of regular expressions (\<open>parser/regexp.rs\<close>), and the part of the compiler
  that turns a character class into a set of code points and a set of strings
  (\<open>runtime/regexp/compiler.rs\<close>). Sets of code points are inversion lists of the ICU library,
  of the parameter type \<open>'cs\<close>, and unicode properties are of the parameter type \<open>'p\<close>; the
  operations on both, and the case tables, are the fields of \<open>icu_sets\<close>. A string is its WTF-8
  bytes. \<open>None\<close> is a panic.
\<close>

unbundle bit_operations_syntax

type_synonym regexp_flags = u8
type_synonym ast_str = "u8 list"

definition HAS_INDICES :: regexp_flags where "HAS_INDICES = push_bit 0 1"
definition GLOBAL :: regexp_flags where "GLOBAL = push_bit 1 1"
definition IGNORE_CASE :: regexp_flags where "IGNORE_CASE = push_bit 2 1"
definition MULTILINE :: regexp_flags where "MULTILINE = push_bit 3 1"
definition DOT_ALL :: regexp_flags where "DOT_ALL = push_bit 4 1"
definition UNICODE_AWARE :: regexp_flags where "UNICODE_AWARE = push_bit 5 1"
definition UNICODE_SETS :: regexp_flags where "UNICODE_SETS = push_bit 6 1"
definition STICKY :: regexp_flags where "STICKY = push_bit 7 1"

lemmas flag_defs = HAS_INDICES_def GLOBAL_def IGNORE_CASE_def MULTILINE_def DOT_ALL_def UNICODE_AWARE_def UNICODE_SETS_def STICKY_def

definition contains :: "regexp_flags \<Rightarrow> regexp_flags \<Rightarrow> bool" where
  "contains fl f \<longleftrightarrow> fl AND f = f"

definition is_case_insensitive :: "regexp_flags \<Rightarrow> bool" where
  "is_case_insensitive fl = contains fl IGNORE_CASE"

definition is_multiline :: "regexp_flags \<Rightarrow> bool" where
  "is_multiline fl = contains fl MULTILINE"

definition is_dot_all :: "regexp_flags \<Rightarrow> bool" where
  "is_dot_all fl = contains fl DOT_ALL"

definition has_unicode_sets_flag :: "regexp_flags \<Rightarrow> bool" where
  "has_unicode_sets_flag fl = contains fl UNICODE_SETS"

definition has_any_unicode_flag :: "regexp_flags \<Rightarrow> bool" where
  "has_any_unicode_flag fl \<longleftrightarrow> contains fl UNICODE_AWARE \<or> contains fl UNICODE_SETS"

definition is_sticky :: "regexp_flags \<Rightarrow> bool" where
  "is_sticky fl = contains fl STICKY"

datatype class_expression_type = ClassUnion | ClassIntersection | ClassDifference

datatype 'p class_range =
    Single u32
  | Range u32 u32
  | Digit
  | NotDigit
  | WordClass
  | NotWord
  | Whitespace
  | NotWhitespace
  | UnicodeProperty 'p
  | NotUnicodeProperty 'p
  | NestedClass "'p character_class"
  | StringDisjunction "ast_str list"
and 'p character_class = CharacterClass class_expression_type bool "'p class_range list"

datatype assertion = Start | End | WordBoundary | NotWordBoundary

datatype 'p disjunction = Disjunction "'p alternative list"
and 'p alternative = Alternative "'p re_term list"
and 'p re_term =
    TermLiteral ast_str
  | TermWildcard
  | TermQuantifier "'p re_term" u64 "u64 option" bool
  | TermAssertion assertion
  | TermLookaround bool bool "'p disjunction"
  | TermCaptureGroup "ast_str option" u32 "'p disjunction"
  | TermAnonymousGroup "'p disjunction" regexp_flags regexp_flags
  | TermCharacterClass "'p character_class"
  | TermBackreference u32

record 'p regexp =
  regexp_disjunction :: "'p disjunction"
  regexp_flags :: regexp_flags
  regexp_has_duplicate_named_capture_groups :: bool
  regexp_capture_groups :: "ast_str option list"

text \<open>
  What the compiler uses of ICU: the builder of inversion lists, the iterators of a built list (its
  inclusive ranges, and its scalar values, which leave out surrogates), the case tables, and the
  tables of properties.
\<close>

record ('cs, 'p) icu_sets =
  set_new :: 'cs
  set_all :: 'cs
  set_add_range :: "code_point \<Rightarrow> code_point \<Rightarrow> 'cs \<Rightarrow> 'cs"
  set_add_set :: "'cs \<Rightarrow> 'cs \<Rightarrow> 'cs"
  set_retain_set :: "'cs \<Rightarrow> 'cs \<Rightarrow> 'cs"
  set_remove_set :: "'cs \<Rightarrow> 'cs \<Rightarrow> 'cs"
  set_complement :: "'cs \<Rightarrow> 'cs"
  set_size :: "'cs \<Rightarrow> nat"
  set_iter_ranges :: "'cs \<Rightarrow> (code_point \<times> code_point) list"
  set_iter_chars :: "'cs \<Rightarrow> code_point list"
  set_simple_fold :: "code_point \<Rightarrow> code_point"
  set_add_case_closure_to :: "code_point \<Rightarrow> 'cs \<Rightarrow> 'cs"
  set_case_closure_override :: "code_point \<Rightarrow> 'cs option"
  set_all_case_folded :: 'cs
  property_add_to_set :: "'p \<Rightarrow> 'cs \<Rightarrow> 'cs"
  property_strings :: "'p \<Rightarrow> ast_str list"

definition set_add :: "('cs, 'p) icu_sets \<Rightarrow> code_point \<Rightarrow> 'cs \<Rightarrow> 'cs" where
  "set_add icu cp = set_add_range icu cp cp"

subsection \<open>Fixed sets\<close>

definition create_word_set_builder :: "('cs, 'p) icu_sets \<Rightarrow> 'cs" where
  "create_word_set_builder icu =
     set_add icu 0x5F (set_add_range icu 0x30 0x39 (set_add_range icu 0x41 0x5A (set_add_range icu 0x61 0x7A (set_new icu))))"

definition WORD_SET :: "('cs, 'p) icu_sets \<Rightarrow> 'cs" where
  "WORD_SET icu = create_word_set_builder icu"

definition WORD_CASE_INSENSITIVE_UNICODE_SET :: "('cs, 'p) icu_sets \<Rightarrow> 'cs" where
  "WORD_CASE_INSENSITIVE_UNICODE_SET icu = set_add icu 0x212A (set_add icu 0x017F (create_word_set_builder icu))"

definition NOT_WORD_SET :: "('cs, 'p) icu_sets \<Rightarrow> 'cs" where
  "NOT_WORD_SET icu = set_complement icu (create_word_set_builder icu)"

definition NOT_WORD_CASE_INSENSITIVE_UNICODE_SET :: "('cs, 'p) icu_sets \<Rightarrow> 'cs" where
  "NOT_WORD_CASE_INSENSITIVE_UNICODE_SET icu =
     set_complement icu (set_add icu 0x212A (set_add icu 0x017F (create_word_set_builder icu)))"

definition create_whitespace_set_builder :: "('cs, 'p) icu_sets \<Rightarrow> 'cs" where
  "create_whitespace_set_builder icu =
     fold (\<lambda>(a, b). set_add_range icu a b)
       [(0x9, 0xD), (0x20, 0x20), (0xA0, 0xA0), (0x1680, 0x1680), (0x2000, 0x200A), (0x2028, 0x2029),
        (0x202F, 0x202F), (0x205F, 0x205F), (0x3000, 0x3000), (0xFEFF, 0xFEFF)]
       (set_new icu)"

definition WHITESPACE_SET :: "('cs, 'p) icu_sets \<Rightarrow> 'cs" where
  "WHITESPACE_SET icu = create_whitespace_set_builder icu"

definition NOT_WHITESPACE_SET :: "('cs, 'p) icu_sets \<Rightarrow> 'cs" where
  "NOT_WHITESPACE_SET icu = set_complement icu (create_whitespace_set_builder icu)"

subsection \<open>Classes as sets\<close>

definition is_case_insensitive_unicode_sets :: "regexp_flags \<Rightarrow> bool" where
  "is_case_insensitive_unicode_sets fl \<longleftrightarrow> has_unicode_sets_flag fl \<and> is_case_insensitive fl"

definition complement_set :: "('cs, 'p) icu_sets \<Rightarrow> regexp_flags \<Rightarrow> 'cs \<Rightarrow> 'cs" where
  "complement_set icu fl cs =
     set_remove_set icu cs
       (set_add_set icu (if is_case_insensitive fl then set_all_case_folded icu else set_all icu) (set_new icu))"

definition maybe_simple_case_folding :: "('cs, 'p) icu_sets \<Rightarrow> regexp_flags \<Rightarrow> 'cs \<Rightarrow> 'cs" where
  "maybe_simple_case_folding icu fl cs =
     (if \<not> is_case_insensitive_unicode_sets fl then cs
      else fold (\<lambda>cp. set_add icu (set_simple_fold icu cp)) (set_iter_chars icu cs) (set_new icu))"

definition add_case_closure :: "('cs, 'p) icu_sets \<Rightarrow> regexp_flags \<Rightarrow> code_point \<Rightarrow> 'cs \<Rightarrow> 'cs" where
  "add_case_closure icu fl cp cs =
     (let cs = set_add icu cp cs in
      case (if has_any_unicode_flag fl then None else set_case_closure_override icu cp) of
        None \<Rightarrow> set_add_case_closure_to icu cp cs
      | Some override \<Rightarrow> set_add_set icu override cs)"

definition case_close_over :: "('cs, 'p) icu_sets \<Rightarrow> regexp_flags \<Rightarrow> 'cs \<Rightarrow> 'cs" where
  "case_close_over icu fl cs = fold (add_case_closure icu fl) (set_iter_chars icu cs) (set_new icu)"

text \<open>The arms of \<open>add_character_class_range_to_set\<close> for strings and for negated properties.\<close>

primrec add_string_disjunction :: "('cs, 'p) icu_sets \<Rightarrow> ast_str list \<Rightarrow> 'cs \<times> ast_str list \<Rightarrow> ('cs \<times> ast_str list) option" where
  "add_string_disjunction icu [] acc = Some acc"
| "add_string_disjunction icu (string # strings) acc =
     do { cps \<leftarrow> iter_code_points string;
          add_string_disjunction icu strings
            (case cps of
               [cp] \<Rightarrow> (set_add icu cp (fst acc), snd acc)
             | _ \<Rightarrow> (fst acc, List.insert string (snd acc))) }"

definition property_complement :: "('cs, 'p) icu_sets \<Rightarrow> regexp_flags \<Rightarrow> 'p \<Rightarrow> 'cs" where
  "property_complement icu fl property =
     (let property_set = property_add_to_set icu property (set_new icu) in
      if is_case_insensitive_unicode_sets fl then complement_set icu fl (maybe_simple_case_folding icu fl property_set)
      else set_complement icu property_set)"

type_synonym 'cs class_set = "'cs \<times> ast_str list"

text \<open>
  The body of \<open>character_class_to_set\<close>, with the operands given by the functions that add them
  to a builder: \<open>add_character_class_range_to_set\<close>, to which it is tied below.
\<close>

definition character_class_range_to_set ::
  "('cs, 'p) icu_sets \<Rightarrow> regexp_flags \<Rightarrow> ('cs class_set \<Rightarrow> 'cs class_set option) \<Rightarrow> 'cs class_set option" where
  "character_class_range_to_set icu fl add =
     do { (cs, strings) \<leftarrow> add (set_new icu, []); Some (maybe_simple_case_folding icu fl cs, strings) }"

primrec add_operands :: "('cs class_set \<Rightarrow> 'cs class_set option) list \<Rightarrow> 'cs class_set \<Rightarrow> 'cs class_set option" where
  "add_operands [] acc = Some acc"
| "add_operands (add # adds) acc = do { acc \<leftarrow> add acc; add_operands adds acc }"

primrec retain_operands ::
  "('cs, 'p) icu_sets \<Rightarrow> regexp_flags \<Rightarrow> ('cs class_set \<Rightarrow> 'cs class_set option) list \<Rightarrow> 'cs class_set \<Rightarrow> 'cs class_set option" where
  "retain_operands icu fl [] acc = Some acc"
| "retain_operands icu fl (add # adds) acc =
     do { (other_set, other_strings) \<leftarrow> character_class_range_to_set icu fl add;
          retain_operands icu fl adds
            (set_retain_set icu other_set (fst acc), filter (\<lambda>s. s \<in> set other_strings) (snd acc)) }"

primrec remove_operands ::
  "('cs, 'p) icu_sets \<Rightarrow> regexp_flags \<Rightarrow> ('cs class_set \<Rightarrow> 'cs class_set option) list \<Rightarrow> 'cs class_set \<Rightarrow> 'cs class_set option" where
  "remove_operands icu fl [] acc = Some acc"
| "remove_operands icu fl (add # adds) acc =
     do { (other_set, other_strings) \<leftarrow> character_class_range_to_set icu fl add;
          remove_operands icu fl adds
            (set_remove_set icu other_set (fst acc), filter (\<lambda>s. s \<notin> set other_strings) (snd acc)) }"

definition class_expression_to_set ::
  "('cs, 'p) icu_sets \<Rightarrow> regexp_flags \<Rightarrow> class_expression_type \<Rightarrow> bool \<Rightarrow> ('cs class_set \<Rightarrow> 'cs class_set option) list \<Rightarrow>
   'cs class_set option" where
  "class_expression_to_set icu fl expression_type is_inverted operands =
     do { (cs, strings) \<leftarrow>
            (case expression_type of
               ClassUnion \<Rightarrow>
                 do { (cs, strings) \<leftarrow> add_operands operands (set_new icu, []);
                      Some (maybe_simple_case_folding icu fl cs, strings) }
             | ClassIntersection \<Rightarrow>
                 (case operands of
                    [] \<Rightarrow> None
                  | first # rest \<Rightarrow>
                      do { (cs, strings) \<leftarrow> character_class_range_to_set icu fl first;
                           retain_operands icu fl rest (set_add_set icu cs (set_new icu), strings) })
             | ClassDifference \<Rightarrow>
                 (case operands of
                    [] \<Rightarrow> None
                  | first # rest \<Rightarrow>
                      do { (cs, strings) \<leftarrow> character_class_range_to_set icu fl first;
                           remove_operands icu fl rest (set_add_set icu cs (set_new icu), strings) }));
          Some (if is_inverted \<and> has_unicode_sets_flag fl then complement_set icu fl cs else cs, strings) }"

text \<open>The set that \<open>NotWord\<close>, \<open>NotWhitespace\<close> and \<open>NotDigit\<close> add.\<close>

definition not_word :: "('cs, 'p) icu_sets \<Rightarrow> regexp_flags \<Rightarrow> 'cs" where
  "not_word icu fl =
     (if is_case_insensitive fl \<and> has_any_unicode_flag fl then
        if has_unicode_sets_flag fl then complement_set icu fl (WORD_CASE_INSENSITIVE_UNICODE_SET icu)
        else NOT_WORD_CASE_INSENSITIVE_UNICODE_SET icu
      else NOT_WORD_SET icu)"

definition not_whitespace :: "('cs, 'p) icu_sets \<Rightarrow> regexp_flags \<Rightarrow> 'cs" where
  "not_whitespace icu fl =
     (if is_case_insensitive_unicode_sets fl then complement_set icu fl (WHITESPACE_SET icu) else NOT_WHITESPACE_SET icu)"

definition add_not_digit :: "('cs, 'p) icu_sets \<Rightarrow> regexp_flags \<Rightarrow> 'cs \<Rightarrow> 'cs" where
  "add_not_digit icu fl cs =
     (if is_case_insensitive_unicode_sets fl then
        set_add_set icu (complement_set icu fl (set_add_range icu 0x30 0x39 (set_new icu))) cs
      else set_add_range icu (0x39 + 1) MAX_CODE_POINT (set_add_range icu 0 (0x30 - 1) cs))"

primrec add_character_class_range_to_set ::
    "('cs, 'p) icu_sets \<Rightarrow> regexp_flags \<Rightarrow> 'p class_range \<Rightarrow> 'cs class_set \<Rightarrow> 'cs class_set option"
  and character_class_to_set ::
    "('cs, 'p) icu_sets \<Rightarrow> regexp_flags \<Rightarrow> 'p character_class \<Rightarrow> 'cs class_set option" where
  "add_character_class_range_to_set icu fl (Single cp) = (\<lambda>(cs, strings). Some (set_add icu cp cs, strings))"
| "add_character_class_range_to_set icu fl (Range start stop) = (\<lambda>(cs, strings). Some (set_add_range icu start stop cs, strings))"
| "add_character_class_range_to_set icu fl WordClass = (\<lambda>(cs, strings). Some (set_add_set icu (WORD_SET icu) cs, strings))"
| "add_character_class_range_to_set icu fl NotWord = (\<lambda>(cs, strings). Some (set_add_set icu (not_word icu fl) cs, strings))"
| "add_character_class_range_to_set icu fl Whitespace =
     (\<lambda>(cs, strings). Some (set_add_set icu (WHITESPACE_SET icu) cs, strings))"
| "add_character_class_range_to_set icu fl NotWhitespace =
     (\<lambda>(cs, strings). Some (set_add_set icu (not_whitespace icu fl) cs, strings))"
| "add_character_class_range_to_set icu fl Digit = (\<lambda>(cs, strings). Some (set_add_range icu 0x30 0x39 cs, strings))"
| "add_character_class_range_to_set icu fl NotDigit = (\<lambda>(cs, strings). Some (add_not_digit icu fl cs, strings))"
| "add_character_class_range_to_set icu fl (UnicodeProperty property) =
     (\<lambda>(cs, strings). Some (property_add_to_set icu property cs, fold List.insert (property_strings icu property) strings))"
| "add_character_class_range_to_set icu fl (NotUnicodeProperty property) =
     (\<lambda>(cs, strings). Some (set_add_set icu (property_complement icu fl property) cs, strings))"
| "add_character_class_range_to_set icu fl (NestedClass nested_class) =
     (\<lambda>(cs, strings).
        do { (code_points_set, string_set) \<leftarrow> character_class_to_set icu fl nested_class;
             Some (set_add_set icu code_points_set cs, fold List.insert string_set strings) })"
| "add_character_class_range_to_set icu fl (StringDisjunction alternatives) = add_string_disjunction icu alternatives"
| "character_class_to_set icu fl (CharacterClass expression_type is_inverted operands) =
     class_expression_to_set icu fl expression_type is_inverted (map (add_character_class_range_to_set icu fl) operands)"

end
