(* ===== verification/Lexer_Stream.thy ===== *)
theory Lexer_Stream
  imports Unicode
begin

section \<open>Input streams over heap strings\<close>

text \<open>
  The iterators over code units and code points (\<open>common/string_iterators.rs\<close>) and the lexer
  streams over strings of the heap (\<open>parser/lexer_stream.rs\<close>): over the bytes of a one-byte
  string, over the code units of a two-byte string, and over its code points. A stream has a
  position and the current code point, which is the one after the position when the last movement
  was forwards and the one before it when it was backwards; the trait's methods are the fields of
  the record \<open>stream_ops\<close>.

  A panic is \<open>None\<close>. A slice of the buffer, which the source passes around as bytes, is the
  list of its units. The stream over UTF-8 source text, which only the parser uses, and the
  parsing of one code point are not modelled.
\<close>

subsection \<open>Iterators over a string\<close>

text \<open>
  The iterator over code units is the list of those between its two pointers.
\<close>

type_synonym unit_iter = "code_unit list"

definition unit_next :: "unit_iter \<Rightarrow> (code_unit \<times> unit_iter) option" where
  "unit_next it = (case it of [] \<Rightarrow> None | u # us \<Rightarrow> Some (u, us))"

definition unit_next_back :: "unit_iter \<Rightarrow> (code_unit \<times> unit_iter) option" where
  "unit_next_back it = (if it = [] then None else Some (last it, butlast it))"

definition unit_peek :: "unit_iter \<Rightarrow> code_unit option" where
  "unit_peek it = (case it of [] \<Rightarrow> None | u # us \<Rightarrow> Some u)"

definition unit_peek_back :: "unit_iter \<Rightarrow> code_unit option" where
  "unit_peek_back it = (if it = [] then None else Some (last it))"

fun consume_equals :: "unit_iter \<Rightarrow> unit_iter \<Rightarrow> bool" where
  "consume_equals [] [] = True"
| "consume_equals [] (v # vs) = False"
| "consume_equals (u # us) [] = False"
| "consume_equals (u # us) (v # vs) = (if u \<noteq> v then False else consume_equals us vs)"

definition code_point_next :: "unit_iter \<Rightarrow> (code_point \<times> unit_iter) option" where
  "code_point_next it =
     (case unit_next it of
        None \<Rightarrow> None
      | Some (code_unit, it) \<Rightarrow>
          if is_high_surrogate_code_unit code_unit then
            (case unit_peek it of
               Some next_code_unit \<Rightarrow>
                 if is_low_surrogate_code_unit next_code_unit then
                   Some (code_point_from_surrogate_pair code_unit next_code_unit,
                         case unit_next it of None \<Rightarrow> it | Some (_, it) \<Rightarrow> it)
                 else Some (ucast code_unit, it)
             | None \<Rightarrow> Some (ucast code_unit, it))
          else Some (ucast code_unit, it))"

text \<open>From the back, the second unit of a pair is taken with \<open>next\<close>, from the front.\<close>

definition code_point_next_back :: "unit_iter \<Rightarrow> (code_point \<times> unit_iter) option" where
  "code_point_next_back it =
     (case unit_next_back it of
        None \<Rightarrow> None
      | Some (code_unit, it) \<Rightarrow>
          if is_low_surrogate_code_unit code_unit then
            (case unit_peek_back it of
               Some prev_code_unit \<Rightarrow>
                 if is_high_surrogate_code_unit prev_code_unit then
                   Some (code_point_from_surrogate_pair prev_code_unit code_unit,
                         case unit_next it of None \<Rightarrow> it | Some (_, it) \<Rightarrow> it)
                 else Some (ucast code_unit, it)
             | None \<Rightarrow> Some (ucast code_unit, it))
          else Some (ucast code_unit, it))"

subsection \<open>Streams\<close>

definition EOF_CHAR :: code_point where "EOF_CHAR = 0x110000"

record saved_state =
  saved_current :: code_point
  saved_pos :: nat

record 'u lexer_stream =
  ls_buf :: "'u list"
  ls_pos :: nat
  ls_current :: code_point

record 's stream_ops =
  so_pos :: "'s \<Rightarrow> nat"
  so_current :: "'s \<Rightarrow> code_point"
  so_len :: "'s \<Rightarrow> nat"
  so_advance_n :: "nat \<Rightarrow> 's \<Rightarrow> 's"
  so_advance_backwards_n :: "nat \<Rightarrow> 's \<Rightarrow> 's"
  so_advance_code_point :: "'s \<Rightarrow> 's"
  so_advance_backwards_code_point :: "'s \<Rightarrow> 's option"
  so_peek_prev_code_point :: "'s \<Rightarrow> code_point"
  so_peek_next_code_point :: "'s \<Rightarrow> code_point"
  so_iter_slice :: "nat \<Rightarrow> nat \<Rightarrow> 's \<Rightarrow> unit_iter option"
  so_iter_next :: "unit_iter \<Rightarrow> (code_point \<times> unit_iter) option"
  so_iter_next_back :: "unit_iter \<Rightarrow> (code_point \<times> unit_iter) option"
  so_slice :: "nat \<Rightarrow> nat \<Rightarrow> 's \<Rightarrow> code_unit list option"
  so_slice_equals :: "nat \<Rightarrow> code_unit list \<Rightarrow> 's \<Rightarrow> bool"
  so_save :: "'s \<Rightarrow> saved_state"
  so_restore :: "saved_state \<Rightarrow> 's \<Rightarrow> 's"

text \<open>The default methods of the trait.\<close>

definition is_start :: "'s stream_ops \<Rightarrow> 's \<Rightarrow> bool" where
  "is_start ops s \<longleftrightarrow> so_pos ops s = 0"

definition is_end :: "'s stream_ops \<Rightarrow> 's \<Rightarrow> bool" where
  "is_end ops s \<longleftrightarrow> so_pos ops s = so_len ops s"

definition has_current :: "'s stream_ops \<Rightarrow> 's \<Rightarrow> bool" where
  "has_current ops s \<longleftrightarrow> so_current ops s \<noteq> EOF_CHAR"

text \<open>What the three streams have in common; saving and restoring are the same text in all.\<close>

definition ls_save :: "'u lexer_stream \<Rightarrow> saved_state" where
  "ls_save s = \<lparr>saved_current = ls_current s, saved_pos = ls_pos s\<rparr>"

definition ls_restore :: "saved_state \<Rightarrow> 'u lexer_stream \<Rightarrow> 'u lexer_stream" where
  "ls_restore v s = s\<lparr>ls_current := saved_current v, ls_pos := saved_pos v\<rparr>"

text \<open>\<open>&buf[start..end]\<close>.\<close>

definition buf_slice :: "'u::len word list \<Rightarrow> nat \<Rightarrow> nat \<Rightarrow> code_unit list option" where
  "buf_slice buf start stop =
     (if start \<le> stop \<and> stop \<le> length buf then Some (map ucast (drop start (take stop buf))) else None)"

definition buf_slice_equals :: "'u::len word list \<Rightarrow> nat \<Rightarrow> code_unit list \<Rightarrow> bool" where
  "buf_slice_equals buf start sl =
     (let stop = start + length sl in
      if stop > length buf then False else map ucast (drop start (take stop buf)) = sl)"

subsection \<open>Streams of single units\<close>

text \<open>
  The streams over bytes and over code units have the same methods on units of different width.
\<close>

definition unit_new :: "'u::len word list \<Rightarrow> 'u word lexer_stream" where
  "unit_new buf = \<lparr>ls_buf = buf, ls_pos = 0, ls_current = (if buf = [] then EOF_CHAR else ucast (hd buf))\<rparr>"

definition unit_at :: "'u::len word lexer_stream \<Rightarrow> nat \<Rightarrow> code_point" where
  "unit_at s index = ucast (ls_buf s ! index)"

definition unit_before :: "'u::len word lexer_stream \<Rightarrow> nat \<Rightarrow> code_point" where
  "unit_before s index = ucast (ls_buf s ! (index - 1))"

definition unit_advance_n :: "nat \<Rightarrow> 'u::len word lexer_stream \<Rightarrow> 'u word lexer_stream" where
  "unit_advance_n n s =
     (let pos = ls_pos s + n in
      if pos < length (ls_buf s) then s\<lparr>ls_pos := pos, ls_current := unit_at s pos\<rparr>
      else s\<lparr>ls_pos := length (ls_buf s), ls_current := EOF_CHAR\<rparr>)"

definition unit_advance_backwards_n :: "nat \<Rightarrow> 'u::len word lexer_stream \<Rightarrow> 'u word lexer_stream" where
  "unit_advance_backwards_n n s =
     (if n \<le> ls_pos s \<and> ls_pos s - n > 0
      then s\<lparr>ls_pos := ls_pos s - n, ls_current := unit_before s (ls_pos s - n)\<rparr>
      else s\<lparr>ls_pos := 0, ls_current := EOF_CHAR\<rparr>)"

definition unit_peek_prev :: "'u::len word lexer_stream \<Rightarrow> code_point" where
  "unit_peek_prev s = (if ls_pos s = 0 then EOF_CHAR else unit_before s (ls_pos s))"

definition unit_peek_next :: "'u::len word lexer_stream \<Rightarrow> code_point" where
  "unit_peek_next s = (if ls_pos s = length (ls_buf s) then EOF_CHAR else unit_at s (ls_pos s))"

definition unit_ops ::
  "(unit_iter \<Rightarrow> (code_point \<times> unit_iter) option) \<Rightarrow> (unit_iter \<Rightarrow> (code_point \<times> unit_iter) option) \<Rightarrow>
   'u::len word lexer_stream stream_ops" where
  "unit_ops iter_next iter_next_back =
     \<lparr>so_pos = ls_pos, so_current = ls_current, so_len = (\<lambda>s. length (ls_buf s)),
      so_advance_n = unit_advance_n, so_advance_backwards_n = unit_advance_backwards_n,
      so_advance_code_point = unit_advance_n 1,
      so_advance_backwards_code_point = (\<lambda>s. Some (unit_advance_backwards_n 1 s)),
      so_peek_prev_code_point = unit_peek_prev, so_peek_next_code_point = unit_peek_next,
      so_iter_slice = (\<lambda>start stop s. buf_slice (ls_buf s) start stop),
      so_iter_next = iter_next, so_iter_next_back = iter_next_back,
      so_slice = (\<lambda>start stop s. buf_slice (ls_buf s) start stop),
      so_slice_equals = (\<lambda>start sl s. buf_slice_equals (ls_buf s) start sl),
      so_save = ls_save, so_restore = ls_restore\<rparr>"

definition one_byte_ops :: "u8 lexer_stream stream_ops" where
  "one_byte_ops = unit_ops code_point_next code_point_next_back"

definition code_unit_ops :: "u16 lexer_stream stream_ops" where
  "code_unit_ops =
     unit_ops (map_option (map_prod ucast id) \<circ> unit_next) (map_option (map_prod ucast id) \<circ> unit_next_back)"

subsection \<open>The stream of code points\<close>

definition cp_at :: "u16 lexer_stream \<Rightarrow> nat \<Rightarrow> code_point \<times> nat" where
  "cp_at s index =
     (let buf = ls_buf s; code_unit = buf ! index in
      if is_high_surrogate_code_unit code_unit \<and> index + 1 < length buf \<and> is_low_surrogate_code_unit (buf ! (index + 1))
      then (code_point_from_surrogate_pair code_unit (buf ! (index + 1)), 2)
      else (ucast code_unit, 1))"

definition cp_before :: "u16 lexer_stream \<Rightarrow> nat \<Rightarrow> code_point \<times> nat" where
  "cp_before s index =
     (let buf = ls_buf s; code_unit = buf ! (index - 1) in
      if is_low_surrogate_code_unit code_unit \<and> index \<ge> 2 \<and> is_high_surrogate_code_unit (buf ! (index - 2))
      then (code_point_from_surrogate_pair (buf ! (index - 2)) code_unit, 2)
      else (ucast code_unit, 1))"

definition cp_advance_n :: "nat \<Rightarrow> u16 lexer_stream \<Rightarrow> u16 lexer_stream" where
  "cp_advance_n n s =
     (let pos = ls_pos s + n in
      if pos < length (ls_buf s) then s\<lparr>ls_pos := pos, ls_current := fst (cp_at s pos)\<rparr>
      else s\<lparr>ls_pos := length (ls_buf s), ls_current := EOF_CHAR\<rparr>)"

definition cp_advance_backwards_n :: "nat \<Rightarrow> u16 lexer_stream \<Rightarrow> u16 lexer_stream" where
  "cp_advance_backwards_n n s =
     (if n \<le> ls_pos s \<and> ls_pos s - n > 0
      then s\<lparr>ls_pos := ls_pos s - n, ls_current := fst (cp_before s (ls_pos s - n))\<rparr>
      else s\<lparr>ls_pos := 0, ls_current := EOF_CHAR\<rparr>)"

definition cp_advance_code_point :: "u16 lexer_stream \<Rightarrow> u16 lexer_stream" where
  "cp_advance_code_point s =
     (if ls_pos s = length (ls_buf s) then s
      else if needs_surrogate_pair (ls_current s) then cp_advance_n 2 s else cp_advance_n 1 s)"

text \<open>
  Backwards, the source moves by \<open>advance_backwards_n\<close> and then once more by hand; the
  subtraction from the position panics when the first movement reached the start.
\<close>

definition cp_advance_backwards_code_point :: "u16 lexer_stream \<Rightarrow> u16 lexer_stream option" where
  "cp_advance_backwards_code_point s =
     (if ls_pos s = 0 then Some s
      else
        let s = (if needs_surrogate_pair (ls_current s) then cp_advance_backwards_n 2 s else cp_advance_backwards_n 1 s);
            buf = ls_buf s; pos = ls_pos s
        in if pos = 0 then None
           else
             let prev_code_unit = buf ! (pos - 1) in
             if is_low_surrogate_code_unit prev_code_unit \<and> pos \<ge> 2 \<and> is_high_surrogate_code_unit (buf ! (pos - 2))
             then Some (s\<lparr>ls_pos := pos - 2, ls_current := code_point_from_surrogate_pair (buf ! (pos - 2)) prev_code_unit\<rparr>)
             else Some (s\<lparr>ls_pos := pos - 1, ls_current := ucast prev_code_unit\<rparr>))"

definition cp_peek_prev :: "u16 lexer_stream \<Rightarrow> code_point" where
  "cp_peek_prev s = (if ls_pos s = 0 then EOF_CHAR else fst (cp_before s (ls_pos s)))"

definition cp_peek_next :: "u16 lexer_stream \<Rightarrow> code_point" where
  "cp_peek_next s = (if ls_pos s = length (ls_buf s) then EOF_CHAR else fst (cp_at s (ls_pos s)))"

definition code_point_ops :: "u16 lexer_stream stream_ops" where
  "code_point_ops =
     \<lparr>so_pos = ls_pos, so_current = ls_current, so_len = (\<lambda>s. length (ls_buf s)),
      so_advance_n = cp_advance_n, so_advance_backwards_n = cp_advance_backwards_n,
      so_advance_code_point = cp_advance_code_point,
      so_advance_backwards_code_point = cp_advance_backwards_code_point,
      so_peek_prev_code_point = cp_peek_prev, so_peek_next_code_point = cp_peek_next,
      so_iter_slice = (\<lambda>start stop s. buf_slice (ls_buf s) start stop),
      so_iter_next = code_point_next, so_iter_next_back = code_point_next_back,
      so_slice = (\<lambda>start stop s. buf_slice (ls_buf s) start stop),
      so_slice_equals = (\<lambda>start sl s. buf_slice_equals (ls_buf s) start sl),
      so_save = ls_save, so_restore = ls_restore\<rparr>"

subsection \<open>What a stream is for its clients\<close>

text \<open>
  Moving never changes the string below a stream, and restoring a saved state on any stream over
  the same string gives back the stream that was saved. \<open>src\<close> is the string.
\<close>

locale text_stream =
  fixes ops :: "'s stream_ops" and src :: "'s \<Rightarrow> 'b"
  assumes src_advance_n [simp]: "src (so_advance_n ops n s) = src s"
    and src_advance_backwards_n [simp]: "src (so_advance_backwards_n ops n s) = src s"
    and src_advance_code_point [simp]: "src (so_advance_code_point ops s) = src s"
    and src_advance_backwards_code_point: "so_advance_backwards_code_point ops s = Some s' \<Longrightarrow> src s' = src s"
    and src_restore [simp]: "src (so_restore ops v s) = src s"
    and restore_save: "src s' = src s \<Longrightarrow> so_restore ops (so_save ops s) s' = s"

lemmas stream_defs = unit_ops_def one_byte_ops_def code_unit_ops_def code_point_ops_def

lemma ls_restore_save: "ls_buf s' = ls_buf s \<Longrightarrow> ls_restore (ls_save s) s' = (s :: 'u lexer_stream)"
  by (simp add: ls_restore_def ls_save_def)

lemma ls_restore_src: "ls_buf (ls_restore v s) = ls_buf s"
  by (simp add: ls_restore_def)

lemma unit_text_stream: "text_stream (unit_ops f g) ls_buf"
  by unfold_locales
    (auto simp: unit_ops_def unit_advance_n_def unit_advance_backwards_n_def Let_def ls_restore_src ls_restore_save)

interpretation ob: text_stream one_byte_ops ls_buf
  unfolding one_byte_ops_def by (rule unit_text_stream)

interpretation cu: text_stream code_unit_ops ls_buf
  unfolding code_unit_ops_def by (rule unit_text_stream)

interpretation cp: text_stream code_point_ops ls_buf
  by unfold_locales
    (auto simp: code_point_ops_def cp_advance_n_def cp_advance_backwards_n_def cp_advance_code_point_def
      cp_advance_backwards_code_point_def Let_def ls_restore_src ls_restore_save split: if_splits)

subsection \<open>Reading a string\<close>

text \<open>The code points of a string of code units: surrogate pairs are joined.\<close>

fun decode_units :: "code_unit list \<Rightarrow> code_point list" where
  "decode_units [] = []"
| "decode_units [u] = [ucast u]"
| "decode_units (u # v # us) =
     (if is_high_surrogate_code_unit u \<and> is_low_surrogate_code_unit v
      then code_point_from_surrogate_pair u v # decode_units us
      else ucast u # decode_units (v # us))"

fun read_iter :: "(unit_iter \<Rightarrow> (code_point \<times> unit_iter) option) \<Rightarrow> nat \<Rightarrow> unit_iter \<Rightarrow> code_point list" where
  "read_iter f 0 it = []"
| "read_iter f (Suc n) it = (case f it of None \<Rightarrow> [] | Some (c, it) \<Rightarrow> c # read_iter f n it)"

fun read_stream :: "'s stream_ops \<Rightarrow> nat \<Rightarrow> 's \<Rightarrow> code_point list" where
  "read_stream ops 0 s = []"
| "read_stream ops (Suc n) s =
     (if has_current ops s then so_current ops s # read_stream ops n (so_advance_code_point ops s) else [])"

lemma code_point_next_simps [simp]:
  "code_point_next [] = None"
  "code_point_next [u] = Some (ucast u, [])"
  "code_point_next (u # v # us) =
     (if is_high_surrogate_code_unit u \<and> is_low_surrogate_code_unit v
      then Some (code_point_from_surrogate_pair u v, us) else Some (ucast u, v # us))"
  by (simp_all add: code_point_next_def unit_next_def unit_peek_def)

lemma read_iter_decode: "length it \<le> n \<Longrightarrow> read_iter code_point_next n it = decode_units it"
proof (induction it arbitrary: n rule: decode_units.induct)
  case (1 n)
  then show ?case by (cases n) simp_all
next
  case (2 u n)
  then obtain m where "n = Suc m" by (cases n) auto
  then show ?case by (cases m) simp_all
next
  case (3 u v us n)
  then obtain m where "n = Suc m" by (cases n) auto
  then show ?case using 3 by simp
qed

lemma pair_bounds:
  assumes "is_high_surrogate_code_unit u" "is_low_surrogate_code_unit v"
  shows "needs_surrogate_pair (code_point_from_surrogate_pair u v)" "code_point_from_surrogate_pair u v \<noteq> EOF_CHAR"
proof -
  have u: "unat u - 0xD800 \<le> 0x3FF" "unat v - 0xDC00 \<le> 0x3FF"
    using assms by (auto simp: is_high_surrogate_code_unit_def is_low_surrogate_code_unit_def
        HIGH_SURROGATE_START_def HIGH_SURROGATE_END_def LOW_SURROGATE_START_def LOW_SURROGATE_END_def word_le_nat_alt)
  have eq: "unat (code_point_from_surrogate_pair u v) = (unat u - 0xD800) * 1024 + (unat v - 0xDC00) + 0x10000"
    by (rule code_point_from_surrogate_pair_arith [OF assms])
  show "needs_surrogate_pair (code_point_from_surrogate_pair u v)" by (simp add: needs_surrogate_pair_def word_le_nat_alt eq)
  have "(unat u - 0xD800) * 1024 \<le> 0x3FF * 1024" using u(1) by simp
  then have "unat (code_point_from_surrogate_pair u v) < 0x110000" using u(2) eq by linarith
  then show "code_point_from_surrogate_pair u v \<noteq> EOF_CHAR" by (auto simp: EOF_CHAR_def)
qed

lemma unit_bounds: "\<not> needs_surrogate_pair (ucast (u :: u16))" "ucast (u :: u16) \<noteq> EOF_CHAR"
proof -
  have u: "unat (ucast u :: u32) < 2 ^ 16" using unsigned_less [of u, where ?'a = nat] by (simp add: unsigned_ucast_eq take_bit_nat_eq_self)
  then show "\<not> needs_surrogate_pair (ucast u)" by (simp add: needs_surrogate_pair_def word_le_nat_alt)
  show "ucast u \<noteq> EOF_CHAR" using u by (auto simp: EOF_CHAR_def)
qed

lemma decode_units_at:
  assumes "p < length buf" "ls_buf s = buf"
  shows "decode_units (drop p buf) = fst (cp_at s p) # decode_units (drop (p + snd (cp_at s p)) buf)"
    and "p + snd (cp_at s p) \<le> length buf" "0 < snd (cp_at s p)"
proof -
  have d: "drop p buf = buf ! p # drop (Suc p) buf" using assms(1) by (rule Cons_nth_drop_Suc [symmetric])
  show "decode_units (drop p buf) = fst (cp_at s p) # decode_units (drop (p + snd (cp_at s p)) buf)"
  proof (cases "Suc p < length buf")
    case True
    then have "drop (Suc p) buf = buf ! Suc p # drop (Suc (Suc p)) buf" by (rule Cons_nth_drop_Suc [symmetric])
    then show ?thesis using True assms(2) d by (simp add: cp_at_def Let_def)
  qed (use assms(2) d in \<open>simp add: cp_at_def Let_def\<close>)
  show "p + snd (cp_at s p) \<le> length buf" "0 < snd (cp_at s p)"
    using assms by (simp_all add: cp_at_def Let_def)
qed

lemma cp_at_current:
  "fst (cp_at s p) \<noteq> EOF_CHAR" "needs_surrogate_pair (fst (cp_at s p)) \<longleftrightarrow> snd (cp_at s p) = 2"
  "snd (cp_at s p) = 1 \<or> snd (cp_at s p) = 2"
  by (auto simp: cp_at_def Let_def pair_bounds unit_bounds)

lemma read_stream_decode:
  assumes "ls_pos s + j \<le> length (ls_buf s)" "length (ls_buf s) - (ls_pos s + j) \<le> n"
  shows "read_stream code_point_ops n (cp_advance_n j s) = decode_units (drop (ls_pos s + j) (ls_buf s))"
  using assms
proof (induction n arbitrary: s j)
  case (Suc n)
  let ?p = "ls_pos s + j" and ?s = "cp_advance_n j s" and ?buf = "ls_buf s"
  show ?case
  proof (cases "?p < length ?buf")
    case True
    have s: "ls_pos ?s = ?p" "ls_buf ?s = ?buf" "ls_current ?s = fst (cp_at s ?p)"
      using True by (simp_all add: cp_advance_n_def Let_def)
    note at = decode_units_at [OF True refl] cp_at_current [of s ?p]
    have "cp_advance_code_point ?s = cp_advance_n (snd (cp_at s ?p)) ?s"
      using True s at(5,6) by (auto simp: cp_advance_code_point_def)
    then have "read_stream code_point_ops (Suc n) ?s =
        fst (cp_at s ?p) # read_stream code_point_ops n (cp_advance_n (snd (cp_at s ?p)) ?s)"
      using s at(4) by (simp add: has_current_def code_point_ops_def)
    also have "read_stream code_point_ops n (cp_advance_n (snd (cp_at s ?p)) ?s) =
        decode_units (drop (ls_pos ?s + snd (cp_at s ?p)) (ls_buf ?s))"
      by (rule Suc.IH) (use s at(2,3) Suc.prems in auto)
    finally show ?thesis using at(1) s by simp
  qed (use Suc.prems in \<open>simp add: cp_advance_n_def Let_def has_current_def code_point_ops_def\<close>)
qed simp

text \<open>
  C29: reading a two-byte string to its end, through the iterator or through the stream from any
  position, gives the code points of the rest of the string, with surrogate pairs joined.
\<close>

theorem code_points_read:
  assumes "i \<le> length buf" "length buf - i \<le> n"
  shows "read_stream code_point_ops n (cp_advance_n i (unit_new buf)) = decode_units (drop i buf) \<and>
         read_iter code_point_next n (drop i buf) = decode_units (drop i buf)"
proof -
  have "read_stream code_point_ops n (cp_advance_n i (unit_new buf)) = decode_units (drop i buf)"
    using read_stream_decode [of "unit_new buf" i n] assms by (simp add: unit_new_def)
  then show ?thesis using assms by (simp add: read_iter_decode)
qed

theorem code_points_read_witness:
  "read_stream code_point_ops 4 (cp_advance_n 1 (unit_new [0x61, 0xD83D, 0xDE00, 0x62])) = [0x1F600, 0x62]"
proof -
  have "decode_units (drop 1 [0x61, 0xD83D, 0xDE00, 0x62]) = [0x1F600, 0x62]"
    by (simp add: is_high_surrogate_code_unit_def is_low_surrogate_code_unit_def code_point_from_surrogate_pair_def
        HIGH_SURROGATE_START_def HIGH_SURROGATE_END_def LOW_SURROGATE_START_def LOW_SURROGATE_END_def)
  then show ?thesis using code_points_read [of 1 "[0x61, 0xD83D, 0xDE00, 0x62]" 4] by simp
qed

text \<open>
  Stepping backwards over the first code point of a two-byte string panics: after the movement
  the source steps back once more by hand, from the start of the string. Elsewhere it moves two code
  points instead of one.
\<close>

theorem backward_step_panics:
  assumes "buf \<noteq> []"
  shows "cp_advance_backwards_code_point
           (cp_advance_backwards_n 0 ((unit_new buf)\<lparr>ls_pos := snd (cp_at (unit_new buf) 0)\<rparr>)) = None"
proof (cases "snd (cp_at (unit_new buf) 0) = 2")
  case True
  then have "1 < length buf" "is_high_surrogate_code_unit (buf ! 0)" "is_low_surrogate_code_unit (buf ! 1)"
    by (simp_all add: cp_at_def unit_new_def Let_def split: if_splits)
  then show ?thesis
    using True by (simp add: cp_advance_backwards_n_def cp_advance_backwards_code_point_def cp_before_def unit_new_def pair_bounds)
next
  case False
  then have "snd (cp_at (unit_new buf) 0) = 1" using cp_at_current(3) by blast
  then show ?thesis
    by (simp add: cp_advance_backwards_n_def cp_advance_backwards_code_point_def cp_before_def unit_new_def unit_bounds)
qed

theorem backward_step_panics_witness:
  "cp_advance_backwards_code_point (cp_advance_backwards_n 0 ((unit_new [0x3B1, 0x3B2])\<lparr>ls_pos := 1\<rparr>)) = None"
  using backward_step_panics [of "[0x3B1, 0x3B2]"]
  by (simp add: cp_at_def unit_new_def is_high_surrogate_code_unit_def HIGH_SURROGATE_START_def HIGH_SURROGATE_END_def)

text \<open>
  The iterator over code points loses text when it meets a surrogate pair at the back: it takes
  the first unit of the string out instead of the other half of the pair, which then comes again.
\<close>

theorem next_back_loses_unit:
  assumes "is_high_surrogate_code_unit h" "is_low_surrogate_code_unit l"
  shows "code_point_next_back (u # us @ [h, l]) = Some (code_point_from_surrogate_pair h l, us @ [h])"
proof -
  have "unit_next_back (u # us @ [h, l]) = Some (l, u # us @ [h])" by (simp add: unit_next_back_def butlast_append)
  moreover have "unit_peek_back (u # us @ [h]) = Some h" by (simp add: unit_peek_back_def)
  ultimately show ?thesis using assms by (simp add: code_point_next_back_def unit_next_def)
qed

theorem next_back_loses_unit_witness:
  "code_point_next_back [0x61, 0xD83D, 0xDE00] = Some (0x1F600, [0xD83D])"
proof -
  have "is_high_surrogate_code_unit 0xD83D" "is_low_surrogate_code_unit 0xDE00" "code_point_from_surrogate_pair 0xD83D 0xDE00 = 0x1F600"
    by (simp_all add: is_high_surrogate_code_unit_def is_low_surrogate_code_unit_def code_point_from_surrogate_pair_def
        HIGH_SURROGATE_START_def HIGH_SURROGATE_END_def LOW_SURROGATE_START_def LOW_SURROGATE_END_def)
  then show ?thesis using next_back_loses_unit [of "0xD83D" "0xDE00" "0x61" "[]"] by simp
qed

end
