(* ===== verification/Flat_String.thy ===== *)
theory Flat_String
  imports Lexer_Stream Wtf8
begin

section \<open>Flat strings\<close>

text \<open>
  Flat strings of the JavaScript heap (\<open>FlatString\<close> of \<open>runtime/string_value.rs\<close>): a
  sequence of code units that are stored as bytes when all of them are in Latin1, and as 16-bit
  units otherwise or when the string was built that way. The constructors here give the contents of
  the new string; placing it on the heap is modelled in \<open>Rope_String\<close>. The descriptor, the
  interned flag and the cached hash code are left out. A panic is \<open>None\<close>.
\<close>

datatype flat_string = OneByte "u8 list" | TwoByte "u16 list"

datatype string_width = OneByteWidth | TwoByteWidth

primrec flat_width :: "flat_string \<Rightarrow> string_width" where
  "flat_width (OneByte buf) = OneByteWidth"
| "flat_width (TwoByte buf) = TwoByteWidth"

primrec flat_len :: "flat_string \<Rightarrow> u32" where
  "flat_len (OneByte buf) = of_nat (length buf)"
| "flat_len (TwoByte buf) = of_nat (length buf)"

definition MAX_STRING_LENGTH :: u32 where "MAX_STRING_LENGTH = - 1 - 2"

definition check_string_length :: "nat \<Rightarrow> u32 option" where
  "check_string_length n = (if n > unat MAX_STRING_LENGTH then None else Some (of_nat n))"

definition new_one_byte :: "u8 list \<Rightarrow> flat_string option" where
  "new_one_byte buf = do { _ \<leftarrow> check_string_length (length buf); Some (OneByte buf) }"

definition new_two_byte :: "u16 list \<Rightarrow> flat_string option" where
  "new_two_byte buf = do { _ \<leftarrow> check_string_length (length buf); Some (TwoByte buf) }"

subsection \<open>Strings from code points\<close>

text \<open>
  The copying loop of \<open>from_wtf8\<close> and of \<open>from_code_points\<close>: a code point above the
  basic plane becomes a surrogate pair, any other is truncated to 16 bits. In \<open>from_wtf8\<close> the
  buffer has room for exactly the units counted before.
\<close>

definition code_point_units :: "code_point \<Rightarrow> code_unit list" where
  "code_point_units cp =
     (case try_encode_surrogate_pair cp of None \<Rightarrow> [ucast cp] | Some (high, low) \<Rightarrow> [high, low])"

fun count_units :: "code_point list \<Rightarrow> nat" where
  "count_units [] = 0"
| "count_units (cp # cps) =
     (if \<not> is_ascii cp then
        if \<not> is_latin1 cp then if needs_surrogate_pair cp then 2 else 1 else 1
      else 1) + count_units cps"

text \<open>Writing units into the room that is left; running out of it is an index panic.\<close>

fun write_units :: "nat \<Rightarrow> 'u list \<Rightarrow> 'u list list \<Rightarrow> 'u list option" where
  "write_units n buf [] = Some buf"
| "write_units n buf (us # rest) = (if length (buf @ us) > n then None else write_units n (buf @ us) rest)"

text \<open>
  \<open>set_len\<close> then declares the whole buffer written, which is undefined behaviour when it is
  not; that is \<open>None\<close> too.
\<close>

definition filled :: "nat \<Rightarrow> 'u list option \<Rightarrow> 'u list option" where
  "filled n r = do { buf \<leftarrow> r; if length buf = n then Some buf else None }"

definition from_wtf8 :: "u8 list \<Rightarrow> flat_string option" where
  "from_wtf8 bytes =
     do { cps \<leftarrow> Wtf8.iter_code_points bytes;
          let has_two_byte_chars = list_ex (\<lambda>cp. \<not> is_ascii cp \<and> \<not> is_latin1 cp) cps;
              has_non_ascii_one_byte_chars = list_ex (\<lambda>cp. \<not> is_ascii cp \<and> is_latin1 cp) cps;
              n = count_units cps
          in if has_two_byte_chars then
               do { buf \<leftarrow> filled n (write_units n [] (map code_point_units cps)); new_two_byte buf }
             else if \<not> has_non_ascii_one_byte_chars then new_one_byte bytes
             else do { buf \<leftarrow> filled n (write_units n [] (map (\<lambda>cp. [ucast cp]) cps)); new_one_byte buf } }"

definition from_code_points :: "code_point list \<Rightarrow> flat_string option" where
  "from_code_points cps =
     (if list_all is_latin1 cps then new_one_byte (map ucast cps)
      else new_two_byte (concat (map code_point_units cps)))"

definition from_code_unit :: "code_unit \<Rightarrow> flat_string option" where
  "from_code_unit u = from_code_points [ucast u]"

definition from_code_point :: "code_point \<Rightarrow> flat_string option" where
  "from_code_point cp = from_code_points [cp]"

subsection \<open>Reading\<close>

definition is_one_byte_ascii :: "u8 list \<Rightarrow> bool" where
  "is_one_byte_ascii buf = list_all (\<lambda>b. \<not> b \<ge> 0x80) buf"

primrec flat_iter_code_units :: "flat_string \<Rightarrow> unit_iter" where
  "flat_iter_code_units (OneByte buf) = map ucast buf"
| "flat_iter_code_units (TwoByte buf) = buf"

definition flat_code_unit_at :: "flat_string \<Rightarrow> u32 \<Rightarrow> code_unit option" where
  "flat_code_unit_at s index =
     (case s of
        OneByte buf \<Rightarrow> if unat index < length buf then Some (ucast (buf ! unat index)) else None
      | TwoByte buf \<Rightarrow> if unat index < length buf then Some (buf ! unat index) else None)"

definition flat_code_point_at :: "flat_string \<Rightarrow> u32 \<Rightarrow> code_point option" where
  "flat_code_point_at s index =
     do { code_unit \<leftarrow> flat_code_unit_at s index;
          case s of
            OneByte buf \<Rightarrow> Some (ucast code_unit)
          | TwoByte buf \<Rightarrow>
              if is_high_surrogate_code_unit code_unit \<and> unat index + 1 < length buf then
                do { next_code_unit \<leftarrow> flat_code_unit_at s (index + 1);
                     if is_low_surrogate_code_unit next_code_unit
                     then Some (code_point_from_surrogate_pair code_unit next_code_unit)
                     else Some (ucast code_unit) }
              else Some (ucast code_unit) }"

text \<open>\<open>slice[start..end]\<close>.\<close>

definition slice_range :: "nat \<Rightarrow> nat \<Rightarrow> 'a list \<Rightarrow> 'a list option" where
  "slice_range start stop xs = (if start \<le> stop \<and> stop \<le> length xs then Some (drop start (take stop xs)) else None)"

definition flat_substring :: "flat_string \<Rightarrow> u32 \<Rightarrow> u32 \<Rightarrow> flat_string option" where
  "flat_substring s start stop =
     (case s of
        OneByte buf \<Rightarrow> do { sub \<leftarrow> slice_range (unat start) (unat stop) buf; new_one_byte sub }
      | TwoByte buf \<Rightarrow> do { sub \<leftarrow> slice_range (unat start) (unat stop) buf; new_two_byte sub })"

text \<open>Iterating over the code points from an iterator's position to the end of the string.\<close>

lemma code_point_next_decreases: "code_point_next it = Some (cp, it') \<Longrightarrow> length it' < length it"
  by (auto simp: code_point_next_def unit_next_def unit_peek_def split: list.splits if_splits)

function points_of :: "unit_iter \<Rightarrow> code_point list" where
  "points_of it = (case code_point_next it of None \<Rightarrow> [] | Some (cp, it') \<Rightarrow> cp # points_of it')"
  by pat_completeness auto
termination
  by (relation "measure length") (auto dest: code_point_next_decreases)

declare points_of.simps [simp del]

definition flat_iter_code_points :: "flat_string \<Rightarrow> code_point list" where
  "flat_iter_code_points s = points_of (flat_iter_code_units s)"

definition to_wtf8_string :: "flat_string \<Rightarrow> wtf8_string option" where
  "to_wtf8_string s = push_all wtf8_new (flat_iter_code_points s)"

definition flat_is_well_formed :: "flat_string \<Rightarrow> bool" where
  "flat_is_well_formed s =
     (case s of OneByte buf \<Rightarrow> True
      | TwoByte buf \<Rightarrow> \<not> list_ex is_surrogate_code_point (flat_iter_code_points s))"

definition REPLACEMENT_CHARACTER :: code_point where "REPLACEMENT_CHARACTER = 0xFFFD"

definition well_formed_point :: "code_point \<Rightarrow> code_point" where
  "well_formed_point cp = (if is_surrogate_code_point cp then REPLACEMENT_CHARACTER else cp)"

definition to_well_formed :: "flat_string \<Rightarrow> flat_string option" where
  "to_well_formed s =
     (case s of OneByte buf \<Rightarrow> Some s
      | TwoByte buf \<Rightarrow>
          if flat_is_well_formed s then Some s
          else do { bytes \<leftarrow> push_all wtf8_new (map well_formed_point (flat_iter_code_points s));
                    from_wtf8 bytes })"

subsection \<open>Comparison\<close>

definition flat_eq :: "flat_string \<Rightarrow> flat_string \<Rightarrow> bool" where
  "flat_eq s t =
     (if flat_len s \<noteq> flat_len t then False
      else consume_equals (flat_iter_code_units s) (flat_iter_code_units t))"

datatype ordering = Less | Equal | Greater

fun cmp_units :: "unit_iter \<Rightarrow> unit_iter \<Rightarrow> ordering" where
  "cmp_units [] [] = Equal"
| "cmp_units [] (v # vs) = Less"
| "cmp_units (u # us) [] = Greater"
| "cmp_units (u # us) (v # vs) = (if u < v then Less else if u > v then Greater else cmp_units us vs)"

definition flat_cmp :: "flat_string \<Rightarrow> flat_string \<Rightarrow> ordering" where
  "flat_cmp s t = cmp_units (flat_iter_code_units s) (flat_iter_code_units t)"

text \<open>
  The loop of \<open>eq_str\<close> takes the next code point of both sides before it looks at either, and
  the final test takes one more.
\<close>

fun eq_points :: "code_point list \<Rightarrow> code_point list \<Rightarrow> bool" where
  "eq_points (c # cs) (d # ds) = (if c \<noteq> d then False else eq_points cs ds)"
| "eq_points cs ds = (tl cs = [] \<and> tl ds = [])"

definition eq_str :: "flat_string \<Rightarrow> code_point list \<Rightarrow> bool" where
  "eq_str s chars = eq_points (flat_iter_code_points s) chars"


subsection \<open>Code units and code points\<close>

lemma points_of_decode: "points_of it = decode_units it"
  by (induction it rule: decode_units.induct) (simp_all add: points_of.simps)

lemma decoded_pair:
  assumes "is_high_surrogate_code_unit h" "is_low_surrogate_code_unit l"
  shows "0x10000 \<le> code_point_from_surrogate_pair h l" "code_point_from_surrogate_pair h l \<le> MAX_CODE_POINT"
    "try_encode_surrogate_pair (code_point_from_surrogate_pair h l) = Some (h, l)"
proof -
  let ?cp = "code_point_from_surrogate_pair h l"
  have r: "0xD800 \<le> unat h" "unat h \<le> 0xDBFF" "0xDC00 \<le> unat l" "unat l \<le> 0xDFFF"
    using assms by (simp_all add: is_high_surrogate_code_unit_def is_low_surrogate_code_unit_def
        HIGH_SURROGATE_START_def HIGH_SURROGATE_END_def LOW_SURROGATE_START_def LOW_SURROGATE_END_def
        word_le_nat_alt)
  have cp: "unat ?cp = (unat h - 0xD800) * 1024 + (unat l - 0xDC00) + 0x10000"
    by (rule code_point_from_surrogate_pair_arith [OF assms])
  show ge: "0x10000 \<le> ?cp" using cp by (simp add: word_le_nat_alt)
  show le: "?cp \<le> MAX_CODE_POINT" using cp r by (simp add: word_le_nat_alt MAX_CODE_POINT_def)
  obtain h' l' where p: "try_encode_surrogate_pair ?cp = Some (h', l')"
    "is_high_surrogate_code_unit h'" "is_low_surrogate_code_unit l'" "code_point_from_surrogate_pair h' l' = ?cp"
    using surrogate_pair_roundtrip [OF ge le] by blast
  have r': "0xD800 \<le> unat h'" "unat h' \<le> 0xDBFF" "0xDC00 \<le> unat l'" "unat l' \<le> 0xDFFF"
    using p(2,3) by (simp_all add: is_high_surrogate_code_unit_def is_low_surrogate_code_unit_def
        HIGH_SURROGATE_START_def HIGH_SURROGATE_END_def LOW_SURROGATE_START_def LOW_SURROGATE_END_def
        word_le_nat_alt)
  have eq: "(unat h' - 0xD800) * 1024 + (unat l' - 0xDC00) = (unat h - 0xD800) * 1024 + (unat l - 0xDC00)"
    using code_point_from_surrogate_pair_arith [OF p(2,3)] p(4) cp by simp
  have d: "x = y \<and> v = w" if "x * 1024 + v = y * 1024 + w" "v < 1024" "w < 1024" for x y v w :: nat
    using that by (metis div_mult_self3 div_less mod_mult_self3 mod_less add_0_right zero_neq_numeral)
  have "unat h' - 0xD800 = unat h - 0xD800 \<and> unat l' - 0xDC00 = unat l - 0xDC00"
    by (rule d [OF eq]) (use r r' in simp_all)
  then have "unat h' = unat h \<and> unat l' = unat l" using r r' by linarith
  then show "try_encode_surrogate_pair ?cp = Some (h, l)" using p(1) by (auto intro: unsigned_word_eqI)
qed

lemma unit_code_point:
  fixes u :: code_unit
  shows "ucast u \<le> MAX_CODE_POINT" "code_point_units (ucast u) = [u]" "(ucast (ucast u :: u32) :: u16) = u"
proof -
  have u: "unat (ucast u :: u32) < 2 ^ 16"
    using unsigned_less [of u, where ?'a = nat] by (simp add: unsigned_ucast_eq take_bit_nat_eq_self)
  then show "ucast u \<le> MAX_CODE_POINT" by (simp add: word_le_nat_alt MAX_CODE_POINT_def)
  show bk: "(ucast (ucast u :: u32) :: u16) = u" by (rule bit_word_eqI) (simp add: bit_simps)
  show "code_point_units (ucast u) = [u]"
    using unit_bounds(1) [of u] by (simp add: code_point_units_def try_encode_surrogate_pair_def bk)
qed

lemma pair_code_point:
  "is_high_surrogate_code_unit h \<Longrightarrow> is_low_surrogate_code_unit l \<Longrightarrow>
   code_point_units (code_point_from_surrogate_pair h l) = [h, l]"
  by (simp add: code_point_units_def decoded_pair)

lemma decode_units_range: "list_all (\<lambda>cp. cp \<le> MAX_CODE_POINT) (decode_units us)"
  by (induction us rule: decode_units.induct) (simp_all add: unit_code_point decoded_pair)

lemma units_decode: "concat (map code_point_units (decode_units us)) = us"
  by (induction us rule: decode_units.induct) (simp_all add: unit_code_point pair_code_point)

lemma count_units_units: "count_units cps = length (concat (map code_point_units cps))"
  by (induction cps) (auto simp: code_point_units_def try_encode_surrogate_pair_def needs_surrogate_pair_def
      is_ascii_def is_latin1_def Let_def word_le_nat_alt word_less_nat_alt)

lemma write_units_fill:
  "write_units (length (buf @ concat uss)) buf uss = Some (buf @ concat uss)"
proof (induction uss arbitrary: buf)
  case (Cons us uss)
  then show ?case using Cons.IH [of "buf @ us"] by simp
qed simp

lemma filled_write: "length (concat uss) = n \<Longrightarrow> filled n (write_units n [] uss) = Some (concat uss)"
  using write_units_fill [of "[]" uss] by (auto simp: filled_def)

subsection \<open>Strings and WTF-8\<close>

lemma ascii_latin1: "is_ascii cp \<Longrightarrow> is_latin1 cp"
  by (simp add: is_ascii_def is_latin1_def word_less_nat_alt word_le_nat_alt)

lemma latin1_units:
  assumes "is_latin1 cp"
  shows "code_point_units cp = [ucast (ucast cp :: u8)]"
proof -
  have c: "unat cp < 2 ^ 8" using assms by (simp add: is_latin1_def word_less_nat_alt word_le_nat_alt)
  note b = bit_below_power [OF c]
  have "(ucast cp :: u16) = ucast (ucast cp :: u8)"
    by (rule bit_word_eqI) (auto simp: bit_simps dest: b)
  moreover have "\<not> needs_surrogate_pair cp" using c by (simp add: needs_surrogate_pair_def word_le_nat_alt)
  ultimately show ?thesis by (simp add: code_point_units_def try_encode_surrogate_pair_def)
qed

lemma latin1_all_units:
  "list_all is_latin1 cps \<Longrightarrow> concat (map code_point_units cps) = map ucast (map ucast cps :: u8 list)"
  by (induction cps) (simp_all add: latin1_units)

lemma ascii_bytes: "list_all is_ascii cps \<Longrightarrow> concat (map utf8_bytes cps) = map ucast cps"
  by (induction cps) (simp_all add: utf8_bytes_def encode_utf8_codepoint_def is_ascii_def word_less_nat_alt word_le_nat_alt)

lemma from_wtf8_code_points:
  assumes "list_all (\<lambda>cp. cp \<le> MAX_CODE_POINT) cps"
  shows "from_wtf8 (concat (map utf8_bytes cps)) = from_code_points cps"
proof -
  have it: "Wtf8.iter_code_points (concat (map utf8_bytes cps)) = Some cps"
    by (rule utf8.collect_concat [OF assms])
  have two: "list_ex (\<lambda>cp. \<not> is_ascii cp \<and> \<not> is_latin1 cp) cps \<longleftrightarrow> \<not> list_all is_latin1 cps"
    by (auto simp: list_ex_iff list_all_iff dest: ascii_latin1)
  have n: "filled (count_units cps) (write_units (count_units cps) [] (map code_point_units cps)) =
      Some (concat (map code_point_units cps))"
    by (rule filled_write) (simp add: count_units_units)
  show ?thesis
  proof (cases "list_all is_latin1 cps")
    case True
    have c: "count_units cps = length cps"
      using True by (simp add: count_units_units latin1_all_units)
    have w: "filled (length cps) (write_units (length cps) [] (map (\<lambda>cp. [ucast cp :: u8]) cps)) = Some (map ucast cps)"
      using filled_write [of "map (\<lambda>cp. [ucast cp :: u8]) cps" "length cps"] by (simp add: length_concat comp_def)
    show ?thesis
    proof (cases "list_all is_ascii cps")
      case ascii: True
      then show ?thesis using True two it by (auto simp: from_wtf8_def from_code_points_def ascii_bytes list_ex_iff list_all_iff)
    next
      case False
      then have "list_ex (\<lambda>cp. \<not> is_ascii cp \<and> is_latin1 cp) cps" using True by (auto simp: list_ex_iff list_all_iff)
      then show ?thesis using True two it c w by (simp add: from_wtf8_def from_code_points_def)
    qed
  next
    case False
    then show ?thesis using two it n by (simp add: from_wtf8_def from_code_points_def)
  qed
qed

lemma from_code_points_units:
  assumes "length (concat (map code_point_units cps)) \<le> unat MAX_STRING_LENGTH"
  shows "\<exists>t. from_code_points cps = Some t \<and> flat_iter_code_units t = concat (map code_point_units cps) \<and>
           (flat_width t = OneByteWidth \<longleftrightarrow> list_all is_latin1 cps)"
proof (cases "list_all is_latin1 cps")
  case True
  then have "length cps \<le> unat MAX_STRING_LENGTH" using assms by (simp add: latin1_all_units)
  then show ?thesis using True latin1_all_units [OF True]
    by (simp add: from_code_points_def new_one_byte_def check_string_length_def)
qed (use assms in \<open>simp add: from_code_points_def new_two_byte_def check_string_length_def\<close>)

lemma unit_latin1: "is_latin1 (ucast (u :: code_unit)) \<longleftrightarrow> u < 0x100"
proof -
  have "unat (ucast u :: u32) = unat u"
    using unsigned_less [of u, where ?'a = nat] by (simp add: unsigned_ucast_eq take_bit_nat_eq_self)
  then show ?thesis by (auto simp: is_latin1_def word_less_nat_alt word_le_nat_alt)
qed

lemma decode_units_latin1: "list_all is_latin1 (decode_units us) \<longleftrightarrow> list_all (\<lambda>u. u < 0x100) us"
proof (induction us rule: decode_units.induct)
  case (3 u v us)
  have "\<not> u < 0x100" if "is_high_surrogate_code_unit u"
    using that by (simp add: is_high_surrogate_code_unit_def HIGH_SURROGATE_START_def word_less_nat_alt word_le_nat_alt)
  moreover have "\<not> is_latin1 (code_point_from_surrogate_pair u v)"
    if "is_high_surrogate_code_unit u" "is_low_surrogate_code_unit v"
    using decoded_pair(1) [OF that] by (simp add: is_latin1_def word_less_nat_alt word_le_nat_alt)
  ultimately show ?case using 3 by (auto simp: unit_latin1)
qed (simp_all add: unit_latin1)

text \<open>
  C37: a string written as WTF-8 and read back has the same code units, whatever surrogates it
  holds, and is stored with one byte per unit exactly when all of its units are in Latin1; neither
  direction panics while the string is at most as long as strings may be.
\<close>

theorem wtf8_string_roundtrip:
  assumes "length (flat_iter_code_units s) \<le> unat MAX_STRING_LENGTH"
  shows "\<exists>bytes t. to_wtf8_string s = Some bytes \<and> from_wtf8 bytes = Some t \<and>
           flat_iter_code_units t = flat_iter_code_units s \<and>
           (flat_width t = OneByteWidth \<longleftrightarrow> list_all (\<lambda>u. u < 0x100) (flat_iter_code_units s))"
proof -
  let ?us = "flat_iter_code_units s" and ?cps = "decode_units (flat_iter_code_units s)"
  have "to_wtf8_string s = Some (concat (map utf8_bytes ?cps))"
    by (simp add: to_wtf8_string_def flat_iter_code_points_def points_of_decode push_all_concat
        decode_units_range wtf8_new_def)
  moreover have "from_wtf8 (concat (map utf8_bytes ?cps)) = from_code_points ?cps"
    by (rule from_wtf8_code_points [OF decode_units_range])
  moreover have "\<exists>t. from_code_points ?cps = Some t \<and> flat_iter_code_units t = ?us \<and>
      (flat_width t = OneByteWidth \<longleftrightarrow> list_all (\<lambda>u. u < 0x100) ?us)"
    using from_code_points_units [of ?cps] assms by (simp add: units_decode decode_units_latin1)
  ultimately show ?thesis by auto
qed

theorem wtf8_string_roundtrip_witness:
  "\<exists>bytes t. to_wtf8_string (TwoByte [0x61, 0xD83D, 0xDE00, 0xD800]) = Some bytes \<and> from_wtf8 bytes = Some t \<and>
     flat_iter_code_units t = [0x61, 0xD83D, 0xDE00, 0xD800] \<and> flat_width t \<noteq> OneByteWidth"
  using wtf8_string_roundtrip [of "TwoByte [0x61, 0xD83D, 0xDE00, 0xD800]"] by (simp add: MAX_STRING_LENGTH_def)

subsection \<open>Well-formed strings\<close>

lemma surrogate_units:
  "is_surrogate_code_point (ucast (u :: code_unit)) \<longleftrightarrow> is_high_surrogate_code_unit u \<or> is_low_surrogate_code_unit u"
proof -
  have "unat (ucast u :: u32) = unat u"
    using unsigned_less [of u, where ?'a = nat] by (simp add: unsigned_ucast_eq take_bit_nat_eq_self)
  then show ?thesis
    by (auto simp: is_surrogate_code_point_def is_high_surrogate_code_unit_def is_low_surrogate_code_unit_def
        HIGH_SURROGATE_START_def HIGH_SURROGATE_END_def LOW_SURROGATE_START_def LOW_SURROGATE_END_def word_le_nat_alt)
qed

lemma decode_unit_Cons:
  "\<not> is_high_surrogate_code_unit u \<Longrightarrow> decode_units (u # us) = ucast u # decode_units us"
  by (cases us) simp_all

lemma decode_code_points:
  assumes "list_all (\<lambda>cp. cp \<le> MAX_CODE_POINT \<and> \<not> is_surrogate_code_point cp) cps"
  shows "decode_units (concat (map code_point_units cps)) = cps"
  using assms
proof (induction cps)
  case (Cons cp cps)
  show ?case
  proof (cases "needs_surrogate_pair cp")
    case True
    then obtain h l where "try_encode_surrogate_pair cp = Some (h, l)" "is_high_surrogate_code_unit h"
      "is_low_surrogate_code_unit l" "code_point_from_surrogate_pair h l = cp"
      using surrogate_pair_roundtrip [of cp 0 0] Cons.prems by (auto simp: needs_surrogate_pair_def)
    then show ?thesis using Cons by (simp add: code_point_units_def)
  next
    case False
    let ?u = "ucast cp :: u16"
    have "unat cp < 2 ^ 16" using False by (simp add: needs_surrogate_pair_def word_le_nat_alt)
    note b = bit_below_power [OF this]
    have u: "ucast ?u = cp" by (rule bit_word_eqI) (auto simp: bit_simps dest: b)
    have "\<not> is_high_surrogate_code_unit ?u" using Cons.prems surrogate_units [of ?u] by (simp add: u)
    then show ?thesis using Cons False u
      by (simp add: code_point_units_def try_encode_surrogate_pair_def decode_unit_Cons)
  qed
qed simp

lemma surrogate_bmp: "is_surrogate_code_point cp \<Longrightarrow> \<not> needs_surrogate_pair cp"
  by (auto simp: is_surrogate_code_point_def needs_surrogate_pair_def HIGH_SURROGATE_START_def LOW_SURROGATE_END_def
      word_le_nat_alt)

lemma latin1_no_surrogate: "is_latin1 cp \<Longrightarrow> \<not> is_surrogate_code_point cp"
  by (auto simp: is_surrogate_code_point_def is_latin1_def HIGH_SURROGATE_START_def LOW_SURROGATE_END_def
      word_le_nat_alt word_less_nat_alt)

lemma byte_unit: "(ucast (b :: u8) :: code_unit) < 0x100"
proof -
  have "unat (ucast b :: code_unit) < 2 ^ 8"
    using unsigned_less [of b, where ?'a = nat] by (simp add: unsigned_ucast_eq take_bit_nat_eq_self)
  then show ?thesis by (simp add: word_less_nat_alt)
qed

lemma flat_is_well_formed_iff:
  "flat_is_well_formed s \<longleftrightarrow> \<not> list_ex is_surrogate_code_point (decode_units (flat_iter_code_units s))"
proof (cases s)
  case (OneByte buf)
  have "list_all (\<lambda>u. u < 0x100) (map ucast buf :: u16 list)"
    by (simp add: list_all_iff byte_unit)
  then have "list_all is_latin1 (decode_units (map ucast buf))" by (simp add: decode_units_latin1)
  then show ?thesis using OneByte by (auto simp: flat_is_well_formed_def list_ex_iff list_all_iff dest: latin1_no_surrogate)
qed (simp add: flat_is_well_formed_def flat_iter_code_points_def points_of_decode)

lemma units_length_eq:
  assumes "list_all2 (\<lambda>c d. needs_surrogate_pair c = needs_surrogate_pair d) cs ds"
  shows "length (concat (map code_point_units cs)) = length (concat (map code_point_units ds))"
  using assms by (induction rule: list_all2_induct)
    (simp_all add: code_point_units_def try_encode_surrogate_pair_def Let_def)

lemma well_formed_point_ok:
  "cp \<le> MAX_CODE_POINT \<Longrightarrow> well_formed_point cp \<le> MAX_CODE_POINT"
  "\<not> is_surrogate_code_point (well_formed_point cp)"
  "needs_surrogate_pair (well_formed_point cp) = needs_surrogate_pair cp"
  by (auto simp: well_formed_point_def is_surrogate_code_point_def REPLACEMENT_CHARACTER_def MAX_CODE_POINT_def
      needs_surrogate_pair_def HIGH_SURROGATE_START_def LOW_SURROGATE_END_def word_le_nat_alt)

lemma well_formed_points:
  "list_all (\<lambda>cp. cp \<le> MAX_CODE_POINT \<and> \<not> is_surrogate_code_point cp) (map well_formed_point (decode_units us))"
  using decode_units_range [of us] by (simp add: list_all_iff well_formed_point_ok)

lemma well_formed_points_length:
  "length (concat (map code_point_units (map well_formed_point (decode_units us)))) = length us"
  using units_length_eq [of "map well_formed_point (decode_units us)" "decode_units us"]
  by (simp add: units_decode list_all2_map1 list_all2_same well_formed_point_ok)

lemma well_formed_points_id: "\<not> list_ex is_surrogate_code_point cps \<Longrightarrow> map well_formed_point cps = cps"
  by (rule map_idI) (auto simp: well_formed_point_def list_ex_iff)

lemma to_well_formed_points:
  assumes "length (flat_iter_code_units s) \<le> unat MAX_STRING_LENGTH"
  shows "\<exists>t. to_well_formed s = Some t \<and> length (flat_iter_code_units t) = length (flat_iter_code_units s) \<and>
           decode_units (flat_iter_code_units t) = map well_formed_point (decode_units (flat_iter_code_units s))"
proof (cases "flat_is_well_formed s")
  case True
  then have "to_well_formed s = Some s" by (cases s) (simp_all add: to_well_formed_def)
  then show ?thesis using True by (simp add: flat_is_well_formed_iff well_formed_points_id)
next
  case False
  then obtain buf where s: "s = TwoByte buf" by (cases s) (simp_all add: flat_is_well_formed_def)
  let ?cps = "map well_formed_point (decode_units buf)"
  have "list_all (\<lambda>cp. cp \<le> MAX_CODE_POINT) ?cps"
    by (rule list.pred_mono_strong [OF well_formed_points]) simp
  then have "to_well_formed s = from_code_points ?cps"
    using False s by (simp only: to_well_formed_def flat_iter_code_points_def points_of_decode flat_string.case if_False
        push_all_concat from_wtf8_code_points wtf8_new_def append_Nil bind.bind_lunit flat_iter_code_units.simps)
  moreover obtain t where "from_code_points ?cps = Some t"
    "flat_iter_code_units t = concat (map code_point_units ?cps)"
    using from_code_points_units [of ?cps] assms s unfolding well_formed_points_length by auto
  ultimately show ?thesis
    using s decode_code_points [OF well_formed_points [of buf]] well_formed_points_length [of buf] by simp
qed

text \<open>
  C38: \<open>toWellFormed\<close> never panics on a string of permitted length; its result has no unpaired
  surrogate and the same number of code units, and its code points are those of the string with
  every unpaired surrogate replaced by U+FFFD.
\<close>

theorem to_well_formed_correct:
  assumes "length (flat_iter_code_units s) \<le> unat MAX_STRING_LENGTH"
  shows "\<exists>t. to_well_formed s = Some t \<and> flat_is_well_formed t \<and>
           length (flat_iter_code_units t) = length (flat_iter_code_units s) \<and>
           flat_iter_code_points t =
             map (\<lambda>cp. if is_surrogate_code_point cp then 0xFFFD else cp) (flat_iter_code_points s)"
proof -
  obtain t where t: "to_well_formed s = Some t" "length (flat_iter_code_units t) = length (flat_iter_code_units s)"
    "decode_units (flat_iter_code_units t) = map well_formed_point (decode_units (flat_iter_code_units s))"
    using to_well_formed_points [OF assms] by blast
  then have "flat_is_well_formed t" by (simp add: flat_is_well_formed_iff list_ex_iff well_formed_point_ok)
  then show ?thesis using t
    by (simp add: flat_iter_code_points_def points_of_decode well_formed_point_def REPLACEMENT_CHARACTER_def)
qed

theorem to_well_formed_correct_witness:
  "\<exists>t. to_well_formed (TwoByte [0x61, 0xD800, 0x62]) = Some t \<and> flat_is_well_formed t \<and>
     length (flat_iter_code_units t) = 3"
  using to_well_formed_correct [of "TwoByte [0x61, 0xD800, 0x62]"] by (auto simp: MAX_STRING_LENGTH_def)

subsection \<open>Equality and order\<close>

lemma consume_equals_iff: "consume_equals us vs \<longleftrightarrow> us = vs"
  by (induction us vs rule: consume_equals.induct) simp_all

lemma flat_len_units: "flat_len s = of_nat (length (flat_iter_code_units s))"
  by (cases s) simp_all

lemma flat_eq_iff: "flat_eq s t \<longleftrightarrow> flat_iter_code_units s = flat_iter_code_units t"
  by (auto simp: flat_eq_def consume_equals_iff flat_len_units)

lemma cmp_units_lexord:
  "cmp_units us vs =
     (if us = vs then Equal else if (us, vs) \<in> lexord {(u, v). u < v} then Less else Greater)"
  by (induction us vs rule: cmp_units.induct) auto

lemma cmp_units_converse: "cmp_units vs us = Greater \<longleftrightarrow> cmp_units us vs = Less"
  by (induction us vs rule: cmp_units.induct) auto

text \<open>
  Equality and comparison of flat strings look at the code units only, however they are
  stored: equality holds exactly of equal sequences, and the comparison is the lexicographic order
  by code unit, equal exactly where equality holds.
\<close>

theorem string_order_correct:
  "flat_eq s t = (flat_iter_code_units s = flat_iter_code_units t) \<and>
   (flat_cmp s t = Equal) = flat_eq s t \<and>
   (flat_cmp s t = Less) = ((flat_iter_code_units s, flat_iter_code_units t) \<in> lexord {(u, v). u < v}) \<and>
   (flat_cmp s t = Greater) = ((flat_iter_code_units t, flat_iter_code_units s) \<in> lexord {(u, v). u < v})"
proof -
  have irr: "(us, us) \<notin> lexord {(u, v). u < (v :: code_unit)}" for us
    by (rule lexord_irreflexive) simp
  have less: "cmp_units us vs = Less \<longleftrightarrow> (us, vs) \<in> lexord {(u, v). u < v}" for us vs
    using irr [of us] by (auto simp: cmp_units_lexord)
  then show ?thesis using cmp_units_converse
    by (simp add: flat_cmp_def flat_eq_iff) (auto simp: cmp_units_lexord)
qed

lemma eq_points_iff: "eq_points cs ds \<longleftrightarrow> cs = ds \<or> (\<exists>c. cs = ds @ [c]) \<or> (\<exists>d. ds = cs @ [d])"
proof (induction cs arbitrary: ds)
  case Nil
  then show ?case by (cases ds) (auto simp: tl_Nil)
next
  case (Cons c cs)
  then show ?case by (cases ds) (auto simp: tl_Nil)
qed

text \<open>
  C39: \<open>eq_str\<close> also calls a string equal to text that has one more code point at its end or one
  fewer: the loop takes a code point from both sides before it finds that one has ended, and the
  final test does not see it.
\<close>

theorem eq_str_ignores_last:
  "eq_str s chars \<longleftrightarrow>
     flat_iter_code_points s = chars \<or> (\<exists>c. flat_iter_code_points s = chars @ [c]) \<or>
     (\<exists>c. chars = flat_iter_code_points s @ [c])"
  by (simp add: eq_str_def eq_points_iff)
end
