(* ===== verification/Regexp_Matcher.thy ===== *)
theory Regexp_Matcher
  imports Regexp_Instruction Flat_String
begin

section \<open>The regular expression matcher\<close>

text \<open>
  The backtracking engine that runs compiled regular expressions
  (\<open>runtime/regexp/matcher.rs\<close>). The engine keeps one copy of its registers; every change is
  logged on the backtrack stack, together with the states to return to, and undone when the engine
  backtracks. A lookaround runs as an execution of its own above a new base of that stack.

  A panic, and a read of instructions outside of the buffer, is \<open>Panicked\<close>. A regular
  expression may run for very long, and compiled code in general for ever: the loop takes fuel, one
  unit per instruction, and \<open>Out_Of_Fuel\<close> says nothing about the run. The stack is a list with
  its top first. The case mapping tables of ICU are the parameter \<open>icu\<close>.
\<close>

datatype 'a outcome = Panicked | Out_Of_Fuel | Done 'a

record compiled_regexp =
  cr_instructions :: "u32 list"
  cr_has_any_unicode_flag :: bool
  cr_has_duplicate_named_capture_groups :: bool
  cr_num_capture_groups :: u32
  cr_num_progress_points :: u32
  cr_num_loop_registers :: u32
  cr_capture_groups :: "u64 option list"

record icu_case =
  simple_fold :: "code_point \<Rightarrow> code_point"
  simple_uppercase :: "code_point \<Rightarrow> code_point"

datatype backtrack_entry =
    RestoreState nat saved_state
  | CapturePoint u32 u32
  | ProgressPoint u32 u32
  | LoopRegister u32 nat
  | RestoreBacktrackStack nat

record 's match_engine =
  string_lexer :: 's
  instruction_index :: nat
  backtrack_stack :: "backtrack_entry list"
  capture_points :: "u32 list"
  progress_points :: "u32 list"
  loop_registers :: "nat list"
  compare_register :: bool
  word_boundary_register :: bool
  backtrack_stack_base :: nat

definition EMPTY_STRING_INDEX :: u32 where "EMPTY_STRING_INDEX = - 1"

definition engine_new :: "compiled_regexp \<Rightarrow> 's \<Rightarrow> 's match_engine" where
  "engine_new rx lexer =
     \<lparr>string_lexer = lexer, instruction_index = 0, backtrack_stack = [],
      capture_points = replicate ((unat (cr_num_capture_groups rx) + 1) * 2) EMPTY_STRING_INDEX,
      progress_points = replicate (unat (cr_num_progress_points rx)) EMPTY_STRING_INDEX,
      loop_registers = replicate (unat (cr_num_loop_registers rx)) 0,
      compare_register = False, word_boundary_register = False, backtrack_stack_base = 0\<rparr>"

subsection \<open>Registers and the backtrack stack\<close>

definition push_entry :: "backtrack_entry \<Rightarrow> 's match_engine \<Rightarrow> 's match_engine" where
  "push_entry entry e = e\<lparr>backtrack_stack := entry # backtrack_stack e\<rparr>"

definition push_backtrack_restore_state :: "'s stream_ops \<Rightarrow> nat \<Rightarrow> 's match_engine \<Rightarrow> 's match_engine" where
  "push_backtrack_restore_state ops index e = push_entry (RestoreState index (so_save ops (string_lexer e))) e"

definition get_capture_point :: "u32 \<Rightarrow> 's match_engine \<Rightarrow> u32 option" where
  "get_capture_point i e = (if unat i < length (capture_points e) then Some (capture_points e ! unat i) else None)"

definition set_capture_point :: "u32 \<Rightarrow> u32 \<Rightarrow> 's match_engine \<Rightarrow> 's match_engine option" where
  "set_capture_point i v e =
     (if unat i < length (capture_points e) then Some (e\<lparr>capture_points := (capture_points e)[unat i := v]\<rparr>) else None)"

definition get_progress_point :: "u32 \<Rightarrow> 's match_engine \<Rightarrow> u32 option" where
  "get_progress_point i e = (if unat i < length (progress_points e) then Some (progress_points e ! unat i) else None)"

definition set_progress_point :: "u32 \<Rightarrow> u32 \<Rightarrow> 's match_engine \<Rightarrow> 's match_engine option" where
  "set_progress_point i v e =
     (if unat i < length (progress_points e) then Some (e\<lparr>progress_points := (progress_points e)[unat i := v]\<rparr>) else None)"

definition get_loop_register :: "u32 \<Rightarrow> 's match_engine \<Rightarrow> nat option" where
  "get_loop_register i e = (if unat i < length (loop_registers e) then Some (loop_registers e ! unat i) else None)"

definition set_loop_register :: "u32 \<Rightarrow> nat \<Rightarrow> 's match_engine \<Rightarrow> 's match_engine option" where
  "set_loop_register i v e =
     (if unat i < length (loop_registers e) then Some (e\<lparr>loop_registers := (loop_registers e)[unat i := v]\<rparr>) else None)"

definition push_capture_point :: "u32 \<Rightarrow> u32 \<Rightarrow> 's match_engine \<Rightarrow> 's match_engine option" where
  "push_capture_point i v e =
     do { old \<leftarrow> get_capture_point i e; set_capture_point i v (push_entry (CapturePoint i old) e) }"

definition push_progress_point :: "u32 \<Rightarrow> u32 \<Rightarrow> 's match_engine \<Rightarrow> 's match_engine option" where
  "push_progress_point i v e =
     do { old \<leftarrow> get_progress_point i e; set_progress_point i v (push_entry (ProgressPoint i old) e) }"

definition push_loop_register :: "u32 \<Rightarrow> nat \<Rightarrow> 's match_engine \<Rightarrow> 's match_engine option" where
  "push_loop_register i v e =
     do { old \<leftarrow> get_loop_register i e; set_loop_register i v (push_entry (LoopRegister i old) e) }"

text \<open>The part of both backtracking loops that restores a register.\<close>

definition restore_register :: "backtrack_entry \<Rightarrow> 's match_engine \<Rightarrow> 's match_engine option" where
  "restore_register entry e =
     (case entry of
        CapturePoint i v \<Rightarrow> set_capture_point i v e
      | ProgressPoint i v \<Rightarrow> set_progress_point i v e
      | LoopRegister i v \<Rightarrow> set_loop_register i v e
      | _ \<Rightarrow> Some e)"

lemma restore_register_stack:
  "restore_register entry e = Some e' \<Longrightarrow> backtrack_stack e' = backtrack_stack e \<and> backtrack_stack_base e' = backtrack_stack_base e"
  by (auto simp: restore_register_def set_capture_point_def set_progress_point_def set_loop_register_def
      split: backtrack_entry.splits if_splits)

function backtrack_to_stack_size :: "nat \<Rightarrow> 's match_engine \<Rightarrow> 's match_engine option" where
  "backtrack_to_stack_size n e =
     (if length (backtrack_stack e) > n then
        do { e' \<leftarrow> restore_register (hd (backtrack_stack e)) (e\<lparr>backtrack_stack := tl (backtrack_stack e)\<rparr>);
             backtrack_to_stack_size n e' }
      else Some e)"
  by pat_completeness auto
termination
  by (relation "measure (\<lambda>(n, e). length (backtrack_stack e))") (auto dest: restore_register_stack)

declare backtrack_to_stack_size.simps [simp del]

lemma backtrack_to_stack_size_stack:
  "backtrack_to_stack_size n e = Some e' \<Longrightarrow>
     length (backtrack_stack e') \<le> length (backtrack_stack e) \<and> backtrack_stack_base e' = backtrack_stack_base e"
proof (induction n e arbitrary: e' rule: backtrack_to_stack_size.induct)
  case (1 n e)
  show ?case
  proof (cases "length (backtrack_stack e) > n")
    case True
    then obtain e1 where e1: "restore_register (hd (backtrack_stack e)) (e\<lparr>backtrack_stack := tl (backtrack_stack e)\<rparr>) = Some e1"
        "backtrack_to_stack_size n e1 = Some e'"
      using 1(2) by (subst (asm) backtrack_to_stack_size.simps) (auto simp: bind_eq_Some_iff)
    then show ?thesis using 1(1) [OF True e1] restore_register_stack [OF e1(1)] by auto
  qed (use 1(2) in \<open>simp add: backtrack_to_stack_size.simps\<close>)
qed

text \<open>\<open>Ok\<close> is \<open>True\<close>: the engine stands at a saved state; \<open>Err\<close> is \<open>False\<close>.\<close>

function backtrack :: "'s stream_ops \<Rightarrow> 's match_engine \<Rightarrow> (bool \<times> 's match_engine) option" where
  "backtrack ops e =
     (if length (backtrack_stack e) > backtrack_stack_base e then
        (let e1 = e\<lparr>backtrack_stack := tl (backtrack_stack e)\<rparr> in
         case hd (backtrack_stack e) of
           RestoreState index saved \<Rightarrow>
             Some (True, e1\<lparr>instruction_index := index, string_lexer := so_restore ops saved (string_lexer e1)\<rparr>)
         | RestoreBacktrackStack n \<Rightarrow> do { e2 \<leftarrow> backtrack_to_stack_size n e1; backtrack ops e2 }
         | entry \<Rightarrow> do { e2 \<leftarrow> restore_register entry e1; backtrack ops e2 })
      else Some (False, e))"
  by pat_completeness auto
termination
  by (relation "measure (\<lambda>(ops, e). length (backtrack_stack e))")
    (auto dest!: restore_register_stack backtrack_to_stack_size_stack)

declare backtrack.simps [simp del]

subsection \<open>Moving in the string\<close>

abbreviation (input) FORWARD :: bool where "FORWARD \<equiv> True"
abbreviation (input) BACKWARD :: bool where "BACKWARD \<equiv> False"

definition advance_code_point_in_direction :: "'s stream_ops \<Rightarrow> bool \<Rightarrow> 's match_engine \<Rightarrow> 's match_engine option" where
  "advance_code_point_in_direction ops direction e =
     (if direction = FORWARD then Some (e\<lparr>string_lexer := so_advance_code_point ops (string_lexer e)\<rparr>)
      else do { s \<leftarrow> so_advance_backwards_code_point ops (string_lexer e); Some (e\<lparr>string_lexer := s\<rparr>) })"

definition code_point_before_current_pos :: "'s stream_ops \<Rightarrow> bool \<Rightarrow> 's match_engine \<Rightarrow> code_point" where
  "code_point_before_current_pos ops direction e =
     (if direction = FORWARD then so_peek_prev_code_point ops (string_lexer e) else so_current ops (string_lexer e))"

definition code_point_after_current_pos :: "'s stream_ops \<Rightarrow> bool \<Rightarrow> 's match_engine \<Rightarrow> code_point" where
  "code_point_after_current_pos ops direction e =
     (if direction = FORWARD then so_current ops (string_lexer e) else so_peek_next_code_point ops (string_lexer e))"

definition no_advance_read_code_point_in_direction :: "'s stream_ops \<Rightarrow> bool \<Rightarrow> 's match_engine \<Rightarrow> 's match_engine" where
  "no_advance_read_code_point_in_direction ops direction e =
     (if direction = FORWARD then e\<lparr>string_lexer := so_advance_n ops 0 (string_lexer e)\<rparr>
      else e\<lparr>string_lexer := so_advance_backwards_n ops 0 (string_lexer e)\<rparr>)"

definition is_at_word_boundary :: "'s match_engine \<Rightarrow> bool" where
  "is_at_word_boundary e \<longleftrightarrow> compare_register e \<noteq> word_boundary_register e"

definition reset_compare_register :: "'s match_engine \<Rightarrow> 's match_engine" where
  "reset_compare_register e = e\<lparr>compare_register := False\<rparr>"

definition advance_instruction :: "re_instruction \<Rightarrow> 's match_engine \<Rightarrow> 's match_engine" where
  "advance_instruction instr e = e\<lparr>instruction_index := instruction_index e + re_size instr\<rparr>"

definition set_next_instruction :: "u32 \<Rightarrow> 's match_engine \<Rightarrow> 's match_engine" where
  "set_next_instruction index e = e\<lparr>instruction_index := unat index\<rparr>"

text \<open>\<open>char::from_u32\<close> refuses surrogates and numbers that are no code points.\<close>

definition is_char :: "code_point \<Rightarrow> bool" where
  "is_char cp \<longleftrightarrow> cp \<le> MAX_CODE_POINT \<and> \<not> is_surrogate_code_point cp"

definition canonicalize :: "icu_case \<Rightarrow> code_point \<Rightarrow> bool \<Rightarrow> code_point" where
  "canonicalize icu cp is_unicode_aware =
     (if is_unicode_aware then if is_char cp then simple_fold icu cp else cp
      else if is_char cp then
        (let upper = simple_uppercase icu cp in if upper < 128 \<and> cp \<ge> 128 then cp else upper)
      else cp)"

subsection \<open>Instructions\<close>

text \<open>
  What an instruction does: continue, return \<open>Ok\<close>, or backtrack and, in three instructions,
  reset the compare register after a successful \<open>backtrack()?\<close>.
\<close>

datatype 's flow = Next "'s match_engine" | Retry bool "'s match_engine" | Accepted

definition get_valid_capture_bounds :: "u32 \<Rightarrow> 's match_engine \<Rightarrow> (nat \<times> nat) option option" where
  "get_valid_capture_bounds grp e =
     do { start \<leftarrow> get_capture_point (grp * 2) e;
          stop \<leftarrow> get_capture_point (grp * 2 + 1) e;
          Some (if start = EMPTY_STRING_INDEX \<or> stop = EMPTY_STRING_INDEX then None else Some (unat start, unat stop)) }"

text \<open>The latest group with the same name that has a capture, going backwards.\<close>

fun find_named_group :: "compiled_regexp \<Rightarrow> u64 \<Rightarrow> 's match_engine \<Rightarrow> nat \<Rightarrow> u32 option option" where
  "find_named_group rx name e 0 = Some None"
| "find_named_group rx name e (Suc i) =
     (if i < length (cr_capture_groups rx) then
        if cr_capture_groups rx ! i = Some name then
          do { bounds \<leftarrow> get_valid_capture_bounds (of_nat (Suc i)) e;
               if bounds \<noteq> None then Some (Some (of_nat (Suc i))) else find_named_group rx name e i }
        else find_named_group rx name e i
      else None)"

definition backreference_group :: "compiled_regexp \<Rightarrow> u32 \<Rightarrow> 's match_engine \<Rightarrow> u32 option" where
  "backreference_group rx grp e =
     (if cr_has_duplicate_named_capture_groups rx then
        if 0 < unat grp \<and> unat grp - 1 < length (cr_capture_groups rx) then
          (case cr_capture_groups rx ! (unat grp - 1) of
             None \<Rightarrow> Some grp
           | Some name \<Rightarrow>
               do { found \<leftarrow> find_named_group rx name e (unat grp);
                    Some (case found of Some i \<Rightarrow> i | None \<Rightarrow> grp) })
        else None
      else Some grp)"

text \<open>
  The comparison that ignores case, one code point of the capture at a time: whether all were
  matched, and the engine. The iterator takes at least one unit in each step.
\<close>

fun match_folded ::
  "icu_case \<Rightarrow> compiled_regexp \<Rightarrow> 's stream_ops \<Rightarrow> bool \<Rightarrow> nat \<Rightarrow> unit_iter \<Rightarrow> 's match_engine \<Rightarrow> (bool \<times> 's match_engine) option" where
  "match_folded icu rx ops direction 0 it e = None"
| "match_folded icu rx ops direction (Suc n) it e =
     (case (if direction = FORWARD then so_iter_next ops it else so_iter_next_back ops it) of
        None \<Rightarrow> Some (True, e)
      | Some (next_capture_value, it) \<Rightarrow>
          if has_current ops (string_lexer e) \<and>
            canonicalize icu next_capture_value (cr_has_any_unicode_flag rx) =
              canonicalize icu (so_current ops (string_lexer e)) (cr_has_any_unicode_flag rx)
          then do { e \<leftarrow> advance_code_point_in_direction ops direction e;
                    match_folded icu rx ops direction n it e }
          else Some (False, e))"

definition execute_backreference ::
  "icu_case \<Rightarrow> compiled_regexp \<Rightarrow> 's stream_ops \<Rightarrow> bool \<Rightarrow> bool \<Rightarrow> u32 \<Rightarrow> 's match_engine \<Rightarrow> 's flow option" where
  "execute_backreference icu rx ops direction is_case_insensitive grp e =
     do { grp \<leftarrow> backreference_group rx grp e;
          bounds \<leftarrow> get_valid_capture_bounds grp e;
          (case bounds of
             None \<Rightarrow> Some (Next (advance_instruction (Backreference is_case_insensitive grp) e))
           | Some (start, stop) \<Rightarrow>
               if start > stop then None
               else if is_case_insensitive then
                 do { it \<leftarrow> so_iter_slice ops start stop (string_lexer e);
                      (matched, e) \<leftarrow> match_folded icu rx ops direction (Suc (length it)) it e;
                      Some (if matched then Next (advance_instruction (Backreference is_case_insensitive grp) e)
                            else Retry False e) }
               else
                 do { captured \<leftarrow> so_slice ops start stop (string_lexer e);
                      let pos = so_pos ops (string_lexer e);
                      Some (if direction = FORWARD then
                              if so_slice_equals ops pos captured (string_lexer e) then
                                Next (advance_instruction (Backreference is_case_insensitive grp)
                                  (e\<lparr>string_lexer := so_advance_n ops (stop - start) (string_lexer e)\<rparr>))
                              else Retry False e
                            else
                              if stop - start \<le> pos \<and> so_slice_equals ops (pos - (stop - start)) captured (string_lexer e) then
                                Next (advance_instruction (Backreference is_case_insensitive grp)
                                  (e\<lparr>string_lexer := so_advance_backwards_n ops (stop - start) (string_lexer e)\<rparr>))
                              else Retry False e) }) }"

text \<open>Consume a code point when a condition holds.\<close>

definition consume_if :: "'s stream_ops \<Rightarrow> bool \<Rightarrow> re_instruction \<Rightarrow> bool \<Rightarrow> 's match_engine \<Rightarrow> 's flow option" where
  "consume_if ops direction instr condition e =
     (if condition then
        do { e \<leftarrow> advance_code_point_in_direction ops direction e; Some (Next (advance_instruction instr e)) }
      else Some (Retry False e))"

definition assert_that :: "re_instruction \<Rightarrow> bool \<Rightarrow> 's match_engine \<Rightarrow> 's flow option" where
  "assert_that instr condition e = Some (if condition then Next (advance_instruction instr e) else Retry False e)"

text \<open>Every instruction but \<open>Lookaround\<close>, which runs the engine itself.\<close>

fun execute_instruction ::
  "icu_case \<Rightarrow> compiled_regexp \<Rightarrow> 's stream_ops \<Rightarrow> bool \<Rightarrow> re_instruction \<Rightarrow> 's match_engine \<Rightarrow> 's flow option" where
  "execute_instruction icu rx ops direction Accept e = Some Accepted"
| "execute_instruction icu rx ops direction Fail e = Some (Retry False e)"
| "execute_instruction icu rx ops direction (Literal cp) e =
     consume_if ops direction (Literal cp) (so_current ops (string_lexer e) = cp) e"
| "execute_instruction icu rx ops direction Wildcard e =
     consume_if ops direction Wildcard (has_current ops (string_lexer e)) e"
| "execute_instruction icu rx ops direction WildcardNoNewline e =
     consume_if ops direction WildcardNoNewline
       (has_current ops (string_lexer e) \<and> \<not> is_newline (so_current ops (string_lexer e))) e"
| "execute_instruction icu rx ops direction (Jump target) e = Some (Next (set_next_instruction target e))"
| "execute_instruction icu rx ops direction (Branch first_branch second_branch) e =
     Some (Next (set_next_instruction first_branch (push_backtrack_restore_state ops (unat second_branch) e)))"
| "execute_instruction icu rx ops direction (MarkCapturePoint index) e =
     do { e \<leftarrow> push_capture_point index (of_nat (so_pos ops (string_lexer e))) e;
          Some (Next (advance_instruction (MarkCapturePoint index) e)) }"
| "execute_instruction icu rx ops direction (ClearCapture grp) e =
     do { e \<leftarrow> push_capture_point (grp * 2 + 1) EMPTY_STRING_INDEX e;
          Some (Next (advance_instruction (ClearCapture grp) e)) }"
| "execute_instruction icu rx ops direction (Progress index) e =
     do { last_index \<leftarrow> get_progress_point index e;
          let string_index = of_nat (so_pos ops (string_lexer e));
          if last_index \<noteq> string_index then
            do { e \<leftarrow> push_progress_point index string_index e; Some (Next (advance_instruction (Progress index) e)) }
          else Some (Retry False e) }"
| "execute_instruction icu rx ops direction (Loop register max_value end_branch) e =
     do { v \<leftarrow> get_loop_register register e;
          if v < unat max_value then
            do { e \<leftarrow> push_loop_register register (v + 1) e;
                 Some (Next (advance_instruction (Loop register max_value end_branch) e)) }
          else do { e \<leftarrow> push_loop_register register 0 e; Some (Next (set_next_instruction end_branch e)) } }"
| "execute_instruction icu rx ops direction AssertStart e = assert_that AssertStart (is_start ops (string_lexer e)) e"
| "execute_instruction icu rx ops direction AssertEnd e = assert_that AssertEnd (is_end ops (string_lexer e)) e"
| "execute_instruction icu rx ops direction AssertStartOrNewline e =
     assert_that AssertStartOrNewline
       (is_start ops (string_lexer e) \<or> is_newline (code_point_before_current_pos ops direction e)) e"
| "execute_instruction icu rx ops direction AssertEndOrNewline e =
     assert_that AssertEndOrNewline
       (is_end ops (string_lexer e) \<or> is_newline (code_point_after_current_pos ops direction e)) e"
| "execute_instruction icu rx ops direction WordBoundaryMoveToPrevious e =
     (let e = e\<lparr>word_boundary_register := compare_register e\<rparr>;
          e = no_advance_read_code_point_in_direction ops (\<not> direction) e
      in Some (Next (reset_compare_register (advance_instruction WordBoundaryMoveToPrevious e))))"
| "execute_instruction icu rx ops direction AssertWordBoundary e =
     Some (if is_at_word_boundary e then
             Next (reset_compare_register (advance_instruction AssertWordBoundary
               (no_advance_read_code_point_in_direction ops direction e)))
           else Retry True e)"
| "execute_instruction icu rx ops direction AssertNotWordBoundary e =
     Some (if is_at_word_boundary e then Retry True e
           else Next (reset_compare_register (advance_instruction AssertNotWordBoundary
             (no_advance_read_code_point_in_direction ops direction e))))"
| "execute_instruction icu rx ops direction (Backreference is_case_insensitive grp) e =
     execute_backreference icu rx ops direction is_case_insensitive grp e"
| "execute_instruction icu rx ops direction ConsumeIfTrue e =
     (if \<not> compare_register e \<or> \<not> has_current ops (string_lexer e) then Some (Retry True e)
      else do { e \<leftarrow> advance_code_point_in_direction ops direction e;
                Some (Next (reset_compare_register (advance_instruction ConsumeIfTrue e))) })"
| "execute_instruction icu rx ops direction ConsumeIfFalse e =
     (if compare_register e \<or> \<not> has_current ops (string_lexer e) then Some (Retry True e)
      else do { e \<leftarrow> advance_code_point_in_direction ops direction e;
                Some (Next (reset_compare_register (advance_instruction ConsumeIfFalse e))) })"
| "execute_instruction icu rx ops direction (CompareEquals cp) e =
     (let e = (if cp = so_current ops (string_lexer e) then e\<lparr>compare_register := True\<rparr> else e)
      in Some (Next (advance_instruction (CompareEquals cp) e)))"
| "execute_instruction icu rx ops direction (CompareBetween start stop) e =
     (let current = so_current ops (string_lexer e);
          e = (if current \<ge> start \<and> current < stop then e\<lparr>compare_register := True\<rparr> else e)
      in Some (Next (advance_instruction (CompareBetween start stop) e)))"
| "execute_instruction icu rx ops direction (Lookaround is_ahead is_positive body) e = None"

subsection \<open>The execution loop\<close>

text \<open>Prime the lexer for the direction of a lookaround, and start its body.\<close>

definition enter_lookaround :: "'s stream_ops \<Rightarrow> bool \<Rightarrow> u32 \<Rightarrow> 's match_engine \<Rightarrow> 's match_engine" where
  "enter_lookaround ops is_ahead body e =
     no_advance_read_code_point_in_direction ops is_ahead
       (set_next_instruction body (e\<lparr>backtrack_stack_base := length (backtrack_stack e)\<rparr>))"

text \<open>After the sub-execution: keep what undoes a match, and restore the base of the stack.\<close>

definition leave_lookaround :: "'s match_engine \<Rightarrow> bool \<Rightarrow> 's match_engine \<Rightarrow> 's match_engine" where
  "leave_lookaround old is_match e =
     (let e = (if is_match then push_entry (RestoreBacktrackStack (length (backtrack_stack old))) e else e)
      in e\<lparr>backtrack_stack_base := backtrack_stack_base old\<rparr>)"

definition resume_after_lookaround :: "'s stream_ops \<Rightarrow> re_instruction \<Rightarrow> 's match_engine \<Rightarrow> 's match_engine \<Rightarrow> 's match_engine" where
  "resume_after_lookaround ops instr old e =
     e\<lparr>string_lexer := so_restore ops (so_save ops (string_lexer old)) (string_lexer e),
       instruction_index := instruction_index old + re_size instr\<rparr>"

text \<open>The effect of \<open>backtrack()?\<close>, with what runs after it when it is \<open>Ok\<close>.\<close>

definition after_backtrack ::
  "'s stream_ops \<Rightarrow> bool \<Rightarrow> ('s match_engine \<Rightarrow> (bool \<times> 's match_engine) outcome) \<Rightarrow> 's match_engine \<Rightarrow>
   (bool \<times> 's match_engine) outcome" where
  "after_backtrack ops reset k e =
     (case backtrack ops e of
        None \<Rightarrow> Panicked
      | Some (False, e) \<Rightarrow> Done (False, e)
      | Some (True, e) \<Rightarrow> k (if reset then reset_compare_register e else e))"

fun execute_bytecode ::
  "icu_case \<Rightarrow> compiled_regexp \<Rightarrow> 's stream_ops \<Rightarrow> nat \<Rightarrow> bool \<Rightarrow> 's match_engine \<Rightarrow> (bool \<times> 's match_engine) outcome" where
  "execute_bytecode icu rx ops 0 direction e = Out_Of_Fuel"
| "execute_bytecode icu rx ops (Suc n) direction e =
     (case re_read (cr_instructions rx) (instruction_index e) of
        None \<Rightarrow> Panicked
      | Some (Lookaround is_ahead is_positive body) \<Rightarrow>
          (case execute_bytecode icu rx ops n is_ahead (enter_lookaround ops is_ahead body e) of
             Done (is_match, e1) \<Rightarrow>
               (let e2 = leave_lookaround e is_match e1 in
                if is_match = is_positive then
                  execute_bytecode icu rx ops n direction
                    (resume_after_lookaround ops (Lookaround is_ahead is_positive body) e e2)
                else after_backtrack ops False (execute_bytecode icu rx ops n direction) e2)
           | other \<Rightarrow> other)
      | Some instr \<Rightarrow>
          (case execute_instruction icu rx ops direction instr e of
             None \<Rightarrow> Panicked
           | Some Accepted \<Rightarrow> Done (True, e)
           | Some (Next e) \<Rightarrow> execute_bytecode icu rx ops n direction e
           | Some (Retry reset e) \<Rightarrow> after_backtrack ops reset (execute_bytecode icu rx ops n direction) e))"

text \<open>The captures of the match, the whole match first.\<close>

definition build_match :: "compiled_regexp \<Rightarrow> 's match_engine \<Rightarrow> (nat \<times> nat) option list option" where
  "build_match rx e =
     those (map (\<lambda>i. get_valid_capture_bounds (of_nat i) e) [0..<unat (cr_num_capture_groups rx + 1)])"

definition match_result ::
  "compiled_regexp \<Rightarrow> (bool \<times> 's match_engine) outcome \<Rightarrow> (nat \<times> nat) option list option outcome" where
  "match_result rx r =
     (case r of
        Done (True, e) \<Rightarrow> (case build_match rx e of None \<Rightarrow> Panicked | Some m \<Rightarrow> Done (Some m))
      | Done (False, e) \<Rightarrow> Done None
      | Panicked \<Rightarrow> Panicked
      | Out_Of_Fuel \<Rightarrow> Out_Of_Fuel)"

definition match_lexer_stream ::
  "icu_case \<Rightarrow> compiled_regexp \<Rightarrow> 's stream_ops \<Rightarrow> nat \<Rightarrow> 's \<Rightarrow> u32 \<Rightarrow> (nat \<times> nat) option list option outcome" where
  "match_lexer_stream icu rx ops fuel lexer start_index =
     match_result rx
       (execute_bytecode icu rx ops fuel FORWARD (engine_new rx (so_advance_n ops (unat start_index) lexer)))"

definition run_matcher ::
  "icu_case \<Rightarrow> compiled_regexp \<Rightarrow> nat \<Rightarrow> flat_string \<Rightarrow> u32 \<Rightarrow> (nat \<times> nat) option list option outcome" where
  "run_matcher icu rx fuel target start_index =
     (case target of
        OneByte buf \<Rightarrow> match_lexer_stream icu rx one_byte_ops fuel (unit_new buf) start_index
      | TwoByte buf \<Rightarrow>
          if cr_has_any_unicode_flag rx then match_lexer_stream icu rx code_point_ops fuel (unit_new buf) start_index
          else match_lexer_stream icu rx code_unit_ops fuel (unit_new buf) start_index)"

end
