(* ===== verification/Regexp_Compiler.thy ===== *)
theory Regexp_Compiler
  imports Regexp_Class Regexp_Matcher
begin

section \<open>The regular expression compiler\<close>

text \<open>
  \<open>runtime/regexp/compiler.rs\<close>: the builder emits the words of instructions into blocks, with
  block ids as the operands of branches; at the end the blocks are concatenated and the ids replaced
  by the index of the first word of the block. A block that does not end in a jump falls through
  into the next one. \<open>None\<close> is a panic. The vectors \<open>flags\<close> and \<open>direction_stack\<close> are
  lists with their top first.
\<close>

datatype direction = Forward | Backward

record builder =
  rb_blocks :: "u32 list list"
  rb_flags :: "regexp_flags list"
  rb_current_block_id :: nat
  rb_num_progress_points :: u32
  rb_num_loop_registers :: u32
  rb_direction_stack :: "direction list"
  rb_repitition_depth :: nat

record sub_expression_info =
  always_consumes :: bool
  captures :: "u32 list"

definition MAX_INLINED_REPITITIONS :: u64 where "MAX_INLINED_REPITITIONS = 10"

definition no_captures :: "bool \<Rightarrow> sub_expression_info" where
  "no_captures consumes = \<lparr>always_consumes = consumes, captures = []\<rparr>"

definition with_captures :: "bool \<Rightarrow> u32 list \<Rightarrow> sub_expression_info" where
  "with_captures consumes caps = \<lparr>always_consumes = consumes, captures = caps\<rparr>"

definition builder_new :: "'p regexp \<Rightarrow> builder" where
  "builder_new r =
     \<lparr>rb_blocks = [], rb_flags = [regexp_flags r], rb_current_block_id = 0, rb_num_progress_points = 0,
      rb_num_loop_registers = 0, rb_direction_stack = [Forward], rb_repitition_depth = 0\<rparr>"

definition new_block :: "builder \<Rightarrow> nat \<times> builder" where
  "new_block b = (length (rb_blocks b), b\<lparr>rb_blocks := rb_blocks b @ [[]]\<rparr>)"

definition set_current_block :: "nat \<Rightarrow> builder \<Rightarrow> builder" where
  "set_current_block block_id b = b\<lparr>rb_current_block_id := block_id\<rparr>"

definition enter_direction_context :: "direction \<Rightarrow> builder \<Rightarrow> builder" where
  "enter_direction_context direction b = b\<lparr>rb_direction_stack := direction # rb_direction_stack b\<rparr>"

definition exit_direction_context :: "builder \<Rightarrow> builder" where
  "exit_direction_context b = b\<lparr>rb_direction_stack := tl (rb_direction_stack b)\<rparr>"

definition is_forwards :: "builder \<Rightarrow> bool option" where
  "is_forwards b = (case rb_direction_stack b of [] \<Rightarrow> None | direction # _ \<Rightarrow> Some (direction = Forward))"

definition enter_repitition_context :: "builder \<Rightarrow> builder" where
  "enter_repitition_context b = b\<lparr>rb_repitition_depth := rb_repitition_depth b + 1\<rparr>"

definition exit_repitition_context :: "builder \<Rightarrow> builder" where
  "exit_repitition_context b = b\<lparr>rb_repitition_depth := rb_repitition_depth b - 1\<rparr>"

definition is_in_repitition :: "builder \<Rightarrow> bool" where
  "is_in_repitition b \<longleftrightarrow> rb_repitition_depth b > 0"

definition current_flags :: "builder \<Rightarrow> regexp_flags option" where
  "current_flags b = (case rb_flags b of [] \<Rightarrow> None | fl # _ \<Rightarrow> Some fl)"

text \<open>The \<open>emit_*_instruction\<close> functions: write the instruction to the buffer of the current block.\<close>

definition emit :: "re_instruction \<Rightarrow> builder \<Rightarrow> builder option" where
  "emit instr b =
     (if rb_current_block_id b < length (rb_blocks b) then
        Some (b\<lparr>rb_blocks := (rb_blocks b)[rb_current_block_id b := rb_blocks b ! rb_current_block_id b @ re_write instr]\<rparr>)
      else None)"

definition emit_jump :: "nat \<Rightarrow> builder \<Rightarrow> builder option" where
  "emit_jump block_id = emit (Jump (of_nat block_id))"

definition emit_branch :: "nat \<Rightarrow> nat \<Rightarrow> builder \<Rightarrow> builder option" where
  "emit_branch first_block_id second_block_id = emit (Branch (of_nat first_block_id) (of_nat second_block_id))"

definition new_progress_point :: "builder \<Rightarrow> u32 \<times> builder" where
  "new_progress_point b = (rb_num_progress_points b, b\<lparr>rb_num_progress_points := rb_num_progress_points b + 1\<rparr>)"

definition next_loop_register :: "builder \<Rightarrow> u32 \<times> builder" where
  "next_loop_register b = (rb_num_loop_registers b, b\<lparr>rb_num_loop_registers := rb_num_loop_registers b + 1\<rparr>)"

text \<open>The loops \<open>for x in xs\<close>, and the closure of \<open>in_block\<close>.\<close>

primrec for_each :: "('a \<Rightarrow> builder \<Rightarrow> builder option) \<Rightarrow> 'a list \<Rightarrow> builder \<Rightarrow> builder option" where
  "for_each f [] b = Some b"
| "for_each f (x # xs) b = do { b \<leftarrow> f x b; for_each f xs b }"

primrec new_blocks :: "nat \<Rightarrow> builder \<Rightarrow> nat list \<times> builder" where
  "new_blocks 0 b = ([], b)"
| "new_blocks (Suc n) b = (let (i, b) = new_block b; (ids, b) = new_blocks n b in (i # ids, b))"

definition in_block :: "nat \<Rightarrow> (builder \<Rightarrow> ('a \<times> builder) option) \<Rightarrow> builder \<Rightarrow> ('a \<times> builder) option" where
  "in_block block_id f b =
     do { (result, b') \<leftarrow> f (set_current_block block_id b);
          Some (result, set_current_block (rb_current_block_id b) b') }"

definition in_block_do :: "nat \<Rightarrow> (builder \<Rightarrow> builder option) \<Rightarrow> builder \<Rightarrow> builder option" where
  "in_block_do block_id f b =
     do { b' \<leftarrow> f (set_current_block block_id b); Some (set_current_block (rb_current_block_id b) b') }"

definition emit_clear_captures :: "u32 list \<Rightarrow> builder \<Rightarrow> builder option" where
  "emit_clear_captures = for_each (\<lambda>capture_index. emit (ClearCapture capture_index))"

definition emit_preamble :: "builder \<Rightarrow> builder option" where
  "emit_preamble b =
     do { let (wildcard_block, b) = new_block b;
          let (join_block, b) = new_block b;
          b \<leftarrow> emit_branch join_block wildcard_block b;
          b \<leftarrow> emit Wildcard (set_current_block wildcard_block b);
          b \<leftarrow> emit_branch join_block wildcard_block b;
          Some (set_current_block join_block b) }"

subsection \<open>Code points, assertions and classes\<close>

definition emit_set_comparisons :: "('cs, 'p) icu_sets \<Rightarrow> 'cs \<Rightarrow> builder \<Rightarrow> builder option" where
  "emit_set_comparisons icu cs =
     for_each (\<lambda>(start, stop). if start = stop then emit (CompareEquals start) else emit (CompareBetween start (stop + 1)))
       (set_iter_ranges icu cs)"

definition emit_code_point_set :: "('cs, 'p) icu_sets \<Rightarrow> 'cs \<Rightarrow> bool \<Rightarrow> builder \<Rightarrow> builder option" where
  "emit_code_point_set icu cs is_inverted b =
     (if set_size icu cs = 1 \<and> \<not> is_inverted then
        (case set_iter_chars icu cs of [] \<Rightarrow> None | cp # _ \<Rightarrow> emit (Literal cp) b)
      else
        do { b \<leftarrow> emit_set_comparisons icu cs b;
             emit (if is_inverted then ConsumeIfFalse else ConsumeIfTrue) b })"

definition emit_code_point_literal :: "('cs, 'p) icu_sets \<Rightarrow> code_point \<Rightarrow> builder \<Rightarrow> builder option" where
  "emit_code_point_literal icu cp b =
     do { fl \<leftarrow> current_flags b;
          if is_case_insensitive fl \<and> \<not> is_surrogate_code_point cp then
            if is_char cp then emit_code_point_set icu (add_case_closure icu fl cp (set_new icu)) False b else None
          else emit (Literal cp) b }"

definition emit_literal :: "('cs, 'p) icu_sets \<Rightarrow> ast_str \<Rightarrow> builder \<Rightarrow> builder option" where
  "emit_literal icu string b =
     do { forwards \<leftarrow> is_forwards b;
          cps \<leftarrow> iter_code_points string;
          for_each (emit_code_point_literal icu) (if forwards then cps else rev cps) b }"

definition emit_wildcard :: "builder \<Rightarrow> builder option" where
  "emit_wildcard b = do { fl \<leftarrow> current_flags b; emit (if is_dot_all fl then Wildcard else WildcardNoNewline) b }"

definition emit_word_comparison :: "('cs, 'p) icu_sets \<Rightarrow> builder \<Rightarrow> builder option" where
  "emit_word_comparison icu b =
     do { fl \<leftarrow> current_flags b;
          emit_set_comparisons icu
            (if is_case_insensitive fl \<and> has_any_unicode_flag fl then WORD_CASE_INSENSITIVE_UNICODE_SET icu else WORD_SET icu) b }"

definition emit_word_boundary_check :: "('cs, 'p) icu_sets \<Rightarrow> re_instruction \<Rightarrow> builder \<Rightarrow> builder option" where
  "emit_word_boundary_check icu check b =
     do { b \<leftarrow> emit_word_comparison icu b;
          b \<leftarrow> emit WordBoundaryMoveToPrevious b;
          b \<leftarrow> emit_word_comparison icu b;
          emit check b }"

definition emit_assertion :: "('cs, 'p) icu_sets \<Rightarrow> assertion \<Rightarrow> builder \<Rightarrow> builder option" where
  "emit_assertion icu assertion b =
     do { fl \<leftarrow> current_flags b;
          (case assertion of
             Start \<Rightarrow> emit (if is_multiline fl then AssertStartOrNewline else AssertStart) b
           | End \<Rightarrow> emit (if is_multiline fl then AssertEndOrNewline else AssertEnd) b
           | WordBoundary \<Rightarrow> emit_word_boundary_check icu AssertWordBoundary b
           | NotWordBoundary \<Rightarrow> emit_word_boundary_check icu AssertNotWordBoundary b) }"

text \<open>Longest strings first, then in the order of their bytes.\<close>

fun bytes_less :: "ast_str \<Rightarrow> ast_str \<Rightarrow> bool" where
  "bytes_less _ [] = False"
| "bytes_less [] (_ # _) = True"
| "bytes_less (x # xs) (y # ys) \<longleftrightarrow> x < y \<or> x = y \<and> bytes_less xs ys"

definition string_before :: "ast_str \<Rightarrow> ast_str \<Rightarrow> bool" where
  "string_before s t \<longleftrightarrow> length s > length t \<or> length s = length t \<and> bytes_less s t"

primrec insert_string :: "ast_str \<Rightarrow> ast_str list \<Rightarrow> ast_str list" where
  "insert_string s [] = [s]"
| "insert_string s (t # ts) = (if string_before t s then t # insert_string s ts else s # t # ts)"

definition sort_strings :: "ast_str list \<Rightarrow> ast_str list" where
  "sort_strings strings = foldr insert_string strings []"

definition emit_class_string_disjunction :: "('cs, 'p) icu_sets \<Rightarrow> ast_str list \<Rightarrow> nat \<Rightarrow> builder \<Rightarrow> builder option" where
  "emit_class_string_disjunction icu strings success_block b =
     do { let strings = sort_strings strings;
          let current = rb_current_block_id b;
          let (new_ids, b) = new_blocks (length strings - 1) b;
          let branch_block_ids = current # new_ids;
          let (alternative_block_ids, b) = new_blocks (length strings) b;
          let (join_block_id, b) = new_block b;
          b \<leftarrow> for_each
            (\<lambda>i b. emit_branch (alternative_block_ids ! i) (branch_block_ids ! (i + 1)) (set_current_block (branch_block_ids ! i) b))
            [0..<length strings - 1] b;
          b \<leftarrow> emit_branch (alternative_block_ids ! (length strings - 1)) join_block_id
            (set_current_block (branch_block_ids ! (length branch_block_ids - 1)) b);
          b \<leftarrow> for_each
            (\<lambda>(block_id, string) b.
               do { b \<leftarrow> emit_literal icu string (set_current_block block_id b); emit_jump success_block b })
            (zip alternative_block_ids strings) b;
          Some (set_current_block join_block_id b) }"

definition emit_character_class :: "('cs, 'p) icu_sets \<Rightarrow> 'p character_class \<Rightarrow> builder \<Rightarrow> builder option" where
  "emit_character_class icu character_class b =
     do { fl \<leftarrow> current_flags b;
          (cs, strings) \<leftarrow> character_class_to_set icu fl character_class;
          let cs' = (if is_case_insensitive fl then case_close_over icu fl cs else cs);
          let is_inverted = (case character_class of CharacterClass _ is_inverted _ \<Rightarrow> is_inverted);
          let is_check_inverted = (is_inverted \<and> \<not> has_unicode_sets_flag fl);
          if strings \<noteq> [] then
            do { let (join_block, b) = new_block b;
                 b \<leftarrow> emit_class_string_disjunction icu strings join_block b;
                 b \<leftarrow> emit_code_point_set icu cs' is_check_inverted b;
                 b \<leftarrow> emit_jump join_block b;
                 Some (set_current_block join_block b) }
          else emit_code_point_set icu cs' is_check_inverted b }"

subsection \<open>Disjunctions\<close>

text \<open>
  The bodies of \<open>emit_disjunction\<close> and \<open>emit_quantifier\<close>, with the sub-expressions given by the
  functions that emit them; the recursion over the syntax tree is tied at the end.
\<close>

type_synonym emitter = "builder \<Rightarrow> (sub_expression_info \<times> builder) option"
type_synonym alternative_block = "nat \<times> nat \<times> sub_expression_info"

primrec emit_alternative_blocks :: "emitter list \<Rightarrow> builder \<Rightarrow> (alternative_block list \<times> builder) option" where
  "emit_alternative_blocks [] b = Some ([], b)"
| "emit_alternative_blocks (emit_alternative # rest) b =
     do { let (entry_block, b) = new_block b;
          (info, b) \<leftarrow> emit_alternative (set_current_block entry_block b);
          (blocks, b') \<leftarrow> emit_alternative_blocks rest b;
          Some ((entry_block, rb_current_block_id b, info) # blocks, b') }"

definition entry_block :: "alternative_block \<Rightarrow> nat" where
  "entry_block alt = fst alt"

definition exit_block :: "alternative_block \<Rightarrow> nat" where
  "exit_block alt = fst (snd alt)"

definition block_captures :: "alternative_block \<Rightarrow> u32 list" where
  "block_captures alt = captures (snd (snd alt))"

text \<open>In a repitition: clear the captures of the alternatives that were tried before.\<close>

definition emit_clear_previous :: "nat list \<Rightarrow> alternative_block list \<Rightarrow> builder \<Rightarrow> builder option" where
  "emit_clear_previous branch_block_ids alts b =
     do { b \<leftarrow> for_each
            (\<lambda>i b. if block_captures (alts ! (i - 1)) \<noteq> [] then
                     emit_clear_captures (block_captures (alts ! (i - 1))) (set_current_block (branch_block_ids ! i) b)
                   else Some b)
            [1..<length alts - 1] b;
          for_each
            (\<lambda>capture_index b. emit (ClearCapture capture_index) (set_current_block (exit_block (alts ! (length alts - 1))) b))
            (block_captures (alts ! (length alts - 2))) b }"

text \<open>
  The chain of blocks that clear the captures of later alternatives, last alternative first; the
  result has the block that each alternative joins to, first alternative first.
\<close>

primrec emit_clear_chain :: "alternative_block list \<Rightarrow> nat list \<Rightarrow> builder \<Rightarrow> (nat list \<times> builder) option" where
  "emit_clear_chain [] joins b = Some (joins, b)"
| "emit_clear_chain (alt # alts) joins b =
     (if is_in_repitition b \<and> block_captures alt \<noteq> [] then
        do { let (clear_capture_block_id, b) = new_block b;
             b \<leftarrow> emit_clear_captures (block_captures alt) (set_current_block clear_capture_block_id b);
             b \<leftarrow> emit_jump (hd joins) b;
             emit_clear_chain alts (clear_capture_block_id # joins) b }
      else emit_clear_chain alts (hd joins # joins) b)"

definition emit_branch_chain :: "nat list \<Rightarrow> alternative_block list \<Rightarrow> builder \<Rightarrow> builder option" where
  "emit_branch_chain branch_block_ids alts b =
     do { b \<leftarrow> for_each
            (\<lambda>i b. emit_branch (entry_block (alts ! i)) (branch_block_ids ! (i + 1)) (set_current_block (branch_block_ids ! i) b))
            [0..<length alts - 2] b;
          emit_branch (entry_block (alts ! (length alts - 2))) (entry_block (alts ! (length alts - 1)))
            (set_current_block (branch_block_ids ! (length branch_block_ids - 1)) b) }"

definition emit_disjunction_of :: "emitter list \<Rightarrow> emitter" where
  "emit_disjunction_of alternatives b =
     (if alternatives = [] then None
      else if length alternatives = 1 then hd alternatives b
      else
        do { let current = rb_current_block_id b;
             let (new_ids, b) = new_blocks (length alternatives - 2) b;
             let branch_block_ids = current # new_ids;
             let (join_block_id, b) = new_block b;
             (alts, b) \<leftarrow> emit_alternative_blocks alternatives b;
             b \<leftarrow> (if is_in_repitition b then emit_clear_previous branch_block_ids alts b else Some b);
             (joins, b) \<leftarrow> emit_clear_chain (rev (tl alts)) [join_block_id] b;
             b \<leftarrow> for_each (\<lambda>(alt, join_block) b. emit_jump join_block (set_current_block (exit_block alt) b)) (zip alts joins) b;
             b \<leftarrow> emit_branch_chain branch_block_ids alts b;
             Some (with_captures (list_all (\<lambda>alt. always_consumes (snd (snd alt))) alts) (concat (map block_captures alts)),
               set_current_block join_block_id b) })"

primrec emit_alternative_terms :: "emitter list \<Rightarrow> emitter" where
  "emit_alternative_terms [] b = Some (with_captures False [], b)"
| "emit_alternative_terms (emit_term # rest) b =
     do { (info, b) \<leftarrow> emit_term b;
          (rest_info, b) \<leftarrow> emit_alternative_terms rest b;
          Some (with_captures (always_consumes info \<or> always_consumes rest_info) (captures info @ captures rest_info), b) }"

definition emit_alternative_of :: "emitter list \<Rightarrow> emitter" where
  "emit_alternative_of terms b =
     do { forwards \<leftarrow> is_forwards b; emit_alternative_terms (if forwards then terms else rev terms) b }"

subsection \<open>Quantifiers\<close>

definition emit_quantifier_branch :: "bool \<Rightarrow> nat \<Rightarrow> nat \<Rightarrow> builder \<Rightarrow> builder option" where
  "emit_quantifier_branch is_greedy term_block_id join_block_id =
     (if is_greedy then emit_branch term_block_id join_block_id else emit_branch join_block_id term_block_id)"

definition emit_quantifier_clear_captures_branch :: "bool \<Rightarrow> sub_expression_info \<Rightarrow> nat \<Rightarrow> nat \<Rightarrow> builder \<Rightarrow> builder option" where
  "emit_quantifier_clear_captures_branch is_greedy info term_block_id join_block_id b =
     do { let (clear_block_id, b) = new_block b;
          b \<leftarrow> emit_quantifier_branch is_greedy term_block_id clear_block_id b;
          b \<leftarrow> emit_clear_captures (captures info) (set_current_block clear_block_id b);
          emit_jump join_block_id b }"

text \<open>The branch into the first optional repitition, with or without a block that clears captures.\<close>

definition emit_enter_branch :: "bool \<Rightarrow> bool \<Rightarrow> sub_expression_info \<Rightarrow> nat \<Rightarrow> nat \<Rightarrow> builder \<Rightarrow> builder option" where
  "emit_enter_branch is_greedy clears info term_block_id join_block_id =
     (if clears \<and> captures info \<noteq> [] then
        emit_quantifier_clear_captures_branch is_greedy info term_block_id join_block_id
      else emit_quantifier_branch is_greedy term_block_id join_block_id)"

primrec emit_times :: "nat \<Rightarrow> emitter \<Rightarrow> sub_expression_info \<Rightarrow> emitter" where
  "emit_times 0 emit_term info b = Some (info, b)"
| "emit_times (Suc n) emit_term info b = do { (info, b) \<leftarrow> emit_term b; emit_times n emit_term info b }"

text \<open>The repititions that must be present.\<close>

definition emit_min_repititions :: "emitter \<Rightarrow> u64 \<Rightarrow> emitter" where
  "emit_min_repititions emit_term q_min b =
     (if q_min \<noteq> 0 \<and> q_min \<le> MAX_INLINED_REPITITIONS then emit_times (unat q_min) emit_term (no_captures False) b
      else if q_min > 0xFFFFFFFF then do { b \<leftarrow> emit Fail b; Some (no_captures False, b) }
      else if q_min \<noteq> 0 then
        do { let (loop_block_id, b) = new_block b;
             let (loop_end_block_id, b) = new_block b;
             b \<leftarrow> emit_jump loop_block_id b;
             (info, b) \<leftarrow> in_block loop_block_id
               (\<lambda>b. do { let (loop_register_index, b) = next_loop_register b;
                         b \<leftarrow> emit (Loop loop_register_index (ucast q_min) (of_nat loop_end_block_id)) b;
                         (info, b) \<leftarrow> emit_term b;
                         b \<leftarrow> emit_jump loop_block_id b;
                         Some (info, b) }) b;
             Some (info, set_current_block loop_end_block_id b) }
      else Some (no_captures False, b))"

text \<open>The inlined optional repititions, the first with number \<open>i\<close>; the last captures are returned.\<close>

primrec emit_optional_repititions ::
  "emitter \<Rightarrow> bool \<Rightarrow> bool \<Rightarrow> nat \<Rightarrow> u32 option \<Rightarrow> u32 list \<Rightarrow> nat \<Rightarrow> u64 \<Rightarrow> builder \<Rightarrow> (u32 list \<times> builder) option" where
  "emit_optional_repititions emit_term is_greedy is_inside join_block_id progress caps 0 i b = Some (caps, b)"
| "emit_optional_repititions emit_term is_greedy is_inside join_block_id progress caps (Suc n) i b =
     do { let pred_block_id = rb_current_block_id b;
          let (term_block_id, b) = new_block b;
          (info, b) \<leftarrow> emit_term (set_current_block term_block_id b);
          (progress, b) \<leftarrow>
            (if \<not> always_consumes info then
               do { let (progress_index, b) = (case progress of Some p \<Rightarrow> (p, b) | None \<Rightarrow> new_progress_point b);
                    b \<leftarrow> emit (Progress progress_index) b;
                    Some (Some progress_index, b) }
             else Some (progress, b));
          b \<leftarrow> in_block_do pred_block_id (emit_enter_branch is_greedy (i = 0 \<and> is_inside) info term_block_id join_block_id) b;
          emit_optional_repititions emit_term is_greedy is_inside join_block_id progress (captures info) n (i + 1) b }"

text \<open>A loop over the optional repititions.\<close>

definition emit_progress_check :: "sub_expression_info \<Rightarrow> builder \<Rightarrow> builder option" where
  "emit_progress_check info b =
     (if \<not> always_consumes info then
        do { let (progress_index, b) = new_progress_point b; emit (Progress progress_index) b }
      else Some b)"

definition emit_optional_loop :: "emitter \<Rightarrow> bool \<Rightarrow> bool \<Rightarrow> nat \<Rightarrow> u64 \<Rightarrow> builder \<Rightarrow> (u32 list \<times> builder) option" where
  "emit_optional_loop emit_term is_greedy clears join_block_id num_remaining b =
     do { let predecessor_block_id = rb_current_block_id b;
          let (loop_block_id, b) = new_block b;
          (info, b) \<leftarrow> in_block loop_block_id
            (\<lambda>b. do { let (loop_register_index, b) = next_loop_register b;
                      b \<leftarrow> emit (Loop loop_register_index (ucast num_remaining) (of_nat join_block_id)) b;
                      (info, b) \<leftarrow> emit_term b;
                      b \<leftarrow> emit_progress_check info b;
                      b \<leftarrow> emit_quantifier_branch is_greedy loop_block_id join_block_id b;
                      Some (info, b) }) b;
          b \<leftarrow> emit_enter_branch is_greedy clears info loop_block_id join_block_id (set_current_block predecessor_block_id b);
          Some (captures info, b) }"

text \<open>Any number of repititions.\<close>

definition emit_unbounded :: "emitter \<Rightarrow> bool \<Rightarrow> bool \<Rightarrow> builder \<Rightarrow> (u32 list \<times> builder) option" where
  "emit_unbounded emit_term is_greedy is_inside b =
     do { let (term_block_id, b) = new_block b;
          let (join_block_id, b) = new_block b;
          let pred_block_id = rb_current_block_id b;
          (info, b) \<leftarrow> emit_term (set_current_block term_block_id b);
          b \<leftarrow> in_block_do pred_block_id (emit_enter_branch is_greedy is_inside info term_block_id join_block_id) b;
          b \<leftarrow> emit_progress_check info b;
          b \<leftarrow> emit_quantifier_branch is_greedy term_block_id join_block_id b;
          Some (captures info, set_current_block join_block_id b) }"

text \<open>Clear the captures of a quantifier that consumed nothing.\<close>

definition emit_zero_length_check :: "nat \<Rightarrow> sub_expression_info \<Rightarrow> builder \<Rightarrow> builder option" where
  "emit_zero_length_check quantifier_patch_block info b =
     do { let (progress_index, b) = new_progress_point b;
          b \<leftarrow> in_block_do quantifier_patch_block (emit (Progress progress_index)) b;
          let (check_progress_and_continue_block, b) = new_block b;
          let (clear_captures_block, b) = new_block b;
          let (join_block, b) = new_block b;
          b \<leftarrow> emit_branch check_progress_and_continue_block clear_captures_block b;
          b \<leftarrow> in_block_do check_progress_and_continue_block
            (\<lambda>b. do { b \<leftarrow> emit (Progress progress_index) b; emit_jump join_block b }) b;
          b \<leftarrow> in_block_do clear_captures_block
            (\<lambda>b. do { b \<leftarrow> emit_clear_captures (captures info) b; emit_jump join_block b }) b;
          Some (set_current_block join_block b) }"

text \<open>
  The repititions after the required ones. \<open>None\<close> as the captures is the early return of an
  exact number of repititions.
\<close>

definition emit_remaining ::
  "emitter \<Rightarrow> u64 \<Rightarrow> u64 option \<Rightarrow> bool \<Rightarrow> bool \<Rightarrow> sub_expression_info \<Rightarrow> builder \<Rightarrow> (u32 list option \<times> builder) option" where
  "emit_remaining emit_term q_min q_max is_greedy is_inside info b =
     (case q_max of
        None \<Rightarrow> do { (caps, b) \<leftarrow> emit_unbounded emit_term is_greedy is_inside b; Some (Some caps, b) }
      | Some q_max \<Rightarrow>
          (let num_remaining_repititions = q_max - q_min in
           if num_remaining_repititions = 0 then Some (None, b)
           else
             do { let (join_block_id, b) = new_block b;
                  (caps, b) \<leftarrow>
                    (if num_remaining_repititions \<le> MAX_INLINED_REPITITIONS then
                       do { (caps, b) \<leftarrow> emit_optional_repititions emit_term is_greedy is_inside join_block_id None
                              (captures info) (unat num_remaining_repititions) q_min b;
                            b \<leftarrow> emit_jump join_block_id b;
                            Some (caps, b) }
                     else if num_remaining_repititions > 0xFFFFFFFF then
                       do { b \<leftarrow> emit Fail b; Some (captures info, b) }
                     else emit_optional_loop emit_term is_greedy (q_min = 0 \<and> is_inside) join_block_id num_remaining_repititions b);
                  Some (Some caps, set_current_block join_block_id b) }))"

definition emit_quantifier_of :: "emitter \<Rightarrow> u64 \<Rightarrow> u64 option \<Rightarrow> bool \<Rightarrow> emitter" where
  "emit_quantifier_of emit_term q_min q_max is_greedy b =
     do { let is_inside_repitition = is_in_repitition b;
          let is_repitition = (case q_max of None \<Rightarrow> True | Some q_max \<Rightarrow> q_max > 1);
          let b = (if is_repitition then enter_repitition_context b else b);
          let (quantifier_patch_block, b) = new_block b;
          let (quantifier_start_block, b) = new_block b;
          b \<leftarrow> emit_jump quantifier_patch_block b;
          (info, b) \<leftarrow> emit_min_repititions emit_term q_min (set_current_block quantifier_start_block b);
          (caps, b) \<leftarrow> emit_remaining emit_term q_min q_max is_greedy is_inside_repitition info b;
          let b = (if is_repitition then exit_repitition_context b else b);
          (case caps of
             None \<Rightarrow> Some (info, b)
           | Some caps \<Rightarrow>
               do { let info = info\<lparr>captures := caps\<rparr>;
                    b \<leftarrow> (if q_min = 0 \<and> \<not> always_consumes info \<and> captures info \<noteq> []
                          then emit_zero_length_check quantifier_patch_block info b else Some b);
                    Some (info, b) }) }"

subsection \<open>Terms\<close>

definition emit_capture_group_of :: "emitter \<Rightarrow> u32 \<Rightarrow> emitter" where
  "emit_capture_group_of emit_body index b =
     do { forwards \<leftarrow> is_forwards b;
          let (capture_start_index, capture_end_index) = (if forwards then (index * 2, index * 2 + 1) else (index * 2 + 1, index * 2));
          b \<leftarrow> emit (MarkCapturePoint capture_start_index) b;
          (info, b) \<leftarrow> emit_body b;
          b \<leftarrow> emit (MarkCapturePoint capture_end_index) b;
          Some (info\<lparr>captures := captures info @ [index]\<rparr>, b) }"

definition emit_anonymous_group_of :: "emitter \<Rightarrow> regexp_flags \<Rightarrow> regexp_flags \<Rightarrow> emitter" where
  "emit_anonymous_group_of emit_body positive_modifiers negative_modifiers b =
     (if positive_modifiers \<noteq> 0 \<or> negative_modifiers \<noteq> 0 then
        do { fl \<leftarrow> current_flags b;
             let new_flags = (fl OR positive_modifiers) AND NOT negative_modifiers;
             (info, b) \<leftarrow> emit_body (b\<lparr>rb_flags := new_flags # rb_flags b\<rparr>);
             Some (info, b\<lparr>rb_flags := tl (rb_flags b)\<rparr>) }
      else emit_body b)"

definition emit_lookaround_of :: "emitter \<Rightarrow> bool \<Rightarrow> bool \<Rightarrow> emitter" where
  "emit_lookaround_of emit_body is_ahead is_positive b =
     do { let (body_block_id, b) = new_block b;
          b \<leftarrow> emit (Lookaround is_ahead is_positive (of_nat body_block_id)) b;
          let b = enter_direction_context (if is_ahead then Forward else Backward) b;
          let current_block_id = rb_current_block_id b;
          (info, b) \<leftarrow> emit_body (set_current_block body_block_id b);
          b \<leftarrow> emit Accept b;
          let b = set_current_block current_block_id (exit_direction_context b);
          Some (info\<lparr>always_consumes := False\<rparr>, b) }"

definition emit_leaf :: "bool \<Rightarrow> (builder \<Rightarrow> builder option) \<Rightarrow> emitter" where
  "emit_leaf consumes f b = do { b \<leftarrow> f b; Some (no_captures consumes, b) }"

definition emit_backreference :: "u32 \<Rightarrow> builder \<Rightarrow> builder option" where
  "emit_backreference index b = do { fl \<leftarrow> current_flags b; emit (Backreference (is_case_insensitive fl) index) b }"

primrec emit_disjunction :: "('cs, 'p) icu_sets \<Rightarrow> 'p disjunction \<Rightarrow> emitter"
  and emit_alternative :: "('cs, 'p) icu_sets \<Rightarrow> 'p alternative \<Rightarrow> emitter"
  and emit_term :: "('cs, 'p) icu_sets \<Rightarrow> 'p re_term \<Rightarrow> emitter" where
  "emit_disjunction icu (Disjunction alternatives) = emit_disjunction_of (map (emit_alternative icu) alternatives)"
| "emit_alternative icu (Alternative terms) = emit_alternative_of (map (emit_term icu) terms)"
| "emit_term icu (TermLiteral string) = emit_leaf True (emit_literal icu string)"
| "emit_term icu TermWildcard = emit_leaf True emit_wildcard"
| "emit_term icu (TermQuantifier quantified q_min q_max is_greedy) = emit_quantifier_of (emit_term icu quantified) q_min q_max is_greedy"
| "emit_term icu (TermAssertion assertion) = emit_leaf False (emit_assertion icu assertion)"
| "emit_term icu (TermCaptureGroup name index disjunction) = emit_capture_group_of (emit_disjunction icu disjunction) index"
| "emit_term icu (TermAnonymousGroup disjunction positive negative) =
     emit_anonymous_group_of (emit_disjunction icu disjunction) positive negative"
| "emit_term icu (TermCharacterClass character_class) = emit_leaf True (emit_character_class icu character_class)"
| "emit_term icu (TermLookaround is_ahead is_positive disjunction) =
     emit_lookaround_of (emit_disjunction icu disjunction) is_ahead is_positive"
| "emit_term icu (TermBackreference index) = emit_leaf False (emit_backreference index)"

subsection \<open>Flattening\<close>

text \<open>The index of the first word of each block.\<close>

primrec block_starts :: "nat \<Rightarrow> u32 list list \<Rightarrow> u32 list" where
  "block_starts i [] = []"
| "block_starts i (block # blocks) = of_nat i # block_starts (i + length block) blocks"

definition set_target :: "u32 list \<Rightarrow> nat \<Rightarrow> u32 list \<Rightarrow> u32 list option" where
  "set_target id_map i ws =
     (if unat (ws ! i) < length id_map then Some (ws[i := id_map ! unat (ws ! i)]) else None)"

definition fix_instruction :: "u32 list \<Rightarrow> nat \<Rightarrow> re_instruction \<Rightarrow> u32 list \<Rightarrow> u32 list option" where
  "fix_instruction id_map i instr ws =
     (case instr of
        Branch _ _ \<Rightarrow> do { ws \<leftarrow> set_target id_map (i + 1) ws; set_target id_map (i + 2) ws }
      | Jump _ \<Rightarrow> set_target id_map (i + 1) ws
      | Lookaround _ _ _ \<Rightarrow> set_target id_map (i + 1) ws
      | Loop _ _ _ \<Rightarrow> set_target id_map (i + 3) ws
      | _ \<Rightarrow> Some ws)"

lemma fix_instruction_length: "fix_instruction id_map i instr ws = Some ws' \<Longrightarrow> length ws' = length ws"
  by (auto simp: fix_instruction_def set_target_def bind_eq_Some_iff split: re_instruction.splits if_splits)

function fix_indices :: "u32 list \<Rightarrow> nat \<Rightarrow> u32 list \<Rightarrow> u32 list option" where
  "fix_indices id_map i ws =
     (if i \<ge> length ws then Some ws
      else do { instr \<leftarrow> re_read ws i;
                ws' \<leftarrow> fix_instruction id_map i instr ws;
                if re_size instr = 0 then None else fix_indices id_map (i + re_size instr) ws' })"
  by pat_completeness auto
termination
  by (relation "measure (\<lambda>(id_map, i, ws). length ws - i)") (auto dest: fix_instruction_length)

declare fix_indices.simps [simp del]

definition flatten_and_fix_indices :: "builder \<Rightarrow> u32 list option" where
  "flatten_and_fix_indices b = fix_indices (block_starts 0 (rb_blocks b)) 0 (concat (rb_blocks b))"

definition compile_blocks :: "('cs, 'p) icu_sets \<Rightarrow> 'p regexp \<Rightarrow> builder option" where
  "compile_blocks icu r =
     do { let (first, b) = new_block (builder_new r);
          fl \<leftarrow> current_flags b;
          b \<leftarrow> (if \<not> is_sticky fl then emit_preamble b else Some b);
          b \<leftarrow> emit (MarkCapturePoint 0) b;
          (info, b) \<leftarrow> emit_disjunction icu (regexp_disjunction r) b;
          b \<leftarrow> emit (MarkCapturePoint 1) b;
          emit Accept b }"

text \<open>
  The result, as far as the matcher reads it. The names of groups are allocated as strings on the
  heap; the matcher compares them by their pointers, \<open>alloc name\<close>.
\<close>

definition compile_regexp :: "('cs, 'p) icu_sets \<Rightarrow> (ast_str \<Rightarrow> u64) \<Rightarrow> 'p regexp \<Rightarrow> compiled_regexp option" where
  "compile_regexp icu alloc r =
     do { b \<leftarrow> compile_blocks icu r;
          instructions \<leftarrow> flatten_and_fix_indices b;
          Some \<lparr>cr_instructions = instructions,
                cr_has_any_unicode_flag = has_any_unicode_flag (regexp_flags r),
                cr_has_duplicate_named_capture_groups = regexp_has_duplicate_named_capture_groups r,
                cr_num_capture_groups = of_nat (length (regexp_capture_groups r)),
                cr_num_progress_points = rb_num_progress_points b,
                cr_num_loop_registers = rb_num_loop_registers b,
                cr_capture_groups = map (map_option alloc) (regexp_capture_groups r)\<rparr> }"

end
