(* ===== verification/Regexp_Blocks.thy ===== *)
theory Regexp_Blocks
  imports Regexp_Compiler
begin

section \<open>The blocks of the builder\<close>

text \<open>
  The invariant of the builder. Every block is the encoding of instructions whose targets are
  blocks, and whose captures and registers exist; the last block ends in an instruction that does
  not fall through, unless it is one of the blocks \<open>op\<close> that are still open. The counters of
  progress points and loop registers are 32 bits wide: they do not wrap as long as the code has fewer
  than \<open>2 ^ 32\<close> words.
\<close>

primrec targets :: "re_instruction \<Rightarrow> u32 list" where
  "targets (Literal _) = []" | "targets Wildcard = []" | "targets WildcardNoNewline = []"
| "targets (Jump t) = [t]" | "targets (Branch s t) = [s, t]" | "targets Accept = []" | "targets Fail = []"
| "targets (MarkCapturePoint _) = []" | "targets (ClearCapture _) = []" | "targets (Progress _) = []"
| "targets (Loop _ _ t) = [t]" | "targets AssertStart = []" | "targets AssertEnd = []"
| "targets AssertStartOrNewline = []" | "targets AssertEndOrNewline = []" | "targets WordBoundaryMoveToPrevious = []"
| "targets AssertWordBoundary = []" | "targets AssertNotWordBoundary = []" | "targets (Backreference _ _) = []"
| "targets ConsumeIfTrue = []" | "targets ConsumeIfFalse = []" | "targets (CompareEquals _) = []"
| "targets (CompareBetween _ _) = []" | "targets (Lookaround _ _ t) = [t]"

definition terminator :: "re_instruction \<Rightarrow> bool" where
  "terminator instr = (case instr of Jump _ \<Rightarrow> True | Branch _ _ \<Rightarrow> True | Accept \<Rightarrow> True | Fail \<Rightarrow> True | _ \<Rightarrow> False)"

text \<open>
  The operands that are no targets: captures of \<open>ng\<close> groups, \<open>np\<close> progress points and \<open>nl\<close>
  loop registers. Backreferences and lookbehinds are left out.
\<close>

definition operands_good :: "nat \<Rightarrow> u32 \<Rightarrow> u32 \<Rightarrow> bool \<Rightarrow> re_instruction \<Rightarrow> bool" where
  "operands_good ng np nl small instr =
     (case instr of
        MarkCapturePoint i \<Rightarrow> unat i < 2 * (ng + 1)
      | ClearCapture g \<Rightarrow> unat (g * 2 + 1) < 2 * (ng + 1)
      | Progress i \<Rightarrow> small \<longrightarrow> i < np
      | Loop r _ _ \<Rightarrow> small \<longrightarrow> r < nl
      | Lookaround is_ahead _ _ \<Rightarrow> is_ahead
      | Backreference _ _ \<Rightarrow> False
      | _ \<Rightarrow> True)"

definition total_words :: "builder \<Rightarrow> nat" where
  "total_words b = length (concat (rb_blocks b))"

definition good :: "nat \<Rightarrow> builder \<Rightarrow> re_instruction \<Rightarrow> bool" where
  "good ng b instr \<longleftrightarrow>
     (\<forall>t \<in> set (targets instr). unat t < length (rb_blocks b)) \<and>
     operands_good ng (rb_num_progress_points b) (rb_num_loop_registers b) (total_words b < 2 ^ 32) instr"

definition block_ok :: "(re_instruction \<Rightarrow> bool) \<Rightarrow> u32 list \<Rightarrow> bool" where
  "block_ok P block \<longleftrightarrow> (\<exists>instrs. block = encode instrs \<and> list_all fits_u24 instrs \<and> list_all P instrs)"

definition closed :: "(re_instruction \<Rightarrow> bool) \<Rightarrow> u32 list \<Rightarrow> bool" where
  "closed P block \<longleftrightarrow>
     (\<exists>instrs instr. block = encode (instrs @ [instr]) \<and> list_all fits_u24 (instrs @ [instr]) \<and>
        list_all P (instrs @ [instr]) \<and> terminator instr)"

definition builder_inv :: "nat \<Rightarrow> nat set \<Rightarrow> builder \<Rightarrow> bool" where
  "builder_inv ng op b \<longleftrightarrow>
     list_all (block_ok (good ng b)) (rb_blocks b) \<and> rb_blocks b \<noteq> [] \<and> op \<subseteq> {..<length (rb_blocks b)} \<and>
     (length (rb_blocks b) - 1 \<notin> op \<longrightarrow> closed (good ng b) (last (rb_blocks b))) \<and>
     (total_words b < 2 ^ 32 \<longrightarrow> unat (rb_num_progress_points b) \<le> total_words b \<and> unat (rb_num_loop_registers b) \<le> total_words b)"

text \<open>A later state of the builder.\<close>

definition extends :: "builder \<Rightarrow> builder \<Rightarrow> bool" where
  "extends b b' \<longleftrightarrow>
     length (rb_blocks b) \<le> length (rb_blocks b') \<and> total_words b \<le> total_words b' \<and>
     (total_words b' < 2 ^ 32 \<longrightarrow> rb_num_progress_points b \<le> rb_num_progress_points b' \<and> rb_num_loop_registers b \<le> rb_num_loop_registers b')"

lemma extends_refl [simp]: "extends b b"
  by (simp add: extends_def)

lemma extends_trans: "extends a b \<Longrightarrow> extends b c \<Longrightarrow> extends a c"
  by (auto simp: extends_def intro: order.trans)

lemma extends_length: "extends b b' \<Longrightarrow> length (rb_blocks b) \<le> length (rb_blocks b')"
  by (simp add: extends_def)

lemma good_extends: "good ng b instr \<Longrightarrow> extends b b' \<Longrightarrow> good ng b' instr"
  by (cases instr) (auto simp: good_def operands_good_def extends_def dest: order.strict_trans2)

lemma block_ok_mono: "block_ok P block \<Longrightarrow> (\<And>i. P i \<Longrightarrow> Q i) \<Longrightarrow> block_ok Q block"
  by (auto simp: block_ok_def list_all_iff)

lemma closed_mono: "closed P block \<Longrightarrow> (\<And>i. P i \<Longrightarrow> Q i) \<Longrightarrow> closed Q block"
  unfolding closed_def list_all_iff by blast

subsection \<open>Packed operands\<close>

text \<open>A packed operand that does not fit is truncated as it is written.\<close>

definition truncated :: "re_instruction \<Rightarrow> re_instruction" where
  "truncated instr =
     (case instr of
        Literal cp \<Rightarrow> Literal (take_bit 24 cp)
      | CompareEquals cp \<Rightarrow> CompareEquals (take_bit 24 cp)
      | CompareBetween start stop \<Rightarrow> CompareBetween (take_bit 24 start) stop
      | _ \<Rightarrow> instr)"

lemma pack_truncated: "opcode_with_u24_operand c (take_bit 24 w) = opcode_with_u24_operand c w"
  unfolding opcode_with_u24_operand_def
  by (rule arg_cong [of _ _ "\<lambda>x. c OR x"], rule bit_word_eqI) (auto simp: bit_simps)

lemma truncated_simps [simp]:
  "re_write (truncated instr) = re_write instr" "fits_u24 (truncated instr)" "good ng b (truncated instr) = good ng b instr"
  "terminator (truncated instr) = terminator instr"
proof -
  have "take_bit 24 w < (2 :: u32) ^ 24" for w :: u32
    by (simp add: word_less_nat_alt unsigned_take_bit_eq take_bit_nat_def)
  then show "fits_u24 (truncated instr)" by (cases instr) (simp_all add: truncated_def fits_u24_def)
qed (cases instr; simp add: truncated_def pack_truncated good_def operands_good_def terminator_def)+

lemma block_ok_append: "block_ok (good ng b) block \<Longrightarrow> good ng b instr \<Longrightarrow> block_ok (good ng b) (block @ re_write instr)"
  unfolding block_ok_def
proof (elim exE conjE)
  fix instrs
  assume "good ng b instr" "block = encode instrs" "list_all fits_u24 instrs" "list_all (good ng b) instrs"
  then show "\<exists>instrs. block @ re_write instr = encode instrs \<and> list_all fits_u24 instrs \<and> list_all (good ng b) instrs"
    by (intro exI [of _ "instrs @ [truncated instr]"]) simp
qed

lemma closed_append:
  "block_ok (good ng b) block \<Longrightarrow> good ng b instr \<Longrightarrow> terminator instr \<Longrightarrow> closed (good ng b) (block @ re_write instr)"
  unfolding block_ok_def closed_def
proof (elim exE conjE)
  fix instrs
  assume "good ng b instr" "terminator instr" "block = encode instrs" "list_all fits_u24 instrs" "list_all (good ng b) instrs"
  then show "\<exists>instrs i. block @ re_write instr = encode (instrs @ [i]) \<and> list_all fits_u24 (instrs @ [i]) \<and>
      list_all (good ng b) (instrs @ [i]) \<and> terminator i"
    by (intro exI [of _ instrs] exI [of _ "truncated instr"]) simp
qed

subsection \<open>Elementary steps\<close>

lemma inv_update [simp]:
  "builder_inv ng op (b\<lparr>rb_current_block_id := c\<rparr>) = builder_inv ng op b"
  "builder_inv ng op (b\<lparr>rb_flags := fs\<rparr>) = builder_inv ng op b"
  "builder_inv ng op (b\<lparr>rb_direction_stack := ds\<rparr>) = builder_inv ng op b"
  "builder_inv ng op (b\<lparr>rb_repitition_depth := d\<rparr>) = builder_inv ng op b"
  by (simp_all add: builder_inv_def good_def [abs_def] total_words_def)

lemma extends_update [simp]:
  "extends b (b'\<lparr>rb_current_block_id := c\<rparr>) = extends b b'" "extends (b\<lparr>rb_current_block_id := c\<rparr>) b' = extends b b'"
  "extends b (b'\<lparr>rb_flags := fs\<rparr>) = extends b b'" "extends (b\<lparr>rb_flags := fs\<rparr>) b' = extends b b'"
  "extends b (b'\<lparr>rb_direction_stack := ds\<rparr>) = extends b b'" "extends (b\<lparr>rb_direction_stack := ds\<rparr>) b' = extends b b'"
  "extends b (b'\<lparr>rb_repitition_depth := d\<rparr>) = extends b b'" "extends (b\<lparr>rb_repitition_depth := d\<rparr>) b' = extends b b'"
  by (simp_all add: extends_def total_words_def)

lemmas context_defs = set_current_block_def enter_direction_context_def exit_direction_context_def
  enter_repitition_context_def exit_repitition_context_def

lemma inv_open: "builder_inv ng op b \<Longrightarrow> op \<subseteq> op' \<Longrightarrow> op' \<subseteq> {..<length (rb_blocks b)} \<Longrightarrow> builder_inv ng op' b"
  by (auto simp: builder_inv_def)

lemma inv_range: "builder_inv ng op b \<Longrightarrow> op \<subseteq> {..<length (rb_blocks b)}"
  by (simp add: builder_inv_def)

text \<open>A block before the last one need not be open.\<close>

lemma inv_drop: "builder_inv ng op b \<Longrightarrow> i + 1 < length (rb_blocks b) \<Longrightarrow> builder_inv ng (op - {i}) b"
  by (auto simp: builder_inv_def)

lemma inv_extends:
  assumes "builder_inv ng op b" "extends b b'"
  shows "list_all (block_ok (good ng b')) (rb_blocks b)"
    "length (rb_blocks b) - 1 \<notin> op \<Longrightarrow> closed (good ng b') (last (rb_blocks b))"
  using assms good_extends [OF _ assms(2)] block_ok_mono closed_mono
  by (auto simp: builder_inv_def list_all_iff)

lemma new_block_inv:
  assumes "builder_inv ng op b" "new_block b = (i, b')"
  shows "builder_inv ng (insert i op) b'" "extends b b'" "rb_current_block_id b' = rb_current_block_id b"
    "length (rb_blocks b') = Suc (length (rb_blocks b))" "i = length (rb_blocks b)"
proof -
  have b': "b' = b\<lparr>rb_blocks := rb_blocks b @ [[]]\<rparr>" and i: "i = length (rb_blocks b)" using assms(2) by (auto simp: new_block_def)
  show ext: "extends b b'" by (simp add: b' extends_def total_words_def)
  have "block_ok (good ng b') []" unfolding block_ok_def by (intro exI [of _ "[]"]) simp
  then show "builder_inv ng (insert i op) b'"
    using assms(1) inv_extends(1) [OF assms(1) ext] by (auto simp: builder_inv_def b' i total_words_def)
  show "rb_current_block_id b' = rb_current_block_id b" "length (rb_blocks b') = Suc (length (rb_blocks b))" "i = length (rb_blocks b)"
    by (simp_all add: b' i)
qed

lemma new_blocks_inv:
  assumes "builder_inv ng op b" "new_blocks n b = (ids, b')"
  shows "builder_inv ng (op \<union> set ids) b' \<and> extends b b' \<and> rb_current_block_id b' = rb_current_block_id b \<and>
    ids = [length (rb_blocks b)..<length (rb_blocks b')] \<and> length (rb_blocks b') = length (rb_blocks b) + n"
  using assms
proof (induction n arbitrary: op b ids)
  case (Suc n)
  obtain i b1 ids1 where b1: "new_block b = (i, b1)" "new_blocks n b1 = (ids1, b')" "ids = i # ids1"
    using Suc.prems(2) by (auto split: prod.splits)
  note new = new_block_inv [OF Suc.prems(1) b1(1)]
  then show ?case using Suc.IH [OF new(1) b1(2)] b1(3) extends_trans [OF new(2)] by (auto simp: upt_conv_Cons simp del: upt_Suc)
qed simp

lemma total_emit:
  "i < length bs \<Longrightarrow> length (concat (bs[i := bs ! i @ ws])) = length (concat bs) + length ws"
  by (induction bs arbitrary: i) (auto simp: nth_Cons split: nat.splits)

text \<open>Emitting, after the counters were possibly raised by one.\<close>

lemma emit_extends:
  assumes inv: "builder_inv ng op b" and emit: "emit instr (b\<lparr>rb_current_block_id := c,
      rb_num_progress_points := rb_num_progress_points b + of_bool p, rb_num_loop_registers := rb_num_loop_registers b + of_bool l\<rparr>) = Some b'"
  shows "extends b b'" "total_words b' < 2 ^ 32 \<Longrightarrow> p \<Longrightarrow> rb_num_progress_points b < rb_num_progress_points b'"
    "total_words b' < 2 ^ 32 \<Longrightarrow> l \<Longrightarrow> rb_num_loop_registers b < rb_num_loop_registers b'"
    "total_words b' < 2 ^ 32 \<Longrightarrow> unat (rb_num_progress_points b') \<le> total_words b' \<and> unat (rb_num_loop_registers b') \<le> total_words b'"
proof -
  have c: "c < length (rb_blocks b)" and b': "b' = b\<lparr>rb_current_block_id := c,
      rb_num_progress_points := rb_num_progress_points b + of_bool p, rb_num_loop_registers := rb_num_loop_registers b + of_bool l,
      rb_blocks := (rb_blocks b)[c := rb_blocks b ! c @ re_write instr]\<rparr>"
    using emit by (auto simp: emit_def split: if_splits)
  have tot: "total_words b' = total_words b + re_size instr" using c by (simp add: b' total_words_def total_emit re_write_nonempty(2))
  have len: "length (rb_blocks b') = length (rb_blocks b)" by (simp add: b')
  have pos: "0 < re_size instr" by (rule re_opcode_size_Some(2))
  have raise: "unat (w + of_bool q) = unat w + of_bool q" if "unat w \<le> total_words b" "total_words b' < 2 ^ 32" for w :: u32 and q
    using that tot pos by (auto simp: unat_word_ariths)
  have bounds: "unat (rb_num_progress_points b) \<le> total_words b" "unat (rb_num_loop_registers b) \<le> total_words b" if "total_words b' < 2 ^ 32"
    using inv that tot by (auto simp: builder_inv_def)
  have counters: "unat (rb_num_progress_points b') = unat (rb_num_progress_points b) + of_bool p"
      "unat (rb_num_loop_registers b') = unat (rb_num_loop_registers b) + of_bool l" if "total_words b' < 2 ^ 32"
    using raise [OF bounds(1) [OF that] that] raise [OF bounds(2) [OF that] that] by (simp_all add: b')
  show "extends b b'" using counters tot len by (auto simp: extends_def word_le_nat_alt)
  show "total_words b' < 2 ^ 32 \<Longrightarrow> p \<Longrightarrow> rb_num_progress_points b < rb_num_progress_points b'"
    "total_words b' < 2 ^ 32 \<Longrightarrow> l \<Longrightarrow> rb_num_loop_registers b < rb_num_loop_registers b'"
    using counters by (auto simp: word_less_nat_alt)
  show "total_words b' < 2 ^ 32 \<Longrightarrow> unat (rb_num_progress_points b') \<le> total_words b' \<and> unat (rb_num_loop_registers b') \<le> total_words b'"
    using counters bounds tot pos by (auto simp: of_bool_def)
qed

lemma emit_raised_inv:
  assumes inv: "builder_inv ng op b" and emit: "emit instr (b\<lparr>rb_current_block_id := c,
      rb_num_progress_points := rb_num_progress_points b + of_bool p, rb_num_loop_registers := rb_num_loop_registers b + of_bool l\<rparr>) = Some b'"
    and good: "good ng b' instr" and c: "c \<in> op \<or> c + 1 < length (rb_blocks b) \<or> terminator instr"
  shows "builder_inv ng (if terminator instr then op - {c} else op) b'"
proof -
  note ext = emit_extends [OF inv emit]
  have b': "rb_blocks b' = (rb_blocks b)[c := rb_blocks b ! c @ re_write instr]" and c': "c < length (rb_blocks b)"
    using emit by (auto simp: emit_def split: if_splits)
  have old: "block_ok (good ng b') (rb_blocks b ! c)" using inv_extends(1) [OF inv ext(1)] c' by (simp add: list_all_length)
  then have new: "block_ok (good ng b') (rb_blocks b ! c @ re_write instr)" using good by (rule block_ok_append)
  have blocks: "list_all (block_ok (good ng b')) (rb_blocks b')"
    using inv_extends(1) [OF inv ext(1)] new c' unfolding b' list_all_length by (auto simp: nth_list_update)
  have last: "closed (good ng b') (last (rb_blocks b'))"
    if "length (rb_blocks b) - 1 \<notin> (if terminator instr then op - {c} else op)"
  proof (cases "c = length (rb_blocks b) - 1")
    case True
    then have "terminator instr" using c c' that by (auto split: if_splits)
    moreover have "last (rb_blocks b') = rb_blocks b ! c @ re_write instr" using True c' by (subst last_conv_nth) (auto simp: b')
    ultimately show ?thesis using closed_append [OF old good] by simp
  next
    case False
    then have "length (rb_blocks b) - 1 \<notin> op" using that by (auto split: if_splits)
    moreover have "last (rb_blocks b') = last (rb_blocks b)"
      using False c' by (subst (1 2) last_conv_nth) (auto simp: b')
    ultimately show ?thesis using inv_extends(2) [OF inv ext(1)] by simp
  qed
  show ?thesis using inv blocks last ext(4) b' unfolding builder_inv_def by (auto simp: b')
qed

lemma emit_inv:
  assumes "builder_inv ng op b" "emit instr b = Some b'" "good ng b instr"
    "rb_current_block_id b \<in> op \<or> rb_current_block_id b + 1 < length (rb_blocks b) \<or> terminator instr"
  shows "builder_inv ng (if terminator instr then op - {rb_current_block_id b} else op) b'" "extends b b'"
    "rb_current_block_id b' = rb_current_block_id b"
proof -
  have emit: "emit instr (b\<lparr>rb_current_block_id := rb_current_block_id b, rb_num_progress_points := rb_num_progress_points b + of_bool False,
      rb_num_loop_registers := rb_num_loop_registers b + of_bool False\<rparr>) = Some b'" using assms(2) by simp
  show ext: "extends b b'" by (rule emit_extends(1) [OF assms(1) emit])
  show "builder_inv ng (if terminator instr then op - {rb_current_block_id b} else op) b'"
    by (rule emit_raised_inv [OF assms(1) emit good_extends [OF assms(3) ext] assms(4)])
  show "rb_current_block_id b' = rb_current_block_id b" using assms(2) by (auto simp: emit_def split: if_splits)
qed

subsection \<open>Contracts\<close>

text \<open>Code that stays in the current block; and code that may end in another one, or a new one.\<close>

definition writes :: "nat \<Rightarrow> (builder \<Rightarrow> builder option) \<Rightarrow> bool" where
  "writes ng f \<longleftrightarrow>
     (\<forall>op b b'. builder_inv ng op b \<and> rb_current_block_id b \<in> op \<and> f b = Some b' \<longrightarrow>
        builder_inv ng op b' \<and> rb_current_block_id b' = rb_current_block_id b \<and> extends b b')"

definition moved :: "nat \<Rightarrow> nat set \<Rightarrow> builder \<Rightarrow> builder \<Rightarrow> bool" where
  "moved ng op b b' \<longleftrightarrow>
     builder_inv ng (insert (rb_current_block_id b') (op - {rb_current_block_id b})) b' \<and> extends b b' \<and>
     (rb_current_block_id b' = rb_current_block_id b \<or> length (rb_blocks b) \<le> rb_current_block_id b')"

definition moves :: "nat \<Rightarrow> (builder \<Rightarrow> builder option) \<Rightarrow> bool" where
  "moves ng f \<longleftrightarrow>
     (\<forall>op b b'. builder_inv ng op b \<and> rb_current_block_id b \<in> op \<and> f b = Some b' \<longrightarrow> moved ng op b b')"

definition captures_ok :: "nat \<Rightarrow> u32 list \<Rightarrow> bool" where
  "captures_ok ng = list_all (\<lambda>g. unat (g * 2 + 1) < 2 * (ng + 1))"

definition emits :: "nat \<Rightarrow> emitter \<Rightarrow> bool" where
  "emits ng E \<longleftrightarrow>
     (\<forall>op b info b'. builder_inv ng op b \<and> rb_current_block_id b \<in> op \<and> E b = Some (info, b') \<longrightarrow>
        moved ng op b b' \<and> captures_ok ng (captures info))"

lemma writesD:
  assumes "writes ng f" "builder_inv ng op b" "rb_current_block_id b \<in> op" "f b = Some b'"
  shows "builder_inv ng op b'" "rb_current_block_id b' = rb_current_block_id b" "extends b b'"
  using assms unfolding writes_def by blast+

lemma movedD:
  assumes "moved ng op b b'"
  shows "builder_inv ng (insert (rb_current_block_id b') (op - {rb_current_block_id b})) b'" "extends b b'"
    "rb_current_block_id b' = rb_current_block_id b \<or> length (rb_blocks b) \<le> rb_current_block_id b'"
  using assms unfolding moved_def by blast+

lemma movesD: "moves ng f \<Longrightarrow> builder_inv ng op b \<Longrightarrow> rb_current_block_id b \<in> op \<Longrightarrow> f b = Some b' \<Longrightarrow> moved ng op b b'"
  unfolding moves_def by blast

lemma emitsD:
  "emits ng E \<Longrightarrow> builder_inv ng op b \<Longrightarrow> rb_current_block_id b \<in> op \<Longrightarrow> E b = Some (info, b') \<Longrightarrow>
     moved ng op b b' \<and> captures_ok ng (captures info)"
  unfolding emits_def by blast

lemma moved_trans: "moved ng op b b1 \<Longrightarrow> moved ng (insert (rb_current_block_id b1) (op - {rb_current_block_id b})) b1 b2 \<Longrightarrow>
    op \<subseteq> {..<length (rb_blocks b)} \<Longrightarrow> moved ng op b b2"
  unfolding moved_def
proof (elim conjE, intro conjI)
  let ?c = rb_current_block_id
  assume range: "op \<subseteq> {..<length (rb_blocks b)}" and 1: "?c b1 = ?c b \<or> length (rb_blocks b) \<le> ?c b1"
    and 2: "?c b2 = ?c b1 \<or> length (rb_blocks b1) \<le> ?c b2" and ext: "extends b b1" "extends b1 b2"
    and inv: "builder_inv ng (insert (?c b2) (insert (?c b1) (op - {?c b}) - {?c b1})) b2"
  show "extends b b2" using ext by (rule extends_trans)
  show "?c b2 = ?c b \<or> length (rb_blocks b) \<le> ?c b2" using 1 2 extends_length [OF ext(1)] by auto
  have "op - {?c b} \<subseteq> {..<length (rb_blocks b2)}" using range extends_length [OF ext(1)] extends_length [OF ext(2)] by auto
  then show "builder_inv ng (insert (?c b2) (op - {?c b})) b2"
    by (intro inv_open [OF inv]) (use inv_range [OF inv] in auto)
qed

lemma writes_moves: "writes ng f \<Longrightarrow> moves ng f"
  unfolding moves_def moved_def
proof (intro allI impI, elim conjE)
  fix op b b'
  assume "writes ng f" "builder_inv ng op b" "rb_current_block_id b \<in> op" "f b = Some b'"
  note w = writesD [OF this]
  then show "builder_inv ng (insert (rb_current_block_id b') (op - {rb_current_block_id b})) b' \<and> extends b b' \<and>
      (rb_current_block_id b' = rb_current_block_id b \<or> length (rb_blocks b) \<le> rb_current_block_id b')"
    using \<open>rb_current_block_id b \<in> op\<close> by (simp add: insert_absorb)
qed

lemma writes_emit: "(\<And>b. good ng b instr) \<Longrightarrow> writes ng (emit instr)"
  unfolding writes_def
proof (intro allI impI, elim conjE)
  fix op b b'
  assume good: "\<And>b. good ng b instr" and *: "builder_inv ng op b" "rb_current_block_id b \<in> op" "emit instr b = Some b'"
  note inv = emit_inv [OF *(1,3) good] 
  have "builder_inv ng op b'"
    using inv(1) *(2) inv_range [OF *(1)] extends_length [OF inv(2)]
    by (intro inv_open [OF inv(1)]) (auto simp: subset_iff intro: order.strict_trans2)
  then show "builder_inv ng op b' \<and> rb_current_block_id b' = rb_current_block_id b \<and> extends b b'" using inv *(2) by simp
qed

lemma writesI:
  assumes "\<And>op b b'. builder_inv ng op b \<Longrightarrow> rb_current_block_id b \<in> op \<Longrightarrow> f b = Some b' \<Longrightarrow>
      builder_inv ng op b' \<and> rb_current_block_id b' = rb_current_block_id b \<and> extends b b'"
  shows "writes ng f"
  unfolding writes_def using assms by blast

lemma writes_bind:
  assumes "writes ng f" "writes ng g"
  shows "writes ng (\<lambda>b. f b \<bind> g)"
proof (rule writesI)
  fix op b b'
  assume b: "builder_inv ng op b" "rb_current_block_id b \<in> op" "f b \<bind> g = Some b'"
  then obtain b1 where b1: "f b = Some b1" "g b1 = Some b'" by (auto simp: bind_eq_Some_iff)
  note f = writesD [OF assms(1) b(1,2) b1(1)]
  have "rb_current_block_id b1 \<in> op" using f(2) b(2) by simp
  note g = writesD [OF assms(2) f(1) this b1(2)]
  show "builder_inv ng op b' \<and> rb_current_block_id b' = rb_current_block_id b \<and> extends b b'"
    using f g extends_trans [OF f(3) g(3)] by simp
qed

lemma writes_context: "(\<And>v. writes ng (f v)) \<Longrightarrow> writes ng (\<lambda>b. h b \<bind> (\<lambda>v. f v b))"
  unfolding writes_def bind_eq_Some_iff by blast

lemma writes_if: "(P \<Longrightarrow> writes ng f) \<Longrightarrow> (\<not> P \<Longrightarrow> writes ng g) \<Longrightarrow> writes ng (\<lambda>b. if P then f b else g b)"
  by (cases P) simp_all

lemma writes_None [simp]: "writes ng (\<lambda>b. None)"
  by (rule writesI) simp

lemma writes_Some [simp]: "writes ng Some"
  by (rule writesI) auto

lemma writes_list: "(\<And>x xs. writes ng (f x xs)) \<Longrightarrow> writes ng (\<lambda>b. case ys of [] \<Rightarrow> None | x # xs \<Rightarrow> f x xs b)"
  by (cases ys) (simp_all only: list.case writes_None)

lemma writes_for_each: "(\<And>x. x \<in> set xs \<Longrightarrow> writes ng (f x)) \<Longrightarrow> writes ng (for_each f xs)"
proof (induction xs)
  case Nil
  have "for_each f [] = Some" by (simp add: fun_eq_iff)
  then show ?case by simp
next
  case (Cons x xs)
  have "for_each f (x # xs) = (\<lambda>b. f x b \<bind> for_each f xs)" by (simp add: fun_eq_iff)
  then show ?case using Cons by (auto intro: writes_bind)
qed

lemma good_simple [simp]:
  "good ng b (Literal cp)" "good ng b Wildcard" "good ng b WildcardNoNewline" "good ng b Accept" "good ng b Fail"
  "good ng b AssertStart" "good ng b AssertEnd" "good ng b AssertStartOrNewline" "good ng b AssertEndOrNewline"
  "good ng b WordBoundaryMoveToPrevious" "good ng b AssertWordBoundary" "good ng b AssertNotWordBoundary"
  "good ng b ConsumeIfTrue" "good ng b ConsumeIfFalse" "good ng b (CompareEquals cp)" "good ng b (CompareBetween start stop)"
  "unat (g * 2 + 1) < 2 * (ng + 1) \<Longrightarrow> good ng b (ClearCapture g)" "unat i < 2 * (ng + 1) \<Longrightarrow> good ng b (MarkCapturePoint i)"
  by (simp_all add: good_def operands_good_def)

lemma terminator_simps [simp]:
  "terminator (Jump t)" "terminator (Branch s t)" "terminator Accept" "terminator Fail" "\<not> terminator (Loop r m t)"
  "\<not> terminator (Lookaround a p t)" "\<not> terminator (Progress i)" "\<not> terminator (ClearCapture g)" "\<not> terminator (MarkCapturePoint i)"
  by (simp_all add: terminator_def)

lemma writes_clear_captures: "captures_ok ng caps \<Longrightarrow> writes ng (emit_clear_captures caps)"
  unfolding emit_clear_captures_def captures_ok_def list_all_iff by (intro writes_for_each writes_emit) simp

lemma writes_set_comparisons: "writes ng (emit_set_comparisons icu cs)"
  unfolding emit_set_comparisons_def by (intro writes_for_each) (auto intro: writes_emit split: prod.splits)

lemma writes_code_point_set: "writes ng (emit_code_point_set icu cs inverted)"
  unfolding emit_code_point_set_def [abs_def]
  by (intro writes_if writes_bind writes_set_comparisons writes_list writes_emit) simp_all

lemma writes_code_point_literal: "writes ng (emit_code_point_literal icu cp)"
  unfolding emit_code_point_literal_def [abs_def]
  by (intro writes_context writes_if writes_code_point_set writes_emit writes_None) simp

lemma writes_literal: "writes ng (emit_literal icu string)"
  unfolding emit_literal_def [abs_def]
  by (intro writes_context writes_for_each writes_code_point_literal)

lemma writes_wildcard: "writes ng emit_wildcard"
  unfolding emit_wildcard_def [abs_def] by (intro writes_context writes_emit) simp

lemma writes_word_boundary: "(\<And>b. good ng b check) \<Longrightarrow> writes ng (emit_word_boundary_check icu check)"
  unfolding emit_word_boundary_check_def [abs_def] emit_word_comparison_def [abs_def]
  by (intro writes_bind writes_context writes_set_comparisons writes_emit) simp_all

lemma writes_assertion: "writes ng (emit_assertion icu assertion)"
  unfolding emit_assertion_def [abs_def]
  by (intro writes_context) (cases assertion; auto intro!: writes_emit writes_word_boundary)

text \<open>Ending a block.\<close>

lemma target_good: "t < n \<Longrightarrow> unat (of_nat t :: u32) < n"
  by (metis le_less_trans unat_of_nat mod_less_eq_dividend)

lemma emit_jump_inv:
  assumes "builder_inv ng op b" "emit_jump t b = Some b'" "t < length (rb_blocks b)"
  shows "builder_inv ng (op - {rb_current_block_id b}) b'" "extends b b'" "rb_current_block_id b' = rb_current_block_id b"
  using emit_inv [OF assms(1) assms(2) [unfolded emit_jump_def]] target_good [OF assms(3)]
  by (simp_all add: good_def operands_good_def)

lemma emit_branch_inv:
  assumes "builder_inv ng op b" "emit_branch s t b = Some b'" "s < length (rb_blocks b)" "t < length (rb_blocks b)"
  shows "builder_inv ng (op - {rb_current_block_id b}) b'" "extends b b'" "rb_current_block_id b' = rb_current_block_id b"
  using emit_inv [OF assms(1) assms(2) [unfolded emit_branch_def]] target_good [OF assms(3)] target_good [OF assms(4)]
  by (simp_all add: good_def operands_good_def)

end
