(* ===== verification/Regexp_Emission.thy ===== *)
theory Regexp_Emission
  imports Regexp_Blocks
begin

section \<open>Emitted blocks\<close>

text \<open>
  The functions of the compiler keep the invariant of the builder, and leave the current block the
  only one of theirs that is open.
\<close>

text \<open>Code that ends block \<open>i\<close>, in a builder with at least \<open>N\<close> blocks.\<close>

definition closes :: "nat \<Rightarrow> nat \<Rightarrow> nat \<Rightarrow> (builder \<Rightarrow> builder option) \<Rightarrow> bool" where
  "closes ng N i f \<longleftrightarrow>
     (\<forall>op b b'. builder_inv ng op b \<and> N \<le> length (rb_blocks b) \<and> f b = Some b' \<longrightarrow>
        builder_inv ng (op - {i}) b' \<and> extends b b')"

lemma closesI:
  assumes "\<And>op b b'. builder_inv ng op b \<Longrightarrow> N \<le> length (rb_blocks b) \<Longrightarrow> f b = Some b' \<Longrightarrow>
      builder_inv ng (op - {i}) b' \<and> extends b b'"
  shows "closes ng N i f"
  unfolding closes_def using assms by blast

lemma closesD:
  assumes "closes ng N i f" "builder_inv ng op b" "N \<le> length (rb_blocks b)" "f b = Some b'"
  shows "builder_inv ng (op - {i}) b'" "extends b b'"
  using assms unfolding closes_def by blast+

lemma closes_jump:
  assumes "t < N"
  shows "closes ng N i (\<lambda>b. emit_jump t (set_current_block i b))"
proof (rule closesI)
  fix op b b'
  assume "builder_inv ng op b" "N \<le> length (rb_blocks b)" "emit_jump t (set_current_block i b) = Some b'"
  then show "builder_inv ng (op - {i}) b' \<and> extends b b'"
    using emit_jump_inv [of ng op "set_current_block i b" t b'] assms by (simp add: set_current_block_def)
qed

lemma closes_branch:
  assumes "s < N" "t < N"
  shows "closes ng N i (\<lambda>b. emit_branch s t (set_current_block i b))"
proof (rule closesI)
  fix op b b'
  assume "builder_inv ng op b" "N \<le> length (rb_blocks b)" "emit_branch s t (set_current_block i b) = Some b'"
  then show "builder_inv ng (op - {i}) b' \<and> extends b b'"
    using emit_branch_inv [of ng op "set_current_block i b" s t b'] assms by (simp add: set_current_block_def)
qed

lemma inv_insert: "builder_inv ng op b \<Longrightarrow> i < length (rb_blocks b) \<Longrightarrow> builder_inv ng (insert i op) b"
  using inv_range by (intro inv_open [of ng op b "insert i op"]) auto

text \<open>Writing to any block and then leaving it.\<close>

lemma writes_at:
  assumes "writes ng w" "builder_inv ng op b" "i < length (rb_blocks b)" "w (set_current_block i b) = Some b'"
  shows "builder_inv ng (insert i op) b'" "rb_current_block_id b' = i" "extends b b'"
  using writesD [OF assms(1) _ _ assms(4), of "insert i op"] inv_insert [OF assms(2,3)] by (simp_all add: set_current_block_def)

lemma closes_write_jump:
  assumes "writes ng w" "i < N" "t < N"
  shows "closes ng N i (\<lambda>b. w (set_current_block i b) \<bind> emit_jump t)"
proof (rule closesI)
  fix op b b'
  assume b: "builder_inv ng op b" "N \<le> length (rb_blocks b)" "w (set_current_block i b) \<bind> emit_jump t = Some b'"
  then obtain b1 where b1: "w (set_current_block i b) = Some b1" "emit_jump t b1 = Some b'" by (auto simp: bind_eq_Some_iff)
  have "i < length (rb_blocks b)" using assms(2) b(2) by simp
  note w = writes_at [OF assms(1) b(1) this b1(1)]
  have "t < length (rb_blocks b1)" using assms(3) b(2) extends_length [OF w(3)] by simp
  note j = emit_jump_inv [OF w(1) b1(2) this]
  have "builder_inv ng (op - {i}) b'" using j(1) w(2) by simp
  then show "builder_inv ng (op - {i}) b' \<and> extends b b'" using extends_trans [OF w(3) j(2)] by simp
qed

lemma for_each_closes:
  assumes "\<And>x. x \<in> set xs \<Longrightarrow> closes ng N (g x) (f x)" "builder_inv ng op b" "N \<le> length (rb_blocks b)" "for_each f xs b = Some b'"
  shows "builder_inv ng (op - g ` set xs) b' \<and> extends b b'"
  using assms
proof (induction xs arbitrary: op b)
  case (Cons x xs)
  obtain b1 where b1: "f x b = Some b1" "for_each f xs b1 = Some b'" using Cons.prems(4) by (auto simp: bind_eq_Some_iff)
  note c = closesD [OF Cons.prems(1) [OF list.set_intros(1)] Cons.prems(2,3) b1(1)]
  have "builder_inv ng ((op - {g x}) - g ` set xs) b' \<and> extends b1 b'"
    using c Cons.prems(1,3) b1(2) extends_length [OF c(2)] by (intro Cons.IH) simp_all
  moreover have "(op - {g x}) - g ` set xs = op - g ` set (x # xs)" by auto
  ultimately show ?case using extends_trans [OF c(2)] by simp
qed simp

subsection \<open>Character classes\<close>

lemma length_sort_strings: "length (sort_strings strings) = length strings"
proof -
  have "length (insert_string s ts) = Suc (length ts)" for s ts by (induction ts) simp_all
  then show ?thesis unfolding sort_strings_def by (induction strings) simp_all
qed

lemma nth_image_butlast:
  assumes "xs \<noteq> []"
  shows "(\<lambda>i. xs ! i) ` {0..<length xs - 1} \<union> {xs ! (length xs - 1)} = set xs"
proof -
  have "set xs = set (butlast xs @ [last xs])" using assms by simp
  also have "\<dots> = set (take (length xs - 1) xs) \<union> {xs ! (length xs - 1)}"
    using assms by (simp add: butlast_conv_take last_conv_nth)
  finally show ?thesis using nth_image [of "length xs - 1" xs] by simp
qed

lemma moved_to:
  assumes "builder_inv ng X b'" "X \<subseteq> insert j (op - {c})" "j < length (rb_blocks b')" "length (rb_blocks b) \<le> j"
    "op \<subseteq> {..<length (rb_blocks b)}" "extends b b'" "c = rb_current_block_id b"
  shows "moved ng op b (set_current_block j b')"
proof -
  have "op \<subseteq> {..<length (rb_blocks b')}"
    using assms(5) lessThan_subset_iff [THEN iffD2, OF extends_length [OF assms(6)]] by (rule subset_trans)
  then have range: "insert j (op - {c}) \<subseteq> {..<length (rb_blocks b')}" using assms(3) by blast
  have inv: "builder_inv ng (insert j (op - {c})) b'" by (rule inv_open [OF assms(1,2) range])
  show ?thesis
    unfolding moved_def set_current_block_def inv_update extends_update
  proof (intro conjI)
    show "extends b b'" by (rule assms(6))
  qed (use inv assms(4,7) in simp_all)
qed

lemma string_disjunction_moved:
  assumes inv: "builder_inv ng op b" and c: "rb_current_block_id b \<in> op" and strings: "strings \<noteq> []" and s: "s < length (rb_blocks b)"
    and emit: "emit_class_string_disjunction icu strings s b = Some b'"
  shows "moved ng op b b'"
proof -
  define ss where "ss = sort_strings strings"
  have n: "0 < length ss" using strings by (simp add: ss_def length_sort_strings)
  let ?c = "rb_current_block_id b"
  obtain ids b1 where b1: "new_blocks (length ss - 1) b = (ids, b1)" by fastforce
  obtain alts b2 where b2: "new_blocks (length ss) b1 = (alts, b2)" by fastforce
  obtain j b3 where b3: "new_block b2 = (j, b3)" by fastforce
  obtain b4 b5 b6 where b4: "for_each
        (\<lambda>i b. emit_branch (alts ! i) ((?c # ids) ! (i + 1)) (set_current_block ((?c # ids) ! i) b)) [0..<length ss - 1] b3 = Some b4"
    and b5: "emit_branch (alts ! (length ss - 1)) j (set_current_block ((?c # ids) ! (length (?c # ids) - 1)) b4) = Some b5"
    and b6: "for_each (\<lambda>(block_id, string) b. emit_literal icu string (set_current_block block_id b) \<bind> emit_jump s) (zip alts ss) b5 = Some b6"
    and b': "b' = set_current_block j b6"
    using emit unfolding emit_class_string_disjunction_def Let_def ss_def [symmetric] b1 prod.case b2 b3
    by (auto simp: bind_eq_Some_iff case_prod_unfold)
  note i1 = new_blocks_inv [OF inv b1, THEN conjunct1] and i1' = new_blocks_inv [OF inv b1, THEN conjunct2]
  note i2 = new_blocks_inv [OF i1 b2, THEN conjunct1] and i2' = new_blocks_inv [OF i1 b2, THEN conjunct2]
  note i3 = new_block_inv [OF i2 b3]
  let ?N = "length (rb_blocks b3)"
  have lens: "length ids = length ss - 1" "length alts = length ss" using i1' i2' by auto
  have ids: "x < ?N" if "x \<in> set (?c # ids)" for x using that i1' i2' i3 inv_range [OF inv] c by (auto simp: subset_iff)
  have alts: "x < ?N" if "x \<in> set alts" for x using that i1' i2' i3 by auto
  have j: "j < ?N" "length (rb_blocks b) \<le> j" "s < ?N" using i1' i2' i3 s by auto
  have ext3: "extends b b3" using i1' i2' i3(2) extends_trans by blast
  have i4: "builder_inv ng (insert j (op \<union> set ids \<union> set alts) - (\<lambda>i. (?c # ids) ! i) ` set [0..<length ss - 1]) b4 \<and> extends b3 b4"
  proof (rule for_each_closes [OF closes_branch i3(1) order_refl b4])
    fix i
    assume "i \<in> set [0..<length ss - 1]"
    then have i: "i < length alts" "i + 1 < length (?c # ids)" using lens by auto
    show "alts ! i < ?N" using i(1) by (intro alts nth_mem)
    show "(?c # ids) ! (i + 1) < ?N" using i(2) by (intro ids nth_mem)
  qed
  have i5: "builder_inv ng ((insert j (op \<union> set ids \<union> set alts) - (\<lambda>i. (?c # ids) ! i) ` set [0..<length ss - 1]) -
      {(?c # ids) ! (length (?c # ids) - 1)}) b5" "extends b4 b5"
    using closesD [OF closes_branch [of "alts ! (length ss - 1)" ?N j] i4 [THEN conjunct1] _ b5] n lens j alts extends_length [OF i4 [THEN conjunct2]]
    by (auto intro: nth_mem)
  have i6: "builder_inv ng ((insert j (op \<union> set ids \<union> set alts) - (\<lambda>i. (?c # ids) ! i) ` set [0..<length ss - 1]) -
      {(?c # ids) ! (length (?c # ids) - 1)} - fst ` set (zip alts ss)) b6 \<and> extends b5 b6"
  proof (rule for_each_closes [OF _ i5(1) _ b6])
    fix x
    assume "x \<in> set (zip alts ss)"
    then have "fst x \<in> set alts" by (metis prod.collapse set_zip_leftD)
    then have "fst x < ?N" by (rule alts)
    then show "closes ng ?N (fst x) (case x of (block_id, string) \<Rightarrow> \<lambda>b. emit_literal icu string (set_current_block block_id b) \<bind> emit_jump s)"
      using closes_write_jump [OF writes_literal, of "fst x" ?N s] j(3) by (simp add: case_prod_unfold)
  next
    show "?N \<le> length (rb_blocks b5)" using extends_length [OF i4 [THEN conjunct2]] extends_length [OF i5(2)] by simp
  qed
  have sets: "fst ` set (zip alts ss) = set alts" using lens by (metis map_fst_zip set_map)
  have "(\<lambda>i. (?c # ids) ! i) ` set [0..<length ss - 1] \<union> {(?c # ids) ! (length (?c # ids) - 1)} = set (?c # ids)"
    using nth_image_butlast [of "?c # ids"] lens n by (simp only: set_upt) simp
  then have sub: "((insert j (op \<union> set ids \<union> set alts) - (\<lambda>i. (?c # ids) ! i) ` set [0..<length ss - 1]) -
      {(?c # ids) ! (length (?c # ids) - 1)} - fst ` set (zip alts ss)) \<subseteq> insert j (op - {?c})"
    unfolding sets by auto
  have ext6: "extends b3 b6" using i4 i5(2) i6 extends_trans by blast
  then show ?thesis
    unfolding b' using moved_to [OF i6 [THEN conjunct1] sub _ j(2) inv_range [OF inv]] j(1) extends_length [OF ext6] extends_trans [OF ext3 ext6]
    by auto
qed

text \<open>Ending the current block with a jump to a new block, and going on there.\<close>

lemma jump_to_new:
  assumes "builder_inv ng op b" "builder_inv ng X b2" "X - {rb_current_block_id b2} \<subseteq> insert j (op - {rb_current_block_id b})"
    "emit_jump j b2 = Some b3" "j < length (rb_blocks b2)" "length (rb_blocks b) \<le> j" "extends b b2"
  shows "moved ng op b (set_current_block j b3)"
proof -
  note jump = emit_jump_inv [OF assms(2,4,5)]
  show ?thesis
    using moved_to [OF jump(1) assms(3) _ assms(6) inv_range [OF assms(1)] extends_trans [OF assms(7) jump(2)] refl]
      assms(5) extends_length [OF jump(2)] by simp
qed

lemma moves_character_class: "moves ng (emit_character_class icu cc)"
  unfolding moves_def
proof (intro allI impI, elim conjE)
  fix op b b'
  assume inv: "builder_inv ng op b" and c: "rb_current_block_id b \<in> op" and emit: "emit_character_class icu cc b = Some b'"
  obtain fl cs strings where fl: "current_flags b = Some fl" "character_class_to_set icu fl cc = Some (cs, strings)"
    using emit by (auto simp: emit_character_class_def bind_eq_Some_iff)
  let ?cs = "if is_case_insensitive fl then case_close_over icu fl cs else cs"
  let ?inverted = "(case cc of CharacterClass _ is_inverted _ \<Rightarrow> is_inverted) \<and> \<not> has_unicode_sets_flag fl"
  show "moved ng op b b'"
  proof (cases "strings = []")
    case True
    then have "emit_code_point_set icu ?cs ?inverted b = Some b'" using emit fl by (simp add: emit_character_class_def Let_def)
    then show ?thesis by (rule movesD [OF writes_moves [OF writes_code_point_set] inv c])
  next
    case False
    obtain j b1 where b1: "new_block b = (j, b1)" by fastforce
    obtain b2 b3 b4 where b2: "emit_class_string_disjunction icu strings j b1 = Some b2"
        and b3: "emit_code_point_set icu ?cs ?inverted b2 = Some b3" and b4: "emit_jump j b3 = Some b4"
        and b': "b' = set_current_block j b4"
      using emit fl False b1 by (auto simp: emit_character_class_def Let_def bind_eq_Some_iff)
    note new = new_block_inv [OF inv b1]
    have m: "moved ng (insert j op) b1 b2"
      using new c False b2 by (intro string_disjunction_moved) simp_all
    note w = writesD [OF writes_code_point_set movedD(1) [OF m] insertI1 b3]
    have "j < length (rb_blocks b3)" using new(4,5) extends_length [OF movedD(2) [OF m]] extends_length [OF w(3)] by simp
    moreover have "extends b b3" using extends_trans [OF new(2) extends_trans [OF movedD(2) [OF m] w(3)]] .
    ultimately show ?thesis
      unfolding b' using w(2) new(3,5) by (intro jump_to_new [OF inv w(1) _ b4]) auto
  qed
qed

subsection \<open>Disjunctions\<close>

definition keeps :: "nat \<Rightarrow> nat set \<Rightarrow> (builder \<Rightarrow> builder option) \<Rightarrow> bool" where
  "keeps ng op f \<longleftrightarrow> (\<forall>b b'. builder_inv ng op b \<and> f b = Some b' \<longrightarrow> builder_inv ng op b' \<and> extends b b')"

lemma keepsD: "keeps ng op f \<Longrightarrow> builder_inv ng op b \<Longrightarrow> f b = Some b' \<Longrightarrow> builder_inv ng op b' \<and> extends b b'"
  unfolding keeps_def by blast

lemma keeps_write: "writes ng w \<Longrightarrow> i \<in> op \<Longrightarrow> keeps ng op (\<lambda>b. w (set_current_block i b))"
  unfolding keeps_def
proof (intro allI impI, elim conjE)
  fix b b'
  assume *: "writes ng w" "i \<in> op" "builder_inv ng op b" "w (set_current_block i b) = Some b'"
  then have "i < length (rb_blocks b)" using inv_range by blast
  note w = writes_at [OF *(1,3) this *(4)]
  then show "builder_inv ng op b' \<and> extends b b'" using *(2) by (simp add: insert_absorb)
qed

lemma keeps_Some [simp]: "keeps ng op Some"
  unfolding keeps_def by simp

lemma for_each_keeps: "(\<And>x. x \<in> set xs \<Longrightarrow> keeps ng op (f x)) \<Longrightarrow> keeps ng op (for_each f xs)"
  unfolding keeps_def
proof (induction xs)
  case (Cons x xs)
  show ?case
  proof (intro allI impI, elim conjE)
    fix b b'
    assume *: "builder_inv ng op b" "for_each f (x # xs) b = Some b'"
    then obtain b1 where b1: "f x b = Some b1" "for_each f xs b1 = Some b'" by (auto simp: bind_eq_Some_iff)
    have 1: "builder_inv ng op b1" "extends b b1" using Cons.prems [OF list.set_intros(1)] *(1) b1(1) by blast+
    have "builder_inv ng op b' \<and> extends b1 b'" using Cons.IH [OF Cons.prems [OF list.set_intros(2)]] 1(1) b1(2) by blast
    then show "builder_inv ng op b' \<and> extends b b'" using extends_trans [OF 1(2)] by blast
  qed
qed simp

lemma alternative_blocks_inv:
  assumes "list_all (emits ng) Es" "builder_inv ng op b" "emit_alternative_blocks Es b = Some (alts, b')"
  shows "builder_inv ng (op \<union> exit_block ` set alts) b' \<and> extends b b' \<and> length alts = length Es \<and>
    (\<forall>alt \<in> set alts. entry_block alt < length (rb_blocks b') \<and> captures_ok ng (block_captures alt))"
  using assms
proof (induction Es arbitrary: op b alts)
  case (Cons E Es)
  obtain i b1 where b1: "new_block b = (i, b1)" by fastforce
  obtain info b2 rest where b2: "E (set_current_block i b1) = Some (info, b2)" and rest: "emit_alternative_blocks Es b2 = Some (rest, b')"
      and alts: "alts = (i, rb_current_block_id b2, info) # rest"
    using Cons.prems(3) b1 by (auto simp: bind_eq_Some_iff)
  note new = new_block_inv [OF Cons.prems(2) b1]
  have E: "moved ng (insert i op) (set_current_block i b1) b2 \<and> captures_ok ng (captures info)"
    using Cons.prems(1) new(1) b2 by (intro emitsD [of ng E]) (simp_all add: set_current_block_def)
  note m = movedD [OF E [THEN conjunct1]]
  let ?c = "rb_current_block_id b2"
  have ext: "extends b1 b2" using m(2) by (simp add: set_current_block_def)
  have "op \<subseteq> {..<length (rb_blocks b2)}"
    using inv_range [OF Cons.prems(2)] extends_length [OF extends_trans [OF new(2) ext]] by (meson lessThan_subset_iff subset_trans)
  then have inv2: "builder_inv ng (insert ?c op) b2"
    using inv_range [OF m(1)] by (intro inv_open [OF m(1)]) (auto simp: set_current_block_def)
  have "list_all (emits ng) Es" using Cons.prems(1) by simp
  note IH = Cons.IH [OF this inv2 rest]
  have "i < length (rb_blocks b2)" using new(4,5) extends_length [OF ext] by simp
  then have "i < length (rb_blocks b')" using IH extends_length [of b2 b'] by simp
  moreover have "extends b b'" using extends_trans [OF extends_trans [OF new(2) ext]] IH by simp
  ultimately show ?case
    using IH E by (simp add: alts exit_block_def entry_block_def block_captures_def)
qed simp

lemma clear_chain_inv:
  assumes "\<forall>alt \<in> set alts. captures_ok ng (block_captures alt)" "builder_inv ng op b" "emit_clear_chain alts joins b = Some (joins', b')"
    "joins \<noteq> []" "\<forall>j \<in> set joins. j < length (rb_blocks b)"
  shows "builder_inv ng op b' \<and> extends b b' \<and> length joins' = length alts + length joins \<and> (\<forall>j \<in> set joins'. j < length (rb_blocks b'))"
  using assms
proof (induction alts arbitrary: b joins)
  case (Cons alt alts)
  have hd: "hd joins < length (rb_blocks b)" using Cons.prems(4,5) by (cases joins) simp_all
  show ?case
  proof (cases "is_in_repitition b \<and> block_captures alt \<noteq> []")
    case True
    obtain i b1 where b1: "new_block b = (i, b1)" by fastforce
    note new = new_block_inv [OF Cons.prems(2) b1]
    obtain b3 where b3: "emit_clear_captures (block_captures alt) (set_current_block i b1) \<bind> emit_jump (hd joins) = Some b3"
        "emit_clear_chain alts (i # joins) b3 = Some (joins', b')"
      using Cons.prems(3) True b1 by (auto simp: bind_eq_Some_iff)
    have "closes ng (length (rb_blocks b1)) i (\<lambda>b. emit_clear_captures (block_captures alt) (set_current_block i b) \<bind> emit_jump (hd joins))"
      using Cons.prems(1) hd new(4,5) by (intro closes_write_jump writes_clear_captures) simp_all
    note c = closesD [OF this new(1) order_refl b3(1)]
    have "op \<subseteq> {..<length (rb_blocks b3)}"
      using inv_range [OF Cons.prems(2)] extends_length [OF extends_trans [OF new(2) c(2)]] by (meson lessThan_subset_iff subset_trans)
    then have inv3: "builder_inv ng op b3" by (intro inv_open [OF c(1)]) auto
    have joins: "\<forall>j \<in> set (i # joins). j < length (rb_blocks b3)"
      using Cons.prems(5) new(4,5) extends_length [OF c(2)] by auto
    have "builder_inv ng op b' \<and> extends b3 b' \<and> length joins' = length alts + length (i # joins) \<and> (\<forall>j \<in> set joins'. j < length (rb_blocks b'))"
      using Cons.prems(1) inv3 b3(2) joins by (intro Cons.IH) simp_all
    then show ?thesis using extends_trans [OF extends_trans [OF new(2) c(2)]] by auto
  next
    case False
    then have "emit_clear_chain alts (hd joins # joins) b = Some (joins', b')" using Cons.prems(3) by auto
    then have "builder_inv ng op b' \<and> extends b b' \<and> length joins' = length alts + length (hd joins # joins) \<and> (\<forall>j \<in> set joins'. j < length (rb_blocks b'))"
      using Cons.prems hd by (intro Cons.IH) simp_all
    then show ?thesis by simp
  qed
qed simp

lemma clear_previous_keeps:
  assumes "\<forall>alt \<in> set alts. captures_ok ng (block_captures alt)" "2 \<le> length alts"
    "set ids \<subseteq> op" "length alts = length ids + 1" "exit_block (alts ! (length alts - 1)) \<in> op"
  shows "keeps ng op (emit_clear_previous ids alts)"
proof -
  have caps: "captures_ok ng (block_captures (alts ! k))" if "k < length alts" for k using assms(1) that nth_mem by blast
  have 1: "keeps ng op (for_each (\<lambda>i b. if block_captures (alts ! (i - 1)) \<noteq> [] then
      emit_clear_captures (block_captures (alts ! (i - 1))) (set_current_block (ids ! i) b) else Some b) [1..<length alts - 1])"
  proof (rule for_each_keeps)
    fix i
    assume i: "i \<in> set [1..<length alts - 1]"
    then have "ids ! i \<in> op" using assms(3,4) by (auto intro: subsetD nth_mem)
    then have "keeps ng op (\<lambda>b. emit_clear_captures (block_captures (alts ! (i - 1))) (set_current_block (ids ! i) b))"
      using i by (intro keeps_write writes_clear_captures caps) auto
    then show "keeps ng op (\<lambda>b. if block_captures (alts ! (i - 1)) \<noteq> [] then
        emit_clear_captures (block_captures (alts ! (i - 1))) (set_current_block (ids ! i) b) else Some b)"
      by (cases "block_captures (alts ! (i - 1)) = []") (simp_all only: if_True if_False not_False_eq_True simp_thms keeps_Some)
  qed
  have 2: "keeps ng op (for_each (\<lambda>g b. emit (ClearCapture g) (set_current_block (exit_block (alts ! (length alts - 1))) b))
      (block_captures (alts ! (length alts - 2))))"
    using caps [of "length alts - 2"] assms(2,5)
    by (intro for_each_keeps keeps_write writes_emit) (auto simp: captures_ok_def list_all_iff)
  show ?thesis
    unfolding keeps_def
  proof (intro allI impI, elim conjE)
    fix b b'
    assume *: "builder_inv ng op b" "emit_clear_previous ids alts b = Some b'"
    then obtain b1 where b1: "for_each (\<lambda>i b. if block_captures (alts ! (i - 1)) \<noteq> [] then
          emit_clear_captures (block_captures (alts ! (i - 1))) (set_current_block (ids ! i) b) else Some b) [1..<length alts - 1] b = Some b1"
        "for_each (\<lambda>g b. emit (ClearCapture g) (set_current_block (exit_block (alts ! (length alts - 1))) b))
          (block_captures (alts ! (length alts - 2))) b1 = Some b'"
      unfolding emit_clear_previous_def bind_eq_Some_iff by blast
    note k1 = keepsD [OF 1 *(1) b1(1)]
    show "builder_inv ng op b' \<and> extends b b'"
      using keepsD [OF 2 k1 [THEN conjunct1] b1(2)] extends_trans [OF k1 [THEN conjunct2]] by blast
  qed
qed

lemma branch_chain_inv:
  assumes inv: "builder_inv ng op b" and emit: "emit_branch_chain ids alts b = Some b'"
    and len: "2 \<le> length alts" "length alts = length ids + 1"
    and entries: "\<forall>alt \<in> set alts. entry_block alt < length (rb_blocks b)" and ids: "\<forall>i \<in> set ids. i < length (rb_blocks b)"
  shows "builder_inv ng (op - set ids) b' \<and> extends b b'"
proof -
  obtain b1 where b1: "for_each (\<lambda>i b. emit_branch (entry_block (alts ! i)) (ids ! (i + 1)) (set_current_block (ids ! i) b)) [0..<length alts - 2] b = Some b1"
      "emit_branch (entry_block (alts ! (length alts - 2))) (entry_block (alts ! (length alts - 1))) (set_current_block (ids ! (length ids - 1)) b1) = Some b'"
    using emit unfolding emit_branch_chain_def bind_eq_Some_iff by blast
  let ?N = "length (rb_blocks b)"
  have 1: "builder_inv ng (op - (\<lambda>i. ids ! i) ` set [0..<length alts - 2]) b1 \<and> extends b b1"
  proof (rule for_each_closes [OF closes_branch inv order_refl b1(1)])
    fix i
    assume "i \<in> set [0..<length alts - 2]"
    then have "i < length alts" "i + 1 < length ids" using len by auto
    then show "entry_block (alts ! i) < ?N" "ids ! (i + 1) < ?N" using entries ids nth_mem by blast+
  qed
  have "entry_block (alts ! k) < ?N" if "k < length alts" for k using entries that nth_mem by blast
  then have 2: "closes ng ?N (ids ! (length ids - 1)) (\<lambda>b. emit_branch (entry_block (alts ! (length alts - 2)))
      (entry_block (alts ! (length alts - 1))) (set_current_block (ids ! (length ids - 1)) b))"
    using len by (intro closes_branch) auto
  note c = closesD [OF 2 1 [THEN conjunct1] extends_length [OF 1 [THEN conjunct2]] b1(2)]
  have "ids \<noteq> []" using len by auto
  have "length alts - 2 = length ids - 1" using len by simp
  then have sets: "op - (\<lambda>i. ids ! i) ` set [0..<length alts - 2] - {ids ! (length ids - 1)} = op - set ids"
    unfolding nth_image_butlast [OF \<open>ids \<noteq> []\<close>, symmetric] set_upt by (simp only:) blast
  show ?thesis using c(1) extends_trans [OF 1 [THEN conjunct2] c(2)] unfolding sets by blast
qed

lemma links_inv:
  assumes "builder_inv ng op b" "length joins = length alts" "\<forall>j \<in> set joins. j < length (rb_blocks b)"
    "for_each (\<lambda>(alt, join_block) b. emit_jump join_block (set_current_block (exit_block alt) b)) (zip alts joins) b = Some b'"
  shows "builder_inv ng (op - exit_block ` set alts) b' \<and> extends b b'"
proof -
  have "builder_inv ng (op - (\<lambda>x. exit_block (fst x)) ` set (zip alts joins)) b' \<and> extends b b'"
  proof (rule for_each_closes [OF _ assms(1) order_refl assms(4)])
    fix x
    assume "x \<in> set (zip alts joins)"
    then have "snd x \<in> set joins" by (metis prod.collapse set_zip_rightD)
    then show "closes ng (length (rb_blocks b)) (exit_block (fst x))
        (case x of (alt, join_block) \<Rightarrow> \<lambda>b. emit_jump join_block (set_current_block (exit_block alt) b))"
      using closes_jump [of "snd x" "length (rb_blocks b)" ng "exit_block (fst x)"] assms(3) by (simp add: case_prod_unfold)
  qed
  moreover have "fst ` set (zip alts joins) = set alts" using assms(2) by (metis map_fst_zip set_map)
  then have "(\<lambda>x. exit_block (fst x)) ` set (zip alts joins) = exit_block ` set alts" by (metis image_image)
  ultimately show ?thesis by simp
qed

lemma bind_SomeE:
  assumes "m \<bind> f = Some y"
  obtains x where "m = Some x" "f x = Some y"
  using assms by (auto simp: bind_eq_Some_iff)

lemma case_prodE2':
  assumes "(case p of (x, y) \<Rightarrow> f x y) = Some z"
  obtains x y where "p = (x, y)" "f x y = Some z"
  using assms by (cases p) simp

lemma disjunction_steps:
  assumes emit: "emit_disjunction_of Es b = Some (info, b')" and ne: "Es \<noteq> []" "length Es \<noteq> 1"
    and b1: "new_blocks (length Es - 2) b = (ids, b1)" and b2: "new_block b1 = (j, b2)"
  obtains alts b3 b4 joins b5 b6 b7 where "emit_alternative_blocks Es b2 = Some (alts, b3)"
    "(if is_in_repitition b3 then emit_clear_previous (rb_current_block_id b # ids) alts b3 else Some b3) = Some b4"
    "emit_clear_chain (rev (tl alts)) [j] b4 = Some (joins, b5)"
    "for_each (\<lambda>(alt, join_block) b. emit_jump join_block (set_current_block (exit_block alt) b)) (zip alts joins) b5 = Some b6"
    "emit_branch_chain (rb_current_block_id b # ids) alts b6 = Some b7"
    "info = with_captures (list_all (\<lambda>alt. always_consumes (snd (snd alt))) alts) (concat (map block_captures alts))"
    "b' = set_current_block j b7"
proof -
  let ?c = "rb_current_block_id b"
  have emit1: "emit_alternative_blocks Es b2 \<bind> (\<lambda>(alts, b).
      (if is_in_repitition b then emit_clear_previous (?c # ids) alts b else Some b) \<bind> (\<lambda>b.
      emit_clear_chain (rev (tl alts)) [j] b \<bind> (\<lambda>(joins, b).
      for_each (\<lambda>(alt, join_block) b. emit_jump join_block (set_current_block (exit_block alt) b)) (zip alts joins) b \<bind> (\<lambda>b.
      emit_branch_chain (?c # ids) alts b \<bind> (\<lambda>b.
      Some (with_captures (list_all (\<lambda>alt. always_consumes (snd (snd alt))) alts) (concat (map block_captures alts)),
        set_current_block j b)))))) = Some (info, b')"
    using emit ne by (simp add: emit_disjunction_of_def Let_def b1 b2 split del: if_split)
  obtain alts b3 where 1: "emit_alternative_blocks Es b2 = Some (alts, b3)" using emit1 by (elim bind_SomeE case_prodE2') simp
  note emit2 = emit1 [unfolded 1 bind.bind_lunit prod.case]
  obtain b4 where 2: "(if is_in_repitition b3 then emit_clear_previous (?c # ids) alts b3 else Some b3) = Some b4"
    using emit2 by (elim bind_SomeE)
  note emit3 = emit2 [unfolded 2 bind.bind_lunit]
  obtain joins b5 where 3: "emit_clear_chain (rev (tl alts)) [j] b4 = Some (joins, b5)" using emit3 by (elim bind_SomeE case_prodE2') simp
  note emit4 = emit3 [unfolded 3 bind.bind_lunit prod.case]
  obtain b6 where 4: "for_each (\<lambda>(alt, join_block) b. emit_jump join_block (set_current_block (exit_block alt) b)) (zip alts joins) b5 = Some b6"
    using emit4 by (elim bind_SomeE)
  note emit5 = emit4 [unfolded 4 bind.bind_lunit]
  obtain b7 where 5: "emit_branch_chain (?c # ids) alts b6 = Some b7" using emit5 by (elim bind_SomeE)
  show thesis using that [OF 1 2 3 4 5] emit5 [unfolded 5 bind.bind_lunit] by simp
qed

lemma emits_disjunction:
  assumes "list_all (emits ng) Es"
  shows "emits ng (emit_disjunction_of Es)"
  unfolding emits_def
proof (intro allI impI, elim conjE)
  fix op b info b'
  assume inv: "builder_inv ng op b" and c: "rb_current_block_id b \<in> op" and emit: "emit_disjunction_of Es b = Some (info, b')"
  let ?c = "rb_current_block_id b"
  have ne: "Es \<noteq> []" using emit by (auto simp: emit_disjunction_of_def)
  show "moved ng op b b' \<and> captures_ok ng (captures info)"
  proof (cases "length Es = 1")
    case True
    then have "emits ng (hd Es)" "hd Es b = Some (info, b')"
      using assms emit ne by (auto simp: emit_disjunction_of_def length_Suc_conv)
    then show ?thesis by (rule emitsD [OF _ inv c])
  next
    case False
    obtain ids b1 where b1: "new_blocks (length Es - 2) b = (ids, b1)" by fastforce
    obtain j b2 where b2: "new_block b1 = (j, b2)" by fastforce
    obtain alts b3 b4 joins b5 b6 b7 where b3: "emit_alternative_blocks Es b2 = Some (alts, b3)"
      and b4: "(if is_in_repitition b3 then emit_clear_previous (?c # ids) alts b3 else Some b3) = Some b4"
      and b5: "emit_clear_chain (rev (tl alts)) [j] b4 = Some (joins, b5)"
      and b6: "for_each (\<lambda>(alt, join_block) b. emit_jump join_block (set_current_block (exit_block alt) b)) (zip alts joins) b5 = Some b6"
      and b7: "emit_branch_chain (?c # ids) alts b6 = Some b7"
      and info: "info = with_captures (list_all (\<lambda>alt. always_consumes (snd (snd alt))) alts) (concat (map block_captures alts))"
      and b': "b' = set_current_block j b7"
      by (rule disjunction_steps [OF emit ne False b1 b2])
    note i1 = new_blocks_inv [OF inv b1, THEN conjunct1] and i1' = new_blocks_inv [OF inv b1, THEN conjunct2]
    note i2 = new_block_inv [OF i1 b2]
    have i3: "builder_inv ng (insert j (op \<union> set ids) \<union> exit_block ` set alts) b3" and ext3: "extends b2 b3"
      and len: "length alts = length Es" and entry: "\<forall>alt \<in> set alts. entry_block alt < length (rb_blocks b3)"
      and caps: "\<forall>alt \<in> set alts. captures_ok ng (block_captures alt)"
      using alternative_blocks_inv [OF assms i2(1) b3] by blast+
    have n: "2 \<le> length alts" "length alts = length (?c # ids) + 1" 
    proof -
      have "length Es \<noteq> 0" using ne by simp
      then show "2 \<le> length alts" using False len by linarith
      have "length ids = length Es - 2" using i1' by auto
      then show "length alts = length (?c # ids) + 1" using \<open>2 \<le> length alts\<close> len by simp
    qed
    have last: "alts ! (length alts - 1) \<in> set alts" using n(1) by (intro nth_mem) linarith
    have keep: "keeps ng (insert j (op \<union> set ids) \<union> exit_block ` set alts) (emit_clear_previous (?c # ids) alts)"
    proof (rule clear_previous_keeps [OF caps n(1) _ n(2)])
      show "set (?c # ids) \<subseteq> insert j (op \<union> set ids) \<union> exit_block ` set alts" using c by auto
      show "exit_block (alts ! (length alts - 1)) \<in> insert j (op \<union> set ids) \<union> exit_block ` set alts" using last by blast
    qed
    have i4: "builder_inv ng (insert j (op \<union> set ids) \<union> exit_block ` set alts) b4 \<and> extends b3 b4"
    proof (cases "is_in_repitition b3")
      case True
      then show ?thesis using keepsD [OF keep i3] b4 by simp
    next
      case False
      then show ?thesis using i3 b4 by simp
    qed
    have ext4: "extends b1 b4" using extends_trans [OF i2(2) extends_trans [OF ext3 i4 [THEN conjunct2]]] .
    have j: "j < length (rb_blocks b2)" "j < length (rb_blocks b4)" "length (rb_blocks b) \<le> j"
      using i1' i2(4,5) extends_length [OF extends_trans [OF ext3 i4 [THEN conjunct2]]] by auto
    have rest_caps: "\<forall>alt \<in> set (rev (tl alts)). captures_ok ng (block_captures alt)" using caps by (cases alts) simp_all
    have "\<forall>k \<in> set [j]. k < length (rb_blocks b4)" using j(2) by simp
    note i5 = clear_chain_inv [OF rest_caps i4 [THEN conjunct1] b5 _ this]
    have joins: "length joins = length alts" "\<forall>k \<in> set joins. k < length (rb_blocks b5)" using i5 n(1) by auto
    have i6: "builder_inv ng (insert j (op \<union> set ids) \<union> exit_block ` set alts - exit_block ` set alts) b6 \<and> extends b5 b6"
      using i5 by (intro links_inv [OF _ joins b6]) simp
    have ext6: "extends b3 b6" using i4 i5 i6 extends_trans by blast
    have "\<forall>i \<in> set (?c # ids). i < length (rb_blocks b2)" using i1' i2(4) inv_range [OF inv] c by auto
    then have ids: "\<forall>i \<in> set (?c # ids). i < length (rb_blocks b6)"
      using extends_length [OF extends_trans [OF ext3 ext6]] by (meson order.strict_trans2)
    have "\<forall>alt \<in> set alts. entry_block alt < length (rb_blocks b6)" using entry extends_length [OF ext6] by (meson order.strict_trans2)
    note i7 = branch_chain_inv [OF i6 [THEN conjunct1] b7 n this ids]
    have sub: "insert j (op \<union> set ids) \<union> exit_block ` set alts - exit_block ` set alts - set (?c # ids) \<subseteq> insert j (op - {?c})" by auto
    have ext: "extends b2 b7" using ext3 ext6 i7 extends_trans by blast
    have ext': "extends b b7" using extends_trans [OF extends_trans [OF _ i2(2)] ext] i1' by blast
    have "j < length (rb_blocks b7)" using j(1) extends_length [OF ext] by simp
    then have "moved ng op b (set_current_block j b7)"
      using moved_to [OF i7 [THEN conjunct1] sub _ j(3) inv_range [OF inv] ext' refl] by blast
    moreover have "captures_ok ng (captures info)" using caps by (auto simp: info with_captures_def captures_ok_def list_all_iff)
    ultimately show ?thesis by (simp add: b')
  qed
qed

subsection \<open>Sequences and groups\<close>

lemma emitsI:
  assumes "\<And>op b info b'. builder_inv ng op b \<Longrightarrow> rb_current_block_id b \<in> op \<Longrightarrow> E b = Some (info, b') \<Longrightarrow>
      moved ng op b b' \<and> captures_ok ng (captures info)"
  shows "emits ng E"
  unfolding emits_def using assms by blast

lemma moved_refl: "builder_inv ng op b \<Longrightarrow> rb_current_block_id b \<in> op \<Longrightarrow> moved ng op b b"
  by (simp add: moved_def insert_absorb)

lemma emits_then:
  assumes "emits ng E" "builder_inv ng op b" "rb_current_block_id b \<in> op" "E b = Some (info, b1)"
    "\<And>op'. builder_inv ng op' b1 \<Longrightarrow> rb_current_block_id b1 \<in> op' \<Longrightarrow> moved ng op' b1 b2 \<and> P"
  shows "moved ng op b b2 \<and> P \<and> captures_ok ng (captures info)"
proof -
  have m: "moved ng op b b1" "captures_ok ng (captures info)" using emitsD [OF assms(1-4)] by blast+
  show ?thesis using moved_trans [OF m(1) _ inv_range [OF assms(2)]] assms(5) [OF movedD(1) [OF m(1)] insertI1] m(2) by blast
qed

lemma captures_ok_simps [simp]:
  "captures_ok ng []" "captures_ok ng (xs @ ys) \<longleftrightarrow> captures_ok ng xs \<and> captures_ok ng ys"
  "captures_ok ng (g # gs) \<longleftrightarrow> unat (g * 2 + 1) < 2 * (ng + 1) \<and> captures_ok ng gs"
  by (simp_all add: captures_ok_def)

lemma emits_alternative_terms: "list_all (emits ng) Es \<Longrightarrow> emits ng (emit_alternative_terms Es)"
proof (induction Es)
  case Nil
  show ?case
  proof (rule emitsI)
    fix op b info b'
    assume "builder_inv ng op b" "rb_current_block_id b \<in> op" "emit_alternative_terms [] b = Some (info, b')"
    then show "moved ng op b b' \<and> captures_ok ng (captures info)" using moved_refl by (auto simp: with_captures_def)
  qed
next
  case (Cons E Es)
  show ?case
  proof (rule emitsI)
    fix op b info b'
    assume inv: "builder_inv ng op b" and c: "rb_current_block_id b \<in> op" and emit: "emit_alternative_terms (E # Es) b = Some (info, b')"
    obtain info1 b1 info2 where b1: "E b = Some (info1, b1)" "emit_alternative_terms Es b1 = Some (info2, b')"
        "info = with_captures (always_consumes info1 \<or> always_consumes info2) (captures info1 @ captures info2)"
      using emit by (auto simp: bind_eq_Some_iff)
    have E: "emits ng E" "emits ng (emit_alternative_terms Es)" using Cons by simp_all
    have "moved ng op b b' \<and> captures_ok ng (captures info2) \<and> captures_ok ng (captures info1)"
      by (rule emits_then [OF E(1) inv c b1(1)]) (rule emitsD [OF E(2) _ _ b1(2)])
    then show "moved ng op b b' \<and> captures_ok ng (captures info)" by (simp add: b1(3) with_captures_def)
  qed
qed

lemma emits_alternative: "list_all (emits ng) Es \<Longrightarrow> emits ng (emit_alternative_of Es)"
proof (rule emitsI)
  fix op b info b'
  assume "list_all (emits ng) Es" and b: "builder_inv ng op b" "rb_current_block_id b \<in> op" and "emit_alternative_of Es b = Some (info, b')"
  then obtain Es' where Es': "set Es' = set Es" "emit_alternative_terms Es' b = Some (info, b')"
    unfolding emit_alternative_of_def bind_eq_Some_iff by (metis set_rev)
  have "list_all (emits ng) Es'" using \<open>list_all (emits ng) Es\<close> Es'(1) by (simp add: list_all_iff)
  then show "moved ng op b b' \<and> captures_ok ng (captures info)"
    by (rule emitsD [OF emits_alternative_terms b Es'(2)])
qed

lemma emits_leaf: "moves ng f \<Longrightarrow> emits ng (emit_leaf consumes f)"
proof (rule emitsI)
  fix op b info b'
  assume "moves ng f" "builder_inv ng op b" "rb_current_block_id b \<in> op" "emit_leaf consumes f b = Some (info, b')"
  then show "moved ng op b b' \<and> captures_ok ng (captures info)"
    using movesD [of ng f op b] by (auto simp: emit_leaf_def bind_eq_Some_iff no_captures_def)
qed

lemma writes_mark: "unat i < 2 * (ng + 1) \<Longrightarrow> writes ng (emit (MarkCapturePoint i))"
  by (rule writes_emit) simp

lemma moved_writes:
  assumes "builder_inv ng op b" "moved ng op b b1" "writes ng w" "w b1 = Some b2"
  shows "moved ng op b b2"
proof -
  note m = movedD [OF assms(2)]
  note w = writesD [OF assms(3) m(1) insertI1 assms(4)]
  show ?thesis using w m(3) extends_trans [OF m(2) w(3)] by (simp add: moved_def)
qed

lemma writes_moved:
  assumes "builder_inv ng op b" "rb_current_block_id b \<in> op" "writes ng w" "w b = Some b1" "moved ng op b1 b2"
  shows "moved ng op b b2"
proof -
  note w = writesD [OF assms(3,1,2,4)]
  show ?thesis using assms(5) w extends_trans [OF w(3)] extends_length [OF w(3)] unfolding moved_def by auto
qed

lemma emits_capture_group:
  assumes "emits ng E" "unat (index * 2) < 2 * (ng + 1)" "unat (index * 2 + 1) < 2 * (ng + 1)"
  shows "emits ng (emit_capture_group_of E index)"
proof (rule emitsI)
  fix op b info b'
  assume inv: "builder_inv ng op b" and c: "rb_current_block_id b \<in> op" and emit: "emit_capture_group_of E index b = Some (info, b')"
  obtain s t b1 info1 b2 where st: "unat s < 2 * (ng + 1)" "unat t < 2 * (ng + 1)" and b1: "emit (MarkCapturePoint s) b = Some b1"
      and b2: "E b1 = Some (info1, b2)" and b': "emit (MarkCapturePoint t) b2 = Some b'" and info: "info = info1\<lparr>captures := captures info1 @ [index]\<rparr>"
  proof -
    obtain forwards where "is_forwards b = Some forwards" using emit by (auto simp: emit_capture_group_of_def bind_eq_Some_iff)
    then show thesis using emit assms(2,3)
      by (cases forwards) (auto simp: emit_capture_group_of_def bind_eq_Some_iff intro: that)
  qed
  note w = writesD [OF writes_mark [OF st(1)] inv c b1]
  have E: "moved ng op b1 b2 \<and> captures_ok ng (captures info1)" using w c by (intro emitsD [OF assms(1) _ _ b2]) simp_all
  have "moved ng op b b'"
    by (rule moved_writes [OF inv writes_moved [OF inv c writes_mark [OF st(1)] b1 E [THEN conjunct1]] writes_mark [OF st(2)] b'])
  then show "moved ng op b b' \<and> captures_ok ng (captures info)" using E assms(3) by (simp add: info)
qed

lemma emits_anonymous_group:
  assumes "emits ng E"
  shows "emits ng (emit_anonymous_group_of E positive negative)"
proof (rule emitsI)
  fix op b info b'
  assume inv: "builder_inv ng op b" and c: "rb_current_block_id b \<in> op" and emit: "emit_anonymous_group_of E positive negative b = Some (info, b')"
  show "moved ng op b b' \<and> captures_ok ng (captures info)"
  proof (cases "positive \<noteq> 0 \<or> negative \<noteq> 0")
    case False
    then show ?thesis using emit by (intro emitsD [OF assms inv c]) (simp add: emit_anonymous_group_of_def)
  next
    case True
    then obtain fs b1 where b1: "E (b\<lparr>rb_flags := fs\<rparr>) = Some (info, b1)" "b' = b1\<lparr>rb_flags := tl (rb_flags b1)\<rparr>"
      using emit by (auto simp: emit_anonymous_group_of_def bind_eq_Some_iff)
    have "moved ng op (b\<lparr>rb_flags := fs\<rparr>) b1 \<and> captures_ok ng (captures info)"
      by (rule emitsD [OF assms _ _ b1(1)]) (simp_all add: inv c)
    then show ?thesis by (simp add: b1(2) moved_def)
  qed
qed

lemma emits_lookahead:
  assumes "emits ng E"
  shows "emits ng (emit_lookaround_of E True is_positive)"
proof (rule emitsI)
  fix op b info b'
  assume inv: "builder_inv ng op b" and c: "rb_current_block_id b \<in> op" and emit: "emit_lookaround_of E True is_positive b = Some (info, b')"
  obtain i b1 where b1: "new_block b = (i, b1)" by fastforce
  note new = new_block_inv [OF inv b1]
  obtain b2 info1 b3 b4 where b2: "emit (Lookaround True is_positive (of_nat i)) b1 = Some b2"
    and b3: "E (set_current_block i (enter_direction_context Forward b2)) = Some (info1, b3)" and b4: "emit Accept b3 = Some b4"
    and b': "b' = set_current_block (rb_current_block_id b2) (exit_direction_context b4)" and info: "info = info1\<lparr>always_consumes := False\<rparr>"
    using emit b1 by (auto simp: emit_lookaround_of_def bind_eq_Some_iff Let_def enter_direction_context_def)
  have "good ng b1 (Lookaround True is_positive (of_nat i))" using new(4,5) target_good [of i "length (rb_blocks b1)"] by (simp add: good_def operands_good_def)
  note i2 = emit_inv [OF new(1) b2 this]
  have cur: "rb_current_block_id b2 = rb_current_block_id b" using i2(3) new(3) c by simp
  have inv2: "builder_inv ng (insert i op) b2" "extends b1 b2" using i2 new(3) c by simp_all
  have E: "moved ng (insert i op) (set_current_block i (enter_direction_context Forward b2)) b3 \<and> captures_ok ng (captures info1)"
    using inv2(1) by (intro emitsD [OF assms _ _ b3]) (simp_all add: context_defs)
  note m = movedD [OF E [THEN conjunct1]]
  note a = emit_inv [OF m(1) b4 good_simple(4)]
  have ext: "extends b b4" using extends_trans [OF new(2) extends_trans [OF inv2(2)]] m(2) a(2) extends_trans by (simp add: context_defs)
  have "op \<subseteq> {..<length (rb_blocks b4)}" using inv_range [OF inv] extends_length [OF ext] by (meson lessThan_subset_iff subset_trans)
  then have "builder_inv ng op b4" using a(1) by (intro inv_open [of ng _ b4 op]) (auto simp: context_defs)
  then show "moved ng op b b' \<and> captures_ok ng (captures info)"
    using E ext cur c by (simp add: b' info moved_def context_defs insert_absorb)
qed

end
