(* ===== verification/Regexp_Quantifier.thy ===== *)
theory Regexp_Quantifier
  imports Regexp_Emission
begin

section \<open>Emitted quantifiers and terms\<close>

text \<open>Quantifiers keep the invariant of the builder, and so does the whole recursion over the syntax tree.\<close>

lemma quantifier_branch_inv:
  assumes "builder_inv ng op b" "emit_quantifier_branch greedy t j b = Some b'" "t < length (rb_blocks b)" "j < length (rb_blocks b)"
  shows "builder_inv ng (op - {rb_current_block_id b}) b'" "extends b b'"
  using emit_branch_inv [OF assms(1) _ assms(3,4)] emit_branch_inv [OF assms(1) _ assms(4,3)] assms(2)
  by (cases greedy; simp add: emit_quantifier_branch_def)+

lemma inv_shrink: "builder_inv ng X b \<Longrightarrow> X \<subseteq> op \<Longrightarrow> op \<subseteq> {..<length (rb_blocks b0)} \<Longrightarrow> extends b0 b \<Longrightarrow> builder_inv ng op b"
  by (meson extends_length inv_open lessThan_subset_iff subset_trans)

lemma clear_captures_branch_inv:
  assumes inv: "builder_inv ng op b" and emit: "emit_quantifier_clear_captures_branch greedy info t j b = Some b'"
    and t: "t < length (rb_blocks b)" "j < length (rb_blocks b)" and caps: "captures_ok ng (captures info)"
  shows "builder_inv ng (op - {rb_current_block_id b}) b' \<and> extends b b'"
proof -
  obtain i b1 where b1: "new_block b = (i, b1)" by fastforce
  obtain b2 where b2: "emit_quantifier_branch greedy t i b1 = Some b2"
      "emit_clear_captures (captures info) (set_current_block i b2) \<bind> emit_jump j = Some b'"
    using emit b1 unfolding emit_quantifier_clear_captures_branch_def by (auto simp: bind_eq_Some_iff)
  note new = new_block_inv [OF inv b1]
  have lens: "t < length (rb_blocks b1)" "i < length (rb_blocks b1)" "j < length (rb_blocks b1)" using t new(4,5) by simp_all
  note q = quantifier_branch_inv [OF new(1) b2(1) lens(1,2)]
  have "closes ng (length (rb_blocks b1)) i (\<lambda>b. emit_clear_captures (captures info) (set_current_block i b) \<bind> emit_jump j)"
    using lens by (intro closes_write_jump writes_clear_captures caps)
  note c = closesD [OF this q(1) extends_length [OF q(2)] b2(2)]
  have ext: "extends b b'" using extends_trans [OF new(2) extends_trans [OF q(2) c(2)]] .
  have "builder_inv ng (op - {rb_current_block_id b}) b'"
    using inv_range [OF inv] new(3) by (intro inv_shrink [OF c(1) _ _ ext]) auto
  then show ?thesis using ext by blast
qed

lemma enter_branch_inv:
  assumes inv: "builder_inv ng op b" and emit: "emit_enter_branch greedy clears info t j b = Some b'"
    and t: "t < length (rb_blocks b)" "j < length (rb_blocks b)" and caps: "captures_ok ng (captures info)"
  shows "builder_inv ng (op - {rb_current_block_id b}) b' \<and> extends b b'"
proof (cases "clears \<and> captures info \<noteq> []")
  case True
  then show ?thesis using emit by (intro clear_captures_branch_inv [OF inv _ t caps]) (simp add: emit_enter_branch_def)
next
  case False
  then have "emit_quantifier_branch greedy t j b = Some b'" using emit by (auto simp: emit_enter_branch_def)
  then show ?thesis using quantifier_branch_inv [OF inv _ t] by blast
qed

lemma in_block_enter_branch:
  assumes inv: "builder_inv ng op b" and emit: "in_block_do p (emit_enter_branch greedy clears info t j) b = Some b'"
    and t: "t < length (rb_blocks b)" "j < length (rb_blocks b)" and caps: "captures_ok ng (captures info)"
  shows "builder_inv ng (op - {p}) b'" "extends b b'" "rb_current_block_id b' = rb_current_block_id b"
proof -
  obtain b1 where b1: "emit_enter_branch greedy clears info t j (set_current_block p b) = Some b1" "b' = set_current_block (rb_current_block_id b) b1"
    using emit by (auto simp: in_block_do_def bind_eq_Some_iff)
  have "builder_inv ng (op - {rb_current_block_id (set_current_block p b)}) b1 \<and> extends (set_current_block p b) b1"
    using inv t by (intro enter_branch_inv [OF _ b1(1) _ _ caps]) (simp_all add: set_current_block_def)
  then show "builder_inv ng (op - {p}) b'" "extends b b'" "rb_current_block_id b' = rb_current_block_id b"
    by (simp_all add: b1(2) set_current_block_def)
qed

text \<open>New registers.\<close>

lemma emit_new_progress:
  assumes "builder_inv ng op b" "new_progress_point b = (i, b1)" "emit (Progress i) (set_current_block c b1) = Some b'"
    "c \<in> op \<or> c + 1 < length (rb_blocks b)"
  shows "builder_inv ng op b'" "extends b b'" "rb_current_block_id b' = c" "good ng b' (Progress i)"
proof -
  have i: "i = rb_num_progress_points b" and emit: "emit (Progress i) (b\<lparr>rb_current_block_id := c,
      rb_num_progress_points := rb_num_progress_points b + of_bool True, rb_num_loop_registers := rb_num_loop_registers b + of_bool False\<rparr>) = Some b'"
    using assms(2,3) by (cases b; auto simp: new_progress_point_def set_current_block_def)+
  note e = emit_extends [OF assms(1) emit]
  show good: "good ng b' (Progress i)" using e(2) by (simp add: good_def operands_good_def i)
  show "builder_inv ng op b'" using emit_raised_inv [OF assms(1) emit good] assms(4) by auto
  show "extends b b'" by (rule e(1))
  show "rb_current_block_id b' = c" using emit by (auto simp: emit_def split: if_splits)
qed

lemma set_current_same [simp]: "set_current_block (rb_current_block_id b) b = b"
  by (simp add: set_current_block_def)

lemma writes_progress_check: "writes ng (emit_progress_check info)"
proof (rule writesI)
  fix op b b'
  assume b: "builder_inv ng op b" "rb_current_block_id b \<in> op" "emit_progress_check info b = Some b'"
  show "builder_inv ng op b' \<and> rb_current_block_id b' = rb_current_block_id b \<and> extends b b'"
  proof (cases "always_consumes info")
    case True
    then show ?thesis using b by (simp add: emit_progress_check_def)
  next
    case False
    obtain i b1 where b1: "new_progress_point b = (i, b1)" by fastforce
    then have "rb_current_block_id b1 = rb_current_block_id b" by (auto simp: new_progress_point_def)
    then have "emit (Progress i) (set_current_block (rb_current_block_id b) b1) = Some b'"
      using False b(3) b1 by (metis emit_progress_check_def set_current_same case_prod_conv)
    note e = emit_new_progress [OF b(1) b1 this]
    then show ?thesis using b(2) by blast
  qed
qed

lemma emit_new_loop:
  assumes "builder_inv ng op b" "rb_current_block_id b \<in> op" "next_loop_register b = (i, b1)"
    "emit (Loop i m (of_nat t)) b1 = Some b'" "t < length (rb_blocks b)"
  shows "builder_inv ng op b'" "extends b b'" "rb_current_block_id b' = rb_current_block_id b"
proof -
  have i: "i = rb_num_loop_registers b" and emit: "emit (Loop i m (of_nat t)) (b\<lparr>rb_current_block_id := rb_current_block_id b,
      rb_num_progress_points := rb_num_progress_points b + of_bool False, rb_num_loop_registers := rb_num_loop_registers b + of_bool True\<rparr>) = Some b'"
    using assms(3,4) by (auto simp: next_loop_register_def)
  note e = emit_extends [OF assms(1) emit]
  have "unat (of_nat t :: u32) < length (rb_blocks b')" using target_good [OF assms(5)] extends_length [OF e(1)] by simp
  then have good: "good ng b' (Loop i m (of_nat t))" using e(3) by (simp add: good_def operands_good_def i)
  show "builder_inv ng op b'" using emit_raised_inv [OF assms(1) emit good] assms(2) by auto
  show "extends b b'" by (rule e(1))
  show "rb_current_block_id b' = rb_current_block_id b" using emit by (auto simp: emit_def split: if_splits)
qed

subsection \<open>Repititions\<close>

lemma emits_times: "emits ng E \<Longrightarrow> captures_ok ng (captures info) \<Longrightarrow> emits ng (emit_times n E info)"
proof (induction n arbitrary: info)
  case 0
  show ?case
  proof (rule emitsI)
    fix op b info' b'
    assume "builder_inv ng op b" "rb_current_block_id b \<in> op" "emit_times 0 E info b = Some (info', b')"
    then show "moved ng op b b' \<and> captures_ok ng (captures info')" using moved_refl 0 by simp
  qed
next
  case (Suc n)
  show ?case
  proof (rule emitsI)
    fix op b info' b'
    assume inv: "builder_inv ng op b" and c: "rb_current_block_id b \<in> op" and emit: "emit_times (Suc n) E info b = Some (info', b')"
    obtain info1 b1 where b1: "E b = Some (info1, b1)" "emit_times n E info1 b1 = Some (info', b')"
      using emit by (auto simp: bind_eq_Some_iff)
    have "captures_ok ng (captures info1)" using emitsD [OF Suc.prems(1) inv c b1(1)] by blast
    note IH = Suc.IH [OF Suc.prems(1) this]
    have "moved ng op b b' \<and> captures_ok ng (captures info') \<and> captures_ok ng (captures info1)"
      by (rule emits_then [OF Suc.prems(1) inv c b1(1)]) (rule emitsD [OF IH _ _ b1(2)])
    then show "moved ng op b b' \<and> captures_ok ng (captures info')" by blast
  qed
qed

text \<open>The start of a loop: its instruction, and the term.\<close>

lemma loop_body:
  assumes "emits ng E" "builder_inv ng X b" "l < length (rb_blocks b)" "t < length (rb_blocks b)"
    and b1: "next_loop_register (set_current_block l b) = (i, b1)" "emit (Loop i m (of_nat t)) b1 = Some b2" "E b2 = Some (info, b3)"
  shows "builder_inv ng (insert (rb_current_block_id b3) (X - {l})) b3" "extends b b3" "captures_ok ng (captures info)"
proof -
  have inv: "builder_inv ng (insert l X) (set_current_block l b)" using inv_insert [OF assms(2,3)] by (simp add: set_current_block_def)
  have c: "rb_current_block_id (set_current_block l b) \<in> insert l X" and t: "t < length (rb_blocks (set_current_block l b))"
    using assms(4) by (simp_all add: set_current_block_def)
  note e = emit_new_loop [OF inv c b1(1,2) t]
  have "rb_current_block_id b2 \<in> insert l X" using e(3) c by simp
  note m = emitsD [OF assms(1) e(1) this b1(3)]
  show "extends b b3" using extends_trans [OF e(2) movedD(2) [OF m [THEN conjunct1]]] by (simp add: set_current_block_def)
  show "builder_inv ng (insert (rb_current_block_id b3) (X - {l})) b3"
    using movedD(1) [OF m [THEN conjunct1]] e(3) by (simp add: set_current_block_def)
  show "captures_ok ng (captures info)" using m by blast
qed

lemma emits_min:
  assumes E: "emits ng E"
  shows "emits ng (emit_min_repititions E mn)"
proof (rule emitsI)
  fix op b info b'
  assume inv: "builder_inv ng op b" and c: "rb_current_block_id b \<in> op" and emit: "emit_min_repititions E mn b = Some (info, b')"
  let ?c = "rb_current_block_id b"
  have none: "captures_ok ng (captures (no_captures False))" by (simp add: no_captures_def)
  consider "mn = 0" | "mn \<noteq> 0" "mn \<le> MAX_INLINED_REPITITIONS" | "\<not> mn \<le> MAX_INLINED_REPITITIONS" "mn > 0xFFFFFFFF"
    | "mn \<noteq> 0" "\<not> mn \<le> MAX_INLINED_REPITITIONS" "\<not> mn > 0xFFFFFFFF" by blast
  then show "moved ng op b b' \<and> captures_ok ng (captures info)"
  proof cases
    case 1
    then show ?thesis using emit moved_refl [OF inv c] none by (simp add: emit_min_repititions_def)
  next
    case 2
    then show ?thesis using emit emitsD [OF emits_times [OF E none] inv c] by (simp add: emit_min_repititions_def)
  next
    case 3
    then have fail: "emit Fail b = Some b'" "info = no_captures False"
      using emit by (auto simp: emit_min_repititions_def bind_eq_Some_iff MAX_INLINED_REPITITIONS_def)
    have "moved ng op b b'" by (rule movesD [OF writes_moves [OF writes_emit [OF good_simple(5)]] inv c fail(1)])
    then show ?thesis using none fail(2) by simp
  next
    case 4
    obtain l b1 where b1: "new_block b = (l, b1)" by fastforce
    obtain e b2 where b2: "new_block b1 = (e, b2)" by fastforce
    obtain b3 i b4 b5 b6 b7 where b3: "emit_jump l b2 = Some b3" and b4: "next_loop_register (set_current_block l b3) = (i, b4)"
      and b5: "emit (Loop i (ucast mn) (of_nat e)) b4 = Some b5" and b6: "E b5 = Some (info, b6)" and b7: "emit_jump l b6 = Some b7"
      and b': "b' = set_current_block e (set_current_block (rb_current_block_id b3) b7)"
      using emit 4 b1 b2 by (auto simp: emit_min_repititions_def in_block_def bind_eq_Some_iff next_loop_register_def)
    note n1 = new_block_inv [OF inv b1]
    note n2 = new_block_inv [OF n1(1) b2]
    have l: "l < length (rb_blocks b2)" using n1(4,5) n2(4) by simp
    note j = emit_jump_inv [OF n2(1) b3 l]
    have le: "l < length (rb_blocks b3)" "e < length (rb_blocks b3)" using l n2(4,5) extends_length [OF j(2)] by simp_all
    note body = loop_body [OF E j(1) le b4 b5 b6]
    have "l < length (rb_blocks b6)" using le extends_length [OF body(2)] by simp
    note close = emit_jump_inv [OF body(1) b7 this]
    have "extends b2 b7" using extends_trans [OF j(2) extends_trans [OF body(2) close(2)]] .
    then have ext: "extends b b7" and e: "e < length (rb_blocks b7)"
      using extends_trans [OF extends_trans [OF n1(2) n2(2)]] n2(4,5) extends_length by fastforce+
    have "moved ng op b (set_current_block e b7)"
      using n1(3-5) n2(3-5) by (intro moved_to [OF close(1) _ e _ inv_range [OF inv] ext refl]) auto
    then show ?thesis using body(3) by (simp add: b' set_current_block_def)
  qed
qed

lemma emits_optional:
  assumes E: "emits ng E"
  shows "builder_inv ng op b \<Longrightarrow> rb_current_block_id b \<in> op \<Longrightarrow> j < length (rb_blocks b) \<Longrightarrow> captures_ok ng caps \<Longrightarrow>
    (\<forall>p. progress = Some p \<longrightarrow> good ng b (Progress p)) \<Longrightarrow>
    emit_optional_repititions E greedy inside j progress caps n i b = Some (caps', b') \<Longrightarrow>
    moved ng op b b' \<and> captures_ok ng caps'"
proof (induction n arbitrary: op b progress caps i)
  case 0
  then show ?case using moved_refl by simp
next
  case (Suc n)
  note inv = Suc.prems(1) and c = Suc.prems(2) and j = Suc.prems(3)
  let ?c = "rb_current_block_id b"
  obtain t b1 where b1: "new_block b = (t, b1)" by fastforce
  obtain info b2 progress' b3 b4 where b2: "E (set_current_block t b1) = Some (info, b2)"
    and b3: "(if \<not> always_consumes info then
        (let (p, b) = (case progress of Some p \<Rightarrow> (p, b2) | None \<Rightarrow> new_progress_point b2) in emit (Progress p) b \<bind> (\<lambda>b. Some (Some p, b)))
      else Some (progress, b2)) = Some (progress', b3)"
    and b4: "in_block_do ?c (emit_enter_branch greedy (i = 0 \<and> inside) info t j) b3 = Some b4"
    and rest: "emit_optional_repititions E greedy inside j progress' (captures info) n (i + 1) b4 = Some (caps', b')"
  proof -
    note emit1 = Suc.prems(6) [unfolded emit_optional_repititions.simps Let_def b1 prod.case]
    obtain info b2 where 1: "E (set_current_block t b1) = Some (info, b2)" using emit1 by (elim bind_SomeE case_prodE2') simp
    note emit2 = emit1 [unfolded 1 bind.bind_lunit prod.case]
    obtain progress' b3 where 2: "(if \<not> always_consumes info then
        (case (case progress of None \<Rightarrow> new_progress_point b2 | Some p \<Rightarrow> (p, b2)) of (p, b) \<Rightarrow> emit (Progress p) b \<bind> (\<lambda>b. Some (Some p, b)))
      else Some (progress, b2)) = Some (progress', b3)" using emit2 by (elim bind_SomeE case_prodE2') simp
    note emit3 = emit2 [unfolded 2 bind.bind_lunit prod.case]
    obtain b4 where 3: "in_block_do ?c (emit_enter_branch greedy (i = 0 \<and> inside) info t j) b3 = Some b4" using emit3 by (elim bind_SomeE)
    show thesis by (rule that [OF 1 _ 3 emit3 [unfolded 3 bind.bind_lunit]]) (simp only: Let_def 2)
  qed
  note new = new_block_inv [OF inv b1]
  have E': "moved ng (insert t op) (set_current_block t b1) b2 \<and> captures_ok ng (captures info)"
    using new(1) by (intro emitsD [OF E _ _ b2]) (simp_all add: set_current_block_def)
  note m = movedD [OF E' [THEN conjunct1]]
  have ext2: "extends b1 b2" using m(2) by (simp add: set_current_block_def)
  let ?X = "insert (rb_current_block_id b2) (insert t op - {t})"
  have X: "builder_inv ng ?X b2" using m(1) by (simp add: set_current_block_def)
  have i3: "builder_inv ng ?X b3 \<and> extends b2 b3 \<and> rb_current_block_id b3 = rb_current_block_id b2 \<and> (\<forall>p. progress' = Some p \<longrightarrow> good ng b3 (Progress p))"
  proof (cases "always_consumes info")
    case True
    then show ?thesis using b3 X Suc.prems(5) good_extends [OF _ extends_trans [OF new(2) ext2]] by simp
  next
    case False
    show ?thesis
    proof (cases progress)
      case None
      obtain p b21 where p: "new_progress_point b2 = (p, b21)" by fastforce
      then have "rb_current_block_id b21 = rb_current_block_id b2" by (auto simp: new_progress_point_def)
      then have "emit (Progress p) (set_current_block (rb_current_block_id b2) b21) = Some b3" "progress' = Some p"
        using b3 False None p by (auto simp: bind_eq_Some_iff) (metis set_current_same)
      then show ?thesis using emit_new_progress [OF X p] by simp
    next
      case (Some p)
      then have e: "emit (Progress p) b2 = Some b3" "progress' = Some p" using b3 False by (auto simp: bind_eq_Some_iff)
      have good: "good ng b2 (Progress p)" using Suc.prems(5) Some good_extends [OF _ extends_trans [OF new(2) ext2]] by blast
      note e' = emit_inv [OF X e(1) good]
      then show ?thesis using e(2) good_extends [OF good e'(2)] by simp
    qed
  qed
  have ext3: "extends b1 b3" using extends_trans [OF ext2] i3 by blast
  have tj: "t < length (rb_blocks b3)" "j < length (rb_blocks b3)" using new(4,5) j extends_length [OF ext3] by simp_all
  note i4 = in_block_enter_branch [OF i3 [THEN conjunct1] b4 tj E' [THEN conjunct2]]
  let ?d = "rb_current_block_id b4"
  have d: "?d = rb_current_block_id b2" using i4(3) i3 by simp
  have ext4: "extends b b4" using extends_trans [OF new(2) extends_trans [OF ext3 i4(2)]] .
  have dnew: "length (rb_blocks b) \<le> ?d" using m(3) d new(4,5) by (auto simp: set_current_block_def)
  have moved: "moved ng op b b4"
  proof -
    have "?d < length (rb_blocks b4)" using inv_range [OF i3 [THEN conjunct1]] d extends_length [OF i4(2)] by auto
    then have "moved ng op b (set_current_block ?d b4)"
      using d new(5) dnew inv_range [OF inv] by (intro moved_to [OF i4(1) _ _ dnew _ ext4 refl]) auto
    then show ?thesis by simp
  qed
  have "moved ng (insert ?d (op - {?c})) b4 b' \<and> captures_ok ng caps'"
  proof (rule Suc.IH [OF movedD(1) [OF moved] insertI1 _ E' [THEN conjunct2] _ rest])
    show "j < length (rb_blocks b4)" using tj(2) extends_length [OF i4(2)] by simp
    show "\<forall>p. progress' = Some p \<longrightarrow> good ng b4 (Progress p)" using i3 good_extends [OF _ i4(2)] by blast
  qed
  then show ?case using moved_trans [OF moved _ inv_range [OF inv]] by blast
qed

lemma optional_loop_inv:
  assumes E: "emits ng E" and inv: "builder_inv ng op b" and j: "j < length (rb_blocks b)"
    and emit: "emit_optional_loop E greedy clears j n b = Some (caps, b')"
  shows "builder_inv ng (op - {rb_current_block_id b}) b' \<and> extends b b' \<and> captures_ok ng caps"
proof -
  let ?c = "rb_current_block_id b"
  obtain l b1 where b1: "new_block b = (l, b1)" by fastforce
  obtain i b2 b3 info b4 b5 b6 where b2: "next_loop_register (set_current_block l b1) = (i, b2)"
    and b3: "emit (Loop i (ucast n) (of_nat j)) b2 = Some b3" and b4: "E b3 = Some (info, b4)" and b5: "emit_progress_check info b4 = Some b5"
    and b6: "emit_quantifier_branch greedy l j b5 = Some b6"
    and b': "emit_enter_branch greedy clears info l j (set_current_block ?c (set_current_block (rb_current_block_id b1) b6)) = Some b'"
    and caps: "caps = captures info"
    using emit b1 by (auto simp: emit_optional_loop_def in_block_def bind_eq_Some_iff next_loop_register_def Let_def)
  note new = new_block_inv [OF inv b1]
  have lj: "l < length (rb_blocks b1)" "j < length (rb_blocks b1)" using new(4,5) j by simp_all
  note body = loop_body [OF E new(1) lj b2 b3 b4]
  note w = writesD [OF writes_progress_check body(1) insertI1 b5]
  have ext5: "extends b1 b5" using extends_trans [OF body(2) w(3)] .
  have lj5: "l < length (rb_blocks b5)" "j < length (rb_blocks b5)" using lj extends_length [OF ext5] by simp_all
  note q = quantifier_branch_inv [OF w(1) b6 lj5]
  have "builder_inv ng (insert (rb_current_block_id b4) (insert l op - {l}) - {rb_current_block_id b5} - {?c}) b' \<and> extends b6 b'"
    using enter_branch_inv [OF _ b' _ _ body(3), of "insert (rb_current_block_id b4) (insert l op - {l}) - {rb_current_block_id b5}"]
      q lj5 extends_length [OF q(2)] by (simp add: set_current_block_def)
  then have inv': "builder_inv ng (insert (rb_current_block_id b4) (insert l op - {l}) - {rb_current_block_id b5} - {?c}) b'" "extends b6 b'" by blast+
  have ext: "extends b b'" using extends_trans [OF new(2) extends_trans [OF ext5 extends_trans [OF q(2) inv'(2)]]] .
  have "builder_inv ng (op - {?c}) b'"
    using inv_range [OF inv] w(2) by (intro inv_shrink [OF inv'(1) _ _ ext]) auto
  then show ?thesis using ext body(3) caps by blast
qed

lemma unbounded_inv:
  assumes E: "emits ng E" and inv: "builder_inv ng op b"
    and emit: "emit_unbounded E greedy inside b = Some (caps, b')"
  shows "moved ng op b b' \<and> captures_ok ng caps"
proof -
  let ?c = "rb_current_block_id b"
  obtain t b1 where b1: "new_block b = (t, b1)" by fastforce
  obtain j b2 where b2: "new_block b1 = (j, b2)" by fastforce
  obtain info b3 b4 b5 b6 where b3: "E (set_current_block t b2) = Some (info, b3)"
    and b4: "in_block_do (rb_current_block_id b2) (emit_enter_branch greedy inside info t j) b3 = Some b4"
    and b5: "emit_progress_check info b4 = Some b5" and b6: "emit_quantifier_branch greedy t j b5 = Some b6"
    and b': "b' = set_current_block j b6" and caps: "caps = captures info"
    using emit b1 b2 by (auto simp: emit_unbounded_def bind_eq_Some_iff Let_def)
  note n1 = new_block_inv [OF inv b1]
  note n2 = new_block_inv [OF n1(1) b2]
  have E': "moved ng (insert j (insert t op)) (set_current_block t b2) b3 \<and> captures_ok ng (captures info)"
    using n2(1) by (intro emitsD [OF E _ _ b3]) (simp_all add: set_current_block_def)
  note m = movedD [OF E' [THEN conjunct1]]
  have ext3: "extends b2 b3" using m(2) by (simp add: set_current_block_def)
  have tj: "t < length (rb_blocks b3)" "j < length (rb_blocks b3)" using n1(4,5) n2(4,5) extends_length [OF ext3] by simp_all
  note i4 = in_block_enter_branch [OF m(1) b4 tj E' [THEN conjunct2]]
  have fresh: "rb_current_block_id b3 \<noteq> ?c \<or> ?c \<notin> op" using m(3) n1(4,5) n2(4) inv_range [OF inv] by (auto simp: set_current_block_def)
  have "rb_current_block_id b4 < length (rb_blocks b4)" using i4(2,3) inv_range [OF m(1)] extends_length [OF i4(2)] by auto
  note i4' = inv_insert [OF i4(1) this]
  note w = writesD [OF writes_progress_check i4' insertI1 b5]
  have ext5: "extends b3 b5" using extends_trans [OF i4(2) w(3)] .
  have tj5: "t < length (rb_blocks b5)" "j < length (rb_blocks b5)" using tj extends_length [OF ext5] by simp_all
  note q = quantifier_branch_inv [OF w(1) b6 tj5]
  have ext: "extends b b6" using extends_trans [OF n1(2) extends_trans [OF n2(2) extends_trans [OF ext3 extends_trans [OF ext5 q(2)]]]] .
  have "moved ng op b (set_current_block j b6)"
  proof (rule moved_to [OF q(1) _ _ _ inv_range [OF inv] ext refl])
    show "j < length (rb_blocks b6)" using tj5(2) extends_length [OF q(2)] by simp
    show "length (rb_blocks b) \<le> j" using n1(4) n2(5) by simp
  qed (use n1(3) n2(3) w(2) i4(3) in \<open>auto simp: set_current_block_def\<close>)
  then show ?thesis using E' by (simp add: b' caps)
qed

lemma remaining_inv:
  assumes E: "emits ng E" and inv: "builder_inv ng op b" and c: "rb_current_block_id b \<in> op" and info: "captures_ok ng (captures info)"
    and emit: "emit_remaining E mn mx greedy inside info b = Some (caps, b')"
  shows "moved ng op b b' \<and> (\<forall>cs. caps = Some cs \<longrightarrow> captures_ok ng cs)"
proof (cases mx)
  case None
  then obtain cs where "emit_unbounded E greedy inside b = Some (cs, b')" "caps = Some cs"
    using emit by (auto simp: emit_remaining_def bind_eq_Some_iff)
  then show ?thesis using unbounded_inv [OF E inv] by blast
next
  case (Some m)
  show ?thesis
  proof (cases "m - mn = 0")
    case True
    then have "b' = b" "caps = None" using emit Some by (auto simp: emit_remaining_def Let_def)
    then show ?thesis using moved_refl [OF inv c] by simp
  next
    case False
    obtain j b1 where b1: "new_block b = (j, b1)" by fastforce
    note new = new_block_inv [OF inv b1]
    let ?body = "if m - mn \<le> MAX_INLINED_REPITITIONS then
        emit_optional_repititions E greedy inside j None (captures info) (unat (m - mn)) mn b1 \<bind>
          (\<lambda>(caps, b). emit_jump j b \<bind> (\<lambda>b. Some (caps, b)))
      else if m - mn > 0xFFFFFFFF then emit Fail b1 \<bind> (\<lambda>b. Some (captures info, b))
      else emit_optional_loop E greedy (mn = 0 \<and> inside) j (m - mn) b1"
    obtain cs b2 where b2: "?body = Some (cs, b2)" and b': "b' = set_current_block j b2" "caps = Some cs"
    proof -
      have "?body \<bind> (\<lambda>(caps, b). Some (Some caps, set_current_block j b)) = Some (caps, b')"
        using emit unfolding emit_remaining_def Some option.case Let_def b1 prod.case if_not_P [OF False] .
      then show thesis by (elim bind_SomeE case_prodE2') (rule that, auto)
    qed
    have c1: "rb_current_block_id b1 \<in> insert j op" and j: "j < length (rb_blocks b1)" "length (rb_blocks b) \<le> j"
      using new c by simp_all
    have "\<exists>X. builder_inv ng X b2 \<and> X \<subseteq> insert j (op - {rb_current_block_id b}) \<and> extends b1 b2 \<and> captures_ok ng cs"
    proof -
      consider "m - mn \<le> MAX_INLINED_REPITITIONS" | "\<not> m - mn \<le> MAX_INLINED_REPITITIONS" "m - mn > 0xFFFFFFFF"
        | "\<not> m - mn \<le> MAX_INLINED_REPITITIONS" "\<not> m - mn > 0xFFFFFFFF" by blast
      then show ?thesis
      proof cases
        case 1
        then obtain b3 where b3: "emit_optional_repititions E greedy inside j None (captures info) (unat (m - mn)) mn b1 = Some (cs, b3)"
            "emit_jump j b3 = Some b2"
          using b2 by (auto simp: bind_eq_Some_iff)
        have o1: "moved ng (insert j op) b1 b3 \<and> captures_ok ng cs"
          by (rule emits_optional [OF E new(1) c1 j(1) info _ b3(1)]) simp
        note m = movedD [OF o1 [THEN conjunct1]]
        have "j < length (rb_blocks b3)" using j extends_length [OF m(2)] by simp
        note jump = emit_jump_inv [OF m(1) b3(2) this]
        show ?thesis
          using o1 new(3) extends_trans [OF m(2) jump(2)] jump(1)
          by (intro exI [of _ "insert (rb_current_block_id b3) (insert j op - {rb_current_block_id b1}) - {rb_current_block_id b3}"]) auto
      next
        case 2
        then have fail: "emit Fail b1 = Some b2" "cs = captures info" using b2 by (auto simp: bind_eq_Some_iff)
        note f = emit_inv [OF new(1) fail(1) good_simple(5)]
        then show ?thesis using fail(2) info new(3) by (intro exI [of _ "insert j op - {rb_current_block_id b1}"]) auto
      next
        case 3
        then have loop: "emit_optional_loop E greedy (mn = 0 \<and> inside) j (m - mn) b1 = Some (cs, b2)" using b2 by simp
        have "builder_inv ng (insert j op - {rb_current_block_id b1}) b2 \<and> extends b1 b2 \<and> captures_ok ng cs"
          by (rule optional_loop_inv [OF E new(1) j(1) loop])
        then show ?thesis using new(3) by (intro exI [of _ "insert j op - {rb_current_block_id b1}"]) auto
      qed
    qed
    then obtain X where X: "builder_inv ng X b2" "X \<subseteq> insert j (op - {rb_current_block_id b})" "extends b1 b2" "captures_ok ng cs" by blast
    have "j < length (rb_blocks b2)" using j extends_length [OF X(3)] by simp
    then have "moved ng op b (set_current_block j b2)"
      by (rule moved_to [OF X(1,2) _ j(2) inv_range [OF inv] extends_trans [OF new(2) X(3)] refl])
    then show ?thesis using X(4) b' by simp
  qed
qed

lemma zero_length_check_inv:
  assumes inv: "builder_inv ng op b" and c: "rb_current_block_id b \<in> op" and p: "p + 1 < length (rb_blocks b)"
    and caps: "captures_ok ng (captures info)" and emit: "emit_zero_length_check p info b = Some b'"
  shows "moved ng op b b'"
proof -
  let ?c = "rb_current_block_id b"
  obtain i b1 where b1: "new_progress_point b = (i, b1)" by fastforce
  have cur1: "rb_current_block_id b1 = ?c" using b1 by (auto simp: new_progress_point_def)
  obtain b2 where b2: "emit (Progress i) (set_current_block p b1) = Some b2"
    using emit b1 by (auto simp: emit_zero_length_check_def in_block_do_def bind_eq_Some_iff)
  define b3 where "b3 = set_current_block ?c b2"
  obtain k b4 where b4: "new_block b3 = (k, b4)" by fastforce
  obtain l b5 where b5: "new_block b4 = (l, b5)" by fastforce
  obtain j b6 where b6: "new_block b5 = (j, b6)" by fastforce
  obtain b7 b8 b9 b10 where b7: "emit_branch k l b6 = Some b7" and b8: "emit (Progress i) (set_current_block k b7) = Some b8"
    and b9: "emit_jump j b8 = Some b9"
    and b10: "emit_clear_captures (captures info) (set_current_block l (set_current_block (rb_current_block_id b7) b9)) \<bind> emit_jump j = Some b10"
    and b': "b' = set_current_block j b10"
    using emit b1 b2 b4 [unfolded b3_def] b5 b6 cur1
    by (auto simp: emit_zero_length_check_def in_block_do_def bind_eq_Some_iff set_current_block_def)
  note e = emit_new_progress [OF inv b1 b2 disjI2 [OF p]]
  have i3: "builder_inv ng op b3" "extends b b3" "good ng b3 (Progress i)" "rb_current_block_id b3 = ?c"
    using e by (simp_all add: b3_def set_current_block_def good_def total_words_def)
  note n4 = new_block_inv [OF i3(1) b4] note n5 = new_block_inv [OF n4(1) b5] note n6 = new_block_inv [OF n5(1) b6]
  have ids: "k < length (rb_blocks b6)" "l < length (rb_blocks b6)" "j < length (rb_blocks b6)" using n4(4,5) n5(4,5) n6(4,5) by simp_all
  note br = emit_branch_inv [OF n6(1) b7 ids(1,2)]
  have ext7: "extends b3 b7" using extends_trans [OF n4(2) extends_trans [OF n5(2) extends_trans [OF n6(2) br(2)]]] .
  let ?X = "insert j (insert l (insert k op)) - {rb_current_block_id b6}"
  have k7: "k < length (rb_blocks b7)" using ids extends_length [OF br(2)] by simp
  have inv7: "builder_inv ng (insert k ?X) (set_current_block k b7)" using inv_insert [OF br(1) k7] by (simp add: set_current_block_def)
  have "good ng (set_current_block k b7) (Progress i)" using good_extends [OF i3(3) ext7] by (simp add: set_current_block_def good_def total_words_def)
  note p8 = emit_inv [OF inv7 b8 this]
  have inv8: "builder_inv ng (insert k ?X) b8" "extends b7 b8" "rb_current_block_id b8 = k" using p8 by (simp_all add: set_current_block_def)
  have "j < length (rb_blocks b8)" using ids extends_length [OF extends_trans [OF br(2) inv8(2)]] by simp
  note p9 = emit_jump_inv [OF inv8(1) b9 this]
  have N: "length (rb_blocks b6) \<le> length (rb_blocks b9)" using extends_length [OF extends_trans [OF br(2) extends_trans [OF inv8(2) p9(2)]]] .
  have cl: "closes ng (length (rb_blocks b6)) l (\<lambda>b. emit_clear_captures (captures info) (set_current_block l b) \<bind> emit_jump j)"
    using ids by (intro closes_write_jump writes_clear_captures caps)
  have "emit_clear_captures (captures info) (set_current_block l b9) \<bind> emit_jump j = Some b10" using b10 by (simp add: set_current_block_def)
  note c10 = closesD [OF cl p9(1) N this]
  have ext: "extends b b10"
    using extends_trans [OF i3(2) extends_trans [OF ext7 extends_trans [OF inv8(2) extends_trans [OF p9(2) c10(2)]]]] .
  show ?thesis
    unfolding b'
  proof (rule moved_to [OF c10(1) _ _ _ inv_range [OF inv] ext refl])
    show "j < length (rb_blocks b10)" using ids(3) N extends_length [OF c10(2)] by simp
    show "length (rb_blocks b) \<le> j" using n4(4) n5(4) n6(5) extends_length [OF i3(2)] by simp
    show "insert k ?X - {rb_current_block_id b8} - {l} \<subseteq> insert j (op - {?c})"
      using inv8(3) n4(3) n5(3) n6(3) i3(4) by auto
  qed
qed

lemma emits_quantifier:
  assumes E: "emits ng E"
  shows "emits ng (emit_quantifier_of E mn mx greedy)"
proof (rule emitsI)
  fix op b info b'
  assume inv: "builder_inv ng op b" and c: "rb_current_block_id b \<in> op" and emit: "emit_quantifier_of E mn mx greedy b = Some (info, b')"
  let ?rep = "case mx of None \<Rightarrow> True | Some m \<Rightarrow> m > 1" and ?c = "rb_current_block_id b"
  define b0 where "b0 = (if ?rep then enter_repitition_context b else b)"
  obtain p b1 where b1: "new_block b0 = (p, b1)" by fastforce
  obtain s b2 where b2: "new_block b1 = (s, b2)" by fastforce
  obtain b3 info4 b4 caps b5 where b3: "emit_jump p b2 = Some b3"
    and b4: "emit_min_repititions E mn (set_current_block s b3) = Some (info4, b4)"
    and b5: "emit_remaining E mn mx greedy (is_in_repitition b) info4 b4 = Some (caps, b5)"
    and rest: "(case caps of None \<Rightarrow> Some (info4, if ?rep then exit_repitition_context b5 else b5)
      | Some caps \<Rightarrow> (let info = info4\<lparr>captures := caps\<rparr> in
          (if mn = 0 \<and> \<not> always_consumes info \<and> captures info \<noteq> [] then
             emit_zero_length_check p info (if ?rep then exit_repitition_context b5 else b5)
           else Some (if ?rep then exit_repitition_context b5 else b5)) \<bind> (\<lambda>b. Some (info, b)))) = Some (info, b')"
  proof -
    note emit1 = emit [unfolded emit_quantifier_of_def Let_def b0_def [symmetric] b1 prod.case b2]
    obtain b3 where 1: "emit_jump p b2 = Some b3" using emit1 by (elim bind_SomeE)
    note emit2 = emit1 [unfolded 1 bind.bind_lunit]
    obtain info4 b4 where 2: "emit_min_repititions E mn (set_current_block s b3) = Some (info4, b4)" using emit2 by (elim bind_SomeE case_prodE2') simp
    note emit3 = emit2 [unfolded 2 bind.bind_lunit prod.case]
    obtain caps b5 where 3: "emit_remaining E mn mx greedy (is_in_repitition b) info4 b4 = Some (caps, b5)" using emit3 by (elim bind_SomeE case_prodE2') simp
    show thesis by (rule that [OF 1 2 3]) (unfold Let_def, rule emit3 [unfolded 3 bind.bind_lunit prod.case])
  qed
  have inv0: "builder_inv ng op b0" "rb_current_block_id b0 = ?c" "rb_blocks b0 = rb_blocks b" "extends b b0"
    using inv by (simp_all add: b0_def enter_repitition_context_def)
  note n1 = new_block_inv [OF inv0(1) b1] note n2 = new_block_inv [OF n1(1) b2]
  have p: "p < length (rb_blocks b2)" "p + 1 < length (rb_blocks b2)" using n1(4,5) n2(4) by simp_all
  note jump = emit_jump_inv [OF n2(1) b3 p(1)]
  have p3: "p + 1 < length (rb_blocks b3)" using p(2) extends_length [OF jump(2)] by simp
  note drop = inv_drop [OF jump(1) p3]
  have ext3: "extends b b3" using extends_trans [OF inv0(4) extends_trans [OF n1(2) extends_trans [OF n2(2) jump(2)]]] .
  have m3: "moved ng op b (set_current_block s b3)"
  proof (rule moved_to [OF drop _ _ _ inv_range [OF inv] ext3 refl])
    show "s < length (rb_blocks b3)" using n2(4,5) extends_length [OF jump(2)] by simp
    show "length (rb_blocks b) \<le> s" using n1(4) n2(5) inv0(3) by simp
  qed (use n1(3) n2(3) inv0(2) in auto)
  let ?b3 = "set_current_block s b3"
  have m4: "moved ng (insert (rb_current_block_id ?b3) (op - {?c})) ?b3 b4 \<and> captures_ok ng (captures info4)"
    by (rule emitsD [OF emits_min [OF E] movedD(1) [OF m3] insertI1 b4])
  have m4': "moved ng op b b4" using moved_trans [OF m3 m4 [THEN conjunct1] inv_range [OF inv]] .
  have m5: "moved ng (insert (rb_current_block_id b4) (op - {?c})) b4 b5 \<and> (\<forall>cs. caps = Some cs \<longrightarrow> captures_ok ng cs)"
    by (rule remaining_inv [OF E movedD(1) [OF m4'] insertI1 m4 [THEN conjunct2] b5])
  define b6 where "b6 = (if ?rep then exit_repitition_context b5 else b5)"
  have m6: "moved ng op b b6"
    using moved_trans [OF m4' m5 [THEN conjunct1] inv_range [OF inv]] by (simp add: b6_def moved_def exit_repitition_context_def)
  show "moved ng op b b' \<and> captures_ok ng (captures info)"
  proof (cases caps)
    case None
    then show ?thesis using rest m6 m4 by (simp add: b6_def)
  next
    case (Some cs)
    have ok: "captures_ok ng cs" using m5 Some by blast
    have p6: "p + 1 < length (rb_blocks b6)"
    proof -
      have "extends ?b3 b5" using extends_trans [OF movedD(2) [OF m4 [THEN conjunct1]] movedD(2) [OF m5 [THEN conjunct1]]] .
      then have "length (rb_blocks b3) \<le> length (rb_blocks b5)" using extends_length by (metis extends_update(2) set_current_block_def)
      then show ?thesis using p3 by (simp add: b6_def exit_repitition_context_def)
    qed
    show ?thesis
    proof (cases "mn = 0 \<and> \<not> always_consumes info4 \<and> cs \<noteq> []")
      case True
      then have z: "emit_zero_length_check p (info4\<lparr>captures := cs\<rparr>) b6 = Some b'" "info = info4\<lparr>captures := cs\<rparr>"
        using rest Some by (auto simp: b6_def Let_def bind_eq_Some_iff)
      have "moved ng (insert (rb_current_block_id b6) (op - {?c})) b6 b'"
        using ok by (intro zero_length_check_inv [OF movedD(1) [OF m6] insertI1 p6 _ z(1)]) simp
      then show ?thesis using moved_trans [OF m6 _ inv_range [OF inv]] ok z(2) by simp
    next
      case False
      then have "b' = b6" "info = info4\<lparr>captures := cs\<rparr>" using rest Some by (auto simp: b6_def Let_def)
      then show ?thesis using m6 ok by simp
    qed
  qed
qed

end
