(* ===== verification/Regexp_Search.thy ===== *)
theory Regexp_Search
  imports Regexp_Matcher
begin

section \<open>The matcher as a search\<close>

text \<open>
  What the matcher computes, without a stack: a depth-first search over the choices of the code, in
  which every alternative starts from the registers as they were at the branch. The engine, with its
  single copy of the registers and its log of changes, computes the same. The compare register and
  the word boundary register are not logged; a failed alternative leaves them as they are, and so
  does the search.
\<close>

definition plain :: "'s match_engine \<Rightarrow> 's match_engine" where
  "plain e = e\<lparr>backtrack_stack := [], backtrack_stack_base := 0\<rparr>"

text \<open>
  A failure reports whether the compare register is reset before the next alternative, and the two
  registers that are not logged.
\<close>

datatype 's verdict = Matched "'s match_engine" | Failed bool bool bool

fun search ::
  "icu_case \<Rightarrow> compiled_regexp \<Rightarrow> 's stream_ops \<Rightarrow> nat \<Rightarrow> bool \<Rightarrow> 's match_engine \<Rightarrow> 's verdict outcome" where
  "search icu rx ops 0 direction e = Out_Of_Fuel"
| "search icu rx ops (Suc n) direction e =
     (case re_read (cr_instructions rx) (instruction_index e) of
        None \<Rightarrow> Panicked
      | Some (Branch first_branch second_branch) \<Rightarrow>
          (case search icu rx ops n direction (set_next_instruction first_branch e) of
             Done (Failed reset c w) \<Rightarrow>
               search icu rx ops n direction
                 (set_next_instruction second_branch (e\<lparr>compare_register := c \<and> \<not> reset, word_boundary_register := w\<rparr>))
           | other \<Rightarrow> other)
      | Some (Lookaround is_ahead is_positive body) \<Rightarrow>
          (case search icu rx ops n is_ahead (no_advance_read_code_point_in_direction ops is_ahead (set_next_instruction body e)) of
             Done (Matched e1) \<Rightarrow>
               if is_positive then
                 search icu rx ops n direction
                   (e1\<lparr>string_lexer := string_lexer e,
                       instruction_index := instruction_index e + re_size (Lookaround is_ahead is_positive body)\<rparr>)
               else Done (Failed False (compare_register e1) (word_boundary_register e1))
           | Done (Failed reset c w) \<Rightarrow>
               if is_positive then Done (Failed False c w)
               else
                 search icu rx ops n direction
                   (e\<lparr>compare_register := c, word_boundary_register := w,
                      instruction_index := instruction_index e + re_size (Lookaround is_ahead is_positive body)\<rparr>)
           | other \<Rightarrow> other)
      | Some instr \<Rightarrow>
          (case execute_instruction icu rx ops direction instr e of
             None \<Rightarrow> Panicked
           | Some Accepted \<Rightarrow> Done (Matched e)
           | Some (Next e1) \<Rightarrow> search icu rx ops n direction (plain e1)
           | Some (Retry reset e1) \<Rightarrow> Done (Failed reset (compare_register e1) (word_boundary_register e1))))"

subsection \<open>Undoing logged changes\<close>

type_synonym registers = "u32 list \<times> u32 list \<times> nat list"

definition regs :: "'s match_engine \<Rightarrow> registers" where
  "regs e = (capture_points e, progress_points e, loop_registers e)"

definition set_regs :: "registers \<Rightarrow> 's match_engine \<Rightarrow> 's match_engine" where
  "set_regs r e = e\<lparr>capture_points := fst r, progress_points := fst (snd r), loop_registers := snd (snd r)\<rparr>"

fun undo1 :: "backtrack_entry \<Rightarrow> registers \<Rightarrow> registers option" where
  "undo1 (CapturePoint i v) (c, p, l) = (if unat i < length c then Some (c[unat i := v], p, l) else None)"
| "undo1 (ProgressPoint i v) (c, p, l) = (if unat i < length p then Some (c, p[unat i := v], l) else None)"
| "undo1 (LoopRegister i v) (c, p, l) = (if unat i < length l then Some (c, p, l[unat i := v]) else None)"
| "undo1 _ r = Some r"

primrec undo :: "backtrack_entry list \<Rightarrow> registers \<Rightarrow> registers option" where
  "undo [] r = Some r"
| "undo (entry # entries) r = undo1 entry r \<bind> undo entries"

lemma undo_append: "undo (xs @ ys) r = undo xs r \<bind> undo ys"
proof (induction xs arbitrary: r)
  case (Cons x xs)
  then show ?case by (cases "undo1 x r") simp_all
qed simp

lemma restore_register_undo1: "restore_register entry e = map_option (\<lambda>r. set_regs r e) (undo1 entry (regs e))"
  by (cases entry)
    (simp_all add: restore_register_def set_capture_point_def set_progress_point_def set_loop_register_def regs_def set_regs_def)

lemma regs_simps [simp]:
  "regs (set_regs r e) = r" "set_regs r (set_regs r' e) = set_regs r e" "set_regs (regs e) e = e"
  "regs (e\<lparr>backtrack_stack := st\<rparr>) = regs e" "regs (e\<lparr>backtrack_stack_base := b\<rparr>) = regs e"
  "regs (e\<lparr>string_lexer := s\<rparr>) = regs e" "regs (e\<lparr>instruction_index := i\<rparr>) = regs e"
  "regs (e\<lparr>compare_register := c\<rparr>) = regs e" "regs (e\<lparr>word_boundary_register := c\<rparr>) = regs e"
  "backtrack_stack (set_regs r e) = backtrack_stack e" "backtrack_stack_base (set_regs r e) = backtrack_stack_base e"
  "string_lexer (set_regs r e) = string_lexer e" "instruction_index (set_regs r e) = instruction_index e"
  "compare_register (set_regs r e) = compare_register e" "word_boundary_register (set_regs r e) = word_boundary_register e"
  by (simp_all add: regs_def set_regs_def)

lemma backtrack_to_undo:
  assumes "backtrack_stack e = entries @ rest"
  shows "backtrack_to_stack_size (length rest) e =
           map_option (\<lambda>r. (set_regs r e)\<lparr>backtrack_stack := rest\<rparr>) (undo entries (regs e))"
  using assms
proof (induction entries arbitrary: e)
  case Nil
  then have "e = e\<lparr>backtrack_stack := rest\<rparr>" by simp
  then show ?case using Nil by (simp add: backtrack_to_stack_size.simps)
next
  case (Cons entry entries)
  show ?case
  proof (cases "undo1 entry (regs e)")
    case None
    then show ?thesis using Cons.prems by (subst backtrack_to_stack_size.simps) (simp add: restore_register_undo1)
  next
    case (Some r)
    have "backtrack_to_stack_size (length rest) (set_regs r (e\<lparr>backtrack_stack := entries @ rest\<rparr>)) =
        map_option (\<lambda>r'. (set_regs r' (set_regs r (e\<lparr>backtrack_stack := entries @ rest\<rparr>)))\<lparr>backtrack_stack := rest\<rparr>)
          (undo entries r)"
      by (subst Cons.IH) simp_all
    moreover have "(set_regs r' (e\<lparr>backtrack_stack := entries @ rest\<rparr>))\<lparr>backtrack_stack := rest\<rparr> =
        (set_regs r' e)\<lparr>backtrack_stack := rest\<rparr>" for r'
      by (simp add: set_regs_def)
    ultimately show ?thesis
      using Some Cons.prems by (subst backtrack_to_stack_size.simps) (simp add: restore_register_undo1)
  qed
qed

subsection \<open>Instructions with and without a log\<close>

definition reg_entry :: "backtrack_entry \<Rightarrow> bool" where
  "reg_entry entry = (case entry of RestoreState _ _ \<Rightarrow> False | RestoreBacktrackStack _ \<Rightarrow> False | _ \<Rightarrow> True)"

text \<open>\<open>e'\<close> is \<open>e\<close> after at most one logged change of a register.\<close>

definition logged :: "'s match_engine \<Rightarrow> 's match_engine \<Rightarrow> bool" where
  "logged e e' \<longleftrightarrow> backtrack_stack_base e' = backtrack_stack_base e \<and>
     (backtrack_stack e' = backtrack_stack e \<and> regs e' = regs e \<or>
      (\<exists>entry. reg_entry entry \<and> backtrack_stack e' = entry # backtrack_stack e \<and> undo1 entry (regs e') = Some (regs e)))"

lemma logged_undo: "logged e e' \<Longrightarrow> \<exists>entries. backtrack_stack e' = entries @ backtrack_stack e \<and> undo entries (regs e') = Some (regs e)"
  unfolding logged_def
proof (elim conjE disjE exE)
  assume "backtrack_stack e' = backtrack_stack e" "regs e' = regs e"
  then show ?thesis by (intro exI [of _ "[]"]) simp
next
  fix entry
  assume "backtrack_stack e' = entry # backtrack_stack e" "undo1 entry (regs e') = Some (regs e)"
  then show ?thesis by (intro exI [of _ "[entry]"]) simp
qed

text \<open>Two engines that differ in what backtracking does not read.\<close>

definition agree :: "'s match_engine \<Rightarrow> 's match_engine \<Rightarrow> bool" where
  "agree e e' \<longleftrightarrow> regs e' = regs e \<and> backtrack_stack e' = backtrack_stack e \<and> backtrack_stack_base e' = backtrack_stack_base e"

lemma logged_backtrack:
  assumes "logged e e1" "agree e1 e2" "backtrack_stack_base e \<le> length (backtrack_stack e)"
  shows "\<exists>e3. backtrack ops e2 = backtrack ops e3 \<and> agree e e3 \<and> compare_register e3 = compare_register e2 \<and>
           word_boundary_register e3 = word_boundary_register e2 \<and> string_lexer e3 = string_lexer e2"
  using assms(1) unfolding logged_def
proof (elim conjE disjE exE)
  assume "backtrack_stack e1 = backtrack_stack e" "regs e1 = regs e" "backtrack_stack_base e1 = backtrack_stack_base e"
  then show ?thesis using assms(2) by (intro exI [of _ e2]) (simp add: agree_def)
next
  fix entry
  assume *: "reg_entry entry" "backtrack_stack e1 = entry # backtrack_stack e" "undo1 entry (regs e1) = Some (regs e)"
    "backtrack_stack_base e1 = backtrack_stack_base e"
  let ?e3 = "set_regs (regs e) (e2\<lparr>backtrack_stack := backtrack_stack e\<rparr>)"
  have "backtrack ops e2 = backtrack ops ?e3"
    using * assms(2,3) by (subst backtrack.simps) (cases entry; simp add: reg_entry_def agree_def restore_register_undo1)
  moreover have "agree e ?e3" using * assms(2) by (simp add: agree_def)
  ultimately show ?thesis by (intro exI [of _ ?e3]) simp
qed

lemmas push_defs = push_capture_point_def push_progress_point_def push_loop_register_def push_entry_def
  get_capture_point_def set_capture_point_def get_progress_point_def set_progress_point_def get_loop_register_def set_loop_register_def

lemma plain_simps [simp]:
  "plain (plain e) = plain e" "regs (plain e) = regs e" "backtrack_stack (plain e) = []" "backtrack_stack_base (plain e) = 0"
  "string_lexer (plain e) = string_lexer e" "instruction_index (plain e) = instruction_index e"
  "compare_register (plain e) = compare_register e" "word_boundary_register (plain e) = word_boundary_register e"
  "capture_points (plain e) = capture_points e" "progress_points (plain e) = progress_points e"
  "loop_registers (plain e) = loop_registers e"
  "plain (e\<lparr>string_lexer := s\<rparr>) = (plain e)\<lparr>string_lexer := s\<rparr>" "plain (e\<lparr>instruction_index := i\<rparr>) = (plain e)\<lparr>instruction_index := i\<rparr>"
  "plain (e\<lparr>compare_register := c\<rparr>) = (plain e)\<lparr>compare_register := c\<rparr>"
  "plain (e\<lparr>word_boundary_register := c\<rparr>) = (plain e)\<lparr>word_boundary_register := c\<rparr>"
  "plain (e\<lparr>backtrack_stack := st\<rparr>) = plain e" "plain (e\<lparr>backtrack_stack_base := b\<rparr>) = plain e"
  by (simp_all add: plain_def regs_def)

text \<open>
  An instruction on an engine, with \<open>s\<close> the flow of the same instruction without the
  stack below: the same flow, with the changes logged.
\<close>

fun flow_logged :: "'s match_engine \<Rightarrow> 's flow option \<Rightarrow> 's flow option \<Rightarrow> bool" where
  "flow_logged e None r \<longleftrightarrow> r = None"
| "flow_logged e (Some Accepted) r \<longleftrightarrow> r = Some Accepted"
| "flow_logged e (Some (Next s)) r \<longleftrightarrow> (\<exists>e'. r = Some (Next e') \<and> plain e' = plain s \<and> logged e e')"
| "flow_logged e (Some (Retry reset s)) r \<longleftrightarrow> (\<exists>e'. r = Some (Retry reset e') \<and> plain e' = plain s \<and> agree e e')"

lemma logged_update [simp]:
  "logged e (advance_instruction instr e') = logged e e'" "logged e (set_next_instruction i e') = logged e e'"
  "logged e (reset_compare_register e') = logged e e'"
  by (simp_all add: logged_def advance_instruction_def set_next_instruction_def reset_compare_register_def)

lemma plain_update [simp]:
  "plain (advance_instruction instr e) = advance_instruction instr (plain e)"
  "plain (set_next_instruction i e) = set_next_instruction i (plain e)"
  "plain (reset_compare_register e) = reset_compare_register (plain e)"
  by (simp_all add: advance_instruction_def set_next_instruction_def reset_compare_register_def)

lemma agree_logged: "agree e e' \<Longrightarrow> logged e e'"
  by (simp add: agree_def logged_def)

lemma agree_refl [simp]: "agree e e"
  by (simp add: agree_def)

lemma push_logged:
  "rel_option (\<lambda>s e'. plain e' = plain s \<and> logged e e') (push_capture_point i v (plain e)) (push_capture_point i v e)"
  "rel_option (\<lambda>s e'. plain e' = plain s \<and> logged e e') (push_progress_point i v (plain e)) (push_progress_point i v e)"
  "rel_option (\<lambda>s e'. plain e' = plain s \<and> logged e e') (push_loop_register i w (plain e)) (push_loop_register i w e)"
  by (auto simp: push_defs logged_def reg_entry_def regs_def plain_def)

lemma advance_direction_plain:
  "rel_option (\<lambda>s e'. s = plain e' \<and> agree e e')
     (advance_code_point_in_direction ops direction (plain e)) (advance_code_point_in_direction ops direction e)"
  by (cases "so_advance_backwards_code_point ops (string_lexer e)")
    (auto simp: advance_code_point_in_direction_def agree_def)

lemma capture_bounds_plain [simp]: "get_valid_capture_bounds grp (plain e) = get_valid_capture_bounds grp e"
  by (simp add: get_valid_capture_bounds_def get_capture_point_def)

lemma find_named_group_plain [simp]: "find_named_group rx name (plain e) n = find_named_group rx name e n"
proof (induction n)
  case (Suc n)
  then show ?case by (cases "get_valid_capture_bounds (1 + word_of_nat n) e") simp_all
qed simp

lemma backreference_group_plain [simp]: "backreference_group rx grp (plain e) = backreference_group rx grp e"
  by (simp add: backreference_group_def split: option.split)

lemma match_folded_plain:
  "rel_option (\<lambda>(b, s) (b', e'). b' = b \<and> s = plain e' \<and> agree e e')
     (match_folded icu rx ops direction n it (plain e)) (match_folded icu rx ops direction n it e)"
proof (induction n arbitrary: it e)
  case (Suc n)
  show ?case
  proof (cases "advance_code_point_in_direction ops direction e")
    case None
    then have "advance_code_point_in_direction ops direction (plain e) = None"
      using advance_direction_plain [of e ops direction] by simp
    then show ?thesis using None by (auto split: option.split)
  next
    case (Some e1)
    then have e1: "advance_code_point_in_direction ops direction (plain e) = Some (plain e1)" "agree e e1"
      using advance_direction_plain [of e ops direction] by (auto simp: option_rel_Some2)
    have "rel_option (\<lambda>(b, s) (b', e'). b' = b \<and> s = plain e' \<and> agree e e')
        (match_folded icu rx ops direction n it1 (plain e1)) (match_folded icu rx ops direction n it1 e1)" for it1
      using Suc.IH [where it = it1 and e = e1] e1(2) by (auto elim!: option.rel_mono_strong simp: agree_def)
    then show ?thesis using Some e1(1) by (auto split: option.split)
  qed
qed simp

lemma agree_advance_instruction [simp]: "agree e (advance_instruction instr e') = agree e e'"
  by (simp add: agree_def advance_instruction_def)

lemma execute_backreference_logged:
  "flow_logged e (execute_backreference icu rx ops direction ci grp (plain e)) (execute_backreference icu rx ops direction ci grp e)"
proof (cases "\<exists>g b. backreference_group rx grp e = Some g \<and> get_valid_capture_bounds g e = Some b")
  case False
  then show ?thesis by (cases "backreference_group rx grp e") (auto simp: execute_backreference_def)
next
  case True
  then obtain g b where g: "backreference_group rx grp e = Some g" "get_valid_capture_bounds g e = Some b" by blast
  show ?thesis
  proof (cases b)
    case None
    then show ?thesis using g by (simp add: execute_backreference_def agree_logged)
  next
    case (Some se)
    obtain start stop where b: "b = Some (start, stop)" using Some by (cases se) simp
    show ?thesis
    proof (cases "ci \<and> start \<le> stop")
      case True
      show ?thesis
      proof (cases "so_iter_slice ops start stop (string_lexer e)")
        case None
        then show ?thesis using True g b by (simp add: execute_backreference_def)
      next
        case (Some it)
        then show ?thesis
          using True g b match_folded_plain [where icu = icu and rx = rx and ops = ops and direction = direction and n = "Suc (length it)" and it = it and e = e]
          by (cases "match_folded icu rx ops direction (Suc (length it)) it (plain e)")
            (auto simp del: match_folded.simps simp: execute_backreference_def option_rel_Some1 agree_logged split: prod.splits)
      qed
    next
      case False
      then show ?thesis using g b
        by (cases "so_slice ops start stop (string_lexer e)")
          (auto simp: execute_backreference_def Let_def agree_logged agree_def logged_def advance_instruction_def)
    qed
  qed
qed

lemma execute_logged:
  assumes "\<And>a b. instr \<noteq> Branch a b" "\<And>a p b. instr \<noteq> Lookaround a p b"
  shows "flow_logged e (execute_instruction icu rx ops direction instr (plain e)) (execute_instruction icu rx ops direction instr e)"
proof (cases instr)
  case (Backreference ci grp)
  then show ?thesis using execute_backreference_logged by simp
next
  case (MarkCapturePoint i)
  then show ?thesis
    using push_logged(1) [of e i "of_nat (so_pos ops (string_lexer e))"]
    by (cases "push_capture_point i (of_nat (so_pos ops (string_lexer e))) (plain e)") (auto simp: option_rel_Some1)
next
  case (ClearCapture grp)
  then show ?thesis
    using push_logged(1) [of e "grp * 2 + 1" EMPTY_STRING_INDEX]
    by (cases "push_capture_point (grp * 2 + 1) EMPTY_STRING_INDEX (plain e)") (auto simp: option_rel_Some1)
next
  case (Progress i)
  have "get_progress_point i (plain e) = get_progress_point i e" by (simp add: get_progress_point_def)
  then show ?thesis
    using Progress push_logged(2) [of e i "of_nat (so_pos ops (string_lexer e))"]
    by (cases "get_progress_point i e"; cases "push_progress_point i (of_nat (so_pos ops (string_lexer e))) (plain e)")
      (auto simp: option_rel_Some1 Let_def)
next
  case (Loop i m b)
  have "get_loop_register i (plain e) = get_loop_register i e" by (simp add: get_loop_register_def)
  then show ?thesis
  proof (cases "get_loop_register i e")
    case (Some v)
    then show ?thesis
      using Loop \<open>get_loop_register i (plain e) = _\<close> push_logged(3) [of e i "v + 1"] push_logged(3) [of e i 0]
      by (cases "push_loop_register i (v + 1) (plain e)"; cases "push_loop_register i 0 (plain e)")
        (auto simp: option_rel_Some1)
  qed (simp add: Loop)
next
  case (Branch a b)
  then show ?thesis using assms(1) by simp
next
  case (Lookaround a p b)
  then show ?thesis using assms(2) by simp
qed (use advance_direction_plain [of e ops direction] in
    \<open>cases "advance_code_point_in_direction ops direction (plain e)";
      auto simp: consume_if_def assert_that_def option_rel_Some1 agree_logged Let_def logged_def agree_def is_at_word_boundary_def
        code_point_before_current_pos_def code_point_after_current_pos_def no_advance_read_code_point_in_direction_def
        advance_instruction_def set_next_instruction_def reset_compare_register_def\<close>)+

subsection \<open>Fuel\<close>

lemma after_backtrack_mono:
  assumes "\<And>e'. k e' \<noteq> Out_Of_Fuel \<Longrightarrow> k' e' = k e'" "after_backtrack ops reset k e \<noteq> Out_Of_Fuel"
  shows "after_backtrack ops reset k' e = after_backtrack ops reset k e"
  using assms by (auto simp: after_backtrack_def split: option.splits bool.splits)

lemma execute_other:
  assumes "re_read (cr_instructions rx) (instruction_index e) = Some instr" "\<And>a p b. instr \<noteq> Lookaround a p b"
  shows "execute_bytecode icu rx ops (Suc n) direction e =
    (case execute_instruction icu rx ops direction instr e of
       None \<Rightarrow> Panicked
     | Some Accepted \<Rightarrow> Done (True, e)
     | Some (Next e1) \<Rightarrow> execute_bytecode icu rx ops n direction e1
     | Some (Retry reset e1) \<Rightarrow> after_backtrack ops reset (execute_bytecode icu rx ops n direction) e1)"
  using assms(1) by (cases instr) (use assms(2) in auto)

lemma execute_lookaround:
  assumes "re_read (cr_instructions rx) (instruction_index e) = Some (Lookaround a p b)"
  shows "execute_bytecode icu rx ops (Suc n) direction e =
    (case execute_bytecode icu rx ops n a (enter_lookaround ops a b e) of
       Done (m, e1) \<Rightarrow>
         if m = p then execute_bytecode icu rx ops n direction (resume_after_lookaround ops (Lookaround a p b) e (leave_lookaround e m e1))
         else after_backtrack ops False (execute_bytecode icu rx ops n direction) (leave_lookaround e m e1)
     | Panicked \<Rightarrow> Panicked | Out_Of_Fuel \<Rightarrow> Out_Of_Fuel)"
  using assms by (simp add: Let_def split: outcome.split prod.split)

lemma execute_no_instruction:
  "re_read (cr_instructions rx) (instruction_index e) = None \<Longrightarrow> execute_bytecode icu rx ops (Suc n) direction e = Panicked"
  by simp

declare execute_bytecode.simps(2) [simp del]

lemma execute_mono_Suc:
  "execute_bytecode icu rx ops n direction e \<noteq> Out_Of_Fuel \<Longrightarrow>
     execute_bytecode icu rx ops (Suc n) direction e = execute_bytecode icu rx ops n direction e"
proof (induction n arbitrary: direction e)
  case (Suc n)
  note IH = Suc.IH and ab = after_backtrack_mono [OF Suc.IH]
  show ?case
  proof (cases "re_read (cr_instructions rx) (instruction_index e)")
    case (Some instr)
    show ?thesis
    proof (cases "\<exists>a p b. instr = Lookaround a p b")
      case True
      then obtain a p b where instr: "re_read (cr_instructions rx) (instruction_index e) = Some (Lookaround a p b)"
        using Some by blast
      note eq = execute_lookaround [OF instr, of icu ops _ direction]
      have sub: "execute_bytecode icu rx ops n a (enter_lookaround ops a b e) \<noteq> Out_Of_Fuel"
        using Suc.prems unfolding eq by auto
      show ?thesis
        using Suc.prems unfolding eq IH [OF sub] by (auto simp: IH ab split: outcome.splits if_splits)
    next
      case False
      then show ?thesis
        using Suc.prems IH ab execute_other [OF Some, of icu ops _ direction] by (auto split: option.splits flow.splits)
    qed
  qed (simp add: execute_no_instruction)
qed simp

lemma execute_mono:
  "n \<le> m \<Longrightarrow> execute_bytecode icu rx ops n direction e \<noteq> Out_Of_Fuel \<Longrightarrow>
     execute_bytecode icu rx ops m direction e = execute_bytecode icu rx ops n direction e"
  by (induction rule: dec_induct) (simp_all add: execute_mono_Suc)

lemma execute_unique:
  assumes "execute_bytecode icu rx ops n direction e \<noteq> Out_Of_Fuel" "execute_bytecode icu rx ops m direction e \<noteq> Out_Of_Fuel"
  shows "execute_bytecode icu rx ops n direction e = execute_bytecode icu rx ops m direction e"
  using assms execute_mono by (metis nat_le_linear)

lemma search_branch:
  assumes "re_read (cr_instructions rx) (instruction_index e) = Some (Branch a b)"
  shows "search icu rx ops (Suc n) direction e =
    (case search icu rx ops n direction (set_next_instruction a e) of
       Done (Failed reset c w) \<Rightarrow>
         search icu rx ops n direction (set_next_instruction b (e\<lparr>compare_register := c \<and> \<not> reset, word_boundary_register := w\<rparr>))
     | other \<Rightarrow> other)"
  using assms by simp

lemma search_lookaround:
  assumes "re_read (cr_instructions rx) (instruction_index e) = Some (Lookaround a p b)"
  shows "search icu rx ops (Suc n) direction e =
    (case search icu rx ops n a (no_advance_read_code_point_in_direction ops a (set_next_instruction b e)) of
       Done (Matched e1) \<Rightarrow>
         if p then search icu rx ops n direction
           (e1\<lparr>string_lexer := string_lexer e, instruction_index := instruction_index e + re_size (Lookaround a p b)\<rparr>)
         else Done (Failed False (compare_register e1) (word_boundary_register e1))
     | Done (Failed reset c w) \<Rightarrow>
         if p then Done (Failed False c w)
         else search icu rx ops n direction
           (e\<lparr>compare_register := c, word_boundary_register := w,
              instruction_index := instruction_index e + re_size (Lookaround a p b)\<rparr>)
     | other \<Rightarrow> other)"
  using assms by simp

lemma search_other:
  assumes "re_read (cr_instructions rx) (instruction_index e) = Some instr"
    "\<And>a b. instr \<noteq> Branch a b" "\<And>a p b. instr \<noteq> Lookaround a p b"
  shows "search icu rx ops (Suc n) direction e =
    (case execute_instruction icu rx ops direction instr e of
       None \<Rightarrow> Panicked
     | Some Accepted \<Rightarrow> Done (Matched e)
     | Some (Next e1) \<Rightarrow> search icu rx ops n direction (plain e1)
     | Some (Retry reset e1) \<Rightarrow> Done (Failed reset (compare_register e1) (word_boundary_register e1)))"
  using assms(1) by (cases instr) (use assms(2,3) in auto)

lemma search_no_instruction:
  "re_read (cr_instructions rx) (instruction_index e) = None \<Longrightarrow> search icu rx ops (Suc n) direction e = Panicked"
  by simp

declare search.simps(2) [simp del]

lemma instruction_cases [case_names none branch lookaround other]:
  assumes "re_read ws i = None \<Longrightarrow> P" "\<And>a b. re_read ws i = Some (Branch a b) \<Longrightarrow> P"
    "\<And>a p b. re_read ws i = Some (Lookaround a p b) \<Longrightarrow> P"
    "\<And>instr. re_read ws i = Some instr \<Longrightarrow> (\<And>a b. instr \<noteq> Branch a b) \<Longrightarrow> (\<And>a p b. instr \<noteq> Lookaround a p b) \<Longrightarrow> P"
  shows P
proof (cases "re_read ws i")
  case (Some instr)
  then show ?thesis using assms(2-4) by (cases instr) blast+
qed (rule assms(1))

lemma search_mono_Suc:
  "search icu rx ops n direction e \<noteq> Out_Of_Fuel \<Longrightarrow> search icu rx ops (Suc n) direction e = search icu rx ops n direction e"
proof (induction n arbitrary: direction e)
  case (Suc n)
  note IH = Suc.IH
  show ?case
  proof (cases rule: instruction_cases [of "cr_instructions rx" "instruction_index e"])
    case none
    then show ?thesis by (simp add: search_no_instruction)
  next
    case (branch a b)
    note eq = search_branch [OF branch, of icu ops _ direction]
    have sub: "search icu rx ops n direction (set_next_instruction a e) \<noteq> Out_Of_Fuel" using Suc.prems unfolding eq by auto
    show ?thesis using Suc.prems unfolding eq IH [OF sub] by (auto simp: IH split: outcome.splits verdict.splits)
  next
    case (lookaround a p b)
    note eq = search_lookaround [OF lookaround, of icu ops _ direction]
    have sub: "search icu rx ops n a (no_advance_read_code_point_in_direction ops a (set_next_instruction b e)) \<noteq> Out_Of_Fuel"
      using Suc.prems unfolding eq by auto
    show ?thesis using Suc.prems unfolding eq IH [OF sub] by (auto simp: IH split: outcome.splits verdict.splits if_splits)
  next
    case (other instr)
    then show ?thesis
      using Suc.prems IH search_other [OF other, of icu ops _ direction] by (auto split: option.splits flow.splits)
  qed
qed simp

lemma search_mono:
  "n \<le> m \<Longrightarrow> search icu rx ops n direction e \<noteq> Out_Of_Fuel \<Longrightarrow> search icu rx ops m direction e = search icu rx ops n direction e"
  by (induction rule: dec_induct) (simp_all add: search_mono_Suc)

lemma search_unique:
  assumes "search icu rx ops n direction e \<noteq> Out_Of_Fuel" "search icu rx ops m direction e \<noteq> Out_Of_Fuel"
  shows "search icu rx ops n direction e = search icu rx ops m direction e"
  using assms search_mono by (metis nat_le_linear)

subsection \<open>The engine follows the search\<close>

lemma backtrack_empty:
  "length (backtrack_stack e) \<le> backtrack_stack_base e \<Longrightarrow> backtrack ops e = Some (False, e)"
  by (simp add: backtrack.simps)

lemma backtrack_restore_state:
  assumes "backtrack_stack e = RestoreState i v # st" "backtrack_stack_base e \<le> length st"
  shows "backtrack ops e =
    Some (True, e\<lparr>backtrack_stack := st, instruction_index := i, string_lexer := so_restore ops v (string_lexer e)\<rparr>)"
  using assms by (subst backtrack.simps) simp

lemma backtrack_restore_stack:
  assumes "backtrack_stack e = RestoreBacktrackStack (length st) # entries @ st" "backtrack_stack_base e \<le> length st"
    "undo entries (regs e) = Some r"
  shows "backtrack ops e = backtrack ops ((set_regs r e)\<lparr>backtrack_stack := st\<rparr>)"
proof -
  have "backtrack_to_stack_size (length st) (e\<lparr>backtrack_stack := entries @ st\<rparr>) =
      Some ((set_regs r (e\<lparr>backtrack_stack := entries @ st\<rparr>))\<lparr>backtrack_stack := st\<rparr>)"
    using assms(3) by (subst backtrack_to_undo [of _ entries]) simp_all
  moreover have "(set_regs r (e\<lparr>backtrack_stack := entries @ st\<rparr>))\<lparr>backtrack_stack := st\<rparr> = (set_regs r e)\<lparr>backtrack_stack := st\<rparr>"
    by (simp add: set_regs_def)
  ultimately show ?thesis using assms(1,2) by (subst backtrack.simps) simp
qed

text \<open>An engine from which backtracking leads back to \<open>e\<close>, except for what is not logged.\<close>

definition undoable :: "'s stream_ops \<Rightarrow> ('s \<Rightarrow> 'b) \<Rightarrow> 's match_engine \<Rightarrow> 's match_engine \<Rightarrow> bool" where
  "undoable ops src e e1 \<longleftrightarrow> backtrack_stack_base e1 = backtrack_stack_base e \<and> src (string_lexer e1) = src (string_lexer e) \<and>
     (\<exists>entries. backtrack_stack e1 = entries @ backtrack_stack e \<and> undo entries (regs e1) = Some (regs e)) \<and>
     (\<forall>e2. agree e1 e2 \<longrightarrow>
        (\<exists>e3. backtrack ops e2 = backtrack ops e3 \<and> agree e e3 \<and> compare_register e3 = compare_register e2 \<and>
           word_boundary_register e3 = word_boundary_register e2 \<and> string_lexer e3 = string_lexer e2))"

definition stack_ok :: "'s match_engine \<Rightarrow> bool" where
  "stack_ok e \<longleftrightarrow> backtrack_stack_base e \<le> length (backtrack_stack e)"

text \<open>The run from \<open>e\<close> goes through \<open>e1\<close>; or through \<open>backtrack()?\<close> in \<open>e1\<close>.\<close>

definition through ::
  "icu_case \<Rightarrow> compiled_regexp \<Rightarrow> 's stream_ops \<Rightarrow> bool \<Rightarrow> 's match_engine \<Rightarrow> 's match_engine \<Rightarrow> bool" where
  "through icu rx ops direction e e1 \<longleftrightarrow>
     (\<forall>n. execute_bytecode icu rx ops n direction e \<noteq> Out_Of_Fuel \<longrightarrow>
        (\<exists>m < n. execute_bytecode icu rx ops n direction e = execute_bytecode icu rx ops m direction e1)) \<and>
     (\<forall>m. execute_bytecode icu rx ops m direction e1 \<noteq> Out_Of_Fuel \<longrightarrow>
        (\<exists>n. execute_bytecode icu rx ops n direction e = execute_bytecode icu rx ops m direction e1))"

definition through_backtrack ::
  "icu_case \<Rightarrow> compiled_regexp \<Rightarrow> 's stream_ops \<Rightarrow> bool \<Rightarrow> bool \<Rightarrow> 's match_engine \<Rightarrow> 's match_engine \<Rightarrow> bool" where
  "through_backtrack icu rx ops direction reset e e1 \<longleftrightarrow>
     (\<forall>n. execute_bytecode icu rx ops n direction e \<noteq> Out_Of_Fuel \<longrightarrow>
        (\<exists>m < n. execute_bytecode icu rx ops n direction e = after_backtrack ops reset (execute_bytecode icu rx ops m direction) e1)) \<and>
     (\<forall>m. after_backtrack ops reset (execute_bytecode icu rx ops m direction) e1 \<noteq> Out_Of_Fuel \<longrightarrow>
        (\<exists>n. execute_bytecode icu rx ops n direction e = after_backtrack ops reset (execute_bytecode icu rx ops m direction) e1))"

fun follows ::
  "icu_case \<Rightarrow> compiled_regexp \<Rightarrow> 's stream_ops \<Rightarrow> ('s \<Rightarrow> 'b) \<Rightarrow> bool \<Rightarrow> 's match_engine \<Rightarrow> 's verdict \<Rightarrow> bool" where
  "follows icu rx ops src direction e (Matched s) \<longleftrightarrow>
     (\<exists>n e1. execute_bytecode icu rx ops n direction e = Done (True, e1) \<and> plain e1 = s \<and>
        backtrack_stack_base e1 = backtrack_stack_base e \<and> src (string_lexer e1) = src (string_lexer e) \<and>
        (\<exists>entries. backtrack_stack e1 = entries @ backtrack_stack e \<and> undo entries (regs e1) = Some (regs e)))"
| "follows icu rx ops src direction e (Failed reset c w) \<longleftrightarrow>
     (\<exists>e1. through_backtrack icu rx ops direction reset e e1 \<and> agree e e1 \<and> compare_register e1 = c \<and>
        word_boundary_register e1 = w \<and> src (string_lexer e1) = src (string_lexer e))"

lemma through_trans: "through icu rx ops direction e e1 \<Longrightarrow> through icu rx ops direction e1 e2 \<Longrightarrow> through icu rx ops direction e e2"
  unfolding through_def
proof (elim conjE, intro conjI allI impI)
  fix n
  assume 1: "\<forall>n. execute_bytecode icu rx ops n direction e \<noteq> Out_Of_Fuel \<longrightarrow>
      (\<exists>m < n. execute_bytecode icu rx ops n direction e = execute_bytecode icu rx ops m direction e1)"
    and 2: "\<forall>n. execute_bytecode icu rx ops n direction e1 \<noteq> Out_Of_Fuel \<longrightarrow>
      (\<exists>m < n. execute_bytecode icu rx ops n direction e1 = execute_bytecode icu rx ops m direction e2)"
    and n: "execute_bytecode icu rx ops n direction e \<noteq> Out_Of_Fuel"
  obtain m where m: "m < n" "execute_bytecode icu rx ops n direction e = execute_bytecode icu rx ops m direction e1" using 1 n by blast
  then obtain k where "k < m" "execute_bytecode icu rx ops m direction e1 = execute_bytecode icu rx ops k direction e2" using 2 n by auto
  then show "\<exists>m < n. execute_bytecode icu rx ops n direction e = execute_bytecode icu rx ops m direction e2"
    using m by (intro exI [of _ k]) simp
qed metis

lemma through_step:
  assumes "\<And>n. execute_bytecode icu rx ops (Suc n) direction e = execute_bytecode icu rx ops n direction e1"
  shows "through icu rx ops direction e e1"
  unfolding through_def
proof (intro conjI allI impI)
  fix n
  assume "execute_bytecode icu rx ops n direction e \<noteq> Out_Of_Fuel"
  then show "\<exists>m < n. execute_bytecode icu rx ops n direction e = execute_bytecode icu rx ops m direction e1"
    using assms by (cases n) auto
qed (use assms in blast)

lemma through_through_backtrack:
  assumes "through icu rx ops direction e e1" "through_backtrack icu rx ops direction reset e1 e2"
  shows "through_backtrack icu rx ops direction reset e e2"
  unfolding through_backtrack_def
proof (intro conjI allI impI)
  fix n
  assume "execute_bytecode icu rx ops n direction e \<noteq> Out_Of_Fuel"
  then obtain m where m: "m < n" "execute_bytecode icu rx ops n direction e = execute_bytecode icu rx ops m direction e1"
      "execute_bytecode icu rx ops m direction e1 \<noteq> Out_Of_Fuel"
    using assms(1) unfolding through_def by metis
  then obtain k where "k < m" "execute_bytecode icu rx ops m direction e1 = after_backtrack ops reset (execute_bytecode icu rx ops k direction) e2"
    using assms(2) unfolding through_backtrack_def by metis
  then show "\<exists>m < n. execute_bytecode icu rx ops n direction e = after_backtrack ops reset (execute_bytecode icu rx ops m direction) e2"
    using m by (metis order.strict_trans)
next
  fix m
  assume "after_backtrack ops reset (execute_bytecode icu rx ops m direction) e2 \<noteq> Out_Of_Fuel"
  then obtain k where "execute_bytecode icu rx ops k direction e1 = after_backtrack ops reset (execute_bytecode icu rx ops m direction) e2"
      "execute_bytecode icu rx ops k direction e1 \<noteq> Out_Of_Fuel"
    using assms(2) unfolding through_backtrack_def by metis
  then show "\<exists>n. execute_bytecode icu rx ops n direction e = after_backtrack ops reset (execute_bytecode icu rx ops m direction) e2"
    using assms(1) unfolding through_def by metis
qed

lemma after_backtrack_cong:
  "backtrack ops e = backtrack ops e' \<Longrightarrow> after_backtrack ops reset k e = after_backtrack ops reset k e'"
  by (simp add: after_backtrack_def)

lemma follows_through:
  assumes "through icu rx ops direction e e1" "undoable ops src e e1" "follows icu rx ops src direction e1 r"
  shows "follows icu rx ops src direction e r"
proof (cases r)
  case (Matched s)
  then obtain n e2 entries where e2: "execute_bytecode icu rx ops n direction e1 = Done (True, e2)" "plain e2 = s"
      "backtrack_stack_base e2 = backtrack_stack_base e1" "src (string_lexer e2) = src (string_lexer e1)"
      "backtrack_stack e2 = entries @ backtrack_stack e1" "undo entries (regs e2) = Some (regs e1)"
    using assms(3) by auto
  obtain entries' where "backtrack_stack e1 = entries' @ backtrack_stack e" "undo entries' (regs e1) = Some (regs e)"
    using assms(2) unfolding undoable_def by blast
  then have "backtrack_stack e2 = (entries @ entries') @ backtrack_stack e \<and> undo (entries @ entries') (regs e2) = Some (regs e)"
    using e2 by (simp add: undo_append)
  moreover obtain n' where "execute_bytecode icu rx ops n' direction e = Done (True, e2)"
    using assms(1) e2(1) unfolding through_def by (metis outcome.distinct(6))
  moreover have "backtrack_stack_base e2 = backtrack_stack_base e" "src (string_lexer e2) = src (string_lexer e)"
    using e2(3,4) assms(2) by (simp_all add: undoable_def)
  ultimately show ?thesis
    unfolding Matched follows.simps using e2(2) by (intro exI [of _ n'] exI [of _ e2] conjI; (assumption | blast))
next
  case (Failed reset c w)
  then obtain e2 where e2: "through_backtrack icu rx ops direction reset e1 e2" "agree e1 e2" "compare_register e2 = c"
      "word_boundary_register e2 = w" "src (string_lexer e2) = src (string_lexer e1)"
    using assms(3) by auto
  obtain e3 where e3: "backtrack ops e2 = backtrack ops e3" "agree e e3" "compare_register e3 = compare_register e2"
      "word_boundary_register e3 = word_boundary_register e2" "string_lexer e3 = string_lexer e2"
    using assms(2) e2(2) unfolding undoable_def by blast
  have "through_backtrack icu rx ops direction reset e e2" by (rule through_through_backtrack [OF assms(1) e2(1)])
  then have "through_backtrack icu rx ops direction reset e e3"
    unfolding through_backtrack_def after_backtrack_cong [OF e3(1)] .
  then show ?thesis using Failed e2 e3 assms(2) unfolding undoable_def by auto
qed

lemma agree_undoable:
  assumes "agree e e1" "src (string_lexer e1) = src (string_lexer e)"
  shows "undoable ops src e e1"
  unfolding undoable_def
proof (intro conjI allI impI)
  show "\<exists>entries. backtrack_stack e1 = entries @ backtrack_stack e \<and> undo entries (regs e1) = Some (regs e)"
    using assms(1) by (intro exI [of _ "[]"]) (simp add: agree_def)
  show "\<exists>e3. backtrack ops e2 = backtrack ops e3 \<and> agree e e3 \<and> compare_register e3 = compare_register e2 \<and>
      word_boundary_register e3 = word_boundary_register e2 \<and> string_lexer e3 = string_lexer e2" if "agree e1 e2" for e2
    using assms(1) that by (intro exI [of _ e2] conjI refl) (simp add: agree_def)
  show "backtrack_stack_base e1 = backtrack_stack_base e" using assms(1) by (simp add: agree_def)
qed (rule assms(2))

lemma logged_undoable:
  assumes "logged e e1" "src (string_lexer e1) = src (string_lexer e)" "stack_ok e"
  shows "undoable ops src e e1"
  unfolding undoable_def
proof (intro conjI allI impI)
  show "\<exists>e3. backtrack ops e2 = backtrack ops e3 \<and> agree e e3 \<and> compare_register e3 = compare_register e2 \<and>
      word_boundary_register e3 = word_boundary_register e2 \<and> string_lexer e3 = string_lexer e2" if "agree e1 e2" for e2
    using logged_backtrack [OF assms(1) that] assms(3) unfolding stack_ok_def by blast
qed (use assms logged_undo in \<open>auto simp: logged_def\<close>)

context text_stream
begin

lemma advance_direction_src:
  "advance_code_point_in_direction ops direction e = Some e1 \<Longrightarrow> src (string_lexer e1) = src (string_lexer e)"
  by (auto simp: advance_code_point_in_direction_def bind_eq_Some_iff src_advance_backwards_code_point split: if_splits)

lemma match_folded_src:
  "match_folded icu rx ops direction n it e = Some (b, e1) \<Longrightarrow> src (string_lexer e1) = src (string_lexer e)"
proof (induction n arbitrary: it e)
  case (Suc n)
  then show ?case
    by (auto simp: bind_eq_Some_iff advance_direction_src split: option.splits if_splits prod.splits)
qed simp

lemma push_src:
  "push_capture_point i v e = Some e1 \<Longrightarrow> string_lexer e1 = string_lexer e"
  "push_progress_point i v e = Some e1 \<Longrightarrow> string_lexer e1 = string_lexer e"
  "push_loop_register i w e = Some e1 \<Longrightarrow> string_lexer e1 = string_lexer e"
  by (auto simp: push_defs bind_eq_Some_iff split: if_splits)

lemma lexer_update [simp]:
  "string_lexer (advance_instruction instr e) = string_lexer e" "string_lexer (set_next_instruction i e) = string_lexer e"
  "string_lexer (reset_compare_register e) = string_lexer e" "string_lexer (push_entry entry e) = string_lexer e"
  "string_lexer (push_backtrack_restore_state ops j e) = string_lexer e"
  by (simp_all add: advance_instruction_def set_next_instruction_def reset_compare_register_def push_entry_def
      push_backtrack_restore_state_def)

lemma no_advance_src [simp]: "src (string_lexer (no_advance_read_code_point_in_direction ops d e)) = src (string_lexer e)"
  by (simp add: no_advance_read_code_point_in_direction_def)

lemma backreference_src:
  assumes "execute_backreference icu rx ops direction ci grp e = Some (Next e1) \<or>
      execute_backreference icu rx ops direction ci grp e = Some (Retry reset e1)"
  shows "src (string_lexer e1) = src (string_lexer e)"
  using assms
  by (auto simp: execute_backreference_def bind_eq_Some_iff Let_def split: option.splits if_splits prod.splits
      dest!: match_folded_src simp del: match_folded.simps)

lemma flow_src:
  assumes "execute_instruction icu rx ops direction instr e = Some (Next e1) \<or>
      execute_instruction icu rx ops direction instr e = Some (Retry reset e1)"
  shows "src (string_lexer e1) = src (string_lexer e)"
  using assms
proof (cases instr)
  case (Backreference ci grp)
  then show ?thesis using assms backreference_src by simp
qed (auto simp: consume_if_def assert_that_def bind_eq_Some_iff Let_def advance_direction_src push_src
    split: if_splits dest: advance_direction_src push_src)


text \<open>The rest of a branch after the first alternative failed.\<close>

lemma through_second_branch:
  assumes read: "re_read (cr_instructions rx) (instruction_index e) = Some (Branch a b)" and ok: "stack_ok e"
    and fail: "follows icu rx ops src direction (set_next_instruction a (push_backtrack_restore_state ops (unat b) e)) (Failed reset c w)"
  shows "\<exists>e2. through icu rx ops direction e e2 \<and> agree e e2 \<and> string_lexer e2 = string_lexer e \<and>
    plain e2 = set_next_instruction b ((plain e)\<lparr>compare_register := c \<and> \<not> reset, word_boundary_register := w\<rparr>)"
proof -
  let ?e1 = "set_next_instruction a (push_backtrack_restore_state ops (unat b) e)"
  obtain e1 where e1: "through_backtrack icu rx ops direction reset ?e1 e1" "agree ?e1 e1" "compare_register e1 = c"
      "word_boundary_register e1 = w" "src (string_lexer e1) = src (string_lexer e)"
    using fail by auto
  let ?e2 = "e1\<lparr>backtrack_stack := backtrack_stack e, instruction_index := unat b, string_lexer := string_lexer e\<rparr>"
  let ?e3 = "if reset then reset_compare_register ?e2 else ?e2"
  have stack: "backtrack_stack e1 = RestoreState (unat b) (so_save ops (string_lexer e)) # backtrack_stack e"
      "backtrack_stack_base e1 = backtrack_stack_base e" "regs e1 = regs e"
    using e1(2) by (simp_all add: agree_def set_next_instruction_def push_backtrack_restore_state_def push_entry_def)
  have "so_restore ops (so_save ops (string_lexer e)) (string_lexer e1) = string_lexer e"
    using restore_save e1(5) by simp
  then have "backtrack ops e1 = Some (True, ?e2)"
    using backtrack_restore_state [OF stack(1)] ok stack(2) by (simp add: stack_ok_def)
  then have ab: "after_backtrack ops reset k e1 = k ?e3" for k by (simp add: after_backtrack_def)
  have "through icu rx ops direction e ?e1"
    by (rule through_step) (simp add: execute_other [OF read])
  then have "through_backtrack icu rx ops direction reset e e1" using e1(1) by (rule through_through_backtrack)
  then have "through icu rx ops direction e ?e3" unfolding through_backtrack_def through_def ab .
  moreover have "agree e ?e3" using stack by (simp add: agree_def reset_compare_register_def)
  moreover have "plain ?e3 = set_next_instruction b ((plain e)\<lparr>compare_register := c \<and> \<not> reset, word_boundary_register := w\<rparr>)"
    using stack(3) e1(3,4) by (simp add: plain_def set_next_instruction_def reset_compare_register_def regs_def)
  ultimately show ?thesis by (intro exI [of _ ?e3]) (simp add: reset_compare_register_def)
qed

text \<open>The sub-execution of a lookaround that ends.\<close>

lemma lookaround_sub:
  assumes "follows icu rx ops src a (enter_lookaround ops a b e) r"
  obtains n e1 m where "execute_bytecode icu rx ops n a (enter_lookaround ops a b e) = Done (m, e1)"
    "m = (\<exists>s. r = Matched s)" "src (string_lexer e1) = src (string_lexer e)"
    "case r of Matched s \<Rightarrow> plain e1 = s | Failed reset c w \<Rightarrow> compare_register e1 = c \<and> word_boundary_register e1 = w"
    "\<exists>entries. backtrack_stack e1 = entries @ backtrack_stack e \<and> undo entries (regs e1) = Some (regs e) \<and> (\<not> m \<longrightarrow> entries = [])"
proof (cases r)
  case (Matched s)
  then show ?thesis
    using assms that [of _ True] by (auto simp: enter_lookaround_def set_next_instruction_def no_advance_read_code_point_in_direction_def)
next
  case (Failed reset c w)
  let ?e = "enter_lookaround ops a b e"
  have base: "backtrack_stack_base ?e = length (backtrack_stack e)" "backtrack_stack ?e = backtrack_stack e" "regs ?e = regs e"
      "src (string_lexer ?e) = src (string_lexer e)"
    by (simp_all add: enter_lookaround_def set_next_instruction_def no_advance_read_code_point_in_direction_def)
  obtain e1 where e1: "through_backtrack icu rx ops a reset ?e e1" "agree ?e e1" "compare_register e1 = c"
      "word_boundary_register e1 = w" "src (string_lexer e1) = src (string_lexer ?e)"
    using assms Failed by auto
  have "backtrack ops e1 = Some (False, e1)" using e1(2) base by (intro backtrack_empty) (simp add: agree_def)
  then have "after_backtrack ops reset k e1 = Done (False, e1)" for k by (simp add: after_backtrack_def)
  then obtain n where "execute_bytecode icu rx ops n a ?e = Done (False, e1)"
    using e1(1) unfolding through_backtrack_def by auto
  then show ?thesis using that [of n False e1] e1 base Failed by (simp add: agree_def)
qed

end

end
