(* ===== verification/Regexp_Refinement.thy ===== *)
theory Regexp_Refinement
  imports Regexp_Search
begin

section \<open>The engine computes the search\<close>

text \<open>
  The backtracking engine of \<open>Regexp_Matcher\<close> returns what the search of \<open>Regexp_Search\<close>
  returns, and panics exactly when the search does, on each of the three lexer streams.
\<close>

text \<open>The match that a search finds, and the search on a string: the counterpart of \<open>run_matcher\<close>.\<close>

definition verdict_result ::
  "compiled_regexp \<Rightarrow> 's verdict outcome \<Rightarrow> (nat \<times> nat) option list option outcome" where
  "verdict_result rx r =
     (case r of
        Done (Matched e) \<Rightarrow> (case build_match rx e of None \<Rightarrow> Panicked | Some m \<Rightarrow> Done (Some m))
      | Done (Failed reset c w) \<Rightarrow> Done None
      | Panicked \<Rightarrow> Panicked
      | Out_Of_Fuel \<Rightarrow> Out_Of_Fuel)"

definition search_lexer_stream ::
  "icu_case \<Rightarrow> compiled_regexp \<Rightarrow> 's stream_ops \<Rightarrow> nat \<Rightarrow> 's \<Rightarrow> u32 \<Rightarrow> (nat \<times> nat) option list option outcome" where
  "search_lexer_stream icu rx ops fuel lexer start_index =
     verdict_result rx (search icu rx ops fuel FORWARD (engine_new rx (so_advance_n ops (unat start_index) lexer)))"

definition run_search ::
  "icu_case \<Rightarrow> compiled_regexp \<Rightarrow> nat \<Rightarrow> flat_string \<Rightarrow> u32 \<Rightarrow> (nat \<times> nat) option list option outcome" where
  "run_search icu rx fuel target start_index =
     (case target of
        OneByte buf \<Rightarrow> search_lexer_stream icu rx one_byte_ops fuel (unit_new buf) start_index
      | TwoByte buf \<Rightarrow>
          if cr_has_any_unicode_flag rx then search_lexer_stream icu rx code_point_ops fuel (unit_new buf) start_index
          else search_lexer_stream icu rx code_unit_ops fuel (unit_new buf) start_index)"

lemma build_match_plain: "build_match rx (plain e) = build_match rx e"
  by (simp add: build_match_def)

lemma plain_engine_new [simp]: "plain (engine_new rx lexer) = engine_new rx lexer"
  by (simp add: plain_def engine_new_def)

lemma through_backtrack_step:
  assumes "\<And>n. execute_bytecode icu rx ops (Suc n) direction e = after_backtrack ops reset (execute_bytecode icu rx ops n direction) e1"
  shows "through_backtrack icu rx ops direction reset e e1"
  unfolding through_backtrack_def
proof (intro conjI allI impI)
  fix n
  assume "execute_bytecode icu rx ops n direction e \<noteq> Out_Of_Fuel"
  then show "\<exists>m < n. execute_bytecode icu rx ops n direction e = after_backtrack ops reset (execute_bytecode icu rx ops m direction) e1"
    using assms by (cases n) auto
qed (use assms in blast)

text \<open>A lookaround whose body ends.\<close>

lemma sub_execution:
  assumes "re_read (cr_instructions rx) (instruction_index e) = Some (Lookaround a p b)"
    "execute_bytecode icu rx ops N a (enter_lookaround ops a b e) = Done (m, e1)"
    "execute_bytecode icu rx ops k direction e \<noteq> Out_Of_Fuel"
  obtains n where "k = Suc n" "execute_bytecode icu rx ops n a (enter_lookaround ops a b e) = Done (m, e1)"
proof (cases k)
  case (Suc n)
  have "execute_bytecode icu rx ops n a (enter_lookaround ops a b e) \<noteq> Out_Of_Fuel"
    using assms(3) unfolding Suc execute_lookaround [OF assms(1)] by auto
  then have "execute_bytecode icu rx ops n a (enter_lookaround ops a b e) = Done (m, e1)"
    using execute_unique assms(2) by (metis outcome.distinct(6))
  then show ?thesis using that Suc by blast
qed (use assms(3) in simp)

lemma sub_execution_max:
  assumes "execute_bytecode icu rx ops N a e0 = Done (m, e1)"
  shows "execute_bytecode icu rx ops (max N j) a e0 = Done (m, e1)"
  using execute_mono [of N "max N j" icu rx ops a e0] assms by simp

lemma through_lookaround:
  assumes read: "re_read (cr_instructions rx) (instruction_index e) = Some (Lookaround a p b)"
    and sub: "execute_bytecode icu rx ops N a (enter_lookaround ops a b e) = Done (p, e1)"
  shows "through icu rx ops direction e (resume_after_lookaround ops (Lookaround a p b) e (leave_lookaround e p e1))"
  unfolding through_def
proof (intro conjI allI impI)
  fix k
  assume "execute_bytecode icu rx ops k direction e \<noteq> Out_Of_Fuel"
  then obtain n where n: "k = Suc n" "execute_bytecode icu rx ops n a (enter_lookaround ops a b e) = Done (p, e1)"
    by (rule sub_execution [OF read sub])
  show "\<exists>m < k. execute_bytecode icu rx ops k direction e = execute_bytecode icu rx ops m direction
      (resume_after_lookaround ops (Lookaround a p b) e (leave_lookaround e p e1))"
    by (intro exI [of _ n]) (simp add: n execute_lookaround [OF read])
next
  fix j
  let ?e = "resume_after_lookaround ops (Lookaround a p b) e (leave_lookaround e p e1)"
  assume "execute_bytecode icu rx ops j direction ?e \<noteq> Out_Of_Fuel"
  then have "execute_bytecode icu rx ops (max N j) direction ?e = execute_bytecode icu rx ops j direction ?e"
    by (intro execute_mono) simp_all
  then show "\<exists>n. execute_bytecode icu rx ops n direction e = execute_bytecode icu rx ops j direction ?e"
    by (intro exI [of _ "Suc (max N j)"]) (simp add: execute_lookaround [OF read] sub_execution_max [OF sub])
qed

lemma through_backtrack_lookaround:
  assumes read: "re_read (cr_instructions rx) (instruction_index e) = Some (Lookaround a p b)"
    and sub: "execute_bytecode icu rx ops N a (enter_lookaround ops a b e) = Done (\<not> p, e1)"
  shows "through_backtrack icu rx ops direction False e (leave_lookaround e (\<not> p) e1)"
  unfolding through_backtrack_def
proof (intro conjI allI impI)
  fix k
  assume "execute_bytecode icu rx ops k direction e \<noteq> Out_Of_Fuel"
  then obtain n where n: "k = Suc n" "execute_bytecode icu rx ops n a (enter_lookaround ops a b e) = Done (\<not> p, e1)"
    by (rule sub_execution [OF read sub])
  show "\<exists>m < k. execute_bytecode icu rx ops k direction e =
      after_backtrack ops False (execute_bytecode icu rx ops m direction) (leave_lookaround e (\<not> p) e1)"
    by (intro exI [of _ n]) (simp add: n execute_lookaround [OF read])
next
  fix j
  let ?e = "leave_lookaround e (\<not> p) e1"
  assume "after_backtrack ops False (execute_bytecode icu rx ops j direction) ?e \<noteq> Out_Of_Fuel"
  then have "after_backtrack ops False (execute_bytecode icu rx ops (max N j) direction) ?e =
      after_backtrack ops False (execute_bytecode icu rx ops j direction) ?e"
    by (intro after_backtrack_mono execute_mono) simp_all
  then show "\<exists>n. execute_bytecode icu rx ops n direction e =
      after_backtrack ops False (execute_bytecode icu rx ops j direction) ?e"
    by (intro exI [of _ "Suc (max N j)"]) (simp add: execute_lookaround [OF read] sub_execution_max [OF sub])
qed

text \<open>What the search does after the body of a lookaround.\<close>

fun after_sub :: "re_instruction \<Rightarrow> bool \<Rightarrow> 's match_engine \<Rightarrow> 's verdict \<Rightarrow> 's match_engine + 's verdict" where
  "after_sub instr p e (Matched e1) =
     (if p then Inl (e1\<lparr>string_lexer := string_lexer e, instruction_index := instruction_index e + re_size instr\<rparr>)
      else Inr (Failed False (compare_register e1) (word_boundary_register e1)))"
| "after_sub instr p e (Failed reset c w) =
     (if p then Inr (Failed False c w)
      else Inl (e\<lparr>compare_register := c, word_boundary_register := w, instruction_index := instruction_index e + re_size instr\<rparr>))"

lemma search_after_sub:
  assumes "re_read (cr_instructions rx) (instruction_index e) = Some (Lookaround a p b)"
  shows "search icu rx ops (Suc n) direction e =
    (case search icu rx ops n a (no_advance_read_code_point_in_direction ops a (set_next_instruction b e)) of
       Done r \<Rightarrow> (case after_sub (Lookaround a p b) p e r of Inl e' \<Rightarrow> search icu rx ops n direction e' | Inr r' \<Rightarrow> Done r')
     | Panicked \<Rightarrow> Panicked | Out_Of_Fuel \<Rightarrow> Out_Of_Fuel)"
  unfolding search_lookaround [OF assms] by (auto split: outcome.split verdict.split)

lemma plain_enter [simp]:
  "plain (enter_lookaround ops a b e) = no_advance_read_code_point_in_direction ops a (set_next_instruction b (plain e))"
  by (simp add: enter_lookaround_def no_advance_read_code_point_in_direction_def set_next_instruction_def)

lemma stack_ok_enter [simp]: "stack_ok (enter_lookaround ops a b e)"
  by (simp add: stack_ok_def enter_lookaround_def no_advance_read_code_point_in_direction_def set_next_instruction_def)

lemma undoable_stack_ok: "undoable ops src e e1 \<Longrightarrow> stack_ok e \<Longrightarrow> stack_ok e1"
  by (auto simp: undoable_def stack_ok_def)

lemma kept_match_backtrack:
  assumes "backtrack_stack e2 = RestoreBacktrackStack (length (backtrack_stack e)) # entries @ backtrack_stack e"
    "undo entries (regs e2) = Some (regs e)" "backtrack_stack_base e2 = backtrack_stack_base e" "stack_ok e"
  shows "\<exists>e3. backtrack ops e2 = backtrack ops e3 \<and> agree e e3 \<and> compare_register e3 = compare_register e2 \<and>
    word_boundary_register e3 = word_boundary_register e2 \<and> string_lexer e3 = string_lexer e2"
  using backtrack_restore_stack [OF assms(1) _ assms(2), of ops] assms(3,4)
  by (intro exI [of _ "(set_regs (regs e) e2)\<lparr>backtrack_stack := backtrack_stack e\<rparr>"]) (simp add: stack_ok_def agree_def)

context text_stream
begin

lemma after_lookaround:
  assumes read: "re_read (cr_instructions rx) (instruction_index e) = Some (Lookaround a p b)" and ok: "stack_ok e"
    and sub: "follows icu rx ops src a (enter_lookaround ops a b e) r"
  shows "case after_sub (Lookaround a p b) p (plain e) r of
      Inl e' \<Rightarrow> \<exists>e2. through icu rx ops direction e e2 \<and> undoable ops src e e2 \<and> plain e2 = e'
    | Inr r' \<Rightarrow> follows icu rx ops src direction e r'"
proof -
  obtain n e1 m entries where e1: "execute_bytecode icu rx ops n a (enter_lookaround ops a b e) = Done (m, e1)"
      "m = (\<exists>s. r = Matched s)" "src (string_lexer e1) = src (string_lexer e)"
      "case r of Matched s \<Rightarrow> plain e1 = s | Failed reset c w \<Rightarrow> compare_register e1 = c \<and> word_boundary_register e1 = w"
    and entries: "backtrack_stack e1 = entries @ backtrack_stack e" "undo entries (regs e1) = Some (regs e)" "\<not> m \<Longrightarrow> entries = []"
    using lookaround_sub [OF sub] by metis
  let ?e1 = "leave_lookaround e m e1" and ?e2 = "resume_after_lookaround ops (Lookaround a p b) e (leave_lookaround e m e1)"
  have lexer: "so_restore ops (so_save ops (string_lexer e)) (string_lexer e1) = string_lexer e"
    using restore_save e1(3) by simp
  have regs: "regs ?e1 = regs e1" "regs ?e2 = regs e1"
    by (simp_all add: leave_lookaround_def resume_after_lookaround_def push_entry_def)
  have base: "backtrack_stack_base ?e1 = backtrack_stack_base e" "backtrack_stack_base ?e2 = backtrack_stack_base e"
    by (simp_all add: leave_lookaround_def resume_after_lookaround_def push_entry_def)
  have other: "compare_register ?e1 = compare_register e1" "word_boundary_register ?e1 = word_boundary_register e1"
      "string_lexer ?e1 = string_lexer e1" "string_lexer ?e2 = string_lexer e"
    using lexer by (simp_all add: leave_lookaround_def resume_after_lookaround_def push_entry_def)
  have stack: "backtrack_stack ?e1 = (if m then RestoreBacktrackStack (length (backtrack_stack e)) # entries @ backtrack_stack e else backtrack_stack e)"
      "backtrack_stack ?e2 = backtrack_stack ?e1"
    using entries by (auto simp: leave_lookaround_def resume_after_lookaround_def push_entry_def)
  show ?thesis
  proof (cases "m = p")
    case True
    have "through icu rx ops direction e ?e2" using through_lookaround [OF read] e1(1) True by blast
    moreover have "undoable ops src e ?e2"
    proof (cases m)
      case True
      show ?thesis unfolding undoable_def
      proof (intro conjI allI impI)
        show "\<exists>entries. backtrack_stack ?e2 = entries @ backtrack_stack e \<and> undo entries (regs ?e2) = Some (regs e)"
          using True stack entries regs by (intro exI [of _ "RestoreBacktrackStack (length (backtrack_stack e)) # entries"]) simp
      next
        fix e'
        assume "agree ?e2 e'"
        then show "\<exists>e3. backtrack ops e' = backtrack ops e3 \<and> agree e e3 \<and> compare_register e3 = compare_register e' \<and>
            word_boundary_register e3 = word_boundary_register e' \<and> string_lexer e3 = string_lexer e'"
          using True stack entries regs base ok by (intro kept_match_backtrack) (auto simp: agree_def)
      qed (use base other in simp_all)
    next
      case False
      then show ?thesis using stack entries(2,3) regs base other by (intro agree_undoable) (simp_all add: agree_def)
    qed
    moreover have "after_sub (Lookaround a p b) p (plain e) r = Inl (plain ?e2)"
    proof (cases r)
      case (Matched s)
      then show ?thesis
        using e1(2,4) True lexer by (auto simp: resume_after_lookaround_def leave_lookaround_def push_entry_def)
    next
      case (Failed reset c w)
      then have "regs e1 = regs e" using entries(2,3) e1(2) by simp
      then show ?thesis
        using e1(2,4) True lexer Failed
        by (simp add: resume_after_lookaround_def leave_lookaround_def push_entry_def plain_def regs_def)
    qed
    ultimately show ?thesis by (auto intro: exI [of _ ?e2])
  next
    case False
    then have "through_backtrack icu rx ops direction False e ?e1" using through_backtrack_lookaround [OF read] e1(1) by simp
    moreover obtain e3 where e3: "backtrack ops ?e1 = backtrack ops e3" "agree e e3" "compare_register e3 = compare_register e1"
        "word_boundary_register e3 = word_boundary_register e1" "string_lexer e3 = string_lexer e1"
    proof (cases m)
      case True
      then show ?thesis using kept_match_backtrack [of ?e1 e entries ops] stack entries regs base ok other that by auto
    next
      case False
      then show ?thesis using that [of ?e1] stack entries regs base other by (simp add: agree_def)
    qed
    ultimately have "through_backtrack icu rx ops direction False e e3"
      unfolding through_backtrack_def by (simp add: after_backtrack_cong [OF e3(1)])
    then have "follows icu rx ops src direction e (Failed False (compare_register e1) (word_boundary_register e1))"
      using e3 e1(3) by auto
    moreover have "after_sub (Lookaround a p b) p (plain e) r = Inr (Failed False (compare_register e1) (word_boundary_register e1))"
      using False e1(2,4) by (cases r) auto
    ultimately show ?thesis by simp
  qed
qed

text \<open>One step of an engine, for each outcome of the same step without the stack.\<close>

lemma other_step:
  assumes read: "re_read (cr_instructions rx) (instruction_index e) = Some instr"
    and other: "\<And>a b. instr \<noteq> Branch a b" "\<And>a p b. instr \<noteq> Lookaround a p b" and ok: "stack_ok e"
  shows "case execute_instruction icu rx ops direction instr (plain e) of
      None \<Rightarrow> \<forall>n. execute_bytecode icu rx ops (Suc n) direction e = Panicked
    | Some Accepted \<Rightarrow> \<forall>n. execute_bytecode icu rx ops (Suc n) direction e = Done (True, e)
    | Some (Next s) \<Rightarrow> \<exists>e1. (\<forall>n. execute_bytecode icu rx ops (Suc n) direction e = execute_bytecode icu rx ops n direction e1) \<and>
        undoable ops src e e1 \<and> plain e1 = plain s
    | Some (Retry reset s) \<Rightarrow> follows icu rx ops src direction e (Failed reset (compare_register s) (word_boundary_register s))"
proof -
  note step = execute_other [OF read other(2), of icu ops _ direction]
  note logged = execute_logged [OF other, of e icu rx ops direction]
  show ?thesis
  proof (cases "execute_instruction icu rx ops direction instr (plain e)")
    case None
    then show ?thesis using logged step by simp
  next
    case (Some f)
    show ?thesis
    proof (cases f)
      case Accepted
      then show ?thesis using Some logged step by simp
    next
      case (Next s)
      then obtain e1 where e1: "execute_instruction icu rx ops direction instr e = Some (Next e1)" "plain e1 = plain s" "logged e e1"
        using logged Some by auto
      moreover have "undoable ops src e e1" using e1 ok flow_src by (intro logged_undoable) blast+
      ultimately show ?thesis using Some Next step by auto
    next
      case (Retry reset s)
      then obtain e1 where e1: "execute_instruction icu rx ops direction instr e = Some (Retry reset e1)" "plain e1 = plain s" "agree e e1"
        using logged Some by auto
      moreover have "compare_register s = compare_register e1" "word_boundary_register s = word_boundary_register e1"
        using e1(2) by (metis plain_simps(7), metis plain_simps(8))
      moreover have "src (string_lexer e1) = src (string_lexer e)" using e1(1) flow_src by blast
      moreover have "through_backtrack icu rx ops direction reset e e1" by (rule through_backtrack_step) (simp add: step e1(1))
      ultimately show ?thesis using Some Retry by auto
    qed
  qed
qed

lemma branch_step:
  assumes "re_read (cr_instructions rx) (instruction_index e) = Some (Branch a b)"
  shows "execute_bytecode icu rx ops (Suc n) direction e =
    execute_bytecode icu rx ops n direction (set_next_instruction a (push_backtrack_restore_state ops (unat b) e))"
  by (simp add: execute_other [OF assms])

lemma branch_plain [simp]:
  "plain (push_backtrack_restore_state ops i e) = plain e"
  by (simp add: push_backtrack_restore_state_def push_entry_def)

lemma branch_stack_ok: "stack_ok e \<Longrightarrow> stack_ok (set_next_instruction a (push_backtrack_restore_state ops i e))"
  by (simp add: stack_ok_def push_backtrack_restore_state_def push_entry_def set_next_instruction_def)

lemma first_branch_matched:
  assumes read: "re_read (cr_instructions rx) (instruction_index e) = Some (Branch a b)"
    and sub: "follows icu rx ops src direction (set_next_instruction a (push_backtrack_restore_state ops (unat b) e)) (Matched s)"
  shows "follows icu rx ops src direction e (Matched s)"
proof -
  let ?e = "set_next_instruction a (push_backtrack_restore_state ops (unat b) e)"
  obtain n e1 entries where e1: "execute_bytecode icu rx ops n direction ?e = Done (True, e1)" "plain e1 = s"
      "backtrack_stack_base e1 = backtrack_stack_base ?e" "src (string_lexer e1) = src (string_lexer ?e)"
      "backtrack_stack e1 = entries @ backtrack_stack ?e" "undo entries (regs e1) = Some (regs ?e)"
    using sub by auto
  let ?entry = "RestoreState (unat b) (so_save ops (string_lexer e))"
  have stack: "backtrack_stack ?e = ?entry # backtrack_stack e" "backtrack_stack_base ?e = backtrack_stack_base e" "regs ?e = regs e"
    by (simp_all add: push_backtrack_restore_state_def push_entry_def set_next_instruction_def)
  have "\<exists>entries. backtrack_stack e1 = entries @ backtrack_stack e \<and> undo entries (regs e1) = Some (regs e)"
    using e1(5,6) stack by (intro exI [of _ "entries @ [?entry]"]) (simp add: undo_append)
  moreover have "execute_bytecode icu rx ops (Suc n) direction e = Done (True, e1)"
    using e1(1) by (simp add: branch_step [OF read])
  ultimately show ?thesis
    unfolding follows.simps using e1(2,3,4) stack by (intro exI [of _ "Suc n"] exI [of _ e1]) simp
qed

theorem search_followed:
  "search icu rx ops n direction (plain e) = Done r \<Longrightarrow> stack_ok e \<Longrightarrow> follows icu rx ops src direction e r"
proof (induction n arbitrary: direction e r)
  case (Suc n)
  note IH = Suc.IH and result = Suc.prems(1) and ok = Suc.prems(2)
  show ?case
  proof (cases rule: instruction_cases [of "cr_instructions rx" "instruction_index e"])
    case none
    then show ?thesis using result by (simp add: search_no_instruction)
  next
    case (branch a b)
    let ?e = "set_next_instruction a (push_backtrack_restore_state ops (unat b) e)"
    note eq = search_branch [of rx "plain e", unfolded plain_simps(6), OF branch, of icu ops n direction]
    obtain r1 where r1: "search icu rx ops n direction (plain ?e) = Done r1" using result unfolding eq by (auto split: outcome.splits)
    then have sub: "follows icu rx ops src direction ?e r1" using IH branch_stack_ok [OF ok] by blast
    show ?thesis
    proof (cases r1)
      case (Matched s)
      then have "r = Matched s" using result r1 unfolding eq by simp
      then show ?thesis using first_branch_matched [OF branch] sub Matched by blast
    next
      case (Failed reset c w)
      then obtain e2 where e2: "through icu rx ops direction e e2" "agree e e2" "string_lexer e2 = string_lexer e"
          "plain e2 = set_next_instruction b ((plain e)\<lparr>compare_register := c \<and> \<not> reset, word_boundary_register := w\<rparr>)"
        using through_second_branch [OF branch ok] sub by blast
      have und: "undoable ops src e e2" using e2(2,3) by (intro agree_undoable) simp_all
      moreover have "follows icu rx ops src direction e2 r"
        using result r1 Failed e2(4) undoable_stack_ok [OF und ok] unfolding eq by (intro IH) simp_all
      ultimately show ?thesis by (intro follows_through [OF e2(1)])
    qed
  next
    case (lookaround a p b)
    note eq = search_after_sub [of rx "plain e", unfolded plain_simps(6), OF lookaround, of icu ops n direction, folded plain_enter]
    obtain r1 where r1: "search icu rx ops n a (plain (enter_lookaround ops a b e)) = Done r1"
      using result unfolding eq by (auto split: outcome.splits)
    have sub: "follows icu rx ops src a (enter_lookaround ops a b e) r1" using r1 by (rule IH) simp
    note after = after_lookaround [OF lookaround ok sub, of direction]
    show ?thesis
    proof (cases "after_sub (Lookaround a p b) p (plain e) r1")
      case (Inl e')
      then obtain e2 where e2: "through icu rx ops direction e e2" "undoable ops src e e2" "plain e2 = e'" using after by auto
      have "follows icu rx ops src direction e2 r"
        using result r1 Inl e2(3) undoable_stack_ok [OF e2(2) ok] unfolding eq by (intro IH) simp_all
      then show ?thesis by (rule follows_through [OF e2(1,2)])
    next
      case (Inr r')
      then show ?thesis using after result r1 unfolding eq by simp
    qed
  next
    case (other instr)
    note eq = search_other [of rx "plain e", unfolded plain_simps(6), OF other, of icu ops n direction]
    note step = other_step [OF other ok, of icu direction]
    obtain f where f: "execute_instruction icu rx ops direction instr (plain e) = Some f"
      using result unfolding eq by (auto split: option.splits)
    show ?thesis
    proof (cases f)
      case (Next s)
      then obtain e1 where e1: "\<And>n. execute_bytecode icu rx ops (Suc n) direction e = execute_bytecode icu rx ops n direction e1"
          "undoable ops src e e1" "plain e1 = plain s"
        using step f by auto
      have "follows icu rx ops src direction e1 r"
        using result f Next e1(3) undoable_stack_ok [OF e1(2) ok] unfolding eq by (intro IH) simp_all
      then show ?thesis by (rule follows_through [OF through_step [OF e1(1)] e1(2)])
    next
      case (Retry reset s)
      then show ?thesis using step f result unfolding eq by (auto simp del: follows.simps)
    next
      case Accepted
      then have r: "r = Matched (plain e)" using f result unfolding eq by simp
      have "execute_bytecode icu rx ops (Suc 0) direction e = Done (True, e)" using step f Accepted by simp
      then show ?thesis unfolding r follows.simps by (intro exI [of _ "Suc 0"] exI [of _ e]) (simp add: exI [of _ "[]"])
    qed
  qed
qed simp


lemma search_panics:
  "search icu rx ops n direction (plain e) = Panicked \<Longrightarrow> stack_ok e \<Longrightarrow> \<exists>N. execute_bytecode icu rx ops N direction e = Panicked"
proof (induction n arbitrary: direction e)
  case (Suc n)
  note IH = Suc.IH and result = Suc.prems(1) and ok = Suc.prems(2)
  have onward: "\<exists>N. execute_bytecode icu rx ops N direction e = Panicked"
    if "through icu rx ops direction e e2" "undoable ops src e e2" "search icu rx ops n direction (plain e2) = Panicked" for e2
    using IH [OF that(3) undoable_stack_ok [OF that(2) ok]] that(1) unfolding through_def by (metis outcome.distinct(1))
  show ?case
  proof (cases rule: instruction_cases [of "cr_instructions rx" "instruction_index e"])
    case none
    then show ?thesis by (blast intro: execute_no_instruction)
  next
    case (branch a b)
    let ?e = "set_next_instruction a (push_backtrack_restore_state ops (unat b) e)"
    note eq = search_branch [of rx "plain e", unfolded plain_simps(6), OF branch, of icu ops n direction]
    show ?thesis
    proof (cases "search icu rx ops n direction (plain ?e)")
      case Panicked
      then obtain N where "execute_bytecode icu rx ops N direction ?e = Panicked" using IH branch_stack_ok [OF ok] by blast
      then have "execute_bytecode icu rx ops (Suc N) direction e = Panicked" by (simp add: branch_step [OF branch])
      then show ?thesis by blast
    next
      case Out_Of_Fuel
      then show ?thesis using result unfolding eq by simp
    next
      case (Done r1)
      then have sub: "follows icu rx ops src direction ?e r1" using search_followed branch_stack_ok [OF ok] by blast
      obtain reset c w where r1: "r1 = Failed reset c w" using result Done unfolding eq by (cases r1) simp_all
      then obtain e2 where e2: "through icu rx ops direction e e2" "agree e e2" "string_lexer e2 = string_lexer e"
          "plain e2 = set_next_instruction b ((plain e)\<lparr>compare_register := c \<and> \<not> reset, word_boundary_register := w\<rparr>)"
        using through_second_branch [OF branch ok] sub by blast
      show ?thesis
        using e2 result Done r1 unfolding eq by (intro onward [OF e2(1)] agree_undoable) simp_all
    qed
  next
    case (lookaround a p b)
    note eq = search_after_sub [of rx "plain e", unfolded plain_simps(6), OF lookaround, of icu ops n direction, folded plain_enter]
    show ?thesis
    proof (cases "search icu rx ops n a (plain (enter_lookaround ops a b e))")
      case Panicked
      then obtain N where "execute_bytecode icu rx ops N a (enter_lookaround ops a b e) = Panicked" using IH by force
      then have "execute_bytecode icu rx ops (Suc N) direction e = Panicked" by (simp add: execute_lookaround [OF lookaround])
      then show ?thesis by blast
    next
      case Out_Of_Fuel
      then show ?thesis using result unfolding eq by simp
    next
      case (Done r1)
      then have sub: "follows icu rx ops src a (enter_lookaround ops a b e) r1" by (rule search_followed) simp
      obtain e' where e': "after_sub (Lookaround a p b) p (plain e) r1 = Inl e'" "search icu rx ops n direction e' = Panicked"
        using result Done unfolding eq by (auto split: sum.splits)
      then show ?thesis using after_lookaround [OF lookaround ok sub, of direction] onward by auto
    qed
  next
    case (other instr)
    note eq = search_other [of rx "plain e", unfolded plain_simps(6), OF other, of icu ops n direction]
    note step = other_step [OF other ok, of icu direction]
    show ?thesis
    proof (cases "\<exists>s. execute_instruction icu rx ops direction instr (plain e) = Some (Next s)")
      case True
      then obtain s e1 where e1: "execute_instruction icu rx ops direction instr (plain e) = Some (Next s)"
          "\<And>n. execute_bytecode icu rx ops (Suc n) direction e = execute_bytecode icu rx ops n direction e1"
          "undoable ops src e e1" "plain e1 = plain s"
        using step by auto
      then show ?thesis using onward [OF through_step [OF e1(2)] e1(3)] result unfolding eq by simp
    next
      case False
      then show ?thesis using step result unfolding eq by (auto split: option.splits flow.splits)
    qed
  qed
qed simp

lemma search_done_max:
  "search icu rx ops n direction e = Done r \<Longrightarrow> search icu rx ops (max n m) direction e = Done r"
  using search_mono [of n "max n m" icu rx ops direction e] by simp

lemma search_max2:
  "search icu rx ops m direction e \<noteq> Out_Of_Fuel \<Longrightarrow> search icu rx ops (max n m) direction e \<noteq> Out_Of_Fuel"
  using search_mono [of m "max n m" icu rx ops direction e] by simp

text \<open>When the engine ends, so does the search.\<close>

lemma search_ends:
  "execute_bytecode icu rx ops N direction e \<noteq> Out_Of_Fuel \<Longrightarrow> stack_ok e \<Longrightarrow> \<exists>n. search icu rx ops n direction (plain e) \<noteq> Out_Of_Fuel"
proof (induction N arbitrary: direction e rule: less_induct)
  case (less N)
  note IH = less.IH and result = less.prems(1) and ok = less.prems(2)
  obtain k where N: "N = Suc k" using result by (cases N) auto
  have onward: "\<exists>n. search icu rx ops n direction (plain e2) \<noteq> Out_Of_Fuel"
    if "through icu rx ops direction e e2" "undoable ops src e e2" for e2
    using IH [OF _ _ undoable_stack_ok [OF that(2) ok]] that(1) result unfolding through_def by metis
  show ?case
  proof (cases rule: instruction_cases [of "cr_instructions rx" "instruction_index e"])
    case none
    then have "search icu rx ops (Suc 0) direction (plain e) = Panicked" by (simp add: search_no_instruction)
    then show ?thesis by (metis outcome.distinct(1))
  next
    case (branch a b)
    let ?e = "set_next_instruction a (push_backtrack_restore_state ops (unat b) e)"
    note eq = search_branch [of rx "plain e", unfolded plain_simps(6), OF branch, of icu ops _ direction]
    have "execute_bytecode icu rx ops k direction ?e \<noteq> Out_Of_Fuel" using result by (simp add: N branch_step [OF branch])
    then obtain n where n: "search icu rx ops n direction (plain ?e) \<noteq> Out_Of_Fuel"
      using IH [of k] N branch_stack_ok [OF ok] by blast
    show ?thesis
    proof (cases "\<exists>reset c w. search icu rx ops n direction (plain ?e) = Done (Failed reset c w)")
      case True
      then obtain reset c w where r1: "search icu rx ops n direction (plain ?e) = Done (Failed reset c w)" by blast
      then obtain e2 where e2: "through icu rx ops direction e e2" "agree e e2" "string_lexer e2 = string_lexer e"
          "plain e2 = set_next_instruction b ((plain e)\<lparr>compare_register := c \<and> \<not> reset, word_boundary_register := w\<rparr>)"
        using through_second_branch [OF branch ok] search_followed [OF r1 branch_stack_ok [OF ok]] by blast
      obtain m where "search icu rx ops m direction (plain e2) \<noteq> Out_Of_Fuel"
        using onward [OF e2(1)] agree_undoable e2(2,3) by metis
      then have "search icu rx ops (Suc (max n m)) direction (plain e) \<noteq> Out_Of_Fuel"
        unfolding eq using search_done_max [OF r1, of m] search_max2 [where m = m and n = n and e = "plain e2"] e2(4) by simp
      then show ?thesis by blast
    next
      case False
      then have "search icu rx ops (Suc n) direction (plain e) \<noteq> Out_Of_Fuel"
        unfolding eq using n by (auto split: outcome.split verdict.split)
      then show ?thesis by blast
    qed
  next
    case (lookaround a p b)
    note eq = search_after_sub [of rx "plain e", unfolded plain_simps(6), OF lookaround, of icu ops _ direction, folded plain_enter]
    have "execute_bytecode icu rx ops k a (enter_lookaround ops a b e) \<noteq> Out_Of_Fuel"
      using result unfolding N execute_lookaround [OF lookaround] by auto
    then obtain n where n: "search icu rx ops n a (plain (enter_lookaround ops a b e)) \<noteq> Out_Of_Fuel"
      using IH [of k] N stack_ok_enter by blast
    show ?thesis
    proof (cases "search icu rx ops n a (plain (enter_lookaround ops a b e))")
      case (Done r1)
      note after = after_lookaround [OF lookaround ok search_followed [OF Done stack_ok_enter], of direction]
      obtain m where "case after_sub (Lookaround a p b) p (plain e) r1 of Inl e' \<Rightarrow> search icu rx ops m direction e' \<noteq> Out_Of_Fuel | Inr _ \<Rightarrow> True"
        using after onward by (cases "after_sub (Lookaround a p b) p (plain e) r1") auto
      then have "search icu rx ops (Suc (max n m)) direction (plain e) \<noteq> Out_Of_Fuel"
        unfolding eq search_done_max [OF Done] using search_max2 by (auto split: sum.splits)
      then show ?thesis by blast
    next
      case Panicked
      then have "search icu rx ops (Suc n) direction (plain e) = Panicked" unfolding eq by simp
      then show ?thesis by (metis outcome.distinct(1))
    qed (use n in simp)
  next
    case (other instr)
    note eq = search_other [of rx "plain e", unfolded plain_simps(6), OF other, of icu ops _ direction]
    note step = other_step [OF other ok, of icu direction]
    show ?thesis
    proof (cases "\<exists>s. execute_instruction icu rx ops direction instr (plain e) = Some (Next s)")
      case True
      then obtain s e1 where e1: "execute_instruction icu rx ops direction instr (plain e) = Some (Next s)"
          "\<And>n. execute_bytecode icu rx ops (Suc n) direction e = execute_bytecode icu rx ops n direction e1"
          "undoable ops src e e1" "plain e1 = plain s"
        using step by auto
      obtain m where "search icu rx ops m direction (plain e1) \<noteq> Out_Of_Fuel"
        using onward [OF through_step [OF e1(2)] e1(3)] by blast
      then have "search icu rx ops (Suc m) direction (plain e) \<noteq> Out_Of_Fuel" unfolding eq using e1(1,4) by simp
      then show ?thesis by blast
    next
      case False
      then have "search icu rx ops (Suc 0) direction (plain e) \<noteq> Out_Of_Fuel" unfolding eq by (auto split: option.split flow.split)
      then show ?thesis by blast
    qed
  qed
qed


text \<open>The result of the engine, of a search that ends.\<close>

lemma search_result:
  assumes "search icu rx ops n direction e \<noteq> Out_Of_Fuel" "plain e = e"
  shows "\<exists>N. execute_bytecode icu rx ops N direction e \<noteq> Out_Of_Fuel \<and>
    match_result rx (execute_bytecode icu rx ops N direction e) = verdict_result rx (search icu rx ops n direction e)"
proof -
  have e: "backtrack_stack e = []" "backtrack_stack_base e = 0" using assms(2) by (metis plain_simps(3), metis plain_simps(4))
  then have ok: "stack_ok e" by (simp add: stack_ok_def)
  show ?thesis
  proof (cases "search icu rx ops n direction e")
    case Panicked
    then obtain N where "execute_bytecode icu rx ops N direction e = Panicked" using search_panics ok assms(2) by metis
    then show ?thesis using Panicked by (intro exI [of _ N]) (simp add: match_result_def verdict_result_def)
  next
    case (Done r)
    then have follows: "follows icu rx ops src direction e r" using search_followed ok assms(2) by metis
    show ?thesis
    proof (cases r)
      case (Matched s)
      then obtain N e1 where e1: "execute_bytecode icu rx ops N direction e = Done (True, e1)" "plain e1 = s" using follows by auto
      then show ?thesis using Done Matched
        by (intro exI [of _ N]) (auto simp: match_result_def verdict_result_def build_match_plain)
    next
      case (Failed reset c w)
      then obtain e1 where e1: "through_backtrack icu rx ops direction reset e e1" "agree e e1" using follows by auto
      have "backtrack ops e1 = Some (False, e1)" using e1(2) e by (intro backtrack_empty) (simp add: agree_def)
      then have "after_backtrack ops reset k e1 = Done (False, e1)" for k by (simp add: after_backtrack_def)
      then obtain N where "execute_bytecode icu rx ops N direction e = Done (False, e1)"
        using e1(1) unfolding through_backtrack_def by auto
      then show ?thesis using Done Failed by (intro exI [of _ N]) (simp add: match_result_def verdict_result_def)
    qed
  qed (use assms(1) in simp)
qed

lemma engine_is_search:
  assumes "plain e = e" "x \<noteq> Out_Of_Fuel"
  shows "(\<exists>N. match_result rx (execute_bytecode icu rx ops N direction e) = x) \<longleftrightarrow>
    (\<exists>n. verdict_result rx (search icu rx ops n direction e) = x)"
proof
  assume "\<exists>N. match_result rx (execute_bytecode icu rx ops N direction e) = x"
  then obtain N where N: "match_result rx (execute_bytecode icu rx ops N direction e) = x" ..
  then have ends: "execute_bytecode icu rx ops N direction e \<noteq> Out_Of_Fuel" using assms(2) by (auto simp: match_result_def)
  have "stack_ok e" using assms(1) by (metis plain_simps(4) stack_ok_def zero_le)
  then obtain n where n: "search icu rx ops n direction e \<noteq> Out_Of_Fuel" using search_ends [OF ends] assms(1) by auto
  obtain M where "execute_bytecode icu rx ops M direction e \<noteq> Out_Of_Fuel"
      "match_result rx (execute_bytecode icu rx ops M direction e) = verdict_result rx (search icu rx ops n direction e)"
    using search_result [OF n assms(1)] by blast
  then show "\<exists>n. verdict_result rx (search icu rx ops n direction e) = x" using N execute_unique [OF ends] by metis
next
  assume "\<exists>n. verdict_result rx (search icu rx ops n direction e) = x"
  then obtain n where n: "verdict_result rx (search icu rx ops n direction e) = x" ..
  then have "search icu rx ops n direction e \<noteq> Out_Of_Fuel" using assms(2) by (auto simp: verdict_result_def)
  then show "\<exists>N. match_result rx (execute_bytecode icu rx ops N direction e) = x" using search_result [OF _ assms(1)] n by metis
qed


end

lemma run_iff:
  assumes "x \<noteq> Out_Of_Fuel"
  shows "(\<exists>fuel. run_matcher icu rx fuel target start = x) \<longleftrightarrow> (\<exists>fuel. run_search icu rx fuel target start = x)"
proof (cases target)
  case (OneByte buf)
  then show ?thesis unfolding run_matcher_def run_search_def match_lexer_stream_def search_lexer_stream_def
    using ob.engine_is_search [OF plain_engine_new assms] by simp
next
  case (TwoByte buf)
  then show ?thesis unfolding run_matcher_def run_search_def match_lexer_stream_def search_lexer_stream_def
    using cu.engine_is_search [OF plain_engine_new assms] cp.engine_is_search [OF plain_engine_new assms]
    by (cases "cr_has_any_unicode_flag rx") simp_all
qed

lemma matcher_panics_iff:
  "(\<exists>fuel. run_matcher icu rx fuel target start = Panicked) \<longleftrightarrow> (\<exists>fuel. run_search icu rx fuel target start = Panicked)"
  by (rule run_iff) simp

text \<open>
  C6: The matcher implements the search. A run of the engine, with one copy of its registers, a log
  of their changes and a stack of states to return to, returns a match with the same captures, fails,
  or panics, exactly when the search without a stack does, for every code, string and start.
\<close>

theorem matcher_is_search:
  "((\<exists>fuel. run_matcher icu rx fuel target start = Done m) \<longleftrightarrow> (\<exists>fuel. run_search icu rx fuel target start = Done m)) \<and>
   ((\<exists>fuel. run_matcher icu rx fuel target start = Panicked) \<longleftrightarrow> (\<exists>fuel. run_search icu rx fuel target start = Panicked))"
  using run_iff [of "Done m"] run_iff [of Panicked] by simp

end
