(* ===== verification/Regexp_Safety.thy ===== *)
theory Regexp_Safety
  imports Regexp_Quantifier Regexp_Refinement
begin

section \<open>Compiled regular expressions run safely\<close>

text \<open>
  The compiler keeps the invariant of the builder; so the code that it flattens has every target at
  the start of an instruction, no instruction that falls off the end, and registers and captures
  that exist. The matcher runs such code without reading outside of it or of its registers.

  Two instructions are left out. A backreference in a repeated group, and a step backwards at the
  start of a string, do panic: the theorems \<open>self_reference_panics\<close> and
  \<open>Lexer_Stream.backward_step_panics\<close>.
\<close>

primrec forward_disjunction :: "nat \<Rightarrow> 'p disjunction \<Rightarrow> bool"
  and forward_alternative :: "nat \<Rightarrow> 'p alternative \<Rightarrow> bool"
  and forward_term :: "nat \<Rightarrow> 'p re_term \<Rightarrow> bool" where
  "forward_disjunction ng (Disjunction alternatives) \<longleftrightarrow> list_all id (map (forward_alternative ng) alternatives)"
| "forward_alternative ng (Alternative terms) \<longleftrightarrow> list_all id (map (forward_term ng) terms)"
| "forward_term ng (TermLiteral string) \<longleftrightarrow> True"
| "forward_term ng TermWildcard \<longleftrightarrow> True"
| "forward_term ng (TermQuantifier quantified q_min q_max is_greedy) \<longleftrightarrow> forward_term ng quantified"
| "forward_term ng (TermAssertion assertion) \<longleftrightarrow> True"
| "forward_term ng (TermLookaround is_ahead is_positive disjunction) \<longleftrightarrow> is_ahead \<and> forward_disjunction ng disjunction"
| "forward_term ng (TermCaptureGroup name index disjunction) \<longleftrightarrow> unat index \<le> ng \<and> forward_disjunction ng disjunction"
| "forward_term ng (TermAnonymousGroup disjunction positive negative) \<longleftrightarrow> forward_disjunction ng disjunction"
| "forward_term ng (TermCharacterClass character_class) \<longleftrightarrow> True"
| "forward_term ng (TermBackreference index) \<longleftrightarrow> False"

lemma capture_index:
  fixes index :: u32
  assumes "unat index \<le> ng" "ng < 2 ^ 31 - 1"
  shows "unat (index * 2) < 2 * (ng + 1)" "unat (index * 2 + 1) < 2 * (ng + 1)" "unat (index * 2 + 1) = unat index * 2 + 1" "unat (index * 2) = unat index * 2"
  using assms by (simp_all add: unat_word_ariths)

lemma emits_tree:
  assumes ng: "ng < 2 ^ 31 - 1"
  shows "forward_disjunction ng d \<Longrightarrow> emits ng (emit_disjunction icu d)"
    "forward_alternative ng a \<Longrightarrow> emits ng (emit_alternative icu a)"
    "forward_term ng t \<Longrightarrow> emits ng (emit_term icu t)"
proof (induction d and a and t)
  case (Disjunction alternatives)
  then show ?case by (auto simp: list_all_iff intro!: emits_disjunction)
next
  case (Alternative terms)
  then show ?case by (auto simp: list_all_iff intro!: emits_alternative)
next
  case (TermLookaround is_ahead is_positive d)
  then have "is_ahead = True" "emits ng (emit_disjunction icu d)" by simp_all
  then show ?case by (simp only: emit_term.simps) (rule emits_lookahead)
next
  case (TermCaptureGroup name index d)
  then show ?case using capture_index [OF _ ng] by (auto intro: emits_capture_group)
qed (auto intro: emits_leaf emits_quantifier emits_anonymous_group moves_character_class writes_moves writes_literal writes_wildcard writes_assertion)

subsection \<open>The whole builder\<close>

lemma first_block_inv:
  assumes "new_block (builder_new r) = (i, b)"
  shows "builder_inv ng {0} b" "rb_current_block_id b = 0" "length (rb_blocks b) = 1"
proof -
  have "block_ok P []" for P unfolding block_ok_def by (intro exI [of _ "[]"]) simp
  then show "builder_inv ng {0} b" "rb_current_block_id b = 0" "length (rb_blocks b) = 1"
    using assms by (auto simp: new_block_def builder_new_def builder_inv_def total_words_def)
qed

lemma preamble_inv:
  assumes inv: "builder_inv ng {0} b" and c: "rb_current_block_id b = 0" and emit: "emit_preamble b = Some b'"
  shows "builder_inv ng {rb_current_block_id b'} b'"
proof -
  obtain w b1 where b1: "new_block b = (w, b1)" by fastforce
  obtain j b2 where b2: "new_block b1 = (j, b2)" by fastforce
  obtain b3 b4 b5 where b3: "emit_branch j w b2 = Some b3" and b4: "emit Wildcard (set_current_block w b3) = Some b4"
    and b5: "emit_branch j w b4 = Some b5" and b': "b' = set_current_block j b5"
    using emit b1 b2 by (auto simp: emit_preamble_def bind_eq_Some_iff)
  note n1 = new_block_inv [OF inv b1] note n2 = new_block_inv [OF n1(1) b2]
  have ids: "w < length (rb_blocks b2)" "j < length (rb_blocks b2)" using n1(4,5) n2(4,5) by simp_all
  note e3 = emit_branch_inv [OF n2(1) b3 ids(2,1)]
  have w: "w < length (rb_blocks b3)" using ids extends_length [OF e3(2)] by simp
  note e4 = writes_at [OF writes_emit [OF good_simple(2)] e3(1) w b4]
  have ids4: "w < length (rb_blocks b4)" "j < length (rb_blocks b4)" using ids extends_length [OF extends_trans [OF e3(2) e4(3)]] by simp_all
  note e5 = emit_branch_inv [OF e4(1) b5 ids4(2,1)]
  have j5: "j < length (rb_blocks b5)" using ids4 extends_length [OF e5(2)] by simp
  have "builder_inv ng {j} b5" using e4(2) n1(3) n2(3) c j5 by (intro inv_open [OF e5(1)]) auto
  then show ?thesis by (simp add: b' set_current_block_def)
qed

lemma compile_blocks_inv:
  assumes compile: "compile_blocks icu r = Some b" and tree: "forward_disjunction ng (regexp_disjunction r)" and ng: "ng < 2 ^ 31 - 1"
  shows "builder_inv ng {} b"
proof -
  obtain i b0 where b0: "new_block (builder_new r) = (i, b0)" by fastforce
  note first = first_block_inv(1) [OF b0, of ng] first_block_inv(2) [OF b0]
  obtain fl b1 b2 info b3 b4 where b1: "(if \<not> is_sticky fl then emit_preamble b0 else Some b0) = Some b1"
    and b2: "emit (MarkCapturePoint 0) b1 = Some b2" and b3: "emit_disjunction icu (regexp_disjunction r) b2 = Some (info, b3)"
    and b4: "emit (MarkCapturePoint 1) b3 = Some b4" and b: "emit Accept b4 = Some b"
  proof -
    note emit1 = compile [unfolded compile_blocks_def Let_def b0 prod.case]
    obtain fl where 1: "current_flags b0 = Some fl" using emit1 by (elim bind_SomeE)
    note emit2 = emit1 [unfolded 1 bind.bind_lunit]
    obtain b1 where 2: "(if \<not> is_sticky fl then emit_preamble b0 else Some b0) = Some b1" using emit2 by (elim bind_SomeE)
    show thesis using emit2 [unfolded 2 bind.bind_lunit] by (elim bind_SomeE case_prodE2') (rule that [OF 2], auto)
  qed
  have "builder_inv ng {rb_current_block_id b1} b1"
  proof (cases "is_sticky fl")
    case True
    then show ?thesis using b1 first by simp
  next
    case False
    then show ?thesis using b1 by (intro preamble_inv [OF first(1,2)]) simp
  qed
  note w2 = writesD [OF writes_mark this singletonI b2]
  have inv2: "builder_inv ng {rb_current_block_id b2} b2" using w2 by simp
  have m: "moved ng {rb_current_block_id b2} b2 b3" using emitsD [OF emits_tree(1) [OF ng tree] inv2 singletonI b3] by blast
  have inv3: "builder_inv ng {rb_current_block_id b3} b3" using movedD(1) [OF m] by simp
  note w4 = writesD [OF writes_mark inv3 singletonI b4]
  have "builder_inv ng {rb_current_block_id b4} b4" using w4 by simp
  then show ?thesis using emit_inv(1) [OF _ b good_simple(4)] by fastforce
qed

subsection \<open>Flattening\<close>

primrec retarget :: "u32 list \<Rightarrow> re_instruction \<Rightarrow> re_instruction" where
  "retarget m (Literal cp) = Literal cp" | "retarget m Wildcard = Wildcard" | "retarget m WildcardNoNewline = WildcardNoNewline"
| "retarget m (Jump t) = Jump (m ! unat t)" | "retarget m (Branch s t) = Branch (m ! unat s) (m ! unat t)"
| "retarget m Accept = Accept" | "retarget m Fail = Fail" | "retarget m (MarkCapturePoint i) = MarkCapturePoint i"
| "retarget m (ClearCapture i) = ClearCapture i" | "retarget m (Progress i) = Progress i"
| "retarget m (Loop r n t) = Loop r n (m ! unat t)" | "retarget m AssertStart = AssertStart" | "retarget m AssertEnd = AssertEnd"
| "retarget m AssertStartOrNewline = AssertStartOrNewline" | "retarget m AssertEndOrNewline = AssertEndOrNewline"
| "retarget m WordBoundaryMoveToPrevious = WordBoundaryMoveToPrevious" | "retarget m AssertWordBoundary = AssertWordBoundary"
| "retarget m AssertNotWordBoundary = AssertNotWordBoundary" | "retarget m (Backreference i g) = Backreference i g"
| "retarget m ConsumeIfTrue = ConsumeIfTrue" | "retarget m ConsumeIfFalse = ConsumeIfFalse" | "retarget m (CompareEquals cp) = CompareEquals cp"
| "retarget m (CompareBetween s t) = CompareBetween s t" | "retarget m (Lookaround a p t) = Lookaround a p (m ! unat t)"

lemma retarget_simps [simp]:
  "re_size (retarget m instr) = re_size instr" "fits_u24 (retarget m instr) = fits_u24 instr"
  "terminator (retarget m instr) = terminator instr" "targets (retarget m instr) = map (\<lambda>t. m ! unat t) (targets instr)"
  "operands_good ng np nl small (retarget m instr) = operands_good ng np nl small instr"
  by (cases instr; simp add: re_size_def fits_u24_def terminator_def operands_good_def)+

lemma fix_instruction_write:
  assumes "\<forall>t \<in> set (targets instr). unat t < length m"
  shows "fix_instruction m (length pre) instr (pre @ re_write instr @ rest) = Some (pre @ re_write (retarget m instr) @ rest)"
  using assms by (cases instr) (simp_all add: fix_instruction_def set_target_def nth_append list_update_append Let_def)

lemma fix_indices_encode:
  assumes "list_all fits_u24 instrs" "\<forall>instr \<in> set instrs. \<forall>t \<in> set (targets instr). unat t < length m"
  shows "fix_indices m (length pre) (pre @ encode instrs) = Some (pre @ encode (map (retarget m) instrs))"
  using assms
proof (induction instrs arbitrary: pre)
  case Nil
  then show ?case by (simp add: fix_indices.simps)
next
  case (Cons instr instrs)
  let ?pre = "pre @ re_write (retarget m instr)"
  have len: "length ?pre = length pre + re_size instr" by (simp add: re_write_nonempty(2))
  have "fix_indices m (length ?pre) (?pre @ encode instrs) = Some (?pre @ encode (map (retarget m) instrs))"
    using Cons by (intro Cons.IH) simp_all
  then have IH: "fix_indices m (length pre + re_size instr) (pre @ re_write (retarget m instr) @ encode instrs) =
      Some (pre @ re_write (retarget m instr) @ encode (map (retarget m) instrs))" by (simp add: len re_write_nonempty(2))
  have read: "re_read (pre @ re_write instr @ encode instrs) (length pre) = Some instr" using Cons.prems(1) by (intro re_read_write) simp
  have fixed: "fix_instruction m (length pre) instr (pre @ re_write instr @ encode instrs) = Some (pre @ re_write (retarget m instr) @ encode instrs)"
    using Cons.prems(2) by (intro fix_instruction_write) simp
  have "\<not> length (pre @ encode (instr # instrs)) \<le> length pre" using re_write_nonempty(1) [of instr] by simp
  then show ?case
    using IH read fixed re_opcode_size_Some(2) [of instr] re_write_nonempty(1) [of instr]
    by (subst fix_indices.simps) (simp del: re_write.simps)
qed

lemma block_starts_nth: "k < length bs \<Longrightarrow> block_starts i bs ! k = of_nat (i + length (concat (take k bs)))"
  by (induction bs arbitrary: i k) (auto simp: nth_Cons add.assoc split: nat.splits)

lemma length_block_starts [simp]: "length (block_starts i bs) = length bs"
  by (induction bs arbitrary: i) simp_all

lemma blocks_instructions:
  assumes "list_all (block_ok P) bs" "bs \<noteq> []" "closed P (last bs)"
  shows "\<exists>iss. bs = map encode iss \<and> list_all (list_all fits_u24) iss \<and> list_all (list_all P) iss \<and> last iss \<noteq> [] \<and> terminator (last (last iss))"
  using assms
proof (induction bs)
  case (Cons block bs)
  show ?case
  proof (cases "bs = []")
    case True
    then obtain instrs instr where "block = encode (instrs @ [instr])" "list_all fits_u24 (instrs @ [instr])" "list_all P (instrs @ [instr])" "terminator instr"
      using Cons.prems(3) by (auto simp: closed_def)
    then show ?thesis using True by (intro exI [of _ "[instrs @ [instr]]"]) simp
  next
    case False
    obtain iss where iss: "bs = map encode iss" "list_all (list_all fits_u24) iss" "list_all (list_all P) iss" "last iss \<noteq> []" "terminator (last (last iss))"
      using Cons False by auto
    obtain is1 where "block = encode is1" "list_all fits_u24 is1" "list_all P is1" using Cons.prems(1) by (auto simp: block_ok_def)
    then show ?thesis using iss False by (intro exI [of _ "is1 # iss"]) auto
  qed
qed simp

text \<open>
  Code without unsafe instructions: its words are those of \<open>instrs\<close>, the last of which does not
  fall through, and every target is the index of an instruction.
\<close>

definition safe_code :: "nat \<Rightarrow> compiled_regexp \<Rightarrow> re_instruction list \<Rightarrow> bool" where
  "safe_code ng rx instrs \<longleftrightarrow>
     cr_instructions rx = encode instrs \<and> list_all fits_u24 instrs \<and> instrs \<noteq> [] \<and> terminator (last instrs) \<and>
     (\<forall>instr \<in> set instrs. operands_good ng (cr_num_progress_points rx) (cr_num_loop_registers rx) True instr \<and>
        (\<forall>t \<in> set (targets instr). \<exists>k < length instrs. unat t = length (encode (take k instrs))))"

lemma encode_concat: "encode (concat iss) = concat (map encode iss)"
  by (induction iss) simp_all

lemma block_start:
  assumes "k < length iss" "last iss \<noteq> []"
  shows "\<exists>n < length (concat iss). length (concat (take k (map encode iss))) = length (encode (take n (concat iss)))"
proof (intro exI [of _ "length (concat (take k iss))"] conjI)
  have iss: "concat iss = concat (take k iss) @ concat (drop k iss)" by (metis append_take_drop_id concat_append)
  have "last iss \<in> set (drop k iss)" using assms(1) by (metis drop_eq_Nil2 last_drop last_in_set leD)
  then have "concat (drop k iss) \<noteq> []" using assms(2) by (auto simp: concat_eq_Nil_conv)
  then show "length (concat (take k iss)) < length (concat iss)" by (simp add: iss)
  have "take (length (concat (take k iss))) (concat iss) = concat (take k iss)" by (simp add: iss)
  then show "length (concat (take k (map encode iss))) = length (encode (take (length (concat (take k iss))) (concat iss)))"
    by (simp add: encode_concat take_map)
qed

lemma take_retarget: "length (encode (map (retarget m) xs)) = length (encode xs)"
  by (induction xs) (simp_all add: re_write_nonempty(2))

lemma flatten_safe:
  assumes inv: "builder_inv ng {} b" and small: "total_words b < 2 ^ 32"
    and code: "flatten_and_fix_indices b = Some ws" and rx: "cr_instructions rx = ws"
      "cr_num_progress_points rx = rb_num_progress_points b" "cr_num_loop_registers rx = rb_num_loop_registers b"
  shows "\<exists>instrs. safe_code ng rx instrs"
proof -
  obtain iss where iss: "rb_blocks b = map encode iss" "list_all (list_all fits_u24) iss" "list_all (list_all (good ng b)) iss"
      "last iss \<noteq> []" "terminator (last (last iss))"
    using blocks_instructions [of "good ng b" "rb_blocks b"] inv by (auto simp: builder_inv_def)
  define m where "m = block_starts 0 (rb_blocks b)"
  let ?is = "concat iss" and ?js = "map (retarget m) (concat iss)"
  have len: "length m = length iss" by (simp add: m_def iss(1))
  have fits: "list_all fits_u24 ?is" and good: "\<forall>instr \<in> set ?is. good ng b instr" using iss(2,3) by (auto simp: list_all_iff)
  have valid: "\<forall>instr \<in> set ?is. \<forall>t \<in> set (targets instr). unat t < length m" using good len iss(1) by (auto simp: good_def)
  have "fix_indices m (length ([] :: u32 list)) ([] @ encode ?is) = Some ([] @ encode ?js)" by (rule fix_indices_encode [OF fits valid])
  then have "flatten_and_fix_indices b = Some (encode ?js)" by (simp add: flatten_and_fix_indices_def m_def encode_concat iss(1))
  then have ws: "ws = encode ?js" using code by simp
  have ne: "iss \<noteq> []" using inv iss(1) by (auto simp: builder_inv_def)
  have last: "?is \<noteq> [] \<and> last ?is = last (last iss)"
    using ne iss(4) by (metis append_butlast_last_id append_is_Nil_conv concat.simps concat_append last_appendR append_Nil2)
  have "\<exists>k < length ?js. unat (m ! unat t) = length (encode (take k ?js))" if t: "instr \<in> set ?is" "t \<in> set (targets instr)" for instr t
  proof -
    have k: "unat t < length iss" using valid t len by auto
    obtain n where n: "n < length ?is" "length (concat (take (unat t) (map encode iss))) = length (encode (take n ?is))"
      using block_start [OF k iss(4)] by blast
    have "length (encode (take n ?is)) \<le> length (encode ?is)" by (metis append_take_drop_id encode_simps(3) le_add1 length_append)
    also have "\<dots> < 2 ^ 32" using small by (simp add: total_words_def iss(1) encode_concat)
    finally have "unat (of_nat (length (encode (take n ?is))) :: u32) = length (encode (take n ?is))" by (simp add: unat_of_nat)
    then have "unat (m ! unat t) = length (encode (take n ?js))"
      using k n(2) by (simp add: m_def block_starts_nth iss(1) take_map take_retarget)
    then show ?thesis using n(1) by auto
  qed
  moreover have "operands_good ng (rb_num_progress_points b) (rb_num_loop_registers b) True instr" if "instr \<in> set ?is" for instr
    using bspec [OF good that] small by (simp add: good_def)
  ultimately have "safe_code ng rx ?js"
    using ws rx fits last iss(5) by (auto simp: safe_code_def list_all_iff last_map)
  then show ?thesis ..
qed

subsection \<open>Running safe code\<close>

text \<open>The engine stands at an instruction and has the registers that the code uses.\<close>

definition registers_ok :: "nat \<Rightarrow> compiled_regexp \<Rightarrow> 's match_engine \<Rightarrow> bool" where
  "registers_ok ng rx e \<longleftrightarrow>
     length (capture_points e) = 2 * (ng + 1) \<and> length (progress_points e) = unat (cr_num_progress_points rx) \<and>
     length (loop_registers e) = unat (cr_num_loop_registers rx)"

definition at_instruction :: "re_instruction list \<Rightarrow> 's match_engine \<Rightarrow> bool" where
  "at_instruction instrs e \<longleftrightarrow> (\<exists>k < length instrs. instruction_index e = length (encode (take k instrs)))"

lemma registers_update [simp]:
  "registers_ok ng rx (advance_instruction instr e) = registers_ok ng rx e" "registers_ok ng rx (set_next_instruction t e) = registers_ok ng rx e"
  "registers_ok ng rx (reset_compare_register e) = registers_ok ng rx e" "registers_ok ng rx (plain e) = registers_ok ng rx e"
  "registers_ok ng rx (no_advance_read_code_point_in_direction ops d e) = registers_ok ng rx e"
  "registers_ok ng rx (e\<lparr>string_lexer := s\<rparr>) = registers_ok ng rx e" "registers_ok ng rx (e\<lparr>instruction_index := i\<rparr>) = registers_ok ng rx e"
  "registers_ok ng rx (e\<lparr>compare_register := c\<rparr>) = registers_ok ng rx e" "registers_ok ng rx (e\<lparr>word_boundary_register := c\<rparr>) = registers_ok ng rx e"
  by (simp_all add: registers_ok_def advance_instruction_def set_next_instruction_def reset_compare_register_def
      no_advance_read_code_point_in_direction_def)

lemma at_plain [simp]: "at_instruction instrs (plain e) = at_instruction instrs e"
  by (simp add: at_instruction_def)

lemma read_safe:
  assumes "safe_code ng rx instrs" "at_instruction instrs e"
  obtains k where "k < length instrs" "instruction_index e = length (encode (take k instrs))"
    "re_read (cr_instructions rx) (instruction_index e) = Some (instrs ! k)"
proof -
  obtain k where k: "k < length instrs" "instruction_index e = length (encode (take k instrs))" using assms(2) by (auto simp: at_instruction_def)
  have "instrs = take k instrs @ instrs ! k # drop (Suc k) instrs" using k(1) by (simp add: id_take_nth_drop)
  then have enc: "encode instrs = encode (take k instrs) @ re_write (instrs ! k) @ encode (drop (Suc k) instrs)"
    by (metis encode_simps(2,3))
  have "fits_u24 (instrs ! k)" using assms(1) k(1) by (simp add: safe_code_def list_all_length)
  then have "re_read (encode instrs) (length (encode (take k instrs))) = Some (instrs ! k)" unfolding enc by (rule re_read_write)
  then show thesis using that k assms(1) by (simp add: safe_code_def)
qed

lemma next_instruction:
  assumes "safe_code ng rx instrs" "k < length instrs" "\<not> terminator (instrs ! k)" "i = length (encode (take k instrs)) + re_size (instrs ! k)"
  shows "\<exists>n < length instrs. i = length (encode (take n instrs))"
proof -
  have "k \<noteq> length instrs - 1" using assms(1,3) by (auto simp: safe_code_def last_conv_nth)
  then have "Suc k < length instrs" using assms(2) by simp
  moreover have "i = length (encode (take (Suc k) instrs))" using assms(2,4) by (simp add: take_Suc_conv_app_nth re_write_nonempty(2))
  ultimately show ?thesis by blast
qed

lemma at_target:
  assumes "safe_code ng rx instrs" "instr \<in> set instrs" "t \<in> set (targets instr)"
  shows "at_instruction instrs (set_next_instruction t e)"
  using assms by (auto simp: safe_code_def at_instruction_def set_next_instruction_def)

lemma at_advance:
  assumes "safe_code ng rx instrs" "k < length instrs" "\<not> terminator (instrs ! k)" "instruction_index e = length (encode (take k instrs))"
  shows "at_instruction instrs (advance_instruction (instrs ! k) e)"
  using next_instruction [OF assms(1-3) refl] assms(4) by (simp add: at_instruction_def advance_instruction_def)

text \<open>Everything but branches and lookaheads, forwards.\<close>

fun flow_safe :: "nat \<Rightarrow> compiled_regexp \<Rightarrow> re_instruction list \<Rightarrow> 's flow option \<Rightarrow> bool" where
  "flow_safe ng rx instrs None = False"
| "flow_safe ng rx instrs (Some (Next e)) \<longleftrightarrow> at_instruction instrs e \<and> registers_ok ng rx e"
| "flow_safe ng rx instrs (Some (Retry reset e)) = True"
| "flow_safe ng rx instrs (Some Accepted) = True"

lemma push_safe:
  "registers_ok ng rx e \<Longrightarrow> unat i < 2 * (ng + 1) \<Longrightarrow> \<exists>e'. push_capture_point i v e = Some e' \<and> registers_ok ng rx e' \<and> instruction_index e' = instruction_index e"
  "registers_ok ng rx e \<Longrightarrow> i < cr_num_progress_points rx \<Longrightarrow> \<exists>e'. push_progress_point i v e = Some e' \<and> registers_ok ng rx e' \<and> instruction_index e' = instruction_index e"
  "registers_ok ng rx e \<Longrightarrow> i < cr_num_loop_registers rx \<Longrightarrow> \<exists>e'. push_loop_register i w e = Some e' \<and> registers_ok ng rx e' \<and> instruction_index e' = instruction_index e"
  by (auto simp: push_defs registers_ok_def word_less_nat_alt)

lemma advance_forward: "advance_code_point_in_direction ops True e = Some (e\<lparr>string_lexer := so_advance_code_point ops (string_lexer e)\<rparr>)"
  by (simp add: advance_code_point_in_direction_def)

lemma instruction_safe:
  fixes e :: "'s match_engine"
  assumes safe: "safe_code ng rx instrs" and k: "k < length instrs" "instruction_index e = length (encode (take k instrs))"
    and regs: "registers_ok ng rx e" and other: "\<And>a b. instrs ! k \<noteq> Branch a b" "\<And>a p b. instrs ! k \<noteq> Lookaround a p b"
  shows "flow_safe ng rx instrs (execute_instruction icu rx ops True (instrs ! k) e)"
proof -
  have good: "operands_good ng (cr_num_progress_points rx) (cr_num_loop_registers rx) True (instrs ! k)"
    using safe k(1) by (auto simp: safe_code_def)
  have mem: "instrs ! k \<in> set instrs" using k(1) by simp
  have adv: "at_instruction instrs (advance_instruction (instrs ! k) e')" if "\<not> terminator (instrs ! k)" "instruction_index e' = instruction_index e" for e' :: "'s match_engine"
    using at_advance [OF safe k(1) that(1)] that(2) k(2) by simp
  note updates = advance_instruction_def reset_compare_register_def no_advance_read_code_point_in_direction_def set_next_instruction_def
  have other_fields: "at_instruction instrs (reset_compare_register e') = at_instruction instrs e'" for e' :: "'s match_engine"
    by (simp add: at_instruction_def reset_compare_register_def)
  have moved: "instruction_index (no_advance_read_code_point_in_direction ops d e') = instruction_index e'" for d and e' :: "'s match_engine"
    by (simp add: no_advance_read_code_point_in_direction_def)
  show ?thesis
  proof (cases "instrs ! k")
    case (Jump t)
    then show ?thesis using at_target [OF safe mem, of t e] regs by simp
  next
    case (MarkCapturePoint i)
    then obtain e' where "push_capture_point i (of_nat (so_pos ops (string_lexer e))) e = Some e'" "registers_ok ng rx e'" "instruction_index e' = instruction_index e"
      using push_safe(1) [OF regs] good by (auto simp: operands_good_def)
    then show ?thesis using adv [of e'] MarkCapturePoint by simp
  next
    case (ClearCapture g)
    then obtain e' where "push_capture_point (g * 2 + 1) EMPTY_STRING_INDEX e = Some e'" "registers_ok ng rx e'" "instruction_index e' = instruction_index e"
      using push_safe(1) [OF regs] good by (auto simp: operands_good_def)
    then show ?thesis using adv [of e'] ClearCapture by simp
  next
    case (Progress i)
    then obtain e' where e': "push_progress_point i (of_nat (so_pos ops (string_lexer e))) e = Some e'" "registers_ok ng rx e'" "instruction_index e' = instruction_index e"
      using push_safe(2) [OF regs] good by (auto simp: operands_good_def)
    moreover obtain v where "get_progress_point i e = Some v" using e'(1) by (auto simp: push_progress_point_def bind_eq_Some_iff)
    ultimately show ?thesis using adv [of e'] Progress by (simp add: Let_def)
  next
    case (Loop r n t)
    have r: "r < cr_num_loop_registers rx" using good Loop by (simp add: operands_good_def)
    obtain v where v: "get_loop_register r e = Some v" using regs r by (simp add: get_loop_register_def registers_ok_def word_less_nat_alt)
    obtain e1 where e1: "push_loop_register r (v + 1) e = Some e1" "registers_ok ng rx e1" "instruction_index e1 = instruction_index e" using push_safe(3) [OF regs r] by blast
    obtain e2 where e2: "push_loop_register r 0 e = Some e2" "registers_ok ng rx e2" "instruction_index e2 = instruction_index e" using push_safe(3) [OF regs r] by blast
    show ?thesis using v e1 e2 adv [of e1] at_target [OF safe mem, of t e2] Loop by simp
  next
    case (Branch a b)
    then show ?thesis using other(1) by simp
  next
    case (Lookaround a p b)
    then show ?thesis using other(2) by simp
  next
    case (Backreference ci g)
    then show ?thesis using good by (simp add: operands_good_def)
  qed (use adv regs in \<open>auto simp: consume_if_def assert_that_def advance_forward terminator_def Let_def other_fields moved\<close>)
qed

lemma at_instruction_index: "at_instruction instrs (e\<lparr>string_lexer := s, instruction_index := i\<rparr>) \<longleftrightarrow> (\<exists>k < length instrs. i = length (encode (take k instrs)))"
  "at_instruction instrs (e\<lparr>compare_register := c, word_boundary_register := w, instruction_index := i\<rparr>) \<longleftrightarrow> (\<exists>k < length instrs. i = length (encode (take k instrs)))"
  "at_instruction instrs (no_advance_read_code_point_in_direction ops d e) = at_instruction instrs e"
  by (simp_all add: at_instruction_def no_advance_read_code_point_in_direction_def)

lemma search_safe:
  fixes e :: "'s match_engine"
  assumes safe: "safe_code ng rx instrs"
  shows "at_instruction instrs e \<Longrightarrow> registers_ok ng rx e \<Longrightarrow>
    search icu rx ops n True e \<noteq> Panicked \<and> (\<forall>e'. search icu rx ops n True e = Done (Matched e') \<longrightarrow> registers_ok ng rx e')"
proof (induction n arbitrary: e)
  case (Suc n)
  note IH = Suc.IH and regs = Suc.prems(2)
  obtain k where k: "k < length instrs" "instruction_index e = length (encode (take k instrs))"
    and read: "re_read (cr_instructions rx) (instruction_index e) = Some (instrs ! k)"
    using read_safe [OF safe Suc.prems(1)] by blast
  have mem: "instrs ! k \<in> set instrs" using k(1) by simp
  show ?case
  proof (cases rule: instruction_cases [of "cr_instructions rx" "instruction_index e"])
    case none
    then show ?thesis using read by simp
  next
    case (branch a b)
    have instr: "instrs ! k = Branch a b" using read branch by simp
    have first: "at_instruction instrs (set_next_instruction a e)" and second: "at_instruction instrs (set_next_instruction b e')" for e' :: "'s match_engine"
      using at_target [OF safe mem, of a e] at_target [OF safe mem, of b e'] instr by simp_all
    have retry: "search icu rx ops n True (set_next_instruction b (e\<lparr>compare_register := c, word_boundary_register := w\<rparr>)) \<noteq> Panicked \<and>
        (\<forall>e'. search icu rx ops n True (set_next_instruction b (e\<lparr>compare_register := c, word_boundary_register := w\<rparr>)) = Done (Matched e') \<longrightarrow>
           registers_ok ng rx e')" for c w
      using regs by (intro IH [OF second]) simp
    show ?thesis
      using IH [OF first] retry regs unfolding search_branch [OF branch] by (auto split: outcome.splits verdict.splits)
  next
    case (lookaround a p b)
    have instr: "instrs ! k = Lookaround a p b" using read lookaround by simp
    have a: "a = True" using safe mem instr by (fastforce simp: safe_code_def operands_good_def)
    have after: "\<exists>n < length instrs. instruction_index e + re_size (Lookaround a p b) = length (encode (take n instrs))"
      using next_instruction [OF safe k(1) _ refl] instr k(2) by simp
    have body: "at_instruction instrs (no_advance_read_code_point_in_direction ops True (set_next_instruction b e))"
      using at_target [OF safe mem, of b e] instr by (simp add: at_instruction_index)
    let ?i = "instruction_index e + re_size (Lookaround a p b)"
    define resumes where "resumes = (\<lambda>e1. search icu rx ops n True e1 \<noteq> Panicked \<and>
      (\<forall>e'. search icu rx ops n True e1 = Done (Matched e') \<longrightarrow> registers_ok ng rx e'))"
    have matched: "resumes (e1\<lparr>string_lexer := string_lexer e, instruction_index := ?i\<rparr>)" if "registers_ok ng rx e1" for e1
      unfolding resumes_def using that after by (intro IH) (simp_all add: at_instruction_index)
    have failed: "resumes (e\<lparr>compare_register := c, word_boundary_register := w, instruction_index := ?i\<rparr>)" for c w
      unfolding resumes_def using regs after by (intro IH) (simp_all add: at_instruction_index)
    show ?thesis
      using IH [OF body] regs matched failed unfolding search_lookaround [OF lookaround] a resumes_def
      by (auto split: outcome.splits verdict.splits if_splits)
  next
    case (other instr)
    have instr: "instr = instrs ! k" using read other(1) by simp
    have flow: "flow_safe ng rx instrs (execute_instruction icu rx ops True instr e)"
      unfolding instr using other(2,3) by (intro instruction_safe [OF safe k regs]) (simp_all add: instr)
    show ?thesis
    proof (cases "execute_instruction icu rx ops True instr e")
      case None
      then show ?thesis using flow by simp
    next
      case (Some f)
      show ?thesis
      proof (cases f)
        case (Next e1)
        then have "at_instruction instrs (plain e1)" "registers_ok ng rx (plain e1)" using flow Some by simp_all
        then have "search icu rx ops n True (plain e1) \<noteq> Panicked \<and>
            (\<forall>e'. search icu rx ops n True (plain e1) = Done (Matched e') \<longrightarrow> registers_ok ng rx e')" by (rule IH)
        then show ?thesis unfolding search_other [OF other] using Some Next by simp
      qed (use Some regs in \<open>simp_all add: search_other [OF other]\<close>)
    qed
  qed
qed simp

lemma those_Some: "(\<And>x. x \<in> set xs \<Longrightarrow> f x \<noteq> None) \<Longrightarrow> those (map f xs) \<noteq> None"
  by (induction xs) (auto split: option.splits)

lemma build_match_safe:
  assumes "registers_ok ng rx e" "cr_num_capture_groups rx = of_nat ng" "ng < 2 ^ 31 - 1"
  shows "build_match rx e \<noteq> None"
  unfolding build_match_def
proof (rule those_Some)
  fix i
  assume "i \<in> set [0..<unat (cr_num_capture_groups rx + 1)]"
  moreover have "unat (of_nat ng + 1 :: u32) = ng + 1" using assms(3) by (simp add: unat_word_ariths unat_of_nat)
  ultimately have i: "i \<le> ng" unfolding assms(2) by (simp only: set_upt atLeastLessThan_iff) simp
  then have "unat (of_nat i :: u32) = i" using assms(3) by (simp add: unat_of_nat)
  then show "get_valid_capture_bounds (of_nat i) e \<noteq> None"
    using capture_index(1,2) [of "of_nat i" ng] i assms(1,3) by (simp add: get_valid_capture_bounds_def get_capture_point_def registers_ok_def)
qed

lemma search_stream_safe:
  assumes "safe_code ng rx instrs" "cr_num_capture_groups rx = of_nat ng" "ng < 2 ^ 31 - 1"
  shows "search_lexer_stream icu rx ops fuel lexer start \<noteq> Panicked"
proof -
  let ?e = "engine_new rx (so_advance_n ops (unat start) lexer)"
  have "unat (of_nat ng :: u32) = ng" using assms(3) by (simp add: unat_of_nat)
  then have regs: "registers_ok ng rx ?e" by (simp add: registers_ok_def engine_new_def assms(2))
  have at: "at_instruction instrs ?e" using assms(1) by (auto simp: at_instruction_def engine_new_def safe_code_def intro: exI [of _ 0])
  note s = search_safe [OF assms(1) at regs, of icu ops fuel]
  then show ?thesis
    unfolding search_lexer_stream_def verdict_result_def
    by (auto split: outcome.splits verdict.splits option.splits dest: build_match_safe [OF _ assms(2,3)])
qed

lemma fix_indices_length: "fix_indices m i ws = Some ws' \<Longrightarrow> length ws' = length ws"
proof (induction m i ws arbitrary: ws' rule: fix_indices.induct)
  case (1 m i ws)
  show ?case
  proof (cases "length ws \<le> i")
    case True
    then show ?thesis using 1(2) by (subst (asm) fix_indices.simps) simp
  next
    case False
    obtain instr ws1 where ws1: "re_read ws i = Some instr" "fix_instruction m i instr ws = Some ws1" "re_size instr \<noteq> 0"
        "fix_indices m (i + re_size instr) ws1 = Some ws'"
      using 1(2) False by (subst (asm) fix_indices.simps) (auto simp: bind_eq_Some_iff split: if_splits)
    show ?thesis using 1(1) [OF False ws1(1,2,3,4)] fix_instruction_length [OF ws1(2)] by simp
  qed
qed

lemma flatten_length: "flatten_and_fix_indices b = Some ws \<Longrightarrow> length ws = length (concat (rb_blocks b))"
  unfolding flatten_and_fix_indices_def by (rule fix_indices_length)

text \<open>
  C2: compiled regular expressions never crash the matcher. A regular expression without
  backreferences and lookbehinds, whose groups are numbered within the groups of the expression, is
  compiled to code that the matcher runs, on every string, from every start and for any number of
  steps, without a panic: it reads no instruction outside of the code, and no capture, progress point
  or loop register that does not exist. The code has fewer than \<open>2 ^ 32\<close> words, and the
  expression fewer than \<open>2 ^ 31 - 1\<close> groups.
\<close>

theorem compiled_code_is_safe:
  assumes "compile_regexp sets alloc r = Some rx" "forward_disjunction (length (regexp_capture_groups r)) (regexp_disjunction r)"
    "length (regexp_capture_groups r) < 2 ^ 31 - 1" "length (cr_instructions rx) < 2 ^ 32"
  shows "run_matcher icu rx fuel target start \<noteq> Panicked"
proof -
  let ?ng = "length (regexp_capture_groups r)"
  obtain b where b: "compile_blocks sets r = Some b" "flatten_and_fix_indices b = Some (cr_instructions rx)"
      "cr_num_capture_groups rx = of_nat ?ng" "cr_num_progress_points rx = rb_num_progress_points b" "cr_num_loop_registers rx = rb_num_loop_registers b"
    using assms(1) by (auto simp: compile_regexp_def bind_eq_Some_iff)
  note inv = compile_blocks_inv [OF b(1) assms(2,3)]
  have "total_words b < 2 ^ 32" using flatten_length [OF b(2)] assms(4) by (simp add: total_words_def)
  then obtain instrs where safe: "safe_code ?ng rx instrs" using flatten_safe [OF inv _ b(2) refl b(4,5)] by blast
  have "run_search icu rx fuel' target start \<noteq> Panicked" for fuel'
    by (cases target) (simp_all add: run_search_def search_stream_safe [OF safe b(3) assms(3)])
  then show ?thesis using matcher_panics_iff by metis
qed

subsection \<open>Expressions and sets for evaluation\<close>

definition simple_regexp :: "'p re_term list \<Rightarrow> nat \<Rightarrow> 'p regexp" where
  "simple_regexp terms groups =
     \<lparr>regexp_disjunction = Disjunction [Alternative terms], regexp_flags = 0,
      regexp_has_duplicate_named_capture_groups = False, regexp_capture_groups = replicate groups None\<rparr>"

definition capture :: "u32 \<Rightarrow> 'p re_term list \<Rightarrow> 'p re_term" where
  "capture index terms = TermCaptureGroup None index (Disjunction [Alternative terms])"

text \<open>Sets as the list of the ranges that were added, without case tables and properties.\<close>

definition range_sets :: "((code_point \<times> code_point) list, unit) icu_sets" where
  "range_sets =
     \<lparr>set_new = [], set_all = [(0, MAX_CODE_POINT)], set_add_range = (\<lambda>a b cs. cs @ [(a, b)]), set_add_set = (\<lambda>x y. y @ x),
      set_retain_set = (\<lambda>x y. filter (\<lambda>r. r \<in> set x) y), set_remove_set = (\<lambda>x y. filter (\<lambda>r. r \<notin> set x) y), set_complement = (\<lambda>x. x),
      set_size = (\<lambda>cs. sum_list (map (\<lambda>(a, b). unat (b - a) + 1) cs)), set_iter_ranges = (\<lambda>cs. cs),
      set_iter_chars = (\<lambda>cs. filter is_char (concat (map (\<lambda>(a, b). map of_nat [unat a..<Suc (unat b)]) cs))),
      set_simple_fold = (\<lambda>x. x), set_add_case_closure_to = (\<lambda>_ cs. cs), set_case_closure_override = (\<lambda>_. None),
      set_all_case_folded = [], property_add_to_set = (\<lambda>_ cs. cs), property_strings = (\<lambda>_. [])\<rparr>"

definition identity_case :: icu_case where
  "identity_case = \<lparr>simple_fold = (\<lambda>x. x), simple_uppercase = (\<lambda>x. x)\<rparr>"

text \<open>\<open>/(a)*(?=b)/\<close>\<close>

definition stars :: "unit regexp" where
  "stars = simple_regexp
     [TermQuantifier (capture 1 [TermLiteral [97]]) 0 None True, TermLookaround True True (Disjunction [Alternative [TermLiteral [98]]])] 1"

theorem compiled_code_is_safe_witness:
  "run_matcher identity_case (the (compile_regexp range_sets (\<lambda>_. 0) stars)) 100 (OneByte [97, 98]) 0 \<noteq> Panicked"
proof (rule compiled_code_is_safe)
  have "map_option (\<lambda>rx. length (cr_instructions rx) < 100) (compile_regexp range_sets (\<lambda>_. 0) stars) = Some True" by code_simp
  then obtain rx where rx: "compile_regexp range_sets (\<lambda>_. 0) stars = Some rx" "length (cr_instructions rx) < 100" by auto
  then show "compile_regexp range_sets (\<lambda>_. 0) stars = Some (the (compile_regexp range_sets (\<lambda>_. 0) stars))"
    "length (cr_instructions (the (compile_regexp range_sets (\<lambda>_. 0) stars))) < 2 ^ 32" by simp_all
qed (simp_all add: stars_def simple_regexp_def capture_def)

subsection \<open>Expressions that go wrong\<close>

text \<open>\<open>/(?:(a\1)b)*/\<close>: in the second repitition the start of the group is after its old end.\<close>

definition self_reference :: "unit regexp" where
  "self_reference = simple_regexp
     [TermQuantifier (TermAnonymousGroup (Disjunction [Alternative [capture 1 [TermLiteral [97], TermBackreference 1], TermLiteral [98]]]) 0 0) 0 None True] 1"


text \<open>\<open>/(?![^a])[bc]/\<close>\<close>

definition stale_register :: "unit regexp" where
  "stale_register = simple_regexp
     [TermLookaround True False (Disjunction [Alternative [TermCharacterClass (CharacterClass ClassUnion True [Single 97])]]),
      TermCharacterClass (CharacterClass ClassUnion False [Range 98 99])] 0"


text \<open>\<open>/a{0,4294967296}/\<close>\<close>

definition huge_maximum :: "unit regexp" where
  "huge_maximum = simple_regexp [TermQuantifier (TermLiteral [97]) 0 (Some 0x100000000) True] 0"

text \<open>
  A quantifier with a huge maximum never matches. When the number of optional repititions
  exceeds \<open>u32::MAX\<close>, the compiler emits \<open>Fail\<close>, which is right for required repititions
  only: \<open>/a{0,4294967296}/\<close> does not match \<open>a\<close>, nor the empty string before it.
\<close>

theorem huge_maximum_fails:
  "\<exists>rx. compile_regexp range_sets (\<lambda>_. 0) huge_maximum = Some rx \<and>
     run_matcher identity_case rx 100 (OneByte [97]) 0 = Done None"
proof -
  have "map_option (\<lambda>rx. run_matcher identity_case rx 100 (OneByte [97]) 0) (compile_regexp range_sets (\<lambda>_. 0) huge_maximum) =
      Some (Done None)" by code_simp
  then show ?thesis by auto
qed

end
