(* ===== verification/Rope_String.thy ===== *)
theory Rope_String
  imports Flat_String
begin

section \<open>Strings on the heap\<close>

text \<open>
  String values (\<open>StringValue\<close>, \<open>ConcatString\<close> of \<open>runtime/string_value.rs\<close>):
  concatenation builds a node that points to both sides, and the first operation that needs the code
  units flattens the tree and overwrites the node with a forwarding node to the new flat string. The
  node is shared with every value that holds it, so the heap is an explicit store from addresses to
  items.

  Where the heap places a new item is the parameter \<open>fresh\<close>; \<open>None\<close> is an allocation
  that fails. An operation returns the heap and an \<open>AllocResult\<close>; a panic, and an access outside
  a live item, is \<open>None\<close>. Lengths are 32-bit words and their sums wrap.
\<close>

type_synonym string_ptr = nat

datatype string_item =
    Flat flat_string
  | Concat u32 string_width string_ptr "string_ptr option"

type_synonym string_heap = "string_ptr \<rightharpoonup> string_item"

datatype string_alloc_error = Oom

type_synonym 'a string_op = "string_heap \<Rightarrow> (string_heap \<times> (string_alloc_error + 'a)) option"

definition op_ok :: "'a \<Rightarrow> 'a string_op" where
  "op_ok x h = Some (h, Inr x)"

text \<open>The operator \<open>?\<close> between two operations.\<close>

definition op_then :: "'a string_op \<Rightarrow> ('a \<Rightarrow> 'b string_op) \<Rightarrow> 'b string_op" where
  "op_then m f h =
     (case m h of
        None \<Rightarrow> None
      | Some (h', Inl e) \<Rightarrow> Some (h', Inl e)
      | Some (h', Inr x) \<Rightarrow> f x h')"

text \<open>A step that may panic and does not touch the heap.\<close>

definition op_lift :: "'a option \<Rightarrow> 'a string_op" where
  "op_lift r h = map_option (\<lambda>x. (h, Inr x)) r"

type_synonym placement = "string_heap \<Rightarrow> string_ptr option"

definition alloc_item :: "placement \<Rightarrow> string_item \<Rightarrow> string_ptr string_op" where
  "alloc_item fresh it h =
     (case fresh h of None \<Rightarrow> Some (h, Inl Oom) | Some p \<Rightarrow> Some (h(p \<mapsto> it), Inr p))"

subsection \<open>Concatenation\<close>

primrec item_len :: "string_item \<Rightarrow> u32" where
  "item_len (Flat s) = flat_len s"
| "item_len (Concat n w l r) = n"

primrec item_width :: "string_item \<Rightarrow> string_width" where
  "item_width (Flat s) = flat_width s"
| "item_width (Concat n w l r) = w"

definition string_item_at :: "string_ptr \<Rightarrow> string_item string_op" where
  "string_item_at p h = op_lift (h p) h"

definition rope_concat :: "placement \<Rightarrow> string_ptr \<Rightarrow> string_ptr \<Rightarrow> string_ptr string_op" where
  "rope_concat fresh left right =
     op_then (string_item_at left) (\<lambda>l. op_then (string_item_at right) (\<lambda>r.
       let new_len = item_len l + item_len r;
           w = (if item_width l = TwoByteWidth \<or> item_width r = TwoByteWidth then TwoByteWidth else OneByteWidth)
       in alloc_item fresh (Concat new_len w left (Some right))))"

fun rope_concat_rest :: "placement \<Rightarrow> string_ptr \<Rightarrow> string_ptr list \<Rightarrow> string_ptr string_op" where
  "rope_concat_rest fresh s [] = op_ok s"
| "rope_concat_rest fresh s (t # ts) = op_then (rope_concat fresh s t) (\<lambda>s. rope_concat_rest fresh s ts)"

text \<open>\<open>empty_string\<close> is the interned empty string of the context.\<close>

definition rope_concat_all :: "placement \<Rightarrow> string_ptr \<Rightarrow> string_ptr list \<Rightarrow> string_ptr string_op" where
  "rope_concat_all fresh empty_string strings =
     (case strings of [] \<Rightarrow> op_ok empty_string | s # ss \<Rightarrow> rope_concat_rest fresh s ss)"

subsection \<open>Flattening\<close>

text \<open>
  The loops over the stack of strings that remain to be written, topmost first, with room for
  \<open>n\<close> units. They end only when the strings below the stack form a finite tree.
\<close>

partial_function (option) flatten_one_byte ::
  "string_heap \<Rightarrow> nat \<Rightarrow> string_ptr list \<Rightarrow> u8 list \<Rightarrow> u8 list option" where
  "flatten_one_byte h n stack buf =
     (case stack of
        [] \<Rightarrow> Some buf
      | current # stack \<Rightarrow>
          (case h current of
             None \<Rightarrow> None
           | Some it \<Rightarrow>
               (case it of
                  Concat _ _ left right \<Rightarrow>
                    flatten_one_byte h n (left # (case right of None \<Rightarrow> stack | Some r \<Rightarrow> r # stack)) buf
                | Flat s \<Rightarrow>
                    (case s of
                       OneByte us \<Rightarrow>
                         if length (buf @ us) > n then None else flatten_one_byte h n stack (buf @ us)
                     | TwoByte us \<Rightarrow> None))))"

partial_function (option) flatten_two_byte ::
  "string_heap \<Rightarrow> nat \<Rightarrow> string_ptr list \<Rightarrow> u16 list \<Rightarrow> u16 list option" where
  "flatten_two_byte h n stack buf =
     (case stack of
        [] \<Rightarrow> Some buf
      | current # stack \<Rightarrow>
          (case h current of
             None \<Rightarrow> None
           | Some it \<Rightarrow>
               (case it of
                  Concat _ _ left right \<Rightarrow>
                    flatten_two_byte h n (left # (case right of None \<Rightarrow> stack | Some r \<Rightarrow> r # stack)) buf
                | Flat s \<Rightarrow>
                    (let us = flat_iter_code_units s in
                     if length (buf @ us) > n then None else flatten_two_byte h n stack (buf @ us)))))"

definition forward_to :: "string_ptr \<Rightarrow> u32 \<Rightarrow> string_width \<Rightarrow> string_ptr \<Rightarrow> string_ptr string_op" where
  "forward_to p n w q h = Some (h(p \<mapsto> Concat n w q None), Inr q)"

definition flatten :: "placement \<Rightarrow> string_ptr \<Rightarrow> string_ptr string_op" where
  "flatten fresh p h =
     (case h p of
        None \<Rightarrow> None
      | Some (Flat s) \<Rightarrow> Some (h, Inr p)
      | Some (Concat n w left None) \<Rightarrow> Some (h, Inr left)
      | Some (Concat n OneByteWidth left (Some right)) \<Rightarrow>
          do { buf \<leftarrow> filled (unat n) (flatten_one_byte h (unat n) [p] []);
               s \<leftarrow> new_one_byte buf;
               op_then (alloc_item fresh (Flat s)) (forward_to p n OneByteWidth) h }
      | Some (Concat n TwoByteWidth left (Some right)) \<Rightarrow>
          do { buf \<leftarrow> filled (unat n) (flatten_two_byte h (unat n) [p] []);
               s \<leftarrow> new_two_byte buf;
               op_then (alloc_item fresh (Flat s)) (forward_to p n TwoByteWidth) h })"

text \<open>The flat string that \<open>flatten\<close> returns.\<close>

definition flat_contents :: "string_ptr \<Rightarrow> flat_string string_op" where
  "flat_contents p h = (case h p of Some (Flat s) \<Rightarrow> Some (h, Inr s) | _ \<Rightarrow> None)"

definition flattened :: "placement \<Rightarrow> string_ptr \<Rightarrow> flat_string string_op" where
  "flattened fresh p = op_then (flatten fresh p) flat_contents"

subsection \<open>Operations on the code units\<close>

definition code_unit_at :: "placement \<Rightarrow> string_ptr \<Rightarrow> u32 \<Rightarrow> code_unit string_op" where
  "code_unit_at fresh p index = op_then (flattened fresh p) (\<lambda>s. op_lift (flat_code_unit_at s index))"

definition code_point_at :: "placement \<Rightarrow> string_ptr \<Rightarrow> u32 \<Rightarrow> code_point string_op" where
  "code_point_at fresh p index = op_then (flattened fresh p) (\<lambda>s. op_lift (flat_code_point_at s index))"

definition alloc_flat :: "placement \<Rightarrow> flat_string option \<Rightarrow> string_ptr string_op" where
  "alloc_flat fresh r = op_then (op_lift r) (\<lambda>s. alloc_item fresh (Flat s))"

definition substring :: "placement \<Rightarrow> string_ptr \<Rightarrow> u32 \<Rightarrow> u32 \<Rightarrow> string_ptr string_op" where
  "substring fresh p start stop = op_then (flattened fresh p) (\<lambda>s. alloc_flat fresh (flat_substring s start stop))"

text \<open>
  The pointers of a slice are not checked against the string; one that leaves it is an access outside
  a live item.
\<close>

definition iter_slice_code_units :: "placement \<Rightarrow> string_ptr \<Rightarrow> u32 \<Rightarrow> u32 \<Rightarrow> unit_iter string_op" where
  "iter_slice_code_units fresh p start stop =
     op_then (flattened fresh p) (\<lambda>s. op_lift (slice_range (unat start) (unat stop) (flat_iter_code_units s)))"

definition iter_code_units :: "placement \<Rightarrow> string_ptr \<Rightarrow> unit_iter string_op" where
  "iter_code_units fresh p = op_then (flattened fresh p) (\<lambda>s. op_ok (flat_iter_code_units s))"

definition rope_len :: "string_ptr \<Rightarrow> u32 string_op" where
  "rope_len p = op_then (string_item_at p) (\<lambda>it. op_ok (item_len it))"

fun matches_here :: "unit_iter \<Rightarrow> unit_iter \<Rightarrow> bool" where
  "matches_here string [] = True"
| "matches_here (u # us) (v # vs) = (if u = v then matches_here us vs else False)"
| "matches_here [] (v # vs) = False"

fun find_units_loop :: "code_unit \<Rightarrow> unit_iter \<Rightarrow> unit_iter \<Rightarrow> u32 \<Rightarrow> u32 option" where
  "find_units_loop first search [] current_index = None"
| "find_units_loop first search (u # us) current_index =
     (if u = first \<and> matches_here us search then Some current_index
      else find_units_loop first search us (current_index + 1))"

definition find_string :: "placement \<Rightarrow> string_ptr \<Rightarrow> string_ptr \<Rightarrow> u32 \<Rightarrow> u32 option string_op" where
  "find_string fresh p search after =
     op_then (flatten fresh search) (\<lambda>_.
     op_then (rope_len p) (\<lambda>n.
     op_then (iter_slice_code_units fresh p after n) (\<lambda>string_code_units.
     op_then (iter_code_units fresh search) (\<lambda>search_code_units.
       (case unit_next search_code_units of
          None \<Rightarrow> op_ok (if after \<le> n then Some after else None)
        | Some (first, search_rest) \<Rightarrow> op_ok (find_units_loop first search_rest string_code_units after))))))"

text \<open>Backwards, with \<open>next_back\<close> on both iterators: the lists are the remaining units in reverse.\<close>

fun rfind_units_loop :: "code_unit \<Rightarrow> unit_iter \<Rightarrow> unit_iter \<Rightarrow> u32 \<Rightarrow> u32 option" where
  "rfind_units_loop final search [] current_index = None"
| "rfind_units_loop final search (u # us) current_index =
     (if u = final \<and> matches_here us search then Some current_index
      else if current_index = 0 then None
      else rfind_units_loop final search us (current_index - 1))"

definition rfind_string :: "placement \<Rightarrow> string_ptr \<Rightarrow> string_ptr \<Rightarrow> u32 \<Rightarrow> u32 option string_op" where
  "rfind_string fresh p search before =
     op_then (rope_len search) (\<lambda>search_len.
     op_then (rope_len p) (\<lambda>n.
       let end_index = min (before + search_len) n in
       if search_len > end_index then op_ok None
       else
         op_then (flatten fresh search) (\<lambda>_.
         op_then (iter_slice_code_units fresh p 0 end_index) (\<lambda>string_code_units.
         op_then (iter_code_units fresh search) (\<lambda>search_code_units.
           (case unit_next_back search_code_units of
              None \<Rightarrow> op_ok (Some before)
            | Some (final, search_rest) \<Rightarrow>
                op_ok (rfind_units_loop final (rev search_rest) (rev string_code_units) (end_index - search_len))))))))"

definition substring_equals :: "placement \<Rightarrow> string_ptr \<Rightarrow> string_ptr \<Rightarrow> u32 \<Rightarrow> bool string_op" where
  "substring_equals fresh p search start_index =
     op_then (flatten fresh search) (\<lambda>_.
     op_then (rope_len search) (\<lambda>search_len.
     op_then (iter_slice_code_units fresh p start_index (start_index + search_len)) (\<lambda>slice_code_units.
     op_then (iter_code_units fresh search) (\<lambda>search_code_units.
       op_ok (consume_equals slice_code_units search_code_units)))))"

definition rope_equals :: "placement \<Rightarrow> string_ptr \<Rightarrow> string_ptr \<Rightarrow> bool string_op" where
  "rope_equals fresh p q =
     op_then (rope_len p) (\<lambda>n. op_then (rope_len q) (\<lambda>m.
       if n \<noteq> m then op_ok False
       else
         op_then (flatten fresh p) (\<lambda>f. op_then (flatten fresh q) (\<lambda>g.
         op_then (flat_contents f) (\<lambda>s. op_then (flat_contents g) (\<lambda>t. op_ok (flat_eq s t)))))))"

definition rope_compare :: "placement \<Rightarrow> string_ptr \<Rightarrow> string_ptr \<Rightarrow> ordering string_op" where
  "rope_compare fresh p q =
     op_then (flatten fresh p) (\<lambda>f. op_then (flatten fresh q) (\<lambda>g.
     op_then (flat_contents f) (\<lambda>s. op_then (flat_contents g) (\<lambda>t. op_ok (flat_cmp s t)))))"

definition rope_repeat :: "placement \<Rightarrow> string_ptr \<Rightarrow> u32 \<Rightarrow> string_ptr string_op" where
  "rope_repeat fresh p n =
     op_then (flattened fresh p) (\<lambda>s.
       alloc_flat fresh
         (case s of
            OneByte buf \<Rightarrow> new_one_byte (concat (replicate (unat n) buf))
          | TwoByte buf \<Rightarrow> new_two_byte (concat (replicate (unat n) buf))))"

subsection \<open>Trimming\<close>

definition is_trimmed :: "code_point \<Rightarrow> bool" where
  "is_trimmed cp \<longleftrightarrow> is_whitespace cp \<or> is_newline cp"

text \<open>
  The front pointer is the number of units before it: what the iterator has left ends at the end of
  the string. Each step from the back moves the back pointer over one unit.
\<close>

function trim_start_loop :: "nat \<Rightarrow> unit_iter \<Rightarrow> nat \<Rightarrow> nat \<times> unit_iter" where
  "trim_start_loop n it start_ptr =
     (case code_point_next it of
        None \<Rightarrow> (start_ptr, it)
      | Some (cp, it') \<Rightarrow> if \<not> is_trimmed cp then (start_ptr, it') else trim_start_loop n it' (n - length it'))"
  by pat_completeness auto
termination
  by (relation "measure (\<lambda>(n, it, p). length it)") (auto dest: code_point_next_decreases)

lemma code_point_next_back_decreases: "code_point_next_back it = Some (cp, it') \<Longrightarrow> length it' < length it"
  by (auto simp: code_point_next_back_def unit_next_back_def unit_peek_back_def unit_next_def
      split: list.splits if_splits dest: arg_cong [where f = length])

function trim_end_loop :: "unit_iter \<Rightarrow> nat \<Rightarrow> nat" where
  "trim_end_loop it end_ptr =
     (case code_point_next_back it of
        None \<Rightarrow> end_ptr
      | Some (cp, it') \<Rightarrow> if \<not> is_trimmed cp then end_ptr else trim_end_loop it' (end_ptr - 1))"
  by pat_completeness auto
termination
  by (relation "measure (\<lambda>(it, p). length it)") (auto dest: code_point_next_back_decreases)

declare trim_start_loop.simps [simp del] trim_end_loop.simps [simp del]

definition trim_bounds :: "bool \<Rightarrow> bool \<Rightarrow> unit_iter \<Rightarrow> nat \<times> nat" where
  "trim_bounds trim_start trim_end us =
     (let (start_ptr, it) = (if trim_start then trim_start_loop (length us) us 0 else (0, us));
          end_ptr = length us
      in (start_ptr, if trim_end then trim_end_loop it end_ptr else end_ptr))"

definition trim :: "placement \<Rightarrow> string_ptr \<Rightarrow> string_ptr \<Rightarrow> bool \<Rightarrow> bool \<Rightarrow> string_ptr string_op" where
  "trim fresh empty_string p trim_start trim_end =
     op_then (flattened fresh p) (\<lambda>s.
       let (start_ptr, end_ptr) = trim_bounds trim_start trim_end (flat_iter_code_units s) in
       if start_ptr = end_ptr then op_ok empty_string
       else alloc_flat fresh
         (case s of
            OneByte buf \<Rightarrow> do { sub \<leftarrow> slice_range start_ptr end_ptr buf; new_one_byte sub }
          | TwoByte buf \<Rightarrow> do { sub \<leftarrow> slice_range start_ptr end_ptr buf; new_two_byte sub }))"


subsection \<open>What a string value stands for\<close>

definition wider :: "string_width \<Rightarrow> string_width \<Rightarrow> string_width" where
  "wider v w = (if v = TwoByteWidth \<or> w = TwoByteWidth then TwoByteWidth else OneByteWidth)"

text \<open>
  The address holds a string of width \<open>w\<close> with the given code units: the tree below it is
  finite, its nodes record the length and the width of what they stand for, a forwarding node points to
  a flat string, and no string is longer than strings may be.
\<close>

inductive string_at :: "string_heap \<Rightarrow> string_ptr \<Rightarrow> string_width \<Rightarrow> code_unit list \<Rightarrow> bool" for h where
  flat: "h p = Some (Flat s) \<Longrightarrow> length (flat_iter_code_units s) \<le> unat MAX_STRING_LENGTH \<Longrightarrow>
    string_at h p (flat_width s) (flat_iter_code_units s)"
| forward: "h p = Some (Concat n w q None) \<Longrightarrow> h q = Some (Flat s) \<Longrightarrow> flat_width s = w \<Longrightarrow>
    n = of_nat (length (flat_iter_code_units s)) \<Longrightarrow>
    length (flat_iter_code_units s) \<le> unat MAX_STRING_LENGTH \<Longrightarrow>
    string_at h p w (flat_iter_code_units s)"
| concat: "h p = Some (Concat n w l (Some r)) \<Longrightarrow> string_at h l v us \<Longrightarrow> string_at h r v' vs \<Longrightarrow>
    w = wider v v' \<Longrightarrow> n = of_nat (length (us @ vs)) \<Longrightarrow> length (us @ vs) \<le> unat MAX_STRING_LENGTH \<Longrightarrow>
    string_at h p w (us @ vs)"

inductive_cases string_at_elims: "string_at h p w us"

lemma string_at_det:
  "string_at h p w us \<Longrightarrow> string_at h p v vs \<Longrightarrow> w = v \<and> us = vs"
proof (induction arbitrary: v vs rule: string_at.induct)
  case (concat p n w l r x us x' us' v vs)
  from concat.prems concat.hyps(1) obtain y ys y' ys' where
    "string_at h l y ys" "string_at h r y' ys'" "v = wider y y'" "vs = ys @ ys'"
    by (auto elim: string_at_elims)
  then show ?case using concat.IH concat.hyps by blast
qed (auto elim: string_at_elims)

lemma string_at_len:
  "string_at h p w us \<Longrightarrow> length us \<le> unat MAX_STRING_LENGTH \<and> (\<exists>it. h p = Some it \<and> item_len it = of_nat (length us) \<and> item_width it = w)"
  by (induction rule: string_at.induct) (auto simp: flat_len_units)

lemma max_length: "n \<le> unat MAX_STRING_LENGTH \<Longrightarrow> unat (of_nat n :: u32) = n"
  by (simp add: MAX_STRING_LENGTH_def unsigned_of_nat take_bit_nat_eq_self)

lemma wider_one: "wider v w = OneByteWidth \<longleftrightarrow> v = OneByteWidth \<and> w = OneByteWidth"
  by (cases v; cases w) (simp_all add: wider_def)

lemma flat_one_byte: "flat_width s = OneByteWidth \<Longrightarrow> \<exists>buf. s = OneByte buf"
  by (cases s) simp_all

text \<open>Both loops write the units of the topmost string and go on with the rest of the stack.\<close>

lemma flatten_two_byte_step:
  "string_at h p w us \<Longrightarrow> length (buf @ us) \<le> n \<Longrightarrow>
   flatten_two_byte h n (p # stack) buf = flatten_two_byte h n stack (buf @ us)"
proof (induction arbitrary: buf stack rule: string_at.induct)
  case (flat p s)
  then show ?case by (subst flatten_two_byte.simps) simp
next
  case (forward p m w q s)
  then have "flatten_two_byte h n (q # stack) buf = flatten_two_byte h n stack (buf @ flat_iter_code_units s)"
    by (subst flatten_two_byte.simps) simp
  then show ?case using forward by (subst flatten_two_byte.simps) simp
next
  case (concat p m w l r v us v' vs)
  have "flatten_two_byte h n (p # stack) buf = flatten_two_byte h n (l # r # stack) buf"
    by (subst flatten_two_byte.simps) (simp add: concat.hyps)
  then show ?case using concat by simp
qed

lemma flatten_one_byte_step:
  "string_at h p w us \<Longrightarrow> w = OneByteWidth \<Longrightarrow> length buf + length us \<le> n \<Longrightarrow>
   \<exists>bs. us = map ucast bs \<and> (\<forall>stack. flatten_one_byte h n (p # stack) buf = flatten_one_byte h n stack (buf @ bs))"
proof (induction arbitrary: buf rule: string_at.induct)
  case (flat p s)
  then obtain bs where "s = OneByte bs" using flat_one_byte by blast
  then show ?case using flat by (intro exI [of _ bs]) (simp add: flatten_one_byte.simps)
next
  case (forward p m w q s)
  then obtain bs where s: "s = OneByte bs" using flat_one_byte by blast
  have "flatten_one_byte h n (q # stack) buf = flatten_one_byte h n stack (buf @ bs)" for stack
    using forward s by (subst flatten_one_byte.simps) simp
  then show ?case using forward s by (intro exI [of _ bs]) (simp add: flatten_one_byte.simps [of h n "p # _"])
next
  case (concat p m w l r v us v' vs)
  then have "wider v v' = OneByteWidth" by simp
  then have w: "v = OneByteWidth" "v' = OneByteWidth" by (simp_all add: wider_one)
  obtain bs where b: "us = map ucast bs" "\<And>stack. flatten_one_byte h n (l # stack) buf = flatten_one_byte h n stack (buf @ bs)"
    using concat.IH(1) [OF w(1), of buf] concat.prems by auto
  obtain cs where c: "vs = map ucast cs" "\<And>stack. flatten_one_byte h n (r # stack) (buf @ bs) = flatten_one_byte h n stack (buf @ bs @ cs)"
    using concat.IH(2) [OF w(2), of "buf @ bs"] concat.prems b(1) by auto
  have "flatten_one_byte h n (p # stack) buf = flatten_one_byte h n (l # r # stack) buf" for stack
    by (subst flatten_one_byte.simps) (simp add: concat.hyps)
  then show ?case using b c by (intro exI [of _ "bs @ cs"]) simp
qed

lemma flatten_fills:
  assumes "string_at h p w us"
  shows "filled (length us) (flatten_two_byte h (length us) [p] []) = Some us"
    and "w = OneByteWidth \<Longrightarrow> \<exists>bs. us = map ucast bs \<and> filled (length us) (flatten_one_byte h (length us) [p] []) = Some bs"
proof -
  show "filled (length us) (flatten_two_byte h (length us) [p] []) = Some us"
    using flatten_two_byte_step [OF assms, of "[]" "length us" "[]"]
    by (simp add: flatten_two_byte.simps [of h _ "[]"] filled_def)
  assume "w = OneByteWidth"
  then obtain bs where "us = map ucast bs" "flatten_one_byte h (length us) [p] [] = flatten_one_byte h (length us) [] bs"
    using flatten_one_byte_step [OF assms, of "[]" "length us"] by auto
  then show "\<exists>bs. us = map ucast bs \<and> filled (length us) (flatten_one_byte h (length us) [p] []) = Some bs"
    by (intro exI [of _ bs]) (simp add: flatten_one_byte.simps [of h _ "[]"] filled_def)
qed

text \<open>Overwriting a node by a forwarding node to a new flat string of the same value changes no string.\<close>

lemma forward_keeps:
  assumes p: "string_at h p w us" "h p = Some (Concat n w l (Some r))" and q: "h q = None"
    and s: "flat_width s = w" "flat_iter_code_units s = us"
    and h': "h' = h(q \<mapsto> Flat s, p \<mapsto> Concat n w q None)"
  shows "string_at h x v vs \<Longrightarrow> string_at h' x v vs"
proof (induction rule: string_at.induct)
  case (flat x t)
  then have "h' x = Some (Flat t)" using p(2) q h' by auto
  then show ?case using flat by (intro string_at.flat)
next
  case (forward x m v y t)
  then have "h' x = Some (Concat m v y None)" "h' y = Some (Flat t)" using p(2) q h' by auto
  then show ?case using forward by (intro string_at.forward [where q = y])
next
  case (concat x m v l' r' a as b bs)
  show ?case
  proof (cases "x = p")
    case True
    have "string_at h p v (as @ bs)" using concat True by (blast intro: string_at.concat)
    then have eq: "v = w" "as @ bs = us" using string_at_det [OF p(1)] by blast+
    have "h' p = Some (Concat n w q None)" "h' q = Some (Flat s)" using p(2) q h' by auto
    then have "string_at h' p w us"
      using string_at.forward [of h' p n w q s] string_at_len [OF p(1)] p(2) s by simp
    then show ?thesis using True eq by simp
  next
    case False
    then have "h' x = Some (Concat m v l' (Some r'))" using concat.hyps(1) q h' by auto
    then show ?thesis using concat by (intro string_at.concat [where l = l' and r = r'])
  qed
qed

text \<open>What an operation may do to the heap: every string stays the string it was, and a flat one is not moved.\<close>

definition keeps_strings :: "string_heap \<Rightarrow> string_heap \<Rightarrow> bool" where
  "keeps_strings h h' \<longleftrightarrow>
     (\<forall>x v vs. string_at h x v vs \<longrightarrow> string_at h' x v vs) \<and>
     (\<forall>x s. h x = Some (Flat s) \<longrightarrow> h' x = Some (Flat s))"

lemma keeps_refl [simp]: "keeps_strings h h"
  by (simp add: keeps_strings_def)

lemma keeps_trans: "keeps_strings h h' \<Longrightarrow> keeps_strings h' h'' \<Longrightarrow> keeps_strings h h''"
  by (simp add: keeps_strings_def)

lemma keeps_stringsD: "keeps_strings h h' \<Longrightarrow> string_at h x v vs \<Longrightarrow> string_at h' x v vs"
  by (simp add: keeps_strings_def)

definition places_fresh :: "placement \<Rightarrow> bool" where
  "places_fresh fresh \<longleftrightarrow> (\<forall>h q. fresh h = Some q \<longrightarrow> h q = None)"

lemma flatten_new:
  assumes "string_at h p w us" "h p = Some (Concat n w l (Some r))" "places_fresh fresh"
    "flat_width s = w" "flat_iter_code_units s = us"
    "flatten fresh p h = op_then (alloc_item fresh (Flat s)) (forward_to p n w) h"
  shows "\<exists>h' res. flatten fresh p h = Some (h', res) \<and> keeps_strings h h' \<and>
     (case res of Inl e \<Rightarrow> fresh h = None \<and> h' = h
      | Inr q \<Rightarrow> \<exists>s. h' q = Some (Flat s) \<and> flat_width s = w \<and> flat_iter_code_units s = us)"
proof (cases "fresh h")
  case None
  then show ?thesis using assms(6) by (simp add: op_then_def alloc_item_def)
next
  case (Some q)
  then have q: "h q = None" using assms(3) by (simp add: places_fresh_def)
  then have q2: "q \<noteq> p" using assms(2) by auto
  have "keeps_strings h (h(q \<mapsto> Flat s, p \<mapsto> Concat n w q None))"
    using forward_keeps [OF assms(1,2) q assms(4,5) refl] assms(2) q by (auto simp: keeps_strings_def)
  then show ?thesis using assms(4,5,6) Some q2 by (simp add: op_then_def alloc_item_def forward_to_def)
qed

lemma flatten_ok:
  assumes "string_at h p w us" "places_fresh fresh"
  shows "\<exists>h' res. flatten fresh p h = Some (h', res) \<and> keeps_strings h h' \<and>
     (case res of Inl e \<Rightarrow> fresh h = None \<and> h' = h
      | Inr q \<Rightarrow> \<exists>s. h' q = Some (Flat s) \<and> flat_width s = w \<and> flat_iter_code_units s = us)"
  using assms(1)
proof (cases rule: string_at.cases)
  case (flat s)
  then show ?thesis by (simp add: flatten_def)
next
  case (forward n q s)
  then show ?thesis by (cases w) (simp_all add: flatten_def)
next
  case (concat n l r v vs v' vs')
  have l: "length us \<le> unat MAX_STRING_LENGTH" using string_at_len [OF assms(1)] by blast
  have "n = of_nat (length us)" using concat by (simp only:)
  then have n: "unat n = length us" using max_length [OF l] by simp
  show ?thesis
  proof (cases w)
    case OneByteWidth
    then obtain bs where bs: "us = map ucast bs" "filled (length us) (flatten_one_byte h (length us) [p] []) = Some bs"
      using flatten_fills(2) [OF assms(1)] by blast
    then have "flatten fresh p h = op_then (alloc_item fresh (Flat (OneByte bs))) (forward_to p n w) h"
      using concat OneByteWidth n l by (simp add: flatten_def new_one_byte_def check_string_length_def)
    from flatten_new [OF assms(1) concat(2) assms(2) _ _ this] show ?thesis using OneByteWidth bs(1) by simp
  next
    case TwoByteWidth
    then have "flatten fresh p h = op_then (alloc_item fresh (Flat (TwoByte us))) (forward_to p n w) h"
      using concat n l flatten_fills(1) [OF assms(1)] by (simp add: flatten_def new_two_byte_def check_string_length_def)
    from flatten_new [OF assms(1) concat(2) assms(2) _ _ this] show ?thesis using TwoByteWidth by simp
  qed
qed

subsection \<open>Rules for operations\<close>

text \<open>
  The operation returns, keeps every string of the heap, and gives a result that satisfies \<open>Q\<close>,
  unless an allocation failed.
\<close>

definition yields :: "placement \<Rightarrow> string_heap \<Rightarrow> 'a string_op \<Rightarrow> ('a \<Rightarrow> string_heap \<Rightarrow> bool) \<Rightarrow> bool" where
  "yields fresh h m Q \<longleftrightarrow>
     (\<exists>h' res. m h = Some (h', res) \<and> keeps_strings h h' \<and>
        (case res of Inl e \<Rightarrow> \<exists>g. fresh g = None | Inr x \<Rightarrow> Q x h'))"

lemma yieldsI: "m h = Some (h', Inr x) \<Longrightarrow> keeps_strings h h' \<Longrightarrow> Q x h' \<Longrightarrow> yields fresh h m Q"
  by (simp add: yields_def)

lemma yields_failI: "m h = Some (h', Inl e) \<Longrightarrow> keeps_strings h h' \<Longrightarrow> fresh g = None \<Longrightarrow> yields fresh h m Q"
  by (auto simp: yields_def)

lemma yieldsE:
  assumes "yields fresh h m Q"
  obtains h' x where "m h = Some (h', Inr x)" "keeps_strings h h'" "Q x h'"
  | h' e g where "m h = Some (h', Inl e)" "keeps_strings h h'" "fresh g = None"
proof -
  obtain h' res where r: "m h = Some (h', res)" "keeps_strings h h'"
    "case res of Inl e \<Rightarrow> \<exists>g. fresh g = None | Inr x \<Rightarrow> Q x h'" using assms unfolding yields_def by blast
  show ?thesis
  proof (cases res)
    case (Inl e)
    then show ?thesis using r that(2) by auto
  next
    case (Inr x)
    then show ?thesis using r that(1) by auto
  qed
qed

lemma yields_ok: "Q x h \<Longrightarrow> yields fresh h (op_ok x) Q"
  by (rule yieldsI [where h' = h and x = x]) (simp_all add: op_ok_def)

lemma yields_lift: "r = Some x \<Longrightarrow> Q x h \<Longrightarrow> yields fresh h (op_lift r) Q"
  by (rule yieldsI [where h' = h and x = x]) (simp_all add: op_lift_def)

lemma yields_then:
  assumes m: "yields fresh h m R" and f: "\<And>x h'. R x h' \<Longrightarrow> keeps_strings h h' \<Longrightarrow> yields fresh h' (f x) Q"
  shows "yields fresh h (op_then m f) Q"
  using m
proof (cases rule: yieldsE)
  case (1 h' x)
  then have "yields fresh h' (f x) Q" by (intro f)
  then show ?thesis
  proof (cases rule: yieldsE)
    case r: (1 g y)
    then show ?thesis using 1 keeps_trans by (intro yieldsI [where h' = g and x = y]) (auto simp: op_then_def)
  next
    case r: (2 g e k)
    then show ?thesis using 1 keeps_trans by (intro yields_failI [where h' = g and e = e and g = k]) (auto simp: op_then_def)
  qed
next
  case (2 h' e g)
  then show ?thesis by (intro yields_failI [where h' = h' and e = e and g = g]) (simp_all add: op_then_def)
qed

lemma yields_flatten:
  assumes "string_at h p w us" "places_fresh fresh"
  shows "yields fresh h (flatten fresh p)
    (\<lambda>q h'. \<exists>s. h' q = Some (Flat s) \<and> flat_width s = w \<and> flat_iter_code_units s = us)"
proof -
  obtain h' res where r: "flatten fresh p h = Some (h', res)" "keeps_strings h h'"
    "case res of Inl e \<Rightarrow> fresh h = None \<and> h' = h
     | Inr q \<Rightarrow> \<exists>s. h' q = Some (Flat s) \<and> flat_width s = w \<and> flat_iter_code_units s = us"
    using flatten_ok [OF assms] by blast
  show ?thesis
  proof (cases res)
    case (Inl e)
    then show ?thesis using r by (intro yields_failI [where h' = h' and e = e and g = h]) simp_all
  next
    case (Inr q)
    then show ?thesis using r by (intro yieldsI [where h' = h' and x = q]) simp_all
  qed
qed

lemma yields_contents: "h p = Some (Flat s) \<Longrightarrow> Q s h \<Longrightarrow> yields fresh h (flat_contents p) Q"
  by (rule yieldsI [where h' = h and x = s]) (simp_all add: flat_contents_def)

lemma yields_flattened:
  assumes "string_at h p w us" "places_fresh fresh"
  shows "yields fresh h (flattened fresh p) (\<lambda>s h'. flat_width s = w \<and> flat_iter_code_units s = us)"
  unfolding flattened_def
  by (rule yields_then [OF yields_flatten [OF assms]]) (blast intro: yields_contents)

lemma yields_len: "string_at h p w us \<Longrightarrow> yields fresh h (rope_len p) (\<lambda>n h'. n = of_nat (length us) \<and> h' = h)"
  using string_at_len [of h p w us]
  by (auto simp: rope_len_def string_item_at_def op_then_def op_lift_def op_ok_def intro!: yieldsI)

lemma alloc_keeps:
  assumes "h q = None"
  shows "string_at h x v vs \<Longrightarrow> string_at (h(q \<mapsto> it)) x v vs"
proof (induction rule: string_at.induct)
  case (flat x t)
  then have "(h(q \<mapsto> it)) x = Some (Flat t)" using assms by auto
  then show ?case using flat by (intro string_at.flat)
next
  case (forward x m v y t)
  then have "(h(q \<mapsto> it)) x = Some (Concat m v y None)" "(h(q \<mapsto> it)) y = Some (Flat t)" using assms by auto
  then show ?case using forward by (intro string_at.forward [where q = y])
next
  case (concat x m v l r a as b bs)
  then have "(h(q \<mapsto> it)) x = Some (Concat m v l (Some r))" using assms by auto
  then show ?case using concat by (intro string_at.concat [where l = l and r = r])
qed

lemma yields_alloc:
  assumes "places_fresh fresh" "\<And>q h'. h' q = Some it \<Longrightarrow> keeps_strings h h' \<Longrightarrow> Q q h'"
  shows "yields fresh h (alloc_item fresh it) Q"
proof (cases "fresh h")
  case None
  then show ?thesis by (intro yields_failI [where h' = h and e = Oom and g = h]) (simp_all add: alloc_item_def)
next
  case (Some q)
  then have "h q = None" using assms(1) by (simp add: places_fresh_def)
  then have k: "keeps_strings h (h(q \<mapsto> it))" using alloc_keeps [of h q] by (auto simp: keeps_strings_def)
  have "Q q (h(q \<mapsto> it))" by (rule assms(2)) (simp_all add: k)
  then show ?thesis using Some k by (intro yieldsI [where h' = "h(q \<mapsto> it)" and x = q]) (simp_all add: alloc_item_def)
qed

lemma yields_alloc_flat:
  assumes "places_fresh fresh" "r = Some s" "length (flat_iter_code_units s) \<le> unat MAX_STRING_LENGTH"
  shows "yields fresh h (alloc_flat fresh r) (\<lambda>q h'. string_at h' q (flat_width s) (flat_iter_code_units s))"
  unfolding alloc_flat_def
  by (rule yields_then [OF yields_lift [where Q = "\<lambda>x h. x = s", OF assms(2) refl]])
    (simp, rule yields_alloc [OF assms(1)], rule string_at.flat [OF _ assms(3)])

lemma yields_mono: "yields fresh h m R \<Longrightarrow> (\<And>x h'. R x h' \<Longrightarrow> Q x h') \<Longrightarrow> yields fresh h m Q"
  by (erule yieldsE) (blast intro: yieldsI yields_failI)+

subsection \<open>Concatenation and flattening\<close>

lemma concat_keeps_strings:
  assumes "string_at h l v us" "string_at h r w vs" "length us + length vs \<le> unat MAX_STRING_LENGTH" "places_fresh fresh"
  shows "yields fresh h (rope_concat fresh l r) (\<lambda>q h'. string_at h' q (wider v w) (us @ vs))"
proof -
  obtain i j where it: "h l = Some i" "item_len i = of_nat (length us)" "item_width i = v"
    "h r = Some j" "item_len j = of_nat (length vs)" "item_width j = w"
    using string_at_len [OF assms(1)] string_at_len [OF assms(2)] by blast
  have eq: "rope_concat fresh l r h = alloc_item fresh (Concat (of_nat (length (us @ vs))) (wider v w) l (Some r)) h"
    using it by (simp add: rope_concat_def op_then_def string_item_at_def op_lift_def wider_def Let_def)
  have "yields fresh h (alloc_item fresh (Concat (of_nat (length (us @ vs))) (wider v w) l (Some r)))
      (\<lambda>q h'. string_at h' q (wider v w) (us @ vs))"
  proof (rule yields_alloc [OF assms(4)])
    fix q h' assume q: "h' q = Some (Concat (of_nat (length (us @ vs))) (wider v w) l (Some r))" "keeps_strings h h'"
    show "string_at h' q (wider v w) (us @ vs)"
      using string_at.concat [OF q(1) keeps_stringsD [OF q(2) assms(1)] keeps_stringsD [OF q(2) assms(2)] refl refl] assms(3) by simp
  qed
  then show ?thesis by (simp only: yields_def eq)
qed


text \<open>A heap with two flat strings, their concatenation, and a string that contains it twice.\<close>

definition sample_heap :: string_heap where
  "sample_heap = [0 \<mapsto> Flat (OneByte [97, 98]), 1 \<mapsto> Flat (TwoByte [0x3B1]),
     2 \<mapsto> Concat 3 TwoByteWidth 0 (Some 1), 3 \<mapsto> Concat 6 TwoByteWidth 2 (Some 2)]"

definition next_place :: placement where
  "next_place h = List.find (\<lambda>p. h p = None) [0..<10]"

lemma next_place_fresh: "places_fresh next_place"
  by (auto simp: places_fresh_def next_place_def find_Some_iff)

lemma sample_items:
  "sample_heap 0 = Some (Flat (OneByte [97, 98]))" "sample_heap 1 = Some (Flat (TwoByte [0x3B1]))"
  "sample_heap 2 = Some (Concat 3 TwoByteWidth 0 (Some 1))" "sample_heap 3 = Some (Concat 6 TwoByteWidth 2 (Some 2))"
  by (simp_all add: sample_heap_def)

lemma sample_length: "n \<le> 6 \<Longrightarrow> n \<le> unat MAX_STRING_LENGTH"
  by (simp add: MAX_STRING_LENGTH_def)

lemma sample_strings:
  "string_at sample_heap 0 OneByteWidth [97, 98]" "string_at sample_heap 1 TwoByteWidth [0x3B1]"
  "string_at sample_heap 2 TwoByteWidth [97, 98, 0x3B1]"
  "string_at sample_heap 3 TwoByteWidth [97, 98, 0x3B1, 97, 98, 0x3B1]"
proof -
  show a: "string_at sample_heap 0 OneByteWidth [97, 98]"
    using string_at.flat [of sample_heap 0, OF sample_items(1)] by (simp add: sample_length)
  show b: "string_at sample_heap 1 TwoByteWidth [0x3B1]"
    using string_at.flat [of sample_heap 1, OF sample_items(2)] by (simp add: sample_length)
  show c: "string_at sample_heap 2 TwoByteWidth [97, 98, 0x3B1]"
    using string_at.concat [of sample_heap 2, OF sample_items(3) a b] by (simp add: wider_def sample_length)
  show "string_at sample_heap 3 TwoByteWidth [97, 98, 0x3B1, 97, 98, 0x3B1]"
    using string_at.concat [of sample_heap 3, OF sample_items(4) c c] by (simp add: wider_def sample_length)
qed


subsection \<open>Searching\<close>

definition occurs_at :: "code_unit list \<Rightarrow> code_unit list \<Rightarrow> nat \<Rightarrow> bool" where
  "occurs_at vs us i \<longleftrightarrow> i + length vs \<le> length us \<and> take (length vs) (drop i us) = vs"

lemma matches_here_iff: "matches_here us vs \<longleftrightarrow> length vs \<le> length us \<and> take (length vs) us = vs"
  by (induction us vs rule: matches_here.induct) auto

lemma find_loop_occurs:
  "i \<le> length us \<Longrightarrow> find_units_loop v vs (drop i us) (of_nat i) = map_option of_nat (List.find (occurs_at (v # vs) us) [i..<length us])"
proof (induction "length us - i" arbitrary: i)
  case (Suc n)
  then have i: "i < length us" by simp
  then have d: "drop i us = us ! i # drop (Suc i) us" "[i..<length us] = i # [Suc i..<length us]"
    by (simp_all add: Cons_nth_drop_Suc upt_conv_Cons)
  have "find_units_loop v vs (drop (Suc i) us) (of_nat i + 1) = map_option of_nat (List.find (occurs_at (v # vs) us) [Suc i..<length us])"
    using Suc.hyps(1) [of "Suc i"] Suc.hyps(2) i by (simp add: add.commute)
  moreover have "occurs_at (v # vs) us i \<longleftrightarrow> us ! i = v \<and> matches_here (drop (Suc i) us) vs"
    using i by (auto simp: occurs_at_def matches_here_iff d(1))
  ultimately show ?case by (simp only: d find_units_loop.simps List.find.simps) simp
qed simp

lemma find_past_end: "vs \<noteq> [] \<Longrightarrow> List.find (occurs_at vs us) [i..<Suc (length us)] = List.find (occurs_at vs us) [i..<length us]"
proof -
  assume "vs \<noteq> []"
  then have "\<not> occurs_at vs us (length us)" by (auto simp: occurs_at_def)
  moreover have "List.find P (xs @ [x]) = List.find P xs" if "\<not> P x" for P :: "nat \<Rightarrow> bool" and xs x
    using that by (induction xs) auto
  ultimately show ?thesis by simp
qed

lemma yields_slice:
  assumes "string_at h p w us" "places_fresh fresh" "unat start \<le> unat stop" "unat stop \<le> length us"
  shows "yields fresh h (iter_slice_code_units fresh p start stop) (\<lambda>it h'. it = drop (unat start) (take (unat stop) us))"
  unfolding iter_slice_code_units_def
  by (rule yields_then [OF yields_flattened [OF assms(1,2)]], rule yields_lift) (use assms in \<open>auto simp: slice_range_def\<close>)

lemma yields_units:
  assumes "string_at h p w us" "places_fresh fresh"
  shows "yields fresh h (iter_code_units fresh p) (\<lambda>it h'. it = us)"
  unfolding iter_code_units_def
  by (rule yields_then [OF yields_flattened [OF assms]], rule yields_ok) simp

lemma find_tail:
  assumes "unat after \<le> length us" "unat m = length us"
  shows "(case unit_next vs of
      None \<Rightarrow> op_ok (if after \<le> m then Some after else None)
    | Some (first, search_rest) \<Rightarrow> op_ok (find_units_loop first search_rest (drop (unat after) us) after)) =
    op_ok (map_option of_nat (List.find (occurs_at vs us) [unat after..<Suc (length us)]))"
proof (cases vs)
  case Nil
  have "[unat after..<Suc (length us)] = unat after # [Suc (unat after)..<Suc (length us)]"
    using assms(1) by (intro upt_conv_Cons) simp
  then show ?thesis using Nil assms by (simp add: unit_next_def occurs_at_def word_le_nat_alt del: upt_Suc)
next
  case (Cons u rest)
  then have "List.find (occurs_at vs us) [unat after..<Suc (length us)] = List.find (occurs_at (u # rest) us) [unat after..<length us]"
    using find_past_end [of vs us "unat after"] by simp
  then show ?thesis using Cons find_loop_occurs [OF assms(1), of u rest] by (simp add: unit_next_def)
qed

lemma unat_length: "string_at h p w us \<Longrightarrow> unat (of_nat (length us) :: u32) = length us"
  using string_at_len max_length by blast

lemma find_string_yields:
  assumes p: "string_at h p w us" and s: "string_at h search v vs" and f: "places_fresh fresh" and after: "unat after \<le> length us"
  shows "yields fresh h (find_string fresh p search after)
    (\<lambda>r h'. r = map_option of_nat (List.find (occurs_at vs us) [unat after..<Suc (length us)]))"
  unfolding find_string_def
proof (rule yields_then [OF yields_flatten [OF s f]], goal_cases)
  case (1 q h1)
  note p1 = keeps_stringsD [OF 1(2) p] and s1 = keeps_stringsD [OF 1(2) s]
  show ?case
  proof (rule yields_then [OF yields_len [OF p1]], elim conjE, goal_cases)
    case (1 m h2)
    then have m: "unat m = length us" and h2: "h2 = h1" using unat_length [OF p1] by simp_all
    show ?case unfolding h2
    proof (rule yields_then [OF yields_slice [OF p1 f]], goal_cases)
      case (3 it h3)
      show ?case
      proof (rule yields_then [OF yields_units [OF keeps_stringsD [OF 3(2) s1] f]], goal_cases)
        case (1 sit h4)
        have "it = drop (unat after) us" using 3(1) m by simp
        then show ?case unfolding 1(1) by (simp only: find_tail [OF after m]) (rule yields_ok, rule refl)
      qed
    qed (use after m in simp_all)
  qed
qed

subsection \<open>Searching backwards\<close>

lemma occurs_at_snoc:
  assumes "j + length s < length us"
  shows "occurs_at (rev s @ [u]) us j \<longleftrightarrow> us ! (j + length s) = u \<and> matches_here (rev (take (j + length s) us)) s"
proof -
  have "take (length s) (rev (take (j + length s) us)) = rev (drop j (take (j + length s) us))"
    using assms by (simp add: rev_drop rev_take)
  also have "\<dots> = rev (take (length s) (drop j us))" by (simp add: drop_take)
  finally have "matches_here (rev (take (j + length s) us)) s \<longleftrightarrow> take (length s) (drop j us) = rev s"
    using assms by (auto simp: matches_here_iff rev_swap)
  moreover have "take (Suc (length s)) (drop j us) = take (length s) (drop j us) @ [us ! (j + length s)]"
    using assms by (simp add: take_Suc_conv_app_nth)
  ultimately show ?thesis using assms by (auto simp: occurs_at_def)
qed

lemma rfind_loop_occurs:
  assumes "j + length s < length us" "length us < 2 ^ 32"
  shows "rfind_units_loop u s (rev (take (Suc (j + length s)) us)) (of_nat j) =
    map_option of_nat (List.find (occurs_at (rev s @ [u]) us) (rev [0..<Suc j]))"
  using assms(1)
proof (induction j)
  case 0
  then have "rev (take (Suc (0 + length s)) us) = us ! length s # rev (take (length s) us)"
    by (simp add: take_Suc_conv_app_nth)
  then show ?case using occurs_at_snoc [OF 0, of u] by simp
next
  case (Suc j)
  have r: "rev (take (Suc (Suc j + length s)) us) = us ! (Suc j + length s) # rev (take (Suc (j + length s)) us)"
    using Suc.prems by (simp add: take_Suc_conv_app_nth)
  have "unat (of_nat (Suc j) :: u32) = Suc j"
    using Suc.prems assms(2) by (simp add: unsigned_of_nat take_bit_nat_eq_self del: of_nat_Suc)
  then have nz: "of_nat (Suc j) \<noteq> (0 :: u32)" "(of_nat (Suc j) :: u32) - 1 = of_nat j" by auto
  have IH: "rfind_units_loop u s (rev (take (Suc (j + length s)) us)) (of_nat j) =
      map_option of_nat (List.find (occurs_at (rev s @ [u]) us) (rev [0..<Suc j]))"
    using Suc by simp
  have o: "occurs_at (rev s @ [u]) us (Suc j) \<longleftrightarrow>
      us ! (Suc j + length s) = u \<and> matches_here (rev (take (Suc (j + length s)) us)) s"
    using occurs_at_snoc [OF Suc.prems, of u] by simp
  show ?case unfolding r rfind_units_loop.simps nz(2) IH using o nz(1) by simp
qed

lemma find_rev_extend:
  assumes "\<And>i. j < i \<Longrightarrow> i \<le> k \<Longrightarrow> \<not> P i" "j \<le> k"
  shows "List.find P (rev [0..<Suc k]) = List.find P (rev [0..<Suc j])"
  using assms(2,1)
proof (induction k rule: dec_induct)
  case (step n)
  then have "\<not> P (Suc n)" by simp
  then have "List.find P (rev [0..<Suc (Suc n)]) = List.find P (rev [0..<Suc n])" by (simp del: upt_Suc add: upt_Suc_append)
  then show ?case using step by simp
qed simp

lemma rfind_tail:
  assumes "vs \<noteq> []" "length vs \<le> e" "e = min (k + length vs) (length us)" "length us < 2 ^ 32"
  shows "rfind_units_loop (last vs) (rev (butlast vs)) (rev (take e us)) (of_nat (e - length vs)) =
    map_option of_nat (List.find (occurs_at vs us) (rev [0..<Suc k]))"
proof -
  let ?s = "rev (butlast vs)" and ?j = "e - length vs"
  have vs: "rev ?s @ [last vs] = vs" using assms(1) by simp
  have e: "e = Suc (?j + length ?s)" using assms(1,2) by (cases vs) simp_all
  have "rfind_units_loop (last vs) ?s (rev (take e us)) (of_nat ?j) =
      map_option of_nat (List.find (occurs_at vs us) (rev [0..<Suc ?j]))"
    using rfind_loop_occurs [of ?j ?s us "last vs"] assms(3,4) vs by (metis e min.cobounded2 Suc_le_eq)
  also have "List.find (occurs_at vs us) (rev [0..<Suc ?j]) = List.find (occurs_at vs us) (rev [0..<Suc k])"
    by (rule find_rev_extend [symmetric]) (use assms(2,3) in \<open>auto simp: occurs_at_def min_def split: if_splits\<close>)
  finally show ?thesis .
qed

lemma rfind_string_yields:
  assumes p: "string_at h p w us" and s: "string_at h search v vs" and f: "places_fresh fresh"
    and before: "unat before \<le> length us" "unat before + length vs < 2 ^ 32"
  shows "yields fresh h (rfind_string fresh p search before)
    (\<lambda>r h'. r = map_option of_nat (List.find (occurs_at vs us) (rev [0..<Suc (unat before)])))"
  unfolding rfind_string_def
proof (rule yields_then [OF yields_len [OF s]], elim conjE, goal_cases)
  case (1 m h1)
  then have m: "unat m = length vs" and h1: "h1 = h" using unat_length [OF s] by simp_all
  show ?case unfolding h1
  proof (rule yields_then [OF yields_len [OF p]], elim conjE, goal_cases)
    case (1 n h2)
    then have n: "unat n = length us" and h2: "h2 = h" using unat_length [OF p] by simp_all
    define e where "e = min (unat before + length vs) (length us)"
    have "unat (before + m) = unat before + length vs" using before(2) m by (simp add: unat_word_ariths)
    then have e: "unat (min (before + m) n) = e" using n by (auto simp: e_def min_def word_le_nat_alt)
    have us: "length us < 2 ^ 32" using string_at_len [OF p] by (simp add: MAX_STRING_LENGTH_def)
    show ?case unfolding h2 Let_def
    proof (cases "m > min (before + m) n", goal_cases)
      case 1
      then have "length us < length vs" using m e by (simp add: word_less_nat_alt e_def)
      then have "List.find (occurs_at vs us) (rev [0..<Suc (unat before)]) = None"
        by (auto simp: find_None_iff occurs_at_def)
      then show ?case using 1 by (auto intro: yields_ok)
    next
      case 2
      then have ve: "length vs \<le> e" using m e by (simp add: word_less_nat_alt)
      have "yields fresh h (op_then (flatten fresh search) (\<lambda>_.
         op_then (iter_slice_code_units fresh p 0 (min (before + m) n)) (\<lambda>string_code_units.
         op_then (iter_code_units fresh search) (\<lambda>search_code_units.
           (case unit_next_back search_code_units of
              None \<Rightarrow> op_ok (Some before)
            | Some (final, search_rest) \<Rightarrow>
                op_ok (rfind_units_loop final (rev search_rest) (rev string_code_units) (min (before + m) n - m)))))))
        (\<lambda>r h'. r = map_option of_nat (List.find (occurs_at vs us) (rev [0..<Suc (unat before)])))"
      proof (rule yields_then [OF yields_flatten [OF s f]], goal_cases)
        case (1 q h3)
        show ?case
        proof (rule yields_then [OF yields_slice [OF keeps_stringsD [OF 1(2) p] f]], goal_cases)
          case (3 it h4)
          then have it: "it = take e us" using e by simp
          have j: "min (before + m) n - m = of_nat (e - length vs)"
            unfolding of_nat_diff [OF ve] by (simp flip: e m)
          show ?case
          proof (rule yields_then [OF yields_units [OF keeps_stringsD [OF 3(2) keeps_stringsD [OF 1(2) s]] f]], goal_cases)
            case (1 sit h5)
            show ?case
            proof (cases "vs = []")
              case True
              then show ?thesis using 1 before(1)
                by (auto intro!: yields_ok simp: unit_next_back_def occurs_at_def)
            next
              case False
              then show ?thesis using 1 rfind_tail [OF False ve e_def us]
                by (auto intro!: yields_ok simp: unit_next_back_def it j simp del: upt_Suc)
            qed
          qed
        qed (use e in \<open>simp_all add: e_def\<close>)
      qed
      then show ?case using 2 by simp
    qed
  qed
qed

text \<open>
  C19: searching forwards gives the first index at or after \<open>after\<close> at which the search string
  occurs, and searching backwards the last index at or before \<open>before\<close>, for ropes and flat
  strings of either width, the empty search string included; both return and change no string. Only the
  32-bit sum in the backward search needs room.
\<close>

theorem string_search_correct:
  assumes "string_at h p w us" "string_at h search v vs" "places_fresh fresh"
    "unat after \<le> length us" "unat before \<le> length us" "unat before + length vs < 2 ^ 32"
  shows "yields fresh h (find_string fresh p search after)
           (\<lambda>r h'. r = map_option of_nat (List.find (occurs_at vs us) [unat after..<Suc (length us)])) \<and>
         yields fresh h (rfind_string fresh p search before)
           (\<lambda>r h'. r = map_option of_nat (List.find (occurs_at vs us) (rev [0..<Suc (unat before)])))"
  using find_string_yields [OF assms(1-4)] rfind_string_yields [OF assms(1-3,5,6)] by simp

theorem string_search_correct_witness:
  "yields next_place sample_heap (find_string next_place 3 0 1) (\<lambda>r h'. r = Some 3) \<and>
   yields next_place sample_heap (rfind_string next_place 3 0 6) (\<lambda>r h'. r = Some 3)"
proof -
  have "List.find (occurs_at [97, 98] [97, 98, 0x3B1, 97, 98, 0x3B1]) [Suc 0..<Suc (Suc (Suc (Suc (Suc (Suc (Suc 0))))))] = Some 3"
    "List.find (occurs_at [97, 98] [97, 98, 0x3B1, 97, 98, 0x3B1]) (rev [0..<7]) = Some 3"
    by (simp_all add: occurs_at_def upt_conv_Cons del: upt_Suc)
  then show ?thesis
    using string_search_correct [OF sample_strings(4) sample_strings(1) next_place_fresh, of 1 6]
    by (simp del: upt_Suc)
qed

subsection \<open>Equality and order of ropes\<close>

lemma yields_two_contents:
  assumes p: "string_at h p w us" and q: "string_at h q v vs" and f: "places_fresh fresh"
    and Q: "\<And>s t h'. flat_iter_code_units s = us \<Longrightarrow> flat_iter_code_units t = vs \<Longrightarrow> Q (g s t) h'"
  shows "yields fresh h (op_then (flatten fresh p) (\<lambda>f. op_then (flatten fresh q) (\<lambda>k.
     op_then (flat_contents f) (\<lambda>s. op_then (flat_contents k) (\<lambda>t. op_ok (g s t)))))) Q"
proof (rule yields_then [OF yields_flatten [OF p f]], goal_cases)
  case (1 a h1)
  then obtain s where s: "h1 a = Some (Flat s)" "flat_iter_code_units s = us" "flat_width s = w" by blast
  show ?case
  proof (rule yields_then [OF yields_flatten [OF keeps_stringsD [OF 1(2) q] f]], goal_cases)
    case (1 b h2)
    note k = 1(2)
    from 1 obtain t where t: "h2 b = Some (Flat t)" "flat_iter_code_units t = vs" by blast
    show ?case
    proof (rule yields_then [where R = "\<lambda>x h'. flat_iter_code_units x = us \<and> h' = h2"], goal_cases)
      case 1
      have "h2 a = Some (Flat s)" using k s(1) by (simp add: keeps_strings_def)
      then show ?case using s by (intro yields_contents) simp_all
    next
      case (2 x h3)
      then show ?case using t by (auto intro!: yields_then [OF yields_contents [where Q = "\<lambda>x h'. x = t"]] yields_ok Q)
    qed
  qed
qed

text \<open>
  C35: two strings are equal exactly when their code units are, and they compare in the lexicographic
  order of their code units, however they were built; the comparison may flatten them but changes no
  string.
\<close>

theorem rope_order_correct:
  assumes "string_at h p w us" "string_at h q v vs" "places_fresh fresh"
  shows "yields fresh h (rope_equals fresh p q) (\<lambda>r h'. r = (us = vs)) \<and>
         yields fresh h (rope_compare fresh p q)
           (\<lambda>r h'. r = (if us = vs then Equal else if (us, vs) \<in> lexord {(u, v). u < v} then Less else Greater))"
proof
  show "yields fresh h (rope_equals fresh p q) (\<lambda>r h'. r = (us = vs))"
    unfolding rope_equals_def
  proof (rule yields_then [OF yields_len [OF assms(1)]], elim conjE, goal_cases)
    case (1 n h1)
    then have n: "n = of_nat (length us)" and h1: "h1 = h" by simp_all
    show ?case unfolding h1
    proof (rule yields_then [OF yields_len [OF assms(2)]], elim conjE, goal_cases)
      case (1 m h2)
      then have m: "m = of_nat (length vs)" and h2: "h2 = h" by simp_all
      show ?case
      proof (cases "n = m")
        case True
        then show ?thesis unfolding h2
          by (simp only: if_False simp_thms) (rule yields_two_contents [OF assms], simp add: flat_eq_iff)
      next
        case False
        then have "us \<noteq> vs" using n m by auto
        then show ?thesis using False by (simp add: yields_ok)
      qed
    qed
  qed
  show "yields fresh h (rope_compare fresh p q)
      (\<lambda>r h'. r = (if us = vs then Equal else if (us, vs) \<in> lexord {(u, v). u < v} then Less else Greater))"
    unfolding rope_compare_def
    by (rule yields_two_contents [OF assms]) (simp add: flat_cmp_def cmp_units_lexord)
qed

theorem rope_order_correct_witness:
  "yields next_place sample_heap (rope_equals next_place 2 3) (\<lambda>r h'. \<not> r) \<and>
   yields next_place sample_heap (rope_compare next_place 2 3) (\<lambda>r h'. r = Less)"
  using rope_order_correct [OF sample_strings(3,4) next_place_fresh] by simp

subsection \<open>Trimming removes the white space at the ends\<close>

definition trims :: "code_unit \<Rightarrow> bool" where
  "trims u \<longleftrightarrow> is_trimmed (ucast u)"

definition trimmed_units :: "bool \<Rightarrow> bool \<Rightarrow> code_unit list \<Rightarrow> code_unit list" where
  "trimmed_units trim_start trim_end us =
     (let vs = (if trim_start then dropWhile trims us else us)
      in if trim_end then rev (dropWhile trims (rev vs)) else vs)"

lemmas trim_defs = is_trimmed_def is_whitespace_def is_ascii_whitespace_def is_unicode_whitespace_def
  is_newline_def is_ascii_newline_def is_unicode_newline_def

lemma trimmed_range: "is_trimmed cp \<Longrightarrow> unat cp < 0xD800 \<or> unat cp = 0xFEFF"
  by (auto simp: trim_defs word_le_nat_alt)

lemma surrogates_not_trimmed:
  "is_high_surrogate_code_unit u \<Longrightarrow> \<not> trims u" "is_low_surrogate_code_unit u \<Longrightarrow> \<not> trims u"
proof -
  have "unat (ucast u :: u32) = unat u"
    using unsigned_less [of u, where ?'a = nat] by (simp add: unsigned_ucast_eq take_bit_nat_eq_self)
  then show "is_high_surrogate_code_unit u \<Longrightarrow> \<not> trims u" "is_low_surrogate_code_unit u \<Longrightarrow> \<not> trims u"
    using trimmed_range [of "ucast u"]
    by (auto simp: trims_def is_high_surrogate_code_unit_def is_low_surrogate_code_unit_def word_le_nat_alt
        HIGH_SURROGATE_START_def HIGH_SURROGATE_END_def LOW_SURROGATE_START_def LOW_SURROGATE_END_def)
qed

lemma pair_not_trimmed:
  "is_high_surrogate_code_unit h \<Longrightarrow> is_low_surrogate_code_unit l \<Longrightarrow> \<not> is_trimmed (code_point_from_surrogate_pair h l)"
  using decoded_pair(1) [of h l] trimmed_range [of "code_point_from_surrogate_pair h l"] by (auto simp: word_le_nat_alt)

text \<open>What is left after the first code point, and that its units are white space only together.\<close>

lemma code_point_next_trims:
  "code_point_next (u # us) = Some (cp, it) \<Longrightarrow>
     is_trimmed cp = trims u \<and> (trims u \<longrightarrow> it = us) \<and>
     (\<not> trims u \<longrightarrow> (\<exists>cu. u # us = cu @ it \<and> cu \<noteq> [] \<and> (\<forall>x \<in> set cu. \<not> trims x)))"
proof (cases us)
  case Nil
  moreover assume "code_point_next (u # us) = Some (cp, it)"
  ultimately show ?thesis by (auto simp: trims_def intro!: exI [of _ "[u]"])
next
  case (Cons v vs)
  moreover assume "code_point_next (u # us) = Some (cp, it)"
  ultimately show ?thesis
    using surrogates_not_trimmed(1) [of u] surrogates_not_trimmed(2) [of v] pair_not_trimmed [of u v]
    by (auto simp: trims_def intro!: exI [of _ "[u, v]"] exI [of _ "[u]"] split: if_splits)
qed

lemma trim_start_loop_drop:
  "length us \<le> n \<Longrightarrow> \<exists>it. trim_start_loop n us (n - length us) = (n - length (dropWhile trims us), it) \<and>
     (dropWhile trims us = [] \<longrightarrow> it = []) \<and>
     (dropWhile trims us \<noteq> [] \<longrightarrow>
        (\<exists>cu. dropWhile trims us = cu @ it \<and> cu \<noteq> [] \<and> (\<forall>x \<in> set cu. \<not> trims x)))"
proof (induction us)
  case Nil
  then show ?case by (simp add: trim_start_loop.simps)
next
  case (Cons u us)
  obtain cp it where n: "code_point_next (u # us) = Some (cp, it)"
    by (cases "code_point_next (u # us)") (cases us, auto split: if_splits)
  note t = code_point_next_trims [OF n]
  show ?case
  proof (cases "trims u")
    case True
    then have "trim_start_loop n (u # us) (n - length (u # us)) = trim_start_loop n us (n - length us)"
      using t n by (subst trim_start_loop.simps) simp
    then show ?thesis using Cons True by simp
  next
    case False
    then have "trim_start_loop n (u # us) (n - length (u # us)) = (n - length (u # us), it)"
      using t n by (subst trim_start_loop.simps) simp
    then show ?thesis using t False by simp
  qed
qed

lemma trim_end_loop_drop: "trim_end_loop us e = e - length (takeWhile trims (rev us))"
proof (induction us arbitrary: e rule: rev_induct)
  case Nil
  then show ?case by (simp add: trim_end_loop.simps code_point_next_back_def unit_next_back_def)
next
  case (snoc u us)
  show ?case
  proof (cases "trims u")
    case True
    then have "code_point_next_back (us @ [u]) = Some (ucast u, us)"
      using surrogates_not_trimmed(2) [of u] by (auto simp: code_point_next_back_def unit_next_back_def)
    moreover have "is_trimmed (ucast u)" using True by (simp add: trims_def)
    ultimately show ?thesis using True snoc by (subst trim_end_loop.simps) simp
  next
    case False
    obtain cp it where cp: "code_point_next_back (us @ [u]) = Some (cp, it)"
      by (cases "code_point_next_back (us @ [u])")
        (auto simp: code_point_next_back_def unit_next_back_def split: if_splits option.splits)
    have "cp = ucast u \<or> is_high_surrogate_code_unit (last us) \<and> is_low_surrogate_code_unit u \<and>
        cp = code_point_from_surrogate_pair (last us) u"
      using cp by (auto simp: code_point_next_back_def unit_next_back_def unit_peek_back_def split: if_splits)
    then have "\<not> is_trimmed cp" using False pair_not_trimmed by (auto simp: trims_def)
    with cp show ?thesis using False by (subst trim_end_loop.simps) simp
  qed
qed

lemma rev_drop_take: "rev (dropWhile P (rev xs)) = take (length xs - length (takeWhile P (rev xs))) xs"
  by (simp add: dropWhile_eq_drop rev_drop)

lemma takeWhile_rev_snoc:
  assumes "cu \<noteq> []" "\<forall>x \<in> set cu. \<not> P x"
  shows "takeWhile P (rev (cu @ it)) = takeWhile P (rev it)"
proof -
  have "takeWhile P (rev cu) = []" using assms by (cases "rev cu") auto
  moreover have "Ball (set it) P \<longrightarrow> rev it = takeWhile P (rev it)" by (metis set_rev takeWhile_eq_all_conv)
  ultimately show ?thesis by (simp add: takeWhile_append)
qed

lemma trim_bounds_eq:
  fixes us trim_start
  defines "d \<equiv> (if trim_start then dropWhile trims us else us)"
  shows "trim_bounds trim_start trim_end us =
    (length us - length d, length us - (if trim_end then length (takeWhile trims (rev d)) else 0))"
proof (cases trim_start)
  case True
  then have d: "d = dropWhile trims us" by (simp add: d_def)
  obtain it where t: "trim_start_loop (length us) us 0 = (length us - length d, it)" "d = [] \<Longrightarrow> it = []"
    "d \<noteq> [] \<Longrightarrow> \<exists>cu. d = cu @ it \<and> cu \<noteq> [] \<and> (\<forall>x \<in> set cu. \<not> trims x)"
    using trim_start_loop_drop [of us "length us"] unfolding d by auto
  have "takeWhile trims (rev d) = takeWhile trims (rev it)"
  proof (cases "d = []")
    case False
    then obtain cu where "d = cu @ it" "cu \<noteq> []" "\<forall>x \<in> set cu. \<not> trims x" using t(3) by blast
    then show ?thesis using takeWhile_rev_snoc by blast
  qed (simp add: t(2))
  then show ?thesis using True t(1) by (simp add: trim_bounds_def trim_end_loop_drop Let_def)
qed (simp add: trim_bounds_def trim_end_loop_drop d_def Let_def)

lemma trim_bounds_units:
  assumes "trim_bounds trim_start trim_end us = (s, e)"
  shows "s \<le> e" "e \<le> length us" "drop s (take e us) = trimmed_units trim_start trim_end us"
proof -
  define d where "d = (if trim_start then dropWhile trims us else us)"
  define t where "t = (if trim_end then length (takeWhile trims (rev d)) else 0)"
  have it: "s = length us - length d" "e = length us - t"
    using assms trim_bounds_eq [of trim_start trim_end us] unfolding d_def t_def by auto
  have "d = drop (if trim_start then length (takeWhile trims us) else 0) us"
    by (simp add: d_def dropWhile_eq_drop)
  then obtain k where k: "d = drop k us" "k \<le> length us" using length_takeWhile_le [of trims us] by (metis le0)
  have t: "t \<le> length d" using length_takeWhile_le [of trims "rev d"] by (simp add: t_def)
  have s: "s = k" using it(1) k by simp
  show "s \<le> e" "e \<le> length us" using it k t by simp_all
  have "trimmed_units trim_start trim_end us = take (length d - t) d"
    by (simp add: trimmed_units_def Let_def rev_drop_take t_def flip: d_def)
  also have "\<dots> = drop s (take e us)" using it k t s by (simp add: drop_take add.commute)
  finally show "drop s (take e us) = trimmed_units trim_start trim_end us" by simp
qed

lemma yields_new_slice:
  assumes "places_fresh fresh" "s \<le> e" "e \<le> length (flat_iter_code_units t)" "length (flat_iter_code_units t) \<le> unat MAX_STRING_LENGTH"
  shows "yields fresh h (alloc_flat fresh
         (case t of
            OneByte buf \<Rightarrow> do { sub \<leftarrow> slice_range s e buf; new_one_byte sub }
          | TwoByte buf \<Rightarrow> do { sub \<leftarrow> slice_range s e buf; new_two_byte sub }))
     (\<lambda>q h'. string_at h' q (flat_width t) (drop s (take e (flat_iter_code_units t))))"
proof (cases t)
  case (OneByte buf)
  then have "e - s \<le> unat MAX_STRING_LENGTH" using assms(3,4) by simp
  then show ?thesis using OneByte assms yields_alloc_flat [OF assms(1), of _ "OneByte (drop s (take e buf))" h]
    by (simp add: slice_range_def new_one_byte_def check_string_length_def drop_map take_map)
next
  case (TwoByte buf)
  then have "e - s \<le> unat MAX_STRING_LENGTH" using assms(3,4) by simp
  then show ?thesis using TwoByte assms yields_alloc_flat [OF assms(1), of _ "TwoByte (drop s (take e buf))" h]
    by (simp add: slice_range_def new_two_byte_def check_string_length_def)
qed

text \<open>
  C36: \<open>trim\<close>, \<open>trimStart\<close> and \<open>trimEnd\<close> return the string without the white
  space and line terminators at the chosen ends and keep everything between them, surrogate pairs
  included; the empty string is returned when nothing is left.
\<close>

theorem trim_correct:
  assumes "string_at h p w us" "string_at h empty_string v []" "places_fresh fresh"
  shows "yields fresh h (trim fresh empty_string p trim_start trim_end)
     (\<lambda>q h'. \<exists>x. string_at h' q x (trimmed_units trim_start trim_end us))"
  unfolding trim_def
proof (rule yields_then [OF yields_flattened [OF assms(1,3)]], elim conjE, goal_cases)
  case (1 t h1)
  obtain s e where b: "trim_bounds trim_start trim_end us = (s, e)" by force
  note r = trim_bounds_units [OF b]
  show ?case
  proof (cases "s = e")
    case True
    then have "trimmed_units trim_start trim_end us = []" using r by auto
    then show ?thesis using 1 b True keeps_stringsD [OF 1(1) assms(2)] by (auto intro!: yields_ok)
  next
    case False
    have "yields fresh h1 (alloc_flat fresh
         (case t of
            OneByte buf \<Rightarrow> do { sub \<leftarrow> slice_range s e buf; new_one_byte sub }
          | TwoByte buf \<Rightarrow> do { sub \<leftarrow> slice_range s e buf; new_two_byte sub }))
       (\<lambda>q h'. \<exists>x. string_at h' q x (trimmed_units trim_start trim_end us))"
      by (rule yields_mono [OF yields_new_slice [OF assms(3) r(1)]])
        (use r 1 string_at_len [OF assms(1)] in auto)
    then show ?thesis using 1 b False by simp
  qed
qed

theorem trim_correct_witness:
  "yields next_place [0 \<mapsto> Flat (OneByte [32, 97, 32]), 1 \<mapsto> Flat (OneByte [])]
     (trim next_place 1 0 True True) (\<lambda>q h'. \<exists>x. string_at h' q x [97])"
proof -
  let ?h = "[0 \<mapsto> Flat (OneByte [32, 97, 32]), 1 \<mapsto> Flat (OneByte [])]"
  have "string_at ?h 0 OneByteWidth [32, 97, 32]" "string_at ?h 1 OneByteWidth []"
    using string_at.flat [of ?h 0 "OneByte [32, 97, 32]"] string_at.flat [of ?h 1 "OneByte []"]
    by (simp_all add: sample_length)
  moreover have "trimmed_units True True [32, 97, 32] = [97]"
    by (simp add: trimmed_units_def trims_def trim_defs)
  ultimately show ?thesis using trim_correct [of ?h 0 OneByteWidth "[32, 97, 32]" 1 OneByteWidth next_place True True] next_place_fresh
    by simp
qed

subsection \<open>Concatenating many strings\<close>

definition strings_at :: "string_heap \<Rightarrow> string_ptr list \<Rightarrow> code_unit list list \<Rightarrow> bool" where
  "strings_at h ps uss \<longleftrightarrow> list_all2 (\<lambda>p us. \<exists>w. string_at h p w us) ps uss"

lemma strings_at_keeps: "strings_at h ps uss \<Longrightarrow> keeps_strings h h' \<Longrightarrow> strings_at h' ps uss"
  unfolding strings_at_def by (erule list_all2_mono) (blast dest: keeps_stringsD)

lemma concat_rest_yields:
  assumes f: "places_fresh fresh"
  shows "string_at h p w us \<Longrightarrow> strings_at h ps uss \<Longrightarrow> length us + length (concat uss) \<le> unat MAX_STRING_LENGTH \<Longrightarrow>
    yields fresh h (rope_concat_rest fresh p ps) (\<lambda>q h'. \<exists>v. string_at h' q v (us @ concat uss))"
proof (induction ps arbitrary: h p w us uss)
  case Nil
  then show ?case by (auto intro!: yields_ok simp: strings_at_def)
next
  case (Cons r rs)
  then obtain vs vss v where r: "uss = vs # vss" "string_at h r v vs" "strings_at h rs vss"
    by (auto simp: strings_at_def list_all2_Cons1)
  have "yields fresh h (rope_concat fresh p r) (\<lambda>q h'. string_at h' q (wider w v) (us @ vs))"
    using concat_keeps_strings [OF Cons.prems(1) r(2) _ f] Cons.prems(3) r(1) by simp
  then show ?case unfolding rope_concat_rest.simps
  proof (rule yields_then, goal_cases)
    case (1 q h')
    then show ?case using Cons.IH [OF 1(1) strings_at_keeps [OF r(3) 1(2)]] Cons.prems(3) r(1) by simp
  qed
qed

text \<open>
  Concatenating any list of strings, repeated and shared ones included, gives a string with all
  their code units in order, as long as the sum of the lengths is within the limit; no string of the
  heap changes.
\<close>

theorem concat_all_correct:
  assumes "strings_at h ps uss" "string_at h empty_string v []" "length (concat uss) \<le> unat MAX_STRING_LENGTH"
    "places_fresh fresh"
  shows "yields fresh h (rope_concat_all fresh empty_string ps) (\<lambda>q h'. \<exists>w. string_at h' q w (concat uss))"
proof (cases ps)
  case Nil
  then show ?thesis using assms(1,2) by (auto intro!: yields_ok simp: rope_concat_all_def strings_at_def)
next
  case (Cons p rest)
  then obtain us uss' w where u: "uss = us # uss'" "string_at h p w us" "strings_at h rest uss'"
    using assms(1) by (auto simp: strings_at_def list_all2_Cons1)
  then show ?thesis using Cons concat_rest_yields [OF assms(4) u(2,3)] assms(3) by (simp add: rope_concat_all_def)
qed

theorem concat_all_correct_witness:
  "yields next_place (sample_heap(4 \<mapsto> Flat (OneByte []))) (rope_concat_all next_place 4 [2, 0, 2])
     (\<lambda>q h'. \<exists>w. string_at h' q w [97, 98, 0x3B1, 97, 98, 97, 98, 0x3B1])"
proof -
  let ?h = "sample_heap(4 \<mapsto> Flat (OneByte []))"
  have k: "string_at sample_heap x v vs \<Longrightarrow> string_at ?h x v vs" for x v vs
    by (rule alloc_keeps) (simp_all add: sample_heap_def)
  have "strings_at ?h [2, 0, 2] [[97, 98, 0x3B1], [97, 98], [97, 98, 0x3B1]]"
    using k [OF sample_strings(1)] k [OF sample_strings(3)] by (auto simp: strings_at_def)
  moreover have "string_at ?h 4 OneByteWidth []" using string_at.flat [of ?h 4 "OneByte []"] by simp
  ultimately show ?thesis using concat_all_correct [of ?h "[2, 0, 2]" "[[97, 98, 0x3B1], [97, 98], [97, 98, 0x3B1]]" 4 OneByteWidth next_place]
    by (simp add: next_place_fresh MAX_STRING_LENGTH_def)
qed
end
