(* ===== verification/Promises.thy ===== *)
theory Promises
  imports Prelude
begin

section \<open>Promises and the task queue\<close>

text \<open>
  Promise objects (\<open>runtime/promise_object.rs\<close>), the functions that settle them
  (\<open>intrinsics/promise_constructor.rs\<close>) and the queue of tasks that their reactions run on
  (\<open>runtime/tasks.rs\<close>). A context holds the state of every promise, the queue, and the settle
  functions that have been handed out.

  Everything that runs JavaScript is a parameter, the record \<open>host\<close>: calling a function that
  is not a settle function, reading the property \<open>then\<close> of an object, and resuming a suspended
  function. Such code takes the context and returns it changed, with a completion: \<open>Inl\<close> a
  thrown value, \<open>Inr\<close> a result. A panic is \<open>None\<close>. Allocation is assumed to succeed, and
  the address of a new object is an argument.
\<close>

type_synonym obj = nat
type_synonym realm = nat

datatype promise_value = ObjectRef obj | NonObject u64

text \<open>A chain of reactions is a list, newest first, as the links of the source are.\<close>

record capability =
  cap_promise :: obj
  cap_resolve :: obj
  cap_reject :: obj

datatype reaction =
    AwaitReaction obj
  | ThenReaction "obj option" "obj option" "capability option"

datatype reaction_kind = Fulfill | Reject

datatype promise_state =
    Pending "reaction list" bool
  | Fulfilled promise_value
  | Rejected promise_value

datatype task =
    Callback1 promise_value promise_value
  | AwaitResume reaction_kind obj promise_value
  | PromiseThenReaction reaction_kind "obj option" "capability option" promise_value "realm option"
  | PromiseThenSettle obj obj obj realm

record promise_cx =
  promises :: "obj \<rightharpoonup> promise_state"
  tasks :: "task list"
  settle_functions :: "obj \<rightharpoonup> reaction_kind \<times> obj"
  current_realm :: realm
  initial_realm :: realm

type_synonym completion = "promise_value + promise_value"

record host =
  host_call :: "obj \<Rightarrow> promise_value \<Rightarrow> promise_value list \<Rightarrow> promise_cx \<Rightarrow> (promise_cx \<times> completion) option"
  host_get_then :: "obj \<Rightarrow> promise_cx \<Rightarrow> (promise_cx \<times> completion) option"
  host_resume :: "obj \<Rightarrow> promise_value \<Rightarrow> reaction_kind \<Rightarrow> promise_cx \<Rightarrow> (promise_cx \<times> completion) option"
  host_callable :: "promise_value \<Rightarrow> bool"
  host_realm :: "obj \<Rightarrow> realm option"
  host_self_resolution_error :: promise_value
  host_not_callable_error :: promise_value
  host_undefined :: promise_value

subsection \<open>The queue\<close>

definition enqueue :: "task \<Rightarrow> promise_cx \<Rightarrow> promise_cx" where
  "enqueue t cx = cx\<lparr>tasks := tasks cx @ [t]\<rparr>"

definition enqueue_callback_1_task :: "promise_value \<Rightarrow> promise_value \<Rightarrow> promise_cx \<Rightarrow> promise_cx" where
  "enqueue_callback_1_task func arg = enqueue (Callback1 func arg)"

definition enqueue_await_resume_task :: "reaction_kind \<Rightarrow> obj \<Rightarrow> promise_value \<Rightarrow> promise_cx \<Rightarrow> promise_cx" where
  "enqueue_await_resume_task kind generator result = enqueue (AwaitResume kind generator result)"

definition enqueue_promise_then_settle_task :: "obj \<Rightarrow> obj \<Rightarrow> obj \<Rightarrow> realm \<Rightarrow> promise_cx \<Rightarrow> promise_cx" where
  "enqueue_promise_then_settle_task then_function resolution promise realm =
     enqueue (PromiseThenSettle then_function resolution promise realm)"

text \<open>The handler's realm, or the current one when it has none (a revoked proxy).\<close>

definition enqueue_promise_then_reaction_task ::
  "host \<Rightarrow> reaction_kind \<Rightarrow> obj option \<Rightarrow> capability option \<Rightarrow> promise_value \<Rightarrow> promise_cx \<Rightarrow> promise_cx" where
  "enqueue_promise_then_reaction_task ho kind handler capability result cx =
     (let realm = (case handler of
          Some handler \<Rightarrow> (case host_realm ho handler of Some realm \<Rightarrow> Some realm | None \<Rightarrow> Some (current_realm cx))
        | None \<Rightarrow> None)
      in enqueue (PromiseThenReaction kind handler capability result realm) cx)"

subsection \<open>The state of a promise\<close>

definition set_promise :: "obj \<Rightarrow> promise_state \<Rightarrow> promise_cx \<Rightarrow> promise_cx" where
  "set_promise p st cx = cx\<lparr>promises := (promises cx)(p \<mapsto> st)\<rparr>"

definition new_pending :: "obj \<Rightarrow> promise_cx \<Rightarrow> promise_cx" where
  "new_pending p = set_promise p (Pending [] False)"

definition is_pending :: "obj \<Rightarrow> promise_cx \<Rightarrow> bool" where
  "is_pending p cx = (case promises cx p of Some (Pending _ already_resolved) \<Rightarrow> \<not> already_resolved | _ \<Rightarrow> False)"

definition rejected_value :: "obj \<Rightarrow> promise_cx \<Rightarrow> promise_value option" where
  "rejected_value p cx = (case promises cx p of Some (Rejected v) \<Rightarrow> Some v | _ \<Rightarrow> None)"

definition fulfilled_value :: "obj \<Rightarrow> promise_cx \<Rightarrow> promise_value option" where
  "fulfilled_value p cx = (case promises cx p of Some (Fulfilled v) \<Rightarrow> Some v | _ \<Rightarrow> None)"

definition set_already_resolved :: "obj \<Rightarrow> bool \<Rightarrow> promise_cx \<Rightarrow> promise_cx option" where
  "set_already_resolved p b cx =
     (case promises cx p of Some (Pending rs _) \<Rightarrow> Some (set_promise p (Pending rs b) cx) | _ \<Rightarrow> None)"

definition set_reactions :: "obj \<Rightarrow> reaction list \<Rightarrow> promise_cx \<Rightarrow> promise_cx option" where
  "set_reactions p rs cx =
     (case promises cx p of Some (Pending _ b) \<Rightarrow> Some (set_promise p (Pending rs b) cx) | _ \<Rightarrow> None)"

definition enqueue_reaction :: "host \<Rightarrow> reaction_kind \<Rightarrow> promise_value \<Rightarrow> reaction \<Rightarrow> promise_cx \<Rightarrow> promise_cx" where
  "enqueue_reaction ho kind v r cx =
     (case r of
        AwaitReaction generator \<Rightarrow> enqueue_await_resume_task kind generator v cx
      | ThenReaction fulfill_handler reject_handler capability \<Rightarrow>
          enqueue_promise_then_reaction_task ho kind
            (case kind of Fulfill \<Rightarrow> fulfill_handler | Reject \<Rightarrow> reject_handler) capability v cx)"

definition enqueue_tasks_for_reactions :: "host \<Rightarrow> obj \<Rightarrow> reaction_kind \<Rightarrow> promise_value \<Rightarrow> promise_cx \<Rightarrow> promise_cx option" where
  "enqueue_tasks_for_reactions ho p kind v cx =
     (case promises cx p of
        Some (Pending reactions _) \<Rightarrow> Some (fold (enqueue_reaction ho kind v) (rev reactions) cx)
      | _ \<Rightarrow> None)"

text \<open>\<open>PromiseObject::resolve\<close> and \<open>PromiseObject::reject\<close>.\<close>

definition fulfill_promise :: "host \<Rightarrow> obj \<Rightarrow> promise_value \<Rightarrow> promise_cx \<Rightarrow> promise_cx option" where
  "fulfill_promise ho p v cx =
     do { cx \<leftarrow> enqueue_tasks_for_reactions ho p Fulfill v cx; Some (set_promise p (Fulfilled v) cx) }"

definition reject_promise :: "host \<Rightarrow> obj \<Rightarrow> promise_value \<Rightarrow> promise_cx \<Rightarrow> promise_cx option" where
  "reject_promise ho p v cx =
     do { cx \<leftarrow> enqueue_tasks_for_reactions ho p Reject v cx; Some (set_promise p (Rejected v) cx) }"

definition add_await_reaction :: "obj \<Rightarrow> obj \<Rightarrow> promise_cx \<Rightarrow> promise_cx option" where
  "add_await_reaction p generator cx =
     (case promises cx p of
        Some (Pending reactions _) \<Rightarrow> set_reactions p (AwaitReaction generator # reactions) cx
      | Some (Fulfilled result) \<Rightarrow> Some (enqueue_await_resume_task Fulfill generator result cx)
      | Some (Rejected result) \<Rightarrow> Some (enqueue_await_resume_task Reject generator result cx)
      | None \<Rightarrow> None)"

definition add_then_reaction ::
  "host \<Rightarrow> obj \<Rightarrow> obj option \<Rightarrow> obj option \<Rightarrow> capability option \<Rightarrow> promise_cx \<Rightarrow> promise_cx option" where
  "add_then_reaction ho p fulfill_handler reject_handler capability cx =
     (case promises cx p of
        Some (Pending reactions _) \<Rightarrow>
          set_reactions p (ThenReaction fulfill_handler reject_handler capability # reactions) cx
      | Some (Fulfilled result) \<Rightarrow>
          Some (enqueue_promise_then_reaction_task ho Fulfill fulfill_handler capability result cx)
      | Some (Rejected result) \<Rightarrow>
          Some (enqueue_promise_then_reaction_task ho Reject reject_handler capability result cx)
      | None \<Rightarrow> None)"

definition as_object :: "promise_value \<Rightarrow> obj option" where
  "as_object v = (case v of ObjectRef ob \<Rightarrow> Some ob | NonObject _ \<Rightarrow> None)"

definition handler_of :: "host \<Rightarrow> promise_value \<Rightarrow> obj option" where
  "handler_of ho v = (if host_callable ho v then as_object v else None)"

definition perform_promise_then ::
  "host \<Rightarrow> obj \<Rightarrow> promise_value \<Rightarrow> promise_value \<Rightarrow> capability option \<Rightarrow> promise_cx \<Rightarrow> (promise_cx \<times> promise_value) option" where
  "perform_promise_then ho p fulfill_handler reject_handler capability cx =
     do { cx \<leftarrow> add_then_reaction ho p (handler_of ho fulfill_handler) (handler_of ho reject_handler) capability cx;
          Some (cx, case capability of Some c \<Rightarrow> ObjectRef (cap_promise c) | None \<Rightarrow> host_undefined ho) }"

subsection \<open>Resolving\<close>

text \<open>
  \<open>resolve\<close> in two parts: marking the promise, which ends the call when the promise is already
  settled or marked, and what follows once \<open>then\<close> has been read. Reading it may run user code
  in between.
\<close>

definition resolve_start :: "obj \<Rightarrow> promise_cx \<Rightarrow> (promise_cx \<times> bool) option" where
  "resolve_start p cx =
     (case promises cx p of
        None \<Rightarrow> None
      | Some (Pending _ already_resolved) \<Rightarrow>
          if already_resolved then Some (cx, False)
          else map_option (\<lambda>cx. (cx, True)) (set_already_resolved p True cx)
      | Some _ \<Rightarrow> Some (cx, False))"

definition resolve_finish :: "host \<Rightarrow> obj \<Rightarrow> obj \<Rightarrow> completion \<Rightarrow> promise_cx \<Rightarrow> promise_cx option" where
  "resolve_finish ho p resolution then_completion cx =
     (case then_completion of
        Inl error \<Rightarrow> reject_promise ho p error cx
      | Inr then_value \<Rightarrow>
          if \<not> host_callable ho then_value then fulfill_promise ho p (ObjectRef resolution) cx
          else do { then_function \<leftarrow> as_object then_value;
                    let realm = (case host_realm ho then_function of Some realm \<Rightarrow> realm | None \<Rightarrow> current_realm cx)
                    in Some (enqueue_promise_then_settle_task then_function resolution p realm cx) })"

definition resolve :: "host \<Rightarrow> obj \<Rightarrow> promise_value \<Rightarrow> promise_cx \<Rightarrow> promise_cx option" where
  "resolve ho p resolution cx =
     do { (cx, go) \<leftarrow> resolve_start p cx;
          if \<not> go then Some cx
          else if resolution = ObjectRef p then reject_promise ho p (host_self_resolution_error ho) cx
          else (case resolution of
              NonObject _ \<Rightarrow> fulfill_promise ho p resolution cx
            | ObjectRef ob \<Rightarrow>
                do { (cx, then_completion) \<leftarrow> host_get_then ho ob cx;
                     resolve_finish ho p ob then_completion cx }) }"

definition get_argument :: "host \<Rightarrow> promise_value list \<Rightarrow> nat \<Rightarrow> promise_value" where
  "get_argument ho arguments i = (if i < length arguments then arguments ! i else host_undefined ho)"

definition resolve_builtin_function :: "host \<Rightarrow> obj \<Rightarrow> promise_value list \<Rightarrow> promise_cx \<Rightarrow> (promise_cx \<times> completion) option" where
  "resolve_builtin_function ho p arguments cx =
     do { cx \<leftarrow> resolve ho p (get_argument ho arguments 0) cx; Some (cx, Inr (host_undefined ho)) }"

definition reject_builtin_function :: "host \<Rightarrow> obj \<Rightarrow> promise_value list \<Rightarrow> promise_cx \<Rightarrow> (promise_cx \<times> completion) option" where
  "reject_builtin_function ho p arguments cx =
     do { cx \<leftarrow> (if is_pending p cx then reject_promise ho p (get_argument ho arguments 0) cx else Some cx);
          Some (cx, Inr (host_undefined ho)) }"

text \<open>A settle function knows its promise; any other function is the host's.\<close>

definition call_object :: "host \<Rightarrow> obj \<Rightarrow> promise_value \<Rightarrow> promise_value list \<Rightarrow> promise_cx \<Rightarrow> (promise_cx \<times> completion) option" where
  "call_object ho f receiver arguments cx =
     (case settle_functions cx f of
        Some (Fulfill, p) \<Rightarrow> resolve_builtin_function ho p arguments cx
      | Some (Reject, p) \<Rightarrow> reject_builtin_function ho p arguments cx
      | None \<Rightarrow> host_call ho f receiver arguments cx)"

definition create_settle_function :: "obj \<Rightarrow> reaction_kind \<Rightarrow> obj \<Rightarrow> promise_cx \<Rightarrow> promise_cx" where
  "create_settle_function f kind p cx = cx\<lparr>settle_functions := (settle_functions cx)(f \<mapsto> (kind, p))\<rparr>"

text \<open>\<open>fns\<close> gives the addresses of the two new functions.\<close>

definition execute_then ::
  "host \<Rightarrow> obj \<times> obj \<Rightarrow> obj \<Rightarrow> promise_value \<Rightarrow> obj \<Rightarrow> promise_cx \<Rightarrow> (promise_cx \<times> completion) option" where
  "execute_then ho fns executor this_value p cx =
     (let (resolve_function, reject_function) = fns;
          cx = create_settle_function resolve_function Fulfill p cx;
          cx = create_settle_function reject_function Reject p cx
      in do { cx \<leftarrow> set_already_resolved p False cx;
              (cx, completion) \<leftarrow>
                call_object ho executor this_value [ObjectRef resolve_function, ObjectRef reject_function] cx;
              (cx, r) \<leftarrow> (case completion of
                  Inl error \<Rightarrow> call_object ho reject_function (host_undefined ho) [error] cx
                | Inr v \<Rightarrow> Some (cx, Inr v));
              Some (cx, case r of Inl e \<Rightarrow> Inl e | Inr _ \<Rightarrow> Inr (ObjectRef p)) })"

subsection \<open>Running tasks\<close>

text \<open>
  The realm frame below the task's code, and its removal. \<open>call\<close> throws when the value is not
  callable.
\<close>

definition with_initial_realm ::
  "realm \<Rightarrow> (promise_cx \<Rightarrow> (promise_cx \<times> completion) option) \<Rightarrow> promise_cx \<Rightarrow> (promise_cx \<times> completion) option" where
  "with_initial_realm r f cx =
     do { (cx', res) \<leftarrow> f (cx\<lparr>current_realm := r\<rparr>); Some (cx'\<lparr>current_realm := current_realm cx\<rparr>, res) }"

definition call_value :: "host \<Rightarrow> promise_value \<Rightarrow> promise_value \<Rightarrow> promise_value list \<Rightarrow> promise_cx \<Rightarrow> (promise_cx \<times> completion) option" where
  "call_value ho func receiver arguments cx =
     (case handler_of ho func of
        Some f \<Rightarrow> call_object ho f receiver arguments cx
      | None \<Rightarrow> Some (cx, Inl (host_not_callable_error ho)))"

definition run_reaction ::
  "host \<Rightarrow> reaction_kind \<Rightarrow> obj option \<Rightarrow> capability option \<Rightarrow> promise_value \<Rightarrow> promise_cx \<Rightarrow> (promise_cx \<times> completion) option" where
  "run_reaction ho kind handler capability result cx =
     do { (cx, handler_result) \<leftarrow>
            (case handler of
               Some f \<Rightarrow> call_object ho f (host_undefined ho) [result] cx
             | None \<Rightarrow> Some (cx, case kind of Fulfill \<Rightarrow> Inr result | Reject \<Rightarrow> Inl result));
          (case capability of
             Some c \<Rightarrow>
               (case handler_result of
                  Inr v \<Rightarrow> call_object ho (cap_resolve c) (host_undefined ho) [v] cx
                | Inl e \<Rightarrow> call_object ho (cap_reject c) (host_undefined ho) [e] cx)
           | None \<Rightarrow> Some (cx, Inr (host_undefined ho))) }"

text \<open>\<open>new\<close> gives the addresses of the objects that the task allocates.\<close>

definition execute_task :: "host \<Rightarrow> (promise_cx \<Rightarrow> obj \<times> obj) \<Rightarrow> task \<Rightarrow> promise_cx \<Rightarrow> (promise_cx \<times> completion) option" where
  "execute_task ho new t cx =
     (case t of
        Callback1 func arg \<Rightarrow>
          with_initial_realm (initial_realm cx) (call_value ho func (host_undefined ho) [arg]) cx
      | AwaitResume kind generator result \<Rightarrow>
          with_initial_realm (case host_realm ho generator of Some r \<Rightarrow> r | None \<Rightarrow> initial_realm cx)
            (host_resume ho generator result kind) cx
      | PromiseThenReaction kind handler capability result realm \<Rightarrow>
          with_initial_realm (case realm of Some r \<Rightarrow> r | None \<Rightarrow> initial_realm cx)
            (run_reaction ho kind handler capability result) cx
      | PromiseThenSettle then_function resolution p realm \<Rightarrow>
          with_initial_realm realm (\<lambda>cx. execute_then ho (new cx) then_function (ObjectRef resolution) p cx) cx)"

text \<open>
  \<open>run_all_tasks\<close>: until the queue is empty, or a task throws. The loop is cut off after a
  number of iterations, and the tasks that were run are kept for the statements below.
\<close>

datatype loop_end = Finished | Threw promise_value | Interrupted

fun run_all_tasks :: "host \<Rightarrow> (promise_cx \<Rightarrow> obj \<times> obj) \<Rightarrow> nat \<Rightarrow> promise_cx \<Rightarrow> (promise_cx \<times> task list \<times> loop_end) option" where
  "run_all_tasks ho new n cx =
     (case tasks cx of
        [] \<Rightarrow> Some (cx, [], Finished)
      | t # rest \<Rightarrow>
          (case n of
             0 \<Rightarrow> Some (cx, [], Interrupted)
           | Suc n \<Rightarrow>
               do { (cx, res) \<leftarrow> execute_task ho new t (cx\<lparr>tasks := rest\<rparr>);
                    (case res of
                       Inl e \<Rightarrow> Some (cx, [t], Threw e)
                     | Inr _ \<Rightarrow>
                         do { (cx, ts, r) \<leftarrow> run_all_tasks ho new n cx; Some (cx, t # ts, r) }) }))"

declare run_all_tasks.simps [simp del]


subsection \<open>What JavaScript code may do\<close>

text \<open>
  A run of JavaScript code is any sequence of the operations it can reach: creating a promise with its
  two settle functions, registering reactions, settling, and queueing a callback. A call to
  \<open>resolve\<close> with an object runs further code before it finishes. Realm changes come with calls.
\<close>

inductive runs :: "host \<Rightarrow> promise_cx \<Rightarrow> promise_cx \<Rightarrow> bool" for ho where
  refl: "runs ho a a"
| create: "runs ho a b \<Longrightarrow> promises b p = None \<Longrightarrow>
    runs ho a (create_settle_function g Reject p (create_settle_function f Fulfill p (new_pending p b)))"
| then_reaction: "runs ho a b \<Longrightarrow> add_then_reaction ho p f r c b = Some b' \<Longrightarrow> runs ho a b'"
| await_reaction: "runs ho a b \<Longrightarrow> add_await_reaction p g b = Some b' \<Longrightarrow> runs ho a b'"
| callback: "runs ho a b \<Longrightarrow> runs ho a (enqueue_callback_1_task f v b)"
| reject: "runs ho a b \<Longrightarrow> reject_builtin_function ho p args b = Some (b', r) \<Longrightarrow> runs ho a b'"
| no_effect: "runs ho a b \<Longrightarrow> resolve_start p b = Some (b', False) \<Longrightarrow> runs ho a b'"
| resolve_self: "runs ho a b \<Longrightarrow> resolve_start p b = Some (b', True) \<Longrightarrow> reject_promise ho p v b' = Some b'' \<Longrightarrow> runs ho a b''"
| resolve_value: "runs ho a b \<Longrightarrow> resolve_start p b = Some (b', True) \<Longrightarrow> fulfill_promise ho p v b' = Some b'' \<Longrightarrow> runs ho a b''"
| resolve_object: "runs ho a b \<Longrightarrow> resolve_start p b = Some (b', True) \<Longrightarrow> runs ho b' c \<Longrightarrow>
    resolve_finish ho p ob completion c = Some c' \<Longrightarrow> runs ho a c'"
| realm: "runs ho a b \<Longrightarrow> runs ho a (b\<lparr>current_realm := r\<rparr>)"

subsection \<open>The invariant of settling\<close>

definition settle_targets :: "task list \<Rightarrow> obj list" where
  "settle_targets ts = concat (map (\<lambda>t. case t of PromiseThenSettle _ _ p _ \<Rightarrow> [p] | _ \<Rightarrow> []) ts)"

lemma settle_targets_simps [simp]:
  "settle_targets [] = []" "settle_targets (ts @ us) = settle_targets ts @ settle_targets us"
  "settle_targets (t # ts) = (case t of PromiseThenSettle _ _ p _ \<Rightarrow> [p] | _ \<Rightarrow> []) @ settle_targets ts"
  by (simp_all add: settle_targets_def)

definition locked :: "promise_cx \<Rightarrow> obj \<Rightarrow> bool" where
  "locked cx p \<longleftrightarrow> (\<exists>rs. promises cx p = Some (Pending rs True))"

text \<open>
  Every settle function belongs to a promise, and each promise that a queued task is to settle is
  marked as resolved, is still pending, and is the target of that task only.
\<close>

definition settle_inv :: "promise_cx \<Rightarrow> bool" where
  "settle_inv cx \<longleftrightarrow>
     (\<forall>f k p. settle_functions cx f = Some (k, p) \<longrightarrow> promises cx p \<noteq> None) \<and>
     distinct (settle_targets (tasks cx)) \<and> (\<forall>p \<in> set (settle_targets (tasks cx)). locked cx p)"

text \<open>Marked by a call to \<open>resolve\<close> that has not finished.\<close>

definition held :: "promise_cx \<Rightarrow> obj \<Rightarrow> bool" where
  "held cx p \<longleftrightarrow> locked cx p \<and> p \<notin> set (settle_targets (tasks cx))"

text \<open>
  How a context may change: the invariant holds afterwards, marked promises stay marked but for those
  in \<open>X\<close>, a settled promise keeps its state, and the queue only grows.
\<close>

definition evolves :: "obj set \<Rightarrow> promise_cx \<Rightarrow> promise_cx \<Rightarrow> bool" where
  "evolves X a b \<longleftrightarrow>
     settle_inv b \<and> (\<forall>p. held a p \<longrightarrow> p \<in> X \<or> held b p) \<and>
     (\<forall>p st. promises a p = Some st \<longrightarrow>
        promises b p \<noteq> None \<and> ((\<forall>rs fl. st \<noteq> Pending rs fl) \<longrightarrow> promises b p = Some st)) \<and>
     (\<exists>added. tasks b = tasks a @ added)"

lemma evolvesD:
  assumes "evolves X a b"
  shows "settle_inv b" "held a p \<Longrightarrow> p \<notin> X \<Longrightarrow> held b p" "promises a p = Some st \<Longrightarrow> promises b p \<noteq> None"
    "promises a p = Some st \<Longrightarrow> (\<And>rs fl. st \<noteq> Pending rs fl) \<Longrightarrow> promises b p = Some st"
    "\<exists>added. tasks b = tasks a @ added"
  using assms unfolding evolves_def by blast+

lemma evolvesI:
  assumes "settle_inv b" "\<And>p. held a p \<Longrightarrow> p \<notin> X \<Longrightarrow> held b p" "\<And>p st. promises a p = Some st \<Longrightarrow> promises b p \<noteq> None"
    "\<And>p st. promises a p = Some st \<Longrightarrow> (\<And>rs fl. st \<noteq> Pending rs fl) \<Longrightarrow> promises b p = Some st"
    "tasks b = tasks a @ added"
  shows "evolves X a b"
  using assms unfolding evolves_def by blast

lemma evolves_refl: "settle_inv a \<Longrightarrow> evolves X a a"
  by (auto simp: evolves_def)

lemma evolves_trans:
  assumes ab: "evolves X a b" and bc: "evolves X b c"
  shows "evolves X a c"
proof -
  obtain s t where "tasks b = tasks a @ s" "tasks c = tasks b @ t" using evolvesD(5) [OF ab] evolvesD(5) [OF bc] by blast
  then have "tasks c = tasks a @ s @ t" by simp
  moreover have "promises c p = Some st" if "promises a p = Some st" "\<And>rs fl. st \<noteq> Pending rs fl" for p st
    using evolvesD(4) [OF bc] evolvesD(4) [OF ab] that by blast
  moreover have "promises c p \<noteq> None" if "promises a p = Some st" for p st
    using evolvesD(3) [OF ab that] evolvesD(3) [OF bc] by blast
  ultimately show ?thesis using evolvesD(1,2) [OF ab] evolvesD(1,2) [OF bc] by (intro evolvesI) blast+
qed

lemma evolves_mono: "evolves X a b \<Longrightarrow> X \<subseteq> Y \<Longrightarrow> evolves Y a b"
  unfolding evolves_def by blast

lemma evolves_drop: "evolves X a b \<Longrightarrow> (\<And>p. p \<in> X \<Longrightarrow> \<not> held a p) \<Longrightarrow> evolves {} a b"
  unfolding evolves_def by blast

lemma evolves_inv: "evolves X a b \<Longrightarrow> settle_inv b"
  by (simp add: evolves_def)

text \<open>A change of one pending promise, with tasks that settle nothing.\<close>

lemma evolves_update:
  assumes inv: "settle_inv a" and p: "promises a p = Some (Pending rs fl)"
    and b: "promises b = (promises a)(p \<mapsto> st)" "tasks b = tasks a @ added" "settle_targets added = []"
      "settle_functions b = settle_functions a"
    and lock: "fl \<longrightarrow> (\<exists>rs'. st = Pending rs' True) \<or> p \<in> X \<and> p \<notin> set (settle_targets (tasks a))"
  shows "evolves X a b"
proof -
  have p_free: "\<not> locked a p" if "\<not> fl" using p that by (simp add: locked_def)
  have lk: "locked b q" if "locked a q" "q \<in> set (settle_targets (tasks a)) \<or> q \<notin> X" for q
    using that lock b(1) p_free by (cases "q = p") (auto simp: locked_def)
  have "settle_inv b"
    using inv lk b by (auto simp: settle_inv_def split: if_splits)
  moreover have "held a q \<longrightarrow> q \<in> X \<or> held b q" for q using lk b(2,3) by (auto simp: held_def)
  ultimately show ?thesis using p b(1,2) by (auto simp: evolves_def)
qed

lemma evolves_enqueue:
  assumes "settle_inv a" "promises b = promises a" "settle_functions b = settle_functions a" "tasks b = tasks a @ added" "settle_targets added = []"
  shows "evolves X a b"
  using assms by (auto simp: evolves_def settle_inv_def held_def locked_def)

subsection \<open>The operations keep the invariant\<close>

text \<open>The task of a reaction.\<close>

definition reaction_task :: "host \<Rightarrow> realm \<Rightarrow> reaction_kind \<Rightarrow> promise_value \<Rightarrow> reaction \<Rightarrow> task" where
  "reaction_task ho realm kind v r =
     (case r of
        AwaitReaction generator \<Rightarrow> AwaitResume kind generator v
      | ThenReaction fulfill_handler reject_handler capability \<Rightarrow>
          (let handler = (if kind = Fulfill then fulfill_handler else reject_handler) in
           PromiseThenReaction kind handler capability v
             (map_option (\<lambda>h. case host_realm ho h of Some r \<Rightarrow> r | None \<Rightarrow> realm) handler)))"

lemma then_reaction_task:
  "enqueue_promise_then_reaction_task ho kind handler c v cx =
     enqueue (PromiseThenReaction kind handler c v
       (map_option (\<lambda>h. case host_realm ho h of Some r \<Rightarrow> r | None \<Rightarrow> current_realm cx) handler)) cx"
  by (auto simp: enqueue_promise_then_reaction_task_def split: option.splits)

lemma enqueue_reaction_task: "enqueue_reaction ho kind v r cx = enqueue (reaction_task ho (current_realm cx) kind v r) cx"
  by (cases r; cases kind)
    (simp_all add: enqueue_reaction_def reaction_task_def then_reaction_task enqueue_await_resume_task_def)

lemma fold_enqueue_reaction:
  "fold (enqueue_reaction ho kind v) rs cx = cx\<lparr>tasks := tasks cx @ map (reaction_task ho (current_realm cx) kind v) rs\<rparr>"
  by (induction rs arbitrary: cx) (simp_all add: enqueue_reaction_task enqueue_def)

lemma reaction_task_target [simp]: "settle_targets (map (reaction_task ho realm kind v) rs) = []"
  by (induction rs) (auto simp: reaction_task_def Let_def split: reaction.splits)

definition settled_state :: "reaction_kind \<Rightarrow> promise_value \<Rightarrow> promise_state" where
  "settled_state kind v = (case kind of Fulfill \<Rightarrow> Fulfilled v | Reject \<Rightarrow> Rejected v)"

definition settle_promise :: "host \<Rightarrow> reaction_kind \<Rightarrow> obj \<Rightarrow> promise_value \<Rightarrow> promise_cx \<Rightarrow> promise_cx option" where
  "settle_promise ho kind = (case kind of Fulfill \<Rightarrow> fulfill_promise ho | Reject \<Rightarrow> reject_promise ho)"

lemma settle_promise_simps: "settle_promise ho Fulfill = fulfill_promise ho" "settle_promise ho Reject = reject_promise ho"
  by (simp_all add: settle_promise_def)

lemma settle_pending:
  assumes "promises cx p = Some (Pending rs fl)"
  shows "settle_promise ho kind p v cx =
    Some (cx\<lparr>promises := (promises cx)(p \<mapsto> settled_state kind v),
             tasks := tasks cx @ map (reaction_task ho (current_realm cx) kind v) (rev rs)\<rparr>)"
  using assms by (cases kind) (simp_all add: settle_promise_def fulfill_promise_def reject_promise_def enqueue_tasks_for_reactions_def
      fold_enqueue_reaction set_promise_def settled_state_def)

lemma settle_promise_SomeD:
  assumes "settle_promise ho kind p v cx = Some cx'"
  shows "\<exists>rs fl. promises cx p = Some (Pending rs fl)"
  using assms by (cases kind) (auto simp: settle_promise_def fulfill_promise_def reject_promise_def enqueue_tasks_for_reactions_def
      bind_eq_Some_iff split: option.splits promise_state.splits)

lemma settle_evolves:
  assumes "settle_inv a" "settle_promise ho kind p v a = Some b" "locked a p \<Longrightarrow> p \<in> X \<and> held a p"
  shows "evolves X a b"
proof -
  obtain rs fl where p: "promises a p = Some (Pending rs fl)" using settle_promise_SomeD [OF assms(2)] by blast
  then have "fl \<Longrightarrow> p \<in> X \<and> p \<notin> set (settle_targets (tasks a))" using assms(3) by (auto simp: locked_def held_def)
  then show ?thesis using assms(2) p
    by (intro evolves_update [OF assms(1) p, where st = "settled_state kind v"]) (auto simp: settle_pending)
qed

lemma set_reactions_evolves:
  assumes "settle_inv a" "promises a p = Some (Pending rs fl)" "set_reactions p rs' a = Some b"
  shows "evolves X a b"
  using assms by (intro evolves_update [OF assms(1,2), where st = "Pending rs' fl" and added = "[]"])
    (auto simp: set_reactions_def set_promise_def)

lemma enqueue_evolves: "settle_inv a \<Longrightarrow> settle_targets [t] = [] \<Longrightarrow> evolves X a (enqueue t a)"
  by (rule evolves_enqueue [where added = "[t]"]) (simp_all add: enqueue_def)

lemma add_then_evolves: "settle_inv a \<Longrightarrow> add_then_reaction ho p f r c a = Some b \<Longrightarrow> evolves X a b"
  by (auto simp: add_then_reaction_def then_reaction_task split: option.splits promise_state.splits
      intro: set_reactions_evolves enqueue_evolves)

lemma add_await_evolves: "settle_inv a \<Longrightarrow> add_await_reaction p g a = Some b \<Longrightarrow> evolves X a b"
  by (auto simp: add_await_reaction_def enqueue_await_resume_task_def split: option.splits promise_state.splits
      intro: set_reactions_evolves enqueue_evolves)

lemma reject_builtin_evolves:
  assumes "settle_inv a" "reject_builtin_function ho p args a = Some (b, r)"
  shows "evolves X a b"
proof (cases "is_pending p a")
  case True
  then have nl: "\<not> locked a p" by (auto simp: is_pending_def locked_def split: option.splits promise_state.splits)
  have "settle_promise ho Reject p (get_argument ho args 0) a = Some b"
    using assms(2) True by (auto simp: reject_builtin_function_def settle_promise_simps bind_eq_Some_iff)
  then show ?thesis using settle_evolves [OF assms(1)] nl by blast
next
  case False
  then show ?thesis using assms by (simp add: reject_builtin_function_def evolves_refl)
qed

lemma create_evolves:
  assumes "settle_inv a" "promises a p = None"
  shows "evolves X a (create_settle_function g Reject p (create_settle_function f Fulfill p (new_pending p a)))"
proof -
  have "\<not> locked a p" using assms(2) by (simp add: locked_def)
  then show ?thesis using assms
    by (intro evolvesI [where added = "[]"])
      (auto simp: create_settle_function_def new_pending_def set_promise_def settle_inv_def held_def locked_def split: if_splits)
qed

text \<open>Marking a promise, and finishing the call for a promise that is still marked.\<close>

lemma resolve_startD:
  assumes "resolve_start p a = Some (b, go)"
  shows "\<not> go \<Longrightarrow> b = a" "go \<Longrightarrow> \<exists>rs. promises a p = Some (Pending rs False) \<and> b = set_promise p (Pending rs True) a"
  using assms by (auto simp: resolve_start_def set_already_resolved_def split: option.splits promise_state.splits if_splits)

lemma resolve_start_held:
  assumes "settle_inv a" "resolve_start p a = Some (b, True)"
  shows "evolves {p} a b" "held b p" "\<not> held a p"
proof -
  obtain rs where p: "promises a p = Some (Pending rs False)" and b: "b = set_promise p (Pending rs True) a"
    using resolve_startD(2) [OF assms(2)] by blast
  then have nl: "\<not> locked a p" by (simp add: locked_def)
  then show "\<not> held a p" by (simp add: held_def)
  show "evolves {p} a b" using b by (intro evolves_update [OF assms(1) p, where added = "[]"]) (auto simp: set_promise_def)
  show "held b p" using assms(1) nl b by (auto simp: held_def locked_def set_promise_def settle_inv_def)
qed

lemma resolve_finish_evolves:
  assumes "settle_inv a" "held a p" "resolve_finish ho p ob completion a = Some b"
  shows "evolves {p} a b"
proof -
  have settle: "evolves {p} a b" if "settle_promise ho kind p v a = Some b" for kind v
    using settle_evolves [OF assms(1) that] assms(2) by blast
  show ?thesis
  proof (cases completion)
    case (Inl e)
    then show ?thesis using assms(3) settle [of Reject e] by (simp add: resolve_finish_def settle_promise_simps)
  next
    case (Inr v)
    show ?thesis
    proof (cases "host_callable ho v")
      case False
      then show ?thesis using assms(3) Inr settle [of Fulfill "ObjectRef ob"] by (simp add: resolve_finish_def settle_promise_simps)
    next
      case True
      then obtain f realm where "b = enqueue (PromiseThenSettle f ob p realm) a"
        using assms(3) Inr by (auto simp: resolve_finish_def bind_eq_Some_iff enqueue_promise_then_settle_task_def Let_def)
      then show ?thesis using assms(1,2)
        by (intro evolvesI [where added = "[PromiseThenSettle f ob p realm]"])
          (auto simp: enqueue_def settle_inv_def held_def locked_def)
    qed
  qed
qed

lemma resolve_object_evolves:
  assumes "settle_inv a" "resolve_start p a = Some (b, True)" "settle_inv b \<Longrightarrow> evolves {} b c"
    "settle_inv c \<Longrightarrow> held c p \<Longrightarrow> evolves {p} c d"
  shows "evolves {} a d"
proof -
  note s = resolve_start_held [OF assms(1,2)]
  have bc: "evolves {} b c" using assms(3) evolves_inv [OF s(1)] by blast
  have cd: "evolves {p} c d" using assms(4) evolves_inv [OF bc] evolvesD(2) [OF bc s(2)] by blast
  have "evolves {p} a d"
    using evolves_trans [OF evolves_trans [OF s(1) evolves_mono [OF bc]] cd] by blast
  then show ?thesis using s(3) by (rule_tac evolves_drop) auto
qed

lemma runs_evolves: "runs ho a b \<Longrightarrow> settle_inv a \<Longrightarrow> evolves {} a b"
proof (induction rule: runs.induct)
  case (refl a)
  then show ?case by (rule evolves_refl)
next
  case (resolve_self a b p b' v b'')
  then show ?case using evolves_trans [OF _ resolve_object_evolves [of b p b' b' b'']] evolves_inv
    by (metis evolves_refl settle_evolves settle_promise_simps(2) singletonI)
next
  case (resolve_value a b p b' v b'')
  then show ?case using evolves_trans [OF _ resolve_object_evolves [of b p b' b' b'']] evolves_inv
    by (metis evolves_refl settle_evolves settle_promise_simps(1) singletonI)
next
  case (resolve_object a b p b' c ob completion c')
  have ab: "evolves {} a b" using resolve_object by blast
  have "evolves {} b c'"
    by (rule resolve_object_evolves [OF evolves_inv [OF ab] resolve_object.hyps(2)])
      (use resolve_object resolve_finish_evolves in blast)+
  with ab show ?case by (rule evolves_trans)
next
  case (no_effect a b p b')
  then show ?case using resolve_startD(1) by blast
next
  case (realm a b r)
  then have ab: "evolves {} a b" by blast
  have "evolves {} b (b\<lparr>current_realm := r\<rparr>)"
    by (rule evolves_enqueue [where added = "[]"]) (use evolves_inv [OF ab] in simp_all)
  with ab show ?case by (rule evolves_trans)
next
  case (callback a b f v)
  then show ?case using evolves_trans enqueue_evolves evolves_inv by (simp add: enqueue_callback_1_task_def)
next
  case (create a b p g f)
  then show ?case using evolves_trans create_evolves evolves_inv by blast
next
  case (then_reaction a b p f r c b')
  then show ?case using evolves_trans add_then_evolves evolves_inv by blast
next
  case (await_reaction a b p g b')
  then show ?case using evolves_trans add_await_evolves evolves_inv by blast
next
  case (reject a b p args b' r)
  then show ?case using evolves_trans reject_builtin_evolves evolves_inv by blast
qed

subsection \<open>Tasks\<close>

text \<open>
  What is relied on from the host: only objects are callable, and code that it runs in a context that
  satisfies the invariant returns, having done nothing but a run of the operations above.
\<close>

definition host_ok :: "host \<Rightarrow> bool" where
  "host_ok ho \<longleftrightarrow>
     (\<forall>v. host_callable ho v \<longrightarrow> as_object v \<noteq> None) \<and>
     (\<forall>f this args cx. settle_inv cx \<longrightarrow> (\<exists>cx' r. host_call ho f this args cx = Some (cx', r) \<and> runs ho cx cx')) \<and>
     (\<forall>ob cx. settle_inv cx \<longrightarrow> (\<exists>cx' r. host_get_then ho ob cx = Some (cx', r) \<and> runs ho cx cx')) \<and>
     (\<forall>g v kind cx. settle_inv cx \<longrightarrow> (\<exists>cx' r. host_resume ho g v kind cx = Some (cx', r) \<and> runs ho cx cx'))"

lemma host_okD:
  assumes "host_ok ho" "settle_inv cx"
  shows "\<exists>cx' r. host_call ho f this args cx = Some (cx', r) \<and> evolves {} cx cx'"
    "\<exists>cx' r. host_get_then ho ob cx = Some (cx', r) \<and> evolves {} cx cx'"
    "\<exists>cx' r. host_resume ho g v kind cx = Some (cx', r) \<and> evolves {} cx cx'"
  using assms runs_evolves [of ho cx] unfolding host_ok_def by meson+

lemma held_settles:
  assumes "held a p"
  shows "\<exists>b. settle_promise ho kind p v a = Some b"
  using assms by (auto simp: held_def locked_def settle_pending)

lemma resolve_finish_returns:
  assumes "host_ok ho" "held a p"
  shows "\<exists>b. resolve_finish ho p ob completion a = Some b"
proof (cases completion)
  case (Inl e)
  then show ?thesis using held_settles [OF assms(2), of ho Reject e] by (simp add: resolve_finish_def settle_promise_simps)
next
  case (Inr v)
  then show ?thesis using held_settles [OF assms(2), of ho Fulfill "ObjectRef ob"] assms(1)
    by (auto simp: resolve_finish_def settle_promise_simps host_ok_def Let_def)
qed

lemma resolve_ok:
  assumes ho: "host_ok ho" and inv: "settle_inv a" and p: "promises a p \<noteq> None"
  shows "\<exists>b. resolve ho p r a = Some b \<and> evolves {} a b"
proof -
  have "resolve_start p a \<noteq> None"
    using p by (auto simp: resolve_start_def set_already_resolved_def split: promise_state.splits if_splits)
  then obtain b go where st: "resolve_start p a = Some (b, go)" by auto
  show ?thesis
  proof (cases go)
    case False
    then show ?thesis using st resolve_startD(1) [OF st] evolves_refl [OF inv] by (simp add: resolve_def)
  next
    case True
    have start: "resolve_start p a = Some (b, True)" using st True by simp
    note s = resolve_start_held [OF inv start]
    have settle: "\<exists>c. settle_promise ho kind p v b = Some c \<and> evolves {} a c" for kind v
    proof -
      obtain c where c: "settle_promise ho kind p v b = Some c" using held_settles [OF s(2)] by blast
      have "evolves {} a c"
        by (rule resolve_object_evolves [OF inv start evolves_refl]) (use c settle_evolves in blast)+
      then show ?thesis using c by blast
    qed
    show ?thesis
    proof (cases r)
      case (NonObject x)
      then show ?thesis using start settle [of Fulfill r] by (simp add: resolve_def settle_promise_simps)
    next
      case (ObjectRef ob)
      show ?thesis
      proof (cases "ob = p")
        case True
        then show ?thesis using ObjectRef start settle [of Reject] by (simp add: resolve_def settle_promise_simps)
      next
        case False
        obtain c comp where c: "host_get_then ho ob b = Some (c, comp)" "evolves {} b c"
          using host_okD(2) [OF ho evolves_inv [OF s(1)]] by blast
        obtain d where d: "resolve_finish ho p ob comp c = Some d"
          using resolve_finish_returns [OF ho evolvesD(2) [OF c(2) s(2)]] by blast
        have "evolves {} a d"
          by (rule resolve_object_evolves [OF inv start c(2)]) (use d resolve_finish_evolves in blast)
        then show ?thesis using ObjectRef False start c(1) d by (simp add: resolve_def)
      qed
    qed
  qed
qed

lemma reject_builtin_returns: "\<exists>b r. reject_builtin_function ho p args a = Some (b, r)"
proof (cases "is_pending p a")
  case True
  then obtain rs fl where "promises a p = Some (Pending rs fl)"
    by (auto simp: is_pending_def split: option.splits promise_state.splits)
  then show ?thesis using settle_pending [of a p rs fl ho Reject] by (simp add: reject_builtin_function_def settle_promise_simps)
qed (simp add: reject_builtin_function_def)

lemma call_object_ok:
  assumes ho: "host_ok ho" and inv: "settle_inv a"
  shows "\<exists>b r. call_object ho f this args a = Some (b, r) \<and> evolves {} a b"
proof (cases "settle_functions a f")
  case None
  then show ?thesis using host_okD(1) [OF ho inv] by (simp add: call_object_def)
next
  case (Some kp)
  then obtain k p where kp: "settle_functions a f = Some (k, p)" by (cases kp) simp
  then have p: "promises a p \<noteq> None" using inv by (auto simp: settle_inv_def)
  show ?thesis
  proof (cases k)
    case Fulfill
    then show ?thesis using kp resolve_ok [OF ho inv p, of "get_argument ho args 0"]
      by (auto simp: call_object_def resolve_builtin_function_def)
  next
    case Reject
    then show ?thesis using kp reject_builtin_returns [of ho p args a] reject_builtin_evolves [OF inv]
      by (fastforce simp: call_object_def)
  qed
qed

lemma with_realm_ok:
  assumes "settle_inv a" "\<And>a'. settle_inv a' \<Longrightarrow> promises a' = promises a \<Longrightarrow> tasks a' = tasks a \<Longrightarrow> \<exists>b r. f a' = Some (b, r) \<and> evolves X a' b"
  shows "\<exists>b r. with_initial_realm realm f a = Some (b, r) \<and> evolves X a b"
proof -
  let ?a = "a\<lparr>current_realm := realm\<rparr>"
  have "evolves X a ?a" by (rule evolves_enqueue [where added = "[]"]) (simp_all add: assms(1))
  then obtain b r where b: "f ?a = Some (b, r)" "evolves X a b"
    using assms(2) [of ?a] evolves_inv evolves_trans by fastforce
  have "evolves X b (b\<lparr>current_realm := current_realm a\<rparr>)"
    by (rule evolves_enqueue [where added = "[]"]) (simp_all add: evolves_inv [OF b(2)])
  then show ?thesis using b evolves_trans by (fastforce simp: with_initial_realm_def)
qed

lemma run_reaction_ok:
  assumes ho: "host_ok ho" and inv: "settle_inv a"
  shows "\<exists>b r. run_reaction ho kind handler capability result a = Some (b, r) \<and> evolves {} a b"
proof -
  have "\<exists>b hr. (case handler of
      Some f \<Rightarrow> call_object ho f (host_undefined ho) [result] a
    | None \<Rightarrow> Some (a, case kind of Fulfill \<Rightarrow> Inr result | Reject \<Rightarrow> Inl result)) = Some (b, hr) \<and> evolves {} a b"
    using call_object_ok [OF ho inv] evolves_refl [OF inv] by (cases handler) auto
  then obtain b hr where b: "(case handler of
      Some f \<Rightarrow> call_object ho f (host_undefined ho) [result] a
    | None \<Rightarrow> Some (a, case kind of Fulfill \<Rightarrow> Inr result | Reject \<Rightarrow> Inl result)) = Some (b, hr)" "evolves {} a b"
    by blast
  note call = call_object_ok [OF ho evolves_inv [OF b(2)]]
  have "\<exists>c r. (case capability of
      Some c \<Rightarrow> (case hr of Inr v \<Rightarrow> call_object ho (cap_resolve c) (host_undefined ho) [v] b
                 | Inl e \<Rightarrow> call_object ho (cap_reject c) (host_undefined ho) [e] b)
    | None \<Rightarrow> Some (b, Inr (host_undefined ho))) = Some (c, r) \<and> evolves {} b c"
    using call evolves_refl [OF evolves_inv [OF b(2)]] by (cases capability; cases hr) auto
  then show ?thesis using b evolves_trans [OF b(2)] by (auto simp: run_reaction_def)
qed

lemma execute_then_ok:
  assumes ho: "host_ok ho" and inv: "settle_inv a" and p: "held a p"
  shows "\<exists>b r. execute_then ho fns executor this p a = Some (b, r) \<and> evolves UNIV a b"
proof -
  obtain f g where fns: "fns = (f, g)" by force
  obtain rs where rs: "promises a p = Some (Pending rs True)" using p by (auto simp: held_def locked_def)
  define a1 where "a1 = create_settle_function g Reject p (create_settle_function f Fulfill p a)"
  define a2 where "a2 = set_promise p (Pending rs False) a1"
  have a2: "set_already_resolved p False a1 = Some a2"
    using rs by (simp add: a1_def a2_def create_settle_function_def set_already_resolved_def)
  have "evolves UNIV a a1"
    using inv rs by (intro evolvesI [where added = "[]"])
      (auto simp: a1_def create_settle_function_def settle_inv_def locked_def held_def split: if_splits)
  moreover have "evolves UNIV a1 a2"
    by (rule evolves_update [where p = p and rs = rs and fl = True and added = "[]"])
      (use p rs evolves_inv [OF calculation] in \<open>auto simp: a1_def a2_def create_settle_function_def set_promise_def held_def\<close>)
  ultimately have e2: "evolves UNIV a a2" by (rule evolves_trans)
  obtain b comp where b: "call_object ho executor this [ObjectRef f, ObjectRef g] a2 = Some (b, comp)" "evolves {} a2 b"
    using call_object_ok [OF ho evolves_inv [OF e2]] by blast
  have "\<exists>c r. (case comp of Inl error \<Rightarrow> call_object ho g (host_undefined ho) [error] b | Inr v \<Rightarrow> Some (b, Inr v)) = Some (c, r) \<and>
      evolves {} b c"
    using call_object_ok [OF ho evolves_inv [OF b(2)]] evolves_refl [OF evolves_inv [OF b(2)]] by (cases comp) auto
  then obtain c r where c: "(case comp of Inl error \<Rightarrow> call_object ho g (host_undefined ho) [error] b | Inr v \<Rightarrow> Some (b, Inr v)) = Some (c, r)"
    "evolves {} b c" by blast
  have "execute_then ho fns executor this p a = Some (c, case r of Inl e \<Rightarrow> Inl e | Inr _ \<Rightarrow> Inr (ObjectRef p))"
    using a2 b(1) c(1) by (simp add: execute_then_def fns a1_def Let_def)
  then show ?thesis using e2 evolves_mono [OF b(2)] evolves_mono [OF c(2)] evolves_trans by blast
qed

lemma execute_task_ok:
  assumes ho: "host_ok ho" and inv: "settle_inv cx" and t: "tasks cx = t # rest"
  shows "\<exists>b r. execute_task ho new t (cx\<lparr>tasks := rest\<rparr>) = Some (b, r) \<and> evolves UNIV (cx\<lparr>tasks := rest\<rparr>) b"
proof -
  let ?a = "cx\<lparr>tasks := rest\<rparr>"
  have a: "settle_inv ?a" using inv t by (auto simp: settle_inv_def locked_def split: task.splits)
  note up = evolves_mono [OF _ subset_UNIV]
  show ?thesis
  proof (cases t)
    case (Callback1 func arg)
    have "\<exists>b r. call_value ho func (host_undefined ho) [arg] a' = Some (b, r) \<and> evolves UNIV a' b" if "settle_inv a'" for a'
      using call_object_ok [OF ho that] up evolves_refl [OF that] by (cases "handler_of ho func") (fastforce simp: call_value_def)+
    then show ?thesis unfolding Callback1 execute_task_def task.case by (intro with_realm_ok [OF a])
  next
    case (AwaitResume kind g v)
    have "\<exists>b r. host_resume ho g v kind a' = Some (b, r) \<and> evolves UNIV a' b" if "settle_inv a'" for a'
      using host_okD(3) [OF ho that] up by blast
    then show ?thesis unfolding AwaitResume execute_task_def task.case by (intro with_realm_ok [OF a])
  next
    case (PromiseThenReaction kind h c v r)
    have "\<exists>b r. run_reaction ho kind h c v a' = Some (b, r) \<and> evolves UNIV a' b" if "settle_inv a'" for a'
      using run_reaction_ok [OF ho that] up by blast
    then show ?thesis unfolding PromiseThenReaction execute_task_def task.case by (intro with_realm_ok [OF a])
  next
    case (PromiseThenSettle f ob p realm)
    have "held ?a p" using inv t PromiseThenSettle by (auto simp: settle_inv_def held_def locked_def)
    then have "\<exists>b r. execute_then ho (new a') f (ObjectRef ob) p a' = Some (b, r) \<and> evolves UNIV a' b"
      if "settle_inv a'" "promises a' = promises ?a" "tasks a' = tasks ?a" for a'
      using execute_then_ok [OF ho that(1)] that by (simp add: held_def locked_def)
    then show ?thesis unfolding PromiseThenSettle execute_task_def task.case by (intro with_realm_ok [OF a])
  qed
qed
end
