(* ===== verification/Promise_Tasks.thy ===== *)
theory Promise_Tasks
  imports Promises
begin

section \<open>Running the task queue\<close>

text \<open>
  The properties of the loop that runs the queued tasks: it does not panic, settled promises keep
  their value, tasks run in the order in which they were queued, and the loop ends when tasks do not
  replace themselves for ever. At the end, a run in which a promise is settled by functions that an
  earlier resolution had used up.
\<close>

subsection \<open>The loop\<close>

lemma evolves_chain:
  assumes "tasks cx = t # rest" "evolves UNIV (cx\<lparr>tasks := rest\<rparr>) b"
  shows "settle_inv b" "\<exists>added. tasks b = rest @ added"
    "promises cx p = Some st \<Longrightarrow> (\<And>rs fl. st \<noteq> Pending rs fl) \<Longrightarrow> promises b p = Some st"
  using evolvesD [OF assms(2)] by auto

lemma run_all_tasks_ok:
  assumes ho: "host_ok ho"
  shows "settle_inv cx \<Longrightarrow> \<exists>cx' ts e added. run_all_tasks ho new n cx = Some (cx', ts, e) \<and> settle_inv cx' \<and>
     ts @ tasks cx' = tasks cx @ added \<and> (e = Interrupted \<longrightarrow> length ts = n) \<and> (e = Finished \<longrightarrow> tasks cx' = []) \<and>
     (\<forall>p st. promises cx p = Some st \<longrightarrow> (\<forall>rs fl. st \<noteq> Pending rs fl) \<longrightarrow> promises cx' p = Some st)"
proof (induction n arbitrary: cx)
  case 0
  then show ?case by (cases "tasks cx") (simp_all add: run_all_tasks.simps)
next
  case (Suc n)
  show ?case
  proof (cases "tasks cx")
    case Nil
    then show ?thesis using Suc.prems by (simp add: run_all_tasks.simps)
  next
    case (Cons t rest)
    obtain b r where b: "execute_task ho new t (cx\<lparr>tasks := rest\<rparr>) = Some (b, r)" "evolves UNIV (cx\<lparr>tasks := rest\<rparr>) b"
      using execute_task_ok [OF ho Suc.prems Cons] by blast
    note ch = evolves_chain [OF Cons b(2)]
    obtain s where s: "tasks b = rest @ s" using ch(2) by blast
    show ?thesis
    proof (cases r)
      case (Inl e)
      have "run_all_tasks ho new (Suc n) cx = Some (b, [t], Threw e)"
        using Cons b(1) Inl by (simp add: run_all_tasks.simps)
      then show ?thesis using ch(1,3) s Cons by fastforce
    next
      case (Inr v)
      obtain cx' ts e added where IH: "run_all_tasks ho new n b = Some (cx', ts, e)" "settle_inv cx'"
        "ts @ tasks cx' = tasks b @ added" "e = Interrupted \<longrightarrow> length ts = n" "e = Finished \<longrightarrow> tasks cx' = []"
        "\<forall>p st. promises b p = Some st \<longrightarrow> (\<forall>rs fl. st \<noteq> Pending rs fl) \<longrightarrow> promises cx' p = Some st"
        using Suc.IH [OF ch(1)] by blast
      have "run_all_tasks ho new (Suc n) cx = Some (cx', t # ts, e)"
        using Cons b(1) Inr IH(1) by (subst run_all_tasks.simps) simp
      moreover have "(t # ts) @ tasks cx' = tasks cx @ (s @ added)" using IH(3) s Cons by simp
      ultimately show ?thesis using IH(2,4,5,6) ch(3) by (metis length_Cons)
    qed
  qed
qed

text \<open>
  C9: the task loop never panics, however the JavaScript code it runs behaves: the promise of a
  queued settle task is always pending when the task runs, no call to \<open>resolve\<close> finds its
  promise settled behind its back, and a promise that is fulfilled or rejected keeps its state for
  ever.
\<close>

theorem tasks_never_panic:
  assumes "host_ok ho" "settle_inv cx"
  shows "\<exists>cx' ts e. run_all_tasks ho new n cx = Some (cx', ts, e) \<and> settle_inv cx' \<and>
     (\<forall>p v. fulfilled_value p cx = Some v \<longrightarrow> fulfilled_value p cx' = Some v) \<and>
     (\<forall>p v. rejected_value p cx = Some v \<longrightarrow> rejected_value p cx' = Some v)"
proof -
  obtain cx' ts e where r: "run_all_tasks ho new n cx = Some (cx', ts, e)" "settle_inv cx'"
    "\<forall>p st. promises cx p = Some st \<longrightarrow> (\<forall>rs fl. st \<noteq> Pending rs fl) \<longrightarrow> promises cx' p = Some st"
    using run_all_tasks_ok [OF assms] by blast
  have "fulfilled_value p cx' = Some v" if "fulfilled_value p cx = Some v" for p v
    using that r(3) by (auto simp: fulfilled_value_def split: option.splits promise_state.splits)
  moreover have "rejected_value p cx' = Some v" if "rejected_value p cx = Some v" for p v
    using that r(3) by (auto simp: rejected_value_def split: option.splits promise_state.splits)
  ultimately show ?thesis using r by blast
qed

text \<open>
  C18: tasks run in the order in which they were queued, and none is passed over: while no task
  throws, the first \<open>n\<close> iterations of the loop run exactly the first \<open>n\<close> tasks of the
  queue followed by what running tasks add, so a task that waits behind \<open>k\<close> others is run in
  iteration \<open>k + 1\<close> whatever those add.
\<close>

theorem queued_tasks_run:
  assumes "host_ok ho" "settle_inv cx" "k < length (tasks cx)" "k < n"
  shows "\<exists>cx' ts e added. run_all_tasks ho new n cx = Some (cx', ts, e) \<and>
     ts @ tasks cx' = tasks cx @ added \<and> ((\<forall>v. e \<noteq> Threw v) \<longrightarrow> k < length ts \<and> ts ! k = tasks cx ! k)"
proof -
  obtain cx' ts e added where r: "run_all_tasks ho new n cx = Some (cx', ts, e)" "ts @ tasks cx' = tasks cx @ added"
    "e = Interrupted \<longrightarrow> length ts = n" "e = Finished \<longrightarrow> tasks cx' = []"
    using run_all_tasks_ok [OF assms(1,2)] by blast
  have "k < length ts \<and> ts ! k = tasks cx ! k" if "\<forall>v. e \<noteq> Threw v"
  proof -
    have "k < length ts"
    proof (cases e)
      case Finished
      then have "length ts = length (tasks cx) + length added" using r(2,4) by (metis append_Nil2 length_append)
      then show ?thesis using assms(3) by simp
    qed (use that r(3) assms(4) in auto)
    moreover have "(ts @ tasks cx') ! k = (tasks cx @ added) ! k" using r(2) by simp
    ultimately show ?thesis using assms(3) by (simp add: nth_append)
  qed
  then show ?thesis using r by blast
qed

subsection \<open>A host for the examples\<close>

text \<open>Code that returns at once; the property \<open>then\<close> of the object 20 is the function 21.\<close>

definition quiet_host :: host where
  "quiet_host =
     \<lparr>host_call = (\<lambda>f this args cx. Some (cx, Inr (NonObject 0))),
      host_get_then = (\<lambda>ob cx. Some (cx, Inr (if ob = 20 then ObjectRef 21 else NonObject 0))),
      host_resume = (\<lambda>g v kind cx. Some (cx, Inr (NonObject 0))),
      host_callable = (\<lambda>v. case v of ObjectRef _ \<Rightarrow> True | NonObject _ \<Rightarrow> False),
      host_realm = (\<lambda>ob. Some 0), host_self_resolution_error = NonObject 1, host_not_callable_error = NonObject 2,
      host_undefined = NonObject 0\<rparr>"

lemma quiet_host_ok: "host_ok quiet_host"
  by (auto simp: host_ok_def quiet_host_def as_object_def runs.refl split: promise_value.splits)

definition sample_cx :: promise_cx where
  "sample_cx =
     \<lparr>promises = [1 \<mapsto> Pending [] True, 4 \<mapsto> Fulfilled (NonObject 9)],
      tasks = [AwaitResume Fulfill 30 (NonObject 7), PromiseThenSettle 21 20 1 0],
      settle_functions = [2 \<mapsto> (Fulfill, 1), 3 \<mapsto> (Reject, 1)], current_realm = 0, initial_realm = 0\<rparr>"

lemma sample_cx_inv: "settle_inv sample_cx"
  by (auto simp: settle_inv_def sample_cx_def locked_def split: if_splits)

theorem tasks_never_panic_witness:
  "\<exists>cx' ts e. run_all_tasks quiet_host (\<lambda>_. (40, 41)) 5 sample_cx = Some (cx', ts, e) \<and>
     fulfilled_value 4 cx' = Some (NonObject 9)"
proof -
  have "fulfilled_value 4 sample_cx = Some (NonObject 9)" by (simp add: fulfilled_value_def sample_cx_def)
  then show ?thesis using tasks_never_panic [OF quiet_host_ok sample_cx_inv, of "\<lambda>_. (40, 41)" 5] by blast
qed

theorem queued_tasks_run_witness:
  "\<exists>cx' ts e. run_all_tasks quiet_host (\<lambda>_. (40, 41)) 2 sample_cx = Some (cx', ts, e) \<and>
     ((\<forall>v. e \<noteq> Threw v) \<longrightarrow> ts ! 1 = PromiseThenSettle 21 20 1 0)"
proof -
  have "1 < length (tasks sample_cx)" "tasks sample_cx ! 1 = PromiseThenSettle 21 20 1 0" by (simp_all add: sample_cx_def)
  then show ?thesis using queued_tasks_run [OF quiet_host_ok sample_cx_inv, of 1 2 "\<lambda>_. (40, 41)"] by fastforce
qed

subsection \<open>Reactions\<close>

text \<open>Registering a reaction of either kind.\<close>

definition add_reaction :: "host \<Rightarrow> obj \<Rightarrow> reaction \<Rightarrow> promise_cx \<Rightarrow> promise_cx option" where
  "add_reaction ho p r cx =
     (case r of
        AwaitReaction g \<Rightarrow> add_await_reaction p g cx
      | ThenReaction f g c \<Rightarrow> add_then_reaction ho p f g c cx)"

fun add_reactions :: "host \<Rightarrow> obj \<Rightarrow> reaction list \<Rightarrow> promise_cx \<Rightarrow> promise_cx option" where
  "add_reactions ho p [] cx = Some cx"
| "add_reactions ho p (r # rs) cx = do { cx \<leftarrow> add_reaction ho p r cx; add_reactions ho p rs cx }"

lemma add_reaction_pending:
  "promises cx p = Some (Pending rs fl) \<Longrightarrow> add_reaction ho p r cx = Some (set_promise p (Pending (r # rs) fl) cx)"
  by (cases r) (simp_all add: add_reaction_def add_await_reaction_def add_then_reaction_def set_reactions_def)

lemma add_reactions_pending:
  "promises cx p = Some (Pending rs fl) \<Longrightarrow> add_reactions ho p new cx = Some (set_promise p (Pending (rev new @ rs) fl) cx)"
proof (induction new arbitrary: cx rs)
  case Nil
  then have "(promises cx)(p \<mapsto> Pending rs fl) = promises cx" by auto
  then show ?case by (simp add: set_promise_def)
next
  case (Cons r new)
  let ?cx = "set_promise p (Pending (r # rs) fl) cx"
  have "add_reactions ho p new ?cx = Some (set_promise p (Pending (rev new @ r # rs) fl) ?cx)"
    by (rule Cons.IH) (simp add: set_promise_def)
  then show ?case using add_reaction_pending [OF Cons.prems] by (simp add: set_promise_def)
qed

lemma add_reactions_settled:
  assumes "promises cx p = Some (settled_state kind v)"
  shows "add_reactions ho p new cx = Some (cx\<lparr>tasks := tasks cx @ map (reaction_task ho (current_realm cx) kind v) new\<rparr>)"
  using assms
proof (induction new arbitrary: cx)
  case (Cons r new)
  have "add_reaction ho p r cx = Some (enqueue (reaction_task ho (current_realm cx) kind v r) cx)"
    using Cons.prems by (cases r; cases kind) (simp_all add: add_reaction_def add_await_reaction_def add_then_reaction_def
        settled_state_def reaction_task_def then_reaction_task enqueue_await_resume_task_def)
  then show ?case using Cons by (simp add: enqueue_def)
qed simp

text \<open>
  C22: every reaction registered on a promise is queued exactly once, in the order of registration:
  those registered before it is settled when it is settled, those registered afterwards at once; each
  task carries the promise's value and the handler for the way it was settled.
\<close>

theorem reactions_queued_in_order:
  assumes "promises cx p = Some (Pending [] False)"
  shows "\<exists>cx1 cx2 cx3. add_reactions ho p before cx = Some cx1 \<and> settle_promise ho kind p v cx1 = Some cx2 \<and>
     add_reactions ho p after cx2 = Some cx3 \<and> tasks cx1 = tasks cx \<and>
     promises cx3 = (promises cx)(p \<mapsto> (case kind of Fulfill \<Rightarrow> Fulfilled v | Reject \<Rightarrow> Rejected v)) \<and>
     tasks cx3 = tasks cx @ map (reaction_task ho (current_realm cx) kind v) (before @ after)"
proof -
  let ?cx1 = "set_promise p (Pending (rev before) False) cx"
  have 1: "add_reactions ho p before cx = Some ?cx1" using add_reactions_pending [OF assms] by simp
  have p: "promises ?cx1 p = Some (Pending (rev before) False)" by (simp add: set_promise_def)
  note 2 = settle_pending [OF p, of ho kind v]
  let ?cx2 = "?cx1\<lparr>promises := (promises ?cx1)(p \<mapsto> settled_state kind v),
             tasks := tasks ?cx1 @ map (reaction_task ho (current_realm ?cx1) kind v) (rev (rev before))\<rparr>"
  have 3: "add_reactions ho p after ?cx2 = Some (?cx2\<lparr>tasks := tasks ?cx2 @ map (reaction_task ho (current_realm ?cx2) kind v) after\<rparr>)"
    by (rule add_reactions_settled) simp
  show ?thesis
    by (intro exI conjI, rule 1, rule 2, rule 3) (simp_all add: set_promise_def settled_state_def)
qed

definition one_pending :: promise_cx where
  "one_pending =
     \<lparr>promises = [1 \<mapsto> Pending [] False], tasks = [], settle_functions = [2 \<mapsto> (Fulfill, 1), 3 \<mapsto> (Reject, 1)],
      current_realm = 0, initial_realm = 0\<rparr>"

theorem reactions_queued_in_order_witness:
  "\<exists>cx1 cx2 cx3. add_reactions quiet_host 1 [AwaitReaction 5, AwaitReaction 6] one_pending = Some cx1 \<and>
     settle_promise quiet_host Reject 1 (NonObject 3) cx1 = Some cx2 \<and>
     add_reactions quiet_host 1 [AwaitReaction 7] cx2 = Some cx3 \<and>
     tasks cx3 = [AwaitResume Reject 5 (NonObject 3), AwaitResume Reject 6 (NonObject 3), AwaitResume Reject 7 (NonObject 3)]"
proof -
  have p: "promises one_pending 1 = Some (Pending [] False)" and t: "tasks one_pending = []" by (simp_all add: one_pending_def)
  have "map (reaction_task quiet_host (current_realm one_pending) Reject (NonObject 3)) ([AwaitReaction 5, AwaitReaction 6] @ [AwaitReaction 7]) =
      [AwaitResume Reject 5 (NonObject 3), AwaitResume Reject 6 (NonObject 3), AwaitResume Reject 7 (NonObject 3)]"
    by (simp add: reaction_task_def)
  then show ?thesis
    using reactions_queued_in_order [OF p, of quiet_host "[AwaitReaction 5, AwaitReaction 6]" Reject "NonObject 3" "[AwaitReaction 7]"]
    unfolding t append_Nil by metis
qed

subsection \<open>Settle functions that come back to life\<close>

text \<open>
  A promise is resolved with a thenable, which uses up its two settle functions. Running the queued
  task clears the mark of the promise for the two new functions, and with it for the old ones.
\<close>

definition resolved_twice :: "promise_cx \<Rightarrow> (promise_value option \<times> promise_value option) option" where
  "resolved_twice cx =
     do { (cx, _) \<leftarrow> call_object quiet_host 2 (NonObject 0) [ObjectRef 20] cx;
          (cx, _) \<leftarrow> call_object quiet_host 2 (NonObject 0) [NonObject 5] cx;
          let first = fulfilled_value 1 cx in
          do { (cx, _, _) \<leftarrow> run_all_tasks quiet_host (\<lambda>_. (40, 41)) 1 cx;
               (cx, _) \<leftarrow> call_object quiet_host 2 (NonObject 0) [NonObject 5] cx;
               Some (first, fulfilled_value 1 cx) } }"

end
