(* ===== verification/Nested_Calls.thy ===== *)
theory Nested_Calls
  imports Prelude
begin

section \<open>Nested calls\<close>

text \<open>
  What the code that makes calls relies on in the call stack of a machine: a call adds one frame, which
  remembers where the caller goes on, or fails; a return takes the frame off again and goes on there. An activity is a call with
  the calls that its callee makes. Whatever nest of calls is made, the machine comes back to the frames and the
  place where it started, or a call fails.
\<close>

datatype 'c activity = Activity 'c "'c activity list"

fun run_activities ::
  "('c \<Rightarrow> 's \<Rightarrow> ('s \<times> ('e + unit)) option) \<Rightarrow> ('s \<Rightarrow> 's option) \<Rightarrow> 'c activity list \<Rightarrow> 's \<Rightarrow> ('s \<times> ('e + unit)) option" where
  "run_activities call leave [] s = Some (s, Inr ())"
| "run_activities call leave (Activity c inner # later) s =
     (case call c s of
        None \<Rightarrow> None
      | Some (s, Inl e) \<Rightarrow> Some (s, Inl e)
      | Some (s, Inr _) \<Rightarrow>
          (case run_activities call leave inner s of
             None \<Rightarrow> None
           | Some (s, Inl e) \<Rightarrow> Some (s, Inl e)
           | Some (s, Inr _) \<Rightarrow> Option.bind (leave s) (run_activities call leave later)))"

fun activities_ok :: "('c \<Rightarrow> bool) \<Rightarrow> 'c activity list \<Rightarrow> bool" where
  "activities_ok ok [] = True"
| "activities_ok ok (Activity c inner # later) = (ok c \<and> activities_ok ok inner \<and> activities_ok ok later)"

locale frame_stack =
  fixes holds :: "'s \<Rightarrow> 'f list \<Rightarrow> bool"
    and call :: "'c \<Rightarrow> 's \<Rightarrow> ('s \<times> ('e + unit)) option"
    and leave :: "'s \<Rightarrow> 's option"
    and ok :: "'c \<Rightarrow> bool"
    and place :: "'s \<Rightarrow> 'p"
    and back_to :: "'f \<Rightarrow> 'p"
  assumes call_adds: "holds s fs \<Longrightarrow> ok c \<Longrightarrow>
      (\<exists>s' f. call c s = Some (s', Inr ()) \<and> holds s' (f # fs) \<and> back_to f = place s) \<or> (\<exists>e. call c s = Some (s, Inl e))"
    and leave_removes: "holds s (f # fs) \<Longrightarrow> \<exists>s'. leave s = Some s' \<and> holds s' fs \<and> place s' = back_to f"
begin

lemma activities_come_back:
  "holds s fs \<Longrightarrow> activities_ok ok as \<Longrightarrow>
   \<exists>s' r. run_activities call leave as s = Some (s', r) \<and> (r = Inr () \<longrightarrow> holds s' fs \<and> place s' = place s)"
proof (induction "\<lambda>c. ok c" as arbitrary: s fs rule: activities_ok.induct)
  case (2 c inner later)
  have "ok c" "activities_ok ok inner" "activities_ok ok later" using "2.prems"(2) by simp_all
  from call_adds [OF "2.prems"(1) this(1)] show ?case
  proof (elim disjE exE conjE)
    fix s1 f
    assume call: "call c s = Some (s1, Inr ())" "holds s1 (f # fs)" "back_to f = place s"
    obtain s2 r where inner: "run_activities call leave inner s1 = Some (s2, r)" "r = Inr () \<longrightarrow> holds s2 (f # fs)"
      using "2.hyps"(1) [OF call(2)] \<open>activities_ok ok inner\<close> by blast
    show ?thesis
    proof (cases r)
      case (Inr u)
      then obtain s3 where leave: "leave s2 = Some s3" "holds s3 fs" "place s3 = place s"
        using inner(2) leave_removes call(3) by fastforce
      then show ?thesis using "2.hyps"(2) [OF leave(2)] \<open>activities_ok ok later\<close> call(1) inner(1) Inr by auto
    qed (use call(1) inner(1) in simp)
  qed simp
qed simp

end

end
