(* ===== verification/Call_Stack.thy ===== *)
theory Call_Stack
  imports Value Bytecode_Operand Nested_Calls
begin

section \<open>The call stack of the virtual machine\<close>

text \<open>
  The stack of the bytecode interpreter: the layout of a frame (\<open>bytecode/stack_frame.rs\<close>) and
  the operations of the virtual machine that push, pop, unwind and resume frames
  (\<open>bytecode/vm.rs\<close>). The stack is an array of 64-bit slots at the address \<open>vm_base\<close> that
  grows towards lower addresses. The stack, frame and instruction pointers are addresses; the null frame
  pointer is 0. What a closure and its function say about a call (the number of parameters and registers,
  the scope, the constant table, the code) is read from the heap through the parameter
  \<open>info\<close>. An access outside the array is \<open>None\<close>.
\<close>

record function_info =
  num_parameters :: u32
  num_registers :: u32
  scope_ptr :: u64
  constant_table_ptr :: u64
  bytecode_ptr :: u64
  function_ptr :: u64

record vm =
  vm_pc :: u64
  vm_sp :: u64
  vm_fp :: u64
  vm_stack :: "u64 list"
  vm_base :: u64
  num_stack_frames :: nat

text \<open>The limit of release builds; debug builds allow 80 frames.\<close>

definition MAX_STACK_DEPTH :: nat where "MAX_STACK_DEPTH = 4096"
definition STACK_SIZE :: nat where "STACK_SIZE = 4 * 1024 * 1024"
definition NUM_STACK_SLOTS :: nat where "NUM_STACK_SLOTS = STACK_SIZE div 8"

definition RETURN_ADDRESS_SLOT_INDEX :: nat where "RETURN_ADDRESS_SLOT_INDEX = 1"
definition RETURN_VALUE_ADDRESS_INDEX :: nat where "RETURN_VALUE_ADDRESS_INDEX = 2"
definition CONSTANT_TABLE_SLOT_INDEX :: nat where "CONSTANT_TABLE_SLOT_INDEX = 4"
definition ARGC_SLOT_INDEX :: nat where "ARGC_SLOT_INDEX = 6"

lemmas slot_index_defs = slot_indices RETURN_ADDRESS_SLOT_INDEX_def RETURN_VALUE_ADDRESS_INDEX_def
  CONSTANT_TABLE_SLOT_INDEX_def ARGC_SLOT_INDEX_def

subsection \<open>Memory\<close>

text \<open>\<open>ptr.add(n)\<close> and \<open>ptr.sub(n)\<close> on pointers to slots.\<close>

definition ptr_add :: "u64 \<Rightarrow> nat \<Rightarrow> u64" where
  "ptr_add p n = p + 8 * of_nat n"

definition ptr_sub :: "u64 \<Rightarrow> nat \<Rightarrow> u64" where
  "ptr_sub p n = p - 8 * of_nat n"

definition slot_number :: "vm \<Rightarrow> u64 \<Rightarrow> nat option" where
  "slot_number vm p =
     (let d = unat (p - vm_base vm) in
      if d mod 8 = 0 \<and> d div 8 < length (vm_stack vm) then Some (d div 8) else None)"

definition read_slot :: "vm \<Rightarrow> u64 \<Rightarrow> u64 option" where
  "read_slot vm p = map_option (\<lambda>i. vm_stack vm ! i) (slot_number vm p)"

definition write_slot :: "u64 \<Rightarrow> u64 \<Rightarrow> vm \<Rightarrow> vm option" where
  "write_slot p v vm =
     (case slot_number vm p of None \<Rightarrow> None | Some i \<Rightarrow> Some (vm\<lparr>vm_stack := (vm_stack vm)[i := v]\<rparr>))"

definition stack_ptr_start :: "vm \<Rightarrow> u64" where
  "stack_ptr_start vm = vm_base vm"

definition stack_ptr_end :: "vm \<Rightarrow> u64" where
  "stack_ptr_end vm = ptr_add (vm_base vm) (length (vm_stack vm))"

definition reset_stack :: "vm \<Rightarrow> vm" where
  "reset_stack vm = vm\<lparr>vm_sp := stack_ptr_end vm, vm_fp := 0, num_stack_frames := 0\<rparr>"

definition is_executing :: "vm \<Rightarrow> bool" where
  "is_executing vm \<longleftrightarrow> vm_fp vm \<noteq> 0"

definition push :: "u64 \<Rightarrow> vm \<Rightarrow> vm option" where
  "push v vm = (let sp = ptr_sub (vm_sp vm) 1 in write_slot sp v (vm\<lparr>vm_sp := sp\<rparr>))"

definition push_fp :: "vm \<Rightarrow> vm option" where
  "push_fp vm = do { vm \<leftarrow> push (vm_fp vm) vm; Some (vm\<lparr>vm_fp := vm_sp vm\<rparr>) }"

subsection \<open>Frames\<close>

definition frame_slot :: "vm \<Rightarrow> u64 \<Rightarrow> nat \<Rightarrow> u64 option" where
  "frame_slot vm fp k = read_slot vm (ptr_add fp k)"

definition previous_frame :: "vm \<Rightarrow> u64 \<Rightarrow> u64 option option" where
  "previous_frame vm fp = do { p \<leftarrow> read_slot vm fp; Some (if p = 0 then None else Some p) }"

definition IS_RUST_CALLER_TAG :: u64 where "IS_RUST_CALLER_TAG = push_bit 63 1"

definition encode_return_address_slot :: "u64 \<Rightarrow> bool \<Rightarrow> u64" where
  "encode_return_address_slot return_address is_rust_caller =
     (if is_rust_caller then return_address OR IS_RUST_CALLER_TAG else return_address)"

definition is_rust_caller :: "vm \<Rightarrow> u64 \<Rightarrow> bool option" where
  "is_rust_caller vm fp =
     do { e \<leftarrow> frame_slot vm fp RETURN_ADDRESS_SLOT_INDEX; Some (e AND IS_RUST_CALLER_TAG \<noteq> 0) }"

definition return_address :: "vm \<Rightarrow> u64 \<Rightarrow> u64 option" where
  "return_address vm fp =
     do { e \<leftarrow> frame_slot vm fp RETURN_ADDRESS_SLOT_INDEX; Some (e AND NOT IS_RUST_CALLER_TAG) }"

definition set_return_address :: "u64 \<Rightarrow> u64 \<Rightarrow> vm \<Rightarrow> vm option" where
  "set_return_address fp addr vm =
     do { r \<leftarrow> is_rust_caller vm fp;
          write_slot (ptr_add fp RETURN_ADDRESS_SLOT_INDEX) (encode_return_address_slot addr r) vm }"

definition return_value_address :: "vm \<Rightarrow> u64 \<Rightarrow> u64 option" where
  "return_value_address vm fp = frame_slot vm fp RETURN_VALUE_ADDRESS_INDEX"

definition frame_scope :: "vm \<Rightarrow> u64 \<Rightarrow> u64 option" where
  "frame_scope vm fp = frame_slot vm fp SCOPE_SLOT_INDEX"

definition frame_constant_table :: "vm \<Rightarrow> u64 \<Rightarrow> u64 option" where
  "frame_constant_table vm fp = frame_slot vm fp CONSTANT_TABLE_SLOT_INDEX"

definition frame_closure :: "vm \<Rightarrow> u64 \<Rightarrow> u64 option" where
  "frame_closure vm fp = frame_slot vm fp CLOSURE_SLOT_INDEX"

definition frame_argc :: "vm \<Rightarrow> u64 \<Rightarrow> nat option" where
  "frame_argc vm fp = map_option unat (frame_slot vm fp ARGC_SLOT_INDEX)"

definition frame_receiver :: "vm \<Rightarrow> u64 \<Rightarrow> u64 option" where
  "frame_receiver vm fp = frame_slot vm fp RECEIVER_SLOT_INDEX"

text \<open>A slice of consecutive slots.\<close>

fun read_slots :: "vm \<Rightarrow> u64 \<Rightarrow> nat \<Rightarrow> u64 list option" where
  "read_slots vm p 0 = Some []"
| "read_slots vm p (Suc n) = do { v \<leftarrow> read_slot vm p; vs \<leftarrow> read_slots vm (ptr_add p 1) n; Some (v # vs) }"

definition frame_args :: "vm \<Rightarrow> u64 \<Rightarrow> u64 list option" where
  "frame_args vm fp =
     do { argc \<leftarrow> frame_argc vm fp; read_slots vm (ptr_add fp FIRST_ARGUMENT_SLOT_INDEX) argc }"

definition frame_sp :: "(u64 \<Rightarrow> function_info) \<Rightarrow> vm \<Rightarrow> u64 \<Rightarrow> u64 option" where
  "frame_sp info vm fp = do { c \<leftarrow> frame_closure vm fp; Some (ptr_sub fp (unat (num_registers (info c)))) }"

definition frame_as_slice :: "(u64 \<Rightarrow> function_info) \<Rightarrow> vm \<Rightarrow> u64 \<Rightarrow> u64 list option" where
  "frame_as_slice info vm fp =
     do { c \<leftarrow> frame_closure vm fp;
          argc \<leftarrow> frame_argc vm fp;
          let registers = unat (num_registers (info c));
              num_args = max (unat (num_parameters (info c))) argc
          in read_slots vm (ptr_sub fp registers) (registers + FIRST_ARGUMENT_SLOT_INDEX + num_args) }"

text \<open>A register is the slot at its signed offset from the frame pointer.\<close>

definition fp_offset :: "vm \<Rightarrow> u64 \<Rightarrow> u64" where
  "fp_offset vm slot_index = vm_fp vm + 8 * slot_index"

definition register_address :: "vm \<Rightarrow> gen_register \<Rightarrow> u64" where
  "register_address vm r = fp_offset vm (scast r)"

definition read_register :: "vm \<Rightarrow> gen_register \<Rightarrow> u64 option" where
  "read_register vm r = read_slot vm (register_address vm r)"

definition write_register :: "gen_register \<Rightarrow> u64 \<Rightarrow> vm \<Rightarrow> vm option" where
  "write_register r v vm = write_slot (register_address vm r) v vm"

subsection \<open>Calls\<close>

datatype call_error = StackOverflow

definition stack_depth_check :: "nat \<Rightarrow> vm \<Rightarrow> vm \<times> (call_error + unit)" where
  "stack_depth_check new_frame_num_slots vm =
     (if ptr_sub (vm_sp vm) new_frame_num_slots < stack_ptr_start vm then (vm, Inl StackOverflow)
      else if num_stack_frames vm \<ge> MAX_STACK_DEPTH then (vm, Inl StackOverflow)
      else (vm\<lparr>num_stack_frames := num_stack_frames vm + 1\<rparr>, Inr ()))"

fun push_words :: "u64 list \<Rightarrow> vm \<Rightarrow> vm option" where
  "push_words [] vm = Some vm"
| "push_words (v # vs) vm = do { vm \<leftarrow> push v vm; push_words vs vm }"

definition push_call_arguments :: "u64 list \<Rightarrow> nat \<Rightarrow> nat \<Rightarrow> vm \<Rightarrow> vm option" where
  "push_call_arguments args_rev argc parameters vm =
     do { vm \<leftarrow> (if argc < parameters then push_words (replicate (parameters - argc) value_undefined) vm else Some vm);
          push_words args_rev vm }"

fun fill_slots :: "u64 \<Rightarrow> nat \<Rightarrow> u64 \<Rightarrow> vm \<Rightarrow> vm option" where
  "fill_slots p 0 v vm = Some vm"
| "fill_slots p (Suc n) v vm = do { vm \<leftarrow> write_slot p v vm; fill_slots (ptr_add p 1) n v vm }"

definition allocate_local_registers :: "u32 \<Rightarrow> vm \<Rightarrow> vm option" where
  "allocate_local_registers registers vm =
     (let vm = vm\<lparr>vm_sp := ptr_sub (vm_sp vm) (unat registers)\<rparr>
      in fill_slots (vm_sp vm) (unat registers) value_undefined vm)"

definition push_stack_frame ::
  "(u64 \<Rightarrow> function_info) \<Rightarrow> u64 \<Rightarrow> u64 \<Rightarrow> u64 list \<Rightarrow> nat \<Rightarrow> bool \<Rightarrow> u64 \<Rightarrow> vm \<Rightarrow> (vm \<times> (call_error + unit)) option" where
  "push_stack_frame info closure receiver args_rev argc return_to_rust_runtime ret_value_address vm =
     (let f = info closure;
          parameters = unat (num_parameters f);
          num_argument_slots = max argc parameters;
          num_frame_slots = num_argument_slots + FIRST_ARGUMENT_SLOT_INDEX + unat (num_registers f)
      in case stack_depth_check num_frame_slots vm of
           (vm, Inl e) \<Rightarrow> Some (vm, Inl e)
         | (vm, Inr _) \<Rightarrow>
             do { vm \<leftarrow> push_call_arguments args_rev argc parameters vm;
                  vm \<leftarrow> push receiver vm;
                  vm \<leftarrow> push (of_nat argc) vm;
                  vm \<leftarrow> push closure vm;
                  vm \<leftarrow> push (constant_table_ptr f) vm;
                  vm \<leftarrow> push (scope_ptr f) vm;
                  vm \<leftarrow> push ret_value_address vm;
                  vm \<leftarrow> push (encode_return_address_slot (vm_pc vm) return_to_rust_runtime) vm;
                  vm \<leftarrow> push_fp vm;
                  vm \<leftarrow> allocate_local_registers (num_registers f) vm;
                  Some (vm\<lparr>vm_pc := bytecode_ptr f\<rparr>, Inr ()) })"

definition pop_stack_frame :: "(u64 \<Rightarrow> function_info) \<Rightarrow> vm \<Rightarrow> vm option" where
  "pop_stack_frame info vm =
     do { c \<leftarrow> frame_closure vm (vm_fp vm);
          argc \<leftarrow> frame_argc vm (vm_fp vm);
          let num_arguments = max argc (unat (num_parameters (info c))) in
          do { pc \<leftarrow> return_address vm (vm_fp vm);
               fp \<leftarrow> read_slot vm (vm_fp vm);
               if num_stack_frames vm = 0 then None
               else Some (vm\<lparr>vm_pc := pc, vm_sp := ptr_add (vm_fp vm) (FIRST_ARGUMENT_SLOT_INDEX + num_arguments),
                             vm_fp := fp, num_stack_frames := num_stack_frames vm - 1\<rparr>) } }"

definition push_initial_realm_stack_frame :: "(u64 \<Rightarrow> function_info) \<Rightarrow> u64 \<Rightarrow> vm \<Rightarrow> (vm \<times> (call_error + unit)) option" where
  "push_initial_realm_stack_frame info empty_function =
     push_stack_frame info empty_function value_undefined [] 0 True 0"

subsection \<open>Addresses and slots\<close>

text \<open>The stack lies in the address space, at an address that is not null, and is aligned with it.\<close>

definition stack_in_memory :: "vm \<Rightarrow> bool" where
  "stack_in_memory vm \<longleftrightarrow> 0 < unat (vm_base vm) \<and> unat (vm_base vm) + 8 * length (vm_stack vm) < 2 ^ 64"

definition slot_at :: "vm \<Rightarrow> nat \<Rightarrow> u64" where
  "slot_at vm i = ptr_add (vm_base vm) i"

lemma slot_at_cong: "vm_base vm' = vm_base vm \<Longrightarrow> slot_at vm' i = slot_at vm i"
  by (simp add: slot_at_def)

lemma ptr_arith: "ptr_add (slot_at vm i) n = slot_at vm (i + n)" "n \<le> i \<Longrightarrow> ptr_sub (slot_at vm i) n = slot_at vm (i - n)"
  by (simp_all add: ptr_add_def ptr_sub_def slot_at_def of_nat_diff algebra_simps)

lemma unat_slot_at: "stack_in_memory vm \<Longrightarrow> i \<le> length (vm_stack vm) \<Longrightarrow> unat (slot_at vm i) = unat (vm_base vm) + 8 * i"
  by (simp add: slot_at_def ptr_add_def stack_in_memory_def unat_word_ariths unsigned_of_nat take_bit_nat_eq_self)

lemma slot_number_at:
  assumes "stack_in_memory vm" "i < length (vm_stack vm)"
  shows "slot_number vm (slot_at vm i) = Some i"
proof -
  have "slot_at vm i - vm_base vm = 8 * of_nat i" by (simp add: slot_at_def ptr_add_def)
  moreover have "unat (8 * of_nat i :: u64) = 8 * i"
    using assms by (simp add: stack_in_memory_def unat_word_ariths unsigned_of_nat take_bit_nat_eq_self)
  ultimately have "unat (slot_at vm i - vm_base vm) = 8 * i" by (simp only:)
  then show ?thesis using assms(2) by (simp add: slot_number_def Let_def)
qed

lemma slot_at_not_null: "stack_in_memory vm \<Longrightarrow> i \<le> length (vm_stack vm) \<Longrightarrow> slot_at vm i \<noteq> 0"
  by (metis unat_slot_at stack_in_memory_def add_is_0 unsigned_0 less_irrefl)

lemma slot_at_inj: "stack_in_memory vm \<Longrightarrow> i \<le> length (vm_stack vm) \<Longrightarrow> j \<le> length (vm_stack vm) \<Longrightarrow> slot_at vm i = slot_at vm j \<Longrightarrow> i = j"
  by (metis unat_slot_at add_left_cancel mult_cancel1 zero_neq_numeral)

lemma read_slot_at: "stack_in_memory vm \<Longrightarrow> i < length (vm_stack vm) \<Longrightarrow> read_slot vm (slot_at vm i) = Some (vm_stack vm ! i)"
  by (simp add: read_slot_def slot_number_at)

lemma write_slot_at:
  "stack_in_memory vm \<Longrightarrow> i < length (vm_stack vm) \<Longrightarrow> write_slot (slot_at vm i) v vm = Some (vm\<lparr>vm_stack := (vm_stack vm)[i := v]\<rparr>)"
  by (simp add: write_slot_def slot_number_at)

lemma frame_slot_at:
  "stack_in_memory vm \<Longrightarrow> i + k < length (vm_stack vm) \<Longrightarrow> frame_slot vm (slot_at vm i) k = Some (vm_stack vm ! (i + k))"
  by (simp add: frame_slot_def ptr_arith read_slot_at)

text \<open>Pushing writes a block below the stack pointer.\<close>

lemma push_at:
  assumes "stack_in_memory vm" "vm_sp vm = slot_at vm (Suc k)" "k < length (vm_stack vm)"
  shows "push v vm = Some (vm\<lparr>vm_sp := slot_at vm k, vm_stack := (vm_stack vm)[k := v]\<rparr>)"
proof -
  let ?vm = "vm\<lparr>vm_sp := slot_at vm k\<rparr>"
  have "stack_in_memory ?vm" "slot_at ?vm k = slot_at vm k" using assms(1) by (simp_all add: stack_in_memory_def slot_at_def)
  then have "write_slot (slot_at vm k) v ?vm = Some (?vm\<lparr>vm_stack := (vm_stack vm)[k := v]\<rparr>)"
    using write_slot_at [of ?vm k v] assms(3) by simp
  then show ?thesis using assms(2) by (simp add: push_def ptr_arith)
qed

lemma push_words_at:
  "stack_in_memory vm \<Longrightarrow> vm_sp vm = slot_at vm k \<Longrightarrow> k \<le> length (vm_stack vm) \<Longrightarrow> length vs \<le> k \<Longrightarrow>
   push_words vs vm = Some (vm\<lparr>vm_sp := slot_at vm (k - length vs),
     vm_stack := take (k - length vs) (vm_stack vm) @ rev vs @ drop k (vm_stack vm)\<rparr>)"
proof (induction vs arbitrary: vm k)
  case (Cons v vs)
  then obtain j where k: "k = Suc j" by (cases k) auto
  let ?vm = "vm\<lparr>vm_sp := slot_at vm j, vm_stack := (vm_stack vm)[j := v]\<rparr>"
  have p: "push v vm = Some ?vm" using Cons.prems k by (intro push_at) simp_all
  have "stack_in_memory ?vm" "vm_sp ?vm = slot_at ?vm j" using Cons.prems(1) by (simp_all add: stack_in_memory_def slot_at_def)
  then have "push_words vs ?vm = Some (?vm\<lparr>vm_sp := slot_at ?vm (j - length vs),
      vm_stack := take (j - length vs) (vm_stack ?vm) @ rev vs @ drop j (vm_stack ?vm)\<rparr>)"
    using Cons.prems k by (intro Cons.IH) simp_all
  moreover have "drop j ((vm_stack vm)[j := v]) = v # drop (Suc j) (vm_stack vm)"
    using Cons.prems k by (simp add: drop_update_swap Cons_nth_drop_Suc [symmetric])
  ultimately show ?case using p k by (simp add: slot_at_def)
qed simp

lemma fill_slots_at:
  "stack_in_memory vm \<Longrightarrow> k + n \<le> length (vm_stack vm) \<Longrightarrow>
   fill_slots (slot_at vm k) n v vm = Some (vm\<lparr>vm_stack := take k (vm_stack vm) @ replicate n v @ drop (k + n) (vm_stack vm)\<rparr>)"
proof (induction n arbitrary: vm k)
  case (Suc n)
  let ?vm = "vm\<lparr>vm_stack := (vm_stack vm)[k := v]\<rparr>"
  have "stack_in_memory ?vm" "slot_at ?vm (Suc k) = slot_at vm (Suc k)" using Suc.prems(1) by (simp_all add: stack_in_memory_def slot_at_def)
  then have "fill_slots (slot_at vm (Suc k)) n v ?vm =
      Some (?vm\<lparr>vm_stack := take (Suc k) (vm_stack ?vm) @ replicate n v @ drop (Suc k + n) (vm_stack ?vm)\<rparr>)"
    using Suc.IH [of ?vm "Suc k"] Suc.prems by simp
  moreover have "take (Suc k) ((vm_stack vm)[k := v]) = take k (vm_stack vm) @ [v]"
    using Suc.prems(2) by (simp add: take_Suc_conv_app_nth)
  ultimately show ?case using Suc.prems by (simp add: ptr_arith write_slot_at)
qed simp

subsection \<open>Frames as records\<close>

text \<open>
  The specification: a stack is a list of frames, the current one first. Registers are in their order,
  arguments include those added for missing parameters.
\<close>

record frame =
  fr_closure :: u64
  fr_receiver :: u64
  fr_argc :: nat
  fr_args :: "u64 list"
  fr_scope :: u64
  fr_constants :: u64
  fr_return_value_address :: u64
  fr_return_address :: u64
  fr_rust_caller :: bool
  fr_registers :: "u64 list"

definition frame_above :: "frame \<Rightarrow> u64 \<Rightarrow> u64 list" where
  "frame_above f prev =
     [prev, encode_return_address_slot (fr_return_address f) (fr_rust_caller f), fr_return_value_address f, fr_scope f,
      fr_constants f, fr_closure f, of_nat (fr_argc f), fr_receiver f] @ fr_args f"

definition frame_words :: "frame \<Rightarrow> u64 \<Rightarrow> u64 list" where
  "frame_words f prev = rev (fr_registers f) @ frame_above f prev"

definition frame_shape :: "(u64 \<Rightarrow> function_info) \<Rightarrow> frame \<Rightarrow> bool" where
  "frame_shape info f \<longleftrightarrow>
     length (fr_registers f) = unat (num_registers (info (fr_closure f))) \<and>
     length (fr_args f) = max (fr_argc f) (unat (num_parameters (info (fr_closure f)))) \<and>
     fr_argc f < 2 ^ 64 \<and> \<not> bit (fr_return_address f) 63"

definition frame_size :: "frame \<Rightarrow> nat" where
  "frame_size f = length (fr_registers f) + 8 + length (fr_args f)"

text \<open>
  The slots from number \<open>k\<close> to the end of the stack are the given frames one above the other, each
  with the frame pointer of its caller in its first slot.
\<close>

fun frames_on :: "(u64 \<Rightarrow> function_info) \<Rightarrow> (nat \<Rightarrow> u64) \<Rightarrow> nat \<Rightarrow> u64 list \<Rightarrow> u64 \<Rightarrow> frame list \<Rightarrow> bool" where
  "frames_on info addr k slots fp [] \<longleftrightarrow> fp = 0 \<and> slots = []"
| "frames_on info addr k slots fp (f # fs) \<longleftrightarrow>
     frame_shape info f \<and> fp = addr (k + length (fr_registers f)) \<and>
     (\<exists>prev rest. slots = frame_words f prev @ rest \<and> frames_on info addr (k + frame_size f) rest prev fs)"

definition stack_is :: "(u64 \<Rightarrow> function_info) \<Rightarrow> vm \<Rightarrow> frame list \<Rightarrow> bool" where
  "stack_is info vm fs \<longleftrightarrow>
     stack_in_memory vm \<and> num_stack_frames vm = length fs \<and>
     (\<exists>k \<le> length (vm_stack vm). vm_sp vm = slot_at vm k \<and>
        frames_on info (slot_at vm) k (drop k (vm_stack vm)) (vm_fp vm) fs)"

lemma frame_words_length [simp]: "length (frame_words f prev) = frame_size f"
  by (simp add: frame_words_def frame_above_def frame_size_def)

lemma frame_above_length: "length (frame_above f prev) = 8 + length (fr_args f)"
  by (simp add: frame_above_def)

lemma rust_tag_bit: "bit IS_RUST_CALLER_TAG n \<longleftrightarrow> n = 63"
proof -
  have "bit (push_bit 63 (1 :: u64)) n \<longleftrightarrow> 63 \<le> n \<and> n < 64 \<and> bit (1 :: u64) (n - 63)"
    unfolding bit_push_bit_iff by (auto dest: bit_imp_le_length)
  then show ?thesis unfolding IS_RUST_CALLER_TAG_def bit_1_iff by auto
qed

lemma return_address_decode:
  assumes "\<not> bit a 63"
  shows "encode_return_address_slot a r AND NOT IS_RUST_CALLER_TAG = a"
    "(encode_return_address_slot a r AND IS_RUST_CALLER_TAG \<noteq> 0) = r"
proof -
  show "encode_return_address_slot a r AND NOT IS_RUST_CALLER_TAG = a"
    using assms by (intro bit_word_eqI) (auto simp: encode_return_address_slot_def bit_simps rust_tag_bit)
  have "encode_return_address_slot a r AND IS_RUST_CALLER_TAG = (if r then IS_RUST_CALLER_TAG else 0)"
    using assms by (intro bit_word_eqI) (auto simp: encode_return_address_slot_def bit_simps rust_tag_bit)
  moreover have "IS_RUST_CALLER_TAG \<noteq> 0" using rust_tag_bit [of 63] by auto
  ultimately show "(encode_return_address_slot a r AND IS_RUST_CALLER_TAG \<noteq> 0) = r" by simp
qed

text \<open>What the accessors read in a frame that lies on the stack.\<close>

lemma frame_slots_read:
  assumes ok: "stack_in_memory vm" and d: "drop k (vm_stack vm) = frame_words f prev @ rest"
    and k: "k \<le> length (vm_stack vm)" and fp: "fp = slot_at vm (k + length (fr_registers f))" and j: "j < 8 + length (fr_args f)"
  shows "frame_slot vm fp j = Some (frame_above f prev ! j)"
proof -
  let ?i = "k + length (fr_registers f)"
  have len: "length (vm_stack vm) = k + frame_size f + length rest"
    using arg_cong [OF d, of length] k by simp
  then have "?i + j < length (vm_stack vm)" using j by (simp add: frame_size_def)
  then have "frame_slot vm fp j = Some (vm_stack vm ! (?i + j))" using frame_slot_at [OF ok] fp by simp
  also have "vm_stack vm ! (?i + j) = drop k (vm_stack vm) ! (length (fr_registers f) + j)"
    using k by (simp add: add.assoc)
  also have "\<dots> = (rev (fr_registers f) @ frame_above f prev @ rest) ! (length (rev (fr_registers f)) + j)"
    unfolding d frame_words_def by simp
  also have "\<dots> = frame_above f prev ! j"
    using j by (simp only: nth_append_length_plus) (simp add: nth_append frame_above_length)
  finally show ?thesis .
qed

lemma frame_reads:
  assumes "stack_in_memory vm" "drop k (vm_stack vm) = frame_words f prev @ rest" "k \<le> length (vm_stack vm)"
    "fp = slot_at vm (k + length (fr_registers f))" "frame_shape info f"
  shows "read_slot vm fp = Some prev" "return_address vm fp = Some (fr_return_address f)"
    "is_rust_caller vm fp = Some (fr_rust_caller f)" "return_value_address vm fp = Some (fr_return_value_address f)"
    "frame_scope vm fp = Some (fr_scope f)" "frame_constant_table vm fp = Some (fr_constants f)"
    "frame_closure vm fp = Some (fr_closure f)" "frame_argc vm fp = Some (fr_argc f)"
    "frame_receiver vm fp = Some (fr_receiver f)"
proof -
  note r = frame_slots_read [OF assms(1-4)]
  have argc: "unat (of_nat (fr_argc f) :: u64) = fr_argc f"
    using assms(5) by (simp add: frame_shape_def unsigned_of_nat take_bit_nat_eq_self)
  have nb: "\<not> bit (fr_return_address f) 63" using assms(5) by (simp add: frame_shape_def)
  show "read_slot vm fp = Some prev" using r [of 0] by (simp add: frame_above_def frame_slot_def ptr_add_def)
  show "return_address vm fp = Some (fr_return_address f)" "is_rust_caller vm fp = Some (fr_rust_caller f)"
    using r [of 1] return_address_decode [OF nb] by (simp_all add: frame_above_def return_address_def is_rust_caller_def slot_index_defs)
  show "return_value_address vm fp = Some (fr_return_value_address f)" using r [of 2] by (simp add: frame_above_def return_value_address_def slot_index_defs)
  show "frame_scope vm fp = Some (fr_scope f)" using r [of 3] by (simp add: frame_above_def frame_scope_def slot_index_defs)
  show "frame_constant_table vm fp = Some (fr_constants f)" using r [of 4] by (simp add: frame_above_def frame_constant_table_def slot_index_defs)
  show "frame_closure vm fp = Some (fr_closure f)" using r [of 5] by (simp add: frame_above_def frame_closure_def slot_index_defs)
  show "frame_argc vm fp = Some (fr_argc f)" using r [of 6] argc by (simp add: frame_above_def frame_argc_def slot_index_defs)
  show "frame_receiver vm fp = Some (fr_receiver f)" using r [of 7] by (simp add: frame_above_def frame_receiver_def slot_index_defs)
qed

subsection \<open>Calling\<close>

text \<open>The machine after \<open>ws\<close> has been pushed below slot \<open>k\<close>.\<close>

definition pushed :: "vm \<Rightarrow> nat \<Rightarrow> u64 list \<Rightarrow> vm" where
  "pushed vm k ws = vm\<lparr>vm_sp := slot_at vm (k - length ws),
     vm_stack := take (k - length ws) (vm_stack vm) @ rev ws @ drop k (vm_stack vm)\<rparr>"

lemma pushed_simps [simp]:
  "vm_pc (pushed vm k ws) = vm_pc vm" "vm_fp (pushed vm k ws) = vm_fp vm" "vm_base (pushed vm k ws) = vm_base vm"
  "num_stack_frames (pushed vm k ws) = num_stack_frames vm" "vm_sp (pushed vm k ws) = slot_at vm (k - length ws)"
  "k \<le> length (vm_stack vm) \<Longrightarrow> length ws \<le> k \<Longrightarrow> length (vm_stack (pushed vm k ws)) = length (vm_stack vm)"
  by (simp_all add: pushed_def)

lemma pushed_ok: "stack_in_memory vm \<Longrightarrow> k \<le> length (vm_stack vm) \<Longrightarrow> length ws \<le> k \<Longrightarrow> stack_in_memory (pushed vm k ws)"
  by (simp add: stack_in_memory_def)

lemma push_words_pushed:
  assumes "stack_in_memory vm" "k \<le> length (vm_stack vm)" "length ws + length vs \<le> k"
  shows "push_words vs (pushed vm k ws) = Some (pushed vm k (ws @ vs))"
proof -
  let ?vm = "pushed vm k ws" and ?k = "k - length ws"
  have "push_words vs ?vm = Some (?vm\<lparr>vm_sp := slot_at ?vm (?k - length vs),
      vm_stack := take (?k - length vs) (vm_stack ?vm) @ rev vs @ drop ?k (vm_stack ?vm)\<rparr>)"
    using assms by (intro push_words_at pushed_ok) (simp_all add: slot_at_def)
  moreover have "take (?k - length vs) (vm_stack ?vm) = take (k - length (ws @ vs)) (vm_stack vm)"
    "drop ?k (vm_stack ?vm) = rev ws @ drop k (vm_stack vm)" using assms by (simp_all add: pushed_def)
  ultimately show ?thesis by (simp add: pushed_def slot_at_def)
qed

lemma push_pushed:
  assumes "stack_in_memory vm" "k \<le> length (vm_stack vm)" "length ws < k"
  shows "push v (pushed vm k ws) = Some (pushed vm k (ws @ [v]))"
proof -
  have "push_words [v] (pushed vm k ws) = Some (pushed vm k (ws @ [v]))"
    using assms by (intro push_words_pushed) simp_all
  then show ?thesis by (cases "push v (pushed vm k ws)") simp_all
qed

lemma pushed_Nil: "vm_sp vm = slot_at vm k \<Longrightarrow> pushed vm k [] = vm"
  by (simp add: pushed_def)

definition new_frame :: "(u64 \<Rightarrow> function_info) \<Rightarrow> u64 \<Rightarrow> u64 \<Rightarrow> u64 list \<Rightarrow> bool \<Rightarrow> u64 \<Rightarrow> u64 \<Rightarrow> frame" where
  "new_frame info closure receiver args_rev rust ret pc =
     \<lparr>fr_closure = closure, fr_receiver = receiver, fr_argc = length args_rev,
      fr_args = rev args_rev @ replicate (unat (num_parameters (info closure)) - length args_rev) value_undefined,
      fr_scope = scope_ptr (info closure), fr_constants = constant_table_ptr (info closure),
      fr_return_value_address = ret, fr_return_address = pc, fr_rust_caller = rust,
      fr_registers = replicate (unat (num_registers (info closure))) value_undefined\<rparr>"

lemma new_frame_size:
  "frame_size (new_frame info c r args_rev rust ret pc) =
     max (length args_rev) (unat (num_parameters (info c))) + 8 + unat (num_registers (info c))"
  by (simp add: frame_size_def new_frame_def)

lemma push_call_arguments_pushed:
  assumes "stack_in_memory vm" "k \<le> length (vm_stack vm)" "max (length args_rev) parameters \<le> k"
  shows "push_call_arguments args_rev (length args_rev) parameters (pushed vm k []) =
     Some (pushed vm k (replicate (parameters - length args_rev) value_undefined @ args_rev))"
  using assms push_words_pushed [of vm k "[]" "replicate (parameters - length args_rev) value_undefined"]
  by (auto simp: push_call_arguments_def push_words_pushed)

lemma allocate_local_registers_at:
  assumes "stack_in_memory vm" "vm_sp vm = slot_at vm k" "unat n \<le> k" "k \<le> length (vm_stack vm)"
  shows "allocate_local_registers n vm = Some (vm\<lparr>vm_sp := slot_at vm (k - unat n),
     vm_stack := take (k - unat n) (vm_stack vm) @ replicate (unat n) value_undefined @ drop k (vm_stack vm)\<rparr>)"
proof -
  let ?vm = "vm\<lparr>vm_sp := slot_at vm (k - unat n)\<rparr>"
  have "stack_in_memory ?vm" "slot_at ?vm (k - unat n) = slot_at vm (k - unat n)" using assms(1) by (simp_all add: stack_in_memory_def slot_at_def)
  then show ?thesis
    using fill_slots_at [of ?vm "k - unat n" "unat n" value_undefined] assms
    by (simp add: allocate_local_registers_def Let_def ptr_arith)
qed

lemma new_frame_pushes:
  assumes ok: "stack_in_memory vm" and sp: "vm_sp vm = slot_at vm k" and k: "k \<le> length (vm_stack vm)"
    and f: "f = new_frame info c r args_rev rust ret (vm_pc vm)" and room: "frame_size f \<le> k"
  shows "do { vm \<leftarrow> push_call_arguments args_rev (length args_rev) (unat (num_parameters (info c))) vm;
       vm \<leftarrow> push r vm; vm \<leftarrow> push (of_nat (length args_rev)) vm; vm \<leftarrow> push c vm;
       vm \<leftarrow> push (constant_table_ptr (info c)) vm; vm \<leftarrow> push (scope_ptr (info c)) vm; vm \<leftarrow> push ret vm;
       vm \<leftarrow> push (encode_return_address_slot (vm_pc vm) rust) vm; push_fp vm } =
     Some ((pushed vm k (rev (frame_above f (vm_fp vm))))\<lparr>vm_fp := slot_at vm (k - length (frame_above f (vm_fp vm)))\<rparr>)"
proof -
  let ?p = "unat (num_parameters (info c))"
  have bound: "max (length args_rev) ?p \<le> k" and size: "length args_rev + (?p - length args_rev) + 8 \<le> k"
    using room unfolding f new_frame_size by linarith+
  have "push_call_arguments args_rev (length args_rev) ?p vm =
     Some (pushed vm k (replicate (?p - length args_rev) value_undefined @ args_rev))"
    using push_call_arguments_pushed [OF ok k bound] pushed_Nil [OF sp] by simp
  then show ?thesis
    using size by (simp add: add.commute push_pushed [OF ok k] push_fp_def f new_frame_def frame_above_def)
qed

text \<open>The machine once the frame \<open>f\<close> is on the stack.\<close>

definition entered :: "vm \<Rightarrow> nat \<Rightarrow> frame \<Rightarrow> u64 \<Rightarrow> vm" where
  "entered vm k f pc = vm\<lparr>vm_pc := pc, vm_sp := slot_at vm (k - frame_size f),
     vm_fp := slot_at vm (k - frame_size f + length (fr_registers f)),
     vm_stack := take (k - frame_size f) (vm_stack vm) @ frame_words f (vm_fp vm) @ drop k (vm_stack vm),
     num_stack_frames := num_stack_frames vm + 1\<rparr>"

lemma new_frame_registers:
  assumes ok: "stack_in_memory vm" and k: "k \<le> length (vm_stack vm)"
    and f: "f = new_frame info c r args_rev rust ret pc" and room: "frame_size f \<le> k"
  shows "allocate_local_registers (num_registers (info c))
       ((pushed vm k (rev (frame_above f prev)))\<lparr>vm_fp := slot_at vm (k - length (frame_above f prev))\<rparr>) =
     Some (vm\<lparr>vm_sp := slot_at vm (k - frame_size f), vm_fp := slot_at vm (k - frame_size f + length (fr_registers f)),
       vm_stack := take (k - frame_size f) (vm_stack vm) @ frame_words f prev @ drop k (vm_stack vm)\<rparr>)"
    (is "allocate_local_registers _ ?w = _")
proof -
  let ?n = "unat (num_registers (info c))" and ?m = "k - length (frame_above f prev)"
  have size: "frame_size f = ?n + length (frame_above f prev)" "length (fr_registers f) = ?n"
    by (simp_all add: f new_frame_def frame_size_def frame_above_def)
  have "stack_in_memory ?w" "vm_sp ?w = slot_at ?w ?m" "?n \<le> ?m" "?m \<le> length (vm_stack ?w)"
    using ok k room size by (simp_all add: stack_in_memory_def slot_at_def)
  note alloc = allocate_local_registers_at [OF this]
  have e: "take (?m - ?n) (vm_stack ?w) = take (k - frame_size f) (vm_stack vm)"
    "drop ?m (vm_stack ?w) = frame_above f prev @ drop k (vm_stack vm)" "?m - ?n = k - frame_size f"
    "k - frame_size f + length (fr_registers f) = ?m"
    using k room size by (simp_all add: pushed_def add.commute)
  have words: "frame_words f prev = replicate ?n value_undefined @ frame_above f prev"
    by (simp add: frame_words_def f new_frame_def)
  show ?thesis
    unfolding alloc e(1) unfolding e(2,3,4) words unfolding option.inject by (rule vm.equality) (simp_all add: slot_at_def pushed_def)
qed

lemma push_stack_frame_at:
  assumes ok: "stack_in_memory vm" and sp: "vm_sp vm = slot_at vm k" and k: "k \<le> length (vm_stack vm)"
    and f: "f = new_frame info c r args_rev rust ret (vm_pc vm)" and room: "frame_size f \<le> k"
    and depth: "num_stack_frames vm < MAX_STACK_DEPTH"
  shows "push_stack_frame info c r args_rev (length args_rev) rust ret vm = Some (entered vm k f (bytecode_ptr (info c)), Inr ())"
proof -
  let ?vm = "vm\<lparr>num_stack_frames := num_stack_frames vm + 1\<rparr>"
  have vm': "stack_in_memory ?vm" "vm_sp ?vm = slot_at ?vm k" "k \<le> length (vm_stack ?vm)"
    "f = new_frame info c r args_rev rust ret (vm_pc ?vm)"
    using ok sp k f by (simp_all add: stack_in_memory_def slot_at_def)
  have size: "max (length args_rev) (unat (num_parameters (info c))) + FIRST_ARGUMENT_SLOT_INDEX + unat (num_registers (info c)) = frame_size f"
    by (simp add: f new_frame_size slot_index_defs)
  have "ptr_sub (vm_sp vm) (frame_size f) = slot_at vm (k - frame_size f)" using room by (simp add: sp ptr_arith)
  moreover have "\<not> slot_at vm (k - frame_size f) < vm_base vm"
    using unat_slot_at [OF ok, of "k - frame_size f"] k by (simp add: word_less_nat_alt)
  ultimately have check: "stack_depth_check (frame_size f) vm = (?vm, Inr ())"
    using depth by (simp add: stack_depth_check_def stack_ptr_start_def)
  note pushes = new_frame_pushes [OF vm' room] and regs = new_frame_registers [OF vm'(1,3,4) room]
  show ?thesis
    using pushes regs [of "vm_fp vm"] unfolding push_stack_frame_def Let_def size check
    by (auto simp: bind_eq_Some_conv entered_def slot_at_def)
qed

definition stack_used :: "frame list \<Rightarrow> nat" where
  "stack_used fs = sum_list (map frame_size fs)"

lemma stack_used_simps [simp]: "stack_used [] = 0" "stack_used (f # fs) = frame_size f + stack_used fs"
  by (simp_all add: stack_used_def)

lemma frames_on_length: "frames_on info addr k slots fp fs \<Longrightarrow> length slots = stack_used fs"
  by (induction fs arbitrary: k slots fp) auto

text \<open>The frames, the address and the size of the stack determine the pointers and the slots in use.\<close>

lemma stack_isE:
  assumes "stack_is info vm fs"
  obtains k where "k = length (vm_stack vm) - stack_used fs" "stack_used fs \<le> length (vm_stack vm)" "stack_in_memory vm"
    "num_stack_frames vm = length fs" "vm_sp vm = slot_at vm k" "k \<le> length (vm_stack vm)"
    "frames_on info (slot_at vm) k (drop k (vm_stack vm)) (vm_fp vm) fs"
proof -
  obtain k where k: "k \<le> length (vm_stack vm)" "vm_sp vm = slot_at vm k"
      "frames_on info (slot_at vm) k (drop k (vm_stack vm)) (vm_fp vm) fs"
    and vm: "stack_in_memory vm" "num_stack_frames vm = length fs" using assms by (auto simp: stack_is_def)
  have "length (vm_stack vm) - k = stack_used fs" using frames_on_length [OF k(3)] by simp
  then have "k = length (vm_stack vm) - stack_used fs" "stack_used fs \<le> length (vm_stack vm)" using k(1) by auto
  then show thesis using that k vm by blast
qed

lemma frames_on_fun:
  "frames_on info addr k slots fp fs \<Longrightarrow> frames_on info addr k slots' fp' fs \<Longrightarrow> slots' = slots \<and> fp' = fp"
proof (induction fs arbitrary: k slots slots' fp fp')
  case (Cons f fs)
  obtain p r where 1: "slots = frame_words f p @ r" "frames_on info addr (k + frame_size f) r p fs" "fp = addr (k + length (fr_registers f))"
    using Cons.prems(1) by auto
  obtain p' r' where 2: "slots' = frame_words f p' @ r'" "frames_on info addr (k + frame_size f) r' p' fs" "fp' = addr (k + length (fr_registers f))"
    using Cons.prems(2) by auto
  show ?case using Cons.IH [OF 1(2) 2(2)] 1 2 by simp
qed simp

lemma frame_shape_new:
  "length args_rev < 2 ^ 64 \<Longrightarrow> \<not> bit pc 63 \<Longrightarrow> frame_shape info (new_frame info c r args_rev rust ret pc)"
  by (simp add: frame_shape_def new_frame_def max_def)

lemma entered_is:
  assumes ok: "stack_in_memory vm" and n: "num_stack_frames vm = length fs" and k: "k \<le> length (vm_stack vm)"
    and fs: "frames_on info (slot_at vm) k (drop k (vm_stack vm)) (vm_fp vm) fs" and sh: "frame_shape info f" and fit: "frame_size f \<le> k"
  shows "stack_is info (entered vm k f pc) (f # fs)" "length (vm_stack (entered vm k f pc)) = length (vm_stack vm)"
    "vm_base (entered vm k f pc) = vm_base vm" "vm_pc (entered vm k f pc) = pc"
proof -
  let ?e = "entered vm k f pc"
  show len: "length (vm_stack ?e) = length (vm_stack vm)" "vm_base ?e = vm_base vm" using fit k by (simp_all add: entered_def)
  show "vm_pc ?e = pc" by (simp add: entered_def)
  have sl: "slot_at ?e = slot_at vm" by (simp add: entered_def slot_at_def fun_eq_iff)
  have "drop (k - frame_size f) (vm_stack ?e) = frame_words f (vm_fp vm) @ drop k (vm_stack vm)"
    using k by (simp add: entered_def)
  moreover have "vm_fp ?e = slot_at vm (k - frame_size f + length (fr_registers f))" by (simp add: entered_def)
  ultimately have "frames_on info (slot_at ?e) (k - frame_size f) (drop (k - frame_size f) (vm_stack ?e)) (vm_fp ?e) (f # fs)"
    using sh fs fit sl by auto
  moreover have "stack_in_memory ?e" using ok len by (simp add: stack_in_memory_def)
  moreover have "vm_sp ?e = slot_at ?e (k - frame_size f)" "num_stack_frames ?e = length (f # fs)" "k - frame_size f \<le> length (vm_stack ?e)"
    using n k len by (simp_all add: entered_def slot_at_def)
  ultimately show "stack_is info ?e (f # fs)" unfolding stack_is_def by blast
qed

lemma call_enters:
  assumes st: "stack_is info vm fs" and pc: "\<not> bit (vm_pc vm) 63" and n: "length args_rev < 2 ^ 64"
    and f: "f = new_frame info c r args_rev rust ret (vm_pc vm)"
    and room: "stack_used (f # fs) \<le> length (vm_stack vm)" and depth: "length fs < MAX_STACK_DEPTH"
  shows "\<exists>vm'. push_stack_frame info c r args_rev (length args_rev) rust ret vm = Some (vm', Inr ()) \<and>
     stack_is info vm' (f # fs) \<and> vm_pc vm' = bytecode_ptr (info c) \<and>
     vm_base vm' = vm_base vm \<and> length (vm_stack vm') = length (vm_stack vm)"
proof -
  obtain k where k: "k = length (vm_stack vm) - stack_used fs" "stack_used fs \<le> length (vm_stack vm)" "stack_in_memory vm"
      "num_stack_frames vm = length fs" "vm_sp vm = slot_at vm k" "k \<le> length (vm_stack vm)"
      "frames_on info (slot_at vm) k (drop k (vm_stack vm)) (vm_fp vm) fs"
    using st by (rule stack_isE)
  have fit: "frame_size f \<le> k" using room k(1,2) by simp
  have "push_stack_frame info c r args_rev (length args_rev) rust ret vm = Some (entered vm k f (bytecode_ptr (info c)), Inr ())"
    using push_stack_frame_at [OF k(3,5,6) f fit] depth k(4) by simp
  moreover have "frame_shape info f" using frame_shape_new [OF n pc] f by simp
  ultimately show ?thesis using entered_is [OF k(3,4,6,7) _ fit] by blast
qed

lemma call_overflows:
  assumes st: "stack_is info vm fs" and f: "f = new_frame info c r args_rev rust ret (vm_pc vm)"
    and no_room: "length (vm_stack vm) < stack_used (f # fs) \<or> MAX_STACK_DEPTH \<le> length fs"
    and addr: "8 * frame_size f \<le> unat (vm_sp vm)"
  shows "push_stack_frame info c r args_rev (length args_rev) rust ret vm = Some (vm, Inl StackOverflow)"
proof -
  obtain k where k: "k = length (vm_stack vm) - stack_used fs" "stack_used fs \<le> length (vm_stack vm)" "stack_in_memory vm"
      "num_stack_frames vm = length fs" "vm_sp vm = slot_at vm k" "k \<le> length (vm_stack vm)"
    using st by (rule stack_isE)
  have size: "max (length args_rev) (unat (num_parameters (info c))) + FIRST_ARGUMENT_SLOT_INDEX + unat (num_registers (info c)) = frame_size f"
    by (simp add: f new_frame_size slot_index_defs)
  have sz: "unat (8 * of_nat (frame_size f) :: u64) = 8 * frame_size f"
    using addr unsigned_less [of "vm_sp vm", where ?'a = nat] by (simp add: unat_word_ariths unsigned_of_nat take_bit_nat_eq_self)
  then have "unat (ptr_sub (vm_sp vm) (frame_size f)) = unat (vm_base vm) + 8 * k - 8 * frame_size f"
    using addr unat_slot_at [OF k(3,6)] k(5) by (simp add: ptr_sub_def unat_sub word_le_nat_alt)
  then have "k < frame_size f \<Longrightarrow> ptr_sub (vm_sp vm) (frame_size f) < vm_base vm"
    using addr unat_slot_at [OF k(3,6)] k(3,5) by (simp add: word_less_nat_alt stack_in_memory_def)
  then have "stack_depth_check (frame_size f) vm = (vm, Inl StackOverflow)"
    using no_room k(1,2,4) by (auto simp: stack_depth_check_def stack_ptr_start_def)
  then show ?thesis unfolding push_stack_frame_def Let_def size by simp
qed

text \<open>What a machine whose current frame is \<open>f\<close> holds.\<close>

lemma stack_is_ConsE:
  assumes "stack_is info vm (f # fs)"
  obtains k prev where "vm_sp vm = slot_at vm k" "k + frame_size f \<le> length (vm_stack vm)" "stack_in_memory vm" "frame_shape info f"
    "num_stack_frames vm = Suc (length fs)" "vm_fp vm = slot_at vm (k + length (fr_registers f))"
    "drop k (vm_stack vm) = frame_words f prev @ drop (k + frame_size f) (vm_stack vm)"
    "frames_on info (slot_at vm) (k + frame_size f) (drop (k + frame_size f) (vm_stack vm)) prev fs"
proof -
  obtain k where k: "k = length (vm_stack vm) - stack_used (f # fs)" "stack_used (f # fs) \<le> length (vm_stack vm)" "stack_in_memory vm"
      "num_stack_frames vm = length (f # fs)" "vm_sp vm = slot_at vm k" "k \<le> length (vm_stack vm)"
      "frames_on info (slot_at vm) k (drop k (vm_stack vm)) (vm_fp vm) (f # fs)"
    using assms by (rule stack_isE)
  then obtain prev rest where r: "drop k (vm_stack vm) = frame_words f prev @ rest"
      "frames_on info (slot_at vm) (k + frame_size f) rest prev fs" "frame_shape info f" "vm_fp vm = slot_at vm (k + length (fr_registers f))"
    by auto
  have "drop (frame_size f) (drop k (vm_stack vm)) = rest" unfolding r(1) by simp
  then have "rest = drop (k + frame_size f) (vm_stack vm)" by (simp add: add.commute)
  then show thesis using that [of k prev] k r by simp
qed

lemma return_pops:
  assumes st: "stack_is info vm (f # fs)"
  shows "\<exists>vm'. pop_stack_frame info vm = Some vm' \<and> stack_is info vm' fs \<and> vm_pc vm' = fr_return_address f \<and>
     vm_base vm' = vm_base vm \<and> vm_stack vm' = vm_stack vm"
proof -
  obtain k prev where k: "vm_sp vm = slot_at vm k" "k + frame_size f \<le> length (vm_stack vm)" "stack_in_memory vm" "frame_shape info f"
    "num_stack_frames vm = Suc (length fs)" "vm_fp vm = slot_at vm (k + length (fr_registers f))"
    and d: "drop k (vm_stack vm) = frame_words f prev @ drop (k + frame_size f) (vm_stack vm)"
    and fs: "frames_on info (slot_at vm) (k + frame_size f) (drop (k + frame_size f) (vm_stack vm)) prev fs"
    using st by (rule stack_is_ConsE)
  have k': "k \<le> length (vm_stack vm)" using k(2) by simp
  note reads = frame_reads [OF k(3) d k' k(6) k(4)]
  let ?vm = "vm\<lparr>vm_pc := fr_return_address f, vm_sp := slot_at vm (k + frame_size f), vm_fp := prev, num_stack_frames := length fs\<rparr>"
  have sz: "length (fr_registers f) + (8 + max (fr_argc f) (unat (num_parameters (info (fr_closure f))))) = frame_size f"
    using k(4) by (simp add: frame_shape_def frame_size_def)
  have "pop_stack_frame info vm = Some ?vm"
    using k(5) sz unfolding pop_stack_frame_def reads by (simp add: Let_def k(6) ptr_arith slot_index_defs add.assoc)
  moreover have "stack_is info ?vm fs"
    using k(2,3) fs unfolding stack_is_def by (auto simp: stack_in_memory_def slot_at_def [abs_def])
  ultimately show ?thesis by auto
qed

text \<open>A frame above the current one on the stack is one of the callers.\<close>

lemma frames_on_drop:
  "frames_on info addr k slots fp (f # fs) \<Longrightarrow>
   \<exists>prev. slots = frame_words f prev @ drop (frame_size f) slots \<and> frames_on info addr (k + frame_size f) (drop (frame_size f) slots) prev fs"
  by auto

text \<open>Registers.\<close>

lemma frame_words_register:
  assumes "i < length (fr_registers f)"
  shows "frame_words f prev ! (length (fr_registers f) - Suc i) = fr_registers f ! i"
    "(frame_words f prev)[length (fr_registers f) - Suc i := v] = frame_words (f\<lparr>fr_registers := (fr_registers f)[i := v]\<rparr>) prev"
proof -
  have "length (fr_registers f) - Suc i < length (fr_registers f)" using assms by linarith
  then show "frame_words f prev ! (length (fr_registers f) - Suc i) = fr_registers f ! i"
    "(frame_words f prev)[length (fr_registers f) - Suc i := v] = frame_words (f\<lparr>fr_registers := (fr_registers f)[i := v]\<rparr>) prev"
    using assms by (simp_all add: frame_words_def frame_above_def nth_append rev_nth list_update_append rev_update)
qed

lemma register_address_local:
  assumes "i \<le> MAX_LOCAL_INDEX 32"
  shows "register_address vm (reg_local i) = ptr_sub (vm_fp vm) (i + 1)"
proof -
  have "(scast (reg_local i :: gen_register) :: u64) = of_int (sint (reg_local i :: gen_register))" by (rule of_int_sint [symmetric])
  also have "\<dots> = - 1 - of_nat i" using reg_local_sint [of i, where 'w = 32] assms by simp
  finally have "(scast (reg_local i :: gen_register) :: u64) = - 1 - of_nat i" .
  then show ?thesis unfolding register_address_def fp_offset_def ptr_sub_def by (simp add: right_diff_distrib distrib_left)
qed

lemma register_accesses:
  assumes st: "stack_is info vm (f # fs)" and i: "i < length (fr_registers f)" and max: "i \<le> MAX_LOCAL_INDEX 32"
  shows "read_register vm (reg_local i) = Some (fr_registers f ! i)"
    "\<exists>vm'. write_register (reg_local i) v vm = Some vm' \<and> stack_is info vm' (f\<lparr>fr_registers := (fr_registers f)[i := v]\<rparr> # fs) \<and>
       vm_pc vm' = vm_pc vm \<and> vm_fp vm' = vm_fp vm \<and> vm_base vm' = vm_base vm \<and> length (vm_stack vm') = length (vm_stack vm)"
proof -
  obtain k prev where k: "vm_sp vm = slot_at vm k" "k + frame_size f \<le> length (vm_stack vm)" "stack_in_memory vm" "frame_shape info f"
    "num_stack_frames vm = Suc (length fs)" "vm_fp vm = slot_at vm (k + length (fr_registers f))"
    and d: "drop k (vm_stack vm) = frame_words f prev @ drop (k + frame_size f) (vm_stack vm)"
    and fs: "frames_on info (slot_at vm) (k + frame_size f) (drop (k + frame_size f) (vm_stack vm)) prev fs"
    using st by (rule stack_is_ConsE)
  let ?j = "length (fr_registers f) - Suc i" and ?g = "f\<lparr>fr_registers := (fr_registers f)[i := v]\<rparr>"
  have j: "?j < frame_size f" "k + ?j < length (vm_stack vm)" using i k(2) by (simp_all add: frame_size_def)
  have r: "register_address vm (reg_local i) = slot_at vm (k + ?j)"
    using i by (simp add: register_address_local [OF max] k(6) ptr_arith)
  have "vm_stack vm ! (k + ?j) = drop k (vm_stack vm) ! ?j" using k(2) by simp
  also have "\<dots> = fr_registers f ! i" using i j(1) by (subst d) (simp add: nth_append frame_words_register)
  finally show "read_register vm (reg_local i) = Some (fr_registers f ! i)" by (simp add: read_register_def r read_slot_at [OF k(3) j(2)])
  let ?vm = "vm\<lparr>vm_stack := (vm_stack vm)[k + ?j := v]\<rparr>"
  have w: "write_register (reg_local i) v vm = Some ?vm" by (simp add: write_register_def r write_slot_at [OF k(3) j(2)])
  have "drop k (vm_stack ?vm) = (drop k (vm_stack vm))[?j := v]" by (simp add: drop_update_swap)
  also have "\<dots> = frame_words ?g prev @ drop (k + frame_size f) (vm_stack vm)"
    using i j(1) by (subst d) (simp add: list_update_append frame_words_register)
  finally have "frames_on info (slot_at ?vm) k (drop k (vm_stack ?vm)) (vm_fp ?vm) (?g # fs)"
    using fs k(4,6) by (auto simp: slot_at_def [abs_def] frame_shape_def frame_size_def)
  then have "stack_is info ?vm (?g # fs)"
    using k unfolding stack_is_def by (auto simp: stack_in_memory_def slot_at_def intro!: exI [of _ k])
  then show "\<exists>vm'. write_register (reg_local i) v vm = Some vm' \<and> stack_is info vm' (?g # fs) \<and> vm_pc vm' = vm_pc vm \<and>
      vm_fp vm' = vm_fp vm \<and> vm_base vm' = vm_base vm \<and> length (vm_stack vm') = length (vm_stack vm)"
    using w by auto
qed

subsection \<open>Entering and leaving calls\<close>

text \<open>
  C8: calling a closure puts one frame on the stack: the new frame holds the receiver, the arguments
  with \<open>undefined\<close> for missing ones, the closure's scope and constants, registers set to
  \<open>undefined\<close> and the way back to the caller, the frames of the callers are as before, and
  execution goes on at the first instruction of the closure; when the slots or the number of frames do not
  suffice, the call fails and nothing has changed.
\<close>

theorem call_refines:
  assumes "stack_is info vm fs" "\<not> bit (vm_pc vm) 63" "length args_rev < 2 ^ 64"
    and "f = new_frame info c r args_rev rust ret (vm_pc vm)" "8 * frame_size f \<le> unat (vm_sp vm)"
  shows "if stack_used (f # fs) \<le> length (vm_stack vm) \<and> length fs < MAX_STACK_DEPTH
     then \<exists>vm'. push_stack_frame info c r args_rev (length args_rev) rust ret vm = Some (vm', Inr ()) \<and>
       stack_is info vm' (f # fs) \<and> vm_pc vm' = bytecode_ptr (info c) \<and>
       vm_base vm' = vm_base vm \<and> length (vm_stack vm') = length (vm_stack vm)
     else push_stack_frame info c r args_rev (length args_rev) rust ret vm = Some (vm, Inl StackOverflow)"
proof (cases "stack_used (f # fs) \<le> length (vm_stack vm) \<and> length fs < MAX_STACK_DEPTH")
  case True
  then show ?thesis using call_enters [OF assms(1-4)] by simp
next
  case False
  then show ?thesis using call_overflows [OF assms(1,4) _ assms(5)] by (auto simp: not_le not_less)
qed

definition sample_info :: "u64 \<Rightarrow> function_info" where
  "sample_info c = \<lparr>num_parameters = 1, num_registers = 2, scope_ptr = 100, constant_table_ptr = 200, bytecode_ptr = 300, function_ptr = 290\<rparr>"

definition sample_vm :: vm where
  "sample_vm = reset_stack \<lparr>vm_pc = 50, vm_sp = 0, vm_fp = 0, vm_stack = replicate 30 0, vm_base = 4096, num_stack_frames = 0\<rparr>"

lemma sample_vm: "stack_is sample_info sample_vm []" "vm_pc sample_vm = 50" "vm_stack sample_vm = replicate 30 0" "vm_base sample_vm = 4096"
    "vm_sp sample_vm = 4336"
  unfolding stack_is_def
  by (auto simp: sample_vm_def reset_stack_def stack_in_memory_def stack_ptr_end_def ptr_add_def slot_at_def intro!: exI [of _ 30])

lemma sample_frame_size: "frame_size (new_frame sample_info c r args_rev rust ret pc) = max (length args_rev) 1 + 10"
  by (simp add: new_frame_size sample_info_def)

theorem call_refines_witness:
  "\<exists>vm'. push_stack_frame sample_info 7 8 [9] 1 True 0 sample_vm = Some (vm', Inr ()) \<and>
     stack_is sample_info vm' [new_frame sample_info 7 8 [9] True 0 50] \<and> vm_pc vm' = 300"
proof -
  have "\<not> bit (50 :: u64) 63" by simp
  then show ?thesis
    using call_refines [of sample_info sample_vm "[]" "[9]" "new_frame sample_info 7 8 [9] True 0 50" 7 8 True 0] sample_vm
    by (auto simp: sample_frame_size MAX_STACK_DEPTH_def) (auto simp: sample_info_def)
qed

text \<open>
  Returning (the \<open>return_\<close> macro): the value goes to the address in the frame, a register of
  the caller or a variable of the Rust caller (then the store is part of the result); the frame is popped,
  and the result tells whether the interpreter loop is left.
\<close>

definition return_to_caller :: "(u64 \<Rightarrow> function_info) \<Rightarrow> u64 \<Rightarrow> vm \<Rightarrow> (vm \<times> bool \<times> (u64 \<times> u64) option) option" where
  "return_to_caller info v vm =
     do { addr \<leftarrow> return_value_address vm (vm_fp vm);
          let (vm, outside) = (case slot_number vm addr of
              Some i \<Rightarrow> (vm\<lparr>vm_stack := (vm_stack vm)[i := v]\<rparr>, None)
            | None \<Rightarrow> (vm, Some (addr, v))) in
          do { rust \<leftarrow> is_rust_caller vm (vm_fp vm);
               vm \<leftarrow> pop_stack_frame info vm;
               Some (vm, rust, outside) } }"

lemma update_middle: "j < length ys \<Longrightarrow> (xs @ ys @ zs)[length xs + j := v] = xs @ ys[j := v] @ zs"
  by (simp add: list_update_append)

text \<open>Storing into a register of the caller changes the caller's frame only.\<close>

lemma caller_register_store:
  assumes st: "stack_is info vm (f # g # fs)" and i: "i < length (fr_registers g)"
    and n: "n = length (vm_stack vm) - stack_used (g # fs) + (length (fr_registers g) - Suc i)"
  shows "n < length (vm_stack vm)"
    "stack_is info (vm\<lparr>vm_stack := (vm_stack vm)[n := v]\<rparr>) (f # g\<lparr>fr_registers := (fr_registers g)[i := v]\<rparr> # fs)"
proof -
  let ?g = "g\<lparr>fr_registers := (fr_registers g)[i := v]\<rparr>" and ?vm = "vm\<lparr>vm_stack := (vm_stack vm)[n := v]\<rparr>"
  obtain k where k: "k = length (vm_stack vm) - stack_used (f # g # fs)" "stack_used (f # g # fs) \<le> length (vm_stack vm)" "stack_in_memory vm"
      "num_stack_frames vm = length (f # g # fs)" "vm_sp vm = slot_at vm k" "k \<le> length (vm_stack vm)"
      "frames_on info (slot_at vm) k (drop k (vm_stack vm)) (vm_fp vm) (f # g # fs)"
    using st by (rule stack_isE)
  let ?j = "length (fr_registers g) - Suc i"
  have nk: "n = k + (frame_size f + ?j)" using n k(1,2) by simp
  have j: "?j < frame_size g" using i by (simp add: frame_size_def)
  show "n < length (vm_stack vm)" using nk k(1,2) j by simp
  obtain p q rest where d: "drop k (vm_stack vm) = frame_words f p @ frame_words g q @ rest"
      and fs: "frames_on info (slot_at vm) (k + frame_size f + frame_size g) rest q fs"
      and sh: "frame_shape info f" "frame_shape info g" "vm_fp vm = slot_at vm (k + length (fr_registers f))"
        "p = slot_at vm (k + frame_size f + length (fr_registers g))"
    using k(7) by auto
  have "drop k (vm_stack ?vm) = (drop k (vm_stack vm))[frame_size f + ?j := v]"
    using nk by (simp add: drop_update_swap)
  also have "\<dots> = frame_words f p @ frame_words ?g q @ rest"
    using update_middle [of ?j "frame_words g q" "frame_words f p" rest v] j by (simp only: d frame_words_length frame_words_register(2) [OF i])
  finally have "drop k (vm_stack ?vm) = frame_words f p @ frame_words ?g q @ rest" .
  moreover have "slot_at ?vm = slot_at vm" by (simp add: slot_at_def [abs_def])
  moreover have "frame_shape info ?g" "frame_size ?g = frame_size g" using sh(2) by (simp_all add: frame_shape_def frame_size_def)
  ultimately have "frames_on info (slot_at ?vm) k (drop k (vm_stack ?vm)) (vm_fp ?vm) (f # ?g # fs)"
    using fs sh by auto
  then show "stack_is info ?vm (f # ?g # fs)"
    using k(3-6) unfolding stack_is_def by (auto simp: stack_in_memory_def slot_at_def intro!: exI [of _ k])
qed

text \<open>
  C13: a call returns: whatever the callee did to its own registers and arguments, returning stores the value
  in the register the caller named, gives the caller its frame back otherwise unchanged, and continues with
  the instruction after the call.
\<close>

theorem call_returns:
  assumes vm: "stack_is info vm (g # fs)" and i: "i < length (fr_registers g)" "i \<le> MAX_LOCAL_INDEX 32"
    and f: "f = new_frame info c r args_rev rust (register_address vm (reg_local i)) (vm_pc vm)"
    and vm': "stack_is info vm' (f\<lparr>fr_registers := rs, fr_args := as\<rparr> # g # fs)"
      "vm_base vm' = vm_base vm" "length (vm_stack vm') = length (vm_stack vm)"
  shows "\<exists>vm''. return_to_caller info v vm' = Some (vm'', rust, None) \<and>
     stack_is info vm'' (g\<lparr>fr_registers := (fr_registers g)[i := v]\<rparr> # fs) \<and> vm_pc vm'' = vm_pc vm"
proof -
  let ?f = "f\<lparr>fr_registers := rs, fr_args := as\<rparr>" and ?g = "g\<lparr>fr_registers := (fr_registers g)[i := v]\<rparr>"
  let ?n = "length (vm_stack vm') - stack_used (g # fs) + (length (fr_registers g) - Suc i)"
  obtain k where k: "k = length (vm_stack vm) - stack_used (g # fs)" "vm_fp vm = slot_at vm (k + length (fr_registers g))"
    using vm by (elim stack_isE) auto
  have ret: "fr_return_value_address ?f = slot_at vm' ?n"
    using i k vm' by (simp add: f new_frame_def register_address_local ptr_arith slot_at_def [of vm] slot_at_def [of vm'])
      (simp add: ptr_sub_def ptr_add_def of_nat_diff algebra_simps)
  note store = caller_register_store [OF vm'(1) i(1) refl]
  let ?vm = "vm'\<lparr>vm_stack := (vm_stack vm')[?n := v]\<rparr>"
  have ok: "stack_in_memory vm'" using vm'(1) by (simp add: stack_is_def)
  have "return_value_address vm' (vm_fp vm') = Some (fr_return_value_address ?f)"
    by (rule stack_is_ConsE [OF vm'(1)]) (rule frame_reads(4), auto)
  moreover have "slot_number vm' (slot_at vm' ?n) = Some ?n" using slot_number_at [OF ok store(1)] .
  moreover have "is_rust_caller ?vm (vm_fp ?vm) = Some (fr_rust_caller ?f)"
    by (rule stack_is_ConsE [OF store(2)]) (rule frame_reads(3), auto)
  moreover obtain vm'' where "pop_stack_frame info ?vm = Some vm''" "stack_is info vm'' (?g # fs)" "vm_pc vm'' = fr_return_address ?f"
    using return_pops [OF store(2)] by blast
  ultimately show ?thesis unfolding return_to_caller_def ret by (simp add: f new_frame_def)
qed

lemma sample_calls:
  obtains vm1 vm2 f g where "push_stack_frame sample_info 7 8 [9] 1 True 0 sample_vm = Some (vm1, Inr ())"
    "push_stack_frame sample_info 7 8 [] 0 False (register_address vm1 (reg_local 1)) vm1 = Some (vm2, Inr ())"
    "g = new_frame sample_info 7 8 [9] True 0 50" "f = new_frame sample_info 7 8 [] False (register_address vm1 (reg_local 1)) (vm_pc vm1)"
    "stack_is sample_info vm1 [g]" "stack_is sample_info vm2 [f, g]" "vm_base vm2 = vm_base vm1" "length (vm_stack vm2) = length (vm_stack vm1)"
    "vm_pc vm1 = 300"
proof -
  have b: "\<not> bit (50 :: u64) 63" "\<not> bit (300 :: u64) 63" by simp_all
  let ?g = "new_frame sample_info 7 8 [9] True 0 50"
  obtain vm1 where 1: "push_stack_frame sample_info 7 8 [9] 1 True 0 sample_vm = Some (vm1, Inr ())" "stack_is sample_info vm1 [?g]"
      "vm_pc vm1 = 300" "length (vm_stack vm1) = 30"
    using call_enters [of sample_info sample_vm "[]" "[9]" ?g 7 8 True 0] sample_vm b
    by (auto simp: sample_frame_size MAX_STACK_DEPTH_def) (auto simp: sample_info_def)
  let ?f = "new_frame sample_info 7 8 [] False (register_address vm1 (reg_local 1)) (vm_pc vm1)"
  obtain vm2 where "push_stack_frame sample_info 7 8 [] 0 False (register_address vm1 (reg_local 1)) vm1 = Some (vm2, Inr ())"
      "stack_is sample_info vm2 [?f, ?g]" "vm_base vm2 = vm_base vm1" "length (vm_stack vm2) = length (vm_stack vm1)"
    using call_enters [of sample_info vm1 "[?g]" "[]" ?f 7 8 False] 1 b by (auto simp: sample_frame_size MAX_STACK_DEPTH_def)
  then show thesis using that 1 by blast
qed

theorem call_returns_witness:
  "\<exists>vm1 vm2 vm3 g. push_stack_frame sample_info 7 8 [9] 1 True 0 sample_vm = Some (vm1, Inr ()) \<and> stack_is sample_info vm1 [g] \<and>
     push_stack_frame sample_info 7 8 [] 0 False (register_address vm1 (reg_local 1)) vm1 = Some (vm2, Inr ()) \<and>
     return_to_caller sample_info 42 vm2 = Some (vm3, False, None) \<and> vm_pc vm3 = 300 \<and>
     stack_is sample_info vm3 [g\<lparr>fr_registers := [value_undefined, 42]\<rparr>]"
proof -
  obtain vm1 vm2 f g where s: "push_stack_frame sample_info 7 8 [9] 1 True 0 sample_vm = Some (vm1, Inr ())"
    "push_stack_frame sample_info 7 8 [] 0 False (register_address vm1 (reg_local 1)) vm1 = Some (vm2, Inr ())"
    "g = new_frame sample_info 7 8 [9] True 0 50" "f = new_frame sample_info 7 8 [] False (register_address vm1 (reg_local 1)) (vm_pc vm1)"
    "stack_is sample_info vm1 [g]" "stack_is sample_info vm2 [f, g]" "vm_base vm2 = vm_base vm1" "length (vm_stack vm2) = length (vm_stack vm1)"
    "vm_pc vm1 = 300" by (rule sample_calls)
  have regs: "fr_registers g = [value_undefined, value_undefined]" unfolding s(3) new_frame_def sample_info_def by code_simp
  have "1 \<le> MAX_LOCAL_INDEX 32" by (simp add: max_indices)
  moreover have "stack_is sample_info vm2 [f\<lparr>fr_registers := fr_registers f, fr_args := fr_args f\<rparr>, g]" using s(6) by simp
  ultimately obtain vm3 where "return_to_caller sample_info 42 vm2 = Some (vm3, False, None)" "vm_pc vm3 = vm_pc vm1"
      "stack_is sample_info vm3 [g\<lparr>fr_registers := (fr_registers g)[1 := 42]\<rparr>]"
    using call_returns [OF s(5) _ _ s(4) _ s(7,8)] regs by fastforce
  then show ?thesis using s(1,2,5,9) regs by (intro exI [of _ vm1] exI [of _ vm2] exI [of _ vm3] exI [of _ g]) simp
qed

subsection \<open>The roots on the stack\<close>

text \<open>
  \<open>visit_roots\<close> walks the frames from the current one; the visitor gets the function of the
  frame and then the frame's values and pointers. Marking moves nothing, so the list of what is visited
  says all. There are at most as many frames as slots.
\<close>

definition all_args_with_receiver :: "(u64 \<Rightarrow> function_info) \<Rightarrow> vm \<Rightarrow> u64 \<Rightarrow> u64 list option" where
  "all_args_with_receiver info vm fp =
     do { c \<leftarrow> frame_closure vm fp;
          argc \<leftarrow> frame_argc vm fp;
          let num_args_with_receiver = max (unat (num_parameters (info c))) argc + 1
          in read_slots vm (ptr_add fp RECEIVER_SLOT_INDEX) num_args_with_receiver }"

definition frame_registers :: "(u64 \<Rightarrow> function_info) \<Rightarrow> vm \<Rightarrow> u64 \<Rightarrow> u64 list option" where
  "frame_registers info vm fp =
     do { c \<leftarrow> frame_closure vm fp;
          let registers = unat (num_registers (info c))
          in read_slots vm (ptr_sub fp registers) registers }"

definition visit_simple_pointers :: "(u64 \<Rightarrow> function_info) \<Rightarrow> vm \<Rightarrow> u64 \<Rightarrow> u64 list option" where
  "visit_simple_pointers info vm fp =
     do { args \<leftarrow> all_args_with_receiver info vm fp;
          registers \<leftarrow> frame_registers info vm fp;
          c \<leftarrow> frame_closure vm fp;
          t \<leftarrow> frame_constant_table vm fp;
          s \<leftarrow> frame_scope vm fp;
          Some (args @ registers @ [c, t, s]) }"

definition frame_function :: "(u64 \<Rightarrow> function_info) \<Rightarrow> vm \<Rightarrow> u64 \<Rightarrow> u64 option" where
  "frame_function info vm fp = do { c \<leftarrow> frame_closure vm fp; Some (function_ptr (info c)) }"

fun visit_frames :: "(u64 \<Rightarrow> function_info) \<Rightarrow> nat \<Rightarrow> vm \<Rightarrow> u64 \<Rightarrow> u64 list option" where
  "visit_frames info 0 vm fp = None"
| "visit_frames info (Suc n) vm fp =
     do { visited \<leftarrow> visit_simple_pointers info vm fp;
          prev \<leftarrow> previous_frame vm fp;
          (case prev of
             None \<Rightarrow> Some visited
           | Some caller \<Rightarrow>
               do { func \<leftarrow> frame_function info vm caller;
                    rest \<leftarrow> visit_frames info n vm caller;
                    Some (visited @ func # rest) }) }"

definition visit_roots :: "(u64 \<Rightarrow> function_info) \<Rightarrow> vm \<Rightarrow> u64 list option" where
  "visit_roots info vm =
     (if \<not> is_executing vm then Some []
      else do { func \<leftarrow> frame_function info vm (vm_fp vm);
                visited \<leftarrow> visit_frames info (length (vm_stack vm)) vm (vm_fp vm);
                Some (func # visited) })"

text \<open>Everything the heap has to keep for a frame.\<close>

definition frame_roots :: "(u64 \<Rightarrow> function_info) \<Rightarrow> frame \<Rightarrow> u64 list" where
  "frame_roots info f = function_ptr (info (fr_closure f)) #
     (fr_receiver f # fr_args f) @ rev (fr_registers f) @ [fr_closure f, fr_constants f, fr_scope f]"

lemma read_slots_at:
  "stack_in_memory vm \<Longrightarrow> i + n \<le> length (vm_stack vm) \<Longrightarrow> read_slots vm (slot_at vm i) n = Some (take n (drop i (vm_stack vm)))"
proof (induction n arbitrary: i)
  case (Suc n)
  then have "read_slots vm (slot_at vm (Suc i)) n = Some (take n (drop (Suc i) (vm_stack vm)))" by simp
  moreover have "take (Suc n) (drop i (vm_stack vm)) = vm_stack vm ! i # take n (drop (Suc i) (vm_stack vm))"
    using Suc.prems(2) by (simp add: Cons_nth_drop_Suc [symmetric])
  ultimately show ?case using Suc.prems by (simp add: read_slot_at ptr_arith)
qed simp

lemma frame_slices:
  assumes ok: "stack_in_memory vm" and d: "drop k (vm_stack vm) = frame_words f prev @ rest" and k: "k \<le> length (vm_stack vm)"
    and fp: "fp = slot_at vm (k + length (fr_registers f))" and sh: "frame_shape info f"
  shows "all_args_with_receiver info vm fp = Some (fr_receiver f # fr_args f)"
    "frame_registers info vm fp = Some (rev (fr_registers f))"
    "frame_as_slice info vm fp = Some (frame_words f prev)"
proof -
  note reads = frame_reads [OF assms]
  have len: "length (vm_stack vm) = k + frame_size f + length rest" using arg_cong [OF d, of length] k by simp
  have sh': "max (unat (num_parameters (info (fr_closure f)))) (fr_argc f) = length (fr_args f)"
    "unat (num_registers (info (fr_closure f))) = length (fr_registers f)" using sh by (simp_all add: frame_shape_def max.commute)
  have "drop (k + (length (fr_registers f) + 7)) (vm_stack vm) = drop (length (fr_registers f) + 7) (drop k (vm_stack vm))"
    by (simp add: add.commute)
  also have "\<dots> = fr_receiver f # fr_args f @ rest" unfolding d by (simp add: frame_words_def frame_above_def)
  finally have above: "drop (k + (length (fr_registers f) + 7)) (vm_stack vm) = fr_receiver f # fr_args f @ rest" .
  have "read_slots vm (slot_at vm (k + (length (fr_registers f) + 7))) (Suc (length (fr_args f))) = Some (fr_receiver f # fr_args f)"
    using read_slots_at [OF ok, of "k + (length (fr_registers f) + 7)" "Suc (length (fr_args f))"] len above by (simp add: frame_size_def)
  then show "all_args_with_receiver info vm fp = Some (fr_receiver f # fr_args f)"
    unfolding all_args_with_receiver_def reads by (simp add: sh' slot_index_defs fp ptr_arith add.assoc del: read_slots.simps)
  show "frame_registers info vm fp = Some (rev (fr_registers f))"
    using read_slots_at [OF ok, of k "length (fr_registers f)"] len d
    unfolding frame_registers_def reads by (simp add: sh' fp ptr_arith frame_size_def frame_words_def)
  show "frame_as_slice info vm fp = Some (frame_words f prev)"
    using read_slots_at [OF ok, of k "frame_size f"] len d
    unfolding frame_as_slice_def reads by (simp add: sh' fp ptr_arith frame_size_def slot_index_defs)
qed

lemma frames_on_ConsE:
  assumes "frames_on info (slot_at vm) k (drop k (vm_stack vm)) fp (f # fs)" "k \<le> length (vm_stack vm)"
  obtains prev where "drop k (vm_stack vm) = frame_words f prev @ drop (k + frame_size f) (vm_stack vm)"
    "k + frame_size f \<le> length (vm_stack vm)" "fp = slot_at vm (k + length (fr_registers f))" "frame_shape info f"
    "frames_on info (slot_at vm) (k + frame_size f) (drop (k + frame_size f) (vm_stack vm)) prev fs"
proof -
  obtain prev where p: "drop k (vm_stack vm) = frame_words f prev @ drop (frame_size f) (drop k (vm_stack vm))"
      "frames_on info (slot_at vm) (k + frame_size f) (drop (frame_size f) (drop k (vm_stack vm))) prev fs"
    using frames_on_drop [OF assms(1)] by blast
  have "length (frame_words f prev) \<le> length (drop k (vm_stack vm))" by (subst p(1)) simp
  then have "k + frame_size f \<le> length (vm_stack vm)" using assms(2) by simp
  then show thesis using that [of prev] p assms(1) by (simp add: add.commute)
qed

lemma frames_on_null:
  assumes "stack_in_memory vm" "frames_on info (slot_at vm) k (drop k (vm_stack vm)) fp fs" "k \<le> length (vm_stack vm)"
  shows "fp = 0 \<longleftrightarrow> fs = []"
proof (cases fs)
  case (Cons f gs)
  have "frames_on info (slot_at vm) k (drop k (vm_stack vm)) fp (f # gs)" using assms(2) Cons by simp
  then obtain prev where "k + frame_size f \<le> length (vm_stack vm)" "fp = slot_at vm (k + length (fr_registers f))"
    using assms(3) by (rule frames_on_ConsE)
  then show ?thesis using slot_at_not_null [OF assms(1), of "k + length (fr_registers f)"] Cons by (simp add: frame_size_def)
qed (use assms(2) in simp)

lemma visit_frames_on:
  "stack_in_memory vm \<Longrightarrow> frames_on info (slot_at vm) k (drop k (vm_stack vm)) fp (f # fs) \<Longrightarrow> k \<le> length (vm_stack vm) \<Longrightarrow>
   length fs < n \<Longrightarrow>
   frame_function info vm fp = Some (function_ptr (info (fr_closure f))) \<and>
   visit_frames info n vm fp = Some (tl (frame_roots info f) @ concat (map (frame_roots info) fs))"
proof (induction fs arbitrary: f k fp n)
  case (Cons g fs)
  obtain m where n: "n = Suc m" "length fs < m" using Cons.prems(4) by (cases n) auto
  obtain prev where p: "drop k (vm_stack vm) = frame_words f prev @ drop (k + frame_size f) (vm_stack vm)"
    "k + frame_size f \<le> length (vm_stack vm)" "fp = slot_at vm (k + length (fr_registers f))" "frame_shape info f"
    "frames_on info (slot_at vm) (k + frame_size f) (drop (k + frame_size f) (vm_stack vm)) prev (g # fs)"
    using Cons.prems(2,3) by (rule frames_on_ConsE)
  note reads = frame_reads [OF Cons.prems(1) p(1) Cons.prems(3) p(3,4)] frame_slices [OF Cons.prems(1) p(1) Cons.prems(3) p(3,4)]
  have "prev \<noteq> 0" using frames_on_null [OF Cons.prems(1) p(5,2)] by simp
  moreover have "frame_function info vm prev = Some (function_ptr (info (fr_closure g)))"
    "visit_frames info m vm prev = Some (tl (frame_roots info g) @ concat (map (frame_roots info) fs))"
    using Cons.IH [OF Cons.prems(1) p(5,2) n(2)] by blast+
  ultimately have "visit_frames info n vm fp = Some (tl (frame_roots info f) @ concat (map (frame_roots info) (g # fs)))"
    by (simp add: n visit_simple_pointers_def previous_frame_def reads) (simp add: frame_roots_def)
  then show ?case by (simp add: frame_function_def reads)
next
  case Nil
  then obtain m where n: "n = Suc m" by (cases n) auto
  obtain prev where p: "drop k (vm_stack vm) = frame_words f prev @ drop (k + frame_size f) (vm_stack vm)"
    "k + frame_size f \<le> length (vm_stack vm)" "fp = slot_at vm (k + length (fr_registers f))" "frame_shape info f"
    "frames_on info (slot_at vm) (k + frame_size f) (drop (k + frame_size f) (vm_stack vm)) prev []"
    using Nil.prems(2,3) by (rule frames_on_ConsE)
  note reads = frame_reads [OF Nil.prems(1) p(1) Nil.prems(3) p(3,4)] frame_slices [OF Nil.prems(1) p(1) Nil.prems(3) p(3,4)]
  then show ?case using p(5) n
    by (simp add: visit_simple_pointers_def frame_function_def previous_frame_def frame_roots_def)
qed

lemma frames_fit: "length fs \<le> stack_used fs"
  by (induction fs) (auto simp: frame_size_def)

text \<open>
  C15: the collector finds everything on the stack: walking the stack for roots ends and visits, for every
  frame from the current one to the first, its function, receiver, arguments (those added for missing
  parameters too), all its registers, its closure, constants and scope, and nothing else.
\<close>

theorem stack_roots_complete:
  assumes "stack_is info vm fs"
  shows "visit_roots info vm = Some (concat (map (frame_roots info) fs))"
proof -
  obtain k where k: "stack_used fs \<le> length (vm_stack vm)" "stack_in_memory vm" "k \<le> length (vm_stack vm)"
      "frames_on info (slot_at vm) k (drop k (vm_stack vm)) (vm_fp vm) fs"
    using assms by (rule stack_isE) blast
  show ?thesis
  proof (cases fs)
    case Nil
    then show ?thesis using k(4) by (simp add: visit_roots_def is_executing_def)
  next
    case (Cons f gs)
    have "length gs < length (vm_stack vm)" using frames_fit [of fs] k(1) Cons by simp
    note visit_frames_on [OF k(2) k(4) [unfolded Cons] k(3) this]
    moreover have "vm_fp vm \<noteq> 0" using frames_on_null [OF k(2,4,3)] Cons by simp
    ultimately show ?thesis by (simp add: Cons visit_roots_def is_executing_def frame_roots_def)
  qed
qed

theorem stack_roots_complete_witness:
  "\<exists>vm. push_stack_frame sample_info 7 8 [9] 1 True 0 sample_vm = Some (vm, Inr ()) \<and>
     visit_roots sample_info vm = Some [290, 8, 9, value_undefined, value_undefined, 7, 200, 100]"
proof -
  obtain vm1 vm2 f g where s: "push_stack_frame sample_info 7 8 [9] 1 True 0 sample_vm = Some (vm1, Inr ())"
    "g = new_frame sample_info 7 8 [9] True 0 50" "stack_is sample_info vm1 [g]" by (rule sample_calls)
  have "concat (map (frame_roots sample_info) [g]) = [290, 8, 9, value_undefined, value_undefined, 7, 200, 100]"
    unfolding s(2) new_frame_def sample_info_def by code_simp
  then show ?thesis using stack_roots_complete [OF s(3)] s(1) by metis
qed

subsection \<open>Nested calls\<close>

text \<open>The machine as a stack of frames at a fixed place in memory, above the addresses that a frame could reach below it.\<close>

definition vm_holds :: "(u64 \<Rightarrow> function_info) \<Rightarrow> u64 \<Rightarrow> nat \<Rightarrow> vm \<Rightarrow> frame list \<Rightarrow> bool" where
  "vm_holds info b n vm fs \<longleftrightarrow>
     stack_is info vm fs \<and> \<not> bit (vm_pc vm) 63 \<and> vm_base vm = b \<and> length (vm_stack vm) = n \<and> 2 ^ 40 \<le> unat b"

type_synonym call_args = "u64 \<times> u64 \<times> u64 list \<times> bool \<times> u64"

definition vm_call :: "(u64 \<Rightarrow> function_info) \<Rightarrow> call_args \<Rightarrow> vm \<Rightarrow> (vm \<times> (call_error + unit)) option" where
  "vm_call info c vm = (case c of (closure, receiver, args_rev, rust, ret) \<Rightarrow>
     push_stack_frame info closure receiver args_rev (length args_rev) rust ret vm)"

definition call_ok :: "(u64 \<Rightarrow> function_info) \<Rightarrow> call_args \<Rightarrow> bool" where
  "call_ok info c \<longleftrightarrow> (case c of (closure, _, args_rev, _, _) \<Rightarrow>
     length args_rev < 2 ^ 32 \<and> \<not> bit (bytecode_ptr (info closure)) 63)"

lemma new_frame_small:
  assumes "length args_rev < 2 ^ 32"
  shows "8 * frame_size (new_frame info c r args_rev rust ret pc) < 2 ^ 40"
proof -
  have "unat (num_parameters (info c)) < 2 ^ 32" "unat (num_registers (info c)) < 2 ^ 32"
    using unsigned_less [of "num_parameters (info c)", where ?'a = nat] unsigned_less [of "num_registers (info c)", where ?'a = nat] by simp_all
  then show ?thesis using assms by (simp add: new_frame_size max_def)
qed

lemma vm_call_adds:
  assumes h: "vm_holds info b n vm fs" and ok: "call_ok info c"
  shows "(\<exists>vm' f. vm_call info c vm = Some (vm', Inr ()) \<and> vm_holds info b n vm' (f # fs) \<and> fr_return_address f = vm_pc vm) \<or>
     (\<exists>e. vm_call info c vm = Some (vm, Inl e))"
proof -
  obtain closure receiver args_rev rust ret where c: "c = (closure, receiver, args_rev, rust, ret)" by (cases c) auto
  let ?f = "new_frame info closure receiver args_rev rust ret (vm_pc vm)"
  have args: "length args_rev < 2 ^ 32" "\<not> bit (bytecode_ptr (info closure)) 63" using ok by (simp_all add: call_ok_def c)
  have st: "stack_is info vm fs" "\<not> bit (vm_pc vm) 63" "vm_base vm = b" "length (vm_stack vm) = n" "2 ^ 40 \<le> unat b"
    using h by (simp_all add: vm_holds_def)
  have len: "length args_rev < 2 ^ 64" using args(1) by simp
  show ?thesis
  proof (cases "stack_used (?f # fs) \<le> length (vm_stack vm) \<and> length fs < MAX_STACK_DEPTH")
    case True
    then obtain vm' where "push_stack_frame info closure receiver args_rev (length args_rev) rust ret vm = Some (vm', Inr ())"
        "stack_is info vm' (?f # fs)" "vm_pc vm' = bytecode_ptr (info closure)" "vm_base vm' = vm_base vm" "length (vm_stack vm') = length (vm_stack vm)"
      using call_enters [OF st(1,2) len refl] by blast
    moreover have "fr_return_address ?f = vm_pc vm" by (simp add: new_frame_def)
    ultimately show ?thesis using st args(2) by (auto simp: vm_call_def c vm_holds_def)
  next
    case False
    have "8 * frame_size ?f \<le> unat (vm_sp vm)"
      using st(1) new_frame_small [OF args(1), of info closure receiver rust ret "vm_pc vm"] st(3,5)
      by (elim stack_isE) (simp add: unat_slot_at)
    then show ?thesis using call_overflows [OF st(1) refl] False by (auto simp: vm_call_def c not_le not_less)
  qed
qed

lemma vm_leave_removes:
  "vm_holds info b n vm (f # fs) \<Longrightarrow> \<exists>vm'. pop_stack_frame info vm = Some vm' \<and> vm_holds info b n vm' fs \<and> vm_pc vm' = fr_return_address f"
proof -
  assume h: "vm_holds info b n vm (f # fs)"
  then have "frame_shape info f" by (auto simp: vm_holds_def stack_is_def)
  then have "\<not> bit (fr_return_address f) 63" by (simp add: frame_shape_def)
  then show ?thesis using return_pops [of info vm f fs] h by (fastforce simp: vm_holds_def)
qed

interpretation cs: frame_stack "vm_holds info b n" "vm_call info" "pop_stack_frame info" "call_ok info" vm_pc fr_return_address
  by unfold_locales (rule vm_call_adds, assumption+, rule vm_leave_removes)

lemma stack_is_determines:
  assumes "stack_is info vm fs" "stack_is info vm' fs" "vm_base vm' = vm_base vm" "length (vm_stack vm') = length (vm_stack vm)"
  shows "vm_sp vm' = vm_sp vm" "vm_fp vm' = vm_fp vm"
proof -
  obtain k where k: "k = length (vm_stack vm) - stack_used fs" "vm_sp vm = slot_at vm k"
      "frames_on info (slot_at vm) k (drop k (vm_stack vm)) (vm_fp vm) fs" using assms(1) by (rule stack_isE)
  obtain k' where k': "k' = length (vm_stack vm') - stack_used fs" "vm_sp vm' = slot_at vm' k'"
      "frames_on info (slot_at vm') k' (drop k' (vm_stack vm')) (vm_fp vm') fs" using assms(2) by (rule stack_isE)
  have "k' = k" "slot_at vm' = slot_at vm" using k(1) k'(1) assms(3,4) by (simp_all add: slot_at_def [abs_def])
  then show "vm_sp vm' = vm_sp vm" "vm_fp vm' = vm_fp vm" using k k' frames_on_fun [OF k(3)] by auto
qed

text \<open>
  C14: nested calls never derail the machine: from any stack of frames, whatever tree of calls is made, with any
  closures and arguments, each call enters its function and each return leaves it, and in the end the frames, the
  three pointers and the next instruction are those from before, unless a call of the tree overflowed the stack.
\<close>

theorem nested_calls_return:
  assumes "stack_is info vm fs" "\<not> bit (vm_pc vm) 63" "2 ^ 40 \<le> unat (vm_base vm)" "activities_ok (call_ok info) as"
  shows "\<exists>vm' r. run_activities (vm_call info) (pop_stack_frame info) as vm = Some (vm', r) \<and>
     (r = Inr () \<longrightarrow> stack_is info vm' fs \<and> vm_pc vm' = vm_pc vm \<and> vm_sp vm' = vm_sp vm \<and> vm_fp vm' = vm_fp vm)"
proof -
  have h: "vm_holds info (vm_base vm) (length (vm_stack vm)) vm fs" using assms by (simp add: vm_holds_def)
  obtain vm' r where run: "run_activities (vm_call info) (pop_stack_frame info) as vm = Some (vm', r)"
      "r = Inr () \<longrightarrow> vm_holds info (vm_base vm) (length (vm_stack vm)) vm' fs \<and> vm_pc vm' = vm_pc vm"
    using cs.activities_come_back [OF h assms(4)] by blast
  then show ?thesis using stack_is_determines [OF assms(1), of vm'] by (auto simp: vm_holds_def)
qed

definition high_vm :: vm where
  "high_vm = reset_stack \<lparr>vm_pc = 50, vm_sp = 0, vm_fp = 0, vm_stack = replicate 30 0, vm_base = 2 ^ 41, num_stack_frames = 0\<rparr>"

theorem nested_calls_return_witness:
  "\<exists>vm' r. run_activities (vm_call sample_info) (pop_stack_frame sample_info)
       [Activity (7, 8, [9], True, 0) [Activity (7, 8, [], False, 0) []], Activity (7, 8, [], True, 0) []] high_vm = Some (vm', r) \<and>
     (r = Inr () \<longrightarrow> stack_is sample_info vm' [] \<and> vm_pc vm' = vm_pc high_vm \<and> vm_sp vm' = vm_sp high_vm \<and> vm_fp vm' = vm_fp high_vm)"
proof (rule nested_calls_return)
  show "stack_is sample_info high_vm []"
    unfolding stack_is_def
    by (auto simp: high_vm_def reset_stack_def stack_in_memory_def stack_ptr_end_def ptr_add_def slot_at_def intro!: exI [of _ 30])
qed (simp_all add: high_vm_def reset_stack_def call_ok_def sample_info_def)
end
