(* ===== verification/Exception_Handlers.thy ===== *)
theory Exception_Handlers
  imports Bytecode_Writer
begin

unbundle bit_operations_syntax

section \<open>Exception handler tables\<close>

text \<open>
  \<open>runtime/bytecode/exception_handlers.rs\<close>: the table of a function's handlers, written by the
  generator in the smallest width that fits all of its numbers and walked by the VM when an exception
  unwinds a frame (\<open>vm.rs\<close>, \<open>visit_frame_for_exception_unwinding\<close>). A pointer into the
  table is the list of the bytes from there to the end, and reading past the end is undefined
  behaviour, the value \<open>None\<close>.
\<close>

record handler_builder =
  h_start :: usize
  h_end :: usize
  h_handler :: usize
  h_error_register :: "gen_register option"

definition handler_new :: "usize \<Rightarrow> usize \<Rightarrow> handler_builder" where
  "handler_new start end = \<lparr>h_start = start, h_end = end, h_handler = 0, h_error_register = None\<rparr>"

record handlers_builder =
  hb_handlers :: "handler_builder list"
  hb_width :: width_enum

definition handlers_new :: handlers_builder where
  "handlers_new = \<lparr>hb_handlers = [], hb_width = Narrow\<rparr>"

definition handlers_add :: "handlers_builder \<Rightarrow> handler_builder \<Rightarrow> handlers_builder" where
  "handlers_add b h =
     (let width = max (max (max (hb_width b) (min_width_for_unsigned (unat (h_start h))))
                    (min_width_for_unsigned (unat (h_end h))))
                    (min_width_for_unsigned (unat (h_handler h)));
          width = (case h_error_register h of None \<Rightarrow> width
                   | Some reg \<Rightarrow> max width (operand_min_width Register_t reg))
      in b\<lparr>hb_width := width, hb_handlers := hb_handlers b @ [h]\<rparr>)"

definition usize_to_bytes :: "usize \<Rightarrow> u8 list" where
  "usize_to_bytes v =
     [ucast v, ucast (drop_bit 8 v), ucast (drop_bit 16 v), ucast (drop_bit 24 v),
      ucast (drop_bit 32 v), ucast (drop_bit 40 v), ucast (drop_bit 48 v), ucast (drop_bit 56 v)]"

primrec usize_from_bytes :: "u8 list \<Rightarrow> usize" where
  "usize_from_bytes [] = 0"
| "usize_from_bytes (b # bs) = ucast b OR push_bit 8 (usize_from_bytes bs)"

definition handler_operand :: "width_enum \<Rightarrow> usize \<Rightarrow> u8 list" where
  "handler_operand width v =
     (case width of Narrow \<Rightarrow> [ucast v] | Wide \<Rightarrow> u16_to_bytes (ucast v) | ExtraWide \<Rightarrow> usize_to_bytes v)"

definition handler_bytes :: "width_enum \<Rightarrow> handler_builder \<Rightarrow> u8 list" where
  "handler_bytes width h =
     handler_operand width (h_start h) @ handler_operand width (h_end h) @ handler_operand width (h_handler h) @
     handler_operand width (scast (case h_error_register h of None \<Rightarrow> reg_this | Some reg \<Rightarrow> reg))"

record handlers_table =
  ht_width :: width_enum
  ht_handlers :: "u8 list"

definition handlers_finish :: "handlers_builder \<Rightarrow> handlers_table option" where
  "handlers_finish b =
     (if hb_handlers b = [] then None
      else Some \<lparr>ht_width = hb_width b, ht_handlers = concat (map (handler_bytes (hb_width b)) (hb_handlers b))\<rparr>)"

subsection \<open>Reading the table\<close>

definition get_value_at :: "width_enum \<Rightarrow> u8 list \<Rightarrow> nat \<Rightarrow> usize option" where
  "get_value_at width ptr index =
     (case width of
        Narrow \<Rightarrow> map_option ucast (byte_at ptr index)
      | Wide \<Rightarrow> do { a \<leftarrow> byte_at ptr (index * 2); b \<leftarrow> byte_at ptr (index * 2 + 1);
                     Some (ucast (u16_from_bytes a b)) }
      | ExtraWide \<Rightarrow> (if index * 8 + 8 \<le> length ptr then Some (usize_from_bytes (take 8 (drop (index * 8) ptr)))
                      else None))"

definition handler_error_register :: "width_enum \<Rightarrow> u8 list \<Rightarrow> gen_register option option" where
  "handler_error_register width ptr =
     do { raw \<leftarrow> (case width of
             Narrow \<Rightarrow> map_option scast (byte_at ptr 3)
           | Wide \<Rightarrow> do { a \<leftarrow> byte_at ptr 6; b \<leftarrow> byte_at ptr 7; Some (scast (u16_from_bytes a b)) }
           | ExtraWide \<Rightarrow> map_option ucast (get_value_at ExtraWide ptr 3));
          Some (if is_this raw then None else Some raw) }"

definition entry_size :: "width_enum \<Rightarrow> nat" where
  "entry_size width = (case width of Narrow \<Rightarrow> 1 | Wide \<Rightarrow> 2 | ExtraWide \<Rightarrow> 4)"

text \<open>\<open>ExceptionStackRootrsIterator::next\<close>: the view and the next position, which must not pass the end.\<close>

definition handlers_next :: "width_enum \<Rightarrow> u8 list \<Rightarrow> (u8 list \<times> u8 list) option option" where
  "handlers_next width current =
     (if current = [] then Some None
      else if length current < entry_size width * 4 then None
      else Some (Some (current, drop (entry_size width * 4) current)))"

definition view_handler :: "width_enum \<Rightarrow> u8 list \<Rightarrow> handler_builder option" where
  "view_handler width ptr =
     do { s \<leftarrow> get_value_at width ptr 0; e \<leftarrow> get_value_at width ptr 1; h \<leftarrow> get_value_at width ptr 2;
          r \<leftarrow> handler_error_register width ptr;
          Some \<lparr>h_start = s, h_end = e, h_handler = h, h_error_register = r\<rparr> }"

text \<open>
  The search of the VM for the innermost handler of a throwing instruction, given the offset just
  past it: the loop keeps the best view so far with its width, and the last one among equals.
\<close>

function innermost_loop ::
  "width_enum \<Rightarrow> usize \<Rightarrow> (u8 list \<times> usize) option \<Rightarrow> u8 list \<Rightarrow> (u8 list \<times> usize) option option" where
  "innermost_loop width instr_offset best current =
     (case handlers_next width current of
        None \<Rightarrow> None
      | Some None \<Rightarrow> Some best
      | Some (Some (view, rest)) \<Rightarrow>
          (case get_value_at width view 0 of None \<Rightarrow> None
           | Some start \<Rightarrow>
          (case get_value_at width view 1 of None \<Rightarrow> None
           | Some end \<Rightarrow>
               innermost_loop width instr_offset
                 (if start < instr_offset \<and> instr_offset \<le> end then
                    (let handler_width = end - start in
                     case best of
                       Some (b, min_width) \<Rightarrow> if min_width < handler_width then best else Some (view, handler_width)
                     | None \<Rightarrow> Some (view, handler_width))
                  else best)
                 rest)))"
  by pat_completeness auto
termination
  by (relation "measure (\<lambda>(_, _, _, c). length c)")
    (auto simp: handlers_next_def entry_size_def split: if_splits width_enum.splits)

declare innermost_loop.simps [simp del]

text \<open>Where execution continues in the frame and the register that gets the error.\<close>

definition visit_frame_handler :: "handlers_table option \<Rightarrow> usize \<Rightarrow> (usize \<times> gen_register option) option option" where
  "visit_frame_handler handlers instr_offset =
     (case handlers of None \<Rightarrow> Some None
      | Some t \<Rightarrow>
          do { best \<leftarrow> innermost_loop (ht_width t) instr_offset None (ht_handlers t);
               (case best of None \<Rightarrow> Some None
                | Some (view, _) \<Rightarrow>
                    do { h \<leftarrow> get_value_at (ht_width t) view 2; r \<leftarrow> handler_error_register (ht_width t) view;
                         Some (Some (h, r)) }) })"

subsection \<open>Entries are read as written\<close>

lemma ucast_small:
  fixes v :: usize
  assumes "unat v < 2 ^ LENGTH('w)"
  shows "(ucast (ucast v :: 'w::len word) :: usize) = v"
proof -
  have w: "unat (ucast v :: 'w word) = unat v" using assms by (simp add: unsigned_ucast_eq take_bit_nat_eq_self)
  have "unat v < 2 ^ LENGTH(64)" by (rule unsigned_less)
  then have "unat (ucast (ucast v :: 'w word) :: usize) = unat v"
    unfolding unsigned_ucast_eq [of "ucast v :: 'w word"] w by (simp add: take_bit_nat_eq_self)
  then show ?thesis by (simp only: word_unat_eq_iff)
qed

lemma usize_bytes_roundtrip: "usize_from_bytes (usize_to_bytes v) = v"
proof (rule bit_word_eqI)
  fix n assume n: "n < LENGTH(64)"
  have "n < 8 \<or> 8 \<le> n \<and> n < 16 \<or> 16 \<le> n \<and> n < 24 \<or> 24 \<le> n \<and> n < 32 \<or>
      32 \<le> n \<and> n < 40 \<or> 40 \<le> n \<and> n < 48 \<or> 48 \<le> n \<and> n < 56 \<or> 56 \<le> n" by linarith
  then show "bit (usize_from_bytes (usize_to_bytes v)) n = bit v n"
    using n by (elim disjE) (auto simp: usize_to_bytes_def bit_simps)
qed

lemma length_usize_to_bytes [simp]: "length (usize_to_bytes v) = 8"
  by (simp add: usize_to_bytes_def)

text \<open>A handler whose numbers fit a width, and whose register is not the sigil for none.\<close>

definition handler_fits :: "width_enum \<Rightarrow> handler_builder \<Rightarrow> bool" where
  "handler_fits width h \<longleftrightarrow>
     min_width_for_unsigned (unat (h_start h)) \<le> width \<and> min_width_for_unsigned (unat (h_end h)) \<le> width \<and>
     min_width_for_unsigned (unat (h_handler h)) \<le> width \<and>
     (case h_error_register h of None \<Rightarrow> True | Some reg \<Rightarrow> operand_min_width Register_t reg \<le> width)"

definition no_sigil :: "handler_builder \<Rightarrow> bool" where
  "no_sigil h \<longleftrightarrow> (case h_error_register h of None \<Rightarrow> True | Some reg \<Rightarrow> \<not> is_this reg)"

lemma min_width_unsigned_small:
  "min_width_for_unsigned u \<le> Narrow \<Longrightarrow> u < 2 ^ 8" "min_width_for_unsigned u \<le> Wide \<Longrightarrow> u < 2 ^ 16"
  by (auto simp: min_width_for_unsigned_def width_simps less_eq_width_enum_def split: if_splits)

lemma value_narrow: "min_width_for_unsigned (unat v) \<le> Narrow \<Longrightarrow> ucast (ucast v :: u8) = (v :: usize)"
  by (rule ucast_small) (use min_width_unsigned_small(1) in simp)

lemma value_wide: "min_width_for_unsigned (unat v) \<le> Wide \<Longrightarrow> ucast (ucast v :: u16) = (v :: usize)"
  by (rule ucast_small) (use min_width_unsigned_small(2) in simp)

lemma scast_of_sint:
  fixes a :: "'a::len word" and r :: u32
  assumes "sint a = sint r"
  shows "scast a = r"
proof -
  have "(scast a :: u32) = word_of_int (sint r)" unfolding scast_eq assms ..
  also have "\<dots> = scast r" by (rule scast_eq [symmetric])
  finally show ?thesis by (simp only: scast_id)
qed

lemma ucast_scast_u32: "LENGTH('w) \<le> 32 \<Longrightarrow> (ucast (scast (r :: u32) :: usize) :: 'w::len word) = ucast r"
proof (rule bit_word_eqI)
  fix n assume "LENGTH('w) \<le> 32" "n < LENGTH('w)"
  then have "n = 31 \<or> n < 31" by auto
  then show "bit (ucast (scast r :: usize) :: 'w word) n = bit (ucast r :: 'w word) n"
    by (auto simp: bit_simps min_def)
qed

lemma register_narrow:
  fixes r :: u32
  assumes "operand_min_width Register_t r \<le> Narrow"
  shows "scast (ucast (scast r :: usize) :: u8) = r"
  using operand_fits(1) [OF assms] sint_ucast_down [of r, where 'w = 8]
  by (intro scast_of_sint) (simp add: ucast_scast_u32 width_simps)

lemma register_wide:
  fixes r :: u32
  assumes "operand_min_width Register_t r \<le> Wide"
  shows "scast (ucast (scast r :: usize) :: u16) = r"
  using operand_fits(1) [OF assms] sint_ucast_down [of r, where 'w = 16]
  by (intro scast_of_sint) (simp add: ucast_scast_u32 width_simps)

lemma register_extra_wide: "ucast (scast (r :: u32) :: usize) = r"
  by (simp add: ucast_scast_u32)

lemma this_fits: "operand_min_width Register_t (reg_this :: u32) \<le> width" "is_this (reg_this :: u32)"
  by (cases width) (simp_all add: operand_min_width_def reg_this_def slot_indices min_width_for_signed_def
      width_simps less_eq_width_enum_def is_this_def)

definition written_register :: "handler_builder \<Rightarrow> u32" where
  "written_register h = (case h_error_register h of None \<Rightarrow> reg_this | Some reg \<Rightarrow> reg)"

lemma written_register_fits:
  "handler_fits width h \<Longrightarrow> operand_min_width Register_t (written_register h) \<le> width"
  by (auto simp: handler_fits_def written_register_def this_fits split: option.splits)

lemma written_register_back:
  "no_sigil h \<Longrightarrow> (if is_this (written_register h) then None else Some (written_register h)) = h_error_register h"
  by (auto simp: no_sigil_def written_register_def this_fits split: option.splits)

text \<open>What each of the four values of an entry reads as, at every width.\<close>

lemma usize_at:
  "get_value_at ExtraWide (concat (map usize_to_bytes vs) @ rest) i = Some (vs ! i)" if "i < length vs"
  using that
proof (induction vs arbitrary: i)
  case (Cons v vs)
  show ?case
  proof (cases i)
    case 0
    then show ?thesis by (simp add: get_value_at_def usize_bytes_roundtrip)
  next
    case (Suc j)
    have "get_value_at ExtraWide (usize_to_bytes v @ bs) (Suc j) = get_value_at ExtraWide bs j" for bs
      by (simp add: get_value_at_def)
    then show ?thesis using Cons Suc by simp
  qed
qed simp

lemma view_handler_bytes:
  assumes fits: "handler_fits width h" and reg: "no_sigil h"
  shows "view_handler width (handler_bytes width h @ rest) = Some h"
proof -
  have h: "\<lparr>h_start = h_start h, h_end = h_end h, h_handler = h_handler h, h_error_register = h_error_register h\<rparr> = h"
    by simp
  have b: "handler_bytes width h = concat (map (handler_operand width)
      [h_start h, h_end h, h_handler h, scast (written_register h)])"
    by (simp add: handler_bytes_def written_register_def)
  note vals = fits [unfolded handler_fits_def] written_register_fits [OF fits]
  show ?thesis
  proof (cases width)
    case Narrow
    then show ?thesis
      unfolding b using vals written_register_back [OF reg]
      by (simp add: view_handler_def handler_operand_def get_value_at_def handler_error_register_def byte_at_def
          value_narrow register_narrow)
  next
    case Wide
    then show ?thesis
      unfolding b using vals written_register_back [OF reg] u16_bytes_roundtrip
      by (simp add: view_handler_def handler_operand_def get_value_at_def handler_error_register_def byte_at_def
          u16_to_bytes_def value_wide register_wide)
  next
    case ExtraWide
    have "handler_operand ExtraWide = usize_to_bytes" by (simp add: fun_eq_iff handler_operand_def)
    then have e: "handler_bytes ExtraWide h = concat (map usize_to_bytes
        [h_start h, h_end h, h_handler h, scast (written_register h)])" using b ExtraWide by simp
    note at = usize_at [of _ "[h_start h, h_end h, h_handler h, scast (written_register h)]" rest, folded e]
    show ?thesis
      using at [of 0] at [of 1] at [of 2] at [of 3] written_register_back [OF reg] ExtraWide
      by (simp add: view_handler_def handler_error_register_def register_extra_wide)
  qed
qed

lemma length_handler_bytes:
  "length (handler_bytes width h) = (case width of Narrow \<Rightarrow> 4 | Wide \<Rightarrow> 8 | ExtraWide \<Rightarrow> 32)"
  by (cases width) (simp_all add: handler_bytes_def handler_operand_def u16_to_bytes_def)

subsection \<open>Whole tables\<close>

text \<open>All handlers of a table, in order, as the debug printer walks them.\<close>

function table_handlers :: "width_enum \<Rightarrow> u8 list \<Rightarrow> handler_builder list option" where
  "table_handlers width current =
     (case handlers_next width current of
        None \<Rightarrow> None
      | Some None \<Rightarrow> Some []
      | Some (Some (view, rest)) \<Rightarrow>
          (case view_handler width view of None \<Rightarrow> None
           | Some h \<Rightarrow> map_option (Cons h) (table_handlers width rest)))"
  by pat_completeness auto
termination
  by (relation "measure (\<lambda>(_, c). length c)")
    (auto simp: handlers_next_def entry_size_def split: if_splits width_enum.splits)

declare table_handlers.simps [simp del]

definition handler_decode :: "width_enum \<Rightarrow> u8 list \<Rightarrow> (handler_builder \<times> nat) option" where
  "handler_decode width buf =
     (if length buf < entry_size width * 4 then None
      else map_option (\<lambda>h. (h, entry_size width * 4)) (view_handler width buf))"

lemma handler_decode_bytes:
  assumes "width \<noteq> ExtraWide" "handler_fits width h \<and> no_sigil h"
  shows "handler_decode width (handler_bytes width h @ rest) = Some (h, length (handler_bytes width h))"
proof -
  have "length (handler_bytes width h) = entry_size width * 4"
    using assms(1) by (cases width) (simp_all add: length_handler_bytes entry_size_def)
  then show ?thesis using view_handler_bytes [of width h rest] assms(2) by (simp add: handler_decode_def)
qed

lemma table_handlers_step:
  "handler_decode width buf = Some (h, n) \<Longrightarrow> buf \<noteq> [] \<Longrightarrow>
     table_handlers width buf = map_option (Cons h) (table_handlers width (drop n buf))"
  by (auto simp: handler_decode_def table_handlers.simps [of width buf] handlers_next_def split: if_splits)

lemma handler_bytes_nonempty: "handler_bytes width h \<noteq> []"
  using length_handler_bytes [of width h] by (cases width) auto

lemma table_handlers_Nil: "table_handlers width [] = Some []"
  by (simp add: table_handlers.simps handlers_next_def)

interpretation eh_narrow: codec_loop "handler_bytes Narrow" "handler_decode Narrow"
    "\<lambda>h. handler_fits Narrow h \<and> no_sigil h" "table_handlers Narrow"
  by unfold_locales (simp_all add: handler_decode_bytes handler_bytes_nonempty table_handlers_Nil table_handlers_step)

interpretation eh_wide: codec_loop "handler_bytes Wide" "handler_decode Wide"
    "\<lambda>h. handler_fits Wide h \<and> no_sigil h" "table_handlers Wide"
  by unfold_locales (simp_all add: handler_decode_bytes handler_bytes_nonempty table_handlers_Nil table_handlers_step)

lemma handler_fits_mono: "handler_fits w h \<Longrightarrow> w \<le> w' \<Longrightarrow> handler_fits w' h"
  by (auto simp: handler_fits_def split: option.splits)

lemma hb_handlers_add [simp]: "hb_handlers (handlers_add b h) = hb_handlers b @ [h]"
  by (simp add: handlers_add_def Let_def)

lemma handlers_add_width: "handler_fits (hb_width (handlers_add b h)) h" "hb_width b \<le> hb_width (handlers_add b h)"
  by (auto simp: handlers_add_def handler_fits_def Let_def le_max_iff_disj split: option.splits)

lemma handlers_add_fits:
  assumes "\<forall>x \<in> set (hb_handlers b). handler_fits (hb_width b) x"
  shows "\<forall>x \<in> set (hb_handlers (handlers_add b h)). handler_fits (hb_width (handlers_add b h)) x"
  using assms handlers_add_width [of b h] handler_fits_mono by auto

definition build_handlers :: "handler_builder list \<Rightarrow> handlers_builder" where
  "build_handlers hs = foldl handlers_add handlers_new hs"

lemma build_handlers:
  "hb_handlers (build_handlers hs) = hs \<and> (\<forall>h \<in> set hs. handler_fits (hb_width (build_handlers hs)) h)"
proof (induction hs rule: rev_induct)
  case Nil
  then show ?case by (simp add: build_handlers_def handlers_new_def)
next
  case (snoc h hs)
  have "build_handlers (hs @ [h]) = handlers_add (build_handlers hs) h" by (simp add: build_handlers_def)
  then show ?case
    using snoc handlers_add_fits [of "build_handlers hs" h] by simp
qed

text \<open>
  The handlers that the generator adds to a table are read back from it in order, each with its
  range, target and error register, whenever one or two bytes per number are enough.
\<close>

theorem handlers_table_roundtrip:
  assumes "hs \<noteq> []" "\<forall>h \<in> set hs. no_sigil h" "hb_width (build_handlers hs) \<noteq> ExtraWide"
  shows "\<exists>t. handlers_finish (build_handlers hs) = Some t \<and> table_handlers (ht_width t) (ht_handlers t) = Some hs"
  using assms build_handlers [of hs] eh_narrow.collect_concat [of hs] eh_wide.collect_concat [of hs]
  by (cases "hb_width (build_handlers hs)") (simp_all add: handlers_finish_def list_all_iff)

definition sample_handler :: handler_builder where
  "sample_handler = \<lparr>h_start = 3, h_end = 300, h_handler = 310, h_error_register = Some (reg_local 2)\<rparr>"

lemma sample_handler: "no_sigil sample_handler" "hb_width (build_handlers [sample_handler]) = Wide"
  by (simp_all add: sample_handler_def no_sigil_def is_this_def reg_local_def encode_local_register_def slot_indices
      build_handlers_def handlers_add_def handlers_new_def Let_def min_width_for_unsigned_def width_simps
      operand_min_width_def min_width_for_signed_def max_def less_eq_width_enum_def)

theorem handlers_table_roundtrip_witness:
  "\<exists>t. handlers_finish (build_handlers [sample_handler]) = Some t \<and>
       table_handlers (ht_width t) (ht_handlers t) = Some [sample_handler]"
  using handlers_table_roundtrip [of "[sample_handler]"] sample_handler by simp

subsection \<open>The search for a handler\<close>

definition covers :: "usize \<Rightarrow> handler_builder \<Rightarrow> bool" where
  "covers off h \<longleftrightarrow> h_start h < off \<and> off \<le> h_end h"

definition range_width :: "handler_builder \<Rightarrow> usize" where
  "range_width h = h_end h - h_start h"

definition better :: "usize \<Rightarrow> handler_builder option \<Rightarrow> handler_builder \<Rightarrow> handler_builder option" where
  "better off best h =
     (if covers off h then
        (case best of Some b \<Rightarrow> if range_width b < range_width h then best else Some h | None \<Rightarrow> Some h)
      else best)"

text \<open>A view of the loop stands for a handler of the table.\<close>

definition best_views :: "width_enum \<Rightarrow> (u8 list \<times> usize) option \<Rightarrow> handler_builder option \<Rightarrow> bool" where
  "best_views width best h \<longleftrightarrow>
     (case (best, h) of
        (None, None) \<Rightarrow> True
      | (Some (view, w), Some h) \<Rightarrow> view_handler width view = Some h \<and> w = range_width h
      | _ \<Rightarrow> False)"

lemma view_handler_values:
  assumes "view_handler width view = Some h"
  shows "get_value_at width view 0 = Some (h_start h)" "get_value_at width view 1 = Some (h_end h)"
    "get_value_at width view 2 = Some (h_handler h)" "handler_error_register width view = Some (h_error_register h)"
  using assms by (auto simp: view_handler_def bind_eq_Some_iff)

lemma innermost_loop_entry:
  assumes "width \<noteq> ExtraWide" "handler_fits width h" "no_sigil h"
  shows "innermost_loop width off best (handler_bytes width h @ rest) =
           innermost_loop width off
             (if covers off h then
                (case best of Some (b, w) \<Rightarrow> if w < range_width h then best else Some (handler_bytes width h @ rest, range_width h)
                 | None \<Rightarrow> Some (handler_bytes width h @ rest, range_width h))
              else best) rest"
proof -
  have "length (handler_bytes width h) = entry_size width * 4"
    using assms(1) by (cases width) (simp_all add: length_handler_bytes entry_size_def)
  then have "handlers_next width (handler_bytes width h @ rest) = Some (Some (handler_bytes width h @ rest, rest))"
    using handler_bytes_nonempty by (simp add: handlers_next_def)
  then show ?thesis
    using view_handler_values [OF view_handler_bytes [OF assms(2,3), of rest]]
    by (cases best; cases "covers off h")
      (auto simp: innermost_loop.simps [of width off _ "handler_bytes width h @ rest"] covers_def range_width_def Let_def)
qed

lemma innermost_loop_table:
  assumes "width \<noteq> ExtraWide" "\<forall>h \<in> set hs. handler_fits width h \<and> no_sigil h" "best_views width best b"
  shows "\<exists>best'. innermost_loop width off best (concat (map (handler_bytes width) hs)) = Some best' \<and>
           best_views width best' (foldl (better off) b hs)"
  using assms
proof (induction hs arbitrary: best b)
  case Nil
  then show ?case by (simp add: innermost_loop.simps handlers_next_def)
next
  case (Cons h hs)
  let ?view = "handler_bytes width h @ concat (map (handler_bytes width) hs)"
  have "view_handler width ?view = Some h" using Cons.prems(2) by (intro view_handler_bytes) simp_all
  then have "best_views width (if covers off h then
      (case best of Some (b, w) \<Rightarrow> if w < range_width h then best else Some (?view, range_width h)
       | None \<Rightarrow> Some (?view, range_width h)) else best) (better off b h)"
    using Cons.prems(3) by (auto simp: best_views_def better_def split: option.splits)
  then show ?case using Cons.IH Cons.prems innermost_loop_entry [of width h off best] by simp
qed

definition is_innermost :: "usize \<Rightarrow> handler_builder list \<Rightarrow> handler_builder option \<Rightarrow> bool" where
  "is_innermost off hs best \<longleftrightarrow>
     (case best of
        None \<Rightarrow> \<forall>h \<in> set hs. \<not> covers off h
      | Some h \<Rightarrow> h \<in> set hs \<and> covers off h \<and>
          (\<forall>h' \<in> set hs. covers off h' \<longrightarrow> range_width h \<le> range_width h'))"

lemma is_innermost_better:
  assumes "is_innermost off hs best"
  shows "is_innermost off (hs @ [h]) (better off best h)"
proof (cases best)
  case None
  then show ?thesis using assms by (simp add: is_innermost_def better_def)
next
  case (Some b)
  have b: "b \<in> set hs" "covers off b" "\<forall>h' \<in> set hs. covers off h' \<longrightarrow> range_width b \<le> range_width h'"
    using assms unfolding Some is_innermost_def option.case by blast+
  show ?thesis
  proof (cases "covers off h \<and> range_width h \<le> range_width b")
    case True
    then have "better off best h = Some h" unfolding better_def Some by (simp add: leD)
    moreover have "\<forall>h' \<in> set hs. covers off h' \<longrightarrow> range_width h \<le> range_width h'"
      using True b(3) order_trans by blast
    ultimately show ?thesis using True unfolding is_innermost_def by simp
  next
    case False
    then have "better off best h = Some b" unfolding better_def Some by (auto simp only: option.case not_le split: if_splits)
    moreover have "covers off h \<longrightarrow> range_width b \<le> range_width h" using False linear by blast
    ultimately show ?thesis using b unfolding is_innermost_def by simp
  qed
qed

lemma is_innermost_fold: "is_innermost off hs (foldl (better off) None hs)"
proof (induction hs rule: rev_induct)
  case Nil
  then show ?case by (simp add: is_innermost_def)
next
  case (snoc h hs)
  from is_innermost_better [OF this] show ?case by simp
qed

text \<open>
  When an exception unwinds a frame, the VM continues at the innermost handler: the one of the
  function's handlers that covers the throwing instruction with the smallest range, or none when no
  handler covers it; the search stays inside the table.
\<close>

theorem innermost_handler:
  assumes "\<forall>h \<in> set hs. no_sigil h" "hb_width (build_handlers hs) \<noteq> ExtraWide"
  shows "\<exists>best. visit_frame_handler (handlers_finish (build_handlers hs)) off =
             Some (map_option (\<lambda>h. (h_handler h, h_error_register h)) best) \<and> is_innermost off hs best"
proof (cases "hs = []")
  case True
  then have "visit_frame_handler (handlers_finish (build_handlers hs)) off = Some None"
    by (simp add: build_handlers_def handlers_finish_def handlers_new_def visit_frame_handler_def)
  then show ?thesis using True by (intro exI [of _ None]) (simp add: is_innermost_def)
next
  case False
  let ?w = "hb_width (build_handlers hs)" and ?best = "foldl (better off) None hs"
  have fin: "handlers_finish (build_handlers hs) =
      Some \<lparr>ht_width = ?w, ht_handlers = concat (map (handler_bytes ?w) hs)\<rparr>"
    using False build_handlers [of hs] by (simp add: handlers_finish_def)
  obtain best' where b: "innermost_loop ?w off None (concat (map (handler_bytes ?w) hs)) = Some best'"
      "best_views ?w best' ?best"
    using innermost_loop_table [of ?w hs None None off] assms build_handlers [of hs] by (auto simp: best_views_def)
  have "visit_frame_handler (handlers_finish (build_handlers hs)) off =
      Some (map_option (\<lambda>h. (h_handler h, h_error_register h)) ?best)"
    using b view_handler_values by (auto simp: fin visit_frame_handler_def best_views_def split: option.splits)
  then show ?thesis using is_innermost_fold by blast
qed

theorem innermost_handler_witness:
  "visit_frame_handler (handlers_finish (build_handlers [sample_handler])) 8 = Some (Some (310, Some (reg_local 2)))"
proof -
  have "covers 8 sample_handler" by (simp add: covers_def sample_handler_def)
  then show ?thesis
    using innermost_handler [of "[sample_handler]" 8] sample_handler
    by (auto simp: is_innermost_def sample_handler_def split: option.splits)
qed


end
