(* ===== verification/Unwinding.thy ===== *)
theory Unwinding
  imports Call_Stack Exception_Handlers
begin

section \<open>Unwinding the stack to an exception handler\<close>

text \<open>
  The \<open>throw!\<close> macro of the interpreter loop and \<open>visit_frame_for_exception_unwinding\<close>
  (\<open>bytecode/vm.rs\<close>) on the call stack of \<^theory_text>\<open>Call_Stack\<close>, with the handler tables of
  \<^theory_text>\<open>Exception_Handlers\<close>. The table of a closure's function is the parameter \<open>handlers\<close>.
  The loop is bounded by the number of frames.
\<close>

datatype thrown = Handled vm | Returned_error vm

text \<open>Whether the frame has a handler for the instruction that ends at an address; if so, execution moves there.\<close>

definition visit_frame_for_exception_unwinding ::
  "(u64 \<Rightarrow> function_info) \<Rightarrow> (u64 \<Rightarrow> handlers_table option) \<Rightarrow> u64 \<Rightarrow> u64 \<Rightarrow> u64 \<Rightarrow> vm \<Rightarrow> (vm \<times> bool) option" where
  "visit_frame_for_exception_unwinding info handlers fp instr_addr error_value vm =
     do { c \<leftarrow> frame_closure vm fp;
          handler \<leftarrow> visit_frame_handler (handlers c) (instr_addr - bytecode_ptr (info c));
          (case handler of
             None \<Rightarrow> Some (vm, False)
           | Some (offset, error_register) \<Rightarrow>
               do { sp \<leftarrow> frame_sp info vm fp;
                    let vm = vm\<lparr>vm_pc := bytecode_ptr (info c) + offset, vm_fp := fp, vm_sp := sp\<rparr> in
                    do { vm \<leftarrow> (case error_register of None \<Rightarrow> Some vm | Some r \<Rightarrow> write_register r error_value vm);
                         Some (vm, True) } }) }"

fun throw_loop ::
  "(u64 \<Rightarrow> function_info) \<Rightarrow> (u64 \<Rightarrow> handlers_table option) \<Rightarrow> u64 \<Rightarrow> nat \<Rightarrow> u64 \<Rightarrow> vm \<Rightarrow> thrown option" where
  "throw_loop info handlers error_value 0 fp vm = None"
| "throw_loop info handlers error_value (Suc n) fp vm =
     do { prev \<leftarrow> previous_frame vm fp;
          (case prev of
             None \<Rightarrow> Some (Returned_error (reset_stack vm))
           | Some caller \<Rightarrow>
               if num_stack_frames vm = 0 then None else
               let vm = vm\<lparr>num_stack_frames := num_stack_frames vm - 1\<rparr> in
               do { rust \<leftarrow> is_rust_caller vm fp;
                    address \<leftarrow> return_address vm fp;
                    if rust then
                      do { sp \<leftarrow> frame_sp info vm caller;
                           Some (Returned_error (vm\<lparr>vm_pc := address, vm_fp := caller, vm_sp := sp\<rparr>)) }
                    else
                      do { (vm, found) \<leftarrow> visit_frame_for_exception_unwinding info handlers caller address error_value vm;
                           if found then Some (Handled vm)
                           else throw_loop info handlers error_value n caller vm } }) }"

definition throw :: "(u64 \<Rightarrow> function_info) \<Rightarrow> (u64 \<Rightarrow> handlers_table option) \<Rightarrow> u64 \<Rightarrow> vm \<Rightarrow> thrown option" where
  "throw info handlers error_value vm =
     do { (vm, found) \<leftarrow> visit_frame_for_exception_unwinding info handlers (vm_fp vm) (vm_pc vm) error_value vm;
          if found then Some (Handled vm)
          else throw_loop info handlers error_value (num_stack_frames vm) (vm_fp vm) vm }"

subsection \<open>Specification\<close>

text \<open>
  An exception raised at \<open>pc\<close> in the first of the frames is caught by the innermost handler that
  covers the place, in the nearest frame that has one, unless a call from Rust lies in between: that call
  gets the error. \<open>hs\<close> gives the handlers of each closure's function.
\<close>

definition store_error :: "gen_register option \<Rightarrow> u64 \<Rightarrow> frame \<Rightarrow> frame" where
  "store_error r error_value f =
     (case r of None \<Rightarrow> f | Some r \<Rightarrow> f\<lparr>fr_registers := (fr_registers f)[local_index r := error_value]\<rparr>)"

inductive unwinds ::
  "(u64 \<Rightarrow> function_info) \<Rightarrow> (u64 \<Rightarrow> handler_builder list) \<Rightarrow> u64 \<Rightarrow> u64 \<Rightarrow> frame list \<Rightarrow> bool \<Rightarrow> u64 option \<Rightarrow> frame list \<Rightarrow> bool"
  for info :: "u64 \<Rightarrow> function_info" and hs :: "u64 \<Rightarrow> handler_builder list" and error_value :: u64 where
  caught: "is_innermost (pc - bytecode_ptr (info (fr_closure f))) (hs (fr_closure f)) (Some h) \<Longrightarrow>
     unwinds info hs error_value pc (f # fs) True (Some (bytecode_ptr (info (fr_closure f)) + h_handler h))
       (store_error (h_error_register h) error_value f # fs)"
| to_rust: "is_innermost (pc - bytecode_ptr (info (fr_closure f))) (hs (fr_closure f)) None \<Longrightarrow> fr_rust_caller f \<Longrightarrow>
     unwinds info hs error_value pc (f # g # fs) False (Some (fr_return_address f)) (g # fs)"
| to_caller: "is_innermost (pc - bytecode_ptr (info (fr_closure f))) (hs (fr_closure f)) None \<Longrightarrow> \<not> fr_rust_caller f \<Longrightarrow>
     unwinds info hs error_value (fr_return_address f) (g # fs) handled pc' fs' \<Longrightarrow>
     unwinds info hs error_value pc (f # g # fs) handled pc' fs'"
| uncaught: "is_innermost (pc - bytecode_ptr (info (fr_closure f))) (hs (fr_closure f)) None \<Longrightarrow>
     unwinds info hs error_value pc [f] False None []"

definition thrown_is :: "(u64 \<Rightarrow> function_info) \<Rightarrow> thrown \<Rightarrow> bool \<Rightarrow> u64 option \<Rightarrow> frame list \<Rightarrow> bool" where
  "thrown_is info t handled pc fs \<longleftrightarrow>
     (case t of Handled vm \<Rightarrow> handled \<and> stack_is info vm fs \<and> pc = Some (vm_pc vm)
      | Returned_error vm \<Rightarrow> \<not> handled \<and> stack_is info vm fs \<and> (\<forall>a. pc = Some a \<longrightarrow> vm_pc vm = a))"

text \<open>The handlers of every function are in a table of narrow or wide entries and name registers of the function.\<close>

definition handlers_ok :: "(u64 \<Rightarrow> function_info) \<Rightarrow> (u64 \<Rightarrow> handler_builder list) \<Rightarrow> bool" where
  "handlers_ok info hs \<longleftrightarrow>
     (\<forall>c. hb_width (build_handlers (hs c)) \<noteq> ExtraWide \<and>
       (\<forall>h \<in> set (hs c). no_sigil h \<and>
         (\<forall>r. h_error_register h = Some r \<longrightarrow>
           (\<exists>i < unat (num_registers (info c)). i \<le> MAX_LOCAL_INDEX 32 \<and> r = reg_local i))))"

definition handlers_of :: "(u64 \<Rightarrow> handler_builder list) \<Rightarrow> u64 \<Rightarrow> handlers_table option" where
  "handlers_of hs c = handlers_finish (build_handlers (hs c))"

subsection \<open>One frame\<close>

text \<open>Making a frame of the stack the current one.\<close>

lemma current_frame:
  assumes "stack_in_memory vm" "frames_on info (slot_at vm) k (drop k (vm_stack vm)) fp (f # fs)" "k \<le> length (vm_stack vm)"
    "num_stack_frames vm = length (f # fs)"
  shows "frame_closure vm fp = Some (fr_closure f)" "frame_sp info vm fp = Some (slot_at vm k)"
    "stack_is info (vm\<lparr>vm_pc := pc, vm_fp := fp, vm_sp := slot_at vm k\<rparr>) (f # fs)"
proof -
  obtain prev where p: "drop k (vm_stack vm) = frame_words f prev @ drop (k + frame_size f) (vm_stack vm)"
    "fp = slot_at vm (k + length (fr_registers f))" "frame_shape info f" using assms(2,3) by (rule frames_on_ConsE)
  show c: "frame_closure vm fp = Some (fr_closure f)" by (rule frame_reads(7) [OF assms(1) p(1) assms(3) p(2,3)])
  show "frame_sp info vm fp = Some (slot_at vm k)" using p(3) by (simp add: frame_sp_def c) (simp add: p(2) frame_shape_def ptr_arith)
  show "stack_is info (vm\<lparr>vm_pc := pc, vm_fp := fp, vm_sp := slot_at vm k\<rparr>) (f # fs)"
    using assms unfolding stack_is_def
    by (intro conjI exI [of _ k]) (simp_all add: stack_in_memory_def slot_at_def [abs_def] del: frames_on.simps)
qed

lemma visit_frame_correct:
  assumes hs: "handlers_ok info hs" and ok: "stack_in_memory vm" "frames_on info (slot_at vm) k (drop k (vm_stack vm)) fp (f # fs)"
    "k \<le> length (vm_stack vm)" "num_stack_frames vm = length (f # fs)"
  shows "(visit_frame_for_exception_unwinding info (handlers_of hs) fp pc error_value vm = Some (vm, False) \<and>
       is_innermost (pc - bytecode_ptr (info (fr_closure f))) (hs (fr_closure f)) None) \<or>
     (\<exists>h vm'. visit_frame_for_exception_unwinding info (handlers_of hs) fp pc error_value vm = Some (vm', True) \<and>
       is_innermost (pc - bytecode_ptr (info (fr_closure f))) (hs (fr_closure f)) (Some h) \<and>
       vm_pc vm' = bytecode_ptr (info (fr_closure f)) + h_handler h \<and>
       stack_is info vm' (store_error (h_error_register h) error_value f # fs))"
proof -
  let ?c = "fr_closure f" and ?off = "pc - bytecode_ptr (info (fr_closure f))"
  note cur = current_frame [OF ok]
  have hs': "\<forall>h \<in> set (hs ?c). no_sigil h" "hb_width (build_handlers (hs ?c)) \<noteq> ExtraWide"
    using hs unfolding handlers_ok_def by blast+
  obtain best where best: "visit_frame_handler (handlers_of hs ?c) ?off = Some (map_option (\<lambda>h. (h_handler h, h_error_register h)) best)"
    "is_innermost ?off (hs ?c) best" using innermost_handler [OF hs'] by (auto simp: handlers_of_def)
  show ?thesis
  proof (cases best)
    case None
    then show ?thesis using best by (simp add: visit_frame_for_exception_unwinding_def cur(1))
  next
    case (Some h)
    let ?vm = "vm\<lparr>vm_pc := bytecode_ptr (info ?c) + h_handler h, vm_fp := fp, vm_sp := slot_at vm k\<rparr>"
    have st: "stack_is info ?vm (f # fs)" by (rule cur(3))
    have "\<exists>vm'. (case h_error_register h of None \<Rightarrow> Some ?vm | Some r \<Rightarrow> write_register r error_value ?vm) = Some vm' \<and>
        vm_pc vm' = vm_pc ?vm \<and> stack_is info vm' (store_error (h_error_register h) error_value f # fs)"
    proof (cases "h_error_register h")
      case (Some r)
      have "h \<in> set (hs ?c)" using best(2) \<open>best = Some h\<close> by (simp add: is_innermost_def)
      then obtain i where i: "i < unat (num_registers (info ?c))" "i \<le> MAX_LOCAL_INDEX 32" "r = reg_local i"
        using hs Some unfolding handlers_ok_def by blast
      have "frame_shape info f" using ok(2) by simp
      then have "i < length (fr_registers f)" using i(1) by (simp add: frame_shape_def)
      from register_accesses(2) [OF st this i(2), of error_value] obtain vm'
        where "write_register (reg_local i) error_value ?vm = Some vm'" "vm_pc vm' = vm_pc ?vm"
          "stack_is info vm' (f\<lparr>fr_registers := (fr_registers f)[i := error_value]\<rparr> # fs)" by blast
      then show ?thesis using Some i by (simp add: store_error_def local_index_u32)
    qed (use st in \<open>simp add: store_error_def\<close>)
    then show ?thesis
      using best Some by (auto simp: visit_frame_for_exception_unwinding_def cur(1,2))
  qed
qed


subsection \<open>The whole stack\<close>

lemma reset_stack_is: "stack_in_memory vm \<Longrightarrow> stack_is info (reset_stack vm) []"
  unfolding stack_is_def
  by (intro conjI exI [of _ "length (vm_stack vm)"]) (simp_all add: reset_stack_def stack_in_memory_def stack_ptr_end_def slot_at_def)

text \<open>The view from a frame to its caller.\<close>

lemma leave_frame:
  assumes ok: "stack_in_memory vm" and fs: "frames_on info (slot_at vm) k (drop k (vm_stack vm)) fp (f # g # fs)"
    and k: "k \<le> length (vm_stack vm)" and n: "num_stack_frames vm = length (f # g # fs)"
  obtains prev k' where "stack_in_memory (vm\<lparr>num_stack_frames := num_stack_frames vm - 1\<rparr>)"
    "frames_on info (slot_at (vm\<lparr>num_stack_frames := num_stack_frames vm - 1\<rparr>)) k'
       (drop k' (vm_stack (vm\<lparr>num_stack_frames := num_stack_frames vm - 1\<rparr>))) prev (g # fs)"
    "k' \<le> length (vm_stack (vm\<lparr>num_stack_frames := num_stack_frames vm - 1\<rparr>))"
    "num_stack_frames (vm\<lparr>num_stack_frames := num_stack_frames vm - 1\<rparr>) = length (g # fs)"
    "previous_frame vm fp = Some (Some prev)"
    "is_rust_caller (vm\<lparr>num_stack_frames := num_stack_frames vm - 1\<rparr>) fp = Some (fr_rust_caller f)"
    "return_address (vm\<lparr>num_stack_frames := num_stack_frames vm - 1\<rparr>) fp = Some (fr_return_address f)"
    "num_stack_frames vm \<noteq> 0"
proof -
  obtain prev where p: "drop k (vm_stack vm) = frame_words f prev @ drop (k + frame_size f) (vm_stack vm)"
    "k + frame_size f \<le> length (vm_stack vm)" "fp = slot_at vm (k + length (fr_registers f))" "frame_shape info f"
    "frames_on info (slot_at vm) (k + frame_size f) (drop (k + frame_size f) (vm_stack vm)) prev (g # fs)"
    using fs k by (rule frames_on_ConsE)
  let ?vm = "vm\<lparr>num_stack_frames := num_stack_frames vm - 1\<rparr>" and ?k = "k + frame_size f"
  have sl: "slot_at ?vm = slot_at vm" by (simp add: slot_at_def [abs_def])
  have vm': "stack_in_memory ?vm" "frames_on info (slot_at ?vm) ?k (drop ?k (vm_stack ?vm)) prev (g # fs)" "?k \<le> length (vm_stack ?vm)"
    using ok p(2,5) sl by (simp_all add: stack_in_memory_def del: frames_on.simps)
  have nz: "prev \<noteq> 0" using frames_on_null [OF ok p(5,2)] by simp
  have d': "drop k (vm_stack ?vm) = frame_words f prev @ drop ?k (vm_stack ?vm)"
    "k \<le> length (vm_stack ?vm)" "fp = slot_at ?vm (k + length (fr_registers f))" using p(1,3) k sl by simp_all
  have "previous_frame vm fp = Some (Some prev)"
    using frame_reads(1) [OF ok p(1) k p(3,4)] nz by (simp add: previous_frame_def)
  then show thesis using that [OF vm'] frame_reads(2,3) [OF vm'(1) d' p(4)] n by simp
qed

lemma throw_loop_correct:
  assumes "handlers_ok info hs"
  shows "stack_in_memory vm \<Longrightarrow> frames_on info (slot_at vm) k (drop k (vm_stack vm)) fp (f # fs) \<Longrightarrow> k \<le> length (vm_stack vm) \<Longrightarrow>
    num_stack_frames vm = length (f # fs) \<Longrightarrow>
    is_innermost (pc - bytecode_ptr (info (fr_closure f))) (hs (fr_closure f)) None \<Longrightarrow> length fs < n \<Longrightarrow>
    \<exists>t handled pc' fs'. throw_loop info (handlers_of hs) error_value n fp vm = Some t \<and>
      unwinds info hs error_value pc (f # fs) handled pc' fs' \<and> thrown_is info t handled pc' fs'"
proof (induction fs arbitrary: f k fp vm n pc)
  case Nil
  obtain m where n: "n = Suc m" using Nil.prems(6) by (cases n) auto
  obtain prev where p: "drop k (vm_stack vm) = frame_words f prev @ drop (k + frame_size f) (vm_stack vm)"
    "fp = slot_at vm (k + length (fr_registers f))" "frame_shape info f" "prev = 0"
    using Nil.prems(2,3) by (rule frames_on_ConsE) simp
  note reads = frame_reads [OF Nil.prems(1) p(1) Nil.prems(3) p(2,3)]
  have "throw_loop info (handlers_of hs) error_value n fp vm = Some (Returned_error (reset_stack vm))"
    by (simp add: n previous_frame_def reads p(4))
  then show ?case
    using unwinds.uncaught [where hs = hs and info = info, OF Nil.prems(5)] reset_stack_is [OF Nil.prems(1)] by (fastforce simp: thrown_is_def)
next
  case (Cons g fs)
  obtain m where n: "n = Suc m" "length fs < m" using Cons.prems(6) by (cases n) auto
  let ?vm = "vm\<lparr>num_stack_frames := num_stack_frames vm - 1\<rparr>"
  obtain prev k' where vm': "stack_in_memory ?vm" "frames_on info (slot_at ?vm) k' (drop k' (vm_stack ?vm)) prev (g # fs)"
      "k' \<le> length (vm_stack ?vm)" "num_stack_frames ?vm = length (g # fs)"
    and reads: "previous_frame vm fp = Some (Some prev)" "is_rust_caller ?vm fp = Some (fr_rust_caller f)"
      "return_address ?vm fp = Some (fr_return_address f)" "num_stack_frames vm \<noteq> 0"
    using Cons.prems(1-4) by (rule leave_frame)
  note cur = current_frame [OF vm']
  show ?case
  proof (cases "fr_rust_caller f")
    case True
    let ?t = "Returned_error (?vm\<lparr>vm_pc := fr_return_address f, vm_fp := prev, vm_sp := slot_at ?vm k'\<rparr>)"
    have "throw_loop info (handlers_of hs) error_value n fp vm = Some ?t"
      using reads cur(2) True by (simp add: n Let_def)
    moreover have "thrown_is info ?t False (Some (fr_return_address f)) (g # fs)" using cur(3) by (simp add: thrown_is_def)
    ultimately show ?thesis using unwinds.to_rust [where hs = hs and info = info, OF Cons.prems(5) True] by blast
  next
    case False
    note step = unwinds.to_caller [where hs = hs and info = info, OF Cons.prems(5) False]
    have unfold: "throw_loop info (handlers_of hs) error_value n fp vm =
        do { (vm, found) \<leftarrow> visit_frame_for_exception_unwinding info (handlers_of hs) prev (fr_return_address f) error_value ?vm;
             if found then Some (Handled vm) else throw_loop info (handlers_of hs) error_value m prev vm }"
      using reads False by (simp add: n Let_def)
    from visit_frame_correct [OF assms vm', of "fr_return_address f" error_value] show ?thesis
    proof (elim disjE exE conjE)
      assume "visit_frame_for_exception_unwinding info (handlers_of hs) prev (fr_return_address f) error_value ?vm = Some (?vm, False)"
        and "is_innermost (fr_return_address f - bytecode_ptr (info (fr_closure g))) (hs (fr_closure g)) None"
      then show ?thesis using Cons.IH [OF vm' _ n(2)] step unfold by fastforce
    next
      fix h vm1
      assume v: "visit_frame_for_exception_unwinding info (handlers_of hs) prev (fr_return_address f) error_value ?vm = Some (vm1, True)"
        and i: "is_innermost (fr_return_address f - bytecode_ptr (info (fr_closure g))) (hs (fr_closure g)) (Some h)"
        and pc: "vm_pc vm1 = bytecode_ptr (info (fr_closure g)) + h_handler h"
        and st: "stack_is info vm1 (store_error (h_error_register h) error_value g # fs)"
      have "thrown_is info (Handled vm1) True (Some (bytecode_ptr (info (fr_closure g)) + h_handler h)) (store_error (h_error_register h) error_value g # fs)"
        using pc st by (simp add: thrown_is_def)
      moreover have "throw_loop info (handlers_of hs) error_value n fp vm = Some (Handled vm1)" unfolding unfold v by simp
      ultimately show ?thesis using step [OF unwinds.caught [where hs = hs and info = info, OF i]] by blast
    qed
  qed
qed


inductive_cases unwinds_callerE: "unwinds info hs error_value pc (f # g # fs) handled pc' fs'"
inductive_cases unwinds_lastE: "unwinds info hs error_value pc [f] handled pc' fs'"

definition sample_handlers :: "u64 \<Rightarrow> handler_builder list" where
  "sample_handlers c = (if c = 7 then [sample_handler\<lparr>h_error_register := Some (reg_local 1)\<rparr>] else [])"

lemma sample_handlers: "handlers_ok sample_info sample_handlers"
proof -
  have "no_sigil (sample_handler\<lparr>h_error_register := Some (reg_local 1)\<rparr>)"
    "hb_width (build_handlers [sample_handler\<lparr>h_error_register := Some (reg_local 1)\<rparr>]) \<noteq> ExtraWide"
    "hb_width (build_handlers []) \<noteq> ExtraWide"
    by (simp_all add: sample_handler_def no_sigil_def is_this_def reg_local_def encode_local_register_def slot_indices
      build_handlers_def handlers_add_def handlers_new_def Let_def min_width_for_unsigned_def width_simps
      operand_min_width_def min_width_for_signed_def max_def less_eq_width_enum_def)
  moreover have "1 < unat (num_registers (sample_info c)) \<and> 1 \<le> MAX_LOCAL_INDEX 32" for c by (simp add: sample_info_def max_indices)
  ultimately show ?thesis unfolding handlers_ok_def sample_handlers_def by auto
qed

end
