(* ===== verification/Generators.thy ===== *)
theory Generators
  imports Call_Stack
begin

section \<open>Generators\<close>

text \<open>
  Generator objects (\<open>runtime/generator_object.rs\<close>) and the parts of the virtual machine that
  start, suspend and resume them (\<open>bytecode/vm.rs\<close>). The frame of a suspended generator is
  saved in the generator object, with the index of the frame pointer in it and the offset of the next instruction
  in the function. Running the interpreter loop is the parameter \<open>run\<close> of the operations that
  resume a generator for JavaScript code: it takes the machine and the generator, and returns them with the
  completion, \<open>Inl\<close> a thrown value.
\<close>

datatype generator_state = SuspendedStart | SuspendedYield | Executing | Completed

record generator =
  gen_state :: generator_state
  pc_to_resume_offset :: u64
  fp_index :: nat
  completion_indices :: "(u32 \<times> u32) option"
  saved_frame :: "u64 list"

datatype completion_type = Normal | Return | Throw

primrec completion_type_value :: "completion_type \<Rightarrow> u64" where
  "completion_type_value Normal = value_bool True"
| "completion_type_value Return = value_undefined"
| "completion_type_value Throw = value_null"

definition generator_new :: "u64 \<Rightarrow> nat \<Rightarrow> (u32 \<times> u32) option \<Rightarrow> u64 list \<Rightarrow> generator" where
  "generator_new pc_offset fp_ix indices frame =
     \<lparr>gen_state = SuspendedStart, pc_to_resume_offset = pc_offset, fp_index = fp_ix, completion_indices = indices, saved_frame = frame\<rparr>"

text \<open>The copy of the frame panics when the lengths differ.\<close>

definition suspend :: "u64 \<Rightarrow> u32 \<times> u32 \<Rightarrow> u64 list \<Rightarrow> generator \<Rightarrow> generator option" where
  "suspend pc_offset indices frame g =
     (if length (saved_frame g) = length frame
      then Some (g\<lparr>gen_state := SuspendedYield, pc_to_resume_offset := pc_offset, completion_indices := Some indices, saved_frame := frame\<rparr>)
      else None)"

definition set_register :: "nat \<Rightarrow> u64 \<Rightarrow> generator \<Rightarrow> generator option" where
  "set_register index v g =
     (if index + 1 \<le> fp_index g \<and> fp_index g \<le> length (saved_frame g)
      then Some (g\<lparr>saved_frame := (saved_frame g)[fp_index g - (index + 1) := v]\<rparr>) else None)"

definition get_pc_offset :: "(u64 \<Rightarrow> function_info) \<Rightarrow> vm \<Rightarrow> u64 option" where
  "get_pc_offset info vm = do { c \<leftarrow> frame_closure vm (vm_fp vm); Some (vm_pc vm - function_ptr (info c)) }"

text \<open>
  The instructions that create a generator and that yield, once the program counter is past them:
  both return to the caller. \<open>generator_value\<close> is the value of the new object.
\<close>

definition execute_generator_start ::
  "(u64 \<Rightarrow> function_info) \<Rightarrow> gen_register \<Rightarrow> u64 \<Rightarrow> vm \<Rightarrow> (generator \<times> vm \<times> bool \<times> (u64 \<times> u64) option) option" where
  "execute_generator_start info generator_reg generator_value vm =
     do { pc_offset \<leftarrow> get_pc_offset info vm;
          let fp_ix = unat (vm_fp vm - vm_sp vm) div 8 in
          do { frame \<leftarrow> frame_as_slice info vm (vm_fp vm);
               g \<leftarrow> set_register (local_index generator_reg) generator_value (generator_new pc_offset fp_ix None frame);
               (vm, rust, outside) \<leftarrow> return_to_caller info generator_value vm;
               Some (g, vm, rust, outside) } }"

definition execute_yield ::
  "(u64 \<Rightarrow> function_info) \<Rightarrow> gen_register \<Rightarrow> gen_register \<Rightarrow> u64 \<Rightarrow> generator \<Rightarrow> vm \<Rightarrow>
     (generator \<times> vm \<times> bool \<times> (u64 \<times> u64) option) option" where
  "execute_yield info completion_value_dest completion_type_dest yield_value g vm =
     do { pc_offset \<leftarrow> get_pc_offset info vm;
          frame \<leftarrow> frame_as_slice info vm (vm_fp vm);
          g \<leftarrow> suspend pc_offset (of_nat (local_index completion_value_dest), of_nat (local_index completion_type_dest)) frame g;
          (vm, rust, outside) \<leftarrow> return_to_caller info yield_value vm;
          Some (g, vm, rust, outside) }"

fun write_slots :: "u64 \<Rightarrow> u64 list \<Rightarrow> vm \<Rightarrow> vm option" where
  "write_slots p [] vm = Some vm"
| "write_slots p (v # vs) vm = do { vm \<leftarrow> write_slot p v vm; write_slots (ptr_add p 1) vs vm }"

text \<open>\<open>resume_generator\<close> up to the point where the interpreter goes on with the generator's code.\<close>

definition resume_generator ::
  "(u64 \<Rightarrow> function_info) \<Rightarrow> generator \<Rightarrow> u64 \<Rightarrow> completion_type \<Rightarrow> u64 \<Rightarrow> vm \<Rightarrow> (vm \<times> (call_error + unit)) option" where
  "resume_generator info g completion_value completion_ty ret_value_address vm =
     (let stack_frame_size = length (saved_frame g);
          ret_address = vm_pc vm;
          parent_fp = vm_fp vm
      in case stack_depth_check stack_frame_size vm of
           (vm, Inl e) \<Rightarrow> Some (vm, Inl e)
         | (vm, Inr _) \<Rightarrow>
             let vm = vm\<lparr>vm_sp := ptr_sub (vm_sp vm) stack_frame_size\<rparr> in
             do { vm \<leftarrow> write_slots (vm_sp vm) (saved_frame g) vm;
                  let vm = vm\<lparr>vm_fp := ptr_add (vm_sp vm) (fp_index g)\<rparr> in
                  do { vm \<leftarrow> write_slot (vm_fp vm) parent_fp vm;
                       vm \<leftarrow> write_slot (ptr_add (vm_fp vm) RETURN_ADDRESS_SLOT_INDEX)
                               (encode_return_address_slot ret_address True) vm;
                       vm \<leftarrow> write_slot (ptr_add (vm_fp vm) RETURN_VALUE_ADDRESS_INDEX) ret_value_address vm;
                       vm \<leftarrow> (case completion_indices g of
                           None \<Rightarrow> Some vm
                         | Some (v, t) \<Rightarrow>
                             do { vm \<leftarrow> write_register (reg_local (unat v)) completion_value vm;
                                  write_register (reg_local (unat t)) (completion_type_value completion_ty) vm });
                       c \<leftarrow> frame_closure vm (vm_fp vm);
                       Some (vm\<lparr>vm_pc := function_ptr (info c) + pc_to_resume_offset g\<rparr>, Inr ()) } })"

subsection \<open>Operations for JavaScript code\<close>

datatype generator_result =
    IterResult u64 bool
  | YieldedResult u64
  | ThrownValue u64
  | GeneratorTypeError string

text \<open>\<open>next\<close>, \<open>return\<close> and \<open>throw\<close> of the generator prototype.\<close>

definition generator_validate :: "generator option \<Rightarrow> string + generator" where
  "generator_validate g =
     (case g of
        Some g \<Rightarrow> if gen_state g = Executing then Inl ''generator is already executing'' else Inr g
      | None \<Rightarrow> Inl ''expected generator'')"

definition generate_resume_impl ::
  "(generator \<Rightarrow> u64 \<Rightarrow> completion_type \<Rightarrow> 's \<Rightarrow> ('s \<times> generator \<times> (u64 + u64)) option) \<Rightarrow>
     generator \<Rightarrow> u64 \<Rightarrow> completion_type \<Rightarrow> 's \<Rightarrow> ('s \<times> generator \<times> generator_result) option" where
  "generate_resume_impl run g completion_value completion_ty s =
     do { (s, g, next_completion) \<leftarrow> run (g\<lparr>gen_state := Executing\<rparr>) completion_value completion_ty s;
          if gen_state g = SuspendedYield then
            Some (s, g, case next_completion of Inl e \<Rightarrow> ThrownValue e | Inr v \<Rightarrow> YieldedResult v)
          else
            let g = g\<lparr>gen_state := Completed\<rparr> in
            Some (s, g, case next_completion of Inl e \<Rightarrow> ThrownValue e
                        | Inr v \<Rightarrow> IterResult v (gen_state g = Completed)) }"

definition generator_resume ::
  "(generator \<Rightarrow> u64 \<Rightarrow> completion_type \<Rightarrow> 's \<Rightarrow> ('s \<times> generator \<times> (u64 + u64)) option) \<Rightarrow>
     generator \<Rightarrow> u64 \<Rightarrow> 's \<Rightarrow> ('s \<times> generator \<times> generator_result) option" where
  "generator_resume run g completion_value s =
     (case generator_validate (Some g) of
        Inl message \<Rightarrow> Some (s, g, GeneratorTypeError message)
      | Inr g \<Rightarrow>
          if gen_state g = Completed then Some (s, g, IterResult value_undefined True)
          else generate_resume_impl run g completion_value Normal s)"

definition generator_resume_abrupt ::
  "(generator \<Rightarrow> u64 \<Rightarrow> completion_type \<Rightarrow> 's \<Rightarrow> ('s \<times> generator \<times> (u64 + u64)) option) \<Rightarrow>
     generator \<Rightarrow> u64 \<Rightarrow> completion_type \<Rightarrow> 's \<Rightarrow> ('s \<times> generator \<times> generator_result) option" where
  "generator_resume_abrupt run g completion_value completion_ty s =
     (case generator_validate (Some g) of
        Inl message \<Rightarrow> Some (s, g, GeneratorTypeError message)
      | Inr g \<Rightarrow>
          let g = (if gen_state g = SuspendedStart then g\<lparr>gen_state := Completed\<rparr> else g) in
          if gen_state g = Completed then
            Some (s, g, if completion_ty = Return then IterResult completion_value True else ThrownValue completion_value)
          else generate_resume_impl run g completion_value completion_ty s)"

subsection \<open>Putting a saved frame back\<close>

lemma write_slots_at:
  "stack_in_memory vm \<Longrightarrow> k + length vs \<le> length (vm_stack vm) \<Longrightarrow>
   write_slots (slot_at vm k) vs vm = Some (vm\<lparr>vm_stack := take k (vm_stack vm) @ vs @ drop (k + length vs) (vm_stack vm)\<rparr>)"
proof (induction vs arbitrary: vm k)
  case (Cons v vs)
  let ?vm = "vm\<lparr>vm_stack := (vm_stack vm)[k := v]\<rparr>"
  have "stack_in_memory ?vm" "slot_at ?vm (Suc k) = slot_at vm (Suc k)" using Cons.prems(1) by (simp_all add: stack_in_memory_def slot_at_def)
  then have "write_slots (slot_at vm (Suc k)) vs ?vm =
      Some (?vm\<lparr>vm_stack := take (Suc k) (vm_stack ?vm) @ vs @ drop (Suc k + length vs) (vm_stack ?vm)\<rparr>)"
    using Cons.IH [of ?vm "Suc k"] Cons.prems by simp
  moreover have "take (Suc k) ((vm_stack vm)[k := v]) = take k (vm_stack vm) @ [v]"
    using Cons.prems(2) by (simp add: take_Suc_conv_app_nth)
  ultimately show ?case using Cons.prems by (simp add: ptr_arith write_slot_at)
qed simp

text \<open>The frame a generator runs in: its own, with the way back to whoever resumed it.\<close>

definition relinked :: "frame \<Rightarrow> u64 \<Rightarrow> u64 \<Rightarrow> frame" where
  "relinked f pc ret = f\<lparr>fr_return_address := pc, fr_rust_caller := True, fr_return_value_address := ret\<rparr>"

lemma relinked_simps [simp]:
  "fr_registers (relinked f pc ret) = fr_registers f" "fr_closure (relinked f pc ret) = fr_closure f"
  "frame_size (relinked f pc ret) = frame_size f"
  by (simp_all add: relinked_def frame_size_def)

lemma relinked_words:
  "(frame_words f prev)[length (fr_registers f) := fp, length (fr_registers f) + 1 := encode_return_address_slot pc True,
      length (fr_registers f) + 2 := ret] = frame_words (relinked f pc ret) fp"
  by (simp add: frame_words_def frame_above_def relinked_def list_update_append)

lemma relink_frame:
  assumes ok: "stack_in_memory vm" and sp: "vm_sp vm = slot_at vm k" and k: "k \<le> length (vm_stack vm)" and fit: "frame_size f \<le> k"
    and n: "num_stack_frames vm < MAX_STACK_DEPTH" and g: "saved_frame g = frame_words f prev" "fp_index g = length (fr_registers f)"
  shows "resume_generator info g cv ct ret vm =
     do { vm' \<leftarrow> (case completion_indices g of
            None \<Rightarrow> Some (entered vm k (relinked f (vm_pc vm) ret) (vm_pc vm))
          | Some (v, t) \<Rightarrow>
              do { vm' \<leftarrow> write_register (reg_local (unat v)) cv (entered vm k (relinked f (vm_pc vm) ret) (vm_pc vm));
                   write_register (reg_local (unat t)) (completion_type_value ct) vm' });
          c \<leftarrow> frame_closure vm' (vm_fp vm');
          Some (vm'\<lparr>vm_pc := function_ptr (info c) + pc_to_resume_offset g\<rparr>, Inr ()) }"
proof -
  let ?m = "k - frame_size f" and ?r = "length (fr_registers f)" and ?f = "relinked f (vm_pc vm) ret"
  let ?S = "vm_stack vm"
  let ?vm = "vm\<lparr>num_stack_frames := num_stack_frames vm + 1, vm_sp := slot_at vm ?m\<rparr>"
  let ?st = "\<lambda>ws. ?vm\<lparr>vm_fp := slot_at vm (?m + ?r), vm_stack := take ?m ?S @ ws @ drop k ?S\<rparr>"
  have "ptr_sub (vm_sp vm) (frame_size f) = slot_at vm ?m" using fit by (simp add: sp ptr_arith)
  moreover have "\<not> slot_at vm ?m < vm_base vm" using unat_slot_at [OF ok, of ?m] k by (simp add: word_less_nat_alt)
  ultimately have check: "stack_depth_check (frame_size f) vm = (vm\<lparr>num_stack_frames := num_stack_frames vm + 1\<rparr>, Inr ())"
    "ptr_sub (vm_sp vm) (frame_size f) = slot_at vm ?m"
    using n by (simp_all add: stack_depth_check_def stack_ptr_start_def)
  have "stack_in_memory ?vm" "slot_at ?vm ?m = slot_at vm ?m" using ok by (simp_all add: stack_in_memory_def slot_at_def)
  then have copy: "write_slots (slot_at vm ?m) (frame_words f prev) ?vm = Some (?vm\<lparr>vm_stack := take ?m ?S @ frame_words f prev @ drop k ?S\<rparr>)"
    using write_slots_at [of ?vm ?m "frame_words f prev"] fit k by simp
  have patch: "write_slot (slot_at vm (?m + j)) v (?st ws) = Some (?st (ws[j := v]))" if "j < frame_size f" "length ws = frame_size f" for j v ws
  proof -
    have "stack_in_memory (?st ws)" "slot_at (?st ws) (?m + j) = slot_at vm (?m + j)" "?m + j < length (vm_stack (?st ws))"
      using ok k fit that by (simp_all add: stack_in_memory_def slot_at_def)
    moreover have "(take ?m ?S @ ws @ drop k ?S)[?m + j := v] = take ?m ?S @ ws[j := v] @ drop k ?S"
      using update_middle [of j ws "take ?m ?S" "drop k ?S" v] that k by simp
    ultimately show ?thesis using write_slot_at [of "?st ws" "?m + j" v] by simp
  qed
  have sizes: "?r < frame_size f" "?r + 1 < frame_size f" "?r + 2 < frame_size f" by (simp_all add: frame_size_def)
  let ?ws = "(frame_words f prev)[?r := vm_fp vm, ?r + 1 := encode_return_address_slot (vm_pc vm) True, ?r + 2 := ret]"
  have entered: "?st ?ws = entered vm k ?f (vm_pc vm)"
    unfolding relinked_words by (rule vm.equality) (simp_all add: entered_def)
  have reorder: "w\<lparr>vm_stack := ws, vm_fp := p\<rparr> = w\<lparr>vm_fp := p, vm_stack := ws\<rparr>" for w ws p by (rule vm.equality) simp_all
  show ?thesis
    unfolding resume_generator_def Let_def g frame_words_length check prod.case sum.case
    using copy patch [OF sizes(1), of "frame_words f prev" "vm_fp vm"]
      patch [OF sizes(2), of "(frame_words f prev)[?r := vm_fp vm]" "encode_return_address_slot (vm_pc vm) True"]
      patch [OF sizes(3), of "(frame_words f prev)[?r := vm_fp vm, ?r + 1 := encode_return_address_slot (vm_pc vm) True]" ret]
      entered
    by (simp add: reorder check(2) slot_index_defs ptr_arith add.assoc)
qed

subsection \<open>Suspending and resuming\<close>

text \<open>A generator that holds the frame \<open>f\<close>, suspended at an instruction address.\<close>

definition holds_frame :: "(u64 \<Rightarrow> function_info) \<Rightarrow> generator \<Rightarrow> frame \<Rightarrow> u64 \<Rightarrow> bool" where
  "holds_frame info g f pc \<longleftrightarrow>
     (\<exists>prev. saved_frame g = frame_words f prev) \<and> fp_index g = length (fr_registers f) \<and> frame_shape info f \<and>
     function_ptr (info (fr_closure f)) + pc_to_resume_offset g = pc"

text \<open>What resuming writes into the registers of the frame.\<close>

definition delivered :: "(u32 \<times> u32) option \<Rightarrow> u64 \<Rightarrow> completion_type \<Rightarrow> frame \<Rightarrow> frame" where
  "delivered indices v ty f =
     (case indices of
        None \<Rightarrow> f
      | Some (i, j) \<Rightarrow> f\<lparr>fr_registers := (fr_registers f)[unat i := v, unat j := completion_type_value ty]\<rparr>)"

definition indices_ok :: "(u32 \<times> u32) option \<Rightarrow> frame \<Rightarrow> bool" where
  "indices_ok indices f \<longleftrightarrow>
     (case indices of
        None \<Rightarrow> True
      | Some (i, j) \<Rightarrow> unat i < length (fr_registers f) \<and> unat j < length (fr_registers f) \<and>
          unat i \<le> MAX_LOCAL_INDEX 32 \<and> unat j \<le> MAX_LOCAL_INDEX 32)"

lemma stack_is_pc: "stack_is info (vm\<lparr>vm_pc := pc\<rparr>) fs = stack_is info vm fs"
  by (simp add: stack_is_def stack_in_memory_def slot_at_def [abs_def])

lemma current_reads:
  assumes "stack_is info vm (f # fs)"
  shows "frame_closure vm (vm_fp vm) = Some (fr_closure f)" "is_rust_caller vm (vm_fp vm) = Some (fr_rust_caller f)"
    "return_value_address vm (vm_fp vm) = Some (fr_return_value_address f)" "frame_shape info f"
    "\<exists>prev. frame_as_slice info vm (vm_fp vm) = Some (frame_words f prev)"
    "unat (vm_fp vm - vm_sp vm) div 8 = length (fr_registers f)"
proof -
  obtain k prev where k: "vm_sp vm = slot_at vm k" "k + frame_size f \<le> length (vm_stack vm)" "stack_in_memory vm" "frame_shape info f"
    "vm_fp vm = slot_at vm (k + length (fr_registers f))"
    "drop k (vm_stack vm) = frame_words f prev @ drop (k + frame_size f) (vm_stack vm)"
    using assms by (rule stack_is_ConsE)
  have k': "k \<le> length (vm_stack vm)" using k(2) by simp
  note reads = frame_reads [OF k(3) k(6) k' k(5) k(4)] frame_slices(3) [OF k(3) k(6) k' k(5) k(4)]
  show "frame_closure vm (vm_fp vm) = Some (fr_closure f)" "is_rust_caller vm (vm_fp vm) = Some (fr_rust_caller f)"
    "return_value_address vm (vm_fp vm) = Some (fr_return_value_address f)" "frame_shape info f"
    "\<exists>prev. frame_as_slice info vm (vm_fp vm) = Some (frame_words f prev)"
    using reads k(4) by auto
  have r: "8 * length (fr_registers f) < 2 ^ 64" using k(2,3) by (simp add: stack_in_memory_def frame_size_def)
  have "vm_fp vm - vm_sp vm = 8 * of_nat (length (fr_registers f))"
    by (simp add: k(1,5) slot_at_def ptr_add_def algebra_simps)
  then have "unat (vm_fp vm - vm_sp vm) = 8 * length (fr_registers f)"
    using r by (simp add: unat_word_ariths unsigned_of_nat take_bit_nat_eq_self)
  then show "unat (vm_fp vm - vm_sp vm) div 8 = length (fr_registers f)" by simp
qed

lemma return_outside:
  assumes st: "stack_is info vm (f # fs)" and out: "slot_number vm (fr_return_value_address f) = None"
  shows "\<exists>vm'. return_to_caller info v vm = Some (vm', fr_rust_caller f, Some (fr_return_value_address f, v)) \<and>
     stack_is info vm' fs \<and> vm_pc vm' = fr_return_address f"
proof -
  obtain vm' where "pop_stack_frame info vm = Some vm'" "stack_is info vm' fs" "vm_pc vm' = fr_return_address f"
    using return_pops [OF st] by blast
  then show ?thesis using current_reads(2,3) [OF st] out by (simp add: return_to_caller_def)
qed

lemma resume_correct:
  assumes st: "stack_is info vm fs" and pc: "\<not> bit (vm_pc vm) 63" and g: "holds_frame info g f pc'"
    and ix: "indices_ok (completion_indices g) f"
    and room: "stack_used (f # fs) \<le> length (vm_stack vm)" and depth: "length fs < MAX_STACK_DEPTH"
  shows "\<exists>vm'. resume_generator info g v ty ret vm = Some (vm', Inr ()) \<and> vm_pc vm' = pc' \<and>
     stack_is info vm' (delivered (completion_indices g) v ty (relinked f (vm_pc vm) ret) # fs)"
proof -
  obtain k where k: "k = length (vm_stack vm) - stack_used fs" "stack_used fs \<le> length (vm_stack vm)" "stack_in_memory vm"
      "num_stack_frames vm = length fs" "vm_sp vm = slot_at vm k" "k \<le> length (vm_stack vm)"
      "frames_on info (slot_at vm) k (drop k (vm_stack vm)) (vm_fp vm) fs"
    using st by (rule stack_isE)
  obtain prev where g': "saved_frame g = frame_words f prev" "fp_index g = length (fr_registers f)" "frame_shape info f"
      "function_ptr (info (fr_closure f)) + pc_to_resume_offset g = pc'" using g by (auto simp: holds_frame_def)
  let ?f = "relinked f (vm_pc vm) ret" and ?e = "entered vm k (relinked f (vm_pc vm) ret) (vm_pc vm)"
  have fit: "frame_size f \<le> k" using room k(1,2) by simp
  have "frame_shape info ?f" using g'(3) pc by (simp add: frame_shape_def relinked_def)
  then have e: "stack_is info ?e (?f # fs)" using entered_is(1) [OF k(3,4,6,7)] fit by simp
  have "\<exists>vm'. (case completion_indices g of None \<Rightarrow> Some ?e
        | Some (i, j) \<Rightarrow> do { vm' \<leftarrow> write_register (reg_local (unat i)) v ?e;
              write_register (reg_local (unat j)) (completion_type_value ty) vm' }) = Some vm' \<and>
      stack_is info vm' (delivered (completion_indices g) v ty ?f # fs)"
  proof (cases "completion_indices g")
    case (Some p)
    obtain i j where p: "p = (i, j)" by fastforce
    have ij: "unat i < length (fr_registers ?f)" "unat i \<le> MAX_LOCAL_INDEX 32" "unat j < length (fr_registers f)" "unat j \<le> MAX_LOCAL_INDEX 32"
      using ix Some p by (simp_all add: indices_ok_def)
    obtain vm1 where 1: "write_register (reg_local (unat i)) v ?e = Some vm1"
        "stack_is info vm1 (?f\<lparr>fr_registers := (fr_registers ?f)[unat i := v]\<rparr> # fs)"
      using register_accesses(2) [OF e ij(1,2)] by blast
    have "unat j < length (fr_registers (?f\<lparr>fr_registers := (fr_registers ?f)[unat i := v]\<rparr>))" using ij(3) by simp
    from register_accesses(2) [OF 1(2) this ij(4), of "completion_type_value ty"] show ?thesis
      using 1(1) Some p by (auto simp: delivered_def)
  qed (use e in \<open>simp add: delivered_def\<close>)
  then obtain vm' where vm': "(case completion_indices g of None \<Rightarrow> Some ?e
        | Some (i, j) \<Rightarrow> do { vm' \<leftarrow> write_register (reg_local (unat i)) v ?e;
              write_register (reg_local (unat j)) (completion_type_value ty) vm' }) = Some vm'"
      "stack_is info vm' (delivered (completion_indices g) v ty ?f # fs)" by blast
  have "fr_closure (delivered (completion_indices g) v ty ?f) = fr_closure f"
    by (simp add: delivered_def split: option.splits prod.splits)
  then have "frame_closure vm' (vm_fp vm') = Some (fr_closure f)" using current_reads(1) [OF vm'(2)] by simp
  then show ?thesis
    using relink_frame [OF k(3,5,6) fit _ g'(1,2)] depth k(4) vm' g'(4) by (simp add: stack_is_pc)
qed

lemma pc_offset_back:
  assumes "stack_is info vm (f # fs)"
  obtains off where "get_pc_offset info vm = Some off" "function_ptr (info (fr_closure f)) + off = vm_pc vm"
  using current_reads(1) [OF assms] by (simp add: get_pc_offset_def)

lemma start_holds:
  assumes st: "stack_is info vm (f # fs)" and out: "slot_number vm (fr_return_value_address f) = None"
    and i: "i < length (fr_registers f)" "i \<le> MAX_LOCAL_INDEX 32"
  shows "\<exists>g vm'. execute_generator_start info (reg_local i) gv vm =
       Some (g, vm', fr_rust_caller f, Some (fr_return_value_address f, gv)) \<and>
     holds_frame info g (f\<lparr>fr_registers := (fr_registers f)[i := gv]\<rparr>) (vm_pc vm) \<and> completion_indices g = None \<and>
     gen_state g = SuspendedStart \<and> stack_is info vm' fs \<and> vm_pc vm' = fr_return_address f"
proof -
  obtain off where off: "get_pc_offset info vm = Some off" "function_ptr (info (fr_closure f)) + off = vm_pc vm"
    using st by (rule pc_offset_back)
  obtain prev where prev: "frame_as_slice info vm (vm_fp vm) = Some (frame_words f prev)" using current_reads(5) [OF st] by blast
  obtain vm' where vm': "return_to_caller info gv vm = Some (vm', fr_rust_caller f, Some (fr_return_value_address f, gv))"
      "stack_is info vm' fs" "vm_pc vm' = fr_return_address f" using return_outside [OF st out] by blast
  let ?g = "generator_new off (length (fr_registers f)) None (frame_words (f\<lparr>fr_registers := (fr_registers f)[i := gv]\<rparr>) prev)"
  have "set_register (local_index (reg_local i :: gen_register)) gv (generator_new off (length (fr_registers f)) None (frame_words f prev)) = Some ?g"
    using i frame_words_register(2) [OF i(1), of prev gv]
    by (simp add: set_register_def generator_new_def local_index_u32 frame_size_def)
  then have "execute_generator_start info (reg_local i) gv vm = Some (?g, vm', fr_rust_caller f, Some (fr_return_value_address f, gv))"
    using off(1) prev vm'(1) current_reads(6) [OF st] by (simp add: execute_generator_start_def)
  moreover have "holds_frame info ?g (f\<lparr>fr_registers := (fr_registers f)[i := gv]\<rparr>) (vm_pc vm)"
    using off(2) current_reads(4) [OF st] by (auto simp: holds_frame_def generator_new_def frame_shape_def)
  ultimately show ?thesis using vm'(2,3) by (fastforce simp: generator_new_def)
qed

lemma yield_holds:
  assumes st: "stack_is info vm (f # fs)" and out: "slot_number vm (fr_return_value_address f) = None"
    and ij: "i \<le> MAX_LOCAL_INDEX 32" "j \<le> MAX_LOCAL_INDEX 32"
    and g: "length (saved_frame g) = frame_size f" "fp_index g = length (fr_registers f)"
  shows "\<exists>g' vm'. execute_yield info (reg_local i) (reg_local j) y g vm =
       Some (g', vm', fr_rust_caller f, Some (fr_return_value_address f, y)) \<and>
     holds_frame info g' f (vm_pc vm) \<and> completion_indices g' = Some (of_nat i, of_nat j) \<and>
     gen_state g' = SuspendedYield \<and> stack_is info vm' fs \<and> vm_pc vm' = fr_return_address f"
proof -
  obtain off where off: "get_pc_offset info vm = Some off" "function_ptr (info (fr_closure f)) + off = vm_pc vm"
    using st by (rule pc_offset_back)
  obtain prev where prev: "frame_as_slice info vm (vm_fp vm) = Some (frame_words f prev)" using current_reads(5) [OF st] by blast
  obtain vm' where vm': "return_to_caller info y vm = Some (vm', fr_rust_caller f, Some (fr_return_value_address f, y))"
      "stack_is info vm' fs" "vm_pc vm' = fr_return_address f" using return_outside [OF st out] by blast
  let ?g = "g\<lparr>gen_state := SuspendedYield, pc_to_resume_offset := off, completion_indices := Some (of_nat i, of_nat j), saved_frame := frame_words f prev\<rparr>"
  have "execute_yield info (reg_local i) (reg_local j) y g vm = Some (?g, vm', fr_rust_caller f, Some (fr_return_value_address f, y))"
    using off(1) prev vm'(1) g ij by (simp add: execute_yield_def suspend_def local_index_u32)
  moreover have "holds_frame info ?g f (vm_pc vm)" using off(2) g(2) current_reads(4) [OF st] by (auto simp: holds_frame_def)
  ultimately show ?thesis using vm'(2,3) by fastforce
qed

text \<open>
  C16: a generator goes on where it yielded: yielding gives the value to whoever resumed the generator and
  takes its frame off the stack; resuming it later, on any stack with room and with any completion, puts the frame
  back with all its registers and arguments, the completion in the two registers that the yield named and the way back
  to the new caller, and continues with the instruction after the yield.
\<close>

theorem generator_resumes:
  assumes "stack_is info vm (f # fs)" "slot_number vm (fr_return_value_address f) = None"
    and "i < length (fr_registers f)" "j < length (fr_registers f)" "i \<le> MAX_LOCAL_INDEX 32" "j \<le> MAX_LOCAL_INDEX 32"
    and "length (saved_frame g) = frame_size f" "fp_index g = length (fr_registers f)"
    and vm2: "stack_is info vm2 fs2" "\<not> bit (vm_pc vm2) 63" "stack_used (f # fs2) \<le> length (vm_stack vm2)" "length fs2 < MAX_STACK_DEPTH"
  shows "\<exists>g' vm1 vm3. execute_yield info (reg_local i) (reg_local j) y g vm =
       Some (g', vm1, fr_rust_caller f, Some (fr_return_value_address f, y)) \<and>
     stack_is info vm1 fs \<and> vm_pc vm1 = fr_return_address f \<and> gen_state g' = SuspendedYield \<and>
     resume_generator info g' v ty ret vm2 = Some (vm3, Inr ()) \<and> vm_pc vm3 = vm_pc vm \<and>
     stack_is info vm3 (f\<lparr>fr_return_address := vm_pc vm2, fr_rust_caller := True, fr_return_value_address := ret,
       fr_registers := (fr_registers f)[i := v, j := completion_type_value ty]\<rparr> # fs2)"
proof -
  obtain g' vm1 where g': "execute_yield info (reg_local i) (reg_local j) y g vm =
       Some (g', vm1, fr_rust_caller f, Some (fr_return_value_address f, y))" "holds_frame info g' f (vm_pc vm)"
      "completion_indices g' = Some (of_nat i, of_nat j)" "gen_state g' = SuspendedYield" "stack_is info vm1 fs" "vm_pc vm1 = fr_return_address f"
    using yield_holds [OF assms(1,2,5,6,7,8)] by blast
  have "MAX_LOCAL_INDEX 32 < 2 ^ 32" by (simp add: max_indices)
  then have ij: "unat (of_nat i :: u32) = i" "unat (of_nat j :: u32) = j" using assms(5,6) by (simp_all add: unsigned_of_nat take_bit_nat_eq_self)
  have "indices_ok (completion_indices g') f" using assms(3-6) by (simp add: g'(3) indices_ok_def ij)
  then obtain vm3 where "resume_generator info g' v ty ret vm2 = Some (vm3, Inr ())" "vm_pc vm3 = vm_pc vm"
      "stack_is info vm3 (delivered (completion_indices g') v ty (relinked f (vm_pc vm2) ret) # fs2)"
    using resume_correct [OF vm2(1,2) g'(2) _ vm2(3,4)] by blast
  then show ?thesis using g' by (auto simp: delivered_def relinked_def ij)
qed

theorem generator_resumes_witness:
  "\<exists>vm g' vm1 vm3. push_stack_frame sample_info 7 8 [9] 1 True 0 sample_vm = Some (vm, Inr ()) \<and>
     execute_yield sample_info (reg_local 0) (reg_local 1) 5 (generator_new 0 2 None (replicate 11 0)) vm = Some (g', vm1, True, Some (0, 5)) \<and>
     stack_is sample_info vm1 [] \<and> resume_generator sample_info g' 6 Normal 16 sample_vm = Some (vm3, Inr ()) \<and> vm_pc vm3 = 300"
proof -
  obtain vm1 vm2 f g where s: "push_stack_frame sample_info 7 8 [9] 1 True 0 sample_vm = Some (vm1, Inr ())"
    "g = new_frame sample_info 7 8 [9] True 0 50" "stack_is sample_info vm1 [g]" "vm_pc vm1 = 300" by (rule sample_calls)
  obtain vm where vm: "push_stack_frame sample_info 7 8 [9] 1 True 0 sample_vm = Some (vm, Inr ())" "vm_base vm = 4096" "length (vm_stack vm) = 30"
    using call_enters [of sample_info sample_vm "[]" "[9]" g 7 8 True 0] sample_vm s(2) by (auto simp: sample_frame_size MAX_STACK_DEPTH_def)
  have g: "length (fr_registers g) = 2" "frame_size g = 11" "fr_return_value_address g = 0" "fr_rust_caller g"
    unfolding s(2) by (simp_all add: sample_frame_size) (simp_all add: new_frame_def sample_info_def)
  have "slot_number vm1 0 = None" using s(1) vm by (simp add: slot_number_def)
  then have "slot_number vm1 (fr_return_value_address g) = None" using g(3) by simp
  moreover have "\<not> bit (vm_pc sample_vm) 63" using sample_vm(2) by simp
  ultimately obtain g' vm2' vm3 where "execute_yield sample_info (reg_local 0) (reg_local 1) 5 (generator_new 0 2 None (replicate 11 0)) vm1 =
      Some (g', vm2', True, Some (0, 5))" "stack_is sample_info vm2' []" "resume_generator sample_info g' 6 Normal 16 sample_vm = Some (vm3, Inr ())" "vm_pc vm3 = 300"
    using generator_resumes [of sample_info vm1 g "[]" 0 1 "generator_new 0 2 None (replicate 11 0)" sample_vm "[]" 5 6 Normal 16]
      s(3,4) g sample_vm(1,3) by (auto simp: generator_new_def max_indices MAX_STACK_DEPTH_def)
  then show ?thesis using s(1) by blast
qed

subsection \<open>The states of a generator\<close>

text \<open>
  Whatever code runs, a call leaves the generator suspended at a yield or completed; a running generator is refused and
  unchanged; and a completed one stays completed without running anything.
\<close>

lemma generate_resume_impl_states:
  assumes "generate_resume_impl run g v ty s = Some (s', g', r)"
  shows "gen_state g' \<in> {SuspendedYield, Completed}"
proof -
  obtain s1 g1 c where "run (g\<lparr>gen_state := Executing\<rparr>) v ty s = Some (s1, g1, c)"
    using assms by (auto simp: generate_resume_impl_def bind_eq_Some_conv)
  then show ?thesis using assms by (cases "gen_state g1 = SuspendedYield") (auto simp: generate_resume_impl_def Let_def)
qed

lemma generator_resume_states:
  "generator_resume run g v s = Some (s', g', r) \<Longrightarrow> gen_state g = Executing \<and> s' = s \<and> g' = g \<or> gen_state g' \<in> {SuspendedYield, Completed}"
  "generator_resume_abrupt run g v ty s = Some (s', g', r) \<Longrightarrow> gen_state g = Executing \<and> s' = s \<and> g' = g \<or> gen_state g' \<in> {SuspendedYield, Completed}"
  using generate_resume_impl_states
  by (auto simp: generator_resume_def generator_resume_abrupt_def generator_validate_def Let_def split: if_splits dest!: generate_resume_impl_states)

lemma completed_stays:
  "gen_state g = Completed \<Longrightarrow> generator_resume run g v s = Some (s, g, IterResult value_undefined True)"
  "gen_state g = Completed \<Longrightarrow> generator_resume_abrupt run g v ty s =
     Some (s, g, if ty = Return then IterResult v True else ThrownValue v)"
  by (simp_all add: generator_resume_def generator_resume_abrupt_def generator_validate_def)
end
