(* ===== verification/Spec2Isabelle.thy ===== *)
theory Spec2Isabelle
  imports Gc_Cycle Wtf8 Source_Map Forward_Jumps Prototype_Chains Regexp_Safety Rope_String Promise_Tasks Unwinding Generators
begin

text \<open>
  A verification library for SO2JS, a JavaScript engine written in Rust.

  \<^bold>\<open>The program.\<close> Source text is parsed into a syntax tree, the bytecode generator turns every function
  into bytecode with a constant table, handler table and source map, and a register machine runs the
  bytecode over a heap that an incremental mark and sweep collector manages. Regular expressions are compiled
  to a bytecode of their own and run by a backtracking matcher. Promises put their reactions on a queue of tasks
  that runs when the machine is idle. Paths below are relative to \<open>src/so2js\<close>, except for the
  collector, which is the crate \<open>src/so2js_gc\<close>.

  \<^bold>\<open>Conventions.\<close> Machine integers are words of their width and \<open>usize\<close> has 64 bits. A panic and an
  access outside of live memory are \<open>None\<close>; errors that the code returns are \<open>Inl\<close>. Structs are
  records, enums are datatypes, and state is passed explicitly. Loops are recursive functions with a termination
  proof; where the source gives no bound they take fuel or are partial functions, and the theorems then state
  that they return. What the sources only call is a parameter: the hash function of the maps, the visitor and
  the tracing of objects for the collector, the tables and case mappings of ICU, the placement of new strings on the
  heap, and the JavaScript code that a getter, a promise reaction or a generator runs.

  \<^bold>\<open>Theories.\<close>

  \<^descr> \<^theory_text>\<open>Prelude\<close>: types and shared facts. \<^theory_text>\<open>Codec\<close>: the interface of self-delimiting
  encodings, interpreted for varints, UTF-8, source map entries and handler entries. \<^theory_text>\<open>Ordered_Store\<close>:
  the interface of map stores. \<^theory_text>\<open>Nested_Calls\<close>: the interface of a call stack.

  \<^descr> \<^theory_text>\<open>Gc_Heap\<close>, \<^theory_text>\<open>Gc_Mark\<close>, \<^theory_text>\<open>Gc_Sweep\<close>, \<^theory_text>\<open>Gc_Cycle\<close>
  (\<open>gc_header.rs\<close>, \<open>gray_queue.rs\<close>, \<open>heap.rs\<close>, \<open>Context::run_gc\<close>): a cycle ends, frees
  exactly the objects that the roots do not reach and leaves the heap ready for the next; the write barrier keeps the tri-color
  invariant; an allocation at the wrong moment of the sweep loses an object from the list.

  \<^descr> \<^theory_text>\<open>F64\<close>, \<^theory_text>\<open>Value\<close>, \<^theory_text>\<open>Value_Equality\<close>, \<^theory_text>\<open>Conversions\<close>
  (\<open>runtime/value.rs\<close>, \<open>type_utilities.rs\<close>): NaN boxing round trips, the three equality relations against abstract values, and
  conversions to machine integers modulo their width.

  \<^descr> \<^theory_text>\<open>Varint\<close>, \<^theory_text>\<open>Unicode\<close>, \<^theory_text>\<open>Wtf8\<close>, \<^theory_text>\<open>Lexer_Stream\<close>
  (\<open>common/varint.rs\<close>, \<open>unicode.rs\<close>, \<open>wtf_8.rs\<close>, \<open>string_iterators.rs\<close>, \<open>parser/lexer_stream.rs\<close>):
  encodings of numbers and code points, and the streams that the matcher reads, which show the code points that the units encode.

  \<^descr> \<^theory_text>\<open>Flat_String\<close>, \<^theory_text>\<open>Rope_String\<close> (\<open>runtime/string_value.rs\<close>): a concat string stands for the
  units of its two sides; flattening ends, keeps what every string stands for and forwards the string; searching, ordering,
  trimming and the conversion through WTF-8 are correct for every shape and width of string.

  \<^descr> \<^theory_text>\<open>Index_Map\<close>, \<^theory_text>\<open>Hash_Map\<close> (\<open>runtime/collections\<close>): the maps implement the
  interfaces of \<^theory_text>\<open>Ordered_Store\<close> over any sequence of operations, and iterators survive growth.

  \<^descr> \<^theory_text>\<open>Property\<close>, \<^theory_text>\<open>Array_Properties\<close>, \<^theory_text>\<open>Ordinary_Object\<close>,
  \<^theory_text>\<open>Object_Invariants\<close>, \<^theory_text>\<open>Essential_Invariants\<close>, \<^theory_text>\<open>Prototype_Chains\<close>
  (\<open>runtime/property*.rs\<close>, \<open>array_properties.rs\<close>, \<open>object_value.rs\<close>, \<open>ordinary_object.rs\<close>, \<open>array_object.rs\<close>,
  \<open>abstract_operations.rs\<close>): defining a property refines the specification of ECMAScript, the essential invariants hold over any sequence
  of operations, and walks along prototypes end.

  \<^descr> \<^theory_text>\<open>Bytecode_Operand\<close>, \<^theory_text>\<open>Instruction_Table\<close>, \<^theory_text>\<open>Bytecode_Writer\<close>,
  \<^theory_text>\<open>Source_Map\<close>, \<^theory_text>\<open>Exception_Handlers\<close>, \<^theory_text>\<open>Constant_Table\<close>, \<^theory_text>\<open>Forward_Jumps\<close>
  (\<open>runtime/bytecode\<close>): what is written is read back, every jump lands at the start of its block, constants are found at their
  index, and instructions have their source position.

  \<^descr> \<^theory_text>\<open>Call_Stack\<close>, \<^theory_text>\<open>Unwinding\<close>, \<^theory_text>\<open>Generators\<close> (\<open>bytecode/stack_frame.rs\<close>,
  \<open>bytecode/vm.rs\<close>, \<open>generator_object.rs\<close>): the array of stack slots refines a list of frames under calls, returns, exceptions,
  yields and resumptions; the collector finds all roots in it; a throw reaches the innermost handler of the nearest frame that has one.

  \<^descr> \<^theory_text>\<open>Promises\<close>, \<^theory_text>\<open>Promise_Tasks\<close> (\<open>promise_object.rs\<close>, \<open>tasks.rs\<close>,
  \<open>intrinsics/promise_constructor.rs\<close>, \<open>promise_prototype.rs\<close>): whatever user code does, no promise is settled twice and the
  loop does not panic; queued tasks run in order, reactions in the order of their registration.

  \<^descr> \<^theory_text>\<open>Regexp_Instruction\<close>, \<^theory_text>\<open>Regexp_Class\<close>, \<^theory_text>\<open>Regexp_Compiler\<close>,
  \<^theory_text>\<open>Regexp_Quantifier\<close>, \<^theory_text>\<open>Regexp_Blocks\<close>, \<^theory_text>\<open>Regexp_Emission\<close> (\<open>parser/regexp.rs\<close>,
  \<open>runtime/regexp/instruction.rs\<close>, \<open>compiler.rs\<close>): the compiler and the invariant that it keeps of its blocks.
  \<^theory_text>\<open>Regexp_Matcher\<close>, \<^theory_text>\<open>Regexp_Search\<close>, \<^theory_text>\<open>Regexp_Refinement\<close>, \<^theory_text>\<open>Regexp_Safety\<close>
  (\<open>matcher.rs\<close>): the engine with its backtrack stack equals a search without one, and compiled code never panics when it has no
  backreferences and lookbehinds.

  \<^bold>\<open>Interaction.\<close> The handler tables of the writer are those that unwinding searches; registers are the operands that the
  allocator hands out; the properties of objects are kept in the maps and arrays; the matcher reads flat strings through the lexer
  streams; frames are the roots that the collector starts from; generators are resumed by the tasks of promises.

  \<^bold>\<open>Bounds and fuel.\<close> The walk along the stack takes as many steps as there are slots and unwinding as many as frames; both are shown
  to be enough. The matcher takes fuel, since a regular expression may run for an exponential time; its theorems hold for every amount.
  The task loop takes a bound, since tasks may queue tasks for ever; the theorem on queued tasks says which tasks have run
  within it. The stack lies at least \<open>2 ^ 40\<close> bytes above address 0 in the theorem on nested calls, so that the address
  computation of the overflow check does not wrap; a frame takes less than that.

  \<^bold>\<open>Not modelled.\<close> The lexer, the parser, the scope analysis and the parser of regular expressions, whose correctness is relative
  to the grammar of ECMAScript; the generation of bytecode for single constructs and the dispatch loop over instructions, which need
  that syntax tree and the library of built-ins; the built-ins themselves, proxies and other exotic objects, modules, async
  generators, realms and eval, which follow the text of the specification and mostly call user code; interning, number parsing and case
  mapping of strings; the raw layout of heap items and handles; generated Unicode data, macros, the example program, benchmarks and tests.
\<close>

end
